(* ===== verification/Kernel_Prelude.thy ===== *)
theory Kernel_Prelude
  imports Main "HOL-Library.Word"
begin

text \<open>
  Shared vocabulary of the development: the machine integer types of the C
  sources, the collections of facts the component theories extend, and generic
  lemmas on words (reading a word through \<^const>\<open>unat\<close>, page arithmetic, single
  bits), on lists and on finite counting that several components use.
\<close>

unbundle bit_operations_syntax

section \<open>Machine types\<close>

type_synonym u8 = "8 word"
type_synonym u16 = "16 word"
type_synonym u32 = "32 word"
type_synonym u64 = "64 word"

named_theorems word_nat \<open>how unat commutes with the word operations of the sources\<close>
named_theorems inv_pres \<open>invariant preservation lemmas of the components\<close>

section \<open>Words read as naturals\<close>

lemma unat_lt_64: "unat (x :: u64) < 2 ^ 64"
  using unsigned_less [of x] by simp

lemma unat_lt_32: "unat (x :: u32) < 2 ^ 32"
  using unsigned_less [of x] by simp

lemma unat_lt_16: "unat (x :: u16) < 2 ^ 16"
  using unsigned_less [of x] by simp

lemma unat_lt_8: "unat (x :: u8) < 2 ^ 8"
  using unsigned_less [of x] by simp

lemma unat_of_nat_32: "n < 2 ^ 32 \<Longrightarrow> unat (of_nat n :: u32) = n"
  by (simp add: unat_of_nat take_bit_nat_eq_self)

lemma sint_of_nat_32: "n < 2 ^ 31 \<Longrightarrow> sint (of_nat n :: u32) = int n"
  by (simp add: signed_of_nat signed_take_bit_int_eq_self)

lemma sint_small_32: "unat t < 2 ^ 31 \<Longrightarrow> sint t = int (unat t)" for t :: u32
  using sint_of_nat_32 [of "unat t"] by simp

lemma unat_of_nat_64 [word_nat]: "n < 2 ^ 64 \<Longrightarrow> unat (of_nat n :: u64) = n"
  by (simp add: unat_of_nat take_bit_nat_eq_self)

lemma unat_plus_64 [word_nat]:
  "unat (x :: u64) + unat y < 2 ^ 64 \<Longrightarrow> unat (x + y) = unat x + unat y"
  by (subst unat_add_lem [symmetric]) simp

lemma unat_mult_64 [word_nat]:
  "unat (x :: u64) * unat y < 2 ^ 64 \<Longrightarrow> unat (x * y) = unat x * unat y"
  by (subst unat_mult_lem [symmetric]) simp

lemma unat_minus_64 [word_nat]:
  "unat (y :: u64) \<le> unat x \<Longrightarrow> unat (x - y) = unat x - unat y"
  by (simp add: unat_sub word_le_nat_alt)

lemma unat_push_64 [word_nat]:
  "unat (x :: u64) * 2 ^ n < 2 ^ 64 \<Longrightarrow> n < 64 \<Longrightarrow> unat (push_bit n x) = unat x * 2 ^ n"
  proof -
  assume *: "unat x * 2 ^ n < 2 ^ 64" "n < 64"
  have "unat (2 ^ n :: u64) = 2 ^ n"
    using unat_of_nat_64 [of "2 ^ n"] power_strict_increasing [of n 64 "2::nat"] *(2) by simp
  then show ?thesis
    using * by (simp add: push_bit_eq_mult unat_mult_64)
qed

lemma unat_drop_64 [word_nat]: "unat (drop_bit n (x :: u64)) = unat x div 2 ^ n"
  by (simp add: unat_drop_bit_eq flip: drop_bit_eq_div)


lemma and_not_mask: "(x :: 'a :: len word) AND NOT (mask n) = push_bit n (drop_bit n x)"
  by (rule bit_word_eqI) (auto simp: bit_simps)

lemma unat_and_not_mask [word_nat]:
  assumes "n < 64"
  shows "unat ((x :: u64) AND NOT (mask n)) = unat x div 2 ^ n * 2 ^ n"
proof -
  have "unat (drop_bit n x) * 2 ^ n < 2 ^ 64"
    using unat_lt_64 [of x] div_times_less_eq_dividend [of "unat x" "2 ^ n"]
    by (simp only: unat_drop_64)
  then show ?thesis
    using assms by (simp only: and_not_mask unat_push_64 unat_drop_64)
qed


text \<open>Rounding a byte count up to whole pages, on naturals.\<close>

definition page_up :: "nat \<Rightarrow> nat" where
  "page_up n = (n + 4095) div 4096 * 4096"

lemma page_up_minus: "page_up n = n + 4095 - (n + 4095) mod 4096"
  by (simp add: page_up_def minus_mod_eq_div_mult)

lemma page_up_ge: "n \<le> page_up n"
proof -
  have "(n + 4095) mod 4096 < 4096" by simp
  then show ?thesis unfolding page_up_minus by linarith
qed

lemma page_up_le: "page_up n \<le> n + 4095"
  unfolding page_up_minus by (rule diff_le_self)

lemma page_up_dvd [simp]: "4096 dvd page_up n"
  by (simp add: page_up_def)

lemma page_up_least:
  assumes "n \<le> m" "4096 dvd m" shows "page_up n \<le> m"
proof -
  obtain k where k: "m = 4096 * k" using assms(2) by auto
  have "(n + 4095) div 4096 \<le> (4096 * k + 4095) div 4096"
    using assms(1) k by (intro div_le_mono) simp
  also have "\<dots> = k" by simp
  finally show ?thesis by (simp add: page_up_def k)
qed

lemma unat_ucast_64_32: "unat (ucast (w :: u64) :: u32) = unat w mod 2 ^ 32"
  by (simp add: unsigned_ucast_eq take_bit_eq_mod)

section \<open>Exclusive or\<close>

lemma xor_cancel_left: "(c :: 'a :: len word) XOR a = c XOR b \<longleftrightarrow> a = b"
proof
  assume "c XOR a = c XOR b"
  then have "c XOR (c XOR a) = c XOR (c XOR b)" by simp
  then show "a = b" by (simp flip: xor.assoc)
qed simp

lemma xor_cancel_right: "(a :: 'a :: len word) XOR c = b XOR c \<longleftrightarrow> a = b"
  using xor_cancel_left [of c a b] by (simp add: xor.commute)

section \<open>Tilings\<close>

text \<open>A range of \<open>r\<close> units cut into pieces of at most \<open>s\<close>: offsets and lengths.\<close>

definition tiles :: "nat \<Rightarrow> nat \<Rightarrow> (nat \<times> nat) list" where
  "tiles s r = map (\<lambda>i. (i * s, min s (r - i * s))) [0..<(r + s - 1) div s]"

lemma tiles_0 [simp]: "tiles s 0 = []"
  by (cases s) (simp_all add: tiles_def)

lemma tiles_step:
  assumes "0 < s" "0 < r"
  shows "tiles s r = (0, min s r) # map (\<lambda>(off, l). (off + s, l)) (tiles s (r - s))"
proof -
  have "(r + s - 1) div s = Suc ((r - s + s - 1) div s)"
  proof (cases "r \<le> s")
    case True
    then have "(r + s - 1) div s = 1" using assms by (intro div_nat_eqI) simp_all
    then show ?thesis using True assms by simp
  next
    case False
    then have e: "r + s - 1 = (r - 1) + s" "r - s + s - 1 = r - 1" using assms by simp_all
    have "((r - 1) + s) div s = (r - 1) div s + 1" using assms by (intro div_add_self2) simp
    then show ?thesis unfolding e by simp
  qed
  then have "tiles s r = map (\<lambda>i. (i * s, min s (r - i * s))) [0..<Suc ((r - s + s - 1) div s)]" by (simp only: tiles_def)
  also have "\<dots> = (0, min s r) # map (\<lambda>i. (Suc i * s, min s (r - Suc i * s))) [0..<(r - s + s - 1) div s]"
    by (subst map_upt_Suc) simp
  finally show ?thesis by (simp add: tiles_def case_prod_beta ac_simps)
qed

lemma tiles_induct [consumes 1, case_names none piece]:
  assumes "0 < (s :: nat)" "P 0" "\<And>r. 0 < r \<Longrightarrow> P (r - s) \<Longrightarrow> P r"
  shows "P r"
proof (induction r rule: less_induct)
  case (less r)
  then show ?case using assms by (cases "r = 0") auto
qed

lemma tiles_range:
  assumes "0 < s"
  shows "concat (map (\<lambda>(off, l). [a + off..<a + off + l]) (tiles s r)) = [a..<a + r]"
  using assms
proof (induction r arbitrary: a rule: tiles_induct)
  case (piece r)
  have "concat (map (\<lambda>(off, l). [a + s + off..<a + s + off + l]) (tiles s (r - s))) = [a + s..<a + s + (r - s)]" by (rule piece.IH)
  moreover have "[a..<a + min s r] @ [a + s..<a + s + (r - s)] = [a..<a + r]"
  proof (cases "s \<le> r")
    case True
    then show ?thesis using upt_add_eq_append [of a "a + s" "r - s"] by simp
  qed simp
  ultimately show ?case using assms piece.hyps by (simp add: tiles_step case_prod_unfold comp_def ac_simps)
qed simp

lemma tiles_sum:
  assumes s: "0 < s"
  shows "sum_list (map snd (tiles s r)) = r"
  using s
proof (induction r rule: tiles_induct)
  case (piece r)
  then show ?case using piece s by (simp add: tiles_step case_prod_unfold comp_def)
qed simp

lemma tiles_mem: "0 < s \<Longrightarrow> (off, l) \<in> set (tiles s r) \<Longrightarrow> 0 < l \<and> l \<le> s \<and> off + l \<le> r"
proof -
  assume s: "0 < s" and "(off, l) \<in> set (tiles s r)"
  then obtain i where i: "i < (r + s - 1) div s" "off = i * s" "l = min s (r - i * s)" by (auto simp: tiles_def)
  have "Suc i * s \<le> (r + s - 1) div s * s" using i(1) by (intro mult_le_mono1) simp
  also have "\<dots> \<le> r + s - 1" by (simp add: div_times_less_eq_dividend)
  finally have "i * s < r" using s by simp
  then show ?thesis using i s by auto
qed

lemma tiles_length: "0 < s \<Longrightarrow> r \<le> k * s \<Longrightarrow> length (tiles s r) \<le> k"
proof -
  assume s: "0 < s" "r \<le> k * s"
  then have "(r + s - 1) div s \<le> (k * s + s - 1) div s" by (intro div_le_mono) simp
  also have "\<dots> = k" using s(1) by (intro div_nat_eqI) (simp_all add: algebra_simps)
  finally show ?thesis by (simp add: tiles_def)
qed

end
