(* ===== verification/Page_Alloc_Spec.thy ===== *)
theory Page_Alloc_Spec
  imports Kernel_Prelude
begin

text \<open>
  What the rest of the kernel relies on from a page allocator, as a locale: a
  successful allocation returns pages nobody owns, a failed one changes
  nothing, and a release gives back exactly the pages it names.  The client
  lemma is about the ledger of live allocations that any sequence of
  allocations and releases builds up.
\<close>

section \<open>Byte spans and ledgers\<close>

definition span :: "u64 \<Rightarrow> u64 \<Rightarrow> nat set" where
  "span p k = {unat p..<unat p + 4096 * unat k}"

datatype alloc_op = Alloc u64 | Free nat

type_synonym ledger = "(u64 \<times> u64) list"

definition lspan :: "u64 \<times> u64 \<Rightarrow> nat set" where
  "lspan pk = span (fst pk) (snd pk)"

text \<open>
  One client step: \<open>Alloc k\<close> asks for \<open>k\<close> pages and records the answer, \<open>Free i\<close>
  gives the \<open>i\<close>-th live allocation back.
\<close>

fun ledger_step ::
  "(u64 \<Rightarrow> 's \<Rightarrow> u64 \<times> 's) \<Rightarrow> (u64 \<Rightarrow> u64 \<Rightarrow> 's \<Rightarrow> 's) \<Rightarrow> alloc_op \<Rightarrow> 's \<times> ledger \<Rightarrow> 's \<times> ledger" where
  "ledger_step al fr (Alloc k) (s, L) =
    (case al k s of (p, s') \<Rightarrow> (s', if p = 0 then L else L @ [(p, k)]))"
| "ledger_step al fr (Free i) (s, L) =
    (if i < length L then (fr (fst (L ! i)) (snd (L ! i)) s, take i L @ drop (Suc i) L) else (s, L))"

definition ledger_run ::
  "(u64 \<Rightarrow> 's \<Rightarrow> u64 \<times> 's) \<Rightarrow> (u64 \<Rightarrow> u64 \<Rightarrow> 's \<Rightarrow> 's) \<Rightarrow> alloc_op list \<Rightarrow> 's \<Rightarrow> 's \<times> ledger" where
  "ledger_run al fr ops s = fold (ledger_step al fr) ops (s, [])"

definition disjoint_ledger :: "ledger \<Rightarrow> bool" where
  "disjoint_ledger L = sorted_wrt (\<lambda>x y. lspan x \<inter> lspan y = {}) L"

lemma disjoint_ledger_remove:
  assumes "disjoint_ledger L" "i < length L"
  shows "disjoint_ledger (take i L @ drop (Suc i) L)"
    "\<Union> (lspan ` set (take i L @ drop (Suc i) L)) = \<Union> (lspan ` set L) - lspan (L ! i)"
proof -
  have L: "L = take i L @ L ! i # drop (Suc i) L"
    using assms(2) by (rule id_take_nth_drop)
  have d: "sorted_wrt (\<lambda>x y. lspan x \<inter> lspan y = {}) (take i L @ L ! i # drop (Suc i) L)"
    using assms(1) L by (simp add: disjoint_ledger_def)
  show "disjoint_ledger (take i L @ drop (Suc i) L)"
    using d by (simp add: disjoint_ledger_def sorted_wrt_append)
  have "set L = set (take i L @ drop (Suc i) L) \<union> {L ! i}"
    by (subst L) auto
  moreover have "lspan x \<inter> lspan (L ! i) = {}" if "x \<in> set (take i L @ drop (Suc i) L)" for x
    using d that by (auto simp: sorted_wrt_append)
  ultimately show "\<Union> (lspan ` set (take i L @ drop (Suc i) L)) = \<Union> (lspan ` set L) - lspan (L ! i)"
    by blast
qed

section \<open>The interface\<close>

locale page_allocator =
  fixes ainv :: "'s \<Rightarrow> bool"
    and owned :: "'s \<Rightarrow> nat set"
    and pinned :: "'s \<Rightarrow> nat set"
    and al :: "u64 \<Rightarrow> 's \<Rightarrow> u64 \<times> 's"
    and fr :: "u64 \<Rightarrow> u64 \<Rightarrow> 's \<Rightarrow> 's"
  assumes pinned_owned: "ainv s \<Longrightarrow> pinned s \<subseteq> owned s"
    and al_fail: "ainv s \<Longrightarrow> al k s = (0, s') \<Longrightarrow> s' = s"
    and al_ok: "ainv s \<Longrightarrow> al k s = (p, s') \<Longrightarrow> p \<noteq> 0 \<Longrightarrow>
      ainv s' \<and> owned s' = owned s \<union> span p k \<and> owned s \<inter> span p k = {} \<and>
      pinned s' = pinned s \<and> 4096 dvd unat p"
    and fr_ok: "ainv s \<Longrightarrow> span p k \<subseteq> owned s - pinned s \<Longrightarrow> 4096 dvd unat p \<Longrightarrow>
      ainv (fr p k s) \<and> owned (fr p k s) = owned s - span p k \<and> pinned (fr p k s) = pinned s"
begin

definition ledger_inv :: "'s \<Rightarrow> 's \<times> ledger \<Rightarrow> bool" where
  "ledger_inv s0 = (\<lambda>(s, L). ainv s \<and> disjoint_ledger L \<and> pinned s = pinned s0 \<and>
     (\<forall>x \<in> set L. 4096 dvd unat (fst x) \<and> lspan x \<inter> owned s0 = {}) \<and>
     owned s = owned s0 \<union> \<Union> (lspan ` set L))"

lemma ledger_inv_step:
  assumes "ainv s0" "ledger_inv s0 c"
  shows "ledger_inv s0 (ledger_step al fr opn c)"
proof (cases c)
  case (Pair s L)
  note inv = assms(2) [unfolded Pair ledger_inv_def, simplified]
  show ?thesis
  proof (cases opn)
    case (Alloc k)
    obtain p s' where ps: "al k s = (p, s')" by fastforce
    show ?thesis
    proof (cases "p = 0")
      case True
      then show ?thesis using al_fail [of s k s'] inv ps assms(2) by (simp add: Alloc Pair)
    next
      case False
      have ok: "ainv s'" "owned s' = owned s \<union> span p k" "owned s \<inter> span p k = {}"
        "pinned s' = pinned s" "4096 dvd unat p"
        using al_ok [OF _ ps False] inv by auto
      have "lspan x \<inter> span p k = {}" if "x \<in> set L" for x
        using ok(3) inv that by blast
      then have "disjoint_ledger (L @ [(p, k)])"
        using inv by (simp add: disjoint_ledger_def sorted_wrt_append lspan_def)
      moreover have "span p k \<inter> owned s0 = {}" using ok(3) inv by blast
      ultimately show ?thesis
        using ok inv ps False by (auto simp: Alloc Pair ledger_inv_def lspan_def)
    qed
  next
    case (Free i)
    show ?thesis
    proof (cases "i < length L")
      case True
      let ?x = "L ! i" and ?L = "take i L @ drop (Suc i) L"
      have x: "?x \<in> set L" using True by simp
      have "lspan ?x \<subseteq> owned s - pinned s"
        using inv x pinned_owned [OF assms(1)] by blast
      then have "ainv (fr (fst ?x) (snd ?x) s) \<and>
          owned (fr (fst ?x) (snd ?x) s) = owned s - lspan ?x \<and>
          pinned (fr (fst ?x) (snd ?x) s) = pinned s"
        unfolding lspan_def using inv x by (intro fr_ok) auto
      moreover have "owned s0 \<union> \<Union> (lspan ` set L) - lspan ?x = owned s0 \<union> \<Union> (lspan ` set ?L)"
        unfolding disjoint_ledger_remove(2) [OF conjunct1 [OF conjunct2 [OF inv]] True]
        using inv x by blast
      moreover have "set ?L \<subseteq> set L"
        using set_take_subset set_drop_subset by force
      ultimately show ?thesis
        using inv disjoint_ledger_remove(1) [of L i] True
        by (auto simp: Free Pair ledger_inv_def)
    next
      case False
      then show ?thesis using assms by (simp add: Free Pair)
    qed
  qed
qed

lemma ledger_inv_run:
  assumes "ainv s0" shows "ledger_inv s0 (ledger_run al fr ops s0)"
proof -
  have "ledger_inv s0 c \<Longrightarrow> ledger_inv s0 (fold (ledger_step al fr) ops c)" for c
    by (induction ops arbitrary: c) (simp_all add: ledger_inv_step assms)
  moreover have "ledger_inv s0 (s0, [])"
    using assms by (simp add: ledger_inv_def disjoint_ledger_def)
  ultimately show ?thesis by (simp add: ledger_run_def)
qed

end

end
