(* ===== verification/Pmm.thy ===== *)
theory Pmm
  imports Page_Alloc_Spec
begin

text \<open>
  The physical page allocator, \<^verbatim>\<open>src/mm/pmm/pmm.c\<close>: a bitmap with one bit per
  4096-byte page.  The file-scope variables of the C file are the fields of the
  record \<open>pmm\<close>; the words the \<open>bitmap\<close> pointer addresses are the list \<open>bitmap\<close>.
  Every operation is a function on that record, left polymorphic in the record
  extension, so that clients which own more state (the kernel heap) call the
  operations on their own record.  Console output is not part of the state.
\<close>

section \<open>State and macros\<close>

record pmm =
  bitmap_addr :: u64
  bitmap :: "u64 list"
  bitmap_size :: u64
  total_pages :: u64
  used_pages :: u64
  reserved_pages :: u64
  mem_region_start :: u64
  mem_region_end :: u64

abbreviation MEM_START :: u64 where "MEM_START \<equiv> 0x40000000"
abbreviation MEM_SIZE :: u64 where "MEM_SIZE \<equiv> 8 * 1024 * 1024 * 1024"
abbreviation PAGE_SIZE :: u64 where "PAGE_SIZE \<equiv> 4096"
abbreviation PAGE_SHIFT :: nat where "PAGE_SHIFT \<equiv> 12"

definition PFN_TO_PHYS :: "u64 \<Rightarrow> u64" where
  "PFN_TO_PHYS pfn = push_bit PAGE_SHIFT pfn"

definition PHYS_TO_PFN :: "u64 \<Rightarrow> u64" where
  "PHYS_TO_PFN addr = drop_bit PAGE_SHIFT addr"

definition PAGE_ALIGN_UP :: "u64 \<Rightarrow> u64" where
  "PAGE_ALIGN_UP addr = (addr + PAGE_SIZE - 1) AND NOT (PAGE_SIZE - 1)"

definition PAGE_ALIGN_DOWN :: "u64 \<Rightarrow> u64" where
  "PAGE_ALIGN_DOWN addr = addr AND NOT (PAGE_SIZE - 1)"

definition BITMAP_INDEX :: "u64 \<Rightarrow> nat" where
  "BITMAP_INDEX pfn = unat (pfn div 64)"

definition BITMAP_BIT :: "u64 \<Rightarrow> nat" where
  "BITMAP_BIT pfn = unat (pfn mod 64)"

text \<open>\<open>PHYS_TO_VIRT\<close> of \<^verbatim>\<open>src/mm/mmu/mmu.h\<close>: the upper-half alias of a physical address.\<close>

definition PHYS_TO_VIRT :: "u64 \<Rightarrow> u64" where
  "PHYS_TO_VIRT pa = pa + 0xFFFF000000000000"

definition VIRT_TO_PHYS :: "u64 \<Rightarrow> u64" where
  "VIRT_TO_PHYS va = va - 0xFFFF000000000000"

section \<open>Bitmap primitives\<close>

definition bitmap_set :: "u64 \<Rightarrow> 'a pmm_scheme \<Rightarrow> 'a pmm_scheme" where
  "bitmap_set pfn s = s\<lparr>bitmap := (bitmap s)
     [BITMAP_INDEX pfn := bitmap s ! BITMAP_INDEX pfn OR push_bit (BITMAP_BIT pfn) 1]\<rparr>"

definition bitmap_clear :: "u64 \<Rightarrow> 'a pmm_scheme \<Rightarrow> 'a pmm_scheme" where
  "bitmap_clear pfn s = s\<lparr>bitmap := (bitmap s)
     [BITMAP_INDEX pfn := bitmap s ! BITMAP_INDEX pfn AND NOT (push_bit (BITMAP_BIT pfn) 1)]\<rparr>"

definition bitmap_test :: "'a pmm_scheme \<Rightarrow> u64 \<Rightarrow> bool" where
  "bitmap_test s pfn \<longleftrightarrow> drop_bit (BITMAP_BIT pfn) (bitmap s ! BITMAP_INDEX pfn) AND 1 \<noteq> 0"

section \<open>Initialisation\<close>

text \<open>A loop \<open>for (pfn = a; pfn < b; pfn++) bitmap_set(pfn)\<close>.\<close>

definition set_range :: "nat \<Rightarrow> nat \<Rightarrow> 'a pmm_scheme \<Rightarrow> 'a pmm_scheme" where
  "set_range a b s = fold (\<lambda>n. bitmap_set (of_nat n)) [a..<b] s"

text \<open>The linker symbol \<open>__kernel_end\<close> is the first argument.\<close>

definition pmm_init :: "u64 \<Rightarrow> u64 \<Rightarrow> u64 \<Rightarrow> 'a pmm_scheme \<Rightarrow> 'a pmm_scheme" where
  "pmm_init kernel_end mem_start mem_size s =
    (let tp = mem_size div PAGE_SIZE;
         bsize = (tp + 63) div 64;
         bitmap_bytes = bsize * 8;
         baddr = PAGE_ALIGN_UP kernel_end;
         bm = replicate (unat bsize) 0;
         real_bits = tp mod 64;
         bm' = (if real_bits \<noteq> 0
                then bm[unat (bsize - 1) := NOT (push_bit (unat real_bits) 1 - 1)] else bm);
         bitmap_end = baddr + bitmap_bytes;
         reserved_end = PAGE_ALIGN_UP bitmap_end;
         rp = (reserved_end - mem_start) div PAGE_SIZE;
         s1 = s\<lparr>mem_region_start := mem_start, mem_region_end := mem_start + mem_size,
                total_pages := tp, bitmap_size := bsize, bitmap_addr := baddr,
                bitmap := bm', reserved_pages := rp\<rparr>;
         s2 = set_range 0 (unat rp) s1
     in s2\<lparr>used_pages := rp\<rparr>)"

definition pmm_relocate_upper :: "'a pmm_scheme \<Rightarrow> 'a pmm_scheme" where
  "pmm_relocate_upper s = s\<lparr>bitmap_addr := PHYS_TO_VIRT (bitmap_addr s)\<rparr>"

section \<open>Allocation\<close>

text \<open>
  The bit loop of \<open>pmm_allocate_page\<close> over one bitmap word: \<open>Some\<close> is a return
  statement reached inside the loop, \<open>None\<close> that the loop ran off its end.
\<close>

fun allocate_page_bits :: "nat \<Rightarrow> nat list \<Rightarrow> 'a pmm_scheme \<Rightarrow> (u64 \<times> 'a pmm_scheme) option" where
  "allocate_page_bits i [] s = None"
| "allocate_page_bits i (b # bs) s =
    (let page_frame_number = of_nat i * 64 + of_nat b in
     if total_pages s \<le> page_frame_number then Some (0, s)
     else if \<not> bitmap_test s page_frame_number then
       (let s1 = bitmap_set page_frame_number s;
            s2 = s1\<lparr>used_pages := used_pages s1 + 1\<rparr>
        in Some (mem_region_start s + PFN_TO_PHYS page_frame_number, s2))
     else allocate_page_bits i bs s)"

fun allocate_page_words :: "nat list \<Rightarrow> 'a pmm_scheme \<Rightarrow> u64 \<times> 'a pmm_scheme" where
  "allocate_page_words [] s = (0, s)"
| "allocate_page_words (i # is) s =
    (if bitmap s ! i = NOT 0 then allocate_page_words is s
     else case allocate_page_bits i [0..<64] s of
            Some r \<Rightarrow> r
          | None \<Rightarrow> allocate_page_words is s)"

definition pmm_allocate_page :: "'a pmm_scheme \<Rightarrow> u64 \<times> 'a pmm_scheme" where
  "pmm_allocate_page s = allocate_page_words [0..<unat (bitmap_size s)] s"

text \<open>
  The scan of \<open>pmm_allocate_pages\<close> for a run of \<open>count\<close> clear bits, over the page
  frame numbers from \<open>reserved_pages\<close> up.
\<close>

fun allocate_run :: "u64 \<Rightarrow> nat list \<Rightarrow> u64 \<Rightarrow> u64 \<Rightarrow> 'a pmm_scheme \<Rightarrow> u64 \<times> 'a pmm_scheme" where
  "allocate_run count [] run_start run_length s = (0, s)"
| "allocate_run count (pfn # pfns) run_start run_length s =
    (if \<not> bitmap_test s (of_nat pfn) then
       (let run_start' = (if run_length = 0 then of_nat pfn else run_start);
            run_length' = run_length + 1
        in if run_length' = count then
             (let s1 = fold (\<lambda>i. bitmap_set (run_start' + of_nat i)) [0..<unat count] s;
                  s2 = s1\<lparr>used_pages := used_pages s1 + count\<rparr>
              in (mem_region_start s + PFN_TO_PHYS run_start', s2))
           else allocate_run count pfns run_start' run_length' s)
     else allocate_run count pfns run_start 0 s)"

definition pmm_allocate_pages :: "u64 \<Rightarrow> 'a pmm_scheme \<Rightarrow> u64 \<times> 'a pmm_scheme" where
  "pmm_allocate_pages count s =
    (if count = 0 then (0, s)
     else if count = 1 then pmm_allocate_page s
     else allocate_run count [unat (reserved_pages s)..<unat (total_pages s)] 0 0 s)"

section \<open>Release and statistics\<close>

definition pmm_free_page :: "u64 \<Rightarrow> 'a pmm_scheme \<Rightarrow> 'a pmm_scheme" where
  "pmm_free_page phys_addr s =
    (if phys_addr < mem_region_start s \<or> mem_region_end s \<le> phys_addr then s
     else if phys_addr AND (PAGE_SIZE - 1) \<noteq> 0 then s
     else let page_frame_number = PHYS_TO_PFN (phys_addr - mem_region_start s) in
       if page_frame_number < reserved_pages s then s
       else if \<not> bitmap_test s page_frame_number then s
       else let s1 = bitmap_clear page_frame_number s
            in s1\<lparr>used_pages := used_pages s1 - 1\<rparr>)"

definition pmm_free_pages :: "u64 \<Rightarrow> u64 \<Rightarrow> 'a pmm_scheme \<Rightarrow> 'a pmm_scheme" where
  "pmm_free_pages phys_addr count s =
    fold (\<lambda>i. pmm_free_page (phys_addr + of_nat i * PAGE_SIZE)) [0..<unat count] s"

definition pmm_get_free_pages :: "'a pmm_scheme \<Rightarrow> u64" where
  "pmm_get_free_pages s = total_pages s - used_pages s"


section \<open>Abstract view\<close>

text \<open>
  The bitmap read as a set of page frame numbers, and the address of a page.
  The invariant says that the bitmap has one bit per page, that the bits past
  the last page and the bits of the reserved pages are set, that \<open>used_pages\<close>
  counts the set bits of real pages, and that the region ends below \<open>2 ^ 48\<close>, so
  that neither it nor its upper-half alias wraps.
\<close>

definition page_used :: "'a pmm_scheme \<Rightarrow> nat \<Rightarrow> bool" where
  "page_used s n \<longleftrightarrow> bit (bitmap s ! (n div 64)) (n mod 64)"

definition npages :: "'a pmm_scheme \<Rightarrow> nat" where
  "npages s = unat (total_pages s)"

definition allocated :: "'a pmm_scheme \<Rightarrow> nat set" where
  "allocated s = {n. n < npages s \<and> page_used s n}"

definition page_addr :: "'a pmm_scheme \<Rightarrow> nat \<Rightarrow> u64" where
  "page_addr s n = mem_region_start s + of_nat n * PAGE_SIZE"

definition pmm_inv :: "'a pmm_scheme \<Rightarrow> bool" where
  "pmm_inv s \<longleftrightarrow>
     length (bitmap s) = unat (bitmap_size s) \<and>
     unat (bitmap_size s) = (npages s + 63) div 64 \<and>
     (\<forall>n. npages s \<le> n \<longrightarrow> n < 64 * length (bitmap s) \<longrightarrow> page_used s n) \<and>
     (\<forall>n < unat (reserved_pages s). page_used s n) \<and>
     unat (reserved_pages s) \<le> npages s \<and>
     unat (used_pages s) = card (allocated s) \<and>
     0 < unat (mem_region_start s) \<and> 4096 dvd unat (mem_region_start s) \<and>
     unat (mem_region_end s) = unat (mem_region_start s) + 4096 * npages s \<and>
     unat (mem_region_end s) < 2 ^ 48"

text \<open>The effect of a successful allocation of the \<open>k\<close> pages from frame \<open>a\<close>.\<close>

definition take_run :: "nat \<Rightarrow> nat \<Rightarrow> 'a pmm_scheme \<Rightarrow> 'a pmm_scheme" where
  "take_run a k s = (set_range a (a + k) s)\<lparr>used_pages := used_pages s + of_nat k\<rparr>"

definition first_free :: "'a pmm_scheme \<Rightarrow> nat" where
  "first_free s = (LEAST n. \<not> page_used s n)"

text \<open>A run of \<open>k\<close> free pages outside the reserved area, and the lowest one.\<close>

definition free_run :: "'a pmm_scheme \<Rightarrow> nat \<Rightarrow> nat \<Rightarrow> bool" where
  "free_run s k a \<longleftrightarrow> unat (reserved_pages s) \<le> a \<and> a + k \<le> npages s \<and>
     (\<forall>m. a \<le> m \<longrightarrow> m < a + k \<longrightarrow> \<not> page_used s m)"

definition first_run :: "'a pmm_scheme \<Rightarrow> nat \<Rightarrow> nat" where
  "first_run s k = (LEAST a. free_run s k a)"

text \<open>The effect of the release of the allocated page \<open>n\<close>.\<close>

definition drop_page :: "nat \<Rightarrow> 'a pmm_scheme \<Rightarrow> 'a pmm_scheme" where
  "drop_page n s = (bitmap_clear (of_nat n) s)\<lparr>used_pages := used_pages s - 1\<rparr>"

text \<open>The bytes of the allocated pages and of the reserved ones.\<close>

definition page_bytes :: "'a pmm_scheme \<Rightarrow> nat \<Rightarrow> nat set" where
  "page_bytes s n = {unat (mem_region_start s) + 4096 * n..<unat (mem_region_start s) + 4096 * Suc n}"

definition owned_bytes :: "'a pmm_scheme \<Rightarrow> nat set" where
  "owned_bytes s = (\<Union>n \<in> allocated s. page_bytes s n)"

definition reserved_bytes :: "'a pmm_scheme \<Rightarrow> nat set" where
  "reserved_bytes s = (\<Union>n \<in> {..<unat (reserved_pages s)}. page_bytes s n)"

section \<open>Bits of the bitmap\<close>

lemma bitmap_index_of_nat [simp]: "n < 2 ^ 64 \<Longrightarrow> BITMAP_INDEX (of_nat n) = n div 64"
  by (simp add: BITMAP_INDEX_def unat_div word_nat)

lemma bitmap_bit_of_nat [simp]: "n < 2 ^ 64 \<Longrightarrow> BITMAP_BIT (of_nat n) = n mod 64"
  by (simp add: BITMAP_BIT_def unat_mod word_nat)

lemma bitmap_test_of_nat: "n < 2 ^ 64 \<Longrightarrow> bitmap_test s (of_nat n) \<longleftrightarrow> page_used s n"
  by (simp add: bitmap_test_def page_used_def and_one_eq bit_iff_odd_drop_bit
      flip: odd_iff_mod_2_eq_one)

lemma page_used_set:
  assumes "n < 2 ^ 64" "n div 64 < length (bitmap s)"
  shows "page_used (bitmap_set (of_nat n) s) m \<longleftrightarrow> m = n \<or> page_used s m"
proof -
  have "m div 64 = n div 64 \<Longrightarrow> m mod 64 = n mod 64 \<longleftrightarrow> m = n"
    by (metis div_mult_mod_eq)
  then show ?thesis
    using assms
    by (auto simp: page_used_def bitmap_set_def nth_list_update bit_simps)
qed

lemma page_used_clear:
  assumes "n < 2 ^ 64" "n div 64 < length (bitmap s)"
  shows "page_used (bitmap_clear (of_nat n) s) m \<longleftrightarrow> m \<noteq> n \<and> page_used s m"
proof -
  have "m div 64 = n div 64 \<Longrightarrow> m mod 64 = n mod 64 \<longleftrightarrow> m = n"
    by (metis div_mult_mod_eq)
  then show ?thesis
    using assms
    by (auto simp: page_used_def bitmap_clear_def nth_list_update bit_simps)
qed


lemma bitmap_set_frame [simp]:
  "length (bitmap (bitmap_set p s)) = length (bitmap s)"
  "bitmap_size (bitmap_set p s) = bitmap_size s"
  "total_pages (bitmap_set p s) = total_pages s"
  "used_pages (bitmap_set p s) = used_pages s"
  "reserved_pages (bitmap_set p s) = reserved_pages s"
  "mem_region_start (bitmap_set p s) = mem_region_start s"
  "mem_region_end (bitmap_set p s) = mem_region_end s"
  "bitmap_addr (bitmap_set p s) = bitmap_addr s"
  "pmm.more (bitmap_set p s) = pmm.more s"
  by (simp_all add: bitmap_set_def)

lemma bitmap_clear_frame [simp]:
  "length (bitmap (bitmap_clear p s)) = length (bitmap s)"
  "bitmap_size (bitmap_clear p s) = bitmap_size s"
  "total_pages (bitmap_clear p s) = total_pages s"
  "used_pages (bitmap_clear p s) = used_pages s"
  "reserved_pages (bitmap_clear p s) = reserved_pages s"
  "mem_region_start (bitmap_clear p s) = mem_region_start s"
  "mem_region_end (bitmap_clear p s) = mem_region_end s"
  "bitmap_addr (bitmap_clear p s) = bitmap_addr s"
  "pmm.more (bitmap_clear p s) = pmm.more s"
  by (simp_all add: bitmap_clear_def)

lemma page_used_upd [simp]:
  "page_used (s\<lparr>used_pages := x\<rparr>) = page_used s"
  "page_used (s\<lparr>bitmap_addr := y\<rparr>) = page_used s"
  by (simp_all add: page_used_def fun_eq_iff)

lemma npages_frame [simp]:
  "npages (bitmap_set p s) = npages s"
  "npages (bitmap_clear p s) = npages s"
  "npages (s\<lparr>used_pages := x\<rparr>) = npages s"
  "npages (s\<lparr>bitmap_addr := y\<rparr>) = npages s"
  by (simp_all add: npages_def)

lemma set_range_Suc: "a \<le> b \<Longrightarrow> set_range a (Suc b) s = bitmap_set (of_nat b) (set_range a b s)"
  by (simp add: set_range_def)

lemma set_range_empty [simp]: "b \<le> a \<Longrightarrow> set_range a b s = s"
  by (simp add: set_range_def)

lemma set_range_frame [simp]:
  "length (bitmap (set_range a b s)) = length (bitmap s) \<and>
   bitmap_size (set_range a b s) = bitmap_size s \<and>
   total_pages (set_range a b s) = total_pages s \<and>
   used_pages (set_range a b s) = used_pages s \<and>
   reserved_pages (set_range a b s) = reserved_pages s \<and>
   mem_region_start (set_range a b s) = mem_region_start s \<and>
   mem_region_end (set_range a b s) = mem_region_end s \<and>
   bitmap_addr (set_range a b s) = bitmap_addr s \<and>
   npages (set_range a b s) = npages s \<and>
   pmm.more (set_range a b s) = pmm.more s"
proof (induction b)
  case (Suc b)
  then show ?case
    by (cases "a \<le> b") (simp_all add: set_range_Suc)
qed simp

lemma page_used_set_range:
  "\<lbrakk>b < 2 ^ 64; b \<le> 64 * length (bitmap s)\<rbrakk> \<Longrightarrow>
   page_used (set_range a b s) m \<longleftrightarrow> page_used s m \<or> a \<le> m \<and> m < b"
proof (induction b)
  case (Suc b)
  show ?case
  proof (cases "a \<le> b")
    case True
    have "b div 64 < length (bitmap s)"
      using Suc.prems by linarith
    then show ?thesis
      using Suc True by (auto simp: set_range_Suc page_used_set)
  next
    case False
    then show ?thesis by auto
  qed
qed simp

section \<open>The invariant under allocation\<close>

lemma npages_lt: "npages s < 2 ^ 64"
  using unat_lt_64 by (simp add: npages_def)

lemma finite_allocated [simp]: "finite (allocated s)"
  by (simp add: allocated_def)

lemma pmm_inv_bits:
  assumes "pmm_inv s"
  shows "npages s \<le> 64 * length (bitmap s)" "length (bitmap s) = unat (bitmap_size s)"
    "unat (bitmap_size s) = (npages s + 63) div 64"
  using assms by (auto simp: pmm_inv_def)

lemma take_run_frame [simp]:
  "length (bitmap (take_run a k s)) = length (bitmap s)"
  "bitmap_size (take_run a k s) = bitmap_size s"
  "total_pages (take_run a k s) = total_pages s"
  "reserved_pages (take_run a k s) = reserved_pages s"
  "mem_region_start (take_run a k s) = mem_region_start s"
  "mem_region_end (take_run a k s) = mem_region_end s"
  "npages (take_run a k s) = npages s"
  "page_addr (take_run a k s) = page_addr s"
  "pmm.more (take_run a k s) = pmm.more s"
  by (simp_all add: take_run_def page_addr_def fun_eq_iff)

lemma page_used_take_run:
  assumes "pmm_inv s" "a + k \<le> npages s"
  shows "page_used (take_run a k s) m \<longleftrightarrow> page_used s m \<or> a \<le> m \<and> m < a + k"
  unfolding take_run_def page_used_upd
  using page_used_set_range [of "a + k" s a m] assms npages_lt [of s] pmm_inv_bits [OF assms(1)]
  by simp

lemma allocated_take_run:
  assumes "pmm_inv s" "a + k \<le> npages s"
  shows "allocated (take_run a k s) = allocated s \<union> {a..<a + k}"
  using assms by (auto simp: allocated_def page_used_take_run)

lemma card_allocated_le: "card (allocated s) \<le> npages s"
  using card_mono [of "{..<npages s}" "allocated s"] by (force simp: allocated_def)

lemma pmm_inv_take_run [inv_pres]:
  assumes inv: "pmm_inv s" and le: "a + k \<le> npages s" and free: "allocated s \<inter> {a..<a + k} = {}"
  shows "pmm_inv (take_run a k s)"
proof -
  have card: "card (allocated (take_run a k s)) = card (allocated s) + k"
    using free by (simp add: allocated_take_run [OF inv le] card_Un_disjoint)
  have "card (allocated s) + k < 2 ^ 64"
    using card card_allocated_le [of "take_run a k s"] npages_lt [of s] by simp
  then have "unat (used_pages (take_run a k s)) = card (allocated s) + k"
    using inv by (simp add: take_run_def pmm_inv_def word_nat)
  then have "unat (used_pages (take_run a k s)) = card (allocated (take_run a k s))"
    by (simp only: card)
  then show ?thesis
    using inv le by (simp add: pmm_inv_def page_used_take_run [OF inv le] npages_def)
qed


section \<open>Single page allocation\<close>

lemma page_addr_eq: "page_addr s n = mem_region_start s + PFN_TO_PHYS (of_nat n)"
  by (simp add: page_addr_def PFN_TO_PHYS_def push_bit_eq_mult)

lemma word_full_iff: "(w :: u64) = NOT 0 \<longleftrightarrow> (\<forall>k < 64. bit w k)"
  by (auto simp: bit_eq_iff bit_simps)

lemma take_run_single:
  "take_run n 1 s = (bitmap_set (of_nat n) s)\<lparr>used_pages := used_pages s + 1\<rparr>"
  by (simp add: take_run_def set_range_def)

lemma allocate_page_bits_first:
  assumes p: "p < npages s" "\<not> page_used s p" "\<forall>m < p. page_used s m"
  shows "b \<le> p mod 64 \<Longrightarrow>
    allocate_page_bits (p div 64) [b..<64] s = Some (page_addr s p, take_run p 1 s)"
proof (induction "p mod 64 - b" arbitrary: b)
  case 0
  then have b: "p mod 64 = b" "b < 64" by auto
  then have pfn: "of_nat (p div 64) * 64 + of_nat b = (of_nat p :: u64)"
    by (metis of_nat_add of_nat_mult of_nat_numeral div_mult_mod_eq)
  have "unat (of_nat p :: u64) = p"
    using p(1) npages_lt [of s] by (simp add: word_nat)
  then have "\<not> total_pages s \<le> of_nat p"
    using p(1) by (simp add: word_le_nat_alt npages_def)
  then show ?case
    using b p npages_lt [of s]
    by (simp add: upt_conv_Cons pfn bitmap_test_of_nat page_addr_eq take_run_single [simplified] Let_def)
next
  case (Suc d)
  let ?q = "p div 64 * 64 + b"
  have b: "b < p mod 64" "b < 64" using Suc by auto
  then have lt: "?q < p"
    by (metis add_less_cancel_left div_mult_mod_eq)
  have pfn: "of_nat (p div 64) * 64 + of_nat b = (of_nat ?q :: u64)"
    by simp
  have "unat (of_nat ?q :: u64) = ?q"
    using lt p(1) npages_lt [of s] by (intro unat_of_nat_64) simp
  then have "\<not> total_pages s \<le> of_nat ?q"
    using lt p(1) by (simp add: word_le_nat_alt npages_def)
  moreover have "bitmap_test s (of_nat ?q)"
    using lt p npages_lt [of s] by (subst bitmap_test_of_nat) auto
  moreover have "allocate_page_bits (p div 64) [Suc b..<64] s = Some (page_addr s p, take_run p 1 s)"
    using Suc.hyps b by simp
  moreover have "[b..<64] = b # [Suc b..<64]"
    using b by (simp add: upt_conv_Cons)
  ultimately show ?case
    unfolding pfn by (simp add: pfn del: of_nat_add of_nat_mult)
qed

lemma allocate_page_words_first:
  assumes inv: "pmm_inv s"
    and p: "p < npages s" "\<not> page_used s p" "\<forall>m < p. page_used s m"
  shows "i \<le> p div 64 \<Longrightarrow>
    allocate_page_words [i..<unat (bitmap_size s)] s = (page_addr s p, take_run p 1 s)"
proof (induction "p div 64 - i" arbitrary: i)
  case 0
  then have i: "i = p div 64" by simp
  have "i < unat (bitmap_size s)"
    using i p(1) pmm_inv_bits(3) [OF inv] by linarith
  moreover have "bitmap s ! i \<noteq> NOT 0"
    using p(2) by (auto simp: i word_full_iff page_used_def)
  ultimately show ?case
    using allocate_page_bits_first [OF p, of 0] by (simp add: upt_conv_Cons i)
next
  case (Suc d)
  have lt: "i < p div 64" using Suc.hyps(2) by simp
  then have "i < unat (bitmap_size s)"
    using p(1) pmm_inv_bits(3) [OF inv] by linarith
  moreover have "page_used s (64 * i + k)" if "k < 64" for k
  proof -
    have "64 * i + k < p" using lt that by linarith
    then show ?thesis using p(3) by simp
  qed
  then have "bitmap s ! i = NOT 0"
    unfolding word_full_iff by (simp add: page_used_def)
  ultimately show ?case
    using Suc lt by (simp add: upt_conv_Cons)
qed

lemma allocate_page_words_full:
  assumes inv: "pmm_inv s" and full: "\<forall>n < npages s. page_used s n"
  shows "set is \<subseteq> {..<unat (bitmap_size s)} \<Longrightarrow> allocate_page_words is s = (0, s)"
proof (induction "is")
  case (Cons i "is")
  have "page_used s (64 * i + k)" if "k < 64" for k
    using inv full that Cons.prems
    by (cases "64 * i + k < npages s") (auto simp: pmm_inv_def)
  then have "bitmap s ! i = NOT 0"
    unfolding word_full_iff by (simp add: page_used_def)
  then show ?case using Cons by simp
qed simp

lemma first_free_props:
  assumes "allocated s \<noteq> {..<npages s}"
  shows "first_free s < npages s" "\<not> page_used s (first_free s)"
    "\<forall>m < first_free s. page_used s m"
proof -
  obtain n where n: "n < npages s" "\<not> page_used s n"
    using assms by (auto simp: allocated_def)
  show "\<not> page_used s (first_free s)"
    unfolding first_free_def by (rule LeastI) (rule n(2))
  show "first_free s < npages s"
    unfolding first_free_def using Least_le [of "\<lambda>n. \<not> page_used s n" n] n by simp
  show "\<forall>m < first_free s. page_used s m"
    unfolding first_free_def using not_less_Least by blast
qed

lemma pmm_allocate_page_cases:
  assumes "pmm_inv s"
  shows "pmm_allocate_page s =
    (if allocated s = {..<npages s} then (0, s)
     else (page_addr s (first_free s), take_run (first_free s) 1 s))"
proof (cases "allocated s = {..<npages s}")
  case True
  then have "\<forall>n < npages s. page_used s n" by (auto simp: allocated_def)
  then show ?thesis
    using allocate_page_words_full [OF assms] True by (simp add: pmm_allocate_page_def atLeast0LessThan)
next
  case False
  then show ?thesis
    using allocate_page_words_first [OF assms first_free_props [OF False], of 0]
    by (simp add: pmm_allocate_page_def)
qed


section \<open>Contiguous allocation\<close>

lemma fold_set_run:
  "fold (\<lambda>i. bitmap_set (of_nat a + of_nat i)) [0..<k] s = set_range a (a + k) s"
  by (induction k) (simp_all add: set_range_Suc)

lemma first_runI:
  assumes "free_run s k a" "\<And>a'. a' < a \<Longrightarrow> \<not> free_run s k a'"
  shows "first_run s k = a"
  unfolding first_run_def using assms by (intro Least_equality) (auto simp: not_less [symmetric])

lemma allocate_run_spec:
  assumes inv: "pmm_inv s" and count: "0 < unat count"
  shows "\<lbrakk>rl < unat count; a + rl \<le> npages s; unat (reserved_pages s) \<le> a;
      \<forall>m. a \<le> m \<longrightarrow> m < a + rl \<longrightarrow> \<not> page_used s m;
      \<forall>a' < a. \<not> free_run s (unat count) a';
      0 < rl \<longrightarrow> rs = of_nat a\<rbrakk> \<Longrightarrow>
    allocate_run count [a + rl..<npages s] rs (of_nat rl) s =
      (if \<exists>a. free_run s (unat count) a
       then (page_addr s (first_run s (unat count)), take_run (first_run s (unat count)) (unat count) s)
       else (0, s))"
proof (induction "npages s - (a + rl)" arbitrary: a rl rs)
  case 0
  have "\<not> free_run s (unat count) a'" for a'
    using 0 by (cases "a' < a") (auto simp: free_run_def)
  then show ?case using 0 by simp
next
  case (Suc d)
  let ?q = "a + rl"
  have q: "?q < npages s" "?q < 2 ^ 64" and upt: "[?q..<npages s] = ?q # [Suc ?q..<npages s]"
    using Suc.hyps(2) npages_lt [of s] by (auto simp: upt_conv_Cons)
  have rl: "of_nat rl = (0 :: u64) \<longleftrightarrow> rl = 0" "of_nat rl + 1 = count \<longleftrightarrow> Suc rl = unat count"
  proof -
    have "rl < 2 ^ 64" using q by simp
    then show "of_nat rl = (0 :: u64) \<longleftrightarrow> rl = 0"
      by (simp add: word_unat_eq_iff unat_of_nat_64)
    have "Suc rl < 2 ^ 64" using q Suc.prems(1) unat_lt_64 [of count] by linarith
    moreover have "of_nat rl + 1 = (of_nat (Suc rl) :: u64)" by simp
    ultimately show "of_nat rl + 1 = count \<longleftrightarrow> Suc rl = unat count"
      by (simp only: word_unat_eq_iff unat_of_nat_64)
  qed
  show ?case
  proof (cases "page_used s ?q")
    case False
    have rs': "(if of_nat rl = (0 :: u64) then of_nat ?q else rs) = of_nat a"
      using Suc.prems(6) rl by auto
    have run: "\<forall>m. a \<le> m \<longrightarrow> m < a + Suc rl \<longrightarrow> \<not> page_used s m"
      using Suc.prems(4) False by (metis add_Suc_right less_Suc_eq)
    show ?thesis
    proof (cases "Suc rl = unat count")
      case True
      have "free_run s (unat count) a"
        using True run q(1) Suc.prems(3) by (auto simp: free_run_def simp flip: True)
      then have "first_run s (unat count) = a" "\<exists>a. free_run s (unat count) a"
        using Suc.prems(5) by (auto intro: first_runI)
      then show ?thesis
        using False q rl rs' True unfolding upt
        by (simp add: bitmap_test_of_nat Let_def fold_set_run page_addr_eq take_run_def del: of_nat_add)
    next
      case neq: False
      have "allocate_run count [a + Suc rl..<npages s] (of_nat a) (of_nat (Suc rl)) s =
        (if \<exists>a. free_run s (unat count) a
         then (page_addr s (first_run s (unat count)), take_run (first_run s (unat count)) (unat count) s)
         else (0, s))"
        using Suc.hyps(2) Suc.prems neq run q(1) by (intro Suc.hyps(1)) auto
      then show ?thesis
        using False neq q rl rs' unfolding upt
        by (simp add: bitmap_test_of_nat Let_def add.commute del: of_nat_add)
    qed
  next
    case True
    have none: "\<forall>a' < Suc ?q. \<not> free_run s (unat count) a'"
    proof (intro allI impI)
      fix a' assume "a' < Suc ?q"
      then show "\<not> free_run s (unat count) a'"
        using Suc.prems(1,5) True by (cases "a' < a") (auto simp: free_run_def intro!: exI [of _ ?q])
    qed
    have "allocate_run count [Suc ?q + 0..<npages s] rs (of_nat 0) s =
        (if \<exists>a. free_run s (unat count) a
         then (page_addr s (first_run s (unat count)), take_run (first_run s (unat count)) (unat count) s)
         else (0, s))"
      using Suc.hyps(2) Suc.prems(3) none count q(1) by (intro Suc.hyps(1)) auto
    then show ?thesis
      using True q unfolding upt by (simp add: bitmap_test_of_nat del: of_nat_add)
  qed
qed


lemma pmm_allocate_pages_cases:
  assumes inv: "pmm_inv s" and count: "2 \<le> unat count"
  shows "pmm_allocate_pages count s =
    (if \<exists>a. free_run s (unat count) a
     then (page_addr s (first_run s (unat count)), take_run (first_run s (unat count)) (unat count) s)
     else (0, s))"
proof -
  let ?R = "unat (reserved_pages s)"
  have "count \<noteq> 0" "count \<noteq> 1" using count by auto
  moreover have "\<forall>a' < ?R. \<not> free_run s (unat count) a'"
    by (auto simp: free_run_def)
  ultimately show ?thesis
    using allocate_run_spec [OF inv, of count 0 ?R 0] inv count
    by (simp add: pmm_allocate_pages_def pmm_inv_def npages_def)
qed

lemma first_run_props:
  assumes "free_run s k a"
  shows "free_run s k (first_run s k)" "\<And>a'. a' < first_run s k \<Longrightarrow> \<not> free_run s k a'"
  using assms unfolding first_run_def by (auto intro: LeastI dest: not_less_Least)

lemma free_run_disjoint: "free_run s k a \<Longrightarrow> allocated s \<inter> {a..<a + k} = {}"
  by (auto simp: free_run_def allocated_def)

section \<open>Release\<close>

lemma unat_page_addr:
  assumes "pmm_inv s" "n \<le> npages s"
  shows "unat (page_addr s n) = unat (mem_region_start s) + 4096 * n"
proof -
  have lt: "unat (mem_region_start s) + 4096 * n < 2 ^ 64"
    using assms by (simp add: pmm_inv_def)
  have "unat (of_nat n * PAGE_SIZE) = 4096 * n"
    using lt by (simp add: word_nat)
  then show ?thesis
    unfolding page_addr_def using lt by (simp add: word_nat)
qed

lemma page_addr_pfn:
  assumes "pmm_inv s" "n \<le> npages s"
  shows "PHYS_TO_PFN (page_addr s n - mem_region_start s) = of_nat n"
proof -
  have "4096 * n < 2 ^ 64" using assms by (simp add: pmm_inv_def)
  then show ?thesis
    unfolding PHYS_TO_PFN_def page_addr_def
    by (simp add: word_unat_eq_iff word_nat)
qed

lemma low_bits_zero_iff: "(x :: u64) AND (PAGE_SIZE - 1) = 0 \<longleftrightarrow> 4096 dvd unat x"
proof -
  have "PAGE_SIZE - 1 = mask 12" by (simp add: mask_eq_exp_minus_1)
  then show ?thesis using and_mask_dvd_nat [of 12 x] by simp
qed

lemma drop_page_frame [simp]:
  "length (bitmap (drop_page n s)) = length (bitmap s)"
  "bitmap_size (drop_page n s) = bitmap_size s"
  "total_pages (drop_page n s) = total_pages s"
  "reserved_pages (drop_page n s) = reserved_pages s"
  "mem_region_start (drop_page n s) = mem_region_start s"
  "mem_region_end (drop_page n s) = mem_region_end s"
  "npages (drop_page n s) = npages s"
  "page_addr (drop_page n s) = page_addr s"
  "pmm.more (drop_page n s) = pmm.more s"
  by (simp_all add: drop_page_def page_addr_def fun_eq_iff)

lemma page_used_drop_page:
  assumes "pmm_inv s" "n < npages s"
  shows "page_used (drop_page n s) m \<longleftrightarrow> m \<noteq> n \<and> page_used s m"
proof -
  have "n div 64 < length (bitmap s)"
    using pmm_inv_bits [OF assms(1)] assms(2) by linarith
  then show ?thesis
    using assms(2) npages_lt [of s] by (simp add: drop_page_def page_used_clear)
qed

lemma allocated_drop_page:
  assumes "pmm_inv s" "n < npages s"
  shows "allocated (drop_page n s) = allocated s - {n}"
  using assms by (auto simp: allocated_def page_used_drop_page)

lemma pmm_inv_drop_page [inv_pres]:
  assumes inv: "pmm_inv s" and n: "n < npages s" "unat (reserved_pages s) \<le> n" "page_used s n"
  shows "pmm_inv (drop_page n s)"
proof -
  have mem: "n \<in> allocated s" using n by (simp add: allocated_def)
  then have "0 < card (allocated s)" by (auto simp: card_gt_0_iff)
  then have "unat (used_pages s - 1) = card (allocated s) - 1"
    using inv by (subst unat_minus_64) (simp_all add: pmm_inv_def)
  then have "unat (used_pages (drop_page n s)) = card (allocated (drop_page n s))"
    using mem by (simp add: allocated_drop_page [OF inv n(1)] card_Diff_singleton) (simp add: drop_page_def)
  then show ?thesis
    using inv n by (auto simp: pmm_inv_def page_used_drop_page [OF inv n(1)])
qed

lemma pmm_free_page_page_addr:
  assumes inv: "pmm_inv s" and n: "n < npages s"
  shows "pmm_free_page (page_addr s n) s =
    (if n < unat (reserved_pages s) \<or> \<not> page_used s n then s else drop_page n s)"
proof -
  have ua: "unat (page_addr s n) = unat (mem_region_start s) + 4096 * n"
    using unat_page_addr [OF inv] n by simp
  then have "\<not> (page_addr s n < mem_region_start s \<or> mem_region_end s \<le> page_addr s n)"
    using inv n by (simp add: word_less_nat_alt word_le_nat_alt pmm_inv_def)
  moreover have "page_addr s n AND (PAGE_SIZE - 1) = 0"
    unfolding low_bits_zero_iff ua using inv by (simp add: pmm_inv_def)
  moreover have "of_nat n < reserved_pages s \<longleftrightarrow> n < unat (reserved_pages s)"
    using n npages_lt [of s] by (simp add: word_less_nat_alt word_nat)
  ultimately show ?thesis
    using n npages_lt [of s]
    by (simp add: pmm_free_page_def page_addr_pfn [OF inv] bitmap_test_of_nat drop_page_def Let_def)
qed

lemma pmm_free_page_other:
  assumes inv: "pmm_inv s" and "\<forall>n < npages s. a \<noteq> page_addr s n"
  shows "pmm_free_page a s = s"
proof (rule ccontr)
  assume "pmm_free_page a s \<noteq> s"
  then have a: "unat (mem_region_start s) \<le> unat a" "unat a < unat (mem_region_end s)"
    "4096 dvd unat a"
    unfolding low_bits_zero_iff [symmetric]
    by (auto simp: pmm_free_page_def word_less_nat_alt word_le_nat_alt split: if_splits)
  then have "4096 dvd unat a - unat (mem_region_start s)"
    using inv by (auto simp: pmm_inv_def)
  then obtain n where n: "unat a = unat (mem_region_start s) + 4096 * n"
    using a(1) by (metis dvd_def le_add_diff_inverse)
  then have "n < npages s" using a(2) inv by (simp add: pmm_inv_def)
  then show False
    using assms(2) n unat_page_addr [OF inv, of n] by (metis less_imp_le_nat word_unat_eq_iff)
qed


lemma pmm_inv_free_page [inv_pres]:
  assumes "pmm_inv s" shows "pmm_inv (pmm_free_page a s)"
proof (cases "\<exists>n < npages s. a = page_addr s n")
  case True
  then show ?thesis
    using assms by (auto simp: pmm_free_page_page_addr intro!: pmm_inv_drop_page)
next
  case False
  then show ?thesis using assms by (simp add: pmm_free_page_other)
qed

lemma pmm_inv_fold_free:
  "pmm_inv s \<Longrightarrow> pmm_inv (fold (\<lambda>i. pmm_free_page (a + of_nat i * PAGE_SIZE)) is s)"
  by (induction "is" arbitrary: s) (simp_all add: pmm_inv_free_page)

lemma pmm_inv_free_pages [inv_pres]: "pmm_inv s \<Longrightarrow> pmm_inv (pmm_free_pages a k s)"
  by (simp add: pmm_free_pages_def pmm_inv_fold_free)

lemma pmm_free_page_frame [simp]:
  "reserved_pages (pmm_free_page a s) = reserved_pages s"
  "npages (pmm_free_page a s) = npages s"
  "page_addr (pmm_free_page a s) = page_addr s"
  "pmm.more (pmm_free_page a s) = pmm.more s"
  by (simp_all add: pmm_free_page_def Let_def page_addr_def fun_eq_iff)

lemma page_addr_add: "page_addr s a + of_nat i * PAGE_SIZE = page_addr s (a + i)"
  by (simp add: page_addr_def algebra_simps)

lemma pmm_free_run:
  assumes "pmm_inv s" "a + k \<le> npages s" "unat (reserved_pages s) \<le> a"
    "{a..<a + k} \<subseteq> allocated s"
  shows "\<exists>t. fold (\<lambda>i. pmm_free_page (page_addr s a + of_nat i * PAGE_SIZE)) [0..<k] s = t \<and>
    pmm_inv t \<and> allocated t = allocated s - {a..<a + k} \<and> npages t = npages s \<and>
    page_addr t = page_addr s \<and> reserved_pages t = reserved_pages s \<and> pmm.more t = pmm.more s"
  using assms
proof (induction k)
  case (Suc k)
  have sub: "{a..<a + k} \<subseteq> allocated s" "a + k \<in> allocated s" "a + k \<le> npages s"
    using Suc.prems(2,4) by auto
  obtain t where t:
    "fold (\<lambda>i. pmm_free_page (page_addr s a + of_nat i * PAGE_SIZE)) [0..<k] s = t"
    "pmm_inv t" "allocated t = allocated s - {a..<a + k}" "npages t = npages s"
    "page_addr t = page_addr s" "reserved_pages t = reserved_pages s" "pmm.more t = pmm.more s"
    using Suc.IH [OF Suc.prems(1) sub(3) Suc.prems(3) sub(1)] by blast
  have ak: "a + k < npages t" using Suc.prems(2) t(4) by simp
  have "a + k \<in> allocated t" using sub(2) t(3) by simp
  then have used: "page_used t (a + k)" by (simp add: allocated_def)
  have res: "unat (reserved_pages t) \<le> a + k"
    using Suc.prems(3) t(6) by simp
  have step: "pmm_free_page (page_addr s a + of_nat k * PAGE_SIZE) t = drop_page (a + k) t"
    using pmm_free_page_page_addr [OF t(2) ak] t(5) used res by (simp add: page_addr_add)
  have "pmm_inv (drop_page (a + k) t)"
    using t(2) ak res used by (rule pmm_inv_drop_page)
  moreover have "allocated (drop_page (a + k) t) = allocated s - {a..<a + Suc k}"
    unfolding allocated_drop_page [OF t(2) ak] t(3) by auto
  moreover have "fold (\<lambda>i. pmm_free_page (page_addr s a + of_nat i * PAGE_SIZE)) [0..<Suc k] s
      = drop_page (a + k) t"
    using t(1) step by simp
  ultimately show ?case
    using t(4-7) by (intro exI [of _ "drop_page (a + k) t"]) simp
qed simp

lemma pmm_free_pages_run:
  assumes "pmm_inv s" "a + unat k \<le> npages s" "unat (reserved_pages s) \<le> a"
    "{a..<a + unat k} \<subseteq> allocated s"
  shows "pmm_inv (pmm_free_pages (page_addr s a) k s)"
    "allocated (pmm_free_pages (page_addr s a) k s) = allocated s - {a..<a + unat k}"
    "page_addr (pmm_free_pages (page_addr s a) k s) = page_addr s"
    "npages (pmm_free_pages (page_addr s a) k s) = npages s"
    "reserved_pages (pmm_free_pages (page_addr s a) k s) = reserved_pages s"
    "pmm.more (pmm_free_pages (page_addr s a) k s) = pmm.more s"
  using pmm_free_run [OF assms] by (auto simp: pmm_free_pages_def)

section \<open>Initialisation establishes the invariant\<close>

lemma page_align_down_unat: "unat (PAGE_ALIGN_DOWN x) = unat x div 4096 * 4096"
proof -
  have "PAGE_ALIGN_DOWN x = x AND NOT (mask 12)"
    by (simp add: PAGE_ALIGN_DOWN_def mask_eq_exp_minus_1)
  then show ?thesis using unat_and_not_mask [of 12 x] by simp
qed

lemma page_align_up_unat [word_nat]:
  assumes "unat x + 4095 < 2 ^ 64"
  shows "unat (PAGE_ALIGN_UP x) = page_up (unat x)"
proof -
  have "unat (x + 4095) = unat x + 4095"
    using assms by (simp add: word_nat)
  moreover have "PAGE_ALIGN_UP x = PAGE_ALIGN_DOWN (x + 4095)"
    by (simp add: PAGE_ALIGN_UP_def PAGE_ALIGN_DOWN_def add.commute)
  ultimately show ?thesis by (simp add: page_align_down_unat page_up_def)
qed


lemma unat_div_4096 [word_nat]: "unat ((x :: u64) div PAGE_SIZE) = unat x div 4096"
  by (simp add: unat_div)

text \<open>The bitmap before the reserved pages are marked: only the bits past the last page are set.\<close>

lemma init_bitmap_bits:
  fixes tp :: nat
  assumes "n < 64 * ((tp + 63) div 64)" "tp < 2 ^ 48"
  shows "bit ((if tp mod 64 \<noteq> 0
      then (replicate ((tp + 63) div 64) 0)
             [(tp + 63) div 64 - 1 := NOT (push_bit (tp mod 64) 1 - 1 :: u64)]
      else replicate ((tp + 63) div 64) 0) ! (n div 64)) (n mod 64) \<longleftrightarrow> tp \<le> n"
proof -
  have idx: "n div 64 < (tp + 63) div 64" using assms(1) by linarith
  have msk: "push_bit (tp mod 64) 1 - 1 = (mask (tp mod 64) :: u64)"
    by (simp add: mask_eq_exp_minus_1 push_bit_eq_mult)
  show ?thesis
  proof (cases "tp mod 64 = 0")
    case True
    then have "n < tp" using assms(1) by (auto elim!: dvdE)
    then show ?thesis using True idx by simp
  next
    case False
    obtain q r where qr: "tp = 64 * q + Suc r" "Suc r < 64"
      using False mult_div_mod_eq [of 64 tp] mod_less_divisor [of 64 tp]
      by (metis not0_implies_Suc zero_less_numeral)
    then have "(tp + 63) div 64 = (r + 64 * (q + 1)) div 64" by simp
    also have "\<dots> = q + 1" using qr(2) by (subst div_mult_self2) auto
    finally have last: "(tp + 63) div 64 - 1 = tp div 64" using qr by simp
    show ?thesis
    proof (cases "n div 64 = tp div 64")
      case True
      then have "tp \<le> n \<longleftrightarrow> tp mod 64 \<le> n mod 64"
        by (metis add_le_cancel_left div_mult_mod_eq)
      then show ?thesis
        using False True idx unfolding msk last by (simp add: bit_simps) auto
    next
      case neq: False
      then have "n div 64 < tp div 64" using idx False by linarith
      then have "n < tp" by (meson div_le_mono not_le)
      then show ?thesis using False neq idx unfolding last by simp
    qed
  qed
qed

lemma pmm_init_fields:
  fixes ke ms sz :: u64
  defines "tp \<equiv> unat sz div 4096"
  assumes hi: "unat ms + unat sz < 2 ^ 48" and ke: "unat ms \<le> unat ke"
    and room: "unat ke + 8 * ((tp + 63) div 64) + 8190 \<le> unat ms + unat sz"
  shows "npages (pmm_init ke ms sz s) = tp"
    "unat (bitmap_size (pmm_init ke ms sz s)) = (tp + 63) div 64"
    "length (bitmap (pmm_init ke ms sz s)) = (tp + 63) div 64"
    "unat (mem_region_start (pmm_init ke ms sz s)) = unat ms"
    "unat (mem_region_end (pmm_init ke ms sz s)) = unat ms + unat sz"
    "used_pages (pmm_init ke ms sz s) = reserved_pages (pmm_init ke ms sz s)"
    "unat (bitmap_addr (pmm_init ke ms sz s)) = page_up (unat ke)"
    "unat (reserved_pages (pmm_init ke ms sz s)) =
      (page_up (page_up (unat ke) + 8 * ((tp + 63) div 64)) - unat ms) div 4096"
proof -
  have tp: "unat (sz div PAGE_SIZE) = tp" by (simp add: tp_def word_nat)
  have lt: "tp < 2 ^ 48" using hi by (simp add: tp_def)
  have "unat (sz div PAGE_SIZE + 63) = tp + 63"
    using lt by (subst unat_plus_64) (simp_all only: tp, simp_all)
  then have bs: "unat ((sz div PAGE_SIZE + 63) div 64) = (tp + 63) div 64"
    by (simp add: unat_div)
  have bb: "unat ((sz div PAGE_SIZE + 63) div 64 * 8) = 8 * ((tp + 63) div 64)"
    using lt by (subst unat_mult_64) (simp_all only: bs, simp_all)
  define B where "B = 8 * ((tp + 63) div 64)"
  have ka: "unat (PAGE_ALIGN_UP ke) = page_up (unat ke)"
    using room hi by (intro page_align_up_unat) simp
  note le = page_up_le [of "unat ke"] page_up_ge [of "unat ke"] page_up_ge [of "page_up (unat ke) + B"]
  have be: "unat (PAGE_ALIGN_UP ke + (sz div PAGE_SIZE + 63) div 64 * 8) = page_up (unat ke) + B"
    unfolding ka [symmetric] bb [symmetric] B_def
    by (rule unat_plus_64) (use room hi le bb ka in \<open>simp add: B_def\<close>)
  have re: "unat (PAGE_ALIGN_UP (PAGE_ALIGN_UP ke + (sz div PAGE_SIZE + 63) div 64 * 8)) =
      page_up (page_up (unat ke) + B)"
    unfolding be [symmetric]
    by (rule page_align_up_unat) (use room hi le be in \<open>simp add: B_def\<close>)
  have "unat ms \<le> page_up (page_up (unat ke) + B)"
    using ke le by linarith
  then show "unat (reserved_pages (pmm_init ke ms sz s)) =
      (page_up (page_up (unat ke) + 8 * ((tp + 63) div 64)) - unat ms) div 4096"
    unfolding B_def [symmetric]
    by (simp add: pmm_init_def Let_def unat_div_4096 unat_minus_64 re)
  show "npages (pmm_init ke ms sz s) = tp"
    by (simp add: pmm_init_def Let_def npages_def tp)
  show "unat (bitmap_size (pmm_init ke ms sz s)) = (tp + 63) div 64"
    "length (bitmap (pmm_init ke ms sz s)) = (tp + 63) div 64"
    by (simp_all add: pmm_init_def Let_def bs)
  show "unat (mem_region_start (pmm_init ke ms sz s)) = unat ms"
    "unat (mem_region_end (pmm_init ke ms sz s)) = unat ms + unat sz"
    "used_pages (pmm_init ke ms sz s) = reserved_pages (pmm_init ke ms sz s)"
    "unat (bitmap_addr (pmm_init ke ms sz s)) = page_up (unat ke)"
    using hi by (simp_all add: pmm_init_def Let_def word_nat ka)
qed


section \<open>The allocator provides the page interface\<close>

lemma page_bytes_run:
  "(\<Union>n \<in> {a..<a + k}. page_bytes s n) =
    {unat (mem_region_start s) + 4096 * a..<unat (mem_region_start s) + 4096 * (a + k)}"
  by (induction k) (auto simp: page_bytes_def atLeastLessThanSuc)

lemma page_bytes_disjoint: "m \<noteq> n \<Longrightarrow> page_bytes s m \<inter> page_bytes s n = {}"
  by (cases "m < n") (auto simp: page_bytes_def)

lemma span_page_addr:
  assumes "pmm_inv s" "a + unat k \<le> npages s"
  shows "span (page_addr s a) k = (\<Union>n \<in> {a..<a + unat k}. page_bytes s n)"
  using unat_page_addr [of s a] assms by (simp add: page_bytes_run span_def algebra_simps)

lemma page_addr_nonzero:
  assumes "pmm_inv s" "n \<le> npages s" shows "page_addr s n \<noteq> 0"
  using unat_page_addr [OF assms] assms(1) by (auto simp: pmm_inv_def)

lemma pmm_allocate_pages_result:
  assumes inv: "pmm_inv s" and res: "pmm_allocate_pages k s = (p, s')"
  shows "(p = 0 \<and> s' = s) \<or>
    (\<exists>a. p = page_addr s a \<and> s' = take_run a (unat k) s \<and> 0 < unat k \<and> free_run s (unat k) a)"
proof -
  have "unat k = 0 \<or> unat k = 1 \<or> 2 \<le> unat k" by linarith
  then consider "k = 0" | "k = 1" | "2 \<le> unat k"
    by (auto simp: word_unat_eq_iff)
  then show ?thesis
  proof cases
    case 1
    then show ?thesis using res by (simp add: pmm_allocate_pages_def)
  next
    case 2
    then have eq: "pmm_allocate_page s = (p, s')" using res by (simp add: pmm_allocate_pages_def)
    show ?thesis
    proof (cases "allocated s = {..<npages s}")
      case False
      note ff = first_free_props [OF False]
      have "unat (reserved_pages s) \<le> first_free s"
        using inv ff(2) by (meson not_le pmm_inv_def)
      then have "free_run s 1 (first_free s)"
        using ff by (auto simp: free_run_def less_Suc_eq)
      then show ?thesis
        using eq False 2 by (auto simp: pmm_allocate_page_cases [OF inv])
    qed (use eq in \<open>simp add: pmm_allocate_page_cases [OF inv]\<close>)
  next
    case 3
    then show ?thesis
      using res first_run_props(1) by (force simp: pmm_allocate_pages_cases [OF inv 3] split: if_splits)
  qed
qed

lemma owned_bytes_take_run:
  assumes "pmm_inv s" "free_run s (unat k) a"
  shows "owned_bytes (take_run a (unat k) s) = owned_bytes s \<union> span (page_addr s a) k"
    "owned_bytes s \<inter> span (page_addr s a) k = {}"
proof -
  have le: "a + unat k \<le> npages s" using assms(2) by (simp add: free_run_def)
  show "owned_bytes (take_run a (unat k) s) = owned_bytes s \<union> span (page_addr s a) k"
    unfolding span_page_addr [OF assms(1) le] owned_bytes_def allocated_take_run [OF assms(1) le]
    by (simp add: page_bytes_def)
  show "owned_bytes s \<inter> span (page_addr s a) k = {}"
    unfolding span_page_addr [OF assms(1) le] owned_bytes_def
  proof (intro equals0I)
    fix x assume "x \<in> (\<Union>n \<in> allocated s. page_bytes s n) \<inter> (\<Union>n \<in> {a..<a + unat k}. page_bytes s n)"
    then obtain m n where "m \<in> allocated s" "n \<in> {a..<a + unat k}" "x \<in> page_bytes s m \<inter> page_bytes s n"
      by blast
    then show False
      using free_run_disjoint [OF assms(2)] page_bytes_disjoint [of m n s] by (cases "m = n") auto
  qed
qed

lemma reserved_le_owned: "pmm_inv s \<Longrightarrow> reserved_bytes s \<subseteq> owned_bytes s"
  unfolding reserved_bytes_def owned_bytes_def by (rule UN_mono) (auto simp: allocated_def pmm_inv_def)

lemma aligned_span_run:
  assumes inv: "pmm_inv s" and sub: "span p k \<subseteq> owned_bytes s - reserved_bytes s"
    and al: "4096 dvd unat p" and k: "0 < unat k"
  obtains a where "p = page_addr s a" "a + unat k \<le> npages s" "unat (reserved_pages s) \<le> a"
    "{a..<a + unat k} \<subseteq> allocated s"
proof -
  have in_page: "\<exists>n \<in> allocated s. unat (reserved_pages s) \<le> n \<and> x \<in> page_bytes s n"
    if "x \<in> span p k" for x
    using sub that by (fastforce simp: owned_bytes_def reserved_bytes_def not_less)
  have "unat p \<in> span p k" using k by (simp add: span_def)
  then obtain a where a: "a \<in> allocated s" "unat (reserved_pages s) \<le> a" "unat p \<in> page_bytes s a"
    using in_page by blast
  obtain u v where uv: "unat p = 4096 * u" "unat (mem_region_start s) = 4096 * v"
    using al inv by (auto simp: pmm_inv_def elim!: dvdE)
  have ua: "unat p = unat (mem_region_start s) + 4096 * a"
  proof -
    have "4096 * (v + a) \<le> 4096 * u" "4096 * u < 4096 * Suc (v + a)"
      using a(3) by (auto simp: page_bytes_def uv)
    then have "u = v + a" by (simp only: mult_le_cancel1 mult_less_cancel1) simp
    then show ?thesis by (simp add: uv)
  qed
  have al_le: "a < npages s" using a(1) by (simp add: allocated_def)
  have p: "p = page_addr s a"
    using unat_page_addr [OF inv, of a] ua al_le by (simp add: word_unat_eq_iff)
  have run: "a + i \<in> allocated s" if "i < unat k" for i
  proof -
    let ?x = "unat p + 4096 * i"
    have "?x \<in> span p k" using that by (simp add: span_def)
    then obtain n where n: "n \<in> allocated s" "?x \<in> page_bytes s n" using in_page by blast
    then have "n = a + i" using ua by (auto simp: page_bytes_def)
    then show ?thesis using n(1) by simp
  qed
  have sub_run: "{a..<a + unat k} \<subseteq> allocated s"
    using run by (auto simp: le_iff_add)
  have "a + (unat k - 1) < npages s"
    using run [of "unat k - 1"] k by (simp add: allocated_def)
  then show thesis
    using that p a(2) sub_run k by simp
qed


lemma owned_bytes_free_pages:
  assumes inv: "pmm_inv s" and sub: "span p k \<subseteq> owned_bytes s - reserved_bytes s"
    and al: "4096 dvd unat p"
  shows "pmm_inv (pmm_free_pages p k s)"
    "owned_bytes (pmm_free_pages p k s) = owned_bytes s - span p k"
    "reserved_bytes (pmm_free_pages p k s) = reserved_bytes s"
proof -
  have "owned_bytes (pmm_free_pages p k s) = owned_bytes s - span p k \<and>
    reserved_bytes (pmm_free_pages p k s) = reserved_bytes s"
  proof (cases "unat k = 0")
    case True
    then show ?thesis by (simp add: pmm_free_pages_def span_def)
  next
    case False
    then obtain a where a: "p = page_addr s a" "a + unat k \<le> npages s"
        "unat (reserved_pages s) \<le> a" "{a..<a + unat k} \<subseteq> allocated s"
      using aligned_span_run [OF inv sub al] by blast
    note free = pmm_free_pages_run [OF inv a(2-4)]
    have start: "mem_region_start (pmm_free_pages p k s) = mem_region_start s"
      using fun_cong [OF free(3), of 0] by (simp add: page_addr_def a(1))
    have "(\<Union>n \<in> allocated s - {a..<a + unat k}. page_bytes s n) = owned_bytes s - span p k"
    proof -
      have "page_bytes s m \<inter> page_bytes s n = {}" if "m \<notin> {a..<a + unat k}" "n \<in> {a..<a + unat k}" for m n
        using that by (intro page_bytes_disjoint) auto
      then show ?thesis
        unfolding owned_bytes_def a(1) span_page_addr [OF inv a(2)] by blast
    qed
    moreover have "page_bytes (pmm_free_pages p k s) = page_bytes s"
      using start by (simp add: page_bytes_def fun_eq_iff)
    ultimately show ?thesis
      using free by (simp add: owned_bytes_def reserved_bytes_def a(1))
  qed
  then show "owned_bytes (pmm_free_pages p k s) = owned_bytes s - span p k"
    "reserved_bytes (pmm_free_pages p k s) = reserved_bytes s" by auto
  show "pmm_inv (pmm_free_pages p k s)" using inv by (rule pmm_inv_free_pages)
qed

lemma page_addr_aligned:
  assumes "pmm_inv s" "n \<le> npages s" shows "4096 dvd unat (page_addr s n)"
  using unat_page_addr [OF assms] assms(1) by (simp add: pmm_inv_def)

interpretation pmm: page_allocator pmm_inv owned_bytes reserved_bytes pmm_allocate_pages pmm_free_pages
proof
  fix s :: "'a pmm_scheme" and k p s'
  assume inv: "pmm_inv s"
  then show "reserved_bytes s \<subseteq> owned_bytes s" by (rule reserved_le_owned)
  show "s' = s" if "pmm_allocate_pages k s = (0, s')"
  proof -
    have "page_addr s a \<noteq> 0" if "free_run s (unat k) a" for a
      using page_addr_nonzero [OF inv, of a] that by (simp add: free_run_def)
    then show ?thesis using pmm_allocate_pages_result [OF inv that] by auto
  qed
  show "pmm_inv s' \<and> owned_bytes s' = owned_bytes s \<union> span p k \<and> owned_bytes s \<inter> span p k = {} \<and>
      reserved_bytes s' = reserved_bytes s \<and> 4096 dvd unat p"
    if "pmm_allocate_pages k s = (p, s')" "p \<noteq> 0"
  proof -
    obtain a where a: "p = page_addr s a" "s' = take_run a (unat k) s" "free_run s (unat k) a"
      using pmm_allocate_pages_result [OF inv \<open>pmm_allocate_pages k s = (p, s')\<close>] \<open>p \<noteq> 0\<close> by auto
    have "pmm_inv s'"
      unfolding a(2) using inv a(3) free_run_disjoint [OF a(3)]
      by (intro pmm_inv_take_run) (auto simp: free_run_def)
    moreover have "reserved_bytes s' = reserved_bytes s"
      by (simp add: a(2) reserved_bytes_def page_bytes_def)
    moreover have "4096 dvd unat p"
      using a(1,3) page_addr_aligned [OF inv, of a] by (simp add: free_run_def)
    ultimately show ?thesis
      using owned_bytes_take_run [OF inv a(3)] by (simp add: a)
  qed
  show "pmm_inv (pmm_free_pages p k s) \<and> owned_bytes (pmm_free_pages p k s) = owned_bytes s - span p k \<and>
      reserved_bytes (pmm_free_pages p k s) = reserved_bytes s"
    if "span p k \<subseteq> owned_bytes s - reserved_bytes s" "4096 dvd unat p"
    using owned_bytes_free_pages [OF inv that] by simp
qed

section \<open>Boot state\<close>

lemma page_used_pmm_init:
  fixes ke ms sz :: u64
  defines "tp \<equiv> unat sz div 4096"
  assumes hi: "unat ms + unat sz < 2 ^ 48" and ke: "unat ms \<le> unat ke"
    and room: "unat ke + 8 * ((tp + 63) div 64) + 8190 \<le> unat ms + unat sz"
    and n: "n < 64 * ((tp + 63) div 64)"
    and R: "unat (reserved_pages (pmm_init ke ms sz s)) < 2 ^ 64"
      "unat (reserved_pages (pmm_init ke ms sz s)) \<le> 64 * ((tp + 63) div 64)"
  shows "page_used (pmm_init ke ms sz s) n \<longleftrightarrow>
    tp \<le> n \<or> n < unat (reserved_pages (pmm_init ke ms sz s))"
proof -
  note f = pmm_init_fields [OF hi ke room [unfolded tp_def], of s, folded tp_def]
  have lt: "tp < 2 ^ 48" using hi by (simp add: tp_def)
  have tpw: "unat (sz div PAGE_SIZE) = tp" by (simp add: word_nat tp_def)
  have md: "unat (sz div PAGE_SIZE mod 64) = tp mod 64"
    by (subst unat_mod) (simp only: tpw, simp)
  then have md0: "sz div PAGE_SIZE mod 64 \<noteq> 0 \<longleftrightarrow> tp mod 64 \<noteq> 0"
    by (simp only: word_unat_eq_iff) simp
  have bs: "unat ((sz div PAGE_SIZE + 63) div 64) = (tp + 63) div 64"
    using f(2) by (simp add: pmm_init_def Let_def)
  have bs1: "unat ((sz div PAGE_SIZE + 63) div 64 - 1) = (tp + 63) div 64 - 1" if "tp mod 64 \<noteq> 0"
  proof -
    have "0 < tp" using that by (cases "tp = 0") auto
    then have "1 \<le> (tp + 63) div 64" by linarith
    then show ?thesis by (subst unat_minus_64) (simp_all only: bs, simp_all)
  qed
  define bs where "bs = (sz div PAGE_SIZE + 63) div 64"
  define bm :: "u64 list" where "bm = (if sz div PAGE_SIZE mod 64 \<noteq> 0
    then (replicate (unat bs) 0)[unat (bs - 1) := NOT (push_bit (unat (sz div PAGE_SIZE mod 64)) 1 - 1)]
    else replicate (unat bs) 0)"
  define s1 where "s1 = s\<lparr>mem_region_start := ms, mem_region_end := ms + sz,
    total_pages := sz div PAGE_SIZE, bitmap_size := bs, bitmap_addr := PAGE_ALIGN_UP ke, bitmap := bm,
    reserved_pages := (PAGE_ALIGN_UP (PAGE_ALIGN_UP ke + bs * 8) - ms) div PAGE_SIZE\<rparr>"
  have s1: "pmm_init ke ms sz s =
      (set_range 0 (unat (reserved_pages s1)) s1)\<lparr>used_pages := reserved_pages s1\<rparr>"
    by (simp add: pmm_init_def Let_def s1_def bs_def bm_def)
  have bm: "bitmap s1 = (if tp mod 64 \<noteq> 0
      then (replicate ((tp + 63) div 64) 0)
             [(tp + 63) div 64 - 1 := NOT (push_bit (tp mod 64) 1 - 1 :: u64)]
      else replicate ((tp + 63) div 64) 0)"
    unfolding s1_def using md0 md bs bs1 by (simp add: bm_def bs_def)
  have "page_used s1 n \<longleftrightarrow> tp \<le> n"
    unfolding page_used_def bm using n lt by (rule init_bitmap_bits)
  moreover have "reserved_pages (pmm_init ke ms sz s) = reserved_pages s1"
    by (simp add: s1)
  moreover have "length (bitmap s1) = (tp + 63) div 64"
    by (simp add: bm)
  ultimately show ?thesis
    using R by (simp add: s1 page_used_set_range)
qed

lemma pmm_init_inv:
  fixes ke ms sz :: u64
  assumes ms: "0 < unat ms" "4096 dvd unat ms" and sz: "4096 dvd unat sz"
    and hi: "unat ms + unat sz < 2 ^ 48" and ke: "unat ms \<le> unat ke"
    and room: "unat ke + 8 * ((unat sz div 4096 + 63) div 64) + 8190 \<le> unat ms + unat sz"
  shows "pmm_inv (pmm_init ke ms sz s)"
    "allocated (pmm_init ke ms sz s) = {..<unat (reserved_pages (pmm_init ke ms sz s))}"
proof -
  let ?s = "pmm_init ke ms sz s" and ?tp = "unat sz div 4096"
  let ?R = "unat (reserved_pages ?s)"
  note f = pmm_init_fields [OF hi ke room, of s]
  have tp: "?tp < 2 ^ 48" "unat sz = 4096 * ?tp" using hi sz by auto
  have up: "page_up (page_up (unat ke) + 8 * ((?tp + 63) div 64)) \<le> unat ms + unat sz"
    using room page_up_le [of "unat ke"] ms sz by (intro page_up_least) auto
  then have R: "?R \<le> ?tp" unfolding f(8) using tp(2) by linarith
  have used: "page_used ?s n \<longleftrightarrow> ?tp \<le> n \<or> n < ?R" if n: "n < 64 * ((?tp + 63) div 64)" for n
  proof -
    have "?R < 2 ^ 64" "?R \<le> 64 * ((?tp + 63) div 64)"
      using R tp(1) by auto
    then show ?thesis
      using page_used_pmm_init [OF hi ke room n, of s] by blast
  qed
  have le: "?tp \<le> 64 * ((?tp + 63) div 64)" by linarith
  then have res: "\<forall>n < ?R. page_used ?s n"
    using R used by auto
  show al: "allocated ?s = {..<?R}"
    using R used le by (auto simp: allocated_def f(1))
  show "pmm_inv ?s"
    using R used f(1-6) ms tp hi res by (simp add: pmm_inv_def al)
qed

lemma pmm_init_layout:
  fixes ke ms sz :: u64
  assumes ms: "4096 dvd unat ms"
    and hi: "unat ms + unat sz < 2 ^ 48" and ke: "unat ms \<le> unat ke"
    and room: "unat ke + 8 * ((unat sz div 4096 + 63) div 64) + 8190 \<le> unat ms + unat sz"
  shows "unat ke \<le> unat (bitmap_addr (pmm_init ke ms sz s))"
    "unat (bitmap_addr (pmm_init ke ms sz s)) + 8 * length (bitmap (pmm_init ke ms sz s))
      \<le> unat ms + 4096 * unat (reserved_pages (pmm_init ke ms sz s))"
proof -
  note f = pmm_init_fields [OF hi ke room, of s]
  let ?E = "page_up (page_up (unat ke) + 8 * ((unat sz div 4096 + 63) div 64))"
  note ge = page_up_ge [of "unat ke"] page_up_ge [of "page_up (unat ke) + 8 * ((unat sz div 4096 + 63) div 64)"]
  show "unat ke \<le> unat (bitmap_addr (pmm_init ke ms sz s))"
    unfolding f(7) by (rule page_up_ge)
  have "4096 dvd ?E - unat ms" using ms by (intro dvd_diff_nat) auto
  then have "4096 * ((?E - unat ms) div 4096) = ?E - unat ms" by simp
  then show "unat (bitmap_addr (pmm_init ke ms sz s)) + 8 * length (bitmap (pmm_init ke ms sz s))
      \<le> unat ms + 4096 * unat (reserved_pages (pmm_init ke ms sz s))"
    unfolding f(3,7,8) using ge ke by linarith
qed


section \<open>Round trip\<close>

lemma bitmap_eqI:
  assumes "length (bitmap s) = length (bitmap t)"
    "\<And>n. n < 64 * length (bitmap s) \<Longrightarrow> page_used s n = page_used t n"
  shows "bitmap s = bitmap t"
proof (rule nth_equalityI)
  fix i assume i: "i < length (bitmap s)"
  show "bitmap s ! i = bitmap t ! i"
  proof (rule bit_word_eqI)
    fix n assume "n < LENGTH(64)"
    then show "bit (bitmap s ! i) n = bit (bitmap t ! i) n"
      using assms(2) [of "64 * i + n"] i by (simp add: page_used_def)
  qed
qed (rule assms(1))

lemma pmm_free_pages_frame [simp]:
  "length (bitmap (pmm_free_pages a k s)) = length (bitmap s)"
  "bitmap_size (pmm_free_pages a k s) = bitmap_size s"
  "total_pages (pmm_free_pages a k s) = total_pages s"
  "reserved_pages (pmm_free_pages a k s) = reserved_pages s"
  "mem_region_start (pmm_free_pages a k s) = mem_region_start s"
  "mem_region_end (pmm_free_pages a k s) = mem_region_end s"
  "bitmap_addr (pmm_free_pages a k s) = bitmap_addr s"
  "pmm.more (pmm_free_pages a k s) = pmm.more s"
proof -
  have "let t = fold (\<lambda>i. pmm_free_page (a + of_nat i * PAGE_SIZE)) is s in
    length (bitmap t) = length (bitmap s) \<and> bitmap_size t = bitmap_size s \<and>
    total_pages t = total_pages s \<and> reserved_pages t = reserved_pages s \<and>
    mem_region_start t = mem_region_start s \<and> mem_region_end t = mem_region_end s \<and>
    bitmap_addr t = bitmap_addr s \<and> pmm.more t = pmm.more s" for "is"
    by (induction "is" arbitrary: s) (simp_all add: Let_def pmm_free_page_def)
  from this [of "[0..<unat k]"]
  show "length (bitmap (pmm_free_pages a k s)) = length (bitmap s)"
    "bitmap_size (pmm_free_pages a k s) = bitmap_size s"
    "total_pages (pmm_free_pages a k s) = total_pages s"
    "reserved_pages (pmm_free_pages a k s) = reserved_pages s"
    "mem_region_start (pmm_free_pages a k s) = mem_region_start s"
    "mem_region_end (pmm_free_pages a k s) = mem_region_end s"
    "bitmap_addr (pmm_free_pages a k s) = bitmap_addr s"
    "pmm.more (pmm_free_pages a k s) = pmm.more s"
    by (simp_all add: pmm_free_pages_def Let_def)
qed


lemma pmm_inv_page_used:
  assumes "pmm_inv s" "n < 64 * length (bitmap s)"
  shows "page_used s n \<longleftrightarrow> n \<in> allocated s \<or> npages s \<le> n"
  using assms by (auto simp: pmm_inv_def allocated_def)

lemma pmm_state_eqI:
  assumes "pmm_inv s" "pmm_inv t" "allocated s = allocated t" "bitmap_size s = bitmap_size t"
    "total_pages s = total_pages t" "reserved_pages s = reserved_pages t"
    "mem_region_start s = mem_region_start t" "mem_region_end s = mem_region_end t"
    "bitmap_addr s = bitmap_addr t" "pmm.more s = pmm.more t"
  shows "s = t"
proof -
  have np: "npages s = npages t" using assms(5) by (simp add: npages_def)
  have len: "length (bitmap s) = length (bitmap t)"
    using assms(1,2,4) by (simp add: pmm_inv_def)
  have "bitmap s = bitmap t"
    using len
  proof (rule bitmap_eqI)
    fix n assume "n < 64 * length (bitmap s)"
    then show "page_used s n = page_used t n"
      using pmm_inv_page_used [OF assms(1)] pmm_inv_page_used [OF assms(2)] assms(3) len np by simp
  qed
  moreover have "used_pages s = used_pages t"
    using assms(1-3) by (simp add: pmm_inv_def word_unat_eq_iff)
  ultimately show ?thesis using assms by simp
qed

lemma pmm_alloc_free_restores:
  assumes inv: "pmm_inv s" and al: "pmm_allocate_pages k s = (p, s')" and p: "p \<noteq> 0"
  shows "pmm_free_pages p k s' = s"
proof -
  obtain a where a: "p = page_addr s a" "s' = take_run a (unat k) s" "free_run s (unat k) a"
    using pmm_allocate_pages_result [OF inv al] p by auto
  have le: "a + unat k \<le> npages s" "unat (reserved_pages s) \<le> a"
    using a(3) by (auto simp: free_run_def)
  have inv': "pmm_inv s'"
    unfolding a(2) using inv le(1) free_run_disjoint [OF a(3)] by (rule pmm_inv_take_run)
  have al': "allocated s' = allocated s \<union> {a..<a + unat k}"
    unfolding a(2) using inv le(1) by (rule allocated_take_run)
  have p': "p = page_addr s' a" by (simp add: a)
  have free: "pmm_inv (pmm_free_pages p k s')"
    "allocated (pmm_free_pages p k s') = allocated s' - {a..<a + unat k}"
    unfolding p' by (rule pmm_free_pages_run; use inv' le al' in \<open>simp add: a(2)\<close>)+
  then have "allocated (pmm_free_pages p k s') = allocated s"
    using al' free_run_disjoint [OF a(3)] by auto
  then show ?thesis
    using free(1) inv by (intro pmm_state_eqI) (simp_all add: a(2) take_run_def)
qed

section \<open>A concrete allocator\<close>

text \<open>Seventy pages from 1 GiB on, with the kernel image ending in the second page.\<close>

definition demo_pmm :: pmm where
  "demo_pmm = pmm_init 0x40001234 0x40000000 (70 * 4096)
     \<lparr>bitmap_addr = 0, bitmap = [], bitmap_size = 0, total_pages = 0, used_pages = 0,
      reserved_pages = 0, mem_region_start = 0, mem_region_end = 0\<rparr>"

lemma demo_pmm_inv: "pmm_inv demo_pmm"
  unfolding demo_pmm_def by (rule pmm_init_inv) simp_all

lemma demo_pmm_value:
  "demo_pmm = \<lparr>bitmap_addr = 0x40002000, bitmap = [7, 0xFFFFFFFFFFFFFFC0], bitmap_size = 2,
     total_pages = 70, used_pages = 3, reserved_pages = 3,
     mem_region_start = 0x40000000, mem_region_end = 0x40046000\<rparr>"
  by code_simp


section \<open>Properties\<close>

text \<open>\<open>pmm_init\<close> on a page-aligned region below \<open>2 ^ 48\<close> that has room for the
  kernel and the bitmap establishes the allocator invariant; the allocated pages are
  exactly the reserved ones, and these cover the kernel image and the bitmap.\<close>

theorem pmm_init_establishes:
  fixes ke ms sz :: u64
  assumes "0 < unat ms" "4096 dvd unat ms" "4096 dvd unat sz" "unat ms + unat sz < 2 ^ 48"
    "unat ms \<le> unat ke"
    "unat ke + 8 * ((unat sz div 4096 + 63) div 64) + 8190 \<le> unat ms + unat sz"
  shows "pmm_inv (pmm_init ke ms sz s) \<and>
    allocated (pmm_init ke ms sz s) = {..<unat (reserved_pages (pmm_init ke ms sz s))} \<and>
    unat ke \<le> unat (bitmap_addr (pmm_init ke ms sz s)) \<and>
    unat (bitmap_addr (pmm_init ke ms sz s)) + 8 * length (bitmap (pmm_init ke ms sz s))
      \<le> unat ms + 4096 * unat (reserved_pages (pmm_init ke ms sz s))"
  using pmm_init_inv [OF assms, of s] pmm_init_layout [OF assms(2,4-6), of s] by simp

theorem pmm_init_establishes_witness:
  "pmm_inv demo_pmm \<and> allocated demo_pmm = {..<3}"
  using pmm_init_establishes [where ms = "0x40000000" and sz = "70 * 4096" and ke = "0x40001234" and
      s = "\<lparr>bitmap_addr = 0, bitmap = [], bitmap_size = 0, total_pages = 0, used_pages = 0,
        reserved_pages = 0, mem_region_start = 0, mem_region_end = 0\<rparr>", folded demo_pmm_def]
  by (simp add: demo_pmm_value)

text \<open>C32: \<open>pmm_allocate_page\<close> is first fit and complete: it returns 0 and changes
  nothing exactly when every page is allocated; otherwise it returns the address of the
  lowest free page, which becomes the only newly allocated one, and keeps the invariant.\<close>

theorem pmm_allocate_page_first_fit:
  assumes "pmm_inv s" "pmm_allocate_page s = (p, s')"
  shows "if allocated s = {..<npages s} then p = 0 \<and> s' = s
    else \<exists>n < npages s. p = page_addr s n \<and> p \<noteq> 0 \<and> n \<notin> allocated s \<and> (\<forall>m < n. m \<in> allocated s) \<and>
      allocated s' = insert n (allocated s) \<and> used_pages s' = used_pages s + 1 \<and> pmm_inv s'"
proof (cases "allocated s = {..<npages s}")
  case True
  then show ?thesis using assms by (simp add: pmm_allocate_page_cases)
next
  case False
  note ff = first_free_props [OF False]
  have "allocated s \<inter> {first_free s..<first_free s + 1} = {}"
    using ff(2) by (auto simp: allocated_def)
  then have "pmm_inv (take_run (first_free s) 1 s)"
    using assms(1) ff(1) by (intro pmm_inv_take_run) auto
  moreover have "allocated (take_run (first_free s) 1 s) = insert (first_free s) (allocated s)"
    using allocated_take_run [OF assms(1), of "first_free s" 1] ff(1) by auto
  ultimately show ?thesis
    using assms False ff page_addr_nonzero [OF assms(1), of "first_free s"]
    by (auto simp: pmm_allocate_page_cases allocated_def take_run_def intro!: exI [of _ "first_free s"])
qed

theorem pmm_allocate_page_first_fit_witness:
  "fst (pmm_allocate_page demo_pmm) = 0x40003000 \<and> pmm_inv (snd (pmm_allocate_page demo_pmm))"
proof -
  have "fst (pmm_allocate_page demo_pmm) = 0x40003000"
    by code_simp
  then show ?thesis
    using pmm_allocate_page_first_fit [OF demo_pmm_inv prod.collapse [symmetric]]
    by (auto split: if_splits)
qed


text \<open>\<open>pmm_allocate_pages\<close> for two or more pages returns the lowest run of that
  many free pages above the reserved area, marks exactly that run and keeps the
  invariant; it returns 0, changing nothing, only when there is no such run.\<close>

theorem pmm_allocate_pages_first_run:
  assumes "pmm_inv s" "2 \<le> unat k" "pmm_allocate_pages k s = (p, s')"
  shows "if \<exists>a. free_run s (unat k) a
    then \<exists>a. free_run s (unat k) a \<and> (\<forall>a' < a. \<not> free_run s (unat k) a') \<and> p = page_addr s a \<and>
      p \<noteq> 0 \<and> allocated s' = allocated s \<union> {a..<a + unat k} \<and> pmm_inv s'
    else p = 0 \<and> s' = s"
proof (cases "\<exists>a. free_run s (unat k) a")
  case True
  let ?a = "first_run s (unat k)"
  have run: "free_run s (unat k) ?a" "\<forall>a' < ?a. \<not> free_run s (unat k) a'"
    using True first_run_props by blast+
  then have le: "?a + unat k \<le> npages s" by (simp add: free_run_def)
  have "p = page_addr s ?a" "s' = take_run ?a (unat k) s"
    using assms True by (simp_all add: pmm_allocate_pages_cases)
  moreover have "pmm_inv (take_run ?a (unat k) s)"
    using assms(1) le free_run_disjoint [OF run(1)] by (rule pmm_inv_take_run)
  moreover have "page_addr s ?a \<noteq> 0"
    using assms(1) le by (intro page_addr_nonzero) auto
  ultimately show ?thesis
    using True run allocated_take_run [OF assms(1) le] by auto
next
  case False
  then show ?thesis using assms by (simp add: pmm_allocate_pages_cases)
qed

theorem pmm_allocate_pages_first_run_witness:
  "fst (pmm_allocate_pages 5 demo_pmm) = 0x40003000 \<and> pmm_inv (snd (pmm_allocate_pages 5 demo_pmm))"
proof -
  have "fst (pmm_allocate_pages 5 demo_pmm) = 0x40003000"
    by code_simp
  then show ?thesis
    using pmm_allocate_pages_first_run [OF demo_pmm_inv _ prod.collapse [symmetric], of 5]
    by (auto split: if_splits)
qed

text \<open>\<open>pmm_free_page\<close> releases a page exactly when its argument is the address of an
  allocated page outside the reserved area; every other argument (outside the region,
  unaligned, reserved, or already free) leaves the state unchanged, so neither a double
  free nor a wild pointer damages the bitmap.  The invariant is kept either way.\<close>

theorem pmm_free_page_guarded:
  assumes "pmm_inv s"
  shows "pmm_inv (pmm_free_page a s) \<and>
    (if \<exists>n \<in> allocated s. unat (reserved_pages s) \<le> n \<and> a = page_addr s n
     then \<exists>n \<in> allocated s. unat (reserved_pages s) \<le> n \<and> a = page_addr s n \<and>
       allocated (pmm_free_page a s) = allocated s - {n} \<and>
       used_pages (pmm_free_page a s) = used_pages s - 1
     else pmm_free_page a s = s)"
proof (cases "\<exists>n \<in> allocated s. unat (reserved_pages s) \<le> n \<and> a = page_addr s n")
  case True
  then obtain n where n: "n \<in> allocated s" "unat (reserved_pages s) \<le> n" "a = page_addr s n"
    by blast
  then have nn: "n < npages s" "page_used s n" by (auto simp: allocated_def)
  then have "pmm_free_page a s = drop_page n s"
    using n pmm_free_page_page_addr [OF assms nn(1)] by simp
  then have "allocated (pmm_free_page a s) = allocated s - {n}"
    "used_pages (pmm_free_page a s) = used_pages s - 1"
    using allocated_drop_page [OF assms nn(1)] by (simp_all add: drop_page_def)
  then show ?thesis
    using True n pmm_inv_free_page [OF assms] by auto
next
  case False
  have "pmm_free_page a s = s"
  proof (cases "\<exists>n < npages s. a = page_addr s n")
    case True
    then obtain n where n: "n < npages s" "a = page_addr s n" by blast
    then have "n < unat (reserved_pages s) \<or> \<not> page_used s n"
      using False by (auto simp: allocated_def not_less)
    then show ?thesis using n pmm_free_page_page_addr [OF assms n(1)] by auto
  next
    case False
    then show ?thesis using pmm_free_page_other [OF assms] by blast
  qed
  then show ?thesis using False assms by auto
qed

theorem pmm_free_page_guarded_witness: "pmm_inv (pmm_free_page 0x40003000 demo_pmm)"
  using pmm_free_page_guarded [OF demo_pmm_inv] by blast

text \<open>C31: an allocation followed by the release of what it returned restores the
  allocator state exactly, bitmap and counters included.\<close>

theorem pmm_alloc_free_roundtrip:
  assumes "pmm_inv s" "pmm_allocate_pages k s = (p, s')" "p \<noteq> 0"
  shows "pmm_free_pages p k s' = s"
  using assms by (rule pmm_alloc_free_restores)

theorem pmm_alloc_free_roundtrip_witness:
  "pmm_free_pages (fst (pmm_allocate_pages 5 demo_pmm)) 5 (snd (pmm_allocate_pages 5 demo_pmm)) = demo_pmm"
proof -
  have "fst (pmm_allocate_pages 5 demo_pmm) = 0x40003000" by code_simp
  then show ?thesis
    using pmm_alloc_free_roundtrip [OF demo_pmm_inv prod.collapse [symmetric], of 5] by simp
qed

text \<open>C5: whatever sequence of \<open>pmm_allocate_pages\<close> and \<open>pmm_free_pages\<close> calls clients
  make, each freeing only what it was given, the live allocations are pairwise disjoint
  and disjoint from everything owned at the start, and the owned bytes are exactly those
  plus the live allocations: pages are neither handed out twice nor leaked.\<close>

theorem pmm_live_allocations_disjoint:
  assumes "pmm_inv s" "ledger_run pmm_allocate_pages pmm_free_pages ops s = (s', L)"
  shows "pmm_inv s' \<and> disjoint_ledger L \<and> (\<forall>x \<in> set L. lspan x \<inter> owned_bytes s = {}) \<and>
    owned_bytes s' = owned_bytes s \<union> \<Union> (lspan ` set L)"
  using pmm.ledger_inv_run [OF assms(1), of ops] unfolding assms(2) pmm.ledger_inv_def by simp

theorem pmm_live_allocations_disjoint_witness:
  "disjoint_ledger (snd (ledger_run pmm_allocate_pages pmm_free_pages [Alloc 2, Alloc 3, Free 0, Alloc 1] demo_pmm))
   \<and> snd (ledger_run pmm_allocate_pages pmm_free_pages [Alloc 2, Alloc 3, Free 0, Alloc 1] demo_pmm)
     = [(0x40005000, 3), (0x40003000, 1)]"
proof -
  have "snd (ledger_run pmm_allocate_pages pmm_free_pages [Alloc 2, Alloc 3, Free 0, Alloc 1] demo_pmm)
     = [(0x40005000, 3), (0x40003000, 1)]"
    by code_simp
  then show ?thesis
    using pmm_live_allocations_disjoint [OF demo_pmm_inv prod.collapse [symmetric]] by blast
qed

end
