(* ===== verification/Framing.thy ===== *)
theory Framing
  imports Pmm
begin

text \<open>
  The framing protocol of the second serial line, \<^verbatim>\<open>src/lib/uart/framing.c\<close>:
  CRC-16/CCITT, byte stuffing, encoding, decoding from memory, reception from
  the line and acknowledged transmission.  The line is a sequence of polls:
  what one call of \<open>uart1_getc_nonblock\<close> returned and what \<open>timer_get_ticks\<close> reads
  at that moment.  A receive that is still waiting when the polls run out is
  \<open>None\<close>.  Bytes given to \<open>uart1_putc\<close> are appended to a transmit log.
\<close>

section \<open>State\<close>

abbreviation FRAME_START :: u8 where "FRAME_START \<equiv> 0xAA"
abbreviation FRAME_TYPE_DATA :: u8 where "FRAME_TYPE_DATA \<equiv> 1"
abbreviation FRAME_TYPE_ACK :: u8 where "FRAME_TYPE_ACK \<equiv> 2"
abbreviation FRAME_TYPE_NACK :: u8 where "FRAME_TYPE_NACK \<equiv> 3"
abbreviation FRAMING_MAX_PAYLOAD :: u16 where "FRAMING_MAX_PAYLOAD \<equiv> 256"
abbreviation FRAMING_MAX_ENCODED :: nat where "FRAMING_MAX_ENCODED \<equiv> 525"
abbreviation FRAMING_MAX_RETRIES :: nat where "FRAMING_MAX_RETRIES \<equiv> 3"
abbreviation FRAMING_DEFAULT_TIMEOUT_TICKS :: u64 where "FRAMING_DEFAULT_TIMEOUT_TICKS \<equiv> 100"
abbreviation FRAMING_OK :: int where "FRAMING_OK \<equiv> 0"
abbreviation FRAMING_ERR_TIMEOUT :: int where "FRAMING_ERR_TIMEOUT \<equiv> -1"
abbreviation FRAMING_ERR_CRC :: int where "FRAMING_ERR_CRC \<equiv> -2"
abbreviation FRAMING_ERR_BADLEN :: int where "FRAMING_ERR_BADLEN \<equiv> -3"

record frame =
  frame_type :: u8
  frame_seq :: u8
  frame_len :: u16
  frame_payload :: "u8 list"

record framing_stats =
  frames_sent :: u32
  frames_recv :: u32
  retransmits :: u32
  crc_errors :: u32

type_synonym poll = "u64 \<times> u8 option"
type_synonym rx = "u64 \<times> poll list"

record framing =
  g_stats :: framing_stats
  g_timeout :: u64
  g_hw_ready :: bool
  g_hw_absent :: bool
  g_probing :: bool
  g_probe_faulted :: bool
  uart1_tx :: "u8 list"
  line :: rx

definition framing_init :: "framing \<Rightarrow> framing" where
  "framing_init s = s\<lparr>g_stats := \<lparr>frames_sent = 0, frames_recv = 0, retransmits = 0, crc_errors = 0\<rparr>,
                      g_timeout := FRAMING_DEFAULT_TIMEOUT_TICKS\<rparr>"

section \<open>Hardware probe\<close>

definition UART1_VA_BASE :: u64 where "UART1_VA_BASE = PHYS_TO_VIRT 0x09040000"
definition UART1_FR_VA :: u64 where "UART1_FR_VA = PHYS_TO_VIRT (0x09040000 + 0x18)"

definition framing_available :: "framing \<Rightarrow> bool" where
  "framing_available s = g_hw_ready s"

text \<open>The abort hook: the frame's \<open>far\<close> and \<open>elr\<close>; the result says whether the abort is swallowed.\<close>

definition framing_probe_abort :: "u64 \<Rightarrow> u64 \<Rightarrow> framing \<Rightarrow> bool \<times> u64 \<times> framing" where
  "framing_probe_abort far elr s =
    (if \<not> g_probing s then (False, elr, s)
     else if far AND NOT 0xFFF \<noteq> UART1_VA_BASE then (False, elr, s)
     else (True, elr + 4, s\<lparr>g_probe_faulted := True\<rparr>))"

text \<open>
  The first argument says whether the UART answers at its address: when it does
  not, the probe load (at address \<open>pc\<close>) aborts and the abort handler calls the hook
  above.  The result is \<open>None\<close> when the hook does not swallow the abort, which
  panics the kernel.
\<close>

definition framing_ensure_hw :: "bool \<Rightarrow> u64 \<Rightarrow> framing \<Rightarrow> framing option" where
  "framing_ensure_hw present pc s =
    (if g_hw_ready s \<or> g_hw_absent s then Some s
     else let s1 = s\<lparr>g_probe_faulted := False, g_probing := True\<rparr>;
              probed = (if present then Some s1
                        else case framing_probe_abort UART1_FR_VA pc s1 of
                               (swallowed, _, s') \<Rightarrow> if swallowed then Some s' else None)
          in case probed of None \<Rightarrow> None
             | Some s2 \<Rightarrow>
                (let s3 = s2\<lparr>g_probing := False\<rparr>
                 in if g_probe_faulted s3 then Some (s3\<lparr>g_hw_absent := True\<rparr>)
                    else Some (s3\<lparr>g_hw_ready := True\<rparr>)))"

section \<open>CRC\<close>

definition crc_bit :: "u16 \<Rightarrow> u16" where
  "crc_bit crc = (if crc AND 0x8000 \<noteq> 0 then push_bit 1 crc XOR 0x1021 else push_bit 1 crc)"

definition crc_byte :: "u16 \<Rightarrow> u8 \<Rightarrow> u16" where
  "crc_byte crc b = (crc_bit ^^ 8) (crc XOR push_bit 8 (ucast b))"

definition crc16_ccitt :: "u8 list \<Rightarrow> u16" where
  "crc16_ccitt data = foldl crc_byte 0xFFFF data"

section \<open>Transmit\<close>

fun stuff :: "u8 list \<Rightarrow> u8 list" where
  "stuff [] = []"
| "stuff (b # bs) = (if b = FRAME_START then b # 0 # stuff bs else b # stuff bs)"

definition hi8 :: "u16 \<Rightarrow> u8" where "hi8 w = ucast (drop_bit 8 w)"
definition lo8 :: "u16 \<Rightarrow> u8" where "lo8 w = ucast (w AND 0xFF)"

definition frame_body :: "u8 \<Rightarrow> u8 \<Rightarrow> u16 \<Rightarrow> u8 list \<Rightarrow> u8 list" where
  "frame_body ty seq len payload = [ty, seq, hi8 len, lo8 len] @ take (unat len) payload"

text \<open>The bytes written to \<open>out\<close>; their number is the returned length, and \<open>None\<close> is the result -1.\<close>

definition framing_encode :: "u8 \<Rightarrow> u8 \<Rightarrow> u8 list \<Rightarrow> u16 \<Rightarrow> u8 list option" where
  "framing_encode ty seq payload len =
    (if len > FRAMING_MAX_PAYLOAD then None
     else let body = frame_body ty seq len payload;
              crc = crc16_ccitt body
          in Some (FRAME_START # stuff body @ stuff [hi8 crc, lo8 crc]))"

definition framing_send :: "u8 \<Rightarrow> u8 \<Rightarrow> u8 list \<Rightarrow> u16 \<Rightarrow> framing \<Rightarrow> int \<times> framing" where
  "framing_send ty seq payload len s =
    (case framing_encode ty seq payload len of
       None \<Rightarrow> (FRAMING_ERR_BADLEN, s)
     | Some buf \<Rightarrow> (FRAMING_OK, s\<lparr>uart1_tx := uart1_tx s @ buf,
                       g_stats := (g_stats s)\<lparr>frames_sent := frames_sent (g_stats s) + 1\<rparr>\<rparr>))"

definition framing_send_ack :: "u8 \<Rightarrow> framing \<Rightarrow> int \<times> framing" where
  "framing_send_ack seq s = framing_send FRAME_TYPE_ACK seq [] 0 s"

definition framing_send_nack :: "u8 \<Rightarrow> framing \<Rightarrow> int \<times> framing" where
  "framing_send_nack seq s = framing_send FRAME_TYPE_NACK seq [] 0 s"

section \<open>Receive\<close>

fun recv_byte :: "u64 \<Rightarrow> rx \<Rightarrow> (int \<times> rx) option" where
  "recv_byte deadline (t, []) = None"
| "recv_byte deadline (t, (t', Some b) # ps) = Some (uint b, (t', ps))"
| "recv_byte deadline (t, (t', None) # ps) =
    (if t' \<ge> deadline then Some (-1, (t', ps)) else recv_byte deadline (t', ps))"

text \<open>The second component of the result is \<open>*restart_type\<close>, meaningful when the first is -2.\<close>

definition read_logical :: "u64 \<Rightarrow> rx \<Rightarrow> (int \<times> u8 \<times> rx) option" where
  "read_logical deadline r =
    (case recv_byte deadline r of
       None \<Rightarrow> None
     | Some (b, r1) \<Rightarrow>
        if b < 0 then Some (-1, 0, r1)
        else if b = uint FRAME_START then
          (case recv_byte deadline r1 of
             None \<Rightarrow> None
           | Some (n, r2) \<Rightarrow>
              if n < 0 then Some (-1, 0, r2)
              else if n = 0 then Some (uint FRAME_START, 0, r2)
              else Some (-2, word_of_int n, r2))
        else Some (b, 0, r1))"

lemma recv_byte_shorter: "recv_byte d r = Some (b, r') \<Longrightarrow> length (snd r') < length (snd r)"
  by (induction d r arbitrary: b rule: recv_byte.induct) (auto split: if_splits)

function sync_start :: "u64 \<Rightarrow> rx \<Rightarrow> ((int \<times> u8) \<times> rx) option" where
  "sync_start deadline r =
    (case recv_byte deadline r of
       None \<Rightarrow> None
     | Some (b, r1) \<Rightarrow>
        if b < 0 then Some ((-1, 0), r1)
        else if b \<noteq> uint FRAME_START then sync_start deadline r1
        else (case recv_byte deadline r1 of
                None \<Rightarrow> None
              | Some (t, r2) \<Rightarrow>
                 if t < 0 then Some ((-1, 0), r2)
                 else if t = uint FRAME_TYPE_DATA \<or> t = uint FRAME_TYPE_ACK \<or> t = uint FRAME_TYPE_NACK
                 then Some ((0, word_of_int t), r2)
                 else sync_start deadline r2))"
  by pat_completeness auto
termination
  by (relation "measure (\<lambda>(d, r). length (snd r))") (auto dest!: recv_byte_shorter)

declare sync_start.simps [simp del]

text \<open>
  The loops of \<open>framing_recv\<close> that read the header, the payload and the checksum:
  \<open>n\<close> logical bytes, or a timeout, or the type byte of a frame that starts anew.
\<close>

datatype rd = Got "u8 list" | Timed_Out | Restart u8

fun read_n :: "nat \<Rightarrow> u64 \<Rightarrow> rx \<Rightarrow> (rd \<times> rx) option" where
  "read_n 0 deadline r = Some (Got [], r)"
| "read_n (Suc n) deadline r =
    (case read_logical deadline r of
       None \<Rightarrow> None
     | Some (b, rt, r1) \<Rightarrow>
        if b = -1 then Some (Timed_Out, r1)
        else if b = -2 then Some (Restart rt, r1)
        else (case read_n n deadline r1 of
                None \<Rightarrow> None
              | Some (Got bs, r2) \<Rightarrow> Some (Got (word_of_int b # bs), r2)
              | Some (x, r2) \<Rightarrow> Some (x, r2)))"


lemma read_logical_shorter: "read_logical d r = Some (b, rt, r') \<Longrightarrow> length (snd r') < length (snd r)"
  by (auto simp: read_logical_def split: option.splits if_splits dest!: recv_byte_shorter)

lemma read_n_shorter:
  "read_n n d r = Some (x, r') \<Longrightarrow>
   length (snd r') \<le> length (snd r) \<and> ((\<forall>bs. x \<noteq> Got bs) \<longrightarrow> length (snd r') < length (snd r))"
proof (induction n arbitrary: r x r')
  case (Suc n)
  obtain b rt r1 where r1: "read_logical d r = Some (b, rt, r1)"
    using Suc.prems by (auto split: option.splits)
  note sh = read_logical_shorter [OF r1]
  show ?case
  proof (cases "b = -1 \<or> b = -2")
    case True
    then show ?thesis using Suc.prems r1 sh by auto
  next
    case False
    then obtain y where "read_n n d r1 = Some (y, r')" "(\<exists>bs. y = Got bs) \<longleftrightarrow> (\<exists>bs. x = Got bs)"
      using Suc.prems r1 by (auto split: option.splits rd.splits)
    then show ?thesis using Suc.IH [of r1 y r'] sh by auto
  qed
qed auto

definition join16 :: "u8 \<Rightarrow> u8 \<Rightarrow> u16" where
  "join16 h l = push_bit 8 (ucast h) OR ucast l"

text \<open>
  \<open>framing_recv\<close> from the label \<open>have_type\<close> on, with the jumps back to it as
  recursive calls; the result code, the frame stored in \<open>*out\<close> (if any) and the
  remaining line.
\<close>

function recv_frame :: "u64 \<Rightarrow> u8 \<Rightarrow> rx \<Rightarrow> (int \<times> frame option \<times> rx) option" where
  "recv_frame deadline ty r =
    (case read_n 3 deadline r of
       None \<Rightarrow> None
     | Some (Timed_Out, r1) \<Rightarrow> Some (FRAMING_ERR_TIMEOUT, None, r1)
     | Some (Restart rt, r1) \<Rightarrow> recv_frame deadline rt r1
     | Some (Got hd3, r1) \<Rightarrow>
        (let seq = hd3 ! 0; len = join16 (hd3 ! 1) (hd3 ! 2) in
         if len > FRAMING_MAX_PAYLOAD then Some (FRAMING_ERR_BADLEN, None, r1)
         else (case read_n (unat len) deadline r1 of
             None \<Rightarrow> None
           | Some (Timed_Out, r2) \<Rightarrow> Some (FRAMING_ERR_TIMEOUT, None, r2)
           | Some (Restart rt, r2) \<Rightarrow> recv_frame deadline rt r2
           | Some (Got payload, r2) \<Rightarrow>
              (case read_n 2 deadline r2 of
                 None \<Rightarrow> None
               | Some (Timed_Out, r3) \<Rightarrow> Some (FRAMING_ERR_TIMEOUT, None, r3)
               | Some (Restart rt, r3) \<Rightarrow> recv_frame deadline rt r3
               | Some (Got crcb, r3) \<Rightarrow>
                  (let rx_crc = join16 (crcb ! 0) (crcb ! 1);
                       calc = crc16_ccitt ([ty, seq, hd3 ! 1, hd3 ! 2] @ payload);
                       f = \<lparr>frame_type = ty, frame_seq = seq, frame_len = len, frame_payload = payload\<rparr>
                   in Some (if calc \<noteq> rx_crc then FRAMING_ERR_CRC else FRAMING_OK, Some f, r3))))))"
  by pat_completeness auto
termination
  by (relation "measure (\<lambda>(d, ty, r). length (snd r))") (auto dest!: read_n_shorter)

declare recv_frame.simps [simp del]

definition framing_recv :: "u64 \<Rightarrow> framing \<Rightarrow> (int \<times> frame option \<times> framing) option" where
  "framing_recv timeout_ticks s =
    (let deadline = fst (line s) + timeout_ticks in
     case sync_start deadline (line s) of
       None \<Rightarrow> None
     | Some ((rc, ty), r1) \<Rightarrow>
        if rc < 0 then Some (FRAMING_ERR_TIMEOUT, None, s\<lparr>line := r1\<rparr>)
        else (case recv_frame deadline ty r1 of
                None \<Rightarrow> None
              | Some (rc, fo, r2) \<Rightarrow>
                 (let s1 = s\<lparr>line := r2\<rparr>; st = g_stats s1 in
                  Some (rc, fo,
                    if rc = FRAMING_ERR_CRC then s1\<lparr>g_stats := st\<lparr>crc_errors := crc_errors st + 1\<rparr>\<rparr>
                    else if rc = FRAMING_OK then s1\<lparr>g_stats := st\<lparr>frames_recv := frames_recv st + 1\<rparr>\<rparr>
                    else s1))))"

section \<open>Reliable send\<close>

text \<open>The retry loop from attempt number \<open>attempt\<close>, with \<open>n\<close> attempts left.\<close>

fun send_attempts :: "nat \<Rightarrow> nat \<Rightarrow> u8 \<Rightarrow> u8 list \<Rightarrow> u16 \<Rightarrow> framing \<Rightarrow> (int \<times> framing) option" where
  "send_attempts 0 attempt seq payload len s = Some (FRAMING_ERR_TIMEOUT, s)"
| "send_attempts (Suc n) attempt seq payload len s =
    (let s1 = (if attempt > 0
               then s\<lparr>g_stats := (g_stats s)\<lparr>retransmits := retransmits (g_stats s) + 1\<rparr>\<rparr> else s);
         s2 = snd (framing_send FRAME_TYPE_DATA seq payload len s1)
     in case framing_recv (g_timeout s2) s2 of
          None \<Rightarrow> None
        | Some (r, fo, s3) \<Rightarrow>
           (case fo of
              Some f \<Rightarrow>
                if r = FRAMING_OK \<and> frame_type f = FRAME_TYPE_ACK \<and> frame_seq f = seq
                then Some (FRAMING_OK, s3)
                else send_attempts n (Suc attempt) seq payload len s3
            | None \<Rightarrow> send_attempts n (Suc attempt) seq payload len s3))"

definition framing_send_reliable :: "u8 \<Rightarrow> u8 list \<Rightarrow> u16 \<Rightarrow> framing \<Rightarrow> (int \<times> framing) option" where
  "framing_send_reliable seq payload len s =
    send_attempts (Suc FRAMING_MAX_RETRIES) 0 seq payload len s"

definition framing_set_timeout :: "u64 \<Rightarrow> framing \<Rightarrow> framing" where
  "framing_set_timeout ticks s =
    s\<lparr>g_timeout := (if ticks \<noteq> 0 then ticks else FRAMING_DEFAULT_TIMEOUT_TICKS)\<rparr>"

section \<open>Decoding from memory\<close>

text \<open>The un-stuffing loop, with room for \<open>n\<close> more bytes in \<open>lin\<close>; \<open>None\<close> is a return of BADLEN.\<close>

fun unstuff :: "nat \<Rightarrow> u8 list \<Rightarrow> u8 list option" where
  "unstuff 0 buf = Some []"
| "unstuff (Suc n) [] = Some []"
| "unstuff (Suc n) (b # buf) =
    (if b = FRAME_START then
       (case buf of
          [] \<Rightarrow> None
        | m # buf' \<Rightarrow> if m = 0 then map_option ((#) FRAME_START) (unstuff n buf') else None)
     else map_option ((#) b) (unstuff n buf))"

definition framing_decode :: "u8 list \<Rightarrow> int \<times> frame option" where
  "framing_decode buf =
    (if length buf < 1 \<or> buf ! 0 \<noteq> FRAME_START then (FRAMING_ERR_BADLEN, None)
     else case unstuff (4 + unat FRAMING_MAX_PAYLOAD + 2) (tl buf) of
            None \<Rightarrow> (FRAMING_ERR_BADLEN, None)
          | Some lin \<Rightarrow>
             if length lin < 6 then (FRAMING_ERR_BADLEN, None)
             else let plen = join16 (lin ! 2) (lin ! 3) in
               if plen > FRAMING_MAX_PAYLOAD \<or> length lin \<noteq> 4 + unat plen + 2
               then (FRAMING_ERR_BADLEN, None)
               else let rx_crc = join16 (lin ! (4 + unat plen)) (lin ! (4 + unat plen + 1));
                        calc = crc16_ccitt (take (4 + unat plen) lin);
                        f = \<lparr>frame_type = lin ! 0, frame_seq = lin ! 1, frame_len = plen,
                             frame_payload = take (unat plen) (drop 4 lin)\<rparr>
                    in (if calc = rx_crc then FRAMING_OK else FRAMING_ERR_CRC, Some f))"

definition framing_selftest :: int where
  "framing_selftest =
    (let pl = [0x43, 0x46, 0x2D, 0xAA, 0x66, 0x72, 0x61, 0x6D, 0x65];
         plen = of_nat (length pl)
     in case framing_encode FRAME_TYPE_DATA 0x2A pl plen of
          None \<Rightarrow> -1
        | Some enc \<Rightarrow>
           (case framing_decode enc of
              (rc, None) \<Rightarrow> -1
            | (rc, Some f) \<Rightarrow>
               if rc \<noteq> FRAMING_OK then -1
               else if frame_type f \<noteq> FRAME_TYPE_DATA \<or> frame_seq f \<noteq> 0x2A \<or> frame_len f \<noteq> plen then -1
               else if \<exists>i < length pl. frame_payload f ! i \<noteq> pl ! i then -1
               else if fst (framing_decode (enc[2 := enc ! 2 XOR 0xFF])) \<noteq> FRAMING_ERR_CRC then -1
               else 0))"


section \<open>Byte stuffing\<close>

lemma lo8_ucast: "lo8 w = ucast w"
proof -
  have "(0xFF :: u16) = mask 8" by (simp add: mask_eq_exp_minus_1)
  then have "lo8 w = ucast (w AND mask 8)" by (simp add: lo8_def)
  also have "\<dots> = ucast w" by (rule bit_word_eqI) (auto simp: bit_simps)
  finally show ?thesis .
qed

lemma join16_split [simp]: "join16 (hi8 w) (lo8 w) = w"
  by (rule bit_word_eqI) (auto simp: join16_def hi8_def lo8_ucast bit_simps)

lemma hi8_join [simp]: "hi8 (join16 h l) = h"
  by (rule bit_word_eqI) (auto simp: join16_def hi8_def bit_simps dest: bit_imp_le_length)

lemma lo8_join [simp]: "lo8 (join16 h l) = l"
  by (rule bit_word_eqI) (auto simp: join16_def lo8_ucast bit_simps)

lemma stuff_append: "stuff (xs @ ys) = stuff xs @ stuff ys"
  by (induction xs) auto

lemma length_stuff: "length xs \<le> length (stuff xs) \<and> length (stuff xs) \<le> 2 * length xs"
  by (induction xs) auto

lemma unstuff_stuff: "length xs \<le> n \<Longrightarrow> unstuff n (stuff xs) = Some xs"
proof (induction xs arbitrary: n)
  case Nil
  then show ?case by (cases n) auto
next
  case (Cons b xs)
  then show ?case by (cases n) auto
qed

text \<open>A delimiter never appears on the wire inside a frame except as the escape pair.\<close>

lemma stuffed_start_escaped:
  "i < length (stuff xs) \<Longrightarrow> stuff xs ! i = FRAME_START \<Longrightarrow>
   Suc i < length (stuff xs) \<and> stuff xs ! Suc i = 0"
proof (induction xs arbitrary: i)
  case (Cons b xs)
  then show ?case
    by (auto simp: nth_Cons split: if_splits nat.splits)
qed simp

section \<open>Checksum\<close>

lemma crc_bit_and: "(c :: u16) AND 0x8000 \<noteq> 0 \<longleftrightarrow> bit c 15"
  using and_exp_eq_0_iff_not_bit [of c 15] by simp

lemma crc_bit_linear: "crc_bit (a XOR b) = crc_bit a XOR crc_bit b"
  by (simp add: crc_bit_def crc_bit_and bit_xor_iff push_bit_xor ac_simps)

lemma crc_bit_inj: "inj crc_bit"
proof (rule injI)
  fix c d assume eq: "crc_bit c = crc_bit d"
  have b0: "bit (crc_bit x) 0 \<longleftrightarrow> bit x 15" for x
    by (simp add: crc_bit_def crc_bit_and bit_0 even_xor_iff)
  have top: "bit c 15 = bit d 15" using b0 eq by metis
  then have "push_bit 1 c = push_bit 1 d"
    using eq by (auto simp: crc_bit_def crc_bit_and xor_cancel_right split: if_splits)
  then have "bit (push_bit 1 c) (Suc n) = bit (push_bit 1 d) (Suc n)" for n by (simp only:)
  note sh = this [unfolded bit_push_bit_iff]
  have low: "bit c n = bit d n" if "n < 15" for n
    using that sh [of n] by simp
  show "c = d"
  proof (rule bit_word_eqI)
    fix n assume "n < LENGTH(16)"
    then show "bit c n = bit d n" using low top by (cases "n = 15") auto
  qed
qed

lemma crc_bits_inj: "inj (crc_bit ^^ n)"
  using crc_bit_inj by (rule inj_fn)

lemma crc_bits_linear: "(crc_bit ^^ n) (a XOR b) = (crc_bit ^^ n) a XOR (crc_bit ^^ n) b"
  by (induction n) (simp_all add: crc_bit_linear)

text \<open>Eight shifts move a byte from the low half to the high half: no feedback happens.\<close>

lemma crc_bits_small: "n \<le> 8 \<Longrightarrow> (crc_bit ^^ n) (ucast (b :: u8)) = push_bit n (ucast b)"
proof (induction n)
  case (Suc n)
  have "\<not> bit (push_bit n (ucast b :: u16)) 15"
    using Suc.prems by (auto simp: bit_simps dest: bit_imp_le_length)
  then show ?case using Suc by (simp add: crc_bit_def crc_bit_and push_bit_push_bit)
qed simp

text \<open>Two bytes are absorbed like one sixteen-bit word.\<close>

lemma crc_two_bytes:
  "crc_byte (crc_byte c x) y = (crc_bit ^^ 16) (c XOR join16 x y)"
proof -
  have "(crc_bit ^^ 8) (ucast y) = push_bit 8 (ucast y)"
    by (rule crc_bits_small) simp
  then have "crc_byte (crc_byte c x) y =
      (crc_bit ^^ 8) ((crc_bit ^^ 8) (c XOR push_bit 8 (ucast x)) XOR (crc_bit ^^ 8) (ucast y))"
    by (simp add: crc_byte_def)
  also have "\<dots> = (crc_bit ^^ 8) ((crc_bit ^^ 8) ((c XOR push_bit 8 (ucast x)) XOR ucast y))"
    by (simp only: crc_bits_linear [symmetric])
  also have "\<dots> = (crc_bit ^^ 16) ((c XOR push_bit 8 (ucast x)) XOR ucast y)"
    by (simp flip: comp_apply [of "crc_bit ^^ 8" "crc_bit ^^ 8"] funpow_add)
  also have "(c XOR push_bit 8 (ucast x)) XOR ucast y = c XOR join16 x y"
    by (rule bit_word_eqI) (auto simp: join16_def bit_simps dest: bit_imp_le_length)
  finally show ?thesis .
qed

lemma crc_byte_inj: "crc_byte c b = crc_byte d b \<Longrightarrow> c = d"
  unfolding crc_byte_def
  by (drule injD [OF crc_bits_inj]) (simp add: xor_cancel_right)

lemma crc_tail_inj: "foldl crc_byte c xs = foldl crc_byte d xs \<Longrightarrow> c = d"
  by (induction xs arbitrary: c d) (auto dest: crc_byte_inj)

lemma crc_burst:
  assumes "(x, y) \<noteq> (x', y')"
  shows "crc16_ccitt (pre @ [x, y] @ post) \<noteq> crc16_ccitt (pre @ [x', y'] @ post)"
proof
  let ?c = "foldl crc_byte 0xFFFF pre"
  assume "crc16_ccitt (pre @ [x, y] @ post) = crc16_ccitt (pre @ [x', y'] @ post)"
  then have "crc_byte (crc_byte ?c x) y = crc_byte (crc_byte ?c x') y'"
    by (auto simp: crc16_ccitt_def dest: crc_tail_inj)
  then have "?c XOR join16 x y = ?c XOR join16 x' y'"
    unfolding crc_two_bytes by (rule injD [OF crc_bits_inj])
  then have "join16 x y = join16 x' y'"
    by (simp only: xor_cancel_left)
  then show False using assms by (metis hi8_join lo8_join)
qed


section \<open>Encoding and decoding\<close>

lemma framing_encode_None: "framing_encode ty seq payload len = None \<longleftrightarrow> len > FRAMING_MAX_PAYLOAD"
  by (simp add: framing_encode_def Let_def)

lemma framing_encode_length:
  assumes "framing_encode ty seq payload len = Some enc"
  shows "length enc \<le> FRAMING_MAX_ENCODED"
proof -
  have len: "unat len \<le> 256"
    using assms by (auto simp: framing_encode_def word_less_nat_alt not_less split: if_splits)
  let ?b = "frame_body ty seq len payload"
  have "length ?b \<le> 4 + unat len" by (simp add: frame_body_def)
  then show ?thesis
    using assms len length_stuff [of ?b] length_stuff [of "[hi8 (crc16_ccitt ?b), lo8 (crc16_ccitt ?b)]"]
    by (auto simp: framing_encode_def Let_def split: if_splits)
qed

definition the_frame :: "u8 \<Rightarrow> u8 \<Rightarrow> u16 \<Rightarrow> u8 list \<Rightarrow> frame" where
  "the_frame ty seq len payload =
    \<lparr>frame_type = ty, frame_seq = seq, frame_len = len, frame_payload = payload\<rparr>"

text \<open>Decoding what an encoder wrote, with an arbitrary checksum on the wire.\<close>

lemma framing_decode_wire:
  assumes len: "length payload = unat len" "\<not> len > FRAMING_MAX_PAYLOAD"
  shows "framing_decode (FRAME_START # stuff (frame_body ty seq len payload) @ stuff [hi8 crc, lo8 crc]) =
    (if crc16_ccitt (frame_body ty seq len payload) = crc then FRAMING_OK else FRAMING_ERR_CRC,
     Some (the_frame ty seq len payload))"
proof -
  let ?lin = "frame_body ty seq len payload @ [hi8 crc, lo8 crc]"
  have le: "unat len \<le> 256" using len(2) by (simp add: word_less_nat_alt not_less)
  have "unstuff (4 + unat FRAMING_MAX_PAYLOAD + 2) (stuff ?lin) = Some ?lin"
    using le len(1) by (intro unstuff_stuff) (simp add: frame_body_def)
  moreover have "length (frame_body ty seq len payload) = 4 + unat len"
    using len(1) by (simp add: frame_body_def)
  ultimately show ?thesis
    using len by (simp add: framing_decode_def stuff_append Let_def nth_append the_frame_def)
      (simp add: frame_body_def)
qed

section \<open>Reception\<close>

text \<open>The bytes a line will deliver, and that it delivers them before the deadline.\<close>

definition rx_bytes :: "rx \<Rightarrow> u8 list" where
  "rx_bytes r = List.map_filter snd (snd r)"

definition patient :: "u64 \<Rightarrow> rx \<Rightarrow> bool" where
  "patient deadline r \<longleftrightarrow> list_all (\<lambda>(t, b). b = None \<longrightarrow> t < deadline) (snd r)"

lemma recv_byte_next:
  assumes "patient d r" "rx_bytes r = b # bs"
  shows "\<exists>r'. recv_byte d r = Some (uint b, r') \<and> patient d r' \<and> rx_bytes r' = bs"
  using assms
  by (induction d r rule: recv_byte.induct) (auto simp: patient_def rx_bytes_def map_filter_simps)

lemma read_logical_stuffed:
  assumes "patient d r" "rx_bytes r = stuff [b] @ bs"
  shows "\<exists>r'. read_logical d r = Some (uint b, 0, r') \<and> patient d r' \<and> rx_bytes r' = bs"
proof (cases "b = FRAME_START")
  case True
  then obtain r1 where r1: "recv_byte d r = Some (uint b, r1)" "patient d r1" "rx_bytes r1 = 0 # bs"
    using recv_byte_next [OF assms(1), of b "0 # bs"] assms(2) by auto
  then obtain r2 where "recv_byte d r1 = Some (uint (0 :: u8), r2)" "patient d r2" "rx_bytes r2 = bs"
    using recv_byte_next by blast
  then show ?thesis using r1 True by (simp add: read_logical_def)
next
  case False
  then obtain r1 where "recv_byte d r = Some (uint b, r1)" "patient d r1" "rx_bytes r1 = bs"
    using recv_byte_next [OF assms(1), of b bs] assms(2) by auto
  moreover have "uint b \<noteq> uint FRAME_START" using False word_uint_eq_iff by blast
  moreover have "\<not> uint b < 0" by (simp add: not_less)
  ultimately show ?thesis by (simp add: read_logical_def)
qed

lemma read_n_stuffed:
  "patient d r \<Longrightarrow> rx_bytes r = stuff xs @ bs \<Longrightarrow>
   length xs = n \<Longrightarrow> \<exists>r'. read_n n d r = Some (Got xs, r') \<and> patient d r' \<and> rx_bytes r' = bs"
proof (induction xs arbitrary: r n)
  case (Cons x xs)
  have "rx_bytes r = stuff [x] @ (stuff xs @ bs)" using Cons.prems(2) by simp
  then obtain r1 where r1: "read_logical d r = Some (uint x, 0, r1)" "patient d r1" "rx_bytes r1 = stuff xs @ bs"
    using read_logical_stuffed [OF Cons.prems(1)] by blast
  then obtain r2 where "read_n (length xs) d r1 = Some (Got xs, r2)" "patient d r2" "rx_bytes r2 = bs"
    using Cons.IH by blast
  moreover have "uint x \<noteq> -1" "uint x \<noteq> -2" using uint_ge_0 [of x] by linarith+
  ultimately show ?case using r1 Cons.prems(3) by (cases n; cases r2) auto
qed simp

lemma sync_start_noise:
  assumes "ty = FRAME_TYPE_DATA \<or> ty = FRAME_TYPE_ACK \<or> ty = FRAME_TYPE_NACK"
  shows "patient d r \<Longrightarrow> FRAME_START \<notin> set noise \<Longrightarrow> rx_bytes r = noise @ FRAME_START # ty # bs \<Longrightarrow>
    \<exists>r'. sync_start d r = Some ((0, ty), r') \<and> patient d r' \<and> rx_bytes r' = bs"
proof (induction noise arbitrary: r)
  case Nil
  then obtain r1 where r1: "recv_byte d r = Some (uint FRAME_START, r1)" "patient d r1" "rx_bytes r1 = ty # bs"
    using recv_byte_next [of d r FRAME_START "ty # bs"] by auto
  then obtain r2 where r2: "recv_byte d r1 = Some (uint ty, r2)" "patient d r2" "rx_bytes r2 = bs"
    using recv_byte_next by blast
  then show ?case
    using r1 assms by (cases r2; subst sync_start.simps) auto
next
  case (Cons x noise)
  then obtain r1 where r1: "recv_byte d r = Some (uint x, r1)" "patient d r1"
      "rx_bytes r1 = noise @ FRAME_START # ty # bs"
    using recv_byte_next [of d r x] by auto
  have "x \<noteq> FRAME_START" using Cons.prems(2) by auto
  then have "uint x \<noteq> uint FRAME_START" using word_uint_eq_iff by blast
  moreover have "\<not> uint x < 0" by (simp add: not_less)
  ultimately have "sync_start d r = sync_start d r1"
    using r1(1) by (subst sync_start.simps) simp
  then show ?case using Cons.IH [OF r1(2) _ r1(3)] Cons.prems(2) by simp
qed

lemma recv_frame_stuffed:
  assumes len: "length payload = unat len" "\<not> len > FRAMING_MAX_PAYLOAD"
    and r: "patient d r" "rx_bytes r = stuff ([seq, hi8 len, lo8 len] @ payload @ [hi8 crc, lo8 crc]) @ bs"
  shows "\<exists>r'. recv_frame d ty r =
      Some (if crc16_ccitt (frame_body ty seq len payload) = crc then FRAMING_OK else FRAMING_ERR_CRC,
            Some (the_frame ty seq len payload), r') \<and> patient d r' \<and> rx_bytes r' = bs"
proof -
  obtain r1 where r1: "read_n 3 d r = Some (Got [seq, hi8 len, lo8 len], r1)" "patient d r1"
      "rx_bytes r1 = stuff payload @ stuff [hi8 crc, lo8 crc] @ bs"
    using read_n_stuffed [OF r(1), of "[seq, hi8 len, lo8 len]" _ 3] r(2)
    by (simp only: stuff_append append_assoc list.size) auto
  obtain r2 where r2: "read_n (unat len) d r1 = Some (Got payload, r2)" "patient d r2"
      "rx_bytes r2 = stuff [hi8 crc, lo8 crc] @ bs"
    using read_n_stuffed [OF r1(2,3)] len(1) by auto
  obtain r3 where r3: "read_n 2 d r2 = Some (Got [hi8 crc, lo8 crc], r3)" "patient d r3" "rx_bytes r3 = bs"
    using read_n_stuffed [OF r2(2,3), of 2] by (simp only: list.size) auto
  show ?thesis
    using r1(1) r2(1) r3 len
    by (subst recv_frame.simps) (simp add: the_frame_def frame_body_def eq_commute)
qed


lemma framing_recv_wire:
  assumes len: "length payload = unat len" "\<not> len > FRAMING_MAX_PAYLOAD"
    and ty: "ty = FRAME_TYPE_DATA \<or> ty = FRAME_TYPE_ACK \<or> ty = FRAME_TYPE_NACK"
    and enc: "framing_encode ty seq payload len = Some enc"
    and ln: "patient (fst (line s) + timeout) (line s)" "rx_bytes (line s) = noise @ enc @ bs"
      "FRAME_START \<notin> set noise"
  shows "\<exists>r. framing_recv timeout s =
      Some (FRAMING_OK, Some (the_frame ty seq len payload),
        s\<lparr>line := r, g_stats := (g_stats s)\<lparr>frames_recv := frames_recv (g_stats s) + 1\<rparr>\<rparr>) \<and> rx_bytes r = bs"
proof -
  let ?d = "fst (line s) + timeout" and ?crc = "crc16_ccitt (frame_body ty seq len payload)"
  let ?rest = "stuff ([seq, hi8 len, lo8 len] @ payload @ [hi8 ?crc, lo8 ?crc]) @ bs"
  have "ty \<noteq> FRAME_START" using ty by auto
  moreover have "frame_body ty seq len payload @ [hi8 ?crc, lo8 ?crc] =
      ty # ([seq, hi8 len, lo8 len] @ payload @ [hi8 ?crc, lo8 ?crc])"
    using len by (simp add: frame_body_def)
  moreover have "enc = FRAME_START # stuff (frame_body ty seq len payload @ [hi8 ?crc, lo8 ?crc])"
    using enc len(2) by (simp add: framing_encode_def Let_def stuff_append del: stuff.simps)
  ultimately have "enc @ bs = FRAME_START # ty # ?rest"
    by (simp only: stuff.simps if_False append_Cons)
  then have "rx_bytes (line s) = noise @ FRAME_START # ty # ?rest"
    using ln(2) by simp
  then obtain r1 where r1: "sync_start ?d (line s) = Some ((0, ty), r1)" "patient ?d r1" "rx_bytes r1 = ?rest"
    using sync_start_noise [OF ty ln(1,3)] by blast
  then obtain r2 where "recv_frame ?d ty r1 = Some (FRAMING_OK, Some (the_frame ty seq len payload), r2)"
      "rx_bytes r2 = bs"
    using recv_frame_stuffed [OF len r1(2,3), of ty] unfolding if_P [OF refl] by blast
  then show ?thesis using r1(1) by (intro exI [of _ r2]) (simp add: framing_recv_def Let_def)
qed

section \<open>Acknowledged transmission\<close>

lemma framing_recv_frame:
  assumes "framing_recv t s = Some (rc, fo, s')"
  shows "uart1_tx s' = uart1_tx s \<and> frames_sent (g_stats s') = frames_sent (g_stats s) \<and>
    retransmits (g_stats s') = retransmits (g_stats s)"
proof (cases "sync_start (fst (line s) + t) (line s)")
  case None
  then show ?thesis using assms by (simp add: framing_recv_def)
next
  case (Some x)
  obtain rc0 ty r1 where x: "x = ((rc0, ty), r1)" by (metis prod.exhaust)
  show ?thesis
  proof (cases "rc0 < 0")
    case True
    then show ?thesis using assms Some by (auto simp: framing_recv_def x)
  next
    case False
    then obtain rc1 fo1 r2 where "recv_frame (fst (line s) + t) ty r1 = Some (rc1, fo1, r2)"
      using assms Some by (cases "recv_frame (fst (line s) + t) ty r1") (auto simp: framing_recv_def x)
    then have "s' = s\<lparr>line := r2\<rparr> \<or> (\<exists>c. s' = s\<lparr>line := r2, g_stats := (g_stats s)\<lparr>crc_errors := c\<rparr>\<rparr>) \<or>
        (\<exists>c. s' = s\<lparr>line := r2, g_stats := (g_stats s)\<lparr>frames_recv := c\<rparr>\<rparr>)"
      using assms Some False by (simp add: framing_recv_def x Let_def split: if_splits) blast+
    then show ?thesis by auto
  qed
qed

lemma send_attempts_Suc:
  fixes attempt :: nat
  assumes "send_attempts (Suc n) attempt seq payload len s = Some (rc, s')"
  defines "s1 \<equiv> if attempt > 0
    then s\<lparr>g_stats := (g_stats s)\<lparr>retransmits := retransmits (g_stats s) + 1\<rparr>\<rparr> else s"
  defines "s2 \<equiv> snd (framing_send FRAME_TYPE_DATA seq payload len s1)"
  obtains r fo s3 where "framing_recv (g_timeout s2) s2 = Some (r, fo, s3)"
    "rc = FRAMING_OK \<and> s' = s3 \<or> send_attempts n (Suc attempt) seq payload len s3 = Some (rc, s')"
proof -
  obtain r fo s3 where r: "framing_recv (g_timeout s2) s2 = Some (r, fo, s3)"
    using assms(1) by (auto simp: Let_def s1_def s2_def split: option.splits)
  moreover have "rc = FRAMING_OK \<and> s' = s3 \<or> send_attempts n (Suc attempt) seq payload len s3 = Some (rc, s')"
    using assms(1) r by (auto simp: Let_def s1_def [symmetric] s2_def [symmetric] split: option.splits if_splits)
  ultimately show thesis by (rule that)
qed

lemma send_attempts_log:
  assumes "framing_encode FRAME_TYPE_DATA seq payload len = Some enc"
    "send_attempts n attempt seq payload len s = Some (rc, s')"
  shows "\<exists>k \<le> n. uart1_tx s' = uart1_tx s @ concat (replicate k enc) \<and>
    frames_sent (g_stats s') = frames_sent (g_stats s) + of_nat k \<and>
    (rc = FRAMING_OK \<and> 0 < k \<or> rc = FRAMING_ERR_TIMEOUT \<and> k = n)"
  using assms(2)
proof (induction n arbitrary: attempt s)
  case (Suc n)
  let ?s1 = "if attempt > 0
    then s\<lparr>g_stats := (g_stats s)\<lparr>retransmits := retransmits (g_stats s) + 1\<rparr>\<rparr> else s"
  let ?s2 = "snd (framing_send FRAME_TYPE_DATA seq payload len ?s1)"
  have s2: "uart1_tx ?s2 = uart1_tx s @ enc" "frames_sent (g_stats ?s2) = frames_sent (g_stats s) + 1"
    using assms(1) by (auto simp: framing_send_def)
  obtain r fo s3 where r: "framing_recv (g_timeout ?s2) ?s2 = Some (r, fo, s3)"
    and next3: "rc = FRAMING_OK \<and> s' = s3 \<or> send_attempts n (Suc attempt) seq payload len s3 = Some (rc, s')"
    using send_attempts_Suc [OF Suc.prems] by blast
  note s3 = framing_recv_frame [OF r]
  from next3 show ?case
  proof
    assume "rc = FRAMING_OK \<and> s' = s3"
    then show ?thesis using s2 s3 by (intro exI [of _ 1]) simp
  next
    assume "send_attempts n (Suc attempt) seq payload len s3 = Some (rc, s')"
    then obtain k where "k \<le> n" "uart1_tx s' = uart1_tx s3 @ concat (replicate k enc)"
        "frames_sent (g_stats s') = frames_sent (g_stats s3) + of_nat k"
        "rc = FRAMING_OK \<and> 0 < k \<or> rc = FRAMING_ERR_TIMEOUT \<and> k = n"
      using Suc.IH by blast
    then show ?thesis
      using s2 s3 by (intro exI [of _ "Suc k"]) auto
  qed
qed simp

text \<open>A payload that is too long is never transmitted, but the acknowledgement is waited for all the same.\<close>

lemma send_attempts_too_long:
  assumes "len > FRAMING_MAX_PAYLOAD" "send_attempts n attempt seq payload len s = Some (rc, s')"
  shows "uart1_tx s' = uart1_tx s \<and> rc \<noteq> FRAMING_ERR_BADLEN"
  using assms(2)
proof (induction n arbitrary: attempt s)
  case (Suc n)
  have send: "framing_send FRAME_TYPE_DATA seq payload len t = (FRAMING_ERR_BADLEN, t)" for t
    using assms(1) by (simp add: framing_send_def framing_encode_def)
  let ?s1 = "if attempt > 0
    then s\<lparr>g_stats := (g_stats s)\<lparr>retransmits := retransmits (g_stats s) + 1\<rparr>\<rparr> else s"
  obtain r fo s3 where r: "framing_recv (g_timeout ?s1) ?s1 = Some (r, fo, s3)"
    "rc = FRAMING_OK \<and> s' = s3 \<or> send_attempts n (Suc attempt) seq payload len s3 = Some (rc, s')"
    using send_attempts_Suc [OF Suc.prems] unfolding send snd_conv by blast
  have "uart1_tx s3 = uart1_tx s" using framing_recv_frame [OF r(1)] by auto
  then show ?case using r(2) Suc.IH [of "Suc attempt" s3] by auto
qed simp

lemma send_attempts_acked:
  assumes "framing_encode FRAME_TYPE_DATA seq payload len = Some enc"
    "framing_encode FRAME_TYPE_ACK seq [] 0 = Some ack"
    "patient (fst (line s) + g_timeout s) (line s)" "rx_bytes (line s) = noise @ ack @ bs"
    "FRAME_START \<notin> set noise"
  shows "\<exists>s'. send_attempts (Suc n) 0 seq payload len s = Some (FRAMING_OK, s') \<and>
    uart1_tx s' = uart1_tx s @ enc \<and> rx_bytes (line s') = bs"
proof -
  let ?s = "snd (framing_send FRAME_TYPE_DATA seq payload len s)"
  have eq: "g_timeout ?s = g_timeout s" "line ?s = line s" "uart1_tx ?s = uart1_tx s @ enc"
    using assms(1) by (simp_all add: framing_send_def)
  obtain r where "framing_recv (g_timeout ?s) ?s = Some (FRAMING_OK, Some (the_frame FRAME_TYPE_ACK seq 0 []),
        ?s\<lparr>line := r, g_stats := (g_stats ?s)\<lparr>frames_recv := frames_recv (g_stats ?s) + 1\<rparr>\<rparr>)" "rx_bytes r = bs"
    using framing_recv_wire [of "[]" 0 FRAME_TYPE_ACK seq ack ?s "g_timeout ?s" noise bs] assms(2-5) eq
    by auto
  then show ?thesis using eq by (auto simp: Let_def the_frame_def)
qed


section \<open>Properties\<close>

text \<open>C8: every payload of at most 256 bytes encodes to at most 525 bytes, and decoding the
  encoded bytes gives back exactly the frame that was encoded, with a valid checksum.\<close>

theorem framing_roundtrip:
  assumes "length payload = unat len" "len \<le> FRAMING_MAX_PAYLOAD"
  shows "\<exists>enc. framing_encode ty seq payload len = Some enc \<and> length enc \<le> FRAMING_MAX_ENCODED \<and>
    framing_decode enc = (FRAMING_OK, Some (the_frame ty seq len payload))"
proof -
  have len: "\<not> len > FRAMING_MAX_PAYLOAD" using assms(2) by (simp add: not_less)
  obtain enc where enc: "framing_encode ty seq payload len = Some enc"
    using len framing_encode_None by blast
  moreover have "framing_decode enc = (FRAMING_OK, Some (the_frame ty seq len payload))"
    using enc framing_decode_wire [OF assms(1) len, of ty seq "crc16_ccitt (frame_body ty seq len payload)"] len
    by (simp add: framing_encode_def Let_def del: stuff.simps)
  ultimately show ?thesis using framing_encode_length by blast
qed

theorem framing_roundtrip_witness:
  "\<exists>enc. framing_encode FRAME_TYPE_DATA 7 [0xAA, 1, 2] 3 = Some enc \<and>
    framing_decode enc = (FRAMING_OK, Some (the_frame FRAME_TYPE_DATA 7 3 [0xAA, 1, 2]))"
  using framing_roundtrip [of "[0xAA, 1, 2]" 3 FRAME_TYPE_DATA 7] by auto



text \<open>C34: a receiver whose line delivers, in time, some noise without delimiter bytes, then
  an encoded frame of a valid type, then anything else, returns that frame and leaves the
  line just behind it.\<close>

theorem framing_recv_delivers:
  assumes "length payload = unat len" "len \<le> FRAMING_MAX_PAYLOAD"
    "ty \<in> {FRAME_TYPE_DATA, FRAME_TYPE_ACK, FRAME_TYPE_NACK}"
    "framing_encode ty seq payload len = Some enc"
    "patient (fst (line s) + timeout) (line s)" "rx_bytes (line s) = noise @ enc @ bs"
    "FRAME_START \<notin> set noise"
  shows "\<exists>r. framing_recv timeout s =
      Some (FRAMING_OK, Some (the_frame ty seq len payload),
        s\<lparr>line := r, g_stats := (g_stats s)\<lparr>frames_recv := frames_recv (g_stats s) + 1\<rparr>\<rparr>) \<and> rx_bytes r = bs"
proof -
  have "\<not> len > FRAMING_MAX_PAYLOAD" using assms(2) by (simp add: not_less)
  then show ?thesis
    using assms by (intro framing_recv_wire) auto
qed

definition demo_line :: "u8 list \<Rightarrow> framing" where
  "demo_line bs = \<lparr>g_stats = \<lparr>frames_sent = 0, frames_recv = 0, retransmits = 0, crc_errors = 0\<rparr>,
     g_timeout = 100, g_hw_ready = True, g_hw_absent = False, g_probing = False,
     g_probe_faulted = False, uart1_tx = [], line = (5, map (\<lambda>b. (6, Some b)) bs @ [(200, None)])\<rparr>"

lemma demo_line_facts:
  "rx_bytes (line (demo_line bs)) = bs" "fst (line (demo_line bs)) = 5" "g_timeout (demo_line bs) = 100"
  "patient d (line (demo_line bs)) \<longleftrightarrow> 200 < d"
  by (simp_all add: demo_line_def rx_bytes_def patient_def map_filter_def list_all_iff comp_def)

theorem framing_recv_delivers_witness:
  "\<exists>enc r. framing_encode FRAME_TYPE_ACK 3 [] 0 = Some enc \<and>
    framing_recv 1000 (demo_line ([1, 2] @ enc @ [9])) = Some (FRAMING_OK, Some (the_frame FRAME_TYPE_ACK 3 0 []), r)"
proof -
  obtain enc where enc: "framing_encode FRAME_TYPE_ACK 3 [] 0 = Some enc"
    using framing_encode_None [of FRAME_TYPE_ACK 3 "[]" 0] by auto
  then show ?thesis
    using framing_recv_delivers [of "[]" 0 FRAME_TYPE_ACK 3 enc "demo_line ([1, 2] @ enc @ [9])" 1000 "[1, 2]" "[9]"]
    unfolding demo_line_facts by auto
qed


text \<open>A reliable send of an admissible payload that returns has put the same encoded
  frame on the wire between one and four times, and gives up with a timeout only after
  four transmissions; if a matching acknowledgement is the next frame on a line that
  delivers in time, one transmission suffices and the call succeeds.\<close>

theorem framing_send_reliable_bounded:
  assumes "framing_encode FRAME_TYPE_DATA seq payload len = Some enc"
  shows "(\<forall>rc s'. framing_send_reliable seq payload len s = Some (rc, s') \<longrightarrow>
      (\<exists>k. 1 \<le> k \<and> k \<le> 4 \<and> uart1_tx s' = uart1_tx s @ concat (replicate k enc) \<and>
        frames_sent (g_stats s') = frames_sent (g_stats s) + of_nat k \<and>
        (rc = FRAMING_OK \<or> rc = FRAMING_ERR_TIMEOUT \<and> k = 4))) \<and>
    (\<forall>ack noise bs. framing_encode FRAME_TYPE_ACK seq [] 0 = Some ack \<longrightarrow>
      patient (fst (line s) + g_timeout s) (line s) \<longrightarrow> rx_bytes (line s) = noise @ ack @ bs \<longrightarrow>
      FRAME_START \<notin> set noise \<longrightarrow>
      (\<exists>s'. framing_send_reliable seq payload len s = Some (FRAMING_OK, s') \<and>
        uart1_tx s' = uart1_tx s @ enc))"
proof (intro conjI allI impI)
  fix rc s' assume "framing_send_reliable seq payload len s = Some (rc, s')"
  then obtain k where "k \<le> 4" "uart1_tx s' = uart1_tx s @ concat (replicate k enc)"
      "frames_sent (g_stats s') = frames_sent (g_stats s) + of_nat k"
      "rc = FRAMING_OK \<and> 0 < k \<or> rc = FRAMING_ERR_TIMEOUT \<and> k = 4"
    using send_attempts_log [OF assms, of 4 0 s rc s'] by (auto simp: framing_send_reliable_def)
  then show "\<exists>k. 1 \<le> k \<and> k \<le> 4 \<and> uart1_tx s' = uart1_tx s @ concat (replicate k enc) \<and>
      frames_sent (g_stats s') = frames_sent (g_stats s) + of_nat k \<and>
      (rc = FRAMING_OK \<or> rc = FRAMING_ERR_TIMEOUT \<and> k = 4)"
    by (intro exI [of _ k]) auto
next
  fix ack noise bs
  assume "framing_encode FRAME_TYPE_ACK seq [] 0 = Some ack" "patient (fst (line s) + g_timeout s) (line s)"
    "rx_bytes (line s) = noise @ ack @ bs" "FRAME_START \<notin> set noise"
  then show "\<exists>s'. framing_send_reliable seq payload len s = Some (FRAMING_OK, s') \<and> uart1_tx s' = uart1_tx s @ enc"
    using send_attempts_acked [OF assms, of ack s noise bs FRAMING_MAX_RETRIES]
    unfolding framing_send_reliable_def by blast
qed

theorem framing_send_reliable_bounded_witness:
  "\<exists>enc. framing_encode FRAME_TYPE_DATA 3 [1] 1 = Some enc \<and>
    (\<forall>rc s'. framing_send_reliable 3 [1] 1 (demo_line []) = Some (rc, s') \<longrightarrow>
      (\<exists>k \<ge> 1. k \<le> 4 \<and> uart1_tx s' = concat (replicate k enc)))"
proof -
  obtain enc where enc: "framing_encode FRAME_TYPE_DATA 3 [1] 1 = Some enc"
    using framing_encode_None [of FRAME_TYPE_DATA 3 "[1]" 1] by auto
  have "uart1_tx (demo_line []) = []" by (simp add: demo_line_def)
  then show ?thesis
    using enc conjunct1 [OF framing_send_reliable_bounded [OF enc, of "demo_line []"]] by fastforce
qed

text \<open>probing for the second UART settles its state once and for all and never panics:
  afterwards exactly one of "ready" and "absent" holds according to whether the device
  answered, the probe window is closed, and further calls change nothing.\<close>

theorem framing_probe_settles:
  assumes "\<not> g_hw_ready s" "\<not> g_hw_absent s"
  shows "\<exists>s'. framing_ensure_hw present pc s = Some s' \<and> g_hw_ready s' = present \<and>
    g_hw_absent s' = (\<not> present) \<and> \<not> g_probing s' \<and>
    (\<forall>present' pc'. framing_ensure_hw present' pc' s' = Some s')"
proof -
  have "UART1_FR_VA AND NOT 0xFFF = UART1_VA_BASE"
    by (simp add: UART1_FR_VA_def UART1_VA_BASE_def PHYS_TO_VIRT_def)
  then show ?thesis
    using assms by (cases present) (simp_all add: framing_ensure_hw_def framing_probe_abort_def Let_def)
qed

theorem framing_probe_settles_witness:
  "\<exists>s'. framing_ensure_hw False 0x1000 ((demo_line [])\<lparr>g_hw_ready := False\<rparr>) = Some s' \<and> g_hw_absent s'"
  using framing_probe_settles [of "(demo_line [])\<lparr>g_hw_ready := False\<rparr>" False "0x1000"]
  by (auto simp: demo_line_def)

section \<open>Observations\<close>

lemma third_update: "(a # b # c # r)[2 := x] = a # b # x # r" "(a # b # c # r) ! 2 = c"
  by (simp_all add: numeral_2_eq_2)

text \<open>The self-test of the sources passes.\<close>

lemma framing_selftest_passes: "framing_selftest = 0"
proof -
  define pl :: "u8 list" where "pl = [0x43, 0x46, 0x2D, 0xAA, 0x66, 0x72, 0x61, 0x6D, 0x65]"
  define crc where "crc = crc16_ccitt (frame_body FRAME_TYPE_DATA 0x2A 9 pl)"
  define enc where "enc = FRAME_START # stuff (frame_body FRAME_TYPE_DATA 0x2A 9 pl) @ stuff [hi8 crc, lo8 crc]"
  have pl: "length pl = unat (9 :: u16)" by (simp add: pl_def)
  have e: "framing_encode FRAME_TYPE_DATA 0x2A pl 9 = Some enc"
    by (simp add: framing_encode_def Let_def enc_def crc_def del: stuff.simps)
  have d: "framing_decode enc = (FRAMING_OK, Some (the_frame FRAME_TYPE_DATA 0x2A 9 pl))"
    unfolding enc_def using framing_decode_wire [OF pl, of FRAME_TYPE_DATA "0x2A" crc] by (simp add: crc_def)
  have "enc[2 := enc ! 2 XOR 0xFF] =
      FRAME_START # stuff (frame_body FRAME_TYPE_DATA 0xD5 9 pl) @ stuff [hi8 crc, lo8 crc]"
  proof -
    obtain r where r: "stuff (hi8 9 # lo8 9 # take 9 pl) @ stuff [hi8 crc, lo8 crc] = r" by blast
    have "enc = FRAME_START # 1 # 0x2A # r" by (simp add: enc_def frame_body_def flip: r)
    moreover have "FRAME_START # stuff (frame_body FRAME_TYPE_DATA 0xD5 9 pl) @ stuff [hi8 crc, lo8 crc] =
        FRAME_START # 1 # 0xD5 # r"
      by (simp add: frame_body_def flip: r)
    ultimately show ?thesis by (simp add: third_update)
  qed
  moreover have "crc16_ccitt ([] @ [1, 0xD5] @ [hi8 9, lo8 9] @ pl) \<noteq> crc16_ccitt ([] @ [1, 0x2A] @ [hi8 9, lo8 9] @ pl)"
    by (rule crc_burst) simp
  then have "crc16_ccitt (frame_body FRAME_TYPE_DATA 0xD5 9 pl) \<noteq> crc"
    using pl by (simp add: frame_body_def crc_def)
  ultimately have c: "fst (framing_decode (enc[2 := enc ! 2 XOR 0xFF])) = FRAMING_ERR_CRC"
    using framing_decode_wire [OF pl, of FRAME_TYPE_DATA "0xD5" crc] by simp
  have "(of_nat (length pl) :: u16) = 9" by (simp add: pl_def)
  then show ?thesis
    unfolding framing_selftest_def pl_def [symmetric] Let_def by (simp add: e d c the_frame_def)
qed

text \<open>
  The synchronisation drops a frame whose delimiter directly follows a stray
  delimiter byte: in \<open>AA AA 01 ...\<close> the second \<open>AA\<close> is consumed as a (bad) type byte.
\<close>

lemma sync_start_misses_frame:
  "sync_start 100 (0, [(1, Some 0xAA), (2, Some 0xAA), (3, Some 1), (150, None)]) = Some ((-1, 0), (150, []))"
  by code_simp

text \<open>A payload over the limit is neither transmitted nor reported as a bad length by the reliable send.\<close>

lemma framing_send_reliable_hides_badlen:
  assumes "len > FRAMING_MAX_PAYLOAD" "framing_send_reliable seq payload len s = Some (rc, s')"
  shows "uart1_tx s' = uart1_tx s \<and> rc \<noteq> FRAMING_ERR_BADLEN"
  using send_attempts_too_long [OF assms(1)] assms(2) unfolding framing_send_reliable_def by blast

end
