(* ===== verification/Strings_Lib.thy ===== *)
theory Strings_Lib
  imports Kernel_Prelude
begin

text \<open>
  The kernel's C library, \<^verbatim>\<open>src/lib/strings/strings.c\<close>.  Memory is a function from
  addresses to bytes.  Loops that count up to a length are folds over the
  indices; loops that look for a terminating NUL are partial functions, \<open>None\<close>
  meaning that no NUL is met.  The formatter writes into a buffer of \<open>buflen\<close> bytes
  and takes its variadic arguments as a list.
\<close>

type_synonym memory = "u64 \<Rightarrow> u8"

section \<open>Memory blocks\<close>

text \<open>The statement \<open>d[i] = s[i]\<close>.\<close>

definition copy_byte :: "u64 \<Rightarrow> u64 \<Rightarrow> nat \<Rightarrow> memory \<Rightarrow> memory" where
  "copy_byte d s i m = m(d + of_nat i := m (s + of_nat i))"

definition memcpy :: "u64 \<Rightarrow> u64 \<Rightarrow> u64 \<Rightarrow> memory \<Rightarrow> memory" where
  "memcpy d s n m = fold (copy_byte d s) [0..<unat n] m"

definition memmove :: "u64 \<Rightarrow> u64 \<Rightarrow> u64 \<Rightarrow> memory \<Rightarrow> memory" where
  "memmove d s n m =
    (if d = s \<or> n = 0 then m
     else if d < s then fold (copy_byte d s) [0..<unat n] m
     else fold (copy_byte d s) (rev [0..<unat n]) m)"

definition memset :: "u64 \<Rightarrow> u8 \<Rightarrow> u64 \<Rightarrow> memory \<Rightarrow> memory" where
  "memset d c n m = fold (\<lambda>i m. m(d + of_nat i := c)) [0..<unat n] m"

fun memcmp_loop :: "memory \<Rightarrow> u64 \<Rightarrow> u64 \<Rightarrow> nat list \<Rightarrow> int" where
  "memcmp_loop m a b [] = 0"
| "memcmp_loop m a b (i # is) =
    (if m (a + of_nat i) \<noteq> m (b + of_nat i)
     then uint (m (a + of_nat i)) - uint (m (b + of_nat i))
     else memcmp_loop m a b is)"

definition memcmp :: "memory \<Rightarrow> u64 \<Rightarrow> u64 \<Rightarrow> u64 \<Rightarrow> int" where
  "memcmp m a b n = memcmp_loop m a b [0..<unat n]"

section \<open>Strings\<close>

partial_function (option) strlen_from :: "memory \<Rightarrow> u64 \<Rightarrow> u64 \<Rightarrow> u64 option" where
  "strlen_from m s n = (if m (s + n) = 0 then Some n else strlen_from m s (n + 1))"

definition strlen :: "memory \<Rightarrow> u64 \<Rightarrow> u64 option" where
  "strlen m s = strlen_from m s 0"

fun strnlen_loop :: "memory \<Rightarrow> u64 \<Rightarrow> nat list \<Rightarrow> u64 \<Rightarrow> u64" where
  "strnlen_loop m s [] n = n"
| "strnlen_loop m s (i # is) n =
    (if m (s + n) \<noteq> 0 then strnlen_loop m s is (n + 1) else n)"

text \<open>The loop runs at most \<open>maxlen\<close> times: the index list only counts the iterations.\<close>

definition strnlen :: "memory \<Rightarrow> u64 \<Rightarrow> u64 \<Rightarrow> u64" where
  "strnlen m s maxlen = strnlen_loop m s [0..<unat maxlen] 0"

partial_function (option) strcmp :: "memory \<Rightarrow> u64 \<Rightarrow> u64 \<Rightarrow> int option" where
  "strcmp m a b =
    (if m a \<noteq> 0 \<and> m a = m b then strcmp m (a + 1) (b + 1)
     else Some (uint (m a) - uint (m b)))"

fun strncmp_loop :: "memory \<Rightarrow> u64 \<Rightarrow> u64 \<Rightarrow> nat list \<Rightarrow> int" where
  "strncmp_loop m a b [] = 0"
| "strncmp_loop m a b (i # is) =
    (let ca = m (a + of_nat i); cb = m (b + of_nat i) in
     if ca \<noteq> cb then uint ca - uint cb
     else if ca = 0 then 0
     else strncmp_loop m a b is)"

definition strncmp :: "memory \<Rightarrow> u64 \<Rightarrow> u64 \<Rightarrow> u64 \<Rightarrow> int" where
  "strncmp m a b n = strncmp_loop m a b [0..<unat n]"

text \<open>Copying stops at the first NUL of the source; the flag records that padding has begun.\<close>

fun strncpy_loop :: "u64 \<Rightarrow> u64 \<Rightarrow> bool \<Rightarrow> nat list \<Rightarrow> memory \<Rightarrow> memory" where
  "strncpy_loop d s pad [] m = m"
| "strncpy_loop d s pad (i # is) m =
    (let pad' = (pad \<or> m (s + of_nat i) = 0) in
     strncpy_loop d s pad' is (m(d + of_nat i := (if pad' then 0 else m (s + of_nat i)))))"

definition strncpy :: "u64 \<Rightarrow> u64 \<Rightarrow> u64 \<Rightarrow> memory \<Rightarrow> memory" where
  "strncpy d s n m = strncpy_loop d s False [0..<unat n] m"

text \<open>The result 0 is NULL.\<close>

partial_function (option) strchr :: "memory \<Rightarrow> u64 \<Rightarrow> u8 \<Rightarrow> u64 option" where
  "strchr m s target =
    (if m s = 0 then Some (if target = 0 then s else 0)
     else if m s = target then Some s
     else strchr m (s + 1) target)"

section \<open>Formatting\<close>

text \<open>An output position: the buffer and the number of characters produced so far.\<close>

type_synonym out = "u8 list \<times> u64"

definition buf_putc :: "u64 \<Rightarrow> u8 \<Rightarrow> out \<Rightarrow> out" where
  "buf_putc buflen c = (\<lambda>(buf, pos). (if pos + 1 < buflen then buf[unat pos := c] else buf, pos + 1))"

definition buf_puts :: "u64 \<Rightarrow> u8 list \<Rightarrow> out \<Rightarrow> out" where
  "buf_puts buflen s st = fold (buf_putc buflen) s st"

text \<open>The digits of a number, least significant first, as they are stored in \<open>tmp\<close>.\<close>

function digits_rev :: "u64 \<Rightarrow> u64 \<Rightarrow> u64 list" where
  "digits_rev base val = (if val = 0 \<or> base \<le> 1 then [] else val mod base # digits_rev base (val div base))"
  by pat_completeness auto
termination
proof (relation "measure (\<lambda>(base, val). unat val)")
  fix base val :: u64
  assume "\<not> (val = 0 \<or> base \<le> 1)"
  then have "0 < unat val" "1 < unat base"
    by (auto simp: unat_gt_0 word_le_nat_alt)
  then have "unat val div unat base < unat val" by simp
  then show "((base, val div base), (base, val)) \<in> measure (\<lambda>(base, val). unat val)"
    by (simp add: unat_div)
qed simp

declare digits_rev.simps [simp del]

definition digit_char :: "u64 \<Rightarrow> u8" where
  "digit_char d = (if d < 10 then 0x30 + ucast d else 0x57 + ucast d)"

definition number :: "u64 \<Rightarrow> u64 \<Rightarrow> u8 list" where
  "number base val = (if val = 0 then [0x30] else rev (map digit_char (digits_rev base val)))"

definition buf_putu :: "u64 \<Rightarrow> u64 \<Rightarrow> u64 \<Rightarrow> out \<Rightarrow> out" where
  "buf_putu buflen base val st =
    (if val = 0 then buf_putc buflen 0x30 st
     else fold (\<lambda>d. buf_putc buflen (digit_char d)) (rev (digits_rev base val)) st)"

text \<open>
  Variadic arguments: a string pointer (\<open>None\<close> is NULL) or a 64-bit argument slot,
  of which an \<open>int\<close> conversion reads the low half.  \<open>None\<close> as a result is a format
  that does not match its arguments.
\<close>

datatype arg = AStr "u8 list option" | AInt u64

definition null_text :: "u8 list" where
  "null_text = [0x28, 0x6E, 0x75, 0x6C, 0x6C, 0x29]"

function kvsnprintf_loop :: "u64 \<Rightarrow> u8 list \<Rightarrow> arg list \<Rightarrow> out \<Rightarrow> out option" where
  "kvsnprintf_loop bl [] args st = Some st"
| "kvsnprintf_loop bl (c # fmt) args st =
    (if c \<noteq> 0x25 then kvsnprintf_loop bl fmt args (buf_putc bl c st)
     else case fmt of
       [] \<Rightarrow> Some st
     | f # fmt' \<Rightarrow>
        if f = 0x73 then
          (case args of
             AStr s # args' \<Rightarrow>
               kvsnprintf_loop bl fmt' args' (buf_puts bl (case s of None \<Rightarrow> null_text | Some t \<Rightarrow> t) st)
           | _ \<Rightarrow> None)
        else if f = 0x64 then
          (case args of
             AInt w # args' \<Rightarrow>
               (let val = scast (ucast w :: u32) :: u64 in
                if sint (ucast w :: u32) < 0
                then kvsnprintf_loop bl fmt' args' (buf_putu bl 10 (0 - val) (buf_putc bl 0x2D st))
                else kvsnprintf_loop bl fmt' args' (buf_putu bl 10 val st))
           | _ \<Rightarrow> None)
        else if f = 0x75 then
          (case args of AInt w # args' \<Rightarrow> kvsnprintf_loop bl fmt' args' (buf_putu bl 10 w st) | _ \<Rightarrow> None)
        else if f = 0x78 then
          (case args of AInt w # args' \<Rightarrow> kvsnprintf_loop bl fmt' args' (buf_putu bl 16 w st) | _ \<Rightarrow> None)
        else if f = 0x63 then
          (case args of AInt w # args' \<Rightarrow> kvsnprintf_loop bl fmt' args' (buf_putc bl (ucast w) st) | _ \<Rightarrow> None)
        else if f = 0x25 then kvsnprintf_loop bl fmt' args (buf_putc bl 0x25 st)
        else kvsnprintf_loop bl fmt' args (buf_putc bl f (buf_putc bl 0x25 st)))"
  by pat_completeness auto
termination by (relation "measure (\<lambda>(bl, fmt, args, st). length fmt)") auto

text \<open>The final buffer and the returned length, an \<open>int\<close>.\<close>

definition kvsnprintf :: "u8 list \<Rightarrow> u64 \<Rightarrow> u8 list \<Rightarrow> arg list \<Rightarrow> (u8 list \<times> int) option" where
  "kvsnprintf buf buflen fmt args =
    (case kvsnprintf_loop buflen fmt args (buf, 0) of
       None \<Rightarrow> None
     | Some (buf', pos) \<Rightarrow>
        Some (if buflen > 0 then buf'[unat (if pos < buflen then pos else buflen - 1) := 0] else buf',
              sint (ucast pos :: u32)))"

definition ksnprintf :: "u8 list \<Rightarrow> u64 \<Rightarrow> u8 list \<Rightarrow> arg list \<Rightarrow> (u8 list \<times> int) option" where
  "ksnprintf buf buflen fmt args = kvsnprintf buf buflen fmt args"


section \<open>What the formatter produces\<close>

text \<open>The text of a format, independently of any buffer.\<close>

function kformat :: "u8 list \<Rightarrow> arg list \<Rightarrow> u8 list option" where
  "kformat [] args = Some []"
| "kformat (c # fmt) args =
    (if c \<noteq> 0x25 then map_option ((#) c) (kformat fmt args)
     else case fmt of
       [] \<Rightarrow> Some []
     | f # fmt' \<Rightarrow>
        if f = 0x25 then map_option ((#) 0x25) (kformat fmt' args)
        else if f \<notin> {0x73, 0x64, 0x75, 0x78, 0x63} then map_option (\<lambda>t. 0x25 # f # t) (kformat fmt' args)
        else case args of
          [] \<Rightarrow> None
        | AStr s # args' \<Rightarrow>
            if f = 0x73
            then map_option ((@) (case s of None \<Rightarrow> null_text | Some t \<Rightarrow> t)) (kformat fmt' args')
            else None
        | AInt w # args' \<Rightarrow>
            if f = 0x73 then None
            else map_option ((@)
              (if f = 0x64 then
                 (if sint (ucast w :: u32) < 0 then 0x2D # number 10 (- scast (ucast w :: u32))
                  else number 10 (scast (ucast w :: u32)))
               else if f = 0x75 then number 10 w
               else if f = 0x78 then number 16 w
               else [ucast w])) (kformat fmt' args'))"
  by pat_completeness auto
termination by (relation "measure (\<lambda>(fmt, args). length fmt)") auto

definition digit_value :: "u8 \<Rightarrow> nat" where
  "digit_value c = (if c < 0x3A then unat (c - 0x30) else unat (c - 0x57))"

definition parse_number :: "nat \<Rightarrow> u8 list \<Rightarrow> nat" where
  "parse_number base cs = foldl (\<lambda>n c. n * base + digit_value c) 0 cs"

section \<open>Block copies\<close>

lemma copy_fold:
  fixes s d :: u64 and m :: memory
  assumes "sorted_wrt (\<lambda>i j. s + of_nat j \<noteq> d + of_nat i \<and> d + of_nat j \<noteq> d + of_nat i) is"
  shows "(\<forall>i \<in> set is. fold (copy_byte d s) is m (d + of_nat i) = m (s + of_nat i)) \<and>
    (\<forall>x. (\<forall>i \<in> set is. x \<noteq> d + of_nat i) \<longrightarrow> fold (copy_byte d s) is m x = m x)"
  using assms
proof (induction "is" arbitrary: m)
  case (Cons j "is")
  let ?m = "copy_byte d s j m"
  have m: "?m a = (if a = d + of_nat j then m (s + of_nat j) else m a)" for a
    by (simp add: copy_byte_def)
  have IH: "\<forall>i \<in> set is. fold (copy_byte d s) is ?m (d + of_nat i) = ?m (s + of_nat i)"
    "\<forall>x. (\<forall>i \<in> set is. x \<noteq> d + of_nat i) \<longrightarrow> fold (copy_byte d s) is ?m x = ?m x"
    using Cons.IH [of ?m] Cons.prems by auto
  have j: "\<forall>i \<in> set is. s + of_nat i \<noteq> d + of_nat j" "\<forall>i \<in> set is. d + of_nat j \<noteq> d + of_nat i"
    using Cons.prems by force+
  have "fold (copy_byte d s) is ?m (d + of_nat j) = m (s + of_nat j)"
    using IH(2) j(2) m [of "d + of_nat j"] by simp
  then show ?case
    using IH j m by simp
qed simp

lemma offset_neq:
  fixes a b :: u64
  assumes "unat a + i < 2 ^ 64" "unat b + j < 2 ^ 64" "unat a + i \<noteq> unat b + j"
  shows "a + of_nat i \<noteq> b + of_nat j"
proof
  assume eq: "a + of_nat i = b + of_nat j"
  have "unat (a + of_nat i) = unat a + i" "unat (b + of_nat j) = unat b + j"
    using assms by (simp_all add: unat_plus_64 unat_of_nat_64)
  then show False using eq assms(3) by simp
qed

lemma memmove_copies:
  assumes wrap: "unat d + unat n \<le> 2 ^ 64" "unat s + unat n \<le> 2 ^ 64"
  shows "(\<forall>i < unat n. memmove d s n m (d + of_nat i) = m (s + of_nat i)) \<and>
    (\<forall>x. (\<forall>i < unat n. x \<noteq> d + of_nat i) \<longrightarrow> memmove d s n m x = m x)"
proof -
  let ?P = "\<lambda>i j. s + of_nat j \<noteq> d + of_nat i \<and> d + of_nat j \<noteq> d + of_nat i"
  consider "d = s \<or> n = 0" | "d \<noteq> s" "n \<noteq> 0" "unat d < unat s" | "d \<noteq> s" "n \<noteq> 0" "unat s < unat d"
    by (metis nat_neq_iff word_unat_eq_iff)
  then show ?thesis
  proof cases
    case 1
    then show ?thesis by (auto simp: memmove_def)
  next
    case 2
    have "sorted_wrt ?P [0..<unat n]"
    proof (rule sorted_wrt_mono_rel [OF _ sorted_wrt_upt])
      fix i j assume "i \<in> set [0..<unat n]" "j \<in> set [0..<unat n]" "i < j"
      then show "?P i j" using wrap 2(3) by (intro conjI offset_neq) auto
    qed
    note c = copy_fold [OF this]
    have "memmove d s n m = fold (copy_byte d s) [0..<unat n] m"
      using 2 by (simp add: memmove_def word_less_nat_alt)
    then show ?thesis using c [of m] by simp
  next
    case 3
    have "sorted_wrt ?P (rev [0..<unat n])"
      unfolding sorted_wrt_rev
    proof (rule sorted_wrt_mono_rel [OF _ sorted_wrt_upt])
      fix i j assume "i \<in> set [0..<unat n]" "j \<in> set [0..<unat n]" "i < j"
      then show "?P j i" using wrap 3(3) by (intro conjI offset_neq) auto
    qed
    note c = copy_fold [OF this]
    have "memmove d s n m = fold (copy_byte d s) (rev [0..<unat n]) m"
      using 3 by (simp add: memmove_def word_less_nat_alt)
    then show ?thesis using c [of m] by simp
  qed
qed


section \<open>Numbers\<close>

lemma digit_value_char:
  assumes "unat d < 16" shows "digit_value (digit_char d) = unat d"
proof -
  have u: "unat (ucast d :: u8) = unat d"
    using assms by (simp add: unsigned_ucast_eq take_bit_nat_eq_self)
  show ?thesis
  proof (cases "unat d < 10")
    case True
    then have "unat (0x30 + ucast d :: u8) = 0x30 + unat d"
      by (subst unat_plus_if_size) (simp add: u size_word_def)
    then have "(0x30 + ucast d :: u8) < 0x3A" using True by (simp add: word_less_nat_alt)
    then show ?thesis using True u by (simp add: digit_value_def digit_char_def word_less_nat_alt)
  next
    case False
    then have "unat (0x57 + ucast d :: u8) = 0x57 + unat d"
      using assms by (subst unat_plus_if_size) (simp add: u size_word_def)
    then have "\<not> (0x57 + ucast d :: u8) < 0x3A" by (simp add: word_less_nat_alt)
    then show ?thesis using False u by (simp add: digit_value_def digit_char_def word_less_nat_alt)
  qed
qed

lemma digits_rev_lt:
  assumes "1 < unat base" "d \<in> set (digits_rev base val)" shows "unat d < unat base"
  using assms
proof (induction base val rule: digits_rev.induct)
  case (1 base val)
  have "unat (val mod base) < unat base" using 1 by (simp add: unat_mod)
  then show ?case
    using 1 digits_rev.simps [of base val] by (auto split: if_splits)
qed

lemma parse_digits:
  assumes "1 < unat base" "unat base \<le> 16"
  shows "parse_number (unat base) (rev (map digit_char (digits_rev base val))) = unat val"
  using assms
proof (induction base val rule: digits_rev.induct)
  case (1 base val)
  show ?case
  proof (cases "val = 0")
    case True
    then show ?thesis by (simp add: digits_rev.simps parse_number_def)
  next
    case False
    have ok: "\<not> (val = 0 \<or> base \<le> 1)" using False 1 by (auto simp: word_le_nat_alt)
    have eq: "digits_rev base val = val mod base # digits_rev base (val div base)"
      using ok by (subst digits_rev.simps) simp
    have "unat val mod unat base < unat base" using "1.prems"(1) by simp
    then have "unat (val mod base) < 16" using "1.prems"(2) by (simp add: unat_mod)
    then have "parse_number (unat base) (rev (map digit_char (digits_rev base val))) =
        unat (val div base) * unat base + unat (val mod base)"
      using 1 ok by (simp add: eq parse_number_def digit_value_char)
    then show ?thesis by (simp add: unat_div unat_mod)
  qed
qed

lemma digits_rev_length:
  assumes "10 \<le> unat base" shows "unat val < 10 ^ k \<Longrightarrow> length (digits_rev base val) \<le> k"
  using assms
proof (induction base val arbitrary: k rule: digits_rev.induct)
  case (1 base val)
  show ?case
  proof (cases "val = 0 \<or> base \<le> 1")
    case True
    then show ?thesis by (simp add: digits_rev.simps)
  next
    case False
    then have "0 < k" using "1.prems"(1) by (cases k) (auto simp: unat_0_iff)
    then obtain j where k: "k = Suc j" by (cases k) auto
    have "unat (val div base) \<le> unat val div 10"
      using "1.prems"(2) by (simp add: unat_div div_le_mono2)
    also have "\<dots> < 10 ^ j" using "1.prems"(1) by (simp add: k less_mult_imp_div_less mult.commute)
    finally have "length (digits_rev base (val div base)) \<le> j"
      using "1.IH" [OF False] "1.prems"(2) by blast
    then show ?thesis using False by (subst digits_rev.simps) (simp add: k)
  qed
qed

lemma number_correct:
  assumes "10 \<le> unat base" "unat base \<le> 16"
  shows "parse_number (unat base) (number base val) = unat val" "length (number base val) \<le> 20"
    "0 < length (number base val)"
proof -
  show "parse_number (unat base) (number base val) = unat val"
    using parse_digits [of base val] assms by (simp add: number_def parse_number_def digit_value_def)
  have "unat val < 10 ^ 20" using unat_lt_64 [of val] by simp
  then show "length (number base val) \<le> 20"
    using digits_rev_length [OF assms(1), of val 20] by (simp add: number_def)
  have "digits_rev base val \<noteq> []" if "val \<noteq> 0"
    using that assms by (subst digits_rev.simps) (auto simp: word_le_nat_alt)
  then show "0 < length (number base val)" by (simp add: number_def)
qed

section \<open>The formatter writes a prefix of its text\<close>

lemma buf_putu_number: "buf_putu bl base val st = fold (buf_putc bl) (number base val) st"
  by (simp add: buf_putu_def number_def fold_map rev_map comp_def)

lemma kvsnprintf_loop_text:
  "kvsnprintf_loop bl fmt args st = map_option (\<lambda>t. fold (buf_putc bl) t st) (kformat fmt args)"
proof (induction fmt args arbitrary: st rule: kformat.induct)
  case (2 c fmt args)
  show ?case
  proof (cases "c = 0x25")
    case False
    then show ?thesis using 2 by (simp add: option.map_comp comp_def)
  next
    case True
    show ?thesis
    proof (cases fmt)
      case Nil
      then show ?thesis using True by simp
    next
      case (Cons f fmt')
      show ?thesis
        using 2 True Cons
        by (auto simp: option.map_comp comp_def buf_putu_number buf_puts_def Let_def
            split: list.splits arg.splits)
    qed
  qed
qed simp


lemma fold_buf_putc:
  assumes "p + length t < 2 ^ 64" "length buf = unat bl"
  shows "\<exists>buf'. fold (buf_putc bl) t (buf, of_nat p) = (buf', of_nat (p + length t)) \<and>
    length buf' = length buf \<and>
    (\<forall>i < length buf. buf' ! i = (if p \<le> i \<and> i < p + length t \<and> Suc i < length buf then t ! (i - p) else buf ! i))"
  using assms
proof (induction t arbitrary: p buf)
  case (Cons c t)
  let ?b = "if Suc p < length buf then buf[p := c] else buf"
  have u: "unat (of_nat p :: u64) = p" "unat (of_nat p + 1 :: u64) = Suc p"
    using Cons.prems by (simp_all add: unat_of_nat_64 unat_plus_64)
  then have step: "buf_putc bl c (buf, of_nat p) = (?b, of_nat (Suc p))"
    using Cons.prems(2) by (simp add: buf_putc_def word_less_nat_alt add.commute)
  have "length ?b = unat bl" using Cons.prems by simp
  then obtain buf' where b': "fold (buf_putc bl) t (?b, of_nat (Suc p)) = (buf', of_nat (Suc p + length t))"
      "length buf' = length ?b"
      "\<forall>i < length ?b. buf' ! i = (if Suc p \<le> i \<and> i < Suc p + length t \<and> Suc i < length ?b then t ! (i - Suc p) else ?b ! i)"
    using Cons.IH [of "Suc p" ?b] Cons.prems(1) by auto
  have "buf' ! i = (if p \<le> i \<and> i < p + length (c # t) \<and> Suc i < length buf then (c # t) ! (i - p) else buf ! i)"
    if "i < length buf" for i
    using b'(3) that by (cases "i = p") (auto simp: nth_Cons' Suc_le_eq)
  then show ?case
    using b'(1,2) unfolding fold_Cons comp_apply step by (intro exI [of _ buf']) simp
qed auto

section \<open>Properties\<close>

text \<open>C35: \<open>memmove\<close> copies correctly however source and destination overlap: afterwards the
  destination holds the bytes the source held before, and no other byte has changed.\<close>

theorem memmove_correct:
  assumes "unat d + unat n \<le> 2 ^ 64" "unat s + unat n \<le> 2 ^ 64"
  shows "(\<forall>i < unat n. memmove d s n m (d + of_nat i) = m (s + of_nat i)) \<and>
    (\<forall>x. (\<forall>i < unat n. x \<noteq> d + of_nat i) \<longrightarrow> memmove d s n m x = m x)"
  using assms by (rule memmove_copies)

theorem memmove_correct_witness:
  "memmove 0x101 0x100 3 (\<lambda>a. ucast a) (0x101 + 2) = (2 :: u8)"
proof -
  have "\<forall>i < unat (3 :: u64). memmove 0x101 0x100 3 (\<lambda>a. ucast a) (0x101 + of_nat i) = (ucast (0x100 + of_nat i :: u64) :: u8)"
    using memmove_correct [of "0x101" 3 "0x100" "\<lambda>a. ucast a"] by simp
  from this [rule_format, of 2] show ?thesis by simp
qed

text \<open>C36: the formatter is memory safe and exact: for a nonempty buffer and a format that
  matches its arguments it writes the longest prefix of the formatted text that leaves room
  for the terminating NUL, puts the NUL right behind it, touches no byte beyond, and returns
  the length of the whole text.\<close>

theorem ksnprintf_exact:
  assumes "length buf = unat buflen" "0 < buflen" "kformat fmt args = Some t" "length t < 2 ^ 31"
  shows "\<exists>buf'. ksnprintf buf buflen fmt args = Some (buf', int (length t)) \<and> length buf' = length buf \<and>
    (let k = min (length t) (unat buflen - 1) in
     take k buf' = take k t \<and> buf' ! k = 0 \<and> (\<forall>i. k < i \<longrightarrow> i < length buf \<longrightarrow> buf' ! i = buf ! i))"
proof -
  let ?k = "min (length t) (unat buflen - 1)"
  obtain b where b: "fold (buf_putc buflen) t (buf, 0) = (b, of_nat (length t))" "length b = length buf"
      "\<forall>i < length buf. b ! i = (if i < length t \<and> Suc i < length buf then t ! i else buf ! i)"
    using fold_buf_putc [of 0 t buf buflen] assms by auto
  have u: "unat (of_nat (length t) :: u64) = length t" using assms(4) by (simp add: unat_of_nat_64)
  have pos: "0 < unat buflen" using assms(2) by (simp add: unat_gt_0 word_neq_0_conv)
  have idx: "unat (if of_nat (length t) < buflen then of_nat (length t) else buflen - 1) = ?k"
    using u pos by (auto simp: word_less_nat_alt unat_minus_64 min_def)
  have ret: "sint (ucast (of_nat (length t) :: u64) :: u32) = int (length t)"
    using assms(4) u by (subst sint_small_32) (simp_all add: unat_ucast_64_32)
  have "ksnprintf buf buflen fmt args = Some (b[?k := 0], int (length t))"
    using b(1) assms(2,3) idx ret
    by (simp add: ksnprintf_def kvsnprintf_def kvsnprintf_loop_text)
  moreover have "take ?k (b[?k := 0]) = take ?k t"
    using b(2,3) assms(1) by (intro nth_equalityI) auto
  moreover have "b[?k := 0] ! ?k = 0" using b(2) assms(1) pos by simp
  moreover have "b[?k := 0] ! i = buf ! i" if "?k < i" "i < length buf" for i
    using that b(2,3) assms(1) by auto
  ultimately show ?thesis using b(2) by (intro exI [of _ "b[?k := 0]"]) (simp add: Let_def)
qed

theorem ksnprintf_exact_witness:
  "\<exists>buf'. ksnprintf [9, 9, 9, 9] 4 [0x25, 0x75] [AInt 12345] = Some (buf', 5) \<and> buf' ! 3 = 0"
proof -
  have f: "kformat [0x25, 0x75] [AInt 12345] = Some [0x31, 0x32, 0x33, 0x34, 0x35]" by code_simp
  show ?thesis
    using ksnprintf_exact [of "[9, 9, 9, 9]" 4, OF _ _ f] by (auto simp: Let_def numeral_3_eq_3)
qed

text \<open>the numbers the formatter prints read back as the value printed, in base 10 and base
  16, and have between one and twenty digits, so they fit the 24-byte scratch array.\<close>

theorem number_readback:
  assumes "base \<in> {10, 16}"
  shows "parse_number (unat base) (number base val) = unat val \<and>
    0 < length (number base val) \<and> length (number base val) \<le> 20 \<and>
    buf_putu buflen base val st = buf_puts buflen (number base val) st"
  using number_correct [of base val] assms by (auto simp: buf_putu_number buf_puts_def)

theorem number_readback_witness: "parse_number 16 (number 16 0xBEEF) = 0xBEEF"
  using number_readback [of 16 "0xBEEF"] by simp

end
