(* ===== verification/Uart.thy ===== *)
theory Uart
  imports Strings_Lib
begin

text \<open>
  The serial driver, \<^verbatim>\<open>src/lib/uart/uart.c\<close>: the interrupt-fed receive ring of the
  second UART and the console printers of the first.  The ring is an array with
  a write and a read index; it refines a bounded first-in first-out queue of 255
  bytes.  The hardware receive FIFO that the interrupt handler drains is its
  argument; console output is the list of characters written.
\<close>

section \<open>The receive ring\<close>

abbreviation UART1_RING_SZ :: u32 where "UART1_RING_SZ \<equiv> 256"

record uart1 =
  u1_ring :: "u8 list"
  u1_head :: u32
  u1_tail :: u32

definition uart1_init :: "uart1 \<Rightarrow> uart1" where
  "uart1_init s = s\<lparr>u1_head := 0, u1_tail := 0\<rparr>"

text \<open>The body of the drain loop for one byte of the FIFO.\<close>

definition rx_push :: "u8 \<Rightarrow> uart1 \<Rightarrow> uart1" where
  "rx_push b s =
    (let nxt = (u1_head s + 1) mod UART1_RING_SZ in
     if nxt \<noteq> u1_tail s
     then s\<lparr>u1_ring := (u1_ring s)[unat (u1_head s) := b], u1_head := nxt\<rparr>
     else s)"

definition uart1_rx_isr :: "u8 list \<Rightarrow> uart1 \<Rightarrow> uart1" where
  "uart1_rx_isr fifo s = fold rx_push fifo s"

definition uart1_getc_nonblock :: "uart1 \<Rightarrow> int \<times> uart1" where
  "uart1_getc_nonblock s =
    (if u1_tail s \<noteq> u1_head s
     then (uint (u1_ring s ! unat (u1_tail s)), s\<lparr>u1_tail := (u1_tail s + 1) mod UART1_RING_SZ\<rparr>)
     else (-1, s))"

definition uart1_rx_available :: "uart1 \<Rightarrow> u32" where
  "uart1_rx_available s = (u1_head s - u1_tail s) mod UART1_RING_SZ"

section \<open>Console output\<close>

definition uart_puts :: "u8 list \<Rightarrow> u8 list \<Rightarrow> u8 list" where
  "uart_puts s con = con @ s"

definition uart_println :: "u8 list \<Rightarrow> u8 list \<Rightarrow> u8 list" where
  "uart_println s con = uart_puts s con @ [0x0A]"

text \<open>Hexadecimal and binary printing walk the digit positions from the top and skip leading zeros.\<close>

fun positional :: "u64 \<Rightarrow> nat \<Rightarrow> (u64 \<Rightarrow> u8) \<Rightarrow> bool \<Rightarrow> nat list \<Rightarrow> u8 list" where
  "positional v w ch started [] = []"
| "positional v w ch started (i # is) =
    (let digit = take_bit w (drop_bit i v) in
     if digit \<noteq> 0 \<or> started \<or> i = 0
     then ch digit # positional v w ch True is
     else positional v w ch started is)"

definition upper_digit :: "u64 \<Rightarrow> u8" where
  "upper_digit d = (if d < 10 then 0x30 + ucast d else 0x41 + ucast d - 10)"

definition uart_puthex :: "u64 \<Rightarrow> u8 list" where
  "uart_puthex v = [0x30, 0x78] @
     positional v 4 upper_digit False [60, 56, 52, 48, 44, 40, 36, 32, 28, 24, 20, 16, 12, 8, 4, 0]"

definition uart_putdec :: "u64 \<Rightarrow> u8 list" where
  "uart_putdec v = (if v = 0 then [0x30] else rev (map (\<lambda>d. 0x30 + ucast d) (digits_rev 10 v)))"

definition uart_putbin :: "u64 \<Rightarrow> u8 list" where
  "uart_putbin v = [0x30, 0x62] @ positional v 1 (\<lambda>d. 0x30 + ucast d) False (rev [0..<64])"

text \<open>The text \<open>uart_printf\<close> writes; \<open>None\<close> when the format does not match its arguments.\<close>

function uart_printf :: "u8 list \<Rightarrow> arg list \<Rightarrow> u8 list option" where
  "uart_printf [] args = Some []"
| "uart_printf (c # fmt) args =
    (if c \<noteq> 0x25 then map_option ((#) c) (uart_printf fmt args)
     else case fmt of
       [] \<Rightarrow> Some []
     | f # fmt' \<Rightarrow>
        if f = 0x73 then
          (case args of
             AStr s # args' \<Rightarrow>
               map_option ((@) (case s of None \<Rightarrow> null_text | Some t \<Rightarrow> t)) (uart_printf fmt' args')
           | _ \<Rightarrow> None)
        else if f \<in> {0x64, 0x75, 0x78, 0x70, 0x62, 0x63} then
          (case args of
             AInt w # args' \<Rightarrow>
               map_option ((@)
                 (if f = 0x64 then (if sint w < 0 then 0x2D # uart_putdec (- w) else uart_putdec w)
                  else if f = 0x75 then uart_putdec w
                  else if f = 0x78 \<or> f = 0x70 then uart_puthex w
                  else if f = 0x62 then uart_putbin w
                  else [ucast w])) (uart_printf fmt' args')
           | _ \<Rightarrow> None)
        else if f = 0x25 then map_option ((#) 0x25) (uart_printf fmt' args)
        else map_option (\<lambda>t. 0x25 # f # t) (uart_printf fmt' args))"
  by pat_completeness auto
termination by (relation "measure (\<lambda>(fmt, args). length fmt)") auto

section \<open>Bounded queues\<close>

text \<open>The abstract queue, and the answers to a sequence of deliveries and reads.\<close>

definition bq_put :: "nat \<Rightarrow> u8 \<Rightarrow> u8 list \<Rightarrow> u8 list" where
  "bq_put cap b q = (if length q < cap then q @ [b] else q)"

definition bq_get :: "u8 list \<Rightarrow> int \<times> u8 list" where
  "bq_get q = (case q of [] \<Rightarrow> (-1, []) | b # q' \<Rightarrow> (uint b, q'))"

datatype ev = Put u8 | Get

fun queue_run :: "(u8 \<Rightarrow> 's \<Rightarrow> 's) \<Rightarrow> ('s \<Rightarrow> int \<times> 's) \<Rightarrow> ev list \<Rightarrow> 's \<Rightarrow> int list" where
  "queue_run pt gt [] s = []"
| "queue_run pt gt (Put b # es) s = queue_run pt gt es (pt b s)"
| "queue_run pt gt (Get # es) s = fst (gt s) # queue_run pt gt es (snd (gt s))"

locale bounded_queue =
  fixes qinv :: "'s \<Rightarrow> bool"
    and contents :: "'s \<Rightarrow> u8 list"
    and cap :: nat
    and pt :: "u8 \<Rightarrow> 's \<Rightarrow> 's"
    and gt :: "'s \<Rightarrow> int \<times> 's"
  assumes put_inv: "qinv s \<Longrightarrow> qinv (pt b s)"
    and get_inv: "qinv s \<Longrightarrow> qinv (snd (gt s))"
    and put_contents: "qinv s \<Longrightarrow> contents (pt b s) = bq_put cap b (contents s)"
    and get_contents: "qinv s \<Longrightarrow> contents (snd (gt s)) = snd (bq_get (contents s))"
    and get_result: "qinv s \<Longrightarrow> fst (gt s) = fst (bq_get (contents s))"
begin

lemma run_refines: "qinv s \<Longrightarrow> queue_run pt gt es s = queue_run (bq_put cap) bq_get es (contents s)"
proof (induction es arbitrary: s)
  case (Cons e es)
  then show ?case
    by (cases e) (simp_all add: put_inv get_inv put_contents get_contents get_result)
qed simp

lemma fold_put_contents:
  "qinv s \<Longrightarrow> qinv (fold pt bs s) \<and> contents (fold pt bs s) = contents s @ take (cap - length (contents s)) bs"
proof (induction bs arbitrary: s)
  case (Cons b bs)
  then show ?case
    using put_inv [of s b] put_contents [of s b]
    by (cases "length (contents s) < cap") (auto simp: bq_put_def take_Cons' Suc_diff_Suc)
qed simp

end

section \<open>The ring is a bounded queue\<close>

definition ring_inv :: "uart1 \<Rightarrow> bool" where
  "ring_inv s \<longleftrightarrow> length (u1_ring s) = 256 \<and> unat (u1_head s) < 256 \<and> unat (u1_tail s) < 256"

definition ring_count :: "uart1 \<Rightarrow> nat" where
  "ring_count s = (256 + unat (u1_head s) - unat (u1_tail s)) mod 256"

definition ring_list :: "uart1 \<Rightarrow> u8 list" where
  "ring_list s = map (\<lambda>i. u1_ring s ! ((unat (u1_tail s) + i) mod 256)) [0..<ring_count s]"

lemma unat_next: "unat x < 256 \<Longrightarrow> unat ((x + 1) mod UART1_RING_SZ) = (unat x + 1) mod 256" for x :: u32
  by (simp add: unat_mod unat_plus_if_size size_word_def)


lemma ring_count_eq:
  assumes "ring_inv s"
  shows "ring_count s = (if unat (u1_tail s) \<le> unat (u1_head s) then unat (u1_head s) - unat (u1_tail s)
    else 256 + unat (u1_head s) - unat (u1_tail s))"
  using assms by (auto simp: ring_inv_def ring_count_def mod_if)

lemma ring_count_lt: "ring_inv s \<Longrightarrow> ring_count s < 256"
  by (simp add: ring_count_def)

lemma wrap_index:
  fixes h t i :: nat
  assumes "h < 256" "t < 256"
  defines "c \<equiv> if t \<le> h then h - t else 256 + h - t"
  shows "(t + c) mod 256 = h" "i < c \<Longrightarrow> (t + i) mod 256 \<noteq> h"
proof -
  show "(t + c) mod 256 = h" using assms by auto
  assume i: "i < c"
  show "(t + i) mod 256 \<noteq> h"
  proof (cases "t + i < 256")
    case True
    then show ?thesis using i by (auto simp: c_def split: if_splits)
  next
    case False
    then obtain j where j: "t + i = 256 + j" using le_iff_add by (metis not_less)
    then have "j < h" "j < 256" using i assms(1,2) by (auto simp: c_def split: if_splits)
    then show ?thesis unfolding j by simp
  qed
qed

lemma ring_index:
  assumes "ring_inv s"
  shows "(unat (u1_tail s) + ring_count s) mod 256 = unat (u1_head s)"
    "i < ring_count s \<Longrightarrow> (unat (u1_tail s) + i) mod 256 \<noteq> unat (u1_head s)"
  using assms wrap_index [of "unat (u1_head s)" "unat (u1_tail s)"]
  unfolding ring_count_eq [OF assms] by (auto simp: ring_inv_def)

lemma rx_push_inv: "ring_inv s \<Longrightarrow> ring_inv (rx_push b s)"
  by (simp add: ring_inv_def rx_push_def Let_def unat_next)

lemma rx_push_list:
  assumes inv: "ring_inv s"
  shows "ring_list (rx_push b s) = bq_put 255 b (ring_list s)"
proof -
  let ?h = "unat (u1_head s)" and ?t = "unat (u1_tail s)"
  have lt: "?h < 256" "?t < 256" "length (u1_ring s) = 256" using inv by (auto simp: ring_inv_def)
  have full: "(u1_head s + 1) mod UART1_RING_SZ \<noteq> u1_tail s \<longleftrightarrow> ring_count s < 255"
    unfolding word_unat_eq_iff unat_next [OF lt(1)] ring_count_eq [OF inv] using lt
    by (auto simp: mod_if)
  show ?thesis
  proof (cases "ring_count s < 255")
    case True
    then have s': "rx_push b s = s\<lparr>u1_ring := (u1_ring s)[?h := b], u1_head := (u1_head s + 1) mod UART1_RING_SZ\<rparr>"
      using full by (simp add: rx_push_def Let_def)
    have "ring_count (rx_push b s) = Suc (ring_count s)"
      unfolding ring_count_eq [OF rx_push_inv [OF inv]] ring_count_eq [OF inv]
      using True lt ring_count_eq [OF inv] by (auto simp: s' unat_next mod_if split: if_splits)
    moreover have "(u1_ring s)[?h := b] ! ((?t + i) mod 256) =
        (if i < ring_count s then u1_ring s ! ((?t + i) mod 256) else b)" if "i \<le> ring_count s" for i
      using that ring_index(1) [OF inv] ring_index(2) [OF inv, of i] lt by (cases "i = ring_count s") auto
    ultimately show ?thesis
      using True by (simp add: ring_list_def s' bq_put_def)
  next
    case False
    then show ?thesis
      using full by (simp add: rx_push_def Let_def bq_put_def) (simp add: ring_list_def)
  qed
qed

lemma getc_spec:
  assumes inv: "ring_inv s"
  shows "ring_inv (snd (uart1_getc_nonblock s))"
    "ring_list (snd (uart1_getc_nonblock s)) = snd (bq_get (ring_list s))"
    "fst (uart1_getc_nonblock s) = fst (bq_get (ring_list s))"
proof -
  let ?h = "unat (u1_head s)" and ?t = "unat (u1_tail s)"
  have lt: "?h < 256" "?t < 256" "length (u1_ring s) = 256" using inv by (auto simp: ring_inv_def)
  have empty: "u1_tail s = u1_head s \<longleftrightarrow> ring_count s = 0"
    unfolding word_unat_eq_iff ring_count_eq [OF inv] using lt by auto
  show inv': "ring_inv (snd (uart1_getc_nonblock s))"
    using inv by (simp add: uart1_getc_nonblock_def ring_inv_def unat_next)
  have "ring_list (snd (uart1_getc_nonblock s)) = snd (bq_get (ring_list s)) \<and>
    fst (uart1_getc_nonblock s) = fst (bq_get (ring_list s))"
  proof (cases "ring_count s")
    case 0
    then show ?thesis using empty by (simp add: uart1_getc_nonblock_def ring_list_def bq_get_def)
  next
    case (Suc n)
    let ?s' = "s\<lparr>u1_tail := (u1_tail s + 1) mod UART1_RING_SZ\<rparr>"
    have s': "uart1_getc_nonblock s = (uint (u1_ring s ! ?t), ?s')"
      using empty Suc by (simp add: uart1_getc_nonblock_def)
    have "ring_inv ?s'" using inv' by (simp add: s')
    then have n: "ring_count ?s' = n"
      using Suc ring_count_eq [OF inv] lt
      by (subst ring_count_eq) (auto simp: unat_next mod_if split: if_splits)
    have "ring_list s = u1_ring s ! ?t # map (\<lambda>i. u1_ring s ! ((?t + Suc i) mod 256)) [0..<n]"
      using Suc lt(2) by (simp add: ring_list_def upt_conv_Cons map_Suc_upt [symmetric] comp_def del: upt_Suc)
    moreover have "((?t + 1) mod 256 + i) mod 256 = (?t + Suc i) mod 256" for i
      by (simp add: mod_add_left_eq)
    ultimately show ?thesis
      using n lt(2) by (simp add: s' bq_get_def ring_list_def unat_next)
  qed
  then show "ring_list (snd (uart1_getc_nonblock s)) = snd (bq_get (ring_list s))"
    "fst (uart1_getc_nonblock s) = fst (bq_get (ring_list s))" by auto
qed

interpretation u1: bounded_queue ring_inv ring_list 255 rx_push uart1_getc_nonblock
  using rx_push_inv rx_push_list getc_spec by unfold_locales auto


lemma unat_minus_wrap: "unat y > unat x \<Longrightarrow> unat (x - y) = 2 ^ 32 + unat x - unat y" for x y :: u32
  by (simp add: unat_sub_if_size size_word_def)

lemma rx_available_count:
  assumes inv: "ring_inv s"
  shows "unat (uart1_rx_available s) = length (ring_list s)"
proof -
  let ?h = "unat (u1_head s)" and ?t = "unat (u1_tail s)"
  have lt: "?h < 256" "?t < 256" using inv by (auto simp: ring_inv_def)
  have "unat (u1_head s - u1_tail s) mod 256 = ring_count s"
  proof (cases "?t \<le> ?h")
    case True
    then have "unat (u1_head s - u1_tail s) = ?h - ?t"
      by (simp add: unat_sub word_le_nat_alt)
    then show ?thesis using True lt by (simp add: ring_count_eq [OF inv])
  next
    case False
    then have "unat (u1_head s - u1_tail s) = 2 ^ 32 + ?h - ?t"
      by (simp add: unat_minus_wrap)
    also have "\<dots> = (256 + ?h - ?t) + 256 * (2 ^ 24 - 1)" using lt by simp
    finally have "unat (u1_head s - u1_tail s) mod 256 = (256 + ?h - ?t) mod 256"
      by (simp only: mod_mult_self2)
    then show ?thesis using False lt by (simp add: ring_count_eq [OF inv])
  qed
  then show ?thesis by (simp add: uart1_rx_available_def unat_mod ring_list_def)
qed

lemma uart_putdec_number: "uart_putdec v = number 10 v"
proof -
  have "unat d < 10" if "d \<in> set (digits_rev 10 v)" for d
    using digits_rev_lt [of 10 d v] that by simp
  then have "map (\<lambda>d. 0x30 + ucast d) (digits_rev 10 v) = map digit_char (digits_rev 10 v)"
    by (auto simp: digit_char_def word_less_nat_alt)
  then show ?thesis by (simp add: uart_putdec_def number_def)
qed

section \<open>Properties\<close>

text \<open>C37: the receive ring is a first-in first-out queue of capacity 255: every interleaving of
  interrupt deliveries and non-blocking reads gives the answers of the abstract queue, an
  interrupt appends what fits and drops the rest, and the availability count is the queue
  length.\<close>

theorem uart1_ring_is_fifo:
  assumes "ring_inv s"
  shows "queue_run rx_push uart1_getc_nonblock es s = queue_run (bq_put 255) bq_get es (ring_list s) \<and>
    ring_list (uart1_rx_isr bs s) = ring_list s @ take (255 - length (ring_list s)) bs \<and>
    unat (uart1_rx_available s) = length (ring_list s)"
  using u1.run_refines [OF assms] u1.fold_put_contents [OF assms] rx_available_count [OF assms]
  by (simp add: uart1_rx_isr_def)

definition demo_ring :: uart1 where
  "demo_ring = \<lparr>u1_ring = replicate 256 0, u1_head = 255, u1_tail = 255\<rparr>"

theorem uart1_ring_is_fifo_witness:
  "queue_run rx_push uart1_getc_nonblock [Put 7, Put 8, Get, Get, Get] demo_ring = [7, 8, -1]"
proof -
  have inv: "ring_inv demo_ring" and nil: "ring_list demo_ring = []"
    by (simp_all add: ring_inv_def demo_ring_def ring_list_def ring_count_def)
  show ?thesis
    using uart1_ring_is_fifo [OF inv, of "[Put 7, Put 8, Get, Get, Get]" "[]"] nil
    by (simp add: bq_put_def bq_get_def)
qed

end
