(* ===== verification/Object_Alloc_Spec.thy ===== *)
theory Object_Alloc_Spec
  imports Page_Alloc_Spec
begin

text \<open>
  The interface of an object allocator in the style of \<open>kmalloc\<close> and \<open>kfree\<close>: an
  abstract set of live objects (address and size) with pairwise disjoint
  payloads, an allocation that adds one fresh object or returns 0, a release
  that removes one, and a release of anything else that is ignored.  \<open>None\<close>
  stands for a call that does not return.
\<close>

definition payload :: "u64 \<times> u64 \<Rightarrow> nat set" where
  "payload ps = {unat (fst ps)..<unat (fst ps) + unat (snd ps)}"

fun object_step ::
  "(u64 \<Rightarrow> 's \<Rightarrow> (u64 \<times> 's) option) \<Rightarrow> (u64 \<Rightarrow> 's \<Rightarrow> 's option) \<Rightarrow> alloc_op \<Rightarrow>
   's \<times> u64 list \<Rightarrow> ('s \<times> u64 list) option" where
  "object_step mal fre (Alloc n) (s, L) =
    (case mal n s of None \<Rightarrow> None | Some (p, s') \<Rightarrow> Some (s', if p = 0 then L else L @ [p]))"
| "object_step mal fre (Free i) (s, L) =
    (if i < length L
     then case fre (L ! i) s of None \<Rightarrow> None | Some s' \<Rightarrow> Some (s', take i L @ drop (Suc i) L)
     else Some (s, L))"

fun object_run ::
  "(u64 \<Rightarrow> 's \<Rightarrow> (u64 \<times> 's) option) \<Rightarrow> (u64 \<Rightarrow> 's \<Rightarrow> 's option) \<Rightarrow> alloc_op list \<Rightarrow>
   's \<times> u64 list \<Rightarrow> ('s \<times> u64 list) option" where
  "object_run mal fre [] c = Some c"
| "object_run mal fre (x # xs) c =
    (case object_step mal fre x c of None \<Rightarrow> None | Some c' \<Rightarrow> object_run mal fre xs c')"

locale object_allocator =
  fixes rep :: "'s \<Rightarrow> (u64 \<times> u64) set \<Rightarrow> bool"
    and mal :: "u64 \<Rightarrow> 's \<Rightarrow> (u64 \<times> 's) option"
    and fre :: "u64 \<Rightarrow> 's \<Rightarrow> 's option"
  assumes rep_disjoint: "rep s V \<Longrightarrow> x \<in> V \<Longrightarrow> y \<in> V \<Longrightarrow> x \<noteq> y \<Longrightarrow>
      fst x \<noteq> fst y \<and> payload x \<inter> payload y = {}"
    and mal_ok: "rep s V \<Longrightarrow> \<exists>p s'. mal n s = Some (p, s') \<and>
      (p = 0 \<and> rep s' V \<or> p \<noteq> 0 \<and> p \<notin> fst ` V \<and> (\<exists>sz. n \<le> sz \<and> rep s' (insert (p, sz) V)))"
    and fre_ok: "rep s V \<Longrightarrow> (p, sz) \<in> V \<Longrightarrow> \<exists>s'. fre p s = Some s' \<and> rep s' (V - {(p, sz)})"
    and fre_other: "rep s V \<Longrightarrow> p \<notin> fst ` V \<Longrightarrow> fre p s = Some s"
begin

definition objects_inv :: "'s \<times> u64 list \<Rightarrow> bool" where
  "objects_inv = (\<lambda>(s, L). \<exists>V. rep s V \<and> fst ` V = set L \<and> distinct L)"

lemma objects_inv_step:
  assumes "objects_inv c"
  shows "\<exists>c'. object_step mal fre x c = Some c' \<and> objects_inv c'"
proof -
  obtain s L V where c: "c = (s, L)" "rep s V" "fst ` V = set L" "distinct L"
    using assms by (auto simp: objects_inv_def split: prod.splits)
  show ?thesis
  proof (cases x)
    case (Alloc n)
    obtain p s' where m: "mal n s = Some (p, s')"
      "p = 0 \<and> rep s' V \<or> p \<noteq> 0 \<and> p \<notin> fst ` V \<and> (\<exists>sz. n \<le> sz \<and> rep s' (insert (p, sz) V))"
      using mal_ok [OF c(2), of n] by blast
    show ?thesis
    proof (cases "p = 0")
      case True
      then show ?thesis using m c by (auto simp: Alloc objects_inv_def)
    next
      case False
      then obtain sz where sz: "rep s' (insert (p, sz) V)" "p \<notin> set L" using m(2) c(3) by auto
      moreover have "fst ` insert (p, sz) V = set (L @ [p])" using c(3) by auto
      ultimately have "objects_inv (s', L @ [p])"
        unfolding objects_inv_def using c(4)
        by (intro case_prodI exI [of _ "insert (p, sz) V"] conjI) simp_all
      then show ?thesis using m(1) False by (simp add: Alloc c(1))
    qed
  next
    case (Free i)
    show ?thesis
    proof (cases "i < length L")
      case True
      then have "L ! i \<in> fst ` V" using c(3) by simp
      then obtain sz where v: "(L ! i, sz) \<in> V" by auto
      then obtain s' where s': "fre (L ! i) s = Some s'" "rep s' (V - {(L ! i, sz)})"
        using fre_ok [OF c(2)] by blast
      have L: "L = take i L @ L ! i # drop (Suc i) L" using True by (rule id_take_nth_drop)
      have rest: "distinct (take i L @ drop (Suc i) L)"
        "set (take i L @ drop (Suc i) L) = set L - {L ! i}"
      proof -
        have "distinct (take i L @ L ! i # drop (Suc i) L)" using c(4) L by simp
        then show "distinct (take i L @ drop (Suc i) L)"
          "set (take i L @ drop (Suc i) L) = set L - {L ! i}"
          by (simp, subst (3) L, auto)
      qed
      have "fst ` (V - {(L ! i, sz)}) = fst ` V - {L ! i}"
        using rep_disjoint [OF c(2) v] by force
      then have "objects_inv (s', take i L @ drop (Suc i) L)"
        unfolding objects_inv_def using s'(2) rest c(3)
        by (intro case_prodI exI [of _ "V - {(L ! i, sz)}"] conjI) simp_all
      then show ?thesis using s'(1) True by (simp add: Free c(1))
    next
      case False
      then show ?thesis using assms by (simp add: Free c(1))
    qed
  qed
qed

lemma objects_inv_run: "objects_inv c \<Longrightarrow> \<exists>c'. object_run mal fre xs c = Some c' \<and> objects_inv c'"
proof (induction xs arbitrary: c)
  case (Cons x xs)
  then show ?case using objects_inv_step [OF Cons.prems, of x] by auto
qed simp

text \<open>A client that owns the objects at the addresses \<open>A\<close>, beside the objects \<open>V\<close> of others.\<close>

definition owned :: "(u64 \<times> u64) set \<Rightarrow> u64 set \<Rightarrow> 's \<Rightarrow> bool" where
  "owned V A s \<longleftrightarrow> (\<exists>W. rep s (V \<union> W) \<and> fst ` W = A \<and> fst ` V \<inter> A = {})"

lemma owned_none: "owned V {} s \<longleftrightarrow> rep s V"
  by (simp add: owned_def)

lemma owned_split:
  assumes "owned V (A \<union> B) s" "A \<inter> B = {}"
  obtains W where "owned (V \<union> W) A s" "fst ` W = B" "fst ` V \<inter> B = {}"
proof -
  obtain W where W: "rep s (V \<union> W)" "fst ` W = A \<union> B" "fst ` V \<inter> (A \<union> B) = {}" using assms(1) by (auto simp: owned_def)
  let ?WA = "{x \<in> W. fst x \<in> A}" and ?WB = "{x \<in> W. fst x \<in> B}"
  have sel: "fst ` {x \<in> W. fst x \<in> C} = fst ` W \<inter> C" for C by auto
  have f: "fst ` ?WA = A" "fst ` ?WB = B"
    unfolding sel W(2) by auto
  have "fst x \<in> A \<union> B" if "x \<in> W" for x using imageI [OF that, of fst] unfolding W(2) .
  then have "V \<union> ?WB \<union> ?WA = V \<union> W" by auto
  then have "rep s (V \<union> ?WB \<union> ?WA)" using W(1) by simp
  moreover have "fst ` (V \<union> ?WB) \<inter> A = {}" unfolding image_Un f(2) using W(3) assms(2) by auto
  ultimately have "owned (V \<union> ?WB) A s" unfolding owned_def using f(1) by blast
  then show ?thesis using that [OF _ f(2)] W(3) by auto
qed

lemma owned_join:
  assumes "owned (V \<union> W) A s" "fst ` V \<inter> fst ` W = {}"
  shows "owned V (A \<union> fst ` W) s"
proof -
  obtain U where U: "rep s (V \<union> W \<union> U)" "fst ` U = A" "fst ` (V \<union> W) \<inter> A = {}" using assms(1) by (auto simp: owned_def)
  have "rep s (V \<union> (W \<union> U))" using U(1) by (simp add: Un_assoc)
  moreover have "fst ` (W \<union> U) = A \<union> fst ` W" "fst ` V \<inter> (A \<union> fst ` W) = {}"
    unfolding image_Un U(2) using U(3) assms(2) by auto
  ultimately show ?thesis unfolding owned_def by blast
qed

lemma owned_mal:
  assumes "owned V A s"
  shows "\<exists>p s'. mal n s = Some (p, s') \<and> (p = 0 \<and> owned V A s' \<or> p \<noteq> 0 \<and> p \<notin> A \<and> owned V (insert p A) s')"
proof -
  obtain W where W: "rep s (V \<union> W)" "fst ` W = A" "fst ` V \<inter> A = {}" using assms by (auto simp: owned_def)
  obtain p s' where m: "mal n s = Some (p, s')" "p = 0 \<and> rep s' (V \<union> W) \<or>
      p \<noteq> 0 \<and> p \<notin> fst ` (V \<union> W) \<and> (\<exists>sz. n \<le> sz \<and> rep s' (insert (p, sz) (V \<union> W)))"
    using mal_ok [OF W(1), of n] by blast
  show ?thesis
  proof (cases "p = 0")
    case True
    then show ?thesis using m W by (auto simp: owned_def)
  next
    case False
    then obtain sz where sz: "rep s' (V \<union> insert (p, sz) W)" "p \<notin> fst ` V" "p \<notin> A"
      using m(2) W(2) by (auto simp: image_Un)
    then have "owned V (insert p A) s'"
      unfolding owned_def using W(2,3) by (intro exI [of _ "insert (p, sz) W"]) auto
    then show ?thesis using m(1) False sz(3) by blast
  qed
qed

lemma owned_fre:
  assumes "owned V A s" "p \<in> A"
  shows "\<exists>s'. fre p s = Some s' \<and> owned V (A - {p}) s'"
proof -
  obtain W where W: "rep s (V \<union> W)" "fst ` W = A" "fst ` V \<inter> A = {}" using assms(1) by (auto simp: owned_def)
  obtain sz where sz: "(p, sz) \<in> W" using assms(2) W(2) by auto
  obtain s' where s': "fre p s = Some s'" "rep s' (V \<union> W - {(p, sz)})"
    using fre_ok [OF W(1), of p sz] sz by blast
  have "inj_on fst W"
    using rep_disjoint [OF W(1)] by (intro inj_onI) blast
  then have W': "fst ` (W - {(p, sz)}) = A - {p}"
    using inj_on_image_set_diff [of fst W W "{(p, sz)}"] sz W(2) by simp
  have "V \<union> W - {(p, sz)} = V \<union> (W - {(p, sz)})" using W(3) assms(2) by force
  then have "owned V (A - {p}) s'"
    unfolding owned_def using s'(2) W(3) W' by (intro exI [of _ "W - {(p, sz)}"]) auto
  then show ?thesis using s'(1) by blast
qed

end

end
