(* ===== verification/Heap_Alloc.thy ===== *)
theory Heap_Alloc
  imports Pmm Object_Alloc_Spec
begin

text \<open>
  The kernel heap, \<^verbatim>\<open>src/mm/heap/heap.c\<close>: a first-fit allocator over a singly
  linked list of blocks whose headers lie in front of the payloads, backed by
  runs of pages from the page allocator.  Headers are read and written through
  \<open>hdr\<close>, the memory seen as a \<open>block_header\<close> at each address; payload bytes belong
  to the clients and are not modelled.  The list walks follow \<open>next\<close> pointers, so
  they are partial functions: \<open>None\<close> means that the C function does not return
  (a cyclic list, or the NULL dereference of \<open>heap_expand\<close> on an empty heap).
  The second half refines the pointer program to operations on a list of
  blocks and proves the allocator's contract there.
\<close>

section \<open>State\<close>

record block_header =
  blk_size :: u64
  blk_magic :: u32
  blk_is_free :: u32
  blk_next :: u64

record heap_region =
  va_start :: u64
  size_bytes :: u64

record heap = pmm +
  heap_head :: u64
  hdr :: "u64 \<Rightarrow> block_header"
  regions :: "heap_region list"

abbreviation HEAP_INITIAL_PAGES :: u64 where "HEAP_INITIAL_PAGES \<equiv> 256"
abbreviation HEAP_MIN_BLOCK_SIZE :: u64 where "HEAP_MIN_BLOCK_SIZE \<equiv> 32"
abbreviation HEAP_EXPAND_MIN_PAGES :: u64 where "HEAP_EXPAND_MIN_PAGES \<equiv> 64"
abbreviation HEAP_MAX_REGIONS :: nat where "HEAP_MAX_REGIONS \<equiv> 16"
abbreviation BLOCK_MAGIC_ALLOC :: u32 where "BLOCK_MAGIC_ALLOC \<equiv> 0xA110CED"
abbreviation BLOCK_MAGIC_FREE :: u32 where "BLOCK_MAGIC_FREE \<equiv> 0xFEEDF1EE"

definition HEAP_ALIGN_UP :: "u64 \<Rightarrow> u64" where
  "HEAP_ALIGN_UP x = (x + 16 - 1) AND NOT (16 - 1)"

text \<open>The header structure occupies 24 bytes, rounded up to the heap alignment.\<close>

definition BLOCK_HEADER_SIZE :: u64 where
  "BLOCK_HEADER_SIZE = HEAP_ALIGN_UP 24"

section \<open>Regions\<close>

definition register_region :: "u64 \<Rightarrow> u64 \<Rightarrow> 'a heap_scheme \<Rightarrow> int \<times> 'a heap_scheme" where
  "register_region va bytes s =
    (if HEAP_MAX_REGIONS \<le> length (regions s) then (-1, s)
     else (0, s\<lparr>regions := regions s @ [\<lparr>va_start = va, size_bytes = bytes\<rparr>]\<rparr>))"

definition addr_in_any_region :: "'a heap_scheme \<Rightarrow> u64 \<Rightarrow> bool" where
  "addr_in_any_region s addr \<longleftrightarrow>
    list_ex (\<lambda>r. va_start r \<le> addr \<and> addr < va_start r + size_bytes r) (regions s)"

text \<open>\<open>memset(va, 0, bytes)\<close> as the headers see it.\<close>

definition zero_range :: "u64 \<Rightarrow> u64 \<Rightarrow> (u64 \<Rightarrow> block_header) \<Rightarrow> u64 \<Rightarrow> block_header" where
  "zero_range va bytes h =
    (\<lambda>a. if va \<le> a \<and> a < va + bytes
         then \<lparr>blk_size = 0, blk_magic = 0, blk_is_free = 0, blk_next = 0\<rparr> else h a)"

definition free_header :: "u64 \<Rightarrow> u64 \<Rightarrow> block_header" where
  "free_header sz nx = \<lparr>blk_size = sz, blk_magic = BLOCK_MAGIC_FREE, blk_is_free = 1, blk_next = nx\<rparr>"

definition heap_init :: "'a heap_scheme \<Rightarrow> 'a heap_scheme" where
  "heap_init s =
    (let pages = HEAP_INITIAL_PAGES in
     case pmm_allocate_pages pages s of (phys, s1) \<Rightarrow>
       if phys = 0 then s1
       else let va = PHYS_TO_VIRT phys;
                heap_size = pages * PAGE_SIZE;
                s2 = s1\<lparr>hdr := (zero_range va heap_size (hdr s1))
                          (va := free_header (heap_size - BLOCK_HEADER_SIZE) 0),
                        heap_head := va\<rparr>
            in snd (register_region va heap_size s2))"

section \<open>Growing the heap\<close>

partial_function (option) heap_tail :: "(u64 \<Rightarrow> block_header) \<Rightarrow> u64 \<Rightarrow> u64 option" where
  "heap_tail h tail = (if blk_next (h tail) = 0 then Some tail else heap_tail h (blk_next (h tail)))"

definition expand_pages :: "u64 \<Rightarrow> u64" where
  "expand_pages need_bytes =
    (let bytes_required = need_bytes + BLOCK_HEADER_SIZE;
         pages = (bytes_required + PAGE_SIZE - 1) div PAGE_SIZE
     in if pages < HEAP_EXPAND_MIN_PAGES then HEAP_EXPAND_MIN_PAGES else pages)"

definition heap_expand :: "u64 \<Rightarrow> 'a heap_scheme \<Rightarrow> (int \<times> 'a heap_scheme) option" where
  "heap_expand need_bytes s =
    (let pages = expand_pages need_bytes in
     case pmm_allocate_pages pages s of (phys, s1) \<Rightarrow>
       if phys = 0 then Some (-1, s1)
       else let va = PHYS_TO_VIRT phys;
                bytes = pages * PAGE_SIZE;
                h1 = (zero_range va bytes (hdr s1))(va := free_header (bytes - BLOCK_HEADER_SIZE) 0)
            in if heap_head s1 = 0 then None
               else case heap_tail h1 (heap_head s1) of
                 None \<Rightarrow> None
               | Some tail \<Rightarrow>
                  (let h2 = h1(tail := (h1 tail)\<lparr>blk_next := va\<rparr>);
                       (rc, s2) = register_region va bytes (s1\<lparr>hdr := h2\<rparr>)
                   in if rc \<noteq> 0 then
                        Some (-1, pmm_free_pages phys pages
                                    (s2\<lparr>hdr := (hdr s2)(tail := (hdr s2 tail)\<lparr>blk_next := 0\<rparr>)\<rparr>))
                      else Some (0, s2)))"

section \<open>Allocation\<close>

text \<open>The search loop of \<open>kmalloc\<close>: the first free block that is large enough, 0 when there is none.\<close>

partial_function (option) find_fit :: "(u64 \<Rightarrow> block_header) \<Rightarrow> u64 \<Rightarrow> u64 \<Rightarrow> u64 option" where
  "find_fit h req current =
    (if current = 0 then Some 0
     else if blk_is_free (h current) \<noteq> 0 \<and> req \<le> blk_size (h current) then Some current
     else find_fit h req (blk_next (h current)))"

text \<open>Splitting and marking the block that was found.\<close>

definition take_block :: "u64 \<Rightarrow> u64 \<Rightarrow> (u64 \<Rightarrow> block_header) \<Rightarrow> u64 \<Rightarrow> block_header" where
  "take_block current req h =
    (let remaining = blk_size (h current) - req;
         h1 = (if BLOCK_HEADER_SIZE + HEAP_MIN_BLOCK_SIZE < remaining then
                 let new_block = current + BLOCK_HEADER_SIZE + req;
                     h' = h(new_block := free_header (remaining - BLOCK_HEADER_SIZE) (blk_next (h current)))
                 in h'(current := (h' current)\<lparr>blk_size := req, blk_next := new_block\<rparr>)
               else h)
     in h1(current := (h1 current)\<lparr>blk_is_free := 0, blk_magic := BLOCK_MAGIC_ALLOC\<rparr>))"

fun kmalloc_attempts :: "nat \<Rightarrow> u64 \<Rightarrow> 'a heap_scheme \<Rightarrow> (u64 \<times> 'a heap_scheme) option" where
  "kmalloc_attempts 0 req s = Some (0, s)"
| "kmalloc_attempts (Suc n) req s =
    (case find_fit (hdr s) req (heap_head s) of
       None \<Rightarrow> None
     | Some current \<Rightarrow>
        if current \<noteq> 0 then
          Some (current + BLOCK_HEADER_SIZE, s\<lparr>hdr := take_block current req (hdr s)\<rparr>)
        else case heap_expand req s of
               None \<Rightarrow> None
             | Some (rc, s1) \<Rightarrow> if rc \<noteq> 0 then Some (0, s1) else kmalloc_attempts n req s1)"

definition kmalloc :: "u64 \<Rightarrow> 'a heap_scheme \<Rightarrow> (u64 \<times> 'a heap_scheme) option" where
  "kmalloc req s =
    (if req = 0 then Some (0, s)
     else if req > NOT 0 - (16 - 1) then Some (0, s)
     else kmalloc_attempts 2 (HEAP_ALIGN_UP req) s)"

section \<open>Release\<close>

text \<open>
  The two nested loops of \<open>kfree\<close>: while the current block and its successor are
  free and adjacent they are merged and the current block is looked at again.
\<close>

partial_function (option) coalesce :: "(u64 \<Rightarrow> block_header) \<Rightarrow> u64 \<Rightarrow> (u64 \<Rightarrow> block_header) option" where
  "coalesce h current =
    (if current = 0 then Some h
     else let nxt = blk_next (h current) in
       if blk_is_free (h current) \<noteq> 0 \<and> nxt \<noteq> 0 \<and> blk_is_free (h nxt) \<noteq> 0 \<and>
          current + BLOCK_HEADER_SIZE + blk_size (h current) = nxt
       then coalesce (h(current := (h current)
              \<lparr>blk_size := blk_size (h current) + (BLOCK_HEADER_SIZE + blk_size (h nxt)),
               blk_next := blk_next (h nxt)\<rparr>)) current
       else coalesce h nxt)"

definition kfree :: "u64 \<Rightarrow> 'a heap_scheme \<Rightarrow> 'a heap_scheme option" where
  "kfree ptr s =
    (if ptr = 0 then Some s
     else let block = ptr - BLOCK_HEADER_SIZE in
       if \<not> addr_in_any_region s block then Some s
       else if blk_magic (hdr s block) \<noteq> BLOCK_MAGIC_ALLOC then Some s
       else if blk_is_free (hdr s block) \<noteq> 0 then Some s
       else case coalesce ((hdr s)(block := (hdr s block)
                   \<lparr>blk_is_free := 1, blk_magic := BLOCK_MAGIC_FREE\<rparr>)) (heap_head s) of
              None \<Rightarrow> None
            | Some h \<Rightarrow> Some (s\<lparr>hdr := h\<rparr>))"

section \<open>Statistics\<close>

partial_function (option) sum_blocks ::
  "(block_header \<Rightarrow> bool) \<Rightarrow> (u64 \<Rightarrow> block_header) \<Rightarrow> u64 \<Rightarrow> u64 \<Rightarrow> u64 option" where
  "sum_blocks sel h c tot =
    (if c = 0 then Some tot
     else sum_blocks sel h (blk_next (h c)) (if sel (h c) then tot + blk_size (h c) else tot))"

definition heap_used_bytes :: "'a heap_scheme \<Rightarrow> u64 option" where
  "heap_used_bytes s = sum_blocks (\<lambda>b. blk_is_free b = 0) (hdr s) (heap_head s) 0"

definition heap_free_bytes :: "'a heap_scheme \<Rightarrow> u64 option" where
  "heap_free_bytes s = sum_blocks (\<lambda>b. blk_is_free b \<noteq> 0) (hdr s) (heap_head s) 0"

definition heap_total_bytes :: "'a heap_scheme \<Rightarrow> u64" where
  "heap_total_bytes s = fold (\<lambda>r tot. tot + size_bytes r) (regions s) 0"


section \<open>The abstract heap\<close>

text \<open>A block is its header address, its payload size and whether it is free.\<close>

type_synonym ablock = "u64 \<times> u64 \<times> bool"

fun alloc_blocks :: "u64 \<Rightarrow> ablock list \<Rightarrow> (u64 \<times> ablock list) option" where
  "alloc_blocks n [] = None"
| "alloc_blocks n ((a, sz, f) # bs) =
    (if f \<and> n \<le> sz then
       Some (a, if 64 < sz - n then (a, n, False) # (a + 32 + n, sz - n - 32, True) # bs
                else (a, sz, False) # bs)
     else map_option (\<lambda>(p, bs'). (p, (a, sz, f) # bs')) (alloc_blocks n bs))"

function merge_blocks :: "ablock list \<Rightarrow> ablock list" where
  "merge_blocks [] = []"
| "merge_blocks [b] = [b]"
| "merge_blocks ((a, sz, f) # (b, tz, g) # bs) =
    (if f \<and> g \<and> a + 32 + sz = b then merge_blocks ((a, sz + (32 + tz), True) # bs)
     else (a, sz, f) # merge_blocks ((b, tz, g) # bs))"
  by pat_completeness auto
termination by (relation "measure length") auto

definition free_block :: "u64 \<Rightarrow> ablock list \<Rightarrow> ablock list" where
  "free_block a bs = map (\<lambda>(b, sz, f). (b, sz, f \<or> b = a)) bs"

definition addrs :: "ablock list \<Rightarrow> u64 list" where
  "addrs bs = map fst bs"

text \<open>The block list in memory: headers agree with the blocks and are linked in order.\<close>

definition hdr_state :: "block_header \<Rightarrow> bool \<Rightarrow> bool" where
  "hdr_state b f \<longleftrightarrow> (if f then blk_is_free b = 1 \<and> blk_magic b = BLOCK_MAGIC_FREE
                       else blk_is_free b = 0 \<and> blk_magic b = BLOCK_MAGIC_ALLOC)"

fun hlist :: "(u64 \<Rightarrow> block_header) \<Rightarrow> u64 \<Rightarrow> ablock list \<Rightarrow> bool" where
  "hlist h p [] \<longleftrightarrow> p = 0"
| "hlist h p ((a, sz, f) # bs) \<longleftrightarrow>
    p = a \<and> a \<noteq> 0 \<and> blk_size (h a) = sz \<and> hdr_state (h a) f \<and> hlist h (blk_next (h a)) bs"

text \<open>The bytes a block covers, header included.\<close>

definition extent :: "ablock \<Rightarrow> nat set" where
  "extent b = {unat (fst b)..<unat (fst b) + 32 + unat (fst (snd b))}"

definition block_ok :: "ablock \<Rightarrow> bool" where
  "block_ok b \<longleftrightarrow> 16 dvd unat (fst b) \<and> 16 dvd unat (fst (snd b)) \<and>
     unat (fst b) + 32 + unat (fst (snd b)) < 2 ^ 64"

definition blocks_ok :: "ablock list \<Rightarrow> bool" where
  "blocks_ok bs \<longleftrightarrow> list_all block_ok bs \<and> sorted_wrt (\<lambda>x y. extent x \<inter> extent y = {}) bs"

definition cover :: "ablock list \<Rightarrow> nat set" where
  "cover bs = \<Union> (extent ` set bs)"

text \<open>The live allocations: payload address and size.\<close>

definition live :: "ablock list \<Rightarrow> (u64 \<times> u64) set" where
  "live bs = {(a + 32, sz) | a sz. (a, sz, False) \<in> set bs}"

text \<open>No two neighbours in the list are free and adjacent.\<close>

fun merged :: "ablock list \<Rightarrow> bool" where
  "merged ((a, sz, f) # (b, tz, g) # bs) \<longleftrightarrow>
    \<not> (f \<and> g \<and> a + 32 + sz = b) \<and> merged ((b, tz, g) # bs)"
| "merged _ \<longleftrightarrow> True"

definition region_span :: "heap_region \<Rightarrow> nat set" where
  "region_span r = {unat (va_start r)..<unat (va_start r) + unat (size_bytes r)}"

text \<open>
  The invariant of the heap, relative to the block list it represents: the
  blocks tile the registered regions exactly, the regions are disjoint runs of
  pages owned from the page allocator, and an address inside a region carries
  the allocated magic only if it heads an allocated block.
\<close>

definition heap_rep :: "'a heap_scheme \<Rightarrow> ablock list \<Rightarrow> bool" where
  "heap_rep s bs \<longleftrightarrow>
     pmm_inv s \<and> hlist (hdr s) (heap_head s) bs \<and> blocks_ok bs \<and>
     cover bs = \<Union> (region_span ` set (regions s)) \<and>
     length (regions s) \<le> HEAP_MAX_REGIONS \<and>
     sorted_wrt (\<lambda>r q. region_span r \<inter> region_span q = {}) (regions s) \<and>
     (\<forall>r \<in> set (regions s). unat (va_start r) + unat (size_bytes r) < 2 ^ 64 \<and>
        2 ^ 64 - 2 ^ 48 \<le> unat (va_start r) \<and>
        (\<lambda>n. n - (2 ^ 64 - 2 ^ 48)) ` region_span r \<subseteq> owned_bytes s - reserved_bytes s) \<and>
     (\<forall>a. addr_in_any_region s a \<longrightarrow> blk_magic (hdr s a) = BLOCK_MAGIC_ALLOC \<longrightarrow> a \<in> set (addrs bs))"

section \<open>Blocks\<close>

lemma header_size [simp]: "BLOCK_HEADER_SIZE = 32"
  by (simp add: BLOCK_HEADER_SIZE_def HEAP_ALIGN_UP_def)

lemma hlist_upd: "a \<notin> set (addrs bs) \<Longrightarrow> hlist (h(a := x)) p bs = hlist h p bs"
  by (induction h p bs rule: hlist.induct) (auto simp: addrs_def)

lemma hlist_cong:
  "(\<And>a. a \<in> set (addrs bs) \<Longrightarrow> h a = h' a) \<Longrightarrow> hlist h p bs = hlist h' p bs"
  by (induction h p bs rule: hlist.induct) (auto simp: addrs_def)

lemma hlist_nonzero: "hlist h p bs \<Longrightarrow> 0 \<notin> set (addrs bs)"
  by (induction h p bs rule: hlist.induct) (auto simp: addrs_def)

lemma hlist_head: "hlist h p (b # bs) \<Longrightarrow> p = fst b"
  by (cases b) simp

lemma hlist_mem:
  "hlist h p bs \<Longrightarrow> (a, sz, f) \<in> set bs \<Longrightarrow> blk_size (h a) = sz \<and> hdr_state (h a) f"
  by (induction h p bs rule: hlist.induct) auto

lemma extent_nonempty: "unat (fst b) \<in> extent b"
  by (simp add: extent_def)

lemma addrs_simps [simp]: "addrs [] = []" "addrs (b # bs) = fst b # addrs bs" "addrs (bs @ cs) = addrs bs @ addrs cs"
  by (simp_all add: addrs_def)

lemma blocks_ok_Cons:
  "blocks_ok (b # bs) \<longleftrightarrow> block_ok b \<and> extent b \<inter> cover bs = {} \<and> blocks_ok bs"
  by (auto simp: blocks_ok_def cover_def)

lemma blocks_ok_distinct: "blocks_ok bs \<Longrightarrow> distinct (addrs bs)"
proof (induction bs)
  case (Cons b bs)
  have "unat (fst c) \<in> cover bs" if "c \<in> set bs" for c
    using that extent_nonempty [of c] by (auto simp: cover_def)
  then have "fst b \<notin> set (addrs bs)"
    using Cons.prems extent_nonempty [of b] by (fastforce simp: blocks_ok_Cons addrs_def)
  then show ?case using Cons by (simp add: blocks_ok_Cons)
qed simp

lemma addr_in_cover: "a \<in> set (addrs bs) \<Longrightarrow> unat a \<in> cover bs"
  using extent_nonempty by (fastforce simp: addrs_def cover_def)

lemma cover_simps [simp]: "cover [] = {}" "cover (b # bs) = extent b \<union> cover bs"
  "cover (bs @ cs) = cover bs \<union> cover cs"
  by (auto simp: cover_def)


lemma live_simps [simp]: "live [] = {}"
  "live ((a, sz, f) # bs) = (if f then live bs else insert (a + 32, sz) (live bs))"
  "live (bs @ cs) = live bs \<union> live cs"
  by (auto simp: live_def)

section \<open>Allocation refines first fit on blocks\<close>

lemma find_fit_alloc:
  "hlist h p bs \<Longrightarrow>
   find_fit h n p = Some (case alloc_blocks n bs of None \<Rightarrow> 0 | Some (a, bs') \<Rightarrow> a)"
proof (induction h p bs rule: hlist.induct)
  case (1 h p)
  then show ?case by (simp add: find_fit.simps)
next
  case (2 h p a sz f bs)
  then have "blk_is_free (h a) \<noteq> 0 \<longleftrightarrow> f"
    by (auto simp: hdr_state_def split: if_splits)
  then show ?case
    using 2 by (subst find_fit.simps) (auto split: option.splits)
qed

lemma split_sizes:
  fixes a n sz :: u64
  assumes ok: "block_ok (a, sz, f)" and n: "n \<le> sz" "64 < sz - n" "16 dvd unat n"
  shows "unat (a + 32 + n) = unat a + 32 + unat n" "unat (sz - n - 32) = unat sz - unat n - 32"
    "unat n + 64 < unat sz" "block_ok (a, n, False)" "block_ok (a + 32 + n, sz - n - 32, True)"
    "extent (a, sz, f) = extent (a, n, False) \<union> extent (a + 32 + n, sz - n - 32, True)"
    "extent (a, n, False) \<inter> extent (a + 32 + n, sz - n - 32, True) = {}"
proof -
  have le: "unat n \<le> unat sz" using n(1) by (simp add: word_le_nat_alt)
  then have d: "unat (sz - n) = unat sz - unat n" by (rule unat_minus_64)
  then show lt: "unat n + 64 < unat sz" using n(2) by (simp add: word_less_nat_alt)
  have top: "unat a + 32 + unat sz < 2 ^ 64" using ok by (simp add: block_ok_def)
  have a32: "unat (a + 32) = unat a + 32" using top by (subst unat_plus_64) simp_all
  show e1: "unat (a + 32 + n) = unat a + 32 + unat n"
    using top le by (subst unat_plus_64) (simp_all add: a32)
  show e2: "unat (sz - n - 32) = unat sz - unat n - 32"
    using lt by (subst unat_minus_64) (simp_all add: d)
  show "block_ok (a, n, False)" using ok le n(3) by (simp add: block_ok_def)
  have "16 dvd unat sz - unat n - 32"
    using ok n(3) by (intro dvd_diff_nat) (auto simp: block_ok_def)
  then show "block_ok (a + 32 + n, sz - n - 32, True)"
    using ok lt n(3) unfolding block_ok_def by (simp add: e1 e2)
  show "extent (a, sz, f) = extent (a, n, False) \<union> extent (a + 32 + n, sz - n - 32, True)"
    "extent (a, n, False) \<inter> extent (a + 32 + n, sz - n - 32, True) = {}"
    using lt by (auto simp: extent_def e1 e2)
qed

lemma alloc_blocks_spec:
  assumes "blocks_ok bs" "alloc_blocks n bs = Some (a, bs')" "16 dvd unat n"
  shows "blocks_ok bs' \<and> cover bs' = cover bs \<and> set (addrs bs) \<subseteq> set (addrs bs') \<and>
    (\<exists>sz sz'. (a, sz, True) \<in> set bs \<and> n \<le> sz \<and> (a, sz', False) \<in> set bs' \<and> n \<le> sz' \<and> sz' \<le> sz \<and>
      live bs' = insert (a + 32, sz') (live bs) \<and>
      set (addrs bs') \<subseteq> insert (a + 32 + n) (set (addrs bs)) \<and>
      (64 < sz - n \<longrightarrow> a + 32 + n \<notin> set (addrs bs)))"
  using assms
proof (induction n bs arbitrary: a bs' rule: alloc_blocks.induct)
  case (2 n b sz f bs)
  show ?case
  proof (cases "f \<and> n \<le> sz")
    case fit: True
    note ok = "2.prems"(1) [unfolded blocks_ok_Cons]
    show ?thesis
    proof (cases "64 < sz - n")
      case True
      note sp = split_sizes [OF conjunct1 [OF ok] conjunct2 [OF fit] True "2.prems"(3)]
      have res: "a = b" "bs' = (b, n, False) # (b + 32 + n, sz - n - 32, True) # bs"
        using "2.prems"(2) fit True by auto
      have "unat (b + 32 + n) \<in> extent (b, sz, f)"
        unfolding sp(6) using extent_nonempty [of "(b + 32 + n, sz - n - 32, True)"] by simp
      then have "b + 32 + n \<notin> set (addrs bs)"
        using ok addr_in_cover by blast
      moreover have "b + 32 + n \<noteq> b" using sp(1) by (metis add_eq_self_zero add.assoc add_is_0 zero_neq_numeral)
      ultimately show ?thesis
        unfolding res using ok sp fit by (intro conjI exI [of _ sz] exI [of _ n]) (auto simp: blocks_ok_Cons)
    next
      case False
      have res: "a = b" "bs' = (b, sz, False) # bs"
        using "2.prems"(2) fit False by auto
      have "block_ok (b, sz, False)" "extent (b, sz, False) = extent (b, sz, f)"
        using ok by (simp_all add: block_ok_def extent_def)
      then show ?thesis
        unfolding res using ok fit False by (intro conjI exI [of _ sz]) (auto simp: blocks_ok_Cons)
    qed
  next
    case False
    then obtain cs where cs: "alloc_blocks n bs = Some (a, cs)" "bs' = (b, sz, f) # cs"
      using "2.prems"(2) by auto
    have bs: "blocks_ok bs" "block_ok (b, sz, f)" "extent (b, sz, f) \<inter> cover bs = {}"
      using "2.prems"(1) by (auto simp: blocks_ok_Cons)
    from "2.IH" [OF False bs(1) cs(1) "2.prems"(3)] obtain tz tz' where
      IH: "blocks_ok cs" "cover cs = cover bs" "set (addrs bs) \<subseteq> set (addrs cs)"
        "(a, tz, True) \<in> set bs" "n \<le> tz" "(a, tz', False) \<in> set cs" "n \<le> tz'" "tz' \<le> tz"
        "live cs = insert (a + 32, tz') (live bs)"
        "set (addrs cs) \<subseteq> insert (a + 32 + n) (set (addrs bs))"
        "64 < tz - n \<longrightarrow> a + 32 + n \<notin> set (addrs bs)" by auto
    have ne: "a + 32 + n \<noteq> b" if "64 < tz - n"
    proof -
      have "block_ok (a, tz, True)" using bs(1) IH(4) by (auto simp: blocks_ok_def list_all_iff)
      then have "unat (a + 32 + n) \<in> extent (a, tz, True)"
        using split_sizes(6) [of a tz True n] IH(5) that "2.prems"(3)
          extent_nonempty [of "(a + 32 + n, tz - n - 32, True)"] by auto
      then have "unat (a + 32 + n) \<in> cover bs" using IH(4) by (auto simp: cover_def)
      then show ?thesis using bs(3) extent_nonempty [of "(b, sz, f)"] by auto
    qed
    have lv: "live bs' = insert (a + 32, tz') (live ((b, sz, f) # bs))"
      using IH(9) unfolding cs(2) by auto
    have "blocks_ok bs'" "cover bs' = cover ((b, sz, f) # bs)"
      using IH(1,2) bs cs(2) by (simp_all add: blocks_ok_Cons)
    moreover have "set (addrs ((b, sz, f) # bs)) \<subseteq> set (addrs bs')"
      "set (addrs bs') \<subseteq> insert (a + 32 + n) (set (addrs ((b, sz, f) # bs)))"
      using IH(3,10) unfolding cs(2) by auto
    moreover have "(a, tz, True) \<in> set ((b, sz, f) # bs)" "(a, tz', False) \<in> set bs'"
      using IH(4,6) unfolding cs(2) by auto
    moreover have "64 < tz - n \<longrightarrow> a + 32 + n \<notin> set (addrs ((b, sz, f) # bs))"
      using IH(11) ne by simp
    ultimately show ?thesis
      using IH(5,7,8) lv by blast
  qed
qed simp


lemma take_block_other:
  "b \<noteq> a \<Longrightarrow> b \<noteq> a + 32 + n \<Longrightarrow> take_block a n h b = h b"
  by (simp add: take_block_def Let_def)

lemma take_block_nosplit:
  "\<not> 64 < blk_size (h a) - n \<Longrightarrow> b \<noteq> a \<Longrightarrow> take_block a n h b = h b"
  by (simp add: take_block_def Let_def)

lemma take_block_magic:
  "blk_magic (take_block a n h b) = BLOCK_MAGIC_ALLOC \<Longrightarrow> b = a \<or> blk_magic (h b) = BLOCK_MAGIC_ALLOC"
  by (auto simp: take_block_def Let_def free_header_def split: if_splits)

lemma hlist_take_block:
  assumes "hlist h p bs" "distinct (addrs bs)" "alloc_blocks n bs = Some (a, bs')"
    "64 < blk_size (h a) - n \<Longrightarrow> a + 32 + n \<notin> insert 0 (set (addrs bs))"
  shows "hlist (take_block a n h) p bs'"
  using assms
proof (induction h p bs arbitrary: bs' rule: hlist.induct)
  case (2 h p b sz f bs)
  have h: "p = b" "b \<noteq> 0" "blk_size (h b) = sz" "hdr_state (h b) f" "hlist h (blk_next (h b)) bs"
    "b \<notin> set (addrs bs)" "distinct (addrs bs)"
    using "2.prems"(1,2) by auto
  show ?case
  proof (cases "f \<and> n \<le> sz")
    case True
    then have a: "a = b" using "2.prems"(3) by auto
    show ?thesis
    proof (cases "64 < sz - n")
      case split: True
      then have nb: "b + 32 + n \<notin> insert 0 (set (addrs ((b, sz, f) # bs)))"
        using "2.prems"(4) a h(3) by simp
      have "bs' = (b, n, False) # (b + 32 + n, sz - n - 32, True) # bs"
        using "2.prems"(3) True split by auto
      moreover have "hlist (take_block b n h) (blk_next (h b)) bs = hlist h (blk_next (h b)) bs"
        using h(6) nb by (intro hlist_cong) (auto intro!: take_block_other)
      moreover have "take_block b n h b = (h b)\<lparr>blk_size := n, blk_next := b + 32 + n,
          blk_is_free := 0, blk_magic := BLOCK_MAGIC_ALLOC\<rparr>"
        "take_block b n h (b + 32 + n) = free_header (sz - n - 32) (blk_next (h b))"
        using h(3) split nb by (simp_all add: take_block_def Let_def)
      ultimately show ?thesis
        using h nb unfolding a by (simp add: free_header_def hdr_state_def)
    next
      case nosplit: False
      have "bs' = (b, sz, False) # bs" using "2.prems"(3) True nosplit by auto
      moreover have "hlist (take_block b n h) (blk_next (h b)) bs = hlist h (blk_next (h b)) bs"
        using h(3,6) nosplit by (intro hlist_cong) (auto intro!: take_block_nosplit)
      moreover have "take_block b n h b = (h b)\<lparr>blk_is_free := 0, blk_magic := BLOCK_MAGIC_ALLOC\<rparr>"
        using h(3) nosplit by (simp add: take_block_def Let_def)
      ultimately show ?thesis
        using h unfolding a by (simp add: hdr_state_def)
    qed
  next
    case False
    then obtain cs where cs: "alloc_blocks n bs = Some (a, cs)" "bs' = (b, sz, f) # cs"
      using "2.prems"(3) by auto
    have "a \<in> set (addrs bs)"
      using cs(1) by (induction n bs arbitrary: cs rule: alloc_blocks.induct) (auto split: if_splits)
    then have ne: "b \<noteq> a" using h(6) by auto
    have same: "take_block a n h b = h b"
    proof (cases "64 < blk_size (h a) - n")
      case True
      then have "b \<noteq> a + 32 + n" using "2.prems"(4) by auto
      then show ?thesis using ne by (rule take_block_other [rotated])
    next
      case False
      then show ?thesis using ne by (rule take_block_nosplit)
    qed
    have "hlist (take_block a n h) (blk_next (h b)) cs"
      using "2.prems"(4) h cs(1) by (intro "2.IH") auto
    then show ?thesis using h same unfolding cs(2) by simp
  qed
qed simp

section \<open>Coalescing refines merging of neighbours\<close>

lemma coalesce_merge:
  assumes "hlist h p bs" "distinct (addrs bs)"
  shows "\<exists>h'. coalesce h p = Some h' \<and> hlist h' p (merge_blocks bs) \<and>
    (\<forall>a. a \<notin> set (addrs bs) \<longrightarrow> h' a = h a) \<and> (\<forall>a. blk_magic (h' a) = blk_magic (h a))"
  using assms
proof (induction bs arbitrary: h p rule: merge_blocks.induct)
  case 1
  then show ?case by (simp add: coalesce.simps)
next
  case (2 b)
  then show ?case
    by (cases b) (auto simp: coalesce.simps [of h p] coalesce.simps [of h 0])
next
  case (3 a sz f b tz g bs)
  have h: "p = a" "a \<noteq> 0" "blk_size (h a) = sz" "hdr_state (h a) f" "blk_next (h a) = b" "b \<noteq> 0"
    "blk_size (h b) = tz" "hdr_state (h b) g" "hlist h (blk_next (h b)) bs"
    "a \<noteq> b" "a \<notin> set (addrs bs)" "b \<notin> set (addrs bs)" "distinct (addrs bs)"
    using "3.prems" by auto
  have fr: "blk_is_free (h a) \<noteq> 0 \<longleftrightarrow> f" "blk_is_free (h b) \<noteq> 0 \<longleftrightarrow> g"
    using h(4,8) by (auto simp: hdr_state_def split: if_splits)
  show ?case
  proof (cases "f \<and> g \<and> a + 32 + sz = b")
    case True
    let ?h = "h(a := (h a)\<lparr>blk_size := sz + (32 + tz), blk_next := blk_next (h b)\<rparr>)"
    have "hlist ?h a ((a, sz + (32 + tz), True) # bs)"
      using h True by (simp add: hlist_upd hdr_state_def)
    moreover have "distinct (addrs ((a, sz + (32 + tz), True) # bs))" using h by simp
    ultimately obtain h' where h': "coalesce ?h a = Some h'"
      "hlist h' a (merge_blocks ((a, sz + (32 + tz), True) # bs))"
      "\<forall>c. c \<notin> set (addrs ((a, sz + (32 + tz), True) # bs)) \<longrightarrow> h' c = ?h c"
      "\<forall>c. blk_magic (h' c) = blk_magic (?h c)"
      using "3.IH"(1) [OF True] by blast
    moreover have "coalesce h p = coalesce ?h a"
      using h fr True by (subst coalesce.simps) (simp add: Let_def)
    ultimately show ?thesis using True h(1) by auto
  next
    case False
    obtain h' where h': "coalesce h b = Some h'" "hlist h' b (merge_blocks ((b, tz, g) # bs))"
      "\<forall>c. c \<notin> set (addrs ((b, tz, g) # bs)) \<longrightarrow> h' c = h c" "\<forall>c. blk_magic (h' c) = blk_magic (h c)"
      using "3.IH"(2) [OF False, of h b] h by auto
    have "coalesce h p = coalesce h b"
      using h fr False by (subst coalesce.simps) (auto simp: Let_def)
    moreover have "h' a = h a" using h' h by auto
    ultimately show ?thesis
      using h' h False by auto
  qed
qed


lemma merge_head: "\<exists>tz' rest. merge_blocks ((b, tz, g) # bs) = (b, tz', g) # rest"
proof (induction "(b, tz, g) # bs" arbitrary: tz bs rule: merge_blocks.induct)
  case (3 sz c uz k cs)
  then show ?case by (cases "g \<and> k \<and> b + 32 + sz = c") auto
qed simp

lemma merged_merge_blocks: "merged (merge_blocks bs)"
proof (induction bs rule: merge_blocks.induct)
  case (3 a sz f b tz g bs)
  then show ?case
    using merge_head [of b tz g bs] by auto
qed simp_all

lemma join_sizes:
  fixes a sz tz b :: u64
  assumes "block_ok (a, sz, f)" "block_ok (b, tz, g)" "a + 32 + sz = b"
  shows "block_ok (a, sz + (32 + tz), k)" "extent (a, sz + (32 + tz), k) = extent (a, sz, f) \<union> extent (b, tz, g)"
proof -
  have top: "unat a + 32 + unat sz < 2 ^ 64" "unat b + 32 + unat tz < 2 ^ 64"
    using assms by (simp_all add: block_ok_def)
  have "unat (a + 32) = unat a + 32" using top by (subst unat_plus_64) simp_all
  then have b: "unat b = unat a + 32 + unat sz"
    using top unfolding assms(3) [symmetric] by (subst unat_plus_64) simp_all
  have "unat (32 + tz) = 32 + unat tz" using top by (subst unat_plus_64) simp_all
  then have s: "unat (sz + (32 + tz)) = unat sz + 32 + unat tz"
    using top b by (subst unat_plus_64) simp_all
  show "block_ok (a, sz + (32 + tz), k)"
    using assms(1,2) top b unfolding block_ok_def by (simp add: s)
  show "extent (a, sz + (32 + tz), k) = extent (a, sz, f) \<union> extent (b, tz, g)"
    by (auto simp: extent_def s b)
qed

lemma merge_blocks_spec:
  assumes "blocks_ok bs"
  shows "blocks_ok (merge_blocks bs) \<and> cover (merge_blocks bs) = cover bs \<and>
    live (merge_blocks bs) = live bs \<and> set (addrs (merge_blocks bs)) \<subseteq> set (addrs bs)"
  using assms
proof (induction bs rule: merge_blocks.induct)
  case (3 a sz f b tz g bs)
  have ok: "block_ok (a, sz, f)" "block_ok (b, tz, g)" "blocks_ok bs"
    "extent (a, sz, f) \<inter> extent (b, tz, g) = {}" "extent (a, sz, f) \<inter> cover bs = {}"
    "extent (b, tz, g) \<inter> cover bs = {}"
    using "3.prems" by (auto simp: blocks_ok_Cons)
  show ?case
  proof (cases "f \<and> g \<and> a + 32 + sz = b")
    case True
    note j = join_sizes [OF ok(1,2) conjunct2 [OF conjunct2 [OF True]]]
    have "blocks_ok ((a, sz + (32 + tz), True) # bs)"
      unfolding blocks_ok_Cons j(2) using j(1) ok by auto
    then show ?thesis
      using "3.IH"(1) [OF True] True j(2) [of True] by auto
  next
    case False
    have "blocks_ok ((b, tz, g) # bs)" using ok by (simp add: blocks_ok_Cons)
    note IH = "3.IH"(2) [OF False this]
    have eq: "merge_blocks ((a, sz, f) # (b, tz, g) # bs) = (a, sz, f) # merge_blocks ((b, tz, g) # bs)"
      using False by (subst merge_blocks.simps) (rule if_not_P)
    have "blocks_ok ((a, sz, f) # merge_blocks ((b, tz, g) # bs))"
      unfolding blocks_ok_Cons using IH ok by auto
    then show ?thesis
      unfolding eq using IH by (auto split: if_splits)
  qed
qed simp_all

lemma free_block_simps [simp]:
  "free_block a [] = []"
  "free_block a ((b, sz, f) # bs) = (b, sz, f \<or> b = a) # free_block a bs"
  by (simp_all add: free_block_def)

lemma free_block_addrs [simp]: "addrs (free_block a bs) = addrs bs"
  by (induction bs) (auto simp: free_block_def addrs_def)

lemma extent_flag: "extent (a, sz, f) = extent (a, sz, g)"
  by (simp add: extent_def)

lemma free_block_spec:
  "blocks_ok bs \<Longrightarrow> blocks_ok (free_block a bs) \<and> cover (free_block a bs) = cover bs"
proof (induction bs)
  case (Cons b bs)
  obtain c sz f where b: "b = (c, sz, f)" by (metis prod_cases3)
  have "extent (c, sz, f \<or> c = a) = extent b" "block_ok (c, sz, f \<or> c = a) = block_ok b"
    unfolding b by (simp_all add: extent_def block_ok_def)
  then show ?case using Cons unfolding b by (simp add: blocks_ok_Cons)
qed simp

lemma free_block_notin: "a \<notin> set (addrs bs) \<Longrightarrow> free_block a bs = bs"
  by (induction bs) (auto simp: addrs_def)

lemma live_addr: "(p, sz) \<in> live bs \<Longrightarrow> p - 32 \<in> set (addrs bs)"
  by (force simp: live_def addrs_def)

lemma live_free_block:
  "distinct (addrs bs) \<Longrightarrow> (a, sz, False) \<in> set bs \<Longrightarrow>
   live (free_block a bs) = live bs - {(a + 32, sz)}"
proof (induction bs)
  case (Cons b bs)
  obtain c tz f where b: "b = (c, tz, f)" by (metis prod_cases3)
  show ?case
  proof (cases "c = a")
    case True
    then have "a \<notin> set (addrs bs)" using Cons.prems b by simp
    then have "(a, sz, False) \<notin> set bs" "(a + 32, sz) \<notin> live bs"
      using live_addr [of "a + 32" sz bs] by (auto simp: addrs_def image_iff)
    then show ?thesis
      using Cons.prems True \<open>a \<notin> set (addrs bs)\<close> unfolding b by (auto simp: free_block_notin)
  next
    case False
    then have "live (free_block a bs) = live bs - {(a + 32, sz)}"
      using Cons b by simp
    then show ?thesis using False unfolding b by (simp add: insert_Diff_if)
  qed
qed simp

lemma hlist_free_block:
  "hlist h p bs \<Longrightarrow> distinct (addrs bs) \<Longrightarrow> a \<in> set (addrs bs) \<Longrightarrow>
   hlist (h(a := (h a)\<lparr>blk_is_free := 1, blk_magic := BLOCK_MAGIC_FREE\<rparr>)) p (free_block a bs)"
proof (induction h p bs rule: hlist.induct)
  case (2 h p b sz f bs)
  define t where "t = h(a := (h a)\<lparr>blk_is_free := 1, blk_magic := BLOCK_MAGIC_FREE\<rparr>)"
  have tb: "t b = (if b = a then (h a)\<lparr>blk_is_free := 1, blk_magic := BLOCK_MAGIC_FREE\<rparr> else h b)"
    by (simp add: t_def)
  have "hlist t (blk_next (h b)) (free_block a bs)"
  proof (cases "b = a")
    case True
    then show ?thesis using 2 by (simp add: t_def hlist_upd free_block_notin)
  next
    case False
    then show ?thesis
      unfolding t_def using "2.prems" by (intro "2.IH") simp_all
  qed
  then show ?case
    unfolding t_def [symmetric] using 2 tb by (auto simp: hdr_state_def)
qed simp


section \<open>Page allocator and heap state\<close>

lemma pmm_frame [simp]:
  fixes s :: "'a heap_scheme"
  shows "pmm_inv (s\<lparr>hdr := h\<rparr>) = pmm_inv s" "owned_bytes (s\<lparr>hdr := h\<rparr>) = owned_bytes s"
    "reserved_bytes (s\<lparr>hdr := h\<rparr>) = reserved_bytes s"
    "pmm_inv (s\<lparr>heap_head := a\<rparr>) = pmm_inv s" "owned_bytes (s\<lparr>heap_head := a\<rparr>) = owned_bytes s"
    "reserved_bytes (s\<lparr>heap_head := a\<rparr>) = reserved_bytes s"
    "pmm_inv (s\<lparr>regions := rs\<rparr>) = pmm_inv s" "owned_bytes (s\<lparr>regions := rs\<rparr>) = owned_bytes s"
    "reserved_bytes (s\<lparr>regions := rs\<rparr>) = reserved_bytes s"
  by (simp_all add: pmm_inv_def owned_bytes_def reserved_bytes_def page_bytes_def allocated_def
      npages_def page_used_def)

lemma heap_fields_more:
  fixes s t :: "'a heap_scheme"
  assumes "pmm.more s = pmm.more t"
  shows "hdr s = hdr t" "heap_head s = heap_head t" "regions s = regions t" "heap.more s = heap.more t"
  using assms by (cases s; cases t; simp)+

lemma pmm_free_pages_hdr:
  fixes s :: "'a heap_scheme"
  shows "pmm_free_pages p k (s\<lparr>hdr := h\<rparr>) = (pmm_free_pages p k s)\<lparr>hdr := h\<rparr>"
proof -
  have step: "pmm_free_page a (s\<lparr>hdr := h\<rparr>) = (pmm_free_page a s)\<lparr>hdr := h\<rparr>" for a and s :: "'a heap_scheme"
    by (simp add: pmm_free_page_def bitmap_test_def bitmap_clear_def Let_def)
  have "fold (\<lambda>i. pmm_free_page (p + of_nat i * PAGE_SIZE)) is (s\<lparr>hdr := h\<rparr>) =
      (fold (\<lambda>i. pmm_free_page (p + of_nat i * PAGE_SIZE)) is s)\<lparr>hdr := h\<rparr>" for "is"
    by (induction "is" arbitrary: s) (simp_all add: step)
  then show ?thesis by (simp add: pmm_free_pages_def)
qed

lemma pmm_alloc_facts:
  fixes s :: "'a heap_scheme"
  assumes inv: "pmm_inv s" and al: "pmm_allocate_pages k s = (p, s')" and p: "p \<noteq> 0"
  shows "unat p + 4096 * unat k < 2 ^ 48" "0 < unat k" "0 < unat p" "4096 dvd unat p"
    "pmm_inv s'" "owned_bytes s' = owned_bytes s \<union> span p k" "owned_bytes s \<inter> span p k = {}"
    "reserved_bytes s' = reserved_bytes s" "hdr s' = hdr s" "heap_head s' = heap_head s"
    "regions s' = regions s"
proof -
  obtain a where a: "p = page_addr s a" "s' = take_run a (unat k) s" "0 < unat k" "free_run s (unat k) a"
    using pmm_allocate_pages_result [OF inv al] p by auto
  have le: "a + unat k \<le> npages s" using a(4) by (simp add: free_run_def)
  have "unat p = unat (mem_region_start s) + 4096 * a"
    using unat_page_addr [OF inv, of a] le a(1) by simp
  moreover have "unat (mem_region_start s) + 4096 * npages s < 2 ^ 48"
    using inv by (simp add: pmm_inv_def)
  ultimately show "unat p + 4096 * unat k < 2 ^ 48" using le by linarith
  show "0 < unat k" by (rule a(3))
  show "0 < unat p" using p by (simp add: unat_gt_0)
  show "4096 dvd unat p" "pmm_inv s'" "owned_bytes s' = owned_bytes s \<union> span p k"
    "owned_bytes s \<inter> span p k = {}" "reserved_bytes s' = reserved_bytes s"
    using pmm.al_ok [OF inv al p] by auto
  have "pmm.more s' = pmm.more s" by (simp add: a(2))
  then show "hdr s' = hdr s" "heap_head s' = heap_head s" "regions s' = regions s"
    by (rule heap_fields_more)+
qed

lemma addr_in_any_region_iff:
  assumes "\<forall>r \<in> set (regions s). unat (va_start r) + unat (size_bytes r) < 2 ^ 64"
  shows "addr_in_any_region s a \<longleftrightarrow> unat a \<in> \<Union> (region_span ` set (regions s))"
proof -
  have "va_start r \<le> a \<and> a < va_start r + size_bytes r \<longleftrightarrow> unat a \<in> region_span r"
    if "r \<in> set (regions s)" for r
    using assms that unat_plus_64 [of "va_start r" "size_bytes r"]
    by (auto simp: region_span_def word_le_nat_alt word_less_nat_alt)
  then show ?thesis by (auto simp: addr_in_any_region_def list_ex_iff)
qed

lemma unat_phys_to_virt:
  assumes "unat p < 2 ^ 48"
  shows "unat (PHYS_TO_VIRT p) = unat p + (2 ^ 64 - 2 ^ 48)"
  unfolding PHYS_TO_VIRT_def using assms by (subst unat_plus_64) simp_all

lemma region_block:
  assumes b: "unat p + 4096 * unat k < 2 ^ 48" "4096 dvd unat p" "0 < unat k"
  defines "va \<equiv> PHYS_TO_VIRT p" and "bytes \<equiv> k * PAGE_SIZE"
  shows "unat bytes = 4096 * unat k" "unat va = unat p + (2 ^ 64 - 2 ^ 48)"
    "unat (bytes - 32) = 4096 * unat k - 32"
    "block_ok (va, bytes - 32, True)"
    "extent (va, bytes - 32, True) = region_span \<lparr>va_start = va, size_bytes = bytes\<rparr>"
    "(\<lambda>n. n - (2 ^ 64 - 2 ^ 48)) ` region_span \<lparr>va_start = va, size_bytes = bytes\<rparr> = span p k"
    "unat va + unat bytes < 2 ^ 64" "va \<noteq> 0"
    "va \<le> a \<and> a < va + bytes \<longleftrightarrow> unat a \<in> region_span \<lparr>va_start = va, size_bytes = bytes\<rparr>"
proof -
  show bt: "unat bytes = 4096 * unat k"
    unfolding bytes_def using b(1) by (subst unat_mult_64) simp_all
  show va: "unat va = unat p + (2 ^ 64 - 2 ^ 48)"
    unfolding va_def using b(1) by (intro unat_phys_to_virt) simp
  show sz: "unat (bytes - 32) = 4096 * unat k - 32"
    using bt b(3) by (subst unat_minus_64) simp_all
  show top: "unat va + unat bytes < 2 ^ 64" using b(1) by (simp add: va bt)
  obtain u where u: "unat p = 4096 * u" using b(2) by auto
  have "16 dvd unat va" "16 dvd unat (bytes - 32)"
    unfolding va sz u by (auto intro!: dvd_add dvd_diff_nat)
  then show "block_ok (va, bytes - 32, True)"
    using b(3) top by (simp add: block_ok_def sz bt)
  show "extent (va, bytes - 32, True) = region_span \<lparr>va_start = va, size_bytes = bytes\<rparr>"
    using b(3) by (simp add: extent_def region_span_def sz bt)
  show "(\<lambda>n. n - (2 ^ 64 - 2 ^ 48)) ` region_span \<lparr>va_start = va, size_bytes = bytes\<rparr> = span p k"
  proof -
    have "region_span \<lparr>va_start = va, size_bytes = bytes\<rparr> = (\<lambda>n. n + (2 ^ 64 - 2 ^ 48)) ` span p k"
      by (simp only: region_span_def span_def heap_region.simps va bt image_add_atLeastLessThan')
         (simp add: algebra_simps)
    then show ?thesis by (simp only: image_image diff_add_inverse2 image_ident)
  qed
  show "va \<noteq> 0" using va by auto
  show "va \<le> a \<and> a < va + bytes \<longleftrightarrow> unat a \<in> region_span \<lparr>va_start = va, size_bytes = bytes\<rparr>"
    using unat_plus_64 [OF top] by (auto simp: region_span_def word_le_nat_alt word_less_nat_alt)
qed


section \<open>Growing the heap\<close>

lemma heap_repD:
  assumes "heap_rep s bs"
  shows "pmm_inv s" "hlist (hdr s) (heap_head s) bs" "blocks_ok bs"
    "cover bs = \<Union> (region_span ` set (regions s))" "length (regions s) \<le> HEAP_MAX_REGIONS"
    "sorted_wrt (\<lambda>r q. region_span r \<inter> region_span q = {}) (regions s)"
    "\<forall>r \<in> set (regions s). unat (va_start r) + unat (size_bytes r) < 2 ^ 64"
    "\<forall>r \<in> set (regions s). (\<lambda>n. n - (2 ^ 64 - 2 ^ 48)) ` region_span r \<subseteq> owned_bytes s - reserved_bytes s"
    "\<forall>a. addr_in_any_region s a \<longrightarrow> blk_magic (hdr s a) = BLOCK_MAGIC_ALLOC \<longrightarrow> a \<in> set (addrs bs)"
    "\<forall>r \<in> set (regions s). 2 ^ 64 - 2 ^ 48 \<le> unat (va_start r)"
  using assms by (simp_all add: heap_rep_def)

lemma new_region_disjoint:
  assumes rep: "heap_rep s bs" and p: "owned_bytes s \<inter> span p k = {}"
    and b: "unat p + 4096 * unat k < 2 ^ 48" "4096 dvd unat p" "0 < unat k"
  shows "cover bs \<inter> region_span \<lparr>va_start = PHYS_TO_VIRT p, size_bytes = k * PAGE_SIZE\<rparr> = {}"
    "r \<in> set (regions s) \<Longrightarrow>
      region_span r \<inter> region_span \<lparr>va_start = PHYS_TO_VIRT p, size_bytes = k * PAGE_SIZE\<rparr> = {}"
proof -
  note reg = region_block(6) [OF b]
  show dis: "region_span r \<inter> region_span \<lparr>va_start = PHYS_TO_VIRT p, size_bytes = k * PAGE_SIZE\<rparr> = {}"
    if "r \<in> set (regions s)" for r
  proof (rule equals0I)
    fix x assume x: "x \<in> region_span r \<inter> region_span \<lparr>va_start = PHYS_TO_VIRT p, size_bytes = k * PAGE_SIZE\<rparr>"
    then have "x - (2 ^ 64 - 2 ^ 48) \<in> owned_bytes s" using heap_repD(8) [OF rep] that by blast
    moreover have "x - (2 ^ 64 - 2 ^ 48) \<in> span p k" using x reg by blast
    ultimately show False using p by blast
  qed
  show "cover bs \<inter> region_span \<lparr>va_start = PHYS_TO_VIRT p, size_bytes = k * PAGE_SIZE\<rparr> = {}"
    unfolding heap_repD(4) [OF rep] using dis by blast
qed

lemma add_region_rep:
  fixes s :: "'a heap_scheme"
  defines "region \<equiv> \<lambda>p k. \<lparr>va_start = PHYS_TO_VIRT p, size_bytes = k * PAGE_SIZE\<rparr>"
  assumes rep: "heap_rep s bs" and al: "pmm_allocate_pages k s = (p, s1)" "p \<noteq> 0"
    and room: "length (regions s) < HEAP_MAX_REGIONS"
    and hl: "hlist h x (bs @ [(PHYS_TO_VIRT p, k * PAGE_SIZE - 32, True)])"
    and mg: "\<And>a. blk_magic (h a) = BLOCK_MAGIC_ALLOC \<Longrightarrow>
      a \<in> set (addrs bs) \<or> blk_magic (hdr s a) = BLOCK_MAGIC_ALLOC \<and> unat a \<notin> region_span (region p k)"
  shows "heap_rep (s1\<lparr>hdr := h, heap_head := x, regions := regions s @ [region p k]\<rparr>)
    (bs @ [(PHYS_TO_VIRT p, k * PAGE_SIZE - 32, True)])"
proof -
  note rd = heap_repD [OF rep]
  note f = pmm_alloc_facts [OF rd(1) al]
  note rb = region_block [OF f(1,4,2)]
  note nd = new_region_disjoint [OF rep f(7,1,4,2)]
  let ?s = "s1\<lparr>hdr := h, heap_head := x, regions := regions s @ [region p k]\<rparr>"
  let ?b = "(PHYS_TO_VIRT p, k * PAGE_SIZE - 32, True)"
  have "blocks_ok (bs @ [?b])"
    using rd(3) rb(4) nd(1) rb(5) unfolding blocks_ok_def region_def
    by (auto simp: sorted_wrt_append cover_def)
  moreover have "cover (bs @ [?b]) = \<Union> (region_span ` set (regions ?s))"
    using rd(4) rb(5) by (simp add: region_def Un_commute)
  moreover have "sorted_wrt (\<lambda>r q. region_span r \<inter> region_span q = {}) (regions ?s)"
    using rd(6) nd(2) by (simp add: sorted_wrt_append region_def)
  moreover have bnd: "\<forall>r \<in> set (regions ?s). unat (va_start r) + unat (size_bytes r) < 2 ^ 64 \<and>
        2 ^ 64 - 2 ^ 48 \<le> unat (va_start r)"
    using rd(7,10) rb(7,2) by (auto simp: region_def)
  moreover have "(\<lambda>n. n - (2 ^ 64 - 2 ^ 48)) ` region_span r \<subseteq> owned_bytes ?s - reserved_bytes ?s"
    if "r \<in> set (regions ?s)" for r
  proof (cases "r \<in> set (regions s)")
    case True
    then show ?thesis using rd(8) f(6,8) by auto
  next
    case False
    then have r: "r = region p k" using that by simp
    have "reserved_bytes s \<inter> span p k = {}" using pmm.pinned_owned [OF rd(1)] f(7) by blast
    then show ?thesis unfolding r region_def rb(6) using f(6,8) by auto
  qed
  moreover have "a \<in> set (addrs (bs @ [?b]))"
    if a: "addr_in_any_region ?s a" "blk_magic (hdr ?s a) = BLOCK_MAGIC_ALLOC" for a
  proof -
    have "unat a \<in> \<Union> (region_span ` set (regions s)) \<or> unat a \<in> region_span (region p k)"
      using a(1) bnd by (subst (asm) addr_in_any_region_iff) auto
    then show ?thesis
      using mg [of a] a(2) rd(7,9) addr_in_any_region_iff [of s a] by auto
  qed
  ultimately show ?thesis
    unfolding heap_rep_def using f(5) hl room by auto
qed

lemma heap_tail_last:
  "hlist h p bs \<Longrightarrow> bs \<noteq> [] \<Longrightarrow> heap_tail h p = Some (fst (last bs)) \<and> blk_next (h (fst (last bs))) = 0"
proof (induction h p bs rule: hlist.induct)
  case (2 h p a sz f bs)
  then show ?case
    by (cases bs) (auto simp: heap_tail.simps [of h a])
qed simp

lemma hlist_append:
  assumes "hlist h p bs" "bs \<noteq> []" "distinct (addrs bs)" "v \<noteq> 0" "v \<notin> set (addrs bs)" "h v = free_header sz 0"
  shows "hlist (h(fst (last bs) := (h (fst (last bs)))\<lparr>blk_next := v\<rparr>)) p (bs @ [(v, sz, True)])"
  using assms
proof (induction h p bs rule: hlist.induct)
  case (2 h p a tz f bs)
  define t where "t = h(fst (last ((a, tz, f) # bs)) := (h (fst (last ((a, tz, f) # bs))))\<lparr>blk_next := v\<rparr>)"
  show ?case
  proof (cases "bs = []")
    case True
    have "t v = free_header sz 0" "t a = (h a)\<lparr>blk_next := v\<rparr>"
      using 2 True by (simp_all add: t_def)
    then show ?thesis
      unfolding t_def [symmetric] using 2 True by (simp add: hdr_state_def free_header_def)
  next
    case False
    have l: "fst (last ((a, tz, f) # bs)) = fst (last bs)" using False by simp
    have "fst (last bs) \<in> set (addrs bs)" using False by (simp add: addrs_def)
    then have ta: "t a = h a" using 2 False by (auto simp: t_def)
    have "hlist t (blk_next (h a)) (bs @ [(v, sz, True)])"
      unfolding t_def l using 2 False by (intro "2.IH") simp_all
    then show ?thesis
      unfolding t_def [symmetric] using 2 ta by simp
  qed
qed simp


lemma zero_range_cases:
  "zero_range va bytes h a = h a \<or> blk_magic (zero_range va bytes h a) = 0"
  by (simp add: zero_range_def)

lemma heap_init_rep:
  fixes s :: "'a heap_scheme"
  assumes "pmm_inv s" "regions s = []" "heap_head s = 0"
  shows "\<exists>bs. heap_rep (heap_init s) bs \<and> live bs = {} \<and>
    (fst (pmm_allocate_pages 256 s) \<noteq> 0 \<longrightarrow>
      bs = [(PHYS_TO_VIRT (fst (pmm_allocate_pages 256 s)), 2 ^ 20 - 32, True)])"
proof -
  have rep: "heap_rep s []"
    using assms by (simp add: heap_rep_def blocks_ok_def addr_in_any_region_def)
  obtain p s1 where al: "pmm_allocate_pages 256 s = (p, s1)" by fastforce
  show ?thesis
  proof (cases "p = 0")
    case True
    then have "s1 = s" using pmm.al_fail [OF assms(1)] al by simp
    then show ?thesis using rep True al by (auto simp: heap_init_def intro!: exI [of _ "[]"])
  next
    case False
    note f = pmm_alloc_facts [OF assms(1) al False]
    note rb = region_block [OF f(1,4,2)]
    let ?va = "PHYS_TO_VIRT p"
    let ?h = "(zero_range ?va (256 * PAGE_SIZE) (hdr s))(?va := free_header (256 * PAGE_SIZE - 32) 0)"
    have "heap_rep (s1\<lparr>hdr := ?h, heap_head := ?va,
        regions := regions s @ [\<lparr>va_start = ?va, size_bytes = 256 * PAGE_SIZE\<rparr>]\<rparr>)
        ([] @ [(?va, 256 * PAGE_SIZE - 32, True)])"
    proof (rule add_region_rep [OF rep al False])
      show "hlist ?h ?va ([] @ [(?va, 256 * PAGE_SIZE - 32, True)])"
        using rb(8) by (simp add: free_header_def hdr_state_def)
      fix a assume "blk_magic (?h a) = BLOCK_MAGIC_ALLOC"
      then have "a \<noteq> ?va" "blk_magic (zero_range ?va (256 * PAGE_SIZE) (hdr s) a) = BLOCK_MAGIC_ALLOC"
        by (auto simp: free_header_def split: if_splits)
      then show "a \<in> set (addrs []) \<or> blk_magic (hdr s a) = BLOCK_MAGIC_ALLOC \<and>
          unat a \<notin> region_span \<lparr>va_start = ?va, size_bytes = 256 * PAGE_SIZE\<rparr>"
        unfolding rb(9) [symmetric] by (simp add: zero_range_def split: if_splits)
    qed (simp add: assms(2))
    moreover have "heap_init s = s1\<lparr>hdr := ?h, heap_head := ?va,
        regions := regions s @ [\<lparr>va_start = ?va, size_bytes = 256 * PAGE_SIZE\<rparr>]\<rparr>"
      using False al f(9,11) assms(2) by (simp add: heap_init_def register_region_def Let_def)
    ultimately show ?thesis using al by (simp add: exI [of _ "[(?va, 2 ^ 20 - 32, True)]"])
  qed
qed

lemma heap_rep_hdr:
  assumes "heap_rep s bs" "hlist h (heap_head s) bs'" "blocks_ok bs'" "cover bs' = cover bs"
    "\<And>a. blk_magic (h a) = BLOCK_MAGIC_ALLOC \<Longrightarrow> addr_in_any_region s a \<Longrightarrow> a \<in> set (addrs bs')"
  shows "heap_rep (s\<lparr>hdr := h\<rparr>) bs'"
  using assms by (auto simp: heap_rep_def addr_in_any_region_def)

lemma heap_expand_spec:
  fixes s :: "'a heap_scheme"
  assumes rep: "heap_rep s bs" and ne: "bs \<noteq> []"
  shows "\<exists>rc s'. heap_expand need s = Some (rc, s') \<and>
    (if fst (pmm_allocate_pages (expand_pages need) s) = 0 \<or> length (regions s) = HEAP_MAX_REGIONS
     then rc = -1 \<and> heap_rep s' bs
     else rc = 0 \<and> heap_rep s'
       (bs @ [(PHYS_TO_VIRT (fst (pmm_allocate_pages (expand_pages need) s)),
               expand_pages need * PAGE_SIZE - 32, True)]))"
proof -
  note rd = heap_repD [OF rep]
  define k where "k = expand_pages need"
  obtain p s1 where al: "pmm_allocate_pages k s = (p, s1)" by fastforce
  show ?thesis
  proof (cases "p = 0")
    case True
    then have "s1 = s" using pmm.al_fail [OF rd(1)] al by simp
    then show ?thesis using rep True al by (simp add: heap_expand_def k_def Let_def)
  next
    case False
    note f = pmm_alloc_facts [OF rd(1) al False]
    note rb = region_block [OF f(1,4,2)]
    note nd = new_region_disjoint [OF rep f(7,1,4,2)]
    let ?va = "PHYS_TO_VIRT p" and ?bytes = "k * PAGE_SIZE" and ?t = "fst (last bs)"
    let ?r = "\<lparr>va_start = ?va, size_bytes = ?bytes\<rparr>"
    define h1 where "h1 = (zero_range ?va ?bytes (hdr s))(?va := free_header (?bytes - 32) 0)"
    define h2 where "h2 = h1(?t := (h1 ?t)\<lparr>blk_next := ?va\<rparr>)"
    have out: "a \<in> set (addrs bs) \<Longrightarrow> \<not> (?va \<le> a \<and> a < ?va + ?bytes)" for a
      unfolding rb(9) using nd(1) addr_in_cover [of a bs] by blast
    have va_in: "unat ?va \<in> region_span ?r" using f(2) rb(1) by (simp add: region_span_def)
    have vn: "?va \<notin> set (addrs bs)"
      using nd(1) va_in addr_in_cover [of ?va bs] by blast
    have same: "h1 a = hdr s a" if "a \<in> set (addrs bs)" for a
      using out [OF that] vn that by (auto simp: h1_def zero_range_def)
    have hl1: "hlist h1 (heap_head s) bs"
      using rd(2) same by (subst hlist_cong [of bs h1 "hdr s"]) auto
    have tl: "heap_tail h1 (heap_head s) = Some ?t" "blk_next (h1 ?t) = 0" "?t \<in> set (addrs bs)"
      using heap_tail_last [OF hl1 ne] ne by (auto simp: addrs_def)
    have hl2: "hlist h2 (heap_head s) (bs @ [(?va, ?bytes - 32, True)])"
      unfolding h2_def using hl1 ne blocks_ok_distinct [OF rd(3)] rb(8) vn
      by (intro hlist_append) (auto simp: h1_def)
    have hh: "heap_head s1 \<noteq> 0"
      using rd(2) ne f(10) hlist_nonzero [OF rd(2)] by (cases bs) auto
    have mg: "blk_magic (h2 a) = BLOCK_MAGIC_ALLOC \<Longrightarrow> a \<in> set (addrs bs) \<or>
        blk_magic (hdr s a) = BLOCK_MAGIC_ALLOC \<and> unat a \<notin> region_span ?r" for a
      unfolding rb(9) [symmetric]
      by (auto simp: h2_def h1_def zero_range_def free_header_def split: if_splits)
    have ex: "heap_expand need s = (let (rc, s2) = register_region ?va ?bytes (s1\<lparr>hdr := h2\<rparr>)
        in if rc \<noteq> 0 then Some (-1, pmm_free_pages p k
              (s2\<lparr>hdr := (hdr s2)(?t := (hdr s2 ?t)\<lparr>blk_next := 0\<rparr>)\<rparr>))
           else Some (0, s2))"
      using False al hh tl(1) f(9,10)
      by (simp add: heap_expand_def k_def [symmetric] Let_def h1_def [symmetric] h2_def [symmetric])
    show ?thesis
    proof (cases "length (regions s) = HEAP_MAX_REGIONS")
      case True
      define h3 where "h3 = h2(?t := (h2 ?t)\<lparr>blk_next := 0\<rparr>)"
      have free: "pmm_free_pages p k s1 = s"
        using rd(1) al False by (rule pmm_alloc_free_restores)
      have ex': "heap_expand need s = Some (-1, s\<lparr>hdr := h3\<rparr>)"
        unfolding ex using True f(11)
        by (simp add: register_region_def pmm_free_pages_hdr free h3_def)
      have h3: "h3 a = hdr s a" if "a \<in> set (addrs bs)" for a
        using same [OF that] same [OF tl(3)] tl(2) by (auto simp: h3_def h2_def)
      have "hlist h3 (heap_head s) bs"
        using rd(2) h3 by (subst hlist_cong [of bs h3 "hdr s"]) auto
      moreover have "blk_magic (h3 a) = BLOCK_MAGIC_ALLOC \<Longrightarrow> a \<in> set (addrs bs) \<or>
          blk_magic (hdr s a) = BLOCK_MAGIC_ALLOC" for a
        using mg [of a] by (auto simp: h3_def split: if_splits)
      ultimately have "heap_rep (s\<lparr>hdr := h3\<rparr>) bs"
        using rep rd(3,9) by (intro heap_rep_hdr) auto
      then show ?thesis using ex' True by auto
    next
      case room: False
      then have lt: "length (regions s) < HEAP_MAX_REGIONS" using rd(5) by simp
      have "heap_rep (s1\<lparr>hdr := h2, heap_head := heap_head s, regions := regions s @ [?r]\<rparr>)
          (bs @ [(?va, ?bytes - 32, True)])"
        using rep al False lt hl2 mg by (rule add_region_rep)
      moreover have "s1\<lparr>hdr := h2, heap_head := heap_head s, regions := regions s @ [?r]\<rparr> =
          s1\<lparr>hdr := h2, regions := regions s @ [?r]\<rparr>"
        using f(10) by simp
      moreover have "heap_expand need s = Some (0, s1\<lparr>hdr := h2, regions := regions s @ [?r]\<rparr>)"
        unfolding ex using lt f(11) by (simp add: register_region_def)
      ultimately show ?thesis
        using room al False by (simp add: k_def)
    qed
  qed
qed


section \<open>The allocation contract\<close>

lemma heap_align_up:
  assumes "unat x < 2 ^ 64 - 15"
  shows "16 dvd unat (HEAP_ALIGN_UP x)" "x \<le> HEAP_ALIGN_UP x" "unat (HEAP_ALIGN_UP x) < unat x + 16"
    "HEAP_ALIGN_UP x = 0 \<longleftrightarrow> x = 0"
proof -
  have "unat (x + 15) = unat x + 15" using assms by (subst unat_plus_64) simp_all
  moreover have "HEAP_ALIGN_UP x = (x + 15) AND NOT (mask 4)"
    by (simp add: HEAP_ALIGN_UP_def mask_eq_exp_minus_1 add.commute)
  ultimately have e: "unat (HEAP_ALIGN_UP x) = (unat x + 15) div 16 * 16"
    using unat_and_not_mask [of 4 "x + 15"] by simp
  show "16 dvd unat (HEAP_ALIGN_UP x)" by (simp add: e)
  have le: "unat x \<le> (unat x + 15) div 16 * 16" "(unat x + 15) div 16 * 16 < unat x + 16" by linarith+
  show "x \<le> HEAP_ALIGN_UP x" using le(1) by (simp add: word_le_nat_alt e)
  show "unat (HEAP_ALIGN_UP x) < unat x + 16" using le(2) by (simp add: e)
  show "HEAP_ALIGN_UP x = 0 \<longleftrightarrow> x = 0"
    using le by (auto simp: unat_0_iff [symmetric] e)
qed

lemma block_payload:
  assumes "block_ok (a, sz, f)"
  shows "unat (a + 32) = unat a + 32" "payload (a + 32, sz) \<subseteq> extent (a, sz, f)" "a + 32 \<noteq> 0"
    "16 dvd unat (a + 32)"
proof -
  show e: "unat (a + 32) = unat a + 32"
    using assms by (subst unat_plus_64) (simp_all add: block_ok_def)
  then show "payload (a + 32, sz) \<subseteq> extent (a, sz, f)" by (auto simp: payload_def extent_def)
  show "a + 32 \<noteq> 0" using e by (metis add_is_0 unat_0 zero_neq_numeral)
  show "16 dvd unat (a + 32)" using assms by (simp add: e block_ok_def)
qed

lemma blocks_ok_mem: "blocks_ok bs \<Longrightarrow> b \<in> set bs \<Longrightarrow> block_ok b"
  by (simp add: blocks_ok_def list_all_iff)

lemma blocks_ok_extents:
  "blocks_ok bs \<Longrightarrow> b \<in> set bs \<Longrightarrow> c \<in> set bs \<Longrightarrow> b \<noteq> c \<Longrightarrow> extent b \<inter> extent c = {}"
  by (induction bs) (auto simp: blocks_ok_Cons cover_def)

lemma live_payloads_disjoint:
  assumes ok: "blocks_ok bs" and x: "x \<in> live bs" and y: "y \<in> live bs" and ne: "x \<noteq> y"
  shows "payload x \<inter> payload y = {}"
proof -
  obtain a sz b tz where xy: "x = (a + 32, sz)" "(a, sz, False) \<in> set bs" "y = (b + 32, tz)" "(b, tz, False) \<in> set bs"
    using x y by (auto simp: live_def)
  then have "extent (a, sz, False) \<inter> extent (b, tz, False) = {}"
    using blocks_ok_extents [OF ok, of "(a, sz, False)" "(b, tz, False)"] ne by auto
  then show ?thesis
    using block_payload(2) [OF blocks_ok_mem [OF ok xy(2)]] block_payload(2) [OF blocks_ok_mem [OF ok xy(4)]]
    unfolding xy by blast
qed

lemma blocks_addr_unique:
  "distinct (addrs bs) \<Longrightarrow> (a, sz, f) \<in> set bs \<Longrightarrow> (a, tz, g) \<in> set bs \<Longrightarrow> sz = tz \<and> f = g"
  by (induction bs) (auto simp: addrs_def image_iff)

lemma take_block_rep:
  assumes rep: "heap_rep s bs" and n: "16 dvd unat n" and al: "alloc_blocks n bs = Some (a, bs')"
  shows "heap_rep (s\<lparr>hdr := take_block a n (hdr s)\<rparr>) bs'"
proof -
  note rd = heap_repD [OF rep]
  obtain sz sz' where sp: "blocks_ok bs'" "cover bs' = cover bs" "set (addrs bs) \<subseteq> set (addrs bs')"
      "(a, sz, True) \<in> set bs" "n \<le> sz" "64 < sz - n \<longrightarrow> a + 32 + n \<notin> set (addrs bs)"
      "(a, sz', False) \<in> set bs'"
    using alloc_blocks_spec [OF rd(3) al n] by blast
  have a: "a \<in> set (addrs bs')" using sp(7) by (force simp: addrs_def)
  have sz: "blk_size (hdr s a) = sz" using hlist_mem [OF rd(2) sp(4)] by simp
  have "a + 32 + n \<noteq> 0" if "64 < sz - n"
    using split_sizes(1) [OF blocks_ok_mem [OF rd(3) sp(4)] sp(5) that n]
    by (metis add_is_0 unat_0 zero_neq_numeral)
  then have hl: "hlist (take_block a n (hdr s)) (heap_head s) bs'"
    using sp(6) sz by (intro hlist_take_block [OF rd(2) blocks_ok_distinct [OF rd(3)] al]) auto
  show ?thesis
  proof (rule heap_rep_hdr [OF rep hl sp(1,2)])
    fix b assume "blk_magic (take_block a n (hdr s) b) = BLOCK_MAGIC_ALLOC" "addr_in_any_region s b"
    then show "b \<in> set (addrs bs')"
      using take_block_magic [of a n "hdr s" b] rd(9) sp(3) a by auto
  qed
qed

text \<open>The blocks after a successful allocation of at least \<open>n\<close> bytes at payload address \<open>p\<close>.\<close>

definition allocated_at :: "u64 \<Rightarrow> u64 \<Rightarrow> ablock list \<Rightarrow> ablock list \<Rightarrow> bool" where
  "allocated_at n p bs bs' \<longleftrightarrow> (\<exists>sz. n \<le> sz \<and> (p - 32, sz, False) \<in> set bs' \<and>
     live bs' = insert (p, sz) (live bs) \<and> p \<notin> fst ` live bs)"

lemma alloc_blocks_at:
  assumes ok: "blocks_ok bs" and al: "alloc_blocks n bs = Some (a, bs')" "16 dvd unat n"
  shows "allocated_at n (a + 32) bs bs'"
proof -
  obtain sz sz' where sp: "(a, sz, True) \<in> set bs" "(a, sz', False) \<in> set bs'" "n \<le> sz'"
      "live bs' = insert (a + 32, sz') (live bs)"
    using alloc_blocks_spec [OF ok al] by blast
  have "a + 32 \<notin> fst ` live bs"
    using blocks_addr_unique [OF blocks_ok_distinct [OF ok] sp(1)] by (fastforce simp: live_def)
  then show ?thesis using sp by (auto simp: allocated_at_def)
qed


lemma alloc_blocks_None:
  "alloc_blocks n bs = None \<longleftrightarrow> (\<forall>a sz. (a, sz, True) \<in> set bs \<longrightarrow> \<not> n \<le> sz)"
  by (induction n bs rule: alloc_blocks.induct) auto

lemma alloc_blocks_fit:
  assumes rep: "heap_rep s bs" and al: "alloc_blocks n bs = Some (a, bs')" and n: "16 dvd unat n"
  shows "kmalloc_attempts (Suc m) n s = Some (a + 32, s\<lparr>hdr := take_block a n (hdr s)\<rparr>)"
    "heap_rep (s\<lparr>hdr := take_block a n (hdr s)\<rparr>) bs'" "allocated_at n (a + 32) bs bs'" "bs' \<noteq> []"
proof -
  note rd = heap_repD [OF rep]
  obtain sz where "(a, sz, True) \<in> set bs"
    using alloc_blocks_spec [OF rd(3) al n] by blast
  then have "a \<in> set (addrs bs)" by (force simp: addrs_def)
  then have "a \<noteq> 0" using hlist_nonzero [OF rd(2)] by auto
  then show "kmalloc_attempts (Suc m) n s = Some (a + 32, s\<lparr>hdr := take_block a n (hdr s)\<rparr>)"
    using find_fit_alloc [OF rd(2), of n] al by simp
  show "heap_rep (s\<lparr>hdr := take_block a n (hdr s)\<rparr>) bs'" using rep n al by (rule take_block_rep)
  show at: "allocated_at n (a + 32) bs bs'" using rd(3) al n by (rule alloc_blocks_at)
  then show "bs' \<noteq> []" by (auto simp: allocated_at_def)
qed

lemma kmalloc_attempts_spec:
  assumes "heap_rep s bs" "bs \<noteq> []" "16 dvd unat n"
  shows "\<exists>p s' bs'. kmalloc_attempts m n s = Some (p, s') \<and> heap_rep s' bs' \<and> bs' \<noteq> [] \<and>
    (p = 0 \<and> live bs' = live bs \<or> p \<noteq> 0 \<and> allocated_at n p bs bs')"
  using assms
proof (induction m arbitrary: s bs)
  case 0
  then show ?case by auto
next
  case (Suc m)
  show ?case
  proof (cases "alloc_blocks n bs")
    case (Some r)
    then obtain a bs' where r: "alloc_blocks n bs = Some (a, bs')" by (cases r) auto
    note fit = alloc_blocks_fit [OF Suc.prems(1) r Suc.prems(3)]
    have "(a, False) \<in> (\<lambda>(x, y, z). (x, z)) ` set bs'"
      using fit(3) by (force simp: allocated_at_def)
    then obtain sz where "(a, sz, False) \<in> set bs'" by auto
    then have "a + 32 \<noteq> 0"
      using block_payload(3) [OF blocks_ok_mem [OF heap_repD(3) [OF fit(2)]]] by blast
    then show ?thesis using fit by blast
  next
    case None
    have ff: "find_fit (hdr s) n (heap_head s) = Some 0"
      using find_fit_alloc [OF heap_repD(2) [OF Suc.prems(1)], of n] None by simp
    let ?new = "(PHYS_TO_VIRT (fst (pmm_allocate_pages (expand_pages n) s)), expand_pages n * PAGE_SIZE - 32, True)"
    obtain rc s1 where ex: "heap_expand n s = Some (rc, s1)"
      "rc = -1 \<and> heap_rep s1 bs \<or> rc = 0 \<and> heap_rep s1 (bs @ [?new])"
      using heap_expand_spec [OF Suc.prems(1,2), of n] by (metis (no_types, lifting))
    show ?thesis
    proof (cases "rc = 0")
      case False
      then show ?thesis using ff ex Suc.prems(2) by auto
    next
      case True
      then have rep1: "heap_rep s1 (bs @ [?new])" using ex(2) by simp
      obtain p s' bs' where IH: "kmalloc_attempts m n s1 = Some (p, s')" "heap_rep s' bs'" "bs' \<noteq> []"
          "p = 0 \<and> live bs' = live (bs @ [?new]) \<or> p \<noteq> 0 \<and> allocated_at n p (bs @ [?new]) bs'"
        using Suc.IH [OF rep1 _ Suc.prems(3)] by blast
      have "live (bs @ [?new]) = live bs" by simp
      then show ?thesis
        using IH ff ex(1) True unfolding allocated_at_def by auto
    qed
  qed
qed

lemma kmalloc_spec:
  assumes rep: "heap_rep s bs" and ne: "bs \<noteq> []"
  shows "\<exists>p s' bs'. kmalloc req s = Some (p, s') \<and> heap_rep s' bs' \<and> bs' \<noteq> [] \<and>
    (p = 0 \<and> live bs' = live bs \<or> p \<noteq> 0 \<and> allocated_at req p bs bs')"
proof (cases "req = 0 \<or> req > NOT 0 - (16 - 1)")
  case True
  then show ?thesis using rep ne by (auto simp: kmalloc_def)
next
  case False
  then have lt: "unat req < 2 ^ 64 - 15"
    by (simp add: word_less_nat_alt not_less)
  note up = heap_align_up [OF lt]
  obtain p s' bs' where *: "kmalloc_attempts 2 (HEAP_ALIGN_UP req) s = Some (p, s')" "heap_rep s' bs'" "bs' \<noteq> []"
    "p = 0 \<and> live bs' = live bs \<or> p \<noteq> 0 \<and> allocated_at (HEAP_ALIGN_UP req) p bs bs'"
    using kmalloc_attempts_spec [OF rep ne up(1), of 2] by blast
  have "allocated_at (HEAP_ALIGN_UP req) p bs bs' \<Longrightarrow> allocated_at req p bs bs'"
    unfolding allocated_at_def using up(2) order_trans by blast
  then show ?thesis using * False unfolding kmalloc_def by auto
qed

lemma allocated_at_facts:
  assumes "heap_rep s bs" "allocated_at n p bs' bs"
  shows "\<exists>sz. (p, sz) \<in> live bs \<and> n \<le> sz \<and> 16 dvd unat p \<and> live bs = insert (p, sz) (live bs') \<and>
    (\<forall>x \<in> live bs'. payload x \<inter> payload (p, sz) = {}) \<and>
    payload (p, sz) \<subseteq> \<Union> (region_span ` set (regions s))"
proof -
  note rd = heap_repD [OF assms(1)]
  obtain sz where sz: "n \<le> sz" "(p - 32, sz, False) \<in> set bs" "live bs = insert (p, sz) (live bs')"
      "p \<notin> fst ` live bs'"
    using assms(2) by (auto simp: allocated_at_def)
  note pl = block_payload [OF blocks_ok_mem [OF rd(3) sz(2)], simplified]
  have "payload x \<inter> payload (p, sz) = {}" if "x \<in> live bs'" for x
    using that sz(3,4) by (intro live_payloads_disjoint [OF rd(3)]) force+
  moreover have "extent (p - 32, sz, False) \<subseteq> \<Union> (region_span ` set (regions s))"
    using sz(2) unfolding rd(4) [symmetric] cover_def by blast
  then have "payload (p, sz) \<subseteq> \<Union> (region_span ` set (regions s))"
    using pl(2) by (rule order_trans [rotated])
  moreover have "(p, sz) \<in> live bs" using sz(3) by simp
  ultimately show ?thesis
    using sz(1,3) pl(4) by (intro exI [of _ sz] conjI) auto
qed


section \<open>The release contract\<close>

lemma live_iff: "(p, sz) \<in> live bs \<longleftrightarrow> (p - 32, sz, False) \<in> set bs"
  by (force simp: live_def)

lemma addr_region:
  assumes "heap_rep s bs" "a \<in> set (addrs bs)"
  shows "addr_in_any_region s a"
  using addr_in_any_region_iff [OF heap_repD(7) [OF assms(1)], of a] addr_in_cover [OF assms(2)]
  by (simp add: heap_repD(4) [OF assms(1)])

lemma kfree_ignored:
  assumes rep: "heap_rep s bs" and no: "p \<notin> fst ` live bs"
  shows "kfree p s = Some s"
proof (rule ccontr)
  let ?a = "p - BLOCK_HEADER_SIZE"
  assume "kfree p s \<noteq> Some s"
  then have "addr_in_any_region s ?a" "blk_magic (hdr s ?a) = BLOCK_MAGIC_ALLOC"
    by (auto simp: kfree_def Let_def split: if_splits)
  then have a: "?a \<in> set (addrs bs)" "blk_magic (hdr s ?a) = BLOCK_MAGIC_ALLOC"
    using heap_repD(9) [OF rep] by auto
  then obtain sz f where b: "(?a, sz, f) \<in> set bs" by (auto simp: addrs_def)
  then have "\<not> f" using hlist_mem [OF heap_repD(2) [OF rep] b] a(2) by (auto simp: hdr_state_def)
  then have "(p, sz) \<in> live bs" using b by (simp add: live_iff)
  then show False using no by force
qed

lemma kfree_live:
  assumes rep: "heap_rep s bs" and lv: "(p, sz) \<in> live bs"
  shows "\<exists>s'. kfree p s = Some s' \<and> heap_rep s' (merge_blocks (free_block (p - 32) bs))"
proof -
  note rd = heap_repD [OF rep]
  let ?a = "p - 32" and ?fs = "free_block (p - 32) bs"
  have b: "(?a, sz, False) \<in> set bs" using lv by (simp add: live_iff)
  then have a: "?a \<in> set (addrs bs)" by (force simp: addrs_def)
  have p0: "p \<noteq> 0" using block_payload(3) [OF blocks_ok_mem [OF rd(3) b]] by simp
  note dist = blocks_ok_distinct [OF rd(3)]
  let ?h = "(hdr s)(?a := (hdr s ?a)\<lparr>blk_is_free := 1, blk_magic := BLOCK_MAGIC_FREE\<rparr>)"
  obtain h where h: "coalesce ?h (heap_head s) = Some h" "hlist h (heap_head s) (merge_blocks ?fs)"
      "\<forall>c. blk_magic (h c) = blk_magic (?h c)"
    using coalesce_merge [OF hlist_free_block [OF rd(2) dist a]] dist by auto
  have st: "blk_is_free (hdr s ?a) = 0" "blk_magic (hdr s ?a) = BLOCK_MAGIC_ALLOC"
    using hlist_mem [OF rd(2) b] by (simp_all add: hdr_state_def)
  have res: "kfree p s = Some (s\<lparr>hdr := h\<rparr>)"
    using p0 addr_region [OF rep a] st h(1) by (simp add: kfree_def Let_def)
  note fb = free_block_spec [OF rd(3), of ?a]
  note mb = merge_blocks_spec [OF conjunct1 [OF fb]]
  have "heap_rep (s\<lparr>hdr := h\<rparr>) (merge_blocks ?fs)"
  proof (rule heap_rep_hdr [OF rep h(2)])
    show "blocks_ok (merge_blocks ?fs)" "cover (merge_blocks ?fs) = cover bs"
      using fb mb by simp_all
    fix c assume c: "blk_magic (h c) = BLOCK_MAGIC_ALLOC" "addr_in_any_region s c"
    then have ca: "c \<noteq> ?a" "blk_magic (hdr s c) = BLOCK_MAGIC_ALLOC"
      using h(3) by (auto split: if_splits)
    then obtain tz f where t: "(c, tz, f) \<in> set bs"
      using rd(9) c(2) by (fastforce simp: addrs_def)
    then have "(c, tz, False) \<in> set bs"
      using hlist_mem [OF rd(2) t] ca(2) by (auto simp: hdr_state_def split: if_splits)
    then have "(c + 32, tz) \<in> live (merge_blocks ?fs)"
      using mb live_free_block [OF dist b] ca(1) by (auto simp: live_iff)
    then show "c \<in> set (addrs (merge_blocks ?fs))"
      using live_addr by fastforce
  qed
  then show ?thesis using res by blast
qed

lemma kfree_live_blocks:
  assumes "heap_rep s bs" "(p, sz) \<in> live bs"
  shows "live (merge_blocks (free_block (p - 32) bs)) = live bs - {(p, sz)}"
proof -
  note rd = heap_repD [OF assms(1)]
  have "live (free_block (p - 32) bs) = live bs - {(p, sz)}"
    using live_free_block [OF blocks_ok_distinct [OF rd(3)], of "p - 32" sz] assms(2) by (simp add: live_iff)
  then show ?thesis
    using merge_blocks_spec free_block_spec [OF rd(3)] by simp
qed

section \<open>Accounting\<close>

lemma sum_blocks_list:
  "hlist h p bs \<Longrightarrow>
   sum_blocks sel h p t = Some (fold (\<lambda>(a, sz, f) t. if sel (h a) then t + sz else t) bs t)"
proof (induction h p bs arbitrary: t rule: hlist.induct)
  case (1 h p)
  then show ?case by (simp add: sum_blocks.simps)
next
  case (2 h p a sz f bs)
  then show ?case by (subst sum_blocks.simps) simp
qed

lemma fold_add_64:
  fixes g :: "'b \<Rightarrow> u64"
  assumes "unat t + (\<Sum>x\<leftarrow>xs. unat (g x)) < 2 ^ 64"
  shows "unat (fold (\<lambda>x t. t + g x) xs t) = unat t + (\<Sum>x\<leftarrow>xs. unat (g x))"
  using assms
proof (induction xs arbitrary: t)
  case (Cons x xs)
  have "unat (t + g x) = unat t + unat (g x)"
    using Cons.prems by (intro unat_plus_64) simp
  then show ?case using Cons.IH [of "t + g x"] Cons.prems by simp
qed simp

lemma card_cover:
  "blocks_ok bs \<Longrightarrow> card (cover bs) = (\<Sum>b\<leftarrow>bs. 32 + unat (fst (snd b)))"
proof (induction bs)
  case (Cons b bs)
  have "finite (cover bs)" "finite (extent b)" by (auto simp: cover_def extent_def)
  then have "card (cover (b # bs)) = card (extent b) + card (cover bs)"
    using Cons.prems by (simp add: blocks_ok_Cons card_Un_disjoint)
  then show ?case using Cons by (simp add: blocks_ok_Cons extent_def)
qed simp

lemma card_regions:
  "sorted_wrt (\<lambda>r q. region_span r \<inter> region_span q = {}) rs \<Longrightarrow>
   card (\<Union> (region_span ` set rs)) = (\<Sum>r\<leftarrow>rs. unat (size_bytes r))"
proof (induction rs)
  case (Cons r rs)
  have "finite (\<Union> (region_span ` set rs))" "finite (region_span r)" by (auto simp: region_span_def)
  moreover have "region_span r \<inter> \<Union> (region_span ` set rs) = {}" using Cons.prems by auto
  ultimately show ?case using Cons by (simp add: card_Un_disjoint) (simp add: region_span_def)
qed simp


lemma fold_select:
  "fold (\<lambda>(a, sz, f) t. if sel (h a) then t + sz else t) bs (t :: u64) =
   fold (\<lambda>b t. t + (if sel (h (fst b)) then fst (snd b) else 0)) bs t"
  by (rule fold_cong) auto

lemma sum_list_map_le:
  "(\<And>x. x \<in> set xs \<Longrightarrow> f x \<le> g x) \<Longrightarrow> sum_list (map f xs) \<le> (sum_list (map g xs) :: nat)"
  by (rule sum_list_mono)

lemma heap_regions_total:
  assumes "heap_rep s bs"
  shows "unat (heap_total_bytes s) = card (cover bs)" "card (cover bs) \<le> 2 ^ 48"
proof -
  note rd = heap_repD [OF assms]
  have "x \<in> {2 ^ 64 - 2 ^ 48..<2 ^ 64}" if x: "x \<in> cover bs" for x
  proof -
    obtain r where r: "r \<in> set (regions s)" "x \<in> region_span r" using x unfolding rd(4) by blast
    then have "unat (va_start r) + unat (size_bytes r) < 2 ^ 64" "2 ^ 64 - 2 ^ 48 \<le> unat (va_start r)"
      using rd(7,10) by blast+
    then show ?thesis using r(2) unfolding region_span_def by simp
  qed
  then have "cover bs \<subseteq> {2 ^ 64 - 2 ^ 48..<2 ^ 64}" by (rule subsetI)
  from card_mono [OF _ this] show le: "card (cover bs) \<le> 2 ^ 48" by simp
  have "unat (heap_total_bytes s) = (\<Sum>r\<leftarrow>regions s. unat (size_bytes r))"
    unfolding heap_total_bytes_def using le card_regions [OF rd(6)] rd(4)
    by (subst fold_add_64) simp_all
  then show "unat (heap_total_bytes s) = card (cover bs)"
    using card_regions [OF rd(6)] rd(4) by simp
qed

lemma heap_accounting_lemma:
  assumes "heap_rep s bs"
  shows "\<exists>u f. heap_used_bytes s = Some u \<and> heap_free_bytes s = Some f \<and>
    unat u + unat f + 32 * length bs = unat (heap_total_bytes s)"
proof -
  note rd = heap_repD [OF assms]
  let ?sz = "\<lambda>sel b. (if sel (hdr s (fst b)) then fst (snd b) else (0 :: u64))"
  let ?U = "\<lambda>b. blk_is_free b = 0" and ?F = "\<lambda>b. blk_is_free b \<noteq> 0"
  have total: "(\<Sum>b\<leftarrow>bs. 32 + unat (fst (snd b))) \<le> 2 ^ 48"
    using heap_regions_total(2) [OF assms] card_cover [OF rd(3)] by simp
  have bound: "(\<Sum>b\<leftarrow>bs. unat (?sz sel b)) < 2 ^ 64" for sel
  proof -
    have "(\<Sum>b\<leftarrow>bs. unat (?sz sel b)) \<le> (\<Sum>b\<leftarrow>bs. 32 + unat (fst (snd b)))"
      by (rule sum_list_map_le) auto
    also have "\<dots> < 2 ^ 64" using total by (rule le_less_trans) simp
    finally show ?thesis .
  qed
  have val: "\<exists>v. sum_blocks sel (hdr s) (heap_head s) 0 = Some v \<and> unat v = (\<Sum>b\<leftarrow>bs. unat (?sz sel b))" for sel
    using sum_blocks_list [OF rd(2), of sel 0] fold_add_64 [of 0 "?sz sel" bs] bound [of sel]
    by (simp add: fold_select)
  have "(\<Sum>b\<leftarrow>bs. unat (?sz ?U b)) + (\<Sum>b\<leftarrow>bs. unat (?sz ?F b)) + 32 * length bs =
      (\<Sum>b\<leftarrow>bs. 32 + unat (fst (snd b)))"
    by (induction bs) auto
  then have "(\<Sum>b\<leftarrow>bs. unat (?sz ?U b)) + (\<Sum>b\<leftarrow>bs. unat (?sz ?F b)) + 32 * length bs =
      unat (heap_total_bytes s)"
    using heap_regions_total(1) [OF assms] card_cover [OF rd(3)] by simp
  then show ?thesis
    using val [of ?U] val [of ?F] unfolding heap_used_bytes_def heap_free_bytes_def by auto
qed

section \<open>When allocation fails\<close>

lemma expand_pages_enough:
  assumes "unat n + 4127 < 2 ^ 64"
  shows "unat n + 32 \<le> 4096 * unat (expand_pages n)"
proof -
  have "unat (4127 + n) = unat n + 4127"
    using assms by (subst unat_plus_64) simp_all
  then have q: "unat ((4127 + n) div PAGE_SIZE) = (unat n + 4127) div 4096"
    by (simp add: word_nat)
  have "unat n + 32 \<le> 4096 * ((unat n + 4127) div 4096)" by linarith
  then show ?thesis
    unfolding expand_pages_def by (simp add: Let_def q word_less_nat_alt)
qed

lemma expanded_fits:
  assumes rep: "heap_rep s (bs @ [(va, k * PAGE_SIZE - 32, True)])" and k: "4096 * unat k < 2 ^ 48" "0 < unat k"
    and n: "unat n + 32 \<le> 4096 * unat k"
  shows "alloc_blocks n (bs @ [(va, k * PAGE_SIZE - 32, True)]) \<noteq> None"
proof -
  have b: "unat (k * PAGE_SIZE) = 4096 * unat k" using k(1) by (subst unat_mult_64) simp_all
  then have "unat (k * PAGE_SIZE - 32) = 4096 * unat k - 32" using k(2) by (subst unat_minus_64) simp_all
  then have "n \<le> k * PAGE_SIZE - 32" using n by (simp add: word_le_nat_alt)
  then show ?thesis unfolding alloc_blocks_None by auto
qed


lemma kmalloc_zero_reason:
  assumes rep: "heap_rep s bs" and ne: "bs \<noteq> []" and n: "n \<noteq> 0" "16 dvd unat n" "unat n + 4127 < 2 ^ 64"
    and z: "kmalloc_attempts 2 n s = Some (0, s')"
  shows "(\<forall>a sz. (a, sz, True) \<in> set bs \<longrightarrow> \<not> n \<le> sz) \<and>
    (fst (pmm_allocate_pages (expand_pages n) s) = 0 \<or> length (regions s) = HEAP_MAX_REGIONS)"
proof -
  have nz: "kmalloc_attempts (Suc m) n t \<noteq> Some (0, t')" if r: "heap_rep t cs" and c: "alloc_blocks n cs \<noteq> None" for m t t' cs
  proof -
    obtain a cs' where al: "alloc_blocks n cs = Some (a, cs')" using c by auto
    note fit = alloc_blocks_fit [OF r al n(2)]
    obtain sz where "(a, sz, False) \<in> set cs'" using fit(3) by (auto simp: allocated_at_def)
    then have "a + 32 \<noteq> 0"
      using block_payload(3) [OF blocks_ok_mem [OF heap_repD(3) [OF fit(2)]]] by blast
    then show ?thesis using fit(1) by simp
  qed
  have two: "2 = Suc (Suc 0)" by simp
  have none: "alloc_blocks n bs = None" using nz [OF rep, of "Suc 0"] z unfolding two by blast
  let ?k = "expand_pages n" and ?p = "fst (pmm_allocate_pages (expand_pages n) s)"
  have "?p = 0 \<or> length (regions s) = HEAP_MAX_REGIONS"
  proof (rule ccontr)
    assume c: "\<not> ?thesis"
    then obtain s1 where ex: "heap_expand n s = Some (0, s1)"
        "heap_rep s1 (bs @ [(PHYS_TO_VIRT ?p, ?k * PAGE_SIZE - 32, True)])"
      using heap_expand_spec [OF rep ne, of n] by auto
    note f = pmm_alloc_facts [OF heap_repD(1) [OF rep] prod.collapse [symmetric], of ?k]
    have "alloc_blocks n (bs @ [(PHYS_TO_VIRT ?p, ?k * PAGE_SIZE - 32, True)]) \<noteq> None"
      using f(1,2) c expand_pages_enough [OF n(3)] by (intro expanded_fits [OF ex(2)]) auto
    then have "kmalloc_attempts (Suc 0) n s1 \<noteq> Some (0, s')" by (rule nz [OF ex(2)])
    then show False
      using z ex(1) find_fit_alloc [OF heap_repD(2) [OF rep], of n] none unfolding two by simp
  qed
  then show ?thesis using none by (simp add: alloc_blocks_None)
qed

section \<open>The heap provides the object interface\<close>

definition heap_live :: "'a heap_scheme \<Rightarrow> (u64 \<times> u64) set \<Rightarrow> bool" where
  "heap_live s V \<longleftrightarrow> (\<exists>bs. heap_rep s bs \<and> bs \<noteq> [] \<and> live bs = V)"

lemma merge_blocks_nonempty: "bs \<noteq> [] \<Longrightarrow> merge_blocks bs \<noteq> []"
  using merge_head by (cases bs) (auto, metis list.discI)

interpretation kheap: object_allocator heap_live kmalloc kfree
proof
  fix s :: "'a heap_scheme" and V x y n p sz
  assume "heap_live s V"
  then obtain bs where bs: "heap_rep s bs" "bs \<noteq> []" "live bs = V" by (auto simp: heap_live_def)
  note rd = heap_repD [OF bs(1)]
  show "fst x \<noteq> fst y \<and> payload x \<inter> payload y = {}" if "x \<in> V" "y \<in> V" "x \<noteq> y"
  proof -
    obtain a sz b tz where xy: "x = (a, sz)" "y = (b, tz)" by (cases x; cases y)
    have "a \<noteq> b"
      using that blocks_addr_unique [OF blocks_ok_distinct [OF rd(3)], of "a - 32" sz False tz False]
      unfolding bs(3) [symmetric] xy live_iff by auto
    moreover have "payload x \<inter> payload y = {}"
      using that bs(3) by (intro live_payloads_disjoint [OF rd(3)]) auto
    ultimately show ?thesis by (simp add: xy)
  qed
  show "\<exists>p s'. kmalloc n s = Some (p, s') \<and> (p = 0 \<and> heap_live s' V \<or>
      p \<noteq> 0 \<and> p \<notin> fst ` V \<and> (\<exists>sz. n \<le> sz \<and> heap_live s' (insert (p, sz) V)))"
    using kmalloc_spec [OF bs(1,2), of n] bs(3) unfolding allocated_at_def heap_live_def by blast
  show "\<exists>s'. kfree p s = Some s' \<and> heap_live s' (V - {(p, sz)})" if "(p, sz) \<in> V"
  proof -
    have lv: "(p, sz) \<in> live bs" using that bs(3) by simp
    moreover have "merge_blocks (free_block (p - 32) bs) \<noteq> []"
      using bs(2) by (intro merge_blocks_nonempty) (simp add: free_block_def)
    ultimately show ?thesis
      using kfree_live [OF bs(1) lv] kfree_live_blocks [OF bs(1) lv] bs(3) unfolding heap_live_def by blast
  qed
  show "kfree p s = Some s" if "p \<notin> fst ` V"
    using kfree_ignored [OF bs(1)] that bs(3) by simp
qed


section \<open>A concrete heap\<close>

text \<open>Four megabytes of memory at 1 GiB, the heap initialised on it.\<close>

definition demo_boot :: heap where
  "demo_boot = pmm_init 0x40001234 0x40000000 0x400000
     \<lparr>bitmap_addr = 0, bitmap = [], bitmap_size = 0, total_pages = 0, used_pages = 0,
      reserved_pages = 0, mem_region_start = 0, mem_region_end = 0, heap_head = 0,
      hdr = (\<lambda>_. \<lparr>blk_size = 0, blk_magic = 0, blk_is_free = 0, blk_next = 0\<rparr>), regions = []\<rparr>"

definition demo_heap :: heap where
  "demo_heap = heap_init demo_boot"

definition demo_blocks :: "ablock list" where
  "demo_blocks = [(0xFFFF000040003000, 0xFFFE0, True)]"

lemma demo_boot_fields:
  "regions demo_boot = []" "heap_head demo_boot = 0" "reserved_pages demo_boot = 3"
  "total_pages demo_boot = 1024" "mem_region_start demo_boot = 0x40000000"
  by code_simp+

lemma demo_boot_inv: "pmm_inv demo_boot" "allocated demo_boot = {..<3}"
proof -
  show "pmm_inv demo_boot"
    unfolding demo_boot_def by (rule pmm_init_inv) simp_all
  have "allocated demo_boot = {..<unat (reserved_pages demo_boot)}"
    unfolding demo_boot_def by (rule pmm_init_inv) simp_all
  then show "allocated demo_boot = {..<3}" by (simp add: demo_boot_fields)
qed

lemma demo_alloc: "fst (pmm_allocate_pages 256 demo_boot) = 0x40003000"
proof -
  have np: "npages demo_boot = 1024" by (simp add: npages_def demo_boot_fields)
  have "\<not> page_used demo_boot m" if "3 \<le> m" "m < 1024" for m
  proof -
    have "m \<notin> allocated demo_boot" using that demo_boot_inv(2) by simp
    then show ?thesis using that np by (simp add: allocated_def)
  qed
  then have "free_run demo_boot 256 3"
    by (simp add: free_run_def np demo_boot_fields)
  then have "first_run demo_boot 256 = 3" "\<exists>a. free_run demo_boot 256 a"
    by (auto intro!: first_runI simp: free_run_def demo_boot_fields)
  then show ?thesis
    by (simp add: pmm_allocate_pages_cases [OF demo_boot_inv(1)] page_addr_def demo_boot_fields)
qed

lemma demo_heap_rep: "heap_rep demo_heap demo_blocks"
  using heap_init_rep [OF demo_boot_inv(1) demo_boot_fields(1,2)] demo_alloc
  by (auto simp: demo_heap_def demo_blocks_def PHYS_TO_VIRT_def)

lemma demo_heap_live: "heap_live demo_heap {}"
  using demo_heap_rep by (auto simp: heap_live_def demo_blocks_def intro!: exI [of _ demo_blocks])

section \<open>Properties\<close>

text \<open>C23: on an initialised heap \<open>kmalloc\<close> always returns.  Either it returns 0 and the live
  allocations are those from before, or it returns a 16-byte aligned pointer to a fresh
  payload of at least the requested size that lies inside the registered heap regions and
  overlaps no live allocation; the heap invariant (blocks tile the regions, headers are
  consistent) is kept.\<close>

theorem kmalloc_contract:
  assumes "heap_rep s bs" "bs \<noteq> []"
  shows "\<exists>p s' bs'. kmalloc req s = Some (p, s') \<and> heap_rep s' bs' \<and> bs' \<noteq> [] \<and>
    (p = 0 \<and> live bs' = live bs \<or>
     (\<exists>sz. p \<noteq> 0 \<and> 16 dvd unat p \<and> req \<le> sz \<and> live bs' = insert (p, sz) (live bs) \<and>
       (\<forall>x \<in> live bs. payload x \<inter> payload (p, sz) = {}) \<and>
       payload (p, sz) \<subseteq> \<Union> (region_span ` set (regions s'))))"
  using kmalloc_spec [OF assms, of req] allocated_at_facts by (metis (no_types, lifting))

theorem kmalloc_contract_witness:
  "\<exists>p s' bs'. kmalloc 100 demo_heap = Some (p, s') \<and> heap_rep s' bs'"
  using kmalloc_contract [OF demo_heap_rep, of 100] by (auto simp: demo_blocks_def)



text \<open>C2: any sequence of \<open>kmalloc\<close> calls and of \<open>kfree\<close> calls on pointers it returned runs to
  completion from a heap with no live allocation; the pointers then held are distinct and
  are exactly the addresses of the live allocations, whose payloads are pairwise disjoint.\<close>

theorem heap_traces_safe:
  assumes "heap_live s {}"
  shows "\<exists>s' L V. object_run kmalloc kfree ops (s, []) = Some (s', L) \<and> heap_live s' V \<and>
    fst ` V = set L \<and> distinct L \<and> (\<forall>x \<in> V. \<forall>y \<in> V. x \<noteq> y \<longrightarrow> payload x \<inter> payload y = {})"
proof -
  have "kheap.objects_inv (s, [])" using assms by (auto simp: kheap.objects_inv_def)
  then obtain s' L V where "object_run kmalloc kfree ops (s, []) = Some (s', L)" "heap_live s' V"
      "fst ` V = set L" "distinct L"
    using kheap.objects_inv_run [of "(s, [])" ops] by (auto simp: kheap.objects_inv_def)
  then show ?thesis using kheap.rep_disjoint by blast
qed

theorem heap_traces_safe_witness:
  "\<exists>s' L. object_run kmalloc kfree [Alloc 100, Alloc 5000, Free 0, Alloc 40] (demo_heap, []) = Some (s', L)"
  using heap_traces_safe [OF demo_heap_live] by blast

text \<open>the statistics add up: the bytes reported used and free plus one header per block
  are exactly the bytes of the registered regions.\<close>

theorem heap_accounting:
  assumes "heap_rep s bs"
  shows "\<exists>u f. heap_used_bytes s = Some u \<and> heap_free_bytes s = Some f \<and>
    unat u + unat f + 32 * length bs = unat (heap_total_bytes s)"
  using assms by (rule heap_accounting_lemma)

theorem heap_accounting_witness:
  "\<exists>u f. heap_used_bytes demo_heap = Some u \<and> heap_free_bytes demo_heap = Some f \<and>
    unat u + unat f + 32 = unat (heap_total_bytes demo_heap)"
  using heap_accounting [OF demo_heap_rep] by (simp add: demo_blocks_def)



text \<open>
  The size guard of \<open>kmalloc\<close> stops only the overflow of the rounding.  The header
  that \<open>heap_expand\<close> adds can still wrap: the largest admitted request asks the page
  allocator for the minimum growth of 64 pages instead of being refused.
\<close>

lemma expand_pages_wraps: "expand_pages (HEAP_ALIGN_UP 0xFFFFFFFFFFFFFFF0) = HEAP_EXPAND_MIN_PAGES"
  by code_simp

end
