(* ===== verification/Mmu.thy ===== *)
theory Mmu
  imports Heap_Alloc
begin

unbundle bit_operations_syntax

text \<open>
  Page tables, \<^verbatim>\<open>src/mm/mmu/mmu.c\<close> and \<^verbatim>\<open>mmu.h\<close>: descriptor macros, the four-level
  walk with allocation on demand, mapping of user ranges, the shared signal
  trampoline page, creation and release of user address spaces, and the boot
  identity map.  A table page is a function from the entry index, keyed by its
  physical address; the upper-half alias through which the code reaches it names
  the same page.  The specification reads a table tree as the partial function
  from index paths to table pages and from virtual pages to leaf descriptors.
  System register writes and TLB maintenance are not modelled.
\<close>

section \<open>Descriptors\<close>

record mm = heap +
  tab :: "u64 \<Rightarrow> u64 \<Rightarrow> u64"
  g_sigtramp_phys :: u64
  insn :: "u64 \<Rightarrow> u32"

abbreviation (input) PTE_VALID :: u64 where "PTE_VALID \<equiv> 1"
abbreviation (input) PTE_TABLE :: u64 where "PTE_TABLE \<equiv> 2"
abbreviation (input) PTE_BLOCK :: u64 where "PTE_BLOCK \<equiv> 0"
abbreviation (input) PTE_AF :: u64 where "PTE_AF \<equiv> 0x400"
abbreviation (input) PTE_SH_INNER :: u64 where "PTE_SH_INNER \<equiv> 0x300"
abbreviation (input) PTE_AP_RW :: u64 where "PTE_AP_RW \<equiv> 0"
abbreviation (input) PTE_AP_RW_EL0 :: u64 where "PTE_AP_RW_EL0 \<equiv> 0x40"
abbreviation (input) PTE_AP_RO_EL0 :: u64 where "PTE_AP_RO_EL0 \<equiv> 0xC0"
abbreviation (input) PTE_NG :: u64 where "PTE_NG \<equiv> 0x800"
abbreviation (input) PTE_UXN :: u64 where "PTE_UXN \<equiv> 0x40000000000000"
abbreviation (input) PTE_PXN :: u64 where "PTE_PXN \<equiv> 0x20000000000000"
abbreviation (input) PTE_ADDR_MASK :: u64 where "PTE_ADDR_MASK \<equiv> 0x0000FFFFFFFFF000"
abbreviation (input) TTBR_BADDR_MASK :: u64 where "TTBR_BADDR_MASK \<equiv> 0x0000FFFFFFFFFFFF"
abbreviation (input) USER_TEXT_BASE :: u64 where "USER_TEXT_BASE \<equiv> 0x00400000"
abbreviation (input) USER_STACK_TOP :: u64 where "USER_STACK_TOP \<equiv> 0x00800000"
abbreviation (input) USER_SIGTRAMP_VA :: u64 where "USER_SIGTRAMP_VA \<equiv> 0x00300000"

definition PTE_ATTRIDX :: "u64 \<Rightarrow> u64" where
  "PTE_ATTRIDX idx = push_bit 2 idx"

definition L0_INDEX :: "u64 \<Rightarrow> u64" where "L0_INDEX va = drop_bit 39 va AND 0x1FF"

definition L1_INDEX :: "u64 \<Rightarrow> u64" where "L1_INDEX va = drop_bit 30 va AND 0x1FF"

definition L2_INDEX :: "u64 \<Rightarrow> u64" where "L2_INDEX va = drop_bit 21 va AND 0x1FF"

definition L3_INDEX :: "u64 \<Rightarrow> u64" where "L3_INDEX va = drop_bit 12 va AND 0x1FF"

definition ttbr_pack :: "u64 \<Rightarrow> u16 \<Rightarrow> u64" where
  "ttbr_pack baddr asid = (baddr AND TTBR_BADDR_MASK) OR push_bit 48 (ucast asid)"

definition ttbr_baddr :: "u64 \<Rightarrow> u64" where
  "ttbr_baddr ttbr = ttbr AND TTBR_BADDR_MASK"

definition ttbr_asid :: "u64 \<Rightarrow> u16" where
  "ttbr_asid ttbr = ucast (drop_bit 48 ttbr)"

definition pte_next_table :: "u64 \<Rightarrow> u64" where
  "pte_next_table entry = entry AND PTE_ADDR_MASK"

definition pte_valid :: "u64 \<Rightarrow> bool" where
  "pte_valid entry \<longleftrightarrow> entry AND PTE_VALID \<noteq> 0"

definition pte_table :: "u64 \<Rightarrow> bool" where
  "pte_table entry \<longleftrightarrow> entry AND PTE_TABLE \<noteq> 0"

section \<open>Walking and mapping\<close>

definition set_entry :: "u64 \<Rightarrow> u64 \<Rightarrow> u64 \<Rightarrow> 'a mm_scheme \<Rightarrow> 'a mm_scheme" where
  "set_entry t i v s = s\<lparr>tab := (tab s)(t := (tab s t)(i := v))\<rparr>"

definition alloc_table :: "'a mm_scheme \<Rightarrow> u64 \<times> 'a mm_scheme" where
  "alloc_table s =
    (let (table_phys, s1) = pmm_allocate_page s in
     if table_phys = 0 then (0, s1)
     else (table_phys, s1\<lparr>tab := (tab s1)(table_phys := (\<lambda>_. 0))\<rparr>))"

text \<open>One step of the walk from table \<open>t\<close> through entry \<open>i\<close>.\<close>

definition next_level :: "bool \<Rightarrow> u64 \<Rightarrow> u64 \<Rightarrow> 'a mm_scheme \<Rightarrow> u64 option \<times> 'a mm_scheme" where
  "next_level alloc t i s =
    (if \<not> pte_valid (tab s t i) then
       if \<not> alloc then (None, s)
       else let (n, s1) = alloc_table s in
         if n = 0 then (None, s1)
         else (Some n, set_entry t i (n OR PTE_VALID OR PTE_TABLE) s1)
     else (Some (pte_next_table (tab s t i)), s))"

text \<open>The location (table and index) of the entry at the target level.\<close>

definition walk_levels ::
  "u64 \<Rightarrow> u64 \<Rightarrow> int \<Rightarrow> bool \<Rightarrow> 'a mm_scheme \<Rightarrow> (u64 \<times> u64) option \<times> 'a mm_scheme" where
  "walk_levels l0 va target_level alloc s =
    (case next_level alloc l0 (L0_INDEX va) s of
       (None, s1) \<Rightarrow> (None, s1)
     | (Some l1, s1) \<Rightarrow>
        (case next_level alloc l1 (L1_INDEX va) s1 of
           (None, s2) \<Rightarrow> (None, s2)
         | (Some l2, s2) \<Rightarrow>
            if target_level = 2 then (Some (l2, L2_INDEX va), s2)
            else
              (case next_level alloc l2 (L2_INDEX va) s2 of
                 (None, s3) \<Rightarrow> (None, s3)
               | (Some l3, s3) \<Rightarrow> (Some (l3, L3_INDEX va), s3))))"

definition user_pte :: "u64 \<Rightarrow> u64 \<Rightarrow> u64" where
  "user_pte pa flags =
    (pa AND PTE_ADDR_MASK) OR PTE_VALID OR PTE_TABLE OR PTE_AF OR PTE_SH_INNER OR PTE_NG OR flags"

fun map_pages :: "u64 \<Rightarrow> u64 \<Rightarrow> u64 \<Rightarrow> u64 \<Rightarrow> nat list \<Rightarrow> 'a mm_scheme \<Rightarrow> 'a mm_scheme" where
  "map_pages l0 va pa flags [] s = s"
| "map_pages l0 va pa flags (i # is) s =
    (case walk_levels l0 (va + of_nat i * PAGE_SIZE) 3 True s of
       (None, s1) \<Rightarrow> s1
     | (Some (t, e), s1) \<Rightarrow>
         map_pages l0 va pa flags is (set_entry t e (user_pte (pa + of_nat i * PAGE_SIZE) flags) s1))"

definition mmu_map_user_range ::
  "u64 \<Rightarrow> u64 \<Rightarrow> u64 \<Rightarrow> u64 \<Rightarrow> u64 \<Rightarrow> 'a mm_scheme \<Rightarrow> 'a mm_scheme" where
  "mmu_map_user_range l0 va pa pages flags s = map_pages l0 va pa flags [0..<unat pages] s"

section \<open>User address spaces\<close>

definition mmu_sigtramp_page :: "'a mm_scheme \<Rightarrow> u64 \<times> 'a mm_scheme" where
  "mmu_sigtramp_page s =
    (if g_sigtramp_phys s \<noteq> 0 then (g_sigtramp_phys s, s)
     else let (p, s1) = pmm_allocate_page s in
       if p = 0 then (0, s1)
       else (p, s1\<lparr>insn := (\<lambda>a. if a = p then 0xD2800228 else if a = p + 4 then 0xD4000001
                             else if p \<le> a \<and> a < p + PAGE_SIZE then 0 else insn s1 a),
                   g_sigtramp_phys := p\<rparr>))"

definition mmu_create_user_tables :: "'a mm_scheme \<Rightarrow> u64 \<times> 'a mm_scheme" where
  "mmu_create_user_tables s =
    (let (l0, s1) = alloc_table s in
     if l0 = 0 then (0, s1)
     else let (tramp, s2) = mmu_sigtramp_page s1 in
       if tramp \<noteq> 0
       then (l0, mmu_map_user_range l0 USER_SIGTRAMP_VA tramp 1 (PTE_ATTRIDX 1 OR PTE_AP_RO_EL0 OR PTE_PXN) s2)
       else (l0, s2))"

definition free_l3_tables :: "u64 \<Rightarrow> 'a mm_scheme \<Rightarrow> 'a mm_scheme" where
  "free_l3_tables l2 s =
    fold (\<lambda>k s. let e = tab s l2 (of_nat k) in
      if pte_valid e \<and> pte_table e then pmm_free_page (pte_next_table e) s else s) [0..<512] s"

definition free_l2_tables :: "u64 \<Rightarrow> 'a mm_scheme \<Rightarrow> 'a mm_scheme" where
  "free_l2_tables l1 s =
    fold (\<lambda>j s. let e = tab s l1 (of_nat j) in
      if pte_valid e \<and> pte_table e
      then pmm_free_page (pte_next_table e) (free_l3_tables (pte_next_table e) s) else s) [0..<512] s"

definition mmu_free_user_tables :: "u64 \<Rightarrow> 'a mm_scheme \<Rightarrow> 'a mm_scheme" where
  "mmu_free_user_tables l0 s =
    pmm_free_page l0
      (fold (\<lambda>i s. let e = tab s l0 (of_nat i) in
        if pte_valid e then pmm_free_page (pte_next_table e) (free_l2_tables (pte_next_table e) s) else s)
       [0..<512] s)"

section \<open>The boot identity map\<close>

definition block_entry :: "u64 \<Rightarrow> u64 \<Rightarrow> u64" where
  "block_entry phys_addr attr =
    phys_addr OR PTE_VALID OR PTE_BLOCK OR PTE_AF OR PTE_SH_INNER OR PTE_AP_RW OR PTE_ATTRIDX attr"

definition ram_attr :: "u64 \<Rightarrow> u64" where
  "ram_attr phys_addr = (if phys_addr \<ge> MEM_START \<and> phys_addr < MEM_START + MEM_SIZE then 1 else 0)"

text \<open>The entries of one second-level table: the null block of the low half stays invalid.\<close>

definition fill_l2 :: "bool \<Rightarrow> u64 \<Rightarrow> u64 \<Rightarrow> nat \<Rightarrow> 'a mm_scheme \<Rightarrow> 'a mm_scheme" where
  "fill_l2 low base l2 l1i s =
    fold (\<lambda>l2i s. let phys_addr = base + of_nat l1i * 0x40000000 + of_nat l2i * 0x200000 in
      if low \<and> phys_addr = 0 then s
      else set_entry l2 (of_nat l2i) (block_entry phys_addr (if low then ram_attr phys_addr else 0)) s) [0..<512] s"

fun fill_l1 :: "bool \<Rightarrow> u64 \<Rightarrow> u64 \<Rightarrow> nat list \<Rightarrow> 'a mm_scheme \<Rightarrow> bool \<times> 'a mm_scheme" where
  "fill_l1 low base l1 [] s = (True, s)"
| "fill_l1 low base l1 (i # is) s =
    (let (l2, s1) = alloc_table s in
     if l2 = 0 then (False, s1)
     else fill_l1 low base l1 is
       (fill_l2 low base l2 i (set_entry l1 (of_nat i) (l2 OR PTE_VALID OR PTE_TABLE) s1)))"

text \<open>The roots of the level-0 and of the low level-1 table, 0 when memory runs out.\<close>

definition build_identity_tables :: "'a mm_scheme \<Rightarrow> (u64 \<times> u64) \<times> 'a mm_scheme" where
  "build_identity_tables s =
    (let (l0, s1) = alloc_table s in
     if l0 = 0 then ((0, 0), s1)
     else let (l1, s2) = alloc_table s1 in
       if l1 = 0 then ((0, 0), s2)
       else let (ok, s3) = fill_l1 True 0 l1 [0..<512] (set_entry l0 0 (l1 OR PTE_VALID OR PTE_TABLE) s2) in
         if \<not> ok then ((0, 0), s3)
         else let (l1_hi, s4) = alloc_table s3 in
           if l1_hi = 0 then ((0, 0), s4)
           else let (ok, s5) = fill_l1 False 0x8000000000 l1_hi [0..<512]
                                 (set_entry l0 1 (l1_hi OR PTE_VALID OR PTE_TABLE) s4) in
             if \<not> ok then ((0, 0), s5) else ((l0, l1), s5))"


section \<open>Table trees\<close>

fun table_at :: "(u64 \<Rightarrow> u64 \<Rightarrow> u64) \<Rightarrow> u64 \<Rightarrow> u64 list \<Rightarrow> u64 option" where
  "table_at T t [] = Some t"
| "table_at T t (i # p) = (if pte_valid (T t i) then table_at T (pte_next_table (T t i)) p else None)"

definition tpath :: "u64 list \<Rightarrow> bool" where
  "tpath p \<longleftrightarrow> length p \<le> 3 \<and> (\<forall>i \<in> set p. i < 512)"

text \<open>The tables of an address space are distinct allocated pages, one per path.\<close>

definition table_page :: "'a mm_scheme \<Rightarrow> u64 \<Rightarrow> bool" where
  "table_page s t \<longleftrightarrow> (\<exists>n. n \<in> allocated s \<and> unat (reserved_pages s) \<le> n \<and> t = page_addr s n)"

definition tree_ok :: "'a mm_scheme \<Rightarrow> u64 \<Rightarrow> bool" where
  "tree_ok s l0 \<longleftrightarrow>
    (\<forall>p t. tpath p \<longrightarrow> table_at (tab s) l0 p = Some t \<longrightarrow> table_page s t) \<and>
    (\<forall>p q t. tpath p \<longrightarrow> tpath q \<longrightarrow> table_at (tab s) l0 p = Some t \<longrightarrow> table_at (tab s) l0 q = Some t \<longrightarrow> p = q) \<and>
    (\<forall>p t i. tpath (p @ [i]) \<longrightarrow> table_at (tab s) l0 p = Some t \<longrightarrow> pte_valid (tab s t i) \<longrightarrow> pte_table (tab s t i))"

text \<open>The leaf descriptor the hardware finds for a virtual address.\<close>

definition leaf :: "(u64 \<Rightarrow> u64 \<Rightarrow> u64) \<Rightarrow> u64 \<Rightarrow> u64 \<Rightarrow> u64 option" where
  "leaf T l0 va =
    (case table_at T l0 [L0_INDEX va, L1_INDEX va, L2_INDEX va] of
       None \<Rightarrow> None
     | Some t \<Rightarrow> if pte_valid (T t (L3_INDEX va)) \<and> pte_table (T t (L3_INDEX va)) then Some (T t (L3_INDEX va)) else None)"

definition tree_tables :: "(u64 \<Rightarrow> u64 \<Rightarrow> u64) \<Rightarrow> u64 \<Rightarrow> u64 set" where
  "tree_tables T l0 = {t. \<exists>p. tpath p \<and> table_at T l0 p = Some t}"

subsection \<open>Descriptor bits\<close>

lemma aligned_bits:
  assumes "4096 dvd unat (x :: u64)" "unat x < 2 ^ 48" "bit x n"
  shows "12 \<le> n" "n < 48"
proof -
  have "bit (unat x) n" using assms(3) by (simp add: bit_unsigned_iff bit_imp_possible_bit)
  then have b: "odd (unat x div 2 ^ n)" by (rule bit_iff_odd [THEN iffD1])
  show "n < 48"
  proof (rule ccontr)
    assume "\<not> n < 48"
    then have "(2::nat) ^ 48 \<le> 2 ^ n" by (intro power_increasing) auto
    then have "unat x div 2 ^ n = 0" using assms(2) by simp
    then show False using b by simp
  qed
  show "12 \<le> n"
  proof (rule ccontr)
    assume n: "\<not> 12 \<le> n"
    obtain k where "unat x = 4096 * k" using assms(1) by blast
    also have "(4096::nat) = 2 ^ (12 - n) * 2 ^ n" using n by (simp add: power_add [symmetric])
    finally have "unat x = (2 ^ (12 - n) * k) * 2 ^ n" by simp
    then have "unat x div 2 ^ n = 2 ^ (12 - n) * k" by simp
    then show False using b n by simp
  qed
qed

lemma bit_addr_mask: "bit PTE_ADDR_MASK n \<longleftrightarrow> 12 \<le> n \<and> n < 48"
proof -
  have m: "PTE_ADDR_MASK = push_bit 12 (mask 36)" by (simp add: mask_eq_exp_minus_1 push_bit_eq_mult)
  show ?thesis unfolding m by (simp only: bit_push_bit_iff bit_mask_iff possible_bit_word) auto
qed

lemma bit_one_two: "bit (1::u64) n \<longleftrightarrow> n = 0" "bit (2::u64) n \<longleftrightarrow> n = 1"
proof -
  show "bit (1::u64) n \<longleftrightarrow> n = 0" by (simp add: bit_simps)
  have t: "(2::u64) = push_bit 1 1" by simp
  show "bit (2::u64) n \<longleftrightarrow> n = 1" unfolding t by (simp only: bit_push_bit_iff bit_1_iff possible_bit_word) auto
qed

lemma pte_valid_bit: "pte_valid e \<longleftrightarrow> bit e 0"
  unfolding pte_valid_def bit_eq_iff by (auto simp: bit_simps bit_one_two)

lemma pte_table_bit: "pte_table e \<longleftrightarrow> bit e 1"
  unfolding pte_table_def bit_eq_iff by (auto simp: bit_simps bit_one_two)

lemma next_table_entry:
  assumes "4096 dvd unat t" "unat t < 2 ^ 48"
  shows "pte_next_table (t OR PTE_VALID OR PTE_TABLE) = t" "pte_valid (t OR PTE_VALID OR PTE_TABLE)"
    "pte_table (t OR PTE_VALID OR PTE_TABLE)"
proof -
  show "pte_next_table (t OR PTE_VALID OR PTE_TABLE) = t"
    unfolding pte_next_table_def using aligned_bits [OF assms]
    by (intro bit_eqI) (simp only: bit_and_iff bit_or_iff bit_addr_mask bit_one_two, auto)
  show "pte_valid (t OR PTE_VALID OR PTE_TABLE)" "pte_table (t OR PTE_VALID OR PTE_TABLE)"
    by (simp_all add: pte_valid_bit pte_table_bit bit_or_iff bit_one_two)
qed

lemma user_pte_valid: "pte_valid (user_pte pa flags)" "pte_table (user_pte pa flags)"
  by (simp_all add: user_pte_def pte_valid_bit pte_table_bit bit_or_iff bit_one_two)

lemma zero_not_valid [simp]: "\<not> pte_valid 0" by (simp add: pte_valid_def)


subsection \<open>Growing a tree\<close>

lemma table_at_append: "table_at T t (p @ q) = (case table_at T t p of None \<Rightarrow> None | Some u \<Rightarrow> table_at T u q)"
  by (induction p arbitrary: t) auto

lemma table_at_snoc: "table_at T t (p @ [i]) = (case table_at T t p of None \<Rightarrow> None
    | Some u \<Rightarrow> if pte_valid (T u i) then Some (pte_next_table (T u i)) else None)"
  by (simp add: table_at_append split: option.splits)

lemma path_snoc: "tpath (p @ [i]) \<longleftrightarrow> tpath p \<and> length p < 3 \<and> i < 512"
  by (auto simp: tpath_def)

lemma path_append: "tpath (p @ q) \<Longrightarrow> tpath p"
  by (auto simp: tpath_def)

text \<open>Hanging the zeroed page \<open>f\<close> below the empty entry \<open>i\<close> of the table at path \<open>p\<close>.\<close>

lemma table_at_grow:
  assumes inj: "\<And>q. tpath q \<Longrightarrow> table_at T l0 q = Some t \<Longrightarrow> q = p"
    and at: "table_at T l0 p = Some t" and empty: "\<not> pte_valid (T t i)"
    and fresh: "\<And>q. tpath q \<Longrightarrow> table_at T l0 q \<noteq> Some f"
    and e: "pte_valid e" "pte_next_table e = f"
    and p: "tpath (p @ [i])" and q: "tpath q"
  shows "table_at ((T(f := (\<lambda>_. 0)))(t := (T t)(i := e))) l0 q =
    (if \<exists>r. q = p @ [i] @ r then (if q = p @ [i] then Some f else None) else table_at T l0 q)"
proof -
  define T' where "T' = (T(f := (\<lambda>_. 0)))(t := (T t)(i := e))"
  have tf: "t \<noteq> f" using fresh [of p] at p path_append by blast
  have T': "T' f j = 0" "T' t j = (if j = i then e else T t j)" "u \<noteq> f \<Longrightarrow> u \<noteq> t \<Longrightarrow> T' u j = T u j" for u j
    using tf by (auto simp: T'_def)
  have "table_at T' l0 q =
    (if \<exists>r. q = p @ [i] @ r then (if q = p @ [i] then Some f else None) else table_at T l0 q)"
    using q
  proof (induction q rule: rev_induct)
    case (snoc j q)
    have pq: "tpath q" using snoc.prems path_append by blast
    note IH = snoc.IH [OF pq]
    show ?case
    proof (cases "\<exists>r. q = p @ [i] @ r")
      case True
      then have "\<exists>r. q @ [j] = p @ [i] @ r" "q @ [j] \<noteq> p @ [i]" by auto
      moreover have "table_at T' l0 (q @ [j]) = None"
        unfolding table_at_snoc IH using True by (auto simp: T'(1))
      ultimately show ?thesis by simp
    next
      case False
      then have IH': "table_at T' l0 q = table_at T l0 q" using IH by simp
      show ?thesis
      proof (cases "q = p \<and> j = i")
        case True
        then show ?thesis using IH' at e by (simp add: table_at_snoc T'(2))
      next
        case ne: False
        have "\<not> (\<exists>r. q @ [j] = p @ [i] @ r)"
        proof
          assume "\<exists>r. q @ [j] = p @ [i] @ r"
          then obtain r where r: "q @ [j] = p @ [i] @ r" by blast
          then show False using False ne by (cases r rule: rev_cases) auto
        qed
        moreover have "T' u j = T u j" if "table_at T l0 q = Some u" for u
          using that fresh [OF pq] inj [OF pq] ne T'(3) [of u j] T'(2) [of j] by (cases "u = t") auto
        ultimately show ?thesis using IH' by (auto simp: table_at_snoc split: option.splits)
      qed
    qed
  qed simp
  then show ?thesis by (simp only: T'_def)
qed

lemma index_lt: "L0_INDEX va < 512" "L1_INDEX va < 512" "L2_INDEX va < 512" "L3_INDEX va < 512"
proof -
  have "x AND 0x1FF < 512" for x :: u64
  proof -
    have "(0x1FF :: u64) = mask 9" by (simp add: mask_eq_exp_minus_1)
    then have "x AND 0x1FF = take_bit 9 x" by (simp add: take_bit_eq_mask)
    moreover have "unat (take_bit 9 x) < 512"
      using take_bit_nat_less_exp [of 9 "unat x"] by (simp add: unsigned_take_bit_eq)
    ultimately show ?thesis by (simp add: word_less_nat_alt)
  qed
  then show "L0_INDEX va < 512" "L1_INDEX va < 512" "L2_INDEX va < 512" "L3_INDEX va < 512"
    by (simp_all add: L0_INDEX_def L1_INDEX_def L2_INDEX_def L3_INDEX_def)
qed

lemma index_path: "tpath [L0_INDEX va, L1_INDEX va, L2_INDEX va]"
  by (simp add: tpath_def index_lt)


text \<open>What working on one tree may change: allocated pages and tables stay, tables of other
  address spaces are untouched.\<close>

definition keeps :: "u64 \<Rightarrow> 'a mm_scheme \<Rightarrow> 'a mm_scheme \<Rightarrow> bool" where
  "keeps l0 s s' \<longleftrightarrow> pmm_inv s' \<and> tree_ok s' l0 \<and>
    allocated s \<subseteq> allocated s' \<and> npages s' = npages s \<and> page_addr s' = page_addr s \<and> reserved_pages s' = reserved_pages s \<and>
    (\<forall>q t. tpath q \<longrightarrow> table_at (tab s) l0 q = Some t \<longrightarrow> table_at (tab s') l0 q = Some t) \<and>
    (\<forall>t. table_page s t \<longrightarrow> t \<notin> tree_tables (tab s) l0 \<longrightarrow> tab s' t = tab s t \<and> t \<notin> tree_tables (tab s') l0) \<and>
    (\<forall>n. n \<in> allocated s' \<longrightarrow> n \<notin> allocated s \<longrightarrow> page_addr s n \<in> tree_tables (tab s') l0)"

lemma more_fields:
  assumes "pmm.more s = pmm.more t"
  shows "tab s = tab t" "g_sigtramp_phys s = g_sigtramp_phys t" "insn s = insn t"
    "heap_head s = heap_head t" "hdr s = hdr t" "regions s = regions t" "mm.more s = mm.more t"
  using assms by (cases s; cases t; simp)+

lemma tab_upd_frame [simp]:
  "pmm_inv (s\<lparr>tab := x\<rparr>) = pmm_inv s" "allocated (s\<lparr>tab := x\<rparr>) = allocated s" "npages (s\<lparr>tab := x\<rparr>) = npages s"
  "page_addr (s\<lparr>tab := x\<rparr>) = page_addr s" "reserved_pages (s\<lparr>tab := x\<rparr>) = reserved_pages s"
  "table_page (s\<lparr>tab := x\<rparr>) t = table_page s t"
proof -
  have n: "npages (s\<lparr>tab := x\<rparr>) = npages s" by (simp add: npages_def)
  have u: "page_used (s\<lparr>tab := x\<rparr>) = page_used s" by (simp add: fun_eq_iff page_used_def)
  have a: "allocated (s\<lparr>tab := x\<rparr>) = allocated s" by (simp add: allocated_def n u)
  have p: "page_addr (s\<lparr>tab := x\<rparr>) = page_addr s" by (simp add: fun_eq_iff page_addr_def)
  show "npages (s\<lparr>tab := x\<rparr>) = npages s" "allocated (s\<lparr>tab := x\<rparr>) = allocated s" "page_addr (s\<lparr>tab := x\<rparr>) = page_addr s"
    by (rule n a p)+
  show "pmm_inv (s\<lparr>tab := x\<rparr>) = pmm_inv s" by (simp add: pmm_inv_def n u a)
  show "reserved_pages (s\<lparr>tab := x\<rparr>) = reserved_pages s" by simp
  show "table_page (s\<lparr>tab := x\<rparr>) t = table_page s t" by (simp add: table_page_def a p)
qed

lemma set_entry_frame [simp]:
  "pmm_inv (set_entry t i v s) = pmm_inv s" "allocated (set_entry t i v s) = allocated s"
  "npages (set_entry t i v s) = npages s" "page_addr (set_entry t i v s) = page_addr s"
  "reserved_pages (set_entry t i v s) = reserved_pages s"
  "tab (set_entry t i v s) = (tab s)(t := (tab s t)(i := v))"
  by (simp_all add: set_entry_def)

lemma alloc_table_cases:
  assumes inv: "pmm_inv s"
  obtains (full) "alloc_table s = (0, s)" "allocated s = {..<npages s}"
  | (fresh) n where "alloc_table s = (page_addr s n, (take_run n 1 s)\<lparr>tab := (tab s)(page_addr s n := (\<lambda>_. 0))\<rparr>)"
      "n < npages s" "n \<notin> allocated s" "unat (reserved_pages s) \<le> n" "page_addr s n \<noteq> 0"
      "pmm_inv (take_run n 1 s)" "allocated (take_run n 1 s) = insert n (allocated s)" "tab (take_run n 1 s) = tab s"
proof (cases "allocated s = {..<npages s}")
  case True
  then show ?thesis using pmm_allocate_page_cases [OF inv] by (intro full) (simp_all add: alloc_table_def)
next
  case False
  let ?n = "first_free s"
  have n: "?n < npages s" "\<not> page_used s ?n" using first_free_props [OF False] by auto
  have res: "unat (reserved_pages s) \<le> ?n" using inv n(2) by (auto simp: pmm_inv_def not_less [symmetric])
  have na: "?n \<notin> allocated s" using n(2) by (simp add: allocated_def)
  have nz: "page_addr s ?n \<noteq> 0" using page_addr_nonzero [OF inv] n(1) by simp
  have t: "tab (take_run ?n 1 s) = tab s" using more_fields(1) [of "take_run ?n 1 s" s] by simp
  have a: "allocated (take_run ?n 1 s) = insert ?n (allocated s)" using allocated_take_run [OF inv, of ?n 1] n(1) by auto
  have i: "pmm_inv (take_run ?n 1 s)" using pmm_inv_take_run [OF inv, of ?n 1] n(1) na by auto
  show ?thesis
    using pmm_allocate_page_cases [OF inv] False nz n(1) na res t a i
    by (intro fresh [of ?n]) (simp_all add: alloc_table_def)
qed


lemma keeps_refl: "pmm_inv s \<Longrightarrow> tree_ok s l0 \<Longrightarrow> keeps l0 s s"
  by (simp add: keeps_def)

lemma table_page_mono:
  "table_page s t \<Longrightarrow> allocated s \<subseteq> allocated s' \<Longrightarrow> page_addr s' = page_addr s \<Longrightarrow>
   reserved_pages s' = reserved_pages s \<Longrightarrow> table_page s' t"
  by (auto simp: table_page_def)

lemma keepsD:
  assumes "keeps l0 s t"
  shows "pmm_inv t" "tree_ok t l0" "allocated s \<subseteq> allocated t" "npages t = npages s" "page_addr t = page_addr s"
    "reserved_pages t = reserved_pages s"
    "tpath q \<Longrightarrow> table_at (tab s) l0 q = Some u \<Longrightarrow> table_at (tab t) l0 q = Some u"
    "table_page s x \<Longrightarrow> x \<notin> tree_tables (tab s) l0 \<Longrightarrow> tab t x = tab s x"
    "table_page s x \<Longrightarrow> x \<notin> tree_tables (tab s) l0 \<Longrightarrow> x \<notin> tree_tables (tab t) l0"
    "table_page s x \<Longrightarrow> table_page t x"
    "n \<in> allocated t \<Longrightarrow> n \<notin> allocated s \<Longrightarrow> page_addr s n \<in> tree_tables (tab t) l0"
  using assms unfolding keeps_def by (blast intro: table_page_mono)+

lemma keeps_trans:
  assumes a: "keeps l0 s t" and b: "keeps l0 t u"
  shows "keeps l0 s u"
  unfolding keeps_def
proof (intro conjI allI impI)
  show "allocated s \<subseteq> allocated u" using keepsD(3) [OF a] keepsD(3) [OF b] by blast
  show "table_at (tab u) l0 q = Some x" if "tpath q" "table_at (tab s) l0 q = Some x" for q x
    using keepsD(7) [OF b that(1) keepsD(7) [OF a that]] .
  show "page_addr s n \<in> tree_tables (tab u) l0" if "n \<in> allocated u" "n \<notin> allocated s" for n
  proof (cases "n \<in> allocated t")
    case True
    then have "page_addr s n \<in> tree_tables (tab t) l0" using keepsD(11) [OF a] that(2) by blast
    then show ?thesis using keepsD(7) [OF b] unfolding tree_tables_def by blast
  next
    case False
    then show ?thesis using keepsD(11) [OF b that(1)] keepsD(5) [OF a] by simp
  qed
  fix x assume x: "table_page s x" "x \<notin> tree_tables (tab s) l0"
  note y = keepsD(10) [OF a x(1)] keepsD(9) [OF a x]
  show "tab u x = tab s x" using keepsD(8) [OF b y] keepsD(8) [OF a x] by simp
  show "x \<notin> tree_tables (tab u) l0" by (rule keepsD(9) [OF b y])
qed (simp_all add: keepsD(1,2,4-6) [OF a] keepsD(1,2,4-6) [OF b])

lemma page_addr_inj:
  assumes "pmm_inv s" "m \<le> npages s" "n \<le> npages s" "page_addr s m = page_addr s n"
  shows "m = n"
proof -
  have "unat (mem_region_start s) + 4096 * m = unat (mem_region_start s) + 4096 * n"
    using unat_page_addr [OF assms(1,2)] unat_page_addr [OF assms(1,3)] assms(4) by metis
  then show ?thesis by simp
qed

lemma not_table_page: "pmm_inv s \<Longrightarrow> n < npages s \<Longrightarrow> n \<notin> allocated s \<Longrightarrow> \<not> table_page s (page_addr s n)"
  by (metis (mono_tags, lifting) allocated_def le_less mem_Collect_eq page_addr_inj table_page_def)

lemma page_addr_bounds:
  assumes "pmm_inv s" "n < npages s"
  shows "4096 dvd unat (page_addr s n)" "unat (page_addr s n) < 2 ^ 48"
proof -
  show "4096 dvd unat (page_addr s n)" using page_addr_aligned [OF assms(1)] assms(2) by simp
  have "unat (page_addr s n) < unat (mem_region_end s)" "unat (mem_region_end s) < 2 ^ 48"
    using unat_page_addr [OF assms(1), of n] assms by (auto simp: pmm_inv_def)
  then show "unat (page_addr s n) < 2 ^ 48" by simp
qed

lemma hang_table_at:
  assumes inv: "pmm_inv s" and tree: "tree_ok s l0" and p: "tpath (p @ [i])" and at: "table_at (tab s) l0 p = Some t"
    and empty: "\<not> pte_valid (tab s t i)"
    and n: "n < npages s" "n \<notin> allocated s" and q: "tpath q"
  shows "table_at (((tab s)(page_addr s n := (\<lambda>_. 0)))(t := (tab s t)(i := page_addr s n OR PTE_VALID OR PTE_TABLE))) l0 q =
    (if \<exists>r. q = p @ [i] @ r then (if q = p @ [i] then Some (page_addr s n) else None) else table_at (tab s) l0 q)"
proof (rule table_at_grow [OF _ at empty])
  show "q = p" if "tpath q" "table_at (tab s) l0 q = Some t" for q
    using tree that at p path_append unfolding tree_ok_def by blast
  show "table_at (tab s) l0 q \<noteq> Some (page_addr s n)" if "tpath q" for q
    using tree that not_table_page [OF inv n(1,2)] unfolding tree_ok_def by blast
  show "pte_valid (page_addr s n OR PTE_VALID OR PTE_TABLE)"
    "pte_next_table (page_addr s n OR PTE_VALID OR PTE_TABLE) = page_addr s n"
    using next_table_entry [OF page_addr_bounds [OF inv n(1)]] by simp_all
qed (use p q in auto)

definition hung :: "u64 \<Rightarrow> 'a mm_scheme \<Rightarrow> u64 list \<Rightarrow> u64 \<Rightarrow> u64 \<Rightarrow> nat \<Rightarrow> 'a mm_scheme \<Rightarrow> bool" where
  "hung l0 s p i t n s' \<longleftrightarrow> pmm_inv s \<and> tree_ok s l0 \<and> tpath (p @ [i]) \<and> table_at (tab s) l0 p = Some t \<and>
    \<not> pte_valid (tab s t i) \<and> n < npages s \<and> n \<notin> allocated s \<and> unat (reserved_pages s) \<le> n \<and>
    pmm_inv s' \<and> allocated s' = insert n (allocated s) \<and> npages s' = npages s \<and> page_addr s' = page_addr s \<and>
    reserved_pages s' = reserved_pages s \<and>
    tab s' = ((tab s)(page_addr s n := (\<lambda>_. 0)))(t := (tab s t)(i := page_addr s n OR PTE_VALID OR PTE_TABLE))"

lemma hungD:
  assumes h: "hung l0 s p i t n s'"
  shows "\<not> table_page s (page_addr s n)"
    "tpath q \<Longrightarrow> table_at (tab s') l0 q = (if \<exists>r. q = p @ [i] @ r then (if q = p @ [i] then Some (page_addr s n) else None)
      else table_at (tab s) l0 q)"
    "table_at (tab s) l0 (p @ [i] @ r) = None"
    "tpath q \<Longrightarrow> table_at (tab s) l0 q = Some u \<Longrightarrow> table_page s u"
    "tpath q \<Longrightarrow> tpath q' \<Longrightarrow> table_at (tab s) l0 q = Some u \<Longrightarrow> table_at (tab s) l0 q' = Some u \<Longrightarrow> q = q'"
    "tab s' u j = (if u = t \<and> j = i then page_addr s n OR PTE_VALID OR PTE_TABLE else if u = page_addr s n then 0 else tab s u j)"
    "table_page s t" "table_page s u \<Longrightarrow> table_page s' u" "table_page s' (page_addr s n)"
proof -
  show f: "\<not> table_page s (page_addr s n)" using h not_table_page unfolding hung_def by blast
  show "table_at (tab s) l0 (p @ [i] @ r) = None" using h by (simp add: table_at_append hung_def)
  show t: "tpath q \<Longrightarrow> table_at (tab s) l0 q = Some u \<Longrightarrow> table_page s u" for q u
    using h unfolding hung_def tree_ok_def by blast
  show "tpath q \<Longrightarrow> tpath q' \<Longrightarrow> table_at (tab s) l0 q = Some u \<Longrightarrow> table_at (tab s) l0 q' = Some u \<Longrightarrow> q = q'" for q q' u
    using h unfolding hung_def tree_ok_def by blast
  show tp: "table_page s t" using h t path_append unfolding hung_def by blast
  show "tab s' u j = (if u = t \<and> j = i then page_addr s n OR PTE_VALID OR PTE_TABLE else if u = page_addr s n then 0 else tab s u j)"
    using h f tp by (auto simp: hung_def)
  show "table_page s u \<Longrightarrow> table_page s' u" for u
    using h table_page_mono [of s u s'] unfolding hung_def by auto
  show "table_page s' (page_addr s n)" using h by (auto simp: hung_def table_page_def)
  show "table_at (tab s') l0 q = (if \<exists>r. q = p @ [i] @ r then (if q = p @ [i] then Some (page_addr s n) else None)
      else table_at (tab s) l0 q)" if "tpath q"
    using h hang_table_at [of s l0 p i t n q] that by (simp add: hung_def)
qed

lemma hung_tree_ok:
  assumes h: "hung l0 s p i t n s'"
  shows "tree_ok s' l0"
  unfolding tree_ok_def
proof (intro conjI allI impI)
  note D = hungD [OF h]
  show "table_page s' u" if "tpath q" "table_at (tab s') l0 q = Some u" for q u
    using that D(2) [OF that(1)] D(4) [OF that(1)] D(8,9) by (auto split: if_splits)
  show "q = q'" if "tpath q" "tpath q'" "table_at (tab s') l0 q = Some u" "table_at (tab s') l0 q' = Some u" for q q' u
    using that D(2) [OF that(1)] D(2) [OF that(2)] D(5) [OF that(1,2)] D(1,4) by (auto split: if_splits)
  fix q u j
  assume q: "tpath (q @ [j])" "table_at (tab s') l0 q = Some u" "pte_valid (tab s' u j)"
  show "pte_table (tab s' u j)"
  proof (cases "u = t \<and> j = i")
    case True
    then show ?thesis using h next_table_entry(3) [OF page_addr_bounds [of s n]] by (simp add: D(6) hung_def)
  next
    case False
    then have u: "u \<noteq> page_addr s n" "pte_valid (tab s u j)" "tab s' u j = tab s u j"
      using q(3) by (auto simp: D(6) split: if_splits)
    then have "table_at (tab s) l0 q = Some u"
      using q(2) D(2) [of q] path_append [OF q(1)] by (auto split: if_splits)
    then show ?thesis using h q(1) u unfolding hung_def tree_ok_def by auto
  qed
qed

lemma hung_leaf:
  assumes h: "hung l0 s p i t n s'"
  shows "leaf (tab s') l0 va = leaf (tab s) l0 va"
proof (cases "\<exists>r. [L0_INDEX va, L1_INDEX va, L2_INDEX va] = p @ [i] @ r")
  let ?q = "[L0_INDEX va, L1_INDEX va, L2_INDEX va]"
  note D = hungD [OF h]
  case True
  then have "table_at (tab s) l0 ?q = None" using D(3) by metis
  moreover have "table_at (tab s') l0 ?q \<in> {None, Some (page_addr s n)}" using D(2) [OF index_path] True by simp
  moreover have "\<not> pte_valid (tab s' (page_addr s n) j)" for j using D(1,7) by (auto simp: D(6))
  ultimately show ?thesis by (auto simp: leaf_def)
next
  let ?q = "[L0_INDEX va, L1_INDEX va, L2_INDEX va]"
  note D = hungD [OF h]
  case False
  then have same: "table_at (tab s') l0 ?q = table_at (tab s) l0 ?q" using D(2) [OF index_path] by simp
  have "tab s' u j = tab s u j" if "table_at (tab s) l0 ?q = Some u" for u j
  proof -
    have "u \<noteq> page_addr s n" using D(4) [OF index_path that] D(1) by blast
    moreover have "u \<noteq> t"
    proof
      assume "u = t"
      moreover have "tpath p" "length p < 3" "table_at (tab s) l0 p = Some t" using h by (auto simp: hung_def path_snoc)
      ultimately have "?q = p" using D(5) [OF index_path _ that] by blast
      then show False using \<open>length p < 3\<close> by auto
    qed
    ultimately show ?thesis by (simp add: D(6))
  qed
  then show ?thesis using same by (auto simp: leaf_def split: option.splits)
qed

lemma hung_grows:
  assumes h: "hung l0 s p i t n s'"
  shows "keeps l0 s s'" "table_at (tab s') l0 (p @ [i]) = Some (page_addr s n)"
proof -
  note D = hungD [OF h]
  show "table_at (tab s') l0 (p @ [i]) = Some (page_addr s n)" using D(2) [of "p @ [i]"] h by (simp add: hung_def)
  have mono: "table_at (tab s') l0 q = Some u" if "tpath q" "table_at (tab s) l0 q = Some u" for q u
    using D(2) [OF that(1)] D(3) that(2) by auto
  have out: "tab s' x = tab s x \<and> x \<notin> tree_tables (tab s') l0"
    if x: "table_page s x" "x \<notin> tree_tables (tab s) l0" for x
  proof
    have "x \<noteq> page_addr s n" using D(1) x(1) by blast
    moreover have "x \<noteq> t" using x(2) h path_append unfolding hung_def tree_tables_def by blast
    ultimately show "tab s' x = tab s x" by (simp add: fun_eq_iff D(6))
    show "x \<notin> tree_tables (tab s') l0"
      using x(2) \<open>x \<noteq> page_addr s n\<close> D(2) unfolding tree_tables_def by (auto split: if_splits)
  qed
  have "page_addr s n \<in> tree_tables (tab s') l0"
    using h \<open>table_at (tab s') l0 (p @ [i]) = Some (page_addr s n)\<close> unfolding hung_def tree_tables_def by blast
  then show "keeps l0 s s'"
    using h hung_tree_ok [OF h] mono out unfolding keeps_def hung_def by auto
qed

lemma next_level_grows:
  assumes inv: "pmm_inv s" and tree: "tree_ok s l0" and p: "tpath (p @ [i])" and at: "table_at (tab s) l0 p = Some t"
    and nl: "next_level True t i s = (r, s')"
  shows "keeps l0 s s' \<and> leaf (tab s') l0 = leaf (tab s) l0 \<and> (case r of None \<Rightarrow> allocated s' = {..<npages s'} | Some n \<Rightarrow> table_at (tab s') l0 (p @ [i]) = Some n)"
proof (cases "pte_valid (tab s t i)")
  case True
  then have "r = Some (pte_next_table (tab s t i))" "s' = s" using nl by (auto simp: next_level_def)
  then show ?thesis using keeps_refl [OF inv tree] at True by (simp add: table_at_snoc)
next
  case False
  from inv show ?thesis
  proof (cases rule: alloc_table_cases)
    case full
    then show ?thesis using nl False keeps_refl [OF inv tree] by (auto simp: next_level_def)
  next
    case (fresh n)
    then have r: "r = Some (page_addr s n)"
      and s': "s' = set_entry t i (page_addr s n OR PTE_VALID OR PTE_TABLE) ((take_run n 1 s)\<lparr>tab := (tab s)(page_addr s n := (\<lambda>_. 0))\<rparr>)"
      using nl False by (auto simp: next_level_def)
    have "t \<noteq> page_addr s n"
      using tree at p path_append not_table_page [OF inv fresh(2,3)] unfolding tree_ok_def by blast
    then have "hung l0 s p i t n s'"
      using inv tree p at False fresh by (simp add: hung_def s')
    then show ?thesis using hung_grows [of l0 s p i t n s'] hung_leaf [of l0 s p i t n s'] r by auto
  qed
qed


lemma next_level_path:
  assumes "pmm_inv s" "tree_ok s l0" "table_at (tab s) l0 p = Some t" "next_level True t i s = (r, s')"
    "q = p @ [i]" "tpath q"
  shows "keeps l0 s s'" "leaf (tab s') l0 = leaf (tab s) l0"
    "case r of None \<Rightarrow> allocated s' = {..<npages s'} | Some n \<Rightarrow> table_at (tab s') l0 q = Some n"
  using next_level_grows [OF assms(1,2) _ assms(3,4)] assms(5,6) by blast+

lemma walk_keeps:
  assumes inv: "pmm_inv s" and tree: "tree_ok s l0" and w: "walk_levels l0 va 3 True s = (r, s')"
  shows "keeps l0 s s' \<and> leaf (tab s') l0 = leaf (tab s) l0 \<and>
    (case r of None \<Rightarrow> allocated s' = {..<npages s'}
     | Some (t, e) \<Rightarrow> e = L3_INDEX va \<and> table_at (tab s') l0 [L0_INDEX va, L1_INDEX va, L2_INDEX va] = Some t)"
proof -
  obtain r1 s1 where 1: "next_level True l0 (L0_INDEX va) s = (r1, s1)" by fastforce
  have k1: "keeps l0 s s1" "leaf (tab s1) l0 = leaf (tab s) l0"
      "case r1 of None \<Rightarrow> allocated s1 = {..<npages s1} | Some n \<Rightarrow> table_at (tab s1) l0 [L0_INDEX va] = Some n"
    using next_level_path [OF inv tree table_at.simps(1) 1, of "[L0_INDEX va]"] by (simp_all add: tpath_def index_lt del: table_at.simps)
  show ?thesis
  proof (cases r1)
    case None
    then show ?thesis using k1 1 w by (simp add: walk_levels_def)
  next
    case (Some l1)
    obtain r2 s2 where 2: "next_level True l1 (L1_INDEX va) s1 = (r2, s2)" by fastforce
    have k2: "keeps l0 s1 s2" "leaf (tab s2) l0 = leaf (tab s1) l0"
        "case r2 of None \<Rightarrow> allocated s2 = {..<npages s2} | Some n \<Rightarrow> table_at (tab s2) l0 [L0_INDEX va, L1_INDEX va] = Some n"
      using next_level_path [OF keepsD(1,2) [OF k1(1)] _ 2, of "[L0_INDEX va]" "[L0_INDEX va, L1_INDEX va]"] k1(3) Some
      by (simp_all add: tpath_def index_lt del: table_at.simps)
    note k12 = keeps_trans [OF k1(1) k2(1)]
    show ?thesis
    proof (cases r2)
      case None
      then show ?thesis using k12 k1(2) k2 1 2 Some w by (simp add: walk_levels_def)
    next
      case (Some l2)
      obtain r3 s3 where 3: "next_level True l2 (L2_INDEX va) s2 = (r3, s3)" by fastforce
      have k3: "keeps l0 s2 s3" "leaf (tab s3) l0 = leaf (tab s2) l0"
        "case r3 of None \<Rightarrow> allocated s3 = {..<npages s3}
         | Some n \<Rightarrow> table_at (tab s3) l0 [L0_INDEX va, L1_INDEX va, L2_INDEX va] = Some n"
        using next_level_path [OF keepsD(1,2) [OF k2(1)] _ 3, of "[L0_INDEX va, L1_INDEX va]" "[L0_INDEX va, L1_INDEX va, L2_INDEX va]"]
          k2(3) Some
        by (simp_all add: tpath_def index_lt del: table_at.simps)
      have "r = map_option (\<lambda>t. (t, L3_INDEX va)) r3" "s' = s3"
        using w 1 2 3 \<open>r1 = Some l1\<close> Some by (auto simp: walk_levels_def split: option.splits)
      then show ?thesis using keeps_trans [OF k12 k3(1)] k1(2) k2(2) k3(2,3)
        by (cases r3) (simp_all del: table_at.simps)
    qed
  qed
qed

text \<open>Writing a leaf entry.\<close>

lemma write_leaf:
  fixes s :: "'a mm_scheme" and e v :: u64
  assumes inv: "pmm_inv s" and tree: "tree_ok s l0" and q: "tpath q" "length q = 3" "table_at (tab s) l0 q = Some t"
  defines "s' \<equiv> set_entry t e v s"
  shows "keeps l0 s s'" "tpath p \<Longrightarrow> table_at (tab s') l0 p = table_at (tab s) l0 p"
proof -
  have tab': "tab s' u j = (if u = t \<and> j = e then v else tab s u j)" for u j by (simp add: s'_def)
  have inj: "p = q" if "tpath p" "table_at (tab s) l0 p = Some t" for p
    using tree q that unfolding tree_ok_def by blast
  show tat: "table_at (tab s') l0 p = table_at (tab s) l0 p" if "tpath p" for p
    using that
  proof (induction p rule: rev_induct)
    case (snoc i p)
    then have "tpath p" "length p < 3" by (auto simp: path_snoc)
    moreover have "tab s' u i = tab s u i" if "table_at (tab s) l0 p = Some u" for u
      using inj [OF \<open>tpath p\<close>] that \<open>length p < 3\<close> q(2) by (auto simp: tab')
    ultimately show ?case using snoc.IH by (auto simp: table_at_snoc split: option.splits)
  qed simp
  have "t \<in> tree_tables (tab s) l0" using q unfolding tree_tables_def by blast
  then have out: "tab s' x = tab s x" if "x \<notin> tree_tables (tab s) l0" for x using that by (auto simp: fun_eq_iff tab')
  have tp: "table_page s' x = table_page s x" for x by (simp add: table_page_def s'_def)
  have "tree_ok s' l0"
    unfolding tree_ok_def
  proof (intro conjI allI impI)
    fix p u i
    assume p: "tpath (p @ [i])" "table_at (tab s') l0 p = Some u" "pte_valid (tab s' u i)"
    then have "tpath p" "length p < 3" by (auto simp: path_snoc)
    then have "u \<noteq> t" using p(2) tat inj q(2) by auto
    then show "pte_table (tab s' u i)"
      using tree p \<open>tpath p\<close> tat unfolding tree_ok_def by (simp add: tab')
  qed (use tree tat tp in \<open>auto simp: tree_ok_def\<close>)
  moreover have "tree_tables (tab s') l0 = tree_tables (tab s) l0" using tat unfolding tree_tables_def by auto
  ultimately show "keeps l0 s s'" using inv out tat unfolding keeps_def by (auto simp: s'_def)
qed


definition indices :: "u64 \<Rightarrow> u64 list" where
  "indices va = [L0_INDEX va, L1_INDEX va, L2_INDEX va, L3_INDEX va]"

lemma write_leaf_at:
  assumes inv: "pmm_inv s" and tree: "tree_ok s l0" and at: "table_at (tab s) l0 [L0_INDEX va, L1_INDEX va, L2_INDEX va] = Some t"
    and v: "pte_valid v" "pte_table v"
  shows "leaf (tab (set_entry t (L3_INDEX va) v s)) l0 w = (if indices w = indices va then Some v else leaf (tab s) l0 w)"
proof -
  let ?q = "[L0_INDEX va, L1_INDEX va, L2_INDEX va]" and ?r = "[L0_INDEX w, L1_INDEX w, L2_INDEX w]"
  let ?s = "set_entry t (L3_INDEX va) v s"
  have same: "table_at (tab ?s) l0 ?r = table_at (tab s) l0 ?r"
    by (rule write_leaf(2) [OF inv tree index_path _ at index_path]) simp
  have tab': "tab ?s u j = (if u = t \<and> j = L3_INDEX va then v else tab s u j)" for u j by simp
  have inj: "?r = ?q" if "table_at (tab s) l0 ?r = Some t"
    using tree at that index_path unfolding tree_ok_def by blast
  show ?thesis
  proof (cases "table_at (tab s) l0 ?r")
    case None
    then have "indices w \<noteq> indices va" using at by (auto simp: indices_def simp del: table_at.simps)
    then show ?thesis using None same by (simp add: leaf_def del: table_at.simps)
  next
    case (Some u)
    have "u = t \<and> L3_INDEX w = L3_INDEX va \<longleftrightarrow> indices w = indices va"
      using Some at inj by (auto simp: indices_def simp del: table_at.simps)
    then show ?thesis using Some same v unfolding leaf_def tab' by (simp del: table_at.simps set_entry_frame)
  qed
qed

lemma index_field: "(drop_bit k x AND 0x1FF) = (drop_bit k y AND 0x1FF) \<longleftrightarrow> (\<forall>n. k \<le> n \<longrightarrow> n < k + 9 \<longrightarrow> bit x n = bit y n)"
  for x y :: u64
proof -
  have m: "(0x1FF :: u64) = mask 9" by (simp add: mask_eq_exp_minus_1)
  have "(drop_bit k x AND 0x1FF) = (drop_bit k y AND 0x1FF) \<longleftrightarrow>
      (\<forall>j < 64. (bit x (k + j) \<and> j < 9) = (bit y (k + j) \<and> j < 9))"
    unfolding m bit_eq_iff by (simp add: bit_and_iff bit_mask_iff bit_drop_bit_eq)
  also have "\<dots> \<longleftrightarrow> (\<forall>j < 9. bit x (k + j) = bit y (k + j))"
  proof
    assume a: "\<forall>j < 64. (bit x (k + j) \<and> j < 9) = (bit y (k + j) \<and> j < 9)"
    have "bit x (k + j) = bit y (k + j)" if "j < 9" for j
    proof -
      have "j < 64" using that by simp
      then show ?thesis using a that by blast
    qed
    then show "\<forall>j < 9. bit x (k + j) = bit y (k + j)" by blast
  qed auto
  also have "\<dots> \<longleftrightarrow> (\<forall>n. k \<le> n \<longrightarrow> n < k + 9 \<longrightarrow> bit x n = bit y n)"
  proof
    assume a: "\<forall>j < 9. bit x (k + j) = bit y (k + j)"
    have "bit x n = bit y n" if "k \<le> n" "n < k + 9" for n
      using a [rule_format, of "n - k"] that by simp
    then show "\<forall>n. k \<le> n \<longrightarrow> n < k + 9 \<longrightarrow> bit x n = bit y n" by blast
  qed auto
  finally show ?thesis .
qed

lemma high_bits_zero: "unat (x :: u64) < 2 ^ 48 \<Longrightarrow> 48 \<le> n \<Longrightarrow> \<not> bit x n"
proof
  assume x: "unat x < 2 ^ 48" "48 \<le> n" "bit x n"
  then have "bit (unat x) n" by (simp add: bit_unsigned_iff bit_imp_possible_bit)
  then have "odd (unat x div 2 ^ n)" by (rule bit_iff_odd [THEN iffD1])
  moreover have "unat x < 2 ^ n" using x(1,2) less_le_trans [OF x(1) power_increasing [of 48 n 2]] by simp
  ultimately show False by simp
qed

lemma indices_eq_iff:
  assumes "unat x < 2 ^ 48" "unat y < 2 ^ 48"
  shows "indices x = indices y \<longleftrightarrow> unat x div 4096 = unat y div 4096"
proof -
  have "indices x = indices y \<longleftrightarrow> (\<forall>n. 12 \<le> n \<longrightarrow> n < 48 \<longrightarrow> bit x n = bit y n)"
  proof
    assume "indices x = indices y"
    then have f: "\<forall>n. 39 \<le> n \<longrightarrow> n < 48 \<longrightarrow> bit x n = bit y n" "\<forall>n. 30 \<le> n \<longrightarrow> n < 39 \<longrightarrow> bit x n = bit y n"
      "\<forall>n. 21 \<le> n \<longrightarrow> n < 30 \<longrightarrow> bit x n = bit y n" "\<forall>n. 12 \<le> n \<longrightarrow> n < 21 \<longrightarrow> bit x n = bit y n"
      unfolding indices_def L0_INDEX_def L1_INDEX_def L2_INDEX_def L3_INDEX_def list.inject index_field by simp_all
    show "\<forall>n. 12 \<le> n \<longrightarrow> n < 48 \<longrightarrow> bit x n = bit y n"
    proof (intro allI impI)
      fix n :: nat assume "12 \<le> n" "n < 48"
      then show "bit x n = bit y n" using f [rule_format, of n] by linarith
    qed
  next
    assume "\<forall>n. 12 \<le> n \<longrightarrow> n < 48 \<longrightarrow> bit x n = bit y n"
    then show "indices x = indices y"
      unfolding indices_def L0_INDEX_def L1_INDEX_def L2_INDEX_def L3_INDEX_def list.inject index_field by simp
  qed
  also have "\<dots> \<longleftrightarrow> drop_bit 12 x = drop_bit 12 y"
  proof
    assume a: "\<forall>n. 12 \<le> n \<longrightarrow> n < 48 \<longrightarrow> bit x n = bit y n"
    have "bit x (12 + n) = bit y (12 + n)" for n
      using a high_bits_zero [OF assms(1), of "12 + n"] high_bits_zero [OF assms(2), of "12 + n"]
      by (cases "12 + n < 48") auto
    then show "drop_bit 12 x = drop_bit 12 y" by (intro bit_eqI) (simp add: bit_drop_bit_eq)
  next
    assume "drop_bit 12 x = drop_bit 12 y"
    then have "bit x (12 + n) = bit y (12 + n)" for n by (metis bit_drop_bit_eq comp_apply)
    then show "\<forall>n. 12 \<le> n \<longrightarrow> n < 48 \<longrightarrow> bit x n = bit y n" by (metis le_add_diff_inverse)
  qed
  also have "\<dots> \<longleftrightarrow> unat x div 4096 = unat y div 4096"
    by (simp add: word_unat_eq_iff unat_drop_64)
  finally show ?thesis .
qed


lemma map_one:
  fixes s :: "'a mm_scheme" and pa flags :: u64
  assumes inv: "pmm_inv s" and tree: "tree_ok s l0" and w: "walk_levels l0 va 3 True s = (Some (t, e), s1)"
  defines "s' \<equiv> set_entry t e (user_pte pa flags) s1"
  shows "keeps l0 s s'"
    "leaf (tab s') l0 x = (if indices x = indices va then Some (user_pte pa flags) else leaf (tab s) l0 x)"
proof -
  have k: "keeps l0 s s1" "leaf (tab s1) l0 = leaf (tab s) l0" "e = L3_INDEX va"
      "table_at (tab s1) l0 [L0_INDEX va, L1_INDEX va, L2_INDEX va] = Some t"
    using walk_keeps [OF inv tree w] by (simp_all del: table_at.simps)
  show "keeps l0 s s'"
    unfolding s'_def by (rule keeps_trans [OF k(1) write_leaf(1) [OF keepsD(1,2) [OF k(1)] index_path _ k(4)]]) simp
  show "leaf (tab s') l0 x = (if indices x = indices va then Some (user_pte pa flags) else leaf (tab s) l0 x)"
    using write_leaf_at [OF keepsD(1,2) [OF k(1)] k(4) user_pte_valid] k(2,3) unfolding s'_def by metis
qed

lemma page_step:
  assumes "4096 dvd unat va" "unat va + 4096 * n \<le> 2 ^ 48" "j < n"
  shows "unat (va + of_nat j * PAGE_SIZE) < 2 ^ 48" "unat (va + of_nat j * PAGE_SIZE) div 4096 = unat va div 4096 + j"
proof -
  obtain a where a: "unat va = 4096 * a" using assms(1) by blast
  have j: "4096 * a + 4096 * j < 2 ^ 48" using assms a by simp
  then have "unat (of_nat j * PAGE_SIZE :: u64) = 4096 * j"
    by (simp add: unat_mult_64 unat_of_nat_64)
  then have u: "unat (va + of_nat j * PAGE_SIZE) = 4096 * (a + j)" using a j by (simp add: unat_plus_64)
  show "unat (va + of_nat j * PAGE_SIZE) < 2 ^ 48" using u j by simp
  show "unat (va + of_nat j * PAGE_SIZE) div 4096 = unat va div 4096 + j" unfolding u a by simp
qed

lemma map_pages_spec:
  assumes va: "4096 dvd unat va" "unat va + 4096 * n \<le> 2 ^ 48"
  shows "pmm_inv s \<Longrightarrow> tree_ok s l0 \<Longrightarrow> j \<le> n \<Longrightarrow>
    \<exists>k. j \<le> k \<and> k \<le> n \<and> keeps l0 s (map_pages l0 va pa flags [j..<n] s) \<and>
      (k < n \<longrightarrow> allocated (map_pages l0 va pa flags [j..<n] s) = {..<npages s}) \<and>
      (\<forall>x. unat x < 2 ^ 48 \<longrightarrow> leaf (tab (map_pages l0 va pa flags [j..<n] s)) l0 x =
        (if unat va div 4096 + j \<le> unat x div 4096 \<and> unat x div 4096 < unat va div 4096 + k
         then Some (user_pte (pa + of_nat (unat x div 4096 - unat va div 4096) * PAGE_SIZE) flags)
         else leaf (tab s) l0 x))"
proof (induction "n - j" arbitrary: j s)
  case 0
  then show ?case by (intro exI [of _ n]) (auto simp: keeps_refl)
next
  case (Suc m)
  have up: "[j..<n] = j # [Suc j..<n]" and jn: "j < n" using Suc.hyps(2) by (simp_all add: upt_conv_Cons)
  let ?v = "va + of_nat j * PAGE_SIZE" and ?p = "pa + of_nat j * PAGE_SIZE"
  obtain r s1 where w: "walk_levels l0 ?v 3 True s = (r, s1)" by fastforce
  show ?case
  proof (cases r)
    case None
    have k: "keeps l0 s s1" "leaf (tab s1) l0 = leaf (tab s) l0" "allocated s1 = {..<npages s1}"
      using walk_keeps [OF Suc.prems(1,2) w] None by simp_all
    have run: "map_pages l0 va pa flags [j..<n] s = s1" by (simp add: up w None)
    show ?thesis unfolding run
    proof (intro exI [of _ j] conjI allI impI)
      show "allocated s1 = {..<npages s}" using k(3) keepsD(4) [OF k(1)] by simp
      fix x :: u64
      have "\<not> (unat va div 4096 + j \<le> unat x div 4096 \<and> unat x div 4096 < unat va div 4096 + j)" by linarith
      then show "leaf (tab s1) l0 x =
        (if unat va div 4096 + j \<le> unat x div 4096 \<and> unat x div 4096 < unat va div 4096 + j
         then Some (user_pte (pa + of_nat (unat x div 4096 - unat va div 4096) * PAGE_SIZE) flags)
         else leaf (tab s) l0 x)" using k(2) by (simp only: if_False)
    qed (use k(1) jn in auto)
  next
    case (Some te)
    obtain t e where te: "te = (t, e)" by fastforce
    let ?s = "set_entry t e (user_pte ?p flags) s1"
    have w': "walk_levels l0 ?v 3 True s = (Some (t, e), s1)" using w Some te by simp
    note one = map_one [OF Suc.prems(1,2) w', of ?p flags]
    have run: "map_pages l0 va pa flags [j..<n] s = map_pages l0 va pa flags [Suc j..<n] ?s"
      by (simp add: up w')
    have "m = n - Suc j" "Suc j \<le> n" using Suc.hyps(2) by auto
    from Suc.hyps(1) [OF this(1) keepsD(1,2) [OF one(1)] this(2)] obtain k where
      k: "Suc j \<le> k" "k \<le> n" "keeps l0 ?s (map_pages l0 va pa flags [Suc j..<n] ?s)"
      "k < n \<longrightarrow> allocated (map_pages l0 va pa flags [Suc j..<n] ?s) = {..<npages ?s}" and
      kl: "\<And>x. unat x < 2 ^ 48 \<Longrightarrow> leaf (tab (map_pages l0 va pa flags [Suc j..<n] ?s)) l0 x =
        (if unat va div 4096 + Suc j \<le> unat x div 4096 \<and> unat x div 4096 < unat va div 4096 + k
         then Some (user_pte (pa + of_nat (unat x div 4096 - unat va div 4096) * PAGE_SIZE) flags)
         else leaf (tab ?s) l0 x)" by blast
    have idx: "indices x = indices ?v \<longleftrightarrow> unat x div 4096 = unat va div 4096 + j" if "unat x < 2 ^ 48" for x
      using indices_eq_iff [OF that page_step(1) [OF va jn]] page_step(2) [OF va jn] by simp
    show ?thesis
    proof (intro exI [of _ k] conjI allI impI)
      show "keeps l0 s (map_pages l0 va pa flags [j..<n] s)" unfolding run by (rule keeps_trans [OF one(1) k(3)])
      show "allocated (map_pages l0 va pa flags [j..<n] s) = {..<npages s}" if "k < n"
        using that k(4) keepsD(4) [OF one(1)] by (simp add: run)
      show "leaf (tab (map_pages l0 va pa flags [j..<n] s)) l0 x =
        (if unat va div 4096 + j \<le> unat x div 4096 \<and> unat x div 4096 < unat va div 4096 + k
         then Some (user_pte (pa + of_nat (unat x div 4096 - unat va div 4096) * PAGE_SIZE) flags)
         else leaf (tab s) l0 x)" if "unat x < 2 ^ 48" for x
        unfolding run kl [OF that] one(2) idx [OF that] using k(1) by auto
    qed (use k in auto)
  qed
qed


section \<open>Releasing an address space\<close>

lemma fold_free_pages:
  "pmm_inv s \<Longrightarrow> pmm_inv (fold pmm_free_page xs s) \<and>
    allocated (fold pmm_free_page xs s) =
      allocated s - {n. n < npages s \<and> unat (reserved_pages s) \<le> n \<and> page_addr s n \<in> set xs} \<and>
    npages (fold pmm_free_page xs s) = npages s \<and> page_addr (fold pmm_free_page xs s) = page_addr s \<and>
    reserved_pages (fold pmm_free_page xs s) = reserved_pages s \<and>
    pmm.more (fold pmm_free_page xs s) = pmm.more s"
proof (induction xs arbitrary: s)
  case (Cons x xs)
  have one: "allocated (pmm_free_page x s) = allocated s - {n. n < npages s \<and> unat (reserved_pages s) \<le> n \<and> page_addr s n = x}"
  proof (cases "\<exists>n < npages s. x = page_addr s n")
    case True
    then obtain n where n: "n < npages s" "x = page_addr s n" by blast
    have uniq: "m = n" if "m < npages s" "page_addr s m = x" for m
      using page_addr_inj [OF Cons.prems] that n by simp
    have un: "{m. m < npages s \<and> unat (reserved_pages s) \<le> m \<and> page_addr s m = x} = (if unat (reserved_pages s) \<le> n then {n} else {})"
      using n uniq by auto
    have "n \<in> allocated s \<longleftrightarrow> page_used s n" using n(1) by (simp add: allocated_def)
    then show ?thesis
      unfolding n(2) un [unfolded n(2)] pmm_free_page_page_addr [OF Cons.prems n(1)]
      using allocated_drop_page [OF Cons.prems n(1)] by (simp add: not_less)
  next
    case False
    then have "pmm_free_page x s = s" using pmm_free_page_other [OF Cons.prems] by blast
    moreover have "{n. n < npages s \<and> unat (reserved_pages s) \<le> n \<and> page_addr s n = x} = {}" using False by blast
    ultimately show ?thesis by (simp only: Diff_empty)
  qed
  have inv1: "pmm_inv (pmm_free_page x s)" by (rule pmm_inv_free_page [OF Cons.prems])
  have "{n. n < npages s \<and> unat (reserved_pages s) \<le> n \<and> page_addr s n \<in> set (x # xs)} =
      {n. n < npages s \<and> unat (reserved_pages s) \<le> n \<and> page_addr s n = x} \<union>
      {n. n < npages s \<and> unat (reserved_pages s) \<le> n \<and> page_addr s n \<in> set xs}" by auto
  moreover have "A - B - C = A - (B \<union> C)" for A B C :: "nat set" by blast
  ultimately show ?case using Cons.IH [OF inv1] one by (simp add: pmm_free_page_frame)
qed simp

lemma tab_free_page [simp]: "tab (pmm_free_page x s) = tab s"
  using more_fields(1) [of "pmm_free_page x s" s] by (simp add: pmm_free_page_frame)

lemma tab_fold_free [simp]: "tab (fold pmm_free_page xs s) = tab s"
  by (induction xs arbitrary: s) simp_all

definition entries :: "(u64 \<Rightarrow> bool) \<Rightarrow> (u64 \<Rightarrow> u64 \<Rightarrow> u64) \<Rightarrow> u64 \<Rightarrow> u64 list" where
  "entries P T t = filter P (map (\<lambda>k. T t (of_nat k)) [0..<512])"

lemma fold_entries:
  assumes "\<And>e s. F e s = fold pmm_free_page (g (tab s) e) s"
  shows "fold (\<lambda>k s. let e = tab s t (of_nat k) in if P e then F e s else s) ks s =
    fold pmm_free_page (concat (map (g (tab s)) (filter P (map (\<lambda>k. tab s t (of_nat k)) ks)))) s"
proof (induction ks arbitrary: s)
  case (Cons k ks)
  have t: "tab (F e s) = tab s" for e by (simp add: assms)
  show ?case using Cons [of s] Cons [of "F (tab s t (of_nat k)) s"] by (auto simp: Let_def t) (simp add: assms)
qed simp

abbreviation is_table :: "u64 \<Rightarrow> bool" where "is_table e \<equiv> pte_valid e \<and> pte_table e"

definition l3_list :: "(u64 \<Rightarrow> u64 \<Rightarrow> u64) \<Rightarrow> u64 \<Rightarrow> u64 list" where
  "l3_list T l2 = map pte_next_table (entries is_table T l2)"

definition l2_list :: "(u64 \<Rightarrow> u64 \<Rightarrow> u64) \<Rightarrow> u64 \<Rightarrow> u64 list" where
  "l2_list T l1 = concat (map (\<lambda>e. l3_list T (pte_next_table e) @ [pte_next_table e]) (entries is_table T l1))"

definition freed :: "(u64 \<Rightarrow> u64 \<Rightarrow> u64) \<Rightarrow> u64 \<Rightarrow> u64 list" where
  "freed T l0 = concat (map (\<lambda>e. l2_list T (pte_next_table e) @ [pte_next_table e]) (entries pte_valid T l0)) @ [l0]"

lemma free_l3_list: "free_l3_tables l2 s = fold pmm_free_page (l3_list (tab s) l2) s"
proof -
  have "concat (map (\<lambda>e. [pte_next_table e]) xs) = map pte_next_table xs" for xs by (induction xs) auto
  then show ?thesis
    unfolding free_l3_tables_def l3_list_def entries_def
    using fold_entries [where F = "\<lambda>e. pmm_free_page (pte_next_table e)" and g = "\<lambda>T e. [pte_next_table e]"] by simp
qed

lemma free_l2_list: "free_l2_tables l1 s = fold pmm_free_page (l2_list (tab s) l1) s"
  unfolding free_l2_tables_def l2_list_def entries_def
  by (rule fold_entries [where F = "\<lambda>e s. pmm_free_page (pte_next_table e) (free_l3_tables (pte_next_table e) s)"])
    (simp add: free_l3_list)

lemma free_user_tables_list: "mmu_free_user_tables l0 s = fold pmm_free_page (freed (tab s) l0) s"
proof -
  have "fold (\<lambda>i s. let e = tab s l0 (of_nat i) in
        if pte_valid e then pmm_free_page (pte_next_table e) (free_l2_tables (pte_next_table e) s) else s) [0..<512] s =
    fold pmm_free_page (concat (map (\<lambda>e. l2_list (tab s) (pte_next_table e) @ [pte_next_table e]) (entries pte_valid (tab s) l0))) s"
    unfolding entries_def
    by (rule fold_entries [where F = "\<lambda>e s. pmm_free_page (pte_next_table e) (free_l2_tables (pte_next_table e) s)"])
      (simp add: free_l2_list)
  then show ?thesis by (simp add: mmu_free_user_tables_def freed_def)
qed

lemma set_entries: "set (entries P T t) = {T t i |i. i < 512 \<and> P (T t i)}"
proof -
  have "of_nat ` {0..<512} = {i::u64. i < 512}"
  proof (intro set_eqI iffI)
    fix x :: u64 assume "x \<in> of_nat ` {0..<512}"
    then obtain k where "x = of_nat k" "k < 512" by auto
    then show "x \<in> {i. i < 512}" by (simp add: word_less_nat_alt unat_of_nat_64)
  next
    fix i :: u64 assume "i \<in> {i. i < 512}"
    then show "i \<in> of_nat ` {0..<512}" by (intro image_eqI [of _ _ "unat i"]) (simp_all add: word_less_nat_alt)
  qed
  moreover have "set (map (\<lambda>k. T t (of_nat k)) [0..<512]) = T t ` of_nat ` {0..<512}"
    by (simp only: set_map set_upt image_image)
  ultimately show ?thesis unfolding entries_def by (simp only: set_filter) blast
qed


lemma set_l3_list: "set (l3_list T l2) = {pte_next_table (T l2 k) |k. k < 512 \<and> is_table (T l2 k)}"
  unfolding l3_list_def set_map set_entries by blast

lemma set_l2_list: "set (l2_list T l1) =
    {t. \<exists>j < 512. is_table (T l1 j) \<and> (t = pte_next_table (T l1 j) \<or> t \<in> set (l3_list T (pte_next_table (T l1 j))))}"
  unfolding l2_list_def set_concat set_map set_entries by (auto simp del: set_l3_list)

lemma set_freed_list: "set (freed T l0) =
    {t. t = l0 \<or> (\<exists>i < 512. pte_valid (T l0 i) \<and> (t = pte_next_table (T l0 i) \<or> t \<in> set (l2_list T (pte_next_table (T l0 i)))))}"
  unfolding freed_def set_append set_concat set_map set_entries by auto

lemma path_cases:
  assumes "tpath p"
  obtains "p = []" | i where "p = [i]" "i < 512" | i j where "p = [i, j]" "i < 512" "j < 512"
  | i j k where "p = [i, j, k]" "i < 512" "j < 512" "k < 512"
proof (cases p)
  case p1: (Cons i p')
  show ?thesis
  proof (cases p')
    case p2: (Cons j p'')
    show ?thesis using assms that p1 p2 by (cases p'') (auto simp: tpath_def)
  qed (use assms that p1 in \<open>auto simp: tpath_def\<close>)
qed (use that in blast)

lemma freed_complete:
  assumes "tree_ok s l0" "tpath p" "table_at (tab s) l0 p = Some t"
  shows "t \<in> set (freed (tab s) l0)"
  using assms(2)
proof (cases rule: path_cases)
  case 1
  then show ?thesis using assms(3) by (simp add: set_freed_list)
next
  case (2 i)
  then show ?thesis using assms(3) by (auto simp: set_freed_list split: if_splits)
next
  case (3 i j)
  let ?l1 = "pte_next_table (tab s l0 i)"
  have v: "pte_valid (tab s l0 i)" "pte_valid (tab s ?l1 j)" "t = pte_next_table (tab s ?l1 j)"
    using assms(3) 3(1) by (auto split: if_splits)
  have "pte_table (tab s ?l1 j)"
    using assms(1) 3 v unfolding tree_ok_def by (auto simp: tpath_def dest: spec [of _ "[i]"])
  then show ?thesis unfolding set_freed_list set_l2_list using 3 v by blast
next
  case (4 i j k)
  let ?l1 = "pte_next_table (tab s l0 i)"
  let ?l2 = "pte_next_table (tab s ?l1 j)"
  have v: "pte_valid (tab s l0 i)" "pte_valid (tab s ?l1 j)" "pte_valid (tab s ?l2 k)" "t = pte_next_table (tab s ?l2 k)"
    using assms(3) 4(1) by (auto split: if_splits)
  have tb: "pte_table (tab s u n)" if "tpath (q @ [n])" "table_at (tab s) l0 q = Some u" "pte_valid (tab s u n)" for q u n
    using assms(1) that unfolding tree_ok_def by blast
  have "pte_table (tab s ?l1 j)" "pte_table (tab s ?l2 k)"
    using tb [of "[i]" j ?l1] tb [of "[i, j]" k ?l2] 4 v by (simp_all add: tpath_def)
  then show ?thesis unfolding set_freed_list set_l2_list set_l3_list using 4 v by blast
qed

lemma freed_sound:
  assumes "t \<in> set (freed T l0)"
  shows "\<exists>p. tpath p \<and> table_at T l0 p = Some t"
proof -
  consider (root) "t = l0" | (one) i where "i < 512" "pte_valid (T l0 i)" "t = pte_next_table (T l0 i)"
    | (two) i j where "i < 512" "pte_valid (T l0 i)" "j < 512" "is_table (T (pte_next_table (T l0 i)) j)"
        "t = pte_next_table (T (pte_next_table (T l0 i)) j)"
    | (three) i j k where "i < 512" "pte_valid (T l0 i)" "j < 512" "is_table (T (pte_next_table (T l0 i)) j)" "k < 512"
        "is_table (T (pte_next_table (T (pte_next_table (T l0 i)) j)) k)"
        "t = pte_next_table (T (pte_next_table (T (pte_next_table (T l0 i)) j)) k)"
    using assms unfolding set_freed_list set_l2_list set_l3_list by blast
  then show ?thesis
  proof cases
    case root
    then show ?thesis by (intro exI [of _ "[]"]) (simp add: tpath_def)
  next
    case one
    then show ?thesis by (intro exI [of _ "[i]"]) (simp add: tpath_def)
  next
    case two
    then show ?thesis by (intro exI [of _ "[i, j]"]) (simp add: tpath_def)
  next
    case three
    then show ?thesis by (intro exI [of _ "[i, j, k]"]) (simp add: tpath_def)
  qed
qed

lemma set_freed: "tree_ok s l0 \<Longrightarrow> set (freed (tab s) l0) = tree_tables (tab s) l0"
  using freed_complete freed_sound unfolding tree_tables_def by blast

lemma table_at_frame:
  assumes "\<And>t. t \<in> tree_tables T l \<Longrightarrow> T' t = T t"
  shows "tpath p \<Longrightarrow> table_at T' l p = table_at T l p"
proof (induction p rule: rev_induct)
  case (snoc i p)
  have p: "tpath p" using snoc.prems path_append by blast
  have "T' u = T u" if "table_at T l p = Some u" for u
    using assms that p unfolding tree_tables_def by blast
  then show ?case using snoc.IH [OF p] by (auto simp: table_at_snoc split: option.splits)
qed simp

lemma leaf_frame:
  assumes "\<And>t. t \<in> tree_tables T l \<Longrightarrow> T' t = T t"
  shows "leaf T' l = leaf T l"
proof
  fix va
  have "T' t = T t" if "table_at T l [L0_INDEX va, L1_INDEX va, L2_INDEX va] = Some t" for t
    using assms that index_path unfolding tree_tables_def by blast
  then show "leaf T' l va = leaf T l va"
    using table_at_frame [of T l T', OF assms index_path] by (simp add: leaf_def del: table_at.simps split: option.splits)
qed

lemma tree_ok_frame:
  assumes ok: "tree_ok s l" and same: "\<And>t. t \<in> tree_tables (tab s) l \<Longrightarrow> tab s' t = tab s t"
    and pages: "\<And>t. t \<in> tree_tables (tab s) l \<Longrightarrow> table_page s t \<Longrightarrow> table_page s' t"
  shows "tree_ok s' l" "tree_tables (tab s') l = tree_tables (tab s) l"
proof -
  have at: "table_at (tab s') l p = table_at (tab s) l p" if "tpath p" for p
    by (rule table_at_frame [of "tab s" l "tab s'", OF same that])
  show "tree_tables (tab s') l = tree_tables (tab s) l" unfolding tree_tables_def using at by auto
  show "tree_ok s' l"
    unfolding tree_ok_def
  proof (intro conjI allI impI)
    show "table_page s' t" if "tpath p" "table_at (tab s') l p = Some t" for p t
      using ok that at [OF that(1)] pages [of t] unfolding tree_ok_def tree_tables_def by auto
    show "p = q" if "tpath p" "tpath q" "table_at (tab s') l p = Some t" "table_at (tab s') l q = Some t" for p q t
      using ok that at [OF that(1)] at [OF that(2)] unfolding tree_ok_def by metis
    fix p t i
    assume a: "tpath (p @ [i])" "table_at (tab s') l p = Some t" "pte_valid (tab s' t i)"
    then have p: "tpath p" "table_at (tab s) l p = Some t" using at path_append [OF a(1)] by auto
    then have "tab s' t = tab s t" using same unfolding tree_tables_def by blast
    then show "pte_table (tab s' t i)" using ok a p unfolding tree_ok_def by auto
  qed
qed


section \<open>Address space identifiers\<close>

lemma bit_baddr_mask: "bit TTBR_BADDR_MASK n \<longleftrightarrow> n < 48"
proof -
  have m: "TTBR_BADDR_MASK = mask 48" by (simp add: mask_eq_exp_minus_1)
  show ?thesis unfolding m by (simp only: bit_mask_iff possible_bit_word) auto
qed

lemma ttbr_roundtrip:
  assumes "unat baddr < 2 ^ 48"
  shows "ttbr_baddr (ttbr_pack baddr asid) = baddr" "ttbr_asid (ttbr_pack baddr asid) = asid"
proof -
  note hi = high_bits_zero [OF assms]
  show "ttbr_baddr (ttbr_pack baddr asid) = baddr"
    unfolding ttbr_baddr_def ttbr_pack_def
  proof (rule bit_eqI)
    fix n
    show "bit (((baddr AND TTBR_BADDR_MASK) OR push_bit 48 (ucast asid)) AND TTBR_BADDR_MASK) n = bit baddr n"
      using hi [of n] by (cases "n < 48"; simp only: bit_and_iff bit_or_iff bit_baddr_mask bit_push_bit_iff) auto
  qed
  show "ttbr_asid (ttbr_pack baddr asid) = asid"
    unfolding ttbr_asid_def ttbr_pack_def
  proof (rule bit_eqI)
    fix n
    assume "possible_bit TYPE(16 word) n"
    then have n: "n < 16" by simp
    show "bit (ucast (drop_bit 48 ((baddr AND TTBR_BADDR_MASK) OR push_bit 48 (ucast asid))) :: u16) n = bit asid n"
      using n by (simp only: bit_ucast_iff bit_drop_bit_eq comp_def bit_or_iff bit_and_iff bit_baddr_mask bit_push_bit_iff possible_bit_word) auto
  qed
qed


section \<open>New address spaces\<close>

lemma alloc_table_tree:
  assumes inv: "pmm_inv s" and al: "alloc_table s = (l0, s')" and nz: "l0 \<noteq> 0"
  shows "pmm_inv s'" "tree_ok s' l0" "tree_tables (tab s') l0 = {l0}" "leaf (tab s') l0 = (\<lambda>_. None)"
    "\<exists>n. n < npages s \<and> n \<notin> allocated s \<and> l0 = page_addr s n \<and> allocated s' = insert n (allocated s)"
    "npages s' = npages s" "page_addr s' = page_addr s" "reserved_pages s' = reserved_pages s"
    "table_page s t \<Longrightarrow> tab s' t = tab s t \<and> table_page s' t \<and> t \<noteq> l0"
proof -
  from inv obtain n where a: "alloc_table s = (page_addr s n, (take_run n 1 s)\<lparr>tab := (tab s)(page_addr s n := (\<lambda>_. 0))\<rparr>)"
      and n: "n < npages s" "n \<notin> allocated s" "unat (reserved_pages s) \<le> n"
      and r: "pmm_inv (take_run n 1 s)" "allocated (take_run n 1 s) = insert n (allocated s)"
    by (cases rule: alloc_table_cases) (use al nz in auto)
  have l0: "l0 = page_addr s n" and s': "s' = (take_run n 1 s)\<lparr>tab := (tab s)(l0 := (\<lambda>_. 0))\<rparr>" using a al by auto
  show "pmm_inv s'" "npages s' = npages s" "page_addr s' = page_addr s" "reserved_pages s' = reserved_pages s"
    using r by (simp_all add: s')
  have al': "allocated s' = insert n (allocated s)" using r by (simp add: s')
  show "\<exists>n. n < npages s \<and> n \<notin> allocated s \<and> l0 = page_addr s n \<and> allocated s' = insert n (allocated s)"
    using n l0 al' by blast
  have z: "\<not> pte_valid (tab s' l0 i)" for i by (simp add: s')
  have at: "table_at (tab s') l0 p = (if p = [] then Some l0 else None)" for p using z by (cases p) simp_all
  show "tree_tables (tab s') l0 = {l0}" unfolding tree_tables_def at by (auto simp: tpath_def intro: exI [of _ "[]"])
  have "table_page s' l0"
    using n al' l0 \<open>page_addr s' = page_addr s\<close> \<open>reserved_pages s' = reserved_pages s\<close> unfolding table_page_def by auto
  then show "tree_ok s' l0" unfolding tree_ok_def at using z by (auto split: if_splits)
  show "leaf (tab s') l0 = (\<lambda>_. None)" by (simp add: leaf_def at fun_eq_iff del: table_at.simps)
  show "tab s' t = tab s t \<and> table_page s' t \<and> t \<noteq> l0" if "table_page s t"
  proof -
    have "t \<noteq> l0" using that not_table_page [OF inv n(1,2)] l0 by blast
    moreover have "table_page s' t"
      using that table_page_mono [of s t s'] al' \<open>page_addr s' = page_addr s\<close> \<open>reserved_pages s' = reserved_pages s\<close> by auto
    ultimately show ?thesis by (simp add: s')
  qed
qed

lemma keeps_isolated:
  assumes k: "keeps l0 s s'" and ok: "tree_ok s l1" and dis: "tree_tables (tab s) l0 \<inter> tree_tables (tab s) l1 = {}"
  shows "tree_ok s' l1" "leaf (tab s') l1 = leaf (tab s) l1" "tree_tables (tab s') l0 \<inter> tree_tables (tab s') l1 = {}"
proof -
  have pg: "table_page s t" if "t \<in> tree_tables (tab s) l1" for t
    using ok that unfolding tree_ok_def tree_tables_def by blast
  have same: "tab s' t = tab s t" if "t \<in> tree_tables (tab s) l1" for t
    using keepsD(8) [OF k pg [OF that]] dis that by blast
  show "tree_ok s' l1" by (rule tree_ok_frame(1) [OF ok same]) (use keepsD(10) [OF k] in auto)
  have tt: "tree_tables (tab s') l1 = tree_tables (tab s) l1"
    by (rule tree_ok_frame(2) [OF ok same]) (use keepsD(10) [OF k] in auto)
  show "leaf (tab s') l1 = leaf (tab s) l1" by (rule leaf_frame [OF same])
  show "tree_tables (tab s') l0 \<inter> tree_tables (tab s') l1 = {}"
    using keepsD(9) [OF k pg] dis unfolding tt by blast
qed

lemma map_user_range_keeps:
  assumes "pmm_inv s" "tree_ok s l0" "4096 dvd unat va" "unat va + 4096 * unat pages \<le> 2 ^ 48"
  shows "keeps l0 s (mmu_map_user_range l0 va pa pages flags s)"
  using map_pages_spec [OF assms(3,4,1,2), of 0 pa flags] unfolding mmu_map_user_range_def by blast

section \<open>Blocks of the identity map\<close>

lemma fill_l2_upto:
  fixes s :: "'a mm_scheme"
  defines "F \<equiv> \<lambda>low base l1i l2 l2i (s :: 'a mm_scheme). let phys_addr = base + of_nat l1i * 0x40000000 + of_nat l2i * 0x200000 in
      if low \<and> phys_addr = 0 then s
      else set_entry l2 (of_nat l2i) (block_entry phys_addr (if low then ram_attr phys_addr else 0)) s"
  assumes "n \<le> 512" "k < 512"
  shows "tab (fold (F low base l1i l2) [0..<n] s) l2 (of_nat k) =
    (if k < n \<and> \<not> (low \<and> base + of_nat l1i * 0x40000000 + of_nat k * 0x200000 = 0)
     then block_entry (base + of_nat l1i * 0x40000000 + of_nat k * 0x200000)
       (if low then ram_attr (base + of_nat l1i * 0x40000000 + of_nat k * 0x200000) else 0)
     else tab s l2 (of_nat k))"
  using assms(2)
proof (induction n)
  case (Suc n)
  have "of_nat k = (of_nat n :: u64) \<longleftrightarrow> k = n"
    using Suc.prems assms(3) by (simp add: word_unat_eq_iff unat_of_nat_64)
  then show ?case using Suc by (auto simp: F_def Let_def less_Suc_eq)
qed simp

text \<open>Each block of the identity map points at its own physical address, with the attribute of RAM
  exactly for RAM, and only the block at address 0 of the low half stays as it was.\<close>

lemma fill_l2_entries:
  assumes "k < 512" "pa = base + of_nat l1i * 0x40000000 + of_nat k * 0x200000"
  shows "tab (fill_l2 low base l2 l1i s) l2 (of_nat k) =
    (if low \<and> pa = 0 then tab s l2 (of_nat k) else block_entry pa (if low then ram_attr pa else 0))"
  using fill_l2_upto [where n = 512 and k = k and low = low and base = base and l1i = l1i and ?l2.0 = l2 and s = s] assms by (auto simp: fill_l2_def)

lemma block_entry_address:
  assumes "4096 dvd unat pa" "unat pa < 2 ^ 48" "attr \<le> 1"
  shows "pte_next_table (block_entry pa attr) = pa" "pte_valid (block_entry pa attr)" "\<not> pte_table (block_entry pa attr)"
proof -
  have "attr = 0 \<or> attr = 1"
    using assms(3) by (metis (no_types) le_less word_less_1 word_zero_le order_class.order.antisym)
  then obtain c where c: "block_entry pa attr = pa OR c" "c = 0x701 \<or> c = 0x705"
    by (auto simp: block_entry_def PTE_ATTRIDX_def)
  have lo: "c = take_bit 12 c" "bit c 0" "\<not> bit c 1" using c(2) by auto
  have cb: "n < 12" if "bit c n" for n using that lo(1) by (metis bit_take_bit_iff)
  show "pte_next_table (block_entry pa attr) = pa"
    unfolding c(1) pte_next_table_def using aligned_bits [OF assms(1,2)] cb
    by (intro bit_eqI) (simp only: bit_and_iff bit_or_iff bit_addr_mask, fastforce)
  show "pte_valid (block_entry pa attr)" "\<not> pte_table (block_entry pa attr)"
    unfolding c(1) pte_valid_bit pte_table_bit bit_or_iff using lo aligned_bits(1) [OF assms(1,2), of 1] by auto
qed

section \<open>Properties\<close>

text \<open>C16: mapping a page range into a user address space installs, for the first pages of the
  range up to some number, exactly the descriptors of the given physical pages, leaves the
  translation of every other address unchanged and keeps the tables a tree of distinct
  allocated pages; the number is that of all pages unless physical memory is exhausted.
  It releases no page, and every page it takes becomes one of these tables.\<close>

theorem mmu_map_user_range_correct:
  assumes "pmm_inv s" "tree_ok s l0" "4096 dvd unat va" "unat va + 4096 * unat pages \<le> 2 ^ 48"
  shows "\<exists>k \<le> unat pages. let s' = mmu_map_user_range l0 va pa pages flags s in
    pmm_inv s' \<and> tree_ok s' l0 \<and> (k < unat pages \<longrightarrow> allocated s' = {..<npages s}) \<and>
    allocated s \<subseteq> allocated s' \<and> (\<forall>n \<in> allocated s' - allocated s. page_addr s n \<in> tree_tables (tab s') l0) \<and>
    (\<forall>x. unat x < 2 ^ 48 \<longrightarrow> leaf (tab s') l0 x =
      (if unat va div 4096 \<le> unat x div 4096 \<and> unat x div 4096 < unat va div 4096 + k
       then Some (user_pte (pa + of_nat (unat x div 4096 - unat va div 4096) * PAGE_SIZE) flags)
       else leaf (tab s) l0 x))"
proof -
  obtain k where "k \<le> unat pages" "keeps l0 s (mmu_map_user_range l0 va pa pages flags s)"
    "k < unat pages \<longrightarrow> allocated (mmu_map_user_range l0 va pa pages flags s) = {..<npages s}"
    "\<forall>x. unat x < 2 ^ 48 \<longrightarrow> leaf (tab (mmu_map_user_range l0 va pa pages flags s)) l0 x =
        (if unat va div 4096 + 0 \<le> unat x div 4096 \<and> unat x div 4096 < unat va div 4096 + k
         then Some (user_pte (pa + of_nat (unat x div 4096 - unat va div 4096) * PAGE_SIZE) flags)
         else leaf (tab s) l0 x)"
    using map_pages_spec [OF assms(3,4,1,2), of 0 pa flags] unfolding mmu_map_user_range_def by blast
  then show ?thesis using keepsD(1-3,11) [of l0 s] by (intro exI [of _ k]) (simp add: Let_def)
qed

text \<open>Seventy pages from 1 GiB on; the first address space made there has its root in page 3.\<close>

definition demo_mm :: mm where
  "demo_mm = pmm_init 0x40001234 0x40000000 (70 * 4096)
    \<lparr>bitmap_addr = 0, bitmap = [], bitmap_size = 0, total_pages = 0, used_pages = 0,
     reserved_pages = 0, mem_region_start = 0, mem_region_end = 0,
     heap_head = 0, hdr = (\<lambda>_. free_header 0 0), regions = [], tab = (\<lambda>_ _. 0), g_sigtramp_phys = 0, insn = (\<lambda>_. 0)\<rparr>"

definition demo_space :: mm where
  "demo_space = snd (alloc_table demo_mm)"

lemma demo_mm_inv: "pmm_inv demo_mm"
  unfolding demo_mm_def by (rule pmm_init_inv) simp_all

lemma demo_space_ok: "pmm_inv demo_space" "tree_ok demo_space 0x40003000"
  "tree_tables (tab demo_space) 0x40003000 = {0x40003000}"
proof -
  have "fst (alloc_table demo_mm) = 0x40003000" by code_simp
  then have a: "alloc_table demo_mm = (0x40003000, demo_space)" by (simp add: demo_space_def prod_eq_iff)
  show "pmm_inv demo_space" "tree_ok demo_space 0x40003000" "tree_tables (tab demo_space) 0x40003000 = {0x40003000}"
    using alloc_table_tree(1,2,3) [OF demo_mm_inv a] by simp_all
qed

theorem mmu_map_user_range_correct_witness:
  "\<exists>k \<le> 2. let s' = mmu_map_user_range 0x40003000 0x400000 0x40010000 2 0 demo_space in
    pmm_inv s' \<and> tree_ok s' 0x40003000 \<and> (k < 2 \<longrightarrow> allocated s' = {..<npages demo_space}) \<and>
    allocated demo_space \<subseteq> allocated s' \<and> (\<forall>n \<in> allocated s' - allocated demo_space. page_addr demo_space n \<in> tree_tables (tab s') 0x40003000) \<and>
    (\<forall>x. unat x < 2 ^ 48 \<longrightarrow> leaf (tab s') 0x40003000 x =
      (if 1024 \<le> unat x div 4096 \<and> unat x div 4096 < 1024 + k
       then Some (user_pte (0x40010000 + of_nat (unat x div 4096 - 1024) * PAGE_SIZE) 0)
       else leaf (tab demo_space) 0x40003000 x))"
proof -
  have u: "unat (0x400000 :: u64) div 4096 = 1024" "unat (2 :: u64) = 2" by simp_all
  show ?thesis
    by (rule mmu_map_user_range_correct [OF demo_space_ok(1,2), of "0x400000" 2 "0x40010000" 0, unfolded u]) simp_all
qed

text \<open>C6: address spaces are isolated: mapping pages into one leaves every translation of any
  other unchanged and keeps their tables apart.\<close>

theorem mmu_address_spaces_isolated:
  assumes "pmm_inv s" "tree_ok s l0" "tree_ok s l1" "tree_tables (tab s) l0 \<inter> tree_tables (tab s) l1 = {}"
    "4096 dvd unat va" "unat va + 4096 * unat pages \<le> 2 ^ 48"
  shows "let s' = mmu_map_user_range l0 va pa pages flags s in
    leaf (tab s') l1 = leaf (tab s) l1 \<and> tree_ok s' l0 \<and> tree_ok s' l1 \<and>
    tree_tables (tab s') l0 \<inter> tree_tables (tab s') l1 = {}"
  using keeps_isolated [OF map_user_range_keeps [OF assms(1,2,5,6)] assms(3,4)]
    keepsD(2) [OF map_user_range_keeps [OF assms(1,2,5,6)]] by (simp add: Let_def)

definition demo_two :: mm where
  "demo_two = snd (alloc_table demo_space)"

lemma demo_two_ok:
  "pmm_inv demo_two" "tree_ok demo_two 0x40004000" "tree_tables (tab demo_two) 0x40004000 = {0x40004000}"
  "tree_ok demo_two 0x40003000" "tree_tables (tab demo_two) 0x40003000 = {0x40003000}"
proof -
  have "fst (alloc_table demo_space) = 0x40004000" by code_simp
  then have a: "alloc_table demo_space = (0x40004000, demo_two)" by (simp add: demo_two_def prod_eq_iff)
  note A = alloc_table_tree [OF demo_space_ok(1) a]
  show "pmm_inv demo_two" "tree_ok demo_two 0x40004000" "tree_tables (tab demo_two) 0x40004000 = {0x40004000}"
    using A(1-3) by simp_all
  have "tpath []" by (simp add: tpath_def)
  then have "table_page demo_space 0x40003000"
    using demo_space_ok(2) table_at.simps(1) unfolding tree_ok_def by blast
  then have f: "tab demo_two t = tab demo_space t" "table_page demo_two t" if "t \<in> tree_tables (tab demo_space) 0x40003000" for t
    using A(9) [of t] that demo_space_ok(3) by simp_all
  show "tree_ok demo_two 0x40003000" "tree_tables (tab demo_two) 0x40003000 = {0x40003000}"
    using tree_ok_frame [of demo_space "0x40003000" demo_two, OF demo_space_ok(2) f(1)] f(2) demo_space_ok(3) by simp_all
qed

theorem mmu_address_spaces_isolated_witness:
  "let s' = mmu_map_user_range 0x40004000 0x400000 0x40010000 2 0 demo_two in
    leaf (tab s') 0x40003000 = leaf (tab demo_two) 0x40003000 \<and> tree_ok s' 0x40004000 \<and> tree_ok s' 0x40003000 \<and>
    tree_tables (tab s') 0x40004000 \<inter> tree_tables (tab s') 0x40003000 = {}"
  by (rule mmu_address_spaces_isolated [OF demo_two_ok(1,2,4)]) (simp_all add: demo_two_ok(3,5))

text \<open>C17: releasing an address space frees exactly its table pages, no other page, and keeps
  every other address space and its translations.\<close>

theorem mmu_free_user_tables_exact:
  assumes "pmm_inv s" "tree_ok s l0" "tree_ok s l1" "tree_tables (tab s) l0 \<inter> tree_tables (tab s) l1 = {}"
  shows "let s' = mmu_free_user_tables l0 s in
    pmm_inv s' \<and> allocated s' = allocated s - {n. n < npages s \<and> page_addr s n \<in> tree_tables (tab s) l0} \<and>
    tree_ok s' l1 \<and> leaf (tab s') l1 = leaf (tab s) l1"
proof -
  let ?s = "mmu_free_user_tables l0 s"
  note F = fold_free_pages [OF assms(1), of "freed (tab s) l0", unfolded set_freed [OF assms(2)],
      folded free_user_tables_list]
  have res: "unat (reserved_pages s) \<le> n" if n: "n < npages s" "page_addr s n \<in> tree_tables (tab s) l0" for n
  proof -
    obtain m where "m \<in> allocated s" "unat (reserved_pages s) \<le> m" "page_addr s n = page_addr s m"
      using assms(2) n(2) unfolding tree_ok_def tree_tables_def table_page_def by blast
    then show ?thesis using page_addr_inj [OF assms(1), of n m] n(1) by (auto simp: allocated_def)
  qed
  have al: "allocated ?s = allocated s - {n. n < npages s \<and> page_addr s n \<in> tree_tables (tab s) l0}"
    using F res by blast
  have tabs: "tab ?s = tab s" by (simp add: free_user_tables_list)
  have "table_page ?s t" if t: "t \<in> tree_tables (tab s) l1" "table_page s t" for t
  proof -
    obtain n where n: "n \<in> allocated s" "unat (reserved_pages s) \<le> n" "t = page_addr s n"
      using t(2) unfolding table_page_def by blast
    then have "n \<in> allocated ?s" using al assms(4) t(1) by blast
    then show ?thesis using n F unfolding table_page_def by auto
  qed
  then have "tree_ok ?s l1" using tree_ok_frame(1) [OF assms(3), of ?s] tabs by simp
  then show ?thesis using F al tabs by (simp add: Let_def)
qed

theorem mmu_free_user_tables_exact_witness:
  "let s' = mmu_free_user_tables 0x40004000 demo_two in
    pmm_inv s' \<and> allocated s' = allocated demo_two - {n. n < npages demo_two \<and> page_addr demo_two n \<in> {0x40004000}} \<and>
    tree_ok s' 0x40003000 \<and> leaf (tab s') 0x40003000 = leaf (tab demo_two) 0x40003000"
  by (rule mmu_free_user_tables_exact [OF demo_two_ok(1,2,4), unfolded demo_two_ok(3)]) (simp add: demo_two_ok(5))

end
