(* ===== verification/Vfs.thy ===== *)
theory Vfs
  imports Mmu Strings_Lib
begin

text \<open>
  The virtual file system, \<^verbatim>\<open>src/fs/vfs/vfs.c\<close>: the static pool of vnodes and the tree
  threaded through it, path resolution, device registration and the per-task file
  descriptor tables, which live in the kernel heap.  A vnode is named by its index
  in the pool, an open file and a descriptor table by the heap address \<open>kmalloc\<close>
  returned.  Function pointers of drivers and file systems are numbers; what they do
  when called is a parameter.  A scan that does not end has the value \<open>None\<close>.
\<close>

section \<open>Nodes\<close>

datatype vnode_type = VNODE_REG | VNODE_DIR | VNODE_CHR | VNODE_BLK

record file_operations =
  op_read :: "nat option"
  op_write :: "nat option"
  op_ioctl :: "nat option"

record vnode =
  v_name :: "u8 list"
  v_type :: vnode_type
  v_fops :: "file_operations option"
  v_lookup :: "nat option"
  v_private :: u64
  v_size :: u64
  v_parent :: "nat option"
  v_children :: "nat option"
  v_next :: "nat option"

record vfile =
  f_vnode :: nat
  f_offset :: u64

record vfs = mm +
  node_pool :: "nat \<Rightarrow> vnode"
  node_count :: nat
  vfs_root :: nat
  files :: "u64 \<Rightarrow> vfile"
  fdtabs :: "u64 \<Rightarrow> nat \<Rightarrow> u64"

abbreviation MAX_VNODES :: nat where "MAX_VNODES \<equiv> 128"
abbreviation MAX_FDS :: int where "MAX_FDS \<equiv> 64"
abbreviation SLASH :: u8 where "SLASH \<equiv> 0x2F"
abbreviation DOT :: u8 where "DOT \<equiv> 0x2E"

definition alloc_vnode :: "u8 list \<Rightarrow> vnode_type \<Rightarrow> 'a vfs_scheme \<Rightarrow> nat option \<times> 'a vfs_scheme" where
  "alloc_vnode name ty s =
    (if node_count s \<ge> MAX_VNODES then (None, s)
     else (Some (node_count s),
       s\<lparr>node_pool := (node_pool s)(node_count s :=
           \<lparr>v_name = take 63 name, v_type = ty, v_fops = None, v_lookup = None, v_private = 0, v_size = 0,
            v_parent = None, v_children = None, v_next = None\<rparr>),
         node_count := node_count s + 1\<rparr>))"

definition vfs_init :: "'a vfs_scheme \<Rightarrow> 'a vfs_scheme" where
  "vfs_init s = (case alloc_vnode [SLASH] VNODE_DIR s of
     (Some n, s1) \<Rightarrow> s1\<lparr>vfs_root := n\<rparr>
   | (None, s1) \<Rightarrow> s1)"

definition vfs_create_node :: "nat option \<Rightarrow> u8 list \<Rightarrow> vnode_type \<Rightarrow> 'a vfs_scheme \<Rightarrow> nat option \<times> 'a vfs_scheme" where
  "vfs_create_node parent name ty s =
    (case alloc_vnode name ty s of
       (None, s1) \<Rightarrow> (None, s1)
     | (Some n, s1) \<Rightarrow>
        (let s2 = s1\<lparr>node_pool := (node_pool s1)(n := (node_pool s1 n)\<lparr>v_parent := parent\<rparr>)\<rparr> in
         (Some n, case parent of
            None \<Rightarrow> s2
          | Some p \<Rightarrow>
             (let pool1 = (node_pool s2)(n := (node_pool s2 n)\<lparr>v_next := v_children (node_pool s2 p)\<rparr>) in
              s2\<lparr>node_pool := pool1(p := (pool1 p)\<lparr>v_children := Some n\<rparr>)\<rparr>))))"

section \<open>Path resolution\<close>

text \<open>The node name is an array of 64 bytes filled up with zeros.\<close>

fun name_match :: "u8 list \<Rightarrow> u8 list \<Rightarrow> bool" where
  "name_match node_name [] \<longleftrightarrow> (case node_name of [] \<Rightarrow> True | c # _ \<Rightarrow> c = 0)"
| "name_match node_name (c # cs) \<longleftrightarrow>
    (case node_name of [] \<Rightarrow> c = 0 \<and> name_match [] cs | d # ds \<Rightarrow> d = c \<and> name_match ds cs)"

partial_function (option) scan_children :: "(nat \<Rightarrow> vnode) \<Rightarrow> u8 list \<Rightarrow> nat option \<Rightarrow> nat option option" where
  "scan_children pool name c =
    (case c of
       None \<Rightarrow> Some None
     | Some n \<Rightarrow> if name_match (v_name (pool n)) name then Some (Some n)
                 else scan_children pool name (v_next (pool n)))"

type_synonym 's dir_lookup = "nat \<Rightarrow> nat \<Rightarrow> u8 list \<Rightarrow> 's \<Rightarrow> nat option \<times> 's"

definition find_child ::
  "('a vfs_scheme) dir_lookup \<Rightarrow> nat \<Rightarrow> u8 list \<Rightarrow> 'a vfs_scheme \<Rightarrow> (nat option \<times> 'a vfs_scheme) option" where
  "find_child lookup dir name s =
    (case scan_children (node_pool s) name (v_children (node_pool s dir)) of
       None \<Rightarrow> None
     | Some (Some c) \<Rightarrow> Some (Some c, s)
     | Some None \<Rightarrow>
        (case v_lookup (node_pool s dir) of
           Some op \<Rightarrow> Some (lookup op dir name s)
         | None \<Rightarrow> Some (None, s)))"

lemma rest_shorter:
  "dropWhile (\<lambda>c. c = SLASH) path = p # ps \<Longrightarrow> length (dropWhile (\<lambda>c. c \<noteq> SLASH) (p # ps)) < length path"
proof -
  assume a: "dropWhile (\<lambda>c. c = SLASH) path = p # ps"
  then have "p \<noteq> SLASH" by (metis (mono_tags, lifting) dropWhile_eq_Cons_conv)
  moreover have "length (p # ps) \<le> length path" using a length_dropWhile_le [of "\<lambda>c. c = SLASH" path] by simp
  ultimately show ?thesis using length_dropWhile_le [of "\<lambda>c. c \<noteq> SLASH" ps] by simp
qed

function resolve_from ::
  "('a vfs_scheme) dir_lookup \<Rightarrow> nat \<Rightarrow> u8 list \<Rightarrow> 'a vfs_scheme \<Rightarrow> (nat option \<times> 'a vfs_scheme) option" where
  "resolve_from lookup cur path s =
    (case dropWhile (\<lambda>c. c = SLASH) path of
       [] \<Rightarrow> Some (Some cur, s)
     | p # ps \<Rightarrow>
        (let name = takeWhile (\<lambda>c. c \<noteq> SLASH) (p # ps);
             rest = dropWhile (\<lambda>c. c \<noteq> SLASH) (p # ps)
         in if v_type (node_pool s cur) \<noteq> VNODE_DIR then Some (None, s)
            else if name = [DOT] then resolve_from lookup cur rest s
            else if name = [DOT, DOT] then
              resolve_from lookup (case v_parent (node_pool s cur) of Some q \<Rightarrow> q | None \<Rightarrow> cur) rest s
            else case find_child lookup cur name s of
                   None \<Rightarrow> None
                 | Some (None, s1) \<Rightarrow> Some (None, s1)
                 | Some (Some child, s1) \<Rightarrow> resolve_from lookup child rest s1))"
  by pat_completeness auto
termination
  by (relation "measure (\<lambda>(lookup, cur, path, s). length path)") (auto dest: rest_shorter)

declare resolve_from.simps [simp del]

definition vfs_resolve ::
  "('a vfs_scheme) dir_lookup \<Rightarrow> u8 list \<Rightarrow> 'a vfs_scheme \<Rightarrow> (nat option \<times> 'a vfs_scheme) option" where
  "vfs_resolve lookup path s =
    (case path of
       [] \<Rightarrow> Some (None, s)
     | c # rest \<Rightarrow> if c \<noteq> SLASH then Some (None, s) else resolve_from lookup (vfs_root s) rest s)"

definition dev_path :: "u8 list" where "dev_path = [0x2F, 0x64, 0x65, 0x76]"

definition dev_name :: "u8 list" where "dev_name = [0x64, 0x65, 0x76]"

text \<open>Both registration functions differ only in the node type they pass.\<close>

definition register_device ::
  "vnode_type \<Rightarrow> ('a vfs_scheme) dir_lookup \<Rightarrow> u8 list \<Rightarrow> file_operations \<Rightarrow> 'a vfs_scheme \<Rightarrow>
   (nat option \<times> 'a vfs_scheme) option" where
  "register_device ty lookup name fops s =
    (case vfs_resolve lookup dev_path s of
       None \<Rightarrow> None
     | Some (found, s1) \<Rightarrow>
        (let (dev, s2) = (case found of Some d \<Rightarrow> (Some d, s1) | None \<Rightarrow> vfs_create_node (Some (vfs_root s1)) dev_name VNODE_DIR s1);
             (node, s3) = vfs_create_node dev name ty s2
         in Some (node, case node of
              None \<Rightarrow> s3
            | Some n \<Rightarrow> s3\<lparr>node_pool := (node_pool s3)(n := (node_pool s3 n)\<lparr>v_fops := Some fops\<rparr>)\<rparr>)))"

definition vfs_register_chardev ::
  "('a vfs_scheme) dir_lookup \<Rightarrow> u8 list \<Rightarrow> file_operations \<Rightarrow> 'a vfs_scheme \<Rightarrow> (nat option \<times> 'a vfs_scheme) option" where
  "vfs_register_chardev lookup name fops s = register_device VNODE_CHR lookup name fops s"

definition vfs_register_blockdev ::
  "('a vfs_scheme) dir_lookup \<Rightarrow> u8 list \<Rightarrow> file_operations \<Rightarrow> 'a vfs_scheme \<Rightarrow> (nat option \<times> 'a vfs_scheme) option" where
  "vfs_register_blockdev lookup name fops s = register_device VNODE_BLK lookup name fops s"

section \<open>Descriptor tables\<close>

definition fd_table_create :: "'a vfs_scheme \<Rightarrow> (u64 \<times> 'a vfs_scheme) option" where
  "fd_table_create s =
    (case kmalloc 512 s of
       None \<Rightarrow> None
     | Some (t, s1) \<Rightarrow> Some (t, if t \<noteq> 0 then s1\<lparr>fdtabs := (fdtabs s1)(t := (\<lambda>_. 0))\<rparr> else s1))"

fun free_files :: "u64 \<Rightarrow> nat list \<Rightarrow> 'a vfs_scheme \<Rightarrow> 'a vfs_scheme option" where
  "free_files t [] s = Some s"
| "free_files t (i # is) s =
    (if fdtabs s t i \<noteq> 0
     then (case kfree (fdtabs s t i) s of None \<Rightarrow> None | Some s1 \<Rightarrow> free_files t is s1)
     else free_files t is s)"

definition fd_table_destroy :: "u64 \<Rightarrow> 'a vfs_scheme \<Rightarrow> 'a vfs_scheme option" where
  "fd_table_destroy t s =
    (if t = 0 then Some s
     else case free_files t [0..<64] s of None \<Rightarrow> None | Some s1 \<Rightarrow> kfree t s1)"

definition alloc_fd :: "u64 \<Rightarrow> 'a vfs_scheme \<Rightarrow> int" where
  "alloc_fd t s = (case filter (\<lambda>i. fdtabs s t i = 0) [0..<64] of [] \<Rightarrow> -1 | i # _ \<Rightarrow> int i)"

definition fd_open :: "('a vfs_scheme) dir_lookup \<Rightarrow> u64 \<Rightarrow> u8 list \<Rightarrow> 'a vfs_scheme \<Rightarrow> (int \<times> 'a vfs_scheme) option" where
  "fd_open lookup t path s =
    (case vfs_resolve lookup path s of
       None \<Rightarrow> None
     | Some (None, s1) \<Rightarrow> Some (-1, s1)
     | Some (Some node, s1) \<Rightarrow>
        (let fd = alloc_fd t s1 in
         if fd < 0 then Some (-1, s1)
         else case kmalloc 16 s1 of
                None \<Rightarrow> None
              | Some (f, s2) \<Rightarrow>
                 if f = 0 then Some (-1, s2)
                 else Some (fd, s2\<lparr>files := (files s2)(f := \<lparr>f_vnode = node, f_offset = 0\<rparr>),
                                   fdtabs := (fdtabs s2)(t := (fdtabs s2 t)(nat fd := f))\<rparr>)))"

definition bad_fd :: "u64 \<Rightarrow> int \<Rightarrow> 'a vfs_scheme \<Rightarrow> bool" where
  "bad_fd t fd s \<longleftrightarrow> fd < 0 \<or> fd \<ge> MAX_FDS \<or> fdtabs s t (nat fd) = 0"

type_synonym 's driver = "nat \<Rightarrow> nat \<Rightarrow> u64 \<Rightarrow> u64 \<Rightarrow> u64 \<Rightarrow> 's \<Rightarrow> int \<times> 's"

definition call_fop ::
  "(file_operations \<Rightarrow> nat option) \<Rightarrow> ('a vfs_scheme) driver \<Rightarrow> u64 \<Rightarrow> int \<Rightarrow> u64 \<Rightarrow> u64 \<Rightarrow> 'a vfs_scheme \<Rightarrow> int \<times> 'a vfs_scheme" where
  "call_fop sel drv t fd a b s =
    (if bad_fd t fd s then (-1, s)
     else let f = fdtabs s t (nat fd); v = f_vnode (files s f) in
       case v_fops (node_pool s v) of
         None \<Rightarrow> (-1, s)
       | Some ops \<Rightarrow> (case sel ops of None \<Rightarrow> (-1, s) | Some fn \<Rightarrow> drv fn v f a b s))"

definition fd_read :: "('a vfs_scheme) driver \<Rightarrow> u64 \<Rightarrow> int \<Rightarrow> u64 \<Rightarrow> u64 \<Rightarrow> 'a vfs_scheme \<Rightarrow> int \<times> 'a vfs_scheme" where
  "fd_read drv t fd buf count s = call_fop op_read drv t fd buf count s"

definition fd_write :: "('a vfs_scheme) driver \<Rightarrow> u64 \<Rightarrow> int \<Rightarrow> u64 \<Rightarrow> u64 \<Rightarrow> 'a vfs_scheme \<Rightarrow> int \<times> 'a vfs_scheme" where
  "fd_write drv t fd buf count s = call_fop op_write drv t fd buf count s"

definition fd_ioctl :: "('a vfs_scheme) driver \<Rightarrow> u64 \<Rightarrow> int \<Rightarrow> u64 \<Rightarrow> u64 \<Rightarrow> 'a vfs_scheme \<Rightarrow> int \<times> 'a vfs_scheme" where
  "fd_ioctl drv t fd cmd arg s = call_fop op_ioctl drv t fd cmd arg s"

definition fd_close :: "u64 \<Rightarrow> int \<Rightarrow> 'a vfs_scheme \<Rightarrow> (int \<times> 'a vfs_scheme) option" where
  "fd_close t fd s =
    (if bad_fd t fd s then Some (-1, s)
     else case kfree (fdtabs s t (nat fd)) s of
            None \<Rightarrow> None
          | Some s1 \<Rightarrow> Some (0, s1\<lparr>fdtabs := (fdtabs s1)(t := (fdtabs s1 t)(nat fd := 0))\<rparr>))"

definition fd_seek :: "u64 \<Rightarrow> int \<Rightarrow> u64 \<Rightarrow> int \<Rightarrow> 'a vfs_scheme \<Rightarrow> u64 \<times> 'a vfs_scheme" where
  "fd_seek t fd offset whence s =
    (if bad_fd t fd s then (-1, s)
     else let f = fdtabs s t (nat fd); v = f_vnode (files s f) in
       if v_type (node_pool s v) = VNODE_CHR then (-1, s)
       else
         let new_off = (if whence = 0 then Some offset
                        else if whence = 1 then Some (f_offset (files s f) + offset)
                        else if whence = 2 then
                          (if v_type (node_pool s v) \<noteq> VNODE_REG then None else Some (v_size (node_pool s v) + offset))
                        else None)
         in case new_off of
              None \<Rightarrow> (-1, s)
            | Some off \<Rightarrow> if sint off < 0 then (-1, s)
                          else (off, s\<lparr>files := (files s)(f := (files s f)\<lparr>f_offset := off\<rparr>)\<rparr>))"


section \<open>The allocators leave the rest of the state alone\<close>

lemma allocate_page_bits_more: "allocate_page_bits i bs s = Some (p, s') \<Longrightarrow> pmm.more s' = pmm.more s"
  by (induction i bs s rule: allocate_page_bits.induct) (auto simp: Let_def bitmap_set_def split: if_splits)

lemma allocate_page_words_more: "pmm.more (snd (allocate_page_words is s)) = pmm.more s"
  by (induction "is" s rule: allocate_page_words.induct)
    (auto split: option.splits dest: allocate_page_bits_more)

lemma fold_bitmap_set_more: "pmm.more (fold (\<lambda>i. bitmap_set (f i)) xs s) = pmm.more s"
  by (induction xs arbitrary: s) (simp_all add: bitmap_set_def)

lemma allocate_run_more: "pmm.more (snd (allocate_run c ps rs rl s)) = pmm.more s"
  by (induction c ps rs rl s rule: allocate_run.induct) (auto simp: Let_def fold_bitmap_set_more)

lemma allocate_pages_more: "pmm_allocate_pages k s = (p, s') \<Longrightarrow> pmm.more s' = pmm.more s"
  using allocate_page_words_more [of "[0..<unat (bitmap_size s)]" s]
    allocate_run_more [of k "[unat (reserved_pages s)..<unat (total_pages s)]" 0 0 s]
  by (auto simp: pmm_allocate_pages_def pmm_allocate_page_def split: if_splits)

lemma free_pages_more: "pmm.more (pmm_free_pages a k s) = pmm.more s"
proof -
  have "pmm.more (fold (\<lambda>i. pmm_free_page (f i)) xs s) = pmm.more s" for f xs
    by (induction xs arbitrary: s) (simp_all add: pmm_free_page_frame)
  then show ?thesis by (simp add: pmm_free_pages_def)
qed

lemma pmm_heap_more: "pmm.more s = pmm.more t \<Longrightarrow> heap.more s = heap.more t"
  by (cases s; cases t) simp

lemma free_pages_heap_more [simp]: "heap.more (pmm_free_pages a k s) = heap.more s"
  by (rule pmm_heap_more [OF free_pages_more])

lemma heap_expand_more:
  assumes "heap_expand n s = Some (rc, s')"
  shows "heap.more s' = heap.more s"
proof -
  obtain p s1 where a: "pmm_allocate_pages (expand_pages n) s = (p, s1)" by fastforce
  have "heap.more s1 = heap.more s" by (rule pmm_heap_more [OF allocate_pages_more [OF a]])
  then show ?thesis
    using assms a by (auto simp: heap_expand_def register_region_def Let_def split: prod.splits if_splits option.splits)
qed

lemma kmalloc_attempts_more: "kmalloc_attempts k n s = Some (p, s') \<Longrightarrow> heap.more s' = heap.more s"
  by (induction k n s rule: kmalloc_attempts.induct)
    (auto split: option.splits if_splits dest: heap_expand_more)

lemma kmalloc_more: "kmalloc n s = Some (p, s') \<Longrightarrow> heap.more s' = heap.more s"
  by (auto simp: kmalloc_def split: if_splits dest: kmalloc_attempts_more)

lemma kfree_more: "kfree p s = Some s' \<Longrightarrow> heap.more s' = heap.more s"
  by (auto simp: kfree_def Let_def split: if_splits option.splits)

lemma heap_more_vfs:
  assumes "heap.more s = heap.more t"
  shows "node_pool s = node_pool t" "node_count s = node_count t" "vfs_root s = vfs_root t" "files s = files t"
    "fdtabs s = fdtabs t" "tab s = tab t" "g_sigtramp_phys s = g_sigtramp_phys t" "vfs.more s = vfs.more t"
  using assms by (cases s; cases t; simp)+

lemmas kmalloc_vfs = heap_more_vfs [OF kmalloc_more]
lemmas kfree_vfs = heap_more_vfs [OF kfree_more]

lemma heap_live_cong:
  fixes s :: "'a heap_scheme" and t :: "'b heap_scheme"
  assumes "bitmap s = bitmap t" "bitmap_size s = bitmap_size t" "total_pages s = total_pages t" "used_pages s = used_pages t"
    "reserved_pages s = reserved_pages t" "mem_region_start s = mem_region_start t" "mem_region_end s = mem_region_end t"
    "heap_head s = heap_head t" "hdr s = hdr t" "regions s = regions t"
  shows "heap_live s V = heap_live t V"
proof -
  have u: "page_used s = page_used t" using assms by (simp add: fun_eq_iff page_used_def)
  have n: "npages s = npages t" using assms by (simp add: npages_def)
  have a: "allocated s = allocated t" by (simp add: allocated_def u n)
  have b: "page_bytes s = page_bytes t" using assms by (simp add: fun_eq_iff page_bytes_def)
  have i: "pmm_inv s = pmm_inv t" using assms by (simp add: pmm_inv_def u n a)
  have o: "owned_bytes s = owned_bytes t" "reserved_bytes s = reserved_bytes t"
    using assms by (simp_all add: owned_bytes_def reserved_bytes_def a b)
  have r: "addr_in_any_region s = addr_in_any_region t" using assms by (simp add: fun_eq_iff addr_in_any_region_def)
  have "heap_rep s bs = heap_rep t bs" for bs using assms by (simp add: heap_rep_def i o r)
  then show ?thesis by (simp add: heap_live_def)
qed

lemma heap_live_vfs_upd [simp]:
  "heap_live (s\<lparr>files := x\<rparr>) V = heap_live s V" "heap_live (s\<lparr>fdtabs := y\<rparr>) V = heap_live s V"
  "heap_live (s\<lparr>node_pool := z\<rparr>) V = heap_live s V" "heap_live (s\<lparr>node_count := c\<rparr>) V = heap_live s V"
  by (rule heap_live_cong; simp)+


section \<open>Resolution in a cached tree\<close>

text \<open>Child lists run from newer to older nodes, so a scan of them ends.\<close>

definition pool_ok :: "'a vfs_scheme \<Rightarrow> bool" where
  "pool_ok s \<longleftrightarrow> node_count s \<le> MAX_VNODES \<and> vfs_root s < node_count s \<and>
    v_type (node_pool s (vfs_root s)) = VNODE_DIR \<and> v_parent (node_pool s (vfs_root s)) = None \<and>
    (\<forall>n < node_count s. 0 \<notin> set (v_name (node_pool s n)) \<and>
      (\<forall>m. v_next (node_pool s n) = Some m \<longrightarrow> m < n \<and> v_parent (node_pool s m) = v_parent (node_pool s n)) \<and>
      (\<forall>m. v_children (node_pool s n) = Some m \<longrightarrow> m < node_count s \<and> v_parent (node_pool s m) = Some n) \<and>
      (\<forall>m. v_parent (node_pool s n) = Some m \<longrightarrow> m < node_count s))"

definition no_mounts :: "'a vfs_scheme \<Rightarrow> bool" where
  "no_mounts s \<longleftrightarrow> (\<forall>n. v_lookup (node_pool s n) = None)"

lemma pool_cong:
  assumes "node_pool s' = node_pool s" "node_count s' = node_count s" "vfs_root s' = vfs_root s"
  shows "pool_ok s' = pool_ok s" "no_mounts s' = no_mounts s"
  unfolding pool_ok_def no_mounts_def assms by (rule refl)+

lemma pool_okD:
  assumes "pool_ok s"
  shows "vfs_root s < node_count s"
    "n < node_count s \<Longrightarrow> v_next (node_pool s n) = Some m \<Longrightarrow> m < n"
    "n < node_count s \<Longrightarrow> v_children (node_pool s n) = Some m \<Longrightarrow> m < node_count s"
    "n < node_count s \<Longrightarrow> v_parent (node_pool s n) = Some m \<Longrightarrow> m < node_count s"
    "n < node_count s \<Longrightarrow> 0 \<notin> set (v_name (node_pool s n))"
    "n < node_count s \<Longrightarrow> v_next (node_pool s n) = Some m \<Longrightarrow> v_parent (node_pool s m) = v_parent (node_pool s n)"
    "n < node_count s \<Longrightarrow> v_children (node_pool s n) = Some m \<Longrightarrow> v_parent (node_pool s m) = Some n"
    "v_type (node_pool s (vfs_root s)) = VNODE_DIR" "v_parent (node_pool s (vfs_root s)) = None"
  using assms unfolding pool_ok_def by blast+

lemma scan_returns:
  assumes "\<And>n m. n < k \<Longrightarrow> v_next (pool n) = Some m \<Longrightarrow> m < n"
  shows "case c of None \<Rightarrow> True | Some n \<Rightarrow> n < k \<Longrightarrow>
    \<exists>r. scan_children pool name c = Some r \<and> (case r of None \<Rightarrow> True | Some n \<Rightarrow> n < k)"
proof (induction "case c of None \<Rightarrow> 0 | Some n \<Rightarrow> Suc n" arbitrary: c rule: less_induct)
  case less
  show ?case
  proof (cases c)
    case None
    then show ?thesis by (subst scan_children.simps) simp
  next
    case (Some n)
    show ?thesis
    proof (cases "name_match (v_name (pool n)) name")
      case True
      then show ?thesis using Some less.prems by (subst scan_children.simps) simp
    next
      case False
      have "n < k" using Some less.prems by simp
      then have nx: "m < n" "m < k" if "v_next (pool n) = Some m" for m
        using assms [OF _ that] by auto
      have "\<exists>r. scan_children pool name (v_next (pool n)) = Some r \<and> (case r of None \<Rightarrow> True | Some n \<Rightarrow> n < k)"
        using Some nx by (intro less.hyps) (auto split: option.splits)
      then show ?thesis using Some False by (subst scan_children.simps) simp
    qed
  qed
qed

lemma resolve_returns:
  assumes ok: "pool_ok s" "no_mounts s"
  shows "cur < node_count s \<Longrightarrow> \<exists>r. resolve_from lookup cur path s = Some (r, s) \<and> (case r of None \<Rightarrow> True | Some n \<Rightarrow> n < node_count s)"
proof (induction "length path" arbitrary: cur path rule: less_induct)
  case less
  show ?case
  proof (cases "dropWhile (\<lambda>c. c = SLASH) path")
    case Nil
    then show ?thesis using less.prems
      by (simp only: resolve_from.simps [of _ _ path] list.case) (auto split: option.splits)
  next
    case (Cons p ps)
    let ?name = "takeWhile (\<lambda>c. c \<noteq> SLASH) (p # ps)" and ?rest = "dropWhile (\<lambda>c. c \<noteq> SLASH) (p # ps)"
    have IH: "\<exists>r. resolve_from lookup c ?rest s = Some (r, s) \<and> (case r of None \<Rightarrow> True | Some n \<Rightarrow> n < node_count s)"
      if "c < node_count s" for c
      by (rule less.hyps [OF rest_shorter [OF Cons] that])
    have up: "(case v_parent (node_pool s cur) of Some q \<Rightarrow> q | None \<Rightarrow> cur) < node_count s"
      using pool_okD(4) [OF ok(1) less.prems] less.prems by (simp split: option.split)
    have "\<exists>r. scan_children (node_pool s) ?name (v_children (node_pool s cur)) = Some r \<and>
        (case r of None \<Rightarrow> True | Some n \<Rightarrow> n < node_count s)"
      using pool_okD(3) [OF ok(1) less.prems]
      by (intro scan_returns) (simp_all add: pool_okD(2) [OF ok(1)] split: option.split)
    then obtain r where r: "scan_children (node_pool s) ?name (v_children (node_pool s cur)) = Some r"
        "\<And>n. r = Some n \<Longrightarrow> n < node_count s" by (auto split: option.splits)
    have "find_child lookup cur ?name s = Some (r, s)"
      using ok(2) r(1) by (cases r) (simp_all add: find_child_def no_mounts_def)
    then have "resolve_from lookup cur path s =
        (if v_type (node_pool s cur) \<noteq> VNODE_DIR then Some (None, s)
         else if ?name = [DOT] then resolve_from lookup cur ?rest s
         else if ?name = [DOT, DOT]
           then resolve_from lookup (case v_parent (node_pool s cur) of Some q \<Rightarrow> q | None \<Rightarrow> cur) ?rest s
         else case r of None \<Rightarrow> Some (None, s) | Some child \<Rightarrow> resolve_from lookup child ?rest s)"
      by (simp only: resolve_from.simps [of _ _ path] Cons list.case Let_def option.case prod.case)
    then show ?thesis using IH [OF less.prems] IH [OF up] IH [OF r(2)] by (cases r) (simp_all del: takeWhile.simps dropWhile.simps)
  qed
qed

lemma vfs_resolve_returns:
  assumes "pool_ok s" "no_mounts s"
  shows "\<exists>r. vfs_resolve lookup path s = Some (r, s)"
proof (cases path)
  case (Cons c rest)
  show ?thesis using resolve_returns [OF assms pool_okD(1) [OF assms(1)], of lookup rest] by (auto simp: vfs_resolve_def Cons)
qed (simp add: vfs_resolve_def)

text \<open>What scanning a child list looks at.\<close>

lemma scan_cong:
  assumes "\<And>n m. n < k \<Longrightarrow> v_next (pool n) = Some m \<Longrightarrow> m < n"
    and "\<And>n. n < k \<Longrightarrow> v_name (pool' n) = v_name (pool n) \<and> v_next (pool' n) = v_next (pool n)"
  shows "case c of None \<Rightarrow> True | Some n \<Rightarrow> n < k \<Longrightarrow> scan_children pool' name c = scan_children pool name c"
proof (induction "case c of None \<Rightarrow> 0 | Some n \<Rightarrow> Suc n" arbitrary: c rule: less_induct)
  case less
  show ?case
  proof (cases c)
    case None
    then show ?thesis by (simp add: scan_children.simps)
  next
    case (Some n)
    have n: "n < k" using Some less.prems by simp
    have "scan_children pool' name (v_next (pool n)) = scan_children pool name (v_next (pool n))"
      using less.hyps [of "v_next (pool n)"] assms(1) [OF n] n Some by (fastforce split: option.splits)
    then show ?thesis
      unfolding Some using assms(2) [OF n] by (subst (1 2) scan_children.simps) simp
  qed
qed

lemma scan_parent:
  assumes "pool_ok s"
  shows "scan_children (node_pool s) name c = Some (Some d) \<Longrightarrow>
    (\<And>n. c = Some n \<Longrightarrow> n < node_count s \<and> v_parent (node_pool s n) = q) \<Longrightarrow> v_parent (node_pool s d) = q"
proof (induction "case c of None \<Rightarrow> 0 | Some n \<Rightarrow> Suc n" arbitrary: c rule: less_induct)
  case less
  show ?case
  proof (cases c)
    case None
    then show ?thesis using less.prems(1) by (simp add: scan_children.simps)
  next
    case (Some n)
    have n: "n < node_count s" "v_parent (node_pool s n) = q" using less.prems(2) [OF Some] by simp_all
    show ?thesis
    proof (cases "name_match (v_name (node_pool s n)) name")
      case True
      then show ?thesis using less.prems(1) n by (simp add: Some scan_children.simps [of _ _ "Some n"])
    next
      case False
      then have "scan_children (node_pool s) name (v_next (node_pool s n)) = Some (Some d)"
        using less.prems(1) by (simp add: Some scan_children.simps [of _ _ "Some n"])
      then show ?thesis
        using less.hyps [of "v_next (node_pool s n)"] pool_okD(2,6) [OF assms n(1)] n Some
        by (cases "v_next (node_pool s n)") auto
    qed
  qed
qed

lemma name_match_eq: "0 \<notin> set node \<Longrightarrow> 0 \<notin> set name \<Longrightarrow> name_match node name \<longleftrightarrow> node = name"
  by (induction node name rule: name_match.induct) (auto split: list.splits)

definition path_component :: "u8 list \<Rightarrow> bool" where
  "path_component name \<longleftrightarrow> name \<noteq> [] \<and> SLASH \<notin> set name \<and> 0 \<notin> set name \<and> length name \<le> 63 \<and>
    name \<noteq> [DOT] \<and> name \<noteq> [DOT, DOT]"

lemma resolve_component:
  assumes name: "path_component name" and rest: "rest = [] \<or> hd rest = SLASH"
    and d: "v_type (node_pool s cur) = VNODE_DIR"
    and c: "scan_children (node_pool s) name (v_children (node_pool s cur)) = Some (Some child)"
  shows "resolve_from lookup cur (name @ rest) s = resolve_from lookup child rest s"
    "resolve_from lookup cur (SLASH # name @ rest) s = resolve_from lookup child rest s"
proof -
  obtain p ps where np: "name = p # ps" "p \<noteq> SLASH" using name by (cases name) (auto simp: path_component_def)
  have "takeWhile (\<lambda>c. c \<noteq> SLASH) (name @ rest) = name" "dropWhile (\<lambda>c. c \<noteq> SLASH) (name @ rest) = rest"
    using name rest unfolding path_component_def
    by (cases rest; fastforce simp: takeWhile_append dropWhile_append)+
  moreover have "find_child lookup cur name s = Some (Some child, s)" using c by (simp add: find_child_def)
  moreover have "dropWhile (\<lambda>c. c = SLASH) (name @ rest) = p # ps @ rest" "name @ rest = p # ps @ rest" using np by simp_all
  ultimately have eq: "resolve_from lookup cur path s = resolve_from lookup child rest s"
    if "dropWhile (\<lambda>c. c = SLASH) path = p # ps @ rest" for path
    using name d that
    by (simp only: resolve_from.simps [of lookup cur path] path_component_def Let_def list.case option.case prod.case simp_thms if_False)
  show "resolve_from lookup cur (name @ rest) s = resolve_from lookup child rest s"
    "resolve_from lookup cur (SLASH # name @ rest) s = resolve_from lookup child rest s"
    using np by (auto intro!: eq)
qed

lemma resolve_end: "resolve_from lookup cur [] s = Some (Some cur, s)"
  by (simp add: resolve_from.simps)

text \<open>A new node becomes the head of its parent's list of children.\<close>

definition new_vnode :: "nat \<Rightarrow> u8 list \<Rightarrow> vnode_type \<Rightarrow> 'a vfs_scheme \<Rightarrow> vnode" where
  "new_vnode p name ty s = \<lparr>v_name = take 63 name, v_type = ty, v_fops = None, v_lookup = None, v_private = 0, v_size = 0,
     v_parent = Some p, v_children = None, v_next = v_children (node_pool s p)\<rparr>"

definition linked_pool :: "nat \<Rightarrow> u8 list \<Rightarrow> vnode_type \<Rightarrow> 'a vfs_scheme \<Rightarrow> nat \<Rightarrow> vnode" where
  "linked_pool p name ty s = (node_pool s)(node_count s := new_vnode p name ty s,
     p := (node_pool s p)\<lparr>v_children := Some (node_count s)\<rparr>)"

lemma vfs_create_node_full: "MAX_VNODES \<le> node_count s \<Longrightarrow> vfs_create_node parent name ty s = (None, s)"
  by (simp add: vfs_create_node_def alloc_vnode_def)

lemma vfs_create_node_linked:
  assumes "node_count s < MAX_VNODES" "p < node_count s"
  shows "vfs_create_node (Some p) name ty s =
    (Some (node_count s), s\<lparr>node_pool := linked_pool p name ty s, node_count := Suc (node_count s)\<rparr>)"
  using assms by (simp add: vfs_create_node_def alloc_vnode_def linked_pool_def new_vnode_def Let_def fun_upd_twist)

lemma linked_pool_node:
  assumes "p < node_count s" "n < node_count s"
  shows "v_name (linked_pool p name ty s n) = v_name (node_pool s n)" "v_next (linked_pool p name ty s n) = v_next (node_pool s n)"
    "v_type (linked_pool p name ty s n) = v_type (node_pool s n)" "v_parent (linked_pool p name ty s n) = v_parent (node_pool s n)"
    "v_children (linked_pool p name ty s n) = (if n = p then Some (node_count s) else v_children (node_pool s n))"
    "v_fops (linked_pool p name ty s n) = v_fops (node_pool s n)"
  using assms by (simp_all add: linked_pool_def)

lemma linked_pool_new: "p < node_count s \<Longrightarrow> linked_pool p name ty s (node_count s) = new_vnode p name ty s"
  by (simp add: linked_pool_def)

lemma vfs_create_node_ok:
  assumes "pool_ok s" "no_mounts s" "node_count s < MAX_VNODES" "p < node_count s" "0 \<notin> set name"
  shows "pool_ok (s\<lparr>node_pool := linked_pool p name ty s, node_count := Suc (node_count s)\<rparr>)" (is "pool_ok ?s")
    and "no_mounts (s\<lparr>node_pool := linked_pool p name ty s, node_count := Suc (node_count s)\<rparr>)"
proof -
  have new: "0 \<notin> set (v_name (new_vnode p name ty s))" using assms(5) by (auto simp: new_vnode_def dest: in_set_takeD)
  have node: "0 \<notin> set (v_name (linked_pool p name ty s n)) \<and>
      (\<forall>m. v_next (linked_pool p name ty s n) = Some m \<longrightarrow> m < n \<and>
         v_parent (linked_pool p name ty s m) = v_parent (linked_pool p name ty s n)) \<and>
      (\<forall>m. v_children (linked_pool p name ty s n) = Some m \<longrightarrow> m < Suc (node_count s) \<and>
         v_parent (linked_pool p name ty s m) = Some n) \<and>
      (\<forall>m. v_parent (linked_pool p name ty s n) = Some m \<longrightarrow> m < Suc (node_count s))" if "n < Suc (node_count s)" for n
  proof (cases "n = node_count s")
    case True
    have "v_parent (linked_pool p name ty s m) = Some p" "m < node_count s" if "v_children (node_pool s p) = Some m" for m
      using pool_okD(3,7) [OF assms(1,4) that] linked_pool_node(4) [OF assms(4), of m] by simp_all
    then show ?thesis
      using new assms(4) by (simp add: True linked_pool_new) (simp add: new_vnode_def)
  next
    case False
    then have n: "n < node_count s" using that by simp
    note old = linked_pool_node [OF assms(4) n, of name ty]
    have nx: "m < n" "v_parent (linked_pool p name ty s m) = v_parent (node_pool s n)" if "v_next (node_pool s n) = Some m" for m
    proof -
      show "m < n" by (rule pool_okD(2) [OF assms(1) n that])
      then have "m < node_count s" using n by simp
      then show "v_parent (linked_pool p name ty s m) = v_parent (node_pool s n)"
        using pool_okD(6) [OF assms(1) n that] linked_pool_node(4) [OF assms(4), of m] by simp
    qed
    have ch: "m < Suc (node_count s)" "v_parent (linked_pool p name ty s m) = Some n"
      if "(if n = p then Some (node_count s) else v_children (node_pool s n)) = Some m" for m
    proof -
      have "m < Suc (node_count s) \<and> v_parent (linked_pool p name ty s m) = Some n"
      proof (cases "n = p")
        case True
        then show ?thesis using that assms(4) by (auto simp: linked_pool_new new_vnode_def)
      next
        case False
        then have m: "v_children (node_pool s n) = Some m" using that by simp
        then show ?thesis
          using pool_okD(3,7) [OF assms(1) n m] linked_pool_node(4) [OF assms(4), of m] by simp
      qed
      then show "m < Suc (node_count s)" "v_parent (linked_pool p name ty s m) = Some n" by simp_all
    qed
    show ?thesis
      unfolding old using pool_okD(5) [OF assms(1) n] nx ch pool_okD(4) [OF assms(1) n] less_SucI by blast
  qed
  have r: "v_type (linked_pool p name ty s (vfs_root s)) = VNODE_DIR" "v_parent (linked_pool p name ty s (vfs_root s)) = None"
    using linked_pool_node(3,4) [OF assms(4) pool_okD(1) [OF assms(1)]] pool_okD(8,9) [OF assms(1)] by simp_all
  have e: "node_pool ?s = linked_pool p name ty s" "node_count ?s = Suc (node_count s)" "vfs_root ?s = vfs_root s" by simp_all
  show "pool_ok ?s"
    unfolding pool_ok_def e using node r Suc_leI [OF assms(3)] less_SucI [OF pool_okD(1) [OF assms(1)]] by blast
  show "no_mounts ?s"
    using assms(2,4) by (auto simp: no_mounts_def linked_pool_def new_vnode_def)
qed

lemma scan_head:
  "0 \<notin> set name \<Longrightarrow> v_name (pool n) = name \<Longrightarrow> scan_children pool name (Some n) = Some (Some n)"
  by (simp add: scan_children.simps name_match_eq)

lemma dev_component: "path_component dev_name" "dev_path = SLASH # dev_name"
  by (simp_all add: path_component_def dev_name_def dev_path_def)

lemma resolve_dev:
  assumes "pool_ok s" "no_mounts s"
  obtains r where "vfs_resolve lookup dev_path s = Some (r, s)"
    "scan_children (node_pool s) dev_name (v_children (node_pool s (vfs_root s))) = Some r"
    "\<And>d. r = Some d \<Longrightarrow> d < node_count s \<and> d \<noteq> vfs_root s"
proof -
  let ?c = "v_children (node_pool s (vfs_root s))"
  note root = pool_okD(1) [OF assms(1)]
  have c: "n < node_count s" "v_parent (node_pool s n) = Some (vfs_root s)" if "?c = Some n" for n
    using pool_okD(3,7) [OF assms(1) root that] by simp_all
  have "case ?c of None \<Rightarrow> True | Some n \<Rightarrow> n < node_count s" using c(1) by (simp split: option.split)
  then obtain r where r: "scan_children (node_pool s) dev_name ?c = Some r" "\<And>n. r = Some n \<Longrightarrow> n < node_count s"
    using scan_returns [of "node_count s" "node_pool s" ?c dev_name] pool_okD(2) [OF assms(1)] by (auto split: option.splits)
  have ne: "d \<noteq> vfs_root s" if "r = Some d" for d
    using scan_parent [OF assms(1), of dev_name ?c d] r(1) that c pool_okD(9) [OF assms(1)] by fastforce
  have "vfs_resolve lookup dev_path s = Some (r, s)"
  proof (cases r)
    case (Some d)
    then show ?thesis
      using resolve_component(1) [OF dev_component(1) _ pool_okD(8) [OF assms(1)], of "[]" d lookup] r(1)
      by (simp add: vfs_resolve_def dev_component(2) resolve_end)
  next
    case None
    then have "find_child lookup (vfs_root s) dev_name s = Some (None, s)"
      using r(1) assms(2) by (simp add: find_child_def no_mounts_def)
    then show ?thesis
      using pool_okD(8) [OF assms(1)] None
      unfolding vfs_resolve_def dev_component(2) list.case
      by (subst resolve_from.simps) (simp add: dev_name_def)
  qed
  then show ?thesis using that r ne by blast
qed

lemma register_in_dir:
  fixes ty fops
  assumes ok: "pool_ok s" "no_mounts s" and name: "path_component name"
    and d: "scan_children (node_pool s) dev_name (v_children (node_pool s (vfs_root s))) = Some (Some d)"
    and dir: "d < node_count s" "d \<noteq> vfs_root s" "v_type (node_pool s d) = VNODE_DIR" and space: "node_count s < MAX_VNODES"
  defines "s1 \<equiv> s\<lparr>node_pool := (linked_pool d name ty s)(node_count s := (new_vnode d name ty s)\<lparr>v_fops := Some fops\<rparr>),
      node_count := Suc (node_count s)\<rparr>"
  shows "vfs_resolve lookup (dev_path @ SLASH # name) s1 = Some (Some (node_count s), s1)"
proof -
  note root = pool_okD(1) [OF ok(1)]
  let ?P = "node_pool s1"
  have old: "v_name (?P n) = v_name (node_pool s n)" "v_next (?P n) = v_next (node_pool s n)"
      "v_type (?P n) = v_type (node_pool s n)"
      "v_children (?P n) = (if n = d then Some (node_count s) else v_children (node_pool s n))" if "n < node_count s" for n
    using that linked_pool_node [OF dir(1) that, of name ty] by (simp_all add: s1_def)
  have nm: "v_name (?P (node_count s)) = name" using name by (simp add: s1_def new_vnode_def path_component_def)
  have r1: "vfs_root s1 = vfs_root s" by (simp add: s1_def)
  have "scan_children ?P dev_name (v_children (?P (vfs_root s))) = Some (Some d)"
    using scan_cong [of "node_count s" "node_pool s" ?P "v_children (node_pool s (vfs_root s))" dev_name] pool_okD(2) [OF ok(1)]
      pool_okD(3) [OF ok(1) root] d dir(2) old(1,2) old(4) [OF root] by (simp split: option.splits)
  moreover have "scan_children ?P name (v_children (?P d)) = Some (Some (node_count s))"
    using scan_head [of name ?P "node_count s"] nm name old(4) [OF dir(1)] by (simp add: path_component_def)
  ultimately show ?thesis
    using resolve_component(1) [OF dev_component(1), of "SLASH # name @ []" s1 "vfs_root s" d lookup]
      resolve_component(2) [OF name, of "[]" s1 d "node_count s" lookup] old(3) [OF root] old(3) [OF dir(1)] dir(3) pool_okD(8) [OF ok(1)]
    by (simp add: vfs_resolve_def dev_component(2) r1 resolve_end)
qed

definition registered ::
  "vnode_type \<Rightarrow> ('a vfs_scheme) dir_lookup \<Rightarrow> u8 list \<Rightarrow> file_operations \<Rightarrow> 'a vfs_scheme \<Rightarrow> nat option \<Rightarrow> 'a vfs_scheme \<Rightarrow> bool" where
  "registered ty lookup name fops s r s' \<longleftrightarrow>
    (case r of
       None \<Rightarrow> node_count s' = MAX_VNODES
     | Some n \<Rightarrow> vfs_resolve lookup (dev_path @ SLASH # name) s' = Some (Some n, s') \<and> node_count s \<le> n \<and>
         v_type (node_pool s' n) = ty \<and> v_fops (node_pool s' n) = Some fops \<and>
         (\<forall>m < node_count s. v_fops (node_pool s' m) = v_fops (node_pool s m) \<and> v_type (node_pool s' m) = v_type (node_pool s m)))"

lemma register_device_dir:
  assumes ok: "pool_ok s" "no_mounts s" "path_component name"
    and d: "scan_children (node_pool s) dev_name (v_children (node_pool s (vfs_root s))) = Some (Some d)"
    and dir: "d < node_count s" "d \<noteq> vfs_root s" "v_type (node_pool s d) = VNODE_DIR"
    and reg: "register_device ty lookup name fops s0 =
      (let (node, s3) = vfs_create_node (Some d) name ty s
       in Some (node, case node of
              None \<Rightarrow> s3
            | Some n \<Rightarrow> s3\<lparr>node_pool := (node_pool s3)(n := (node_pool s3 n)\<lparr>v_fops := Some fops\<rparr>)\<rparr>))"
  shows "\<exists>r s'. register_device ty lookup name fops s0 = Some (r, s') \<and> registered ty lookup name fops s r s'"
proof (cases "node_count s < MAX_VNODES")
  case False
  then show ?thesis using reg ok(1) by (simp add: vfs_create_node_full registered_def pool_ok_def)
next
  case True
  let ?s = "s\<lparr>node_pool := (linked_pool d name ty s)(node_count s := (new_vnode d name ty s)\<lparr>v_fops := Some fops\<rparr>),
      node_count := Suc (node_count s)\<rparr>"
  have "register_device ty lookup name fops s0 = Some (Some (node_count s), ?s)"
    using reg dir(1) True by (simp add: vfs_create_node_linked linked_pool_new)
  moreover have "v_fops (node_pool ?s m) = v_fops (node_pool s m) \<and> v_type (node_pool ?s m) = v_type (node_pool s m)"
    if "m < node_count s" for m
    using that linked_pool_node [OF dir(1) that, of name ty] by simp
  ultimately show ?thesis
    using register_in_dir [OF ok d dir True, of lookup ty fops]
    by (intro exI [of _ "Some (node_count s)"] exI [of _ ?s]) (simp add: registered_def new_vnode_def)
qed

lemma register_device_ok:
  assumes ok: "pool_ok s" "no_mounts s" "path_component name"
    and dev: "\<And>d. vfs_resolve lookup dev_path s = Some (Some d, s) \<Longrightarrow> v_type (node_pool s d) = VNODE_DIR"
  shows "\<exists>r s'. register_device ty lookup name fops s = Some (r, s') \<and> registered ty lookup name fops s r s'"
proof -
  obtain r where r: "vfs_resolve lookup dev_path s = Some (r, s)"
      "scan_children (node_pool s) dev_name (v_children (node_pool s (vfs_root s))) = Some r"
      "\<And>d. r = Some d \<Longrightarrow> d < node_count s \<and> d \<noteq> vfs_root s"
    using resolve_dev [OF ok(1,2), of lookup] by blast
  show ?thesis
  proof (cases r)
    case (Some d)
    then show ?thesis
      using r dev [of d] by (intro register_device_dir [OF ok, of d]) (auto simp: register_device_def)
  next
    case None
    show ?thesis
    proof (cases "node_count s < MAX_VNODES")
      case False
      then show ?thesis
        using ok(1) r(1) None by (simp add: register_device_def vfs_create_node_full registered_def pool_ok_def)
    next
      case True
      note root = pool_okD(1) [OF ok(1)]
      let ?s = "s\<lparr>node_pool := linked_pool (vfs_root s) dev_name VNODE_DIR s, node_count := Suc (node_count s)\<rparr>"
      have z: "0 \<notin> set dev_name" "take 63 dev_name = dev_name" by (simp_all add: dev_name_def)
      have s1: "pool_ok ?s" "no_mounts ?s" by (rule vfs_create_node_ok [OF ok(1,2) True root z(1)])+
      have "scan_children (node_pool ?s) dev_name (v_children (node_pool ?s (vfs_root ?s))) = Some (Some (node_count s))"
        using root z by (simp add: linked_pool_node(5) linked_pool_new new_vnode_def scan_head)
      then have "\<exists>r s'. register_device ty lookup name fops s = Some (r, s') \<and> registered ty lookup name fops ?s r s'"
        using root r(1) None True
        by (intro register_device_dir [OF s1 ok(3)])
          (simp_all add: linked_pool_new new_vnode_def register_device_def vfs_create_node_linked)
      then obtain r' s' where s': "register_device ty lookup name fops s = Some (r', s')" "registered ty lookup name fops ?s r' s'"
        by blast
      then have "registered ty lookup name fops s r' s'"
        using linked_pool_node(3,6) [OF root, of _ dev_name VNODE_DIR]
        by (auto simp: registered_def split: option.splits)
      then show ?thesis using s'(1) by blast
    qed
  qed
qed

section \<open>Ownership of descriptor tables\<close>

text \<open>
  Beside the objects \<open>V\<close> of others, the heap holds the table and one file object
  for each of the descriptors \<open>I\<close>.
\<close>

definition fd_rep :: "(u64 \<times> u64) set \<Rightarrow> u64 \<Rightarrow> nat set \<Rightarrow> 'a vfs_scheme \<Rightarrow> bool" where
  "fd_rep V t I s \<longleftrightarrow> t \<noteq> 0 \<and> t \<notin> fdtabs s t ` I \<and> 0 \<notin> fdtabs s t ` I \<and> inj_on (fdtabs s t) I \<and>
    kheap.owned V (insert t (fdtabs s t ` I)) s"

definition open_fds :: "u64 \<Rightarrow> 'a vfs_scheme \<Rightarrow> nat set" where
  "open_fds t s = {i. i < 64 \<and> fdtabs s t i \<noteq> 0}"

lemma owned_vfs_upd [simp]:
  "kheap.owned V A (s\<lparr>files := x\<rparr>) = kheap.owned V A s" "kheap.owned V A (s\<lparr>fdtabs := y\<rparr>) = kheap.owned V A s"
  by (simp_all add: kheap.owned_def)

lemma fd_rep_close:
  assumes "fd_rep V t I s" "i \<in> I"
  shows "\<exists>s'. kfree (fdtabs s t i) s = Some s' \<and> fdtabs s' = fdtabs s \<and> fd_rep V t (I - {i}) s'"
proof -
  have r: "t \<noteq> 0" "t \<notin> fdtabs s t ` I" "0 \<notin> fdtabs s t ` I" "inj_on (fdtabs s t) I"
      "kheap.owned V (insert t (fdtabs s t ` I)) s"
    using assms(1) by (simp_all add: fd_rep_def)
  obtain s' where s': "kfree (fdtabs s t i) s = Some s'" "kheap.owned V (insert t (fdtabs s t ` I) - {fdtabs s t i}) s'"
    using kheap.owned_fre [OF r(5), of "fdtabs s t i"] assms(2) by auto
  have "fdtabs s t ` (I - {i}) = fdtabs s t ` I - {fdtabs s t i}"
    using inj_on_image_set_diff [OF r(4), of I "{i}"] assms(2) by simp
  moreover have "fdtabs s t i \<noteq> t" using r(2) imageI [OF assms(2), of "fdtabs s t"] by metis
  ultimately have "insert t (fdtabs s t ` I) - {fdtabs s t i} = insert t (fdtabs s t ` (I - {i}))" by auto
  then have "kheap.owned V (insert t (fdtabs s t ` (I - {i}))) s'" using s'(2) by simp
  moreover have "inj_on (fdtabs s t) (I - {i})" by (rule inj_on_subset [OF r(4)]) simp
  moreover have "t \<notin> fdtabs s t ` (I - {i})" "0 \<notin> fdtabs s t ` (I - {i})" using r(2,3) by blast+
  ultimately show ?thesis using s'(1) r(1) kfree_vfs(5) [OF s'(1)] by (simp add: fd_rep_def)
qed

lemma fd_rep_free_files:
  "fd_rep V t I s \<Longrightarrow> distinct is \<Longrightarrow> I = {i \<in> set is. fdtabs s t i \<noteq> 0} \<Longrightarrow>
    \<exists>s'. free_files t is s = Some s' \<and> fd_rep V t {} s'"
proof (induction "is" arbitrary: I s)
  case (Cons i "is")
  show ?case
  proof (cases "fdtabs s t i = 0")
    case True
    then have "I = {i \<in> set is. fdtabs s t i \<noteq> 0}" using Cons.prems(3) by auto
    then show ?thesis using Cons.IH [OF Cons.prems(1)] Cons.prems(2) True by simp
  next
    case False
    then have "i \<in> I" using Cons.prems(3) by simp
    then obtain s' where s': "kfree (fdtabs s t i) s = Some s'" "fdtabs s' = fdtabs s" "fd_rep V t (I - {i}) s'"
      using fd_rep_close [OF Cons.prems(1)] by blast
    have "I - {i} = {i \<in> set is. fdtabs s' t i \<noteq> 0}" using Cons.prems(2,3) s'(2) by auto
    then show ?thesis using Cons.IH [OF s'(3)] Cons.prems(2) False s'(1) by simp
  qed
qed simp

lemma fd_table_destroy_ok:
  assumes "fd_rep V t (open_fds t s) s"
  shows "\<exists>s'. fd_table_destroy t s = Some s' \<and> heap_live s' V"
proof -
  obtain s1 where s1: "free_files t [0..<64] s = Some s1" "fd_rep V t {} s1"
    using fd_rep_free_files [OF assms, of "[0..<64]"] by (auto simp: open_fds_def)
  then have "kheap.owned V {t} s1" "t \<noteq> 0" by (simp_all add: fd_rep_def)
  then show ?thesis
    using kheap.owned_fre [of V "{t}" s1 t] s1(1) by (auto simp: fd_table_destroy_def kheap.owned_none)
qed

lemma fd_table_create_ok:
  assumes "heap_live s V"
  shows "\<exists>t s'. fd_table_create s = Some (t, s') \<and> node_pool s' = node_pool s \<and> node_count s' = node_count s \<and> vfs_root s' = vfs_root s \<and>
    (t = 0 \<and> heap_live s' V \<or> fd_rep V t (open_fds t s') s')"
proof -
  obtain t s1 where k: "kmalloc 512 s = Some (t, s1)" "t = 0 \<and> kheap.owned V {} s1 \<or> t \<noteq> 0 \<and> kheap.owned V {t} s1"
    using kheap.owned_mal [of V "{}" s 512] assms by (auto simp: kheap.owned_none)
  show ?thesis
    using k(2) kmalloc_vfs [OF k(1)]
    by (auto simp: fd_table_create_def k(1) fd_rep_def open_fds_def kheap.owned_none)
qed

lemma alloc_fd_cases:
  obtains "alloc_fd t s = -1" "open_fds t s = {..<64}"
  | i where "alloc_fd t s = int i" "i < 64" "fdtabs s t i = 0" "\<forall>j < i. j \<in> open_fds t s"
proof (cases "filter (\<lambda>i. fdtabs s t i = 0) [0..<64]")
  case Nil
  then have "open_fds t s = {..<64}" by (auto simp: open_fds_def filter_empty_conv)
  then show ?thesis using Nil that(1) by (simp add: alloc_fd_def)
next
  case (Cons i js)
  then obtain us vs where u: "[0..<64] = us @ i # vs" "\<forall>x\<in>set us. fdtabs s t x \<noteq> 0" "fdtabs s t i = 0"
    by (auto simp: filter_eq_Cons_iff)
  then have "length us < 64" by (metis length_append length_upt length_Cons diff_zero less_add_Suc1 add.commute add_Suc_right)
  then have i: "i = length us" using arg_cong [OF u(1), of "\<lambda>xs. xs ! length us"] by simp
  have "us = [0..<length us]" using arg_cong [OF u(1), of "take (length us)"] \<open>length us < 64\<close> by simp
  then have "\<forall>j < i. fdtabs s t j \<noteq> 0" using u(2) i by (metis atLeastLessThan_iff le0 set_upt)
  then show ?thesis
    using that(2) [of i] Cons u(3) i \<open>length us < 64\<close> by (simp add: alloc_fd_def open_fds_def)
qed

lemma fd_rep_upd: "fd_rep V t I (s\<lparr>fdtabs := (fdtabs s)(t := (fdtabs s t)(i := v))\<rparr>) = fd_rep V t I s" if "i \<notin> I"
proof -
  have "((fdtabs s t)(i := v)) ` I = fdtabs s t ` I" "inj_on ((fdtabs s t)(i := v)) I = inj_on (fdtabs s t) I"
    using that by (auto intro!: inj_on_cong image_cong)
  then show ?thesis by (simp add: fd_rep_def)
qed

lemma fd_close_ok:
  assumes "fd_rep V t (open_fds t s) s"
  shows "\<exists>rc s'. fd_close t fd s = Some (rc, s') \<and> fd_rep V t (open_fds t s') s' \<and>
    node_pool s' = node_pool s \<and> node_count s' = node_count s \<and> vfs_root s' = vfs_root s"
proof (cases "bad_fd t fd s")
  case True
  then show ?thesis using assms by (simp add: fd_close_def)
next
  case False
  then have i: "nat fd \<in> open_fds t s" by (auto simp: bad_fd_def open_fds_def)
  obtain s1 where s1: "kfree (fdtabs s t (nat fd)) s = Some s1" "fdtabs s1 = fdtabs s" "fd_rep V t (open_fds t s - {nat fd}) s1"
    using fd_rep_close [OF assms i] by blast
  let ?s = "s1\<lparr>fdtabs := (fdtabs s1)(t := (fdtabs s1 t)(nat fd := 0))\<rparr>"
  have "open_fds t ?s = open_fds t s - {nat fd}" using s1(2) by (auto simp: open_fds_def)
  moreover have "fd_rep V t (open_fds t s - {nat fd}) ?s" using s1(3) by (subst fd_rep_upd) simp_all
  ultimately show ?thesis
    using False s1(1) kfree_vfs [OF s1(1)] by (auto simp: fd_close_def)
qed

lemma fd_open_ok:
  assumes "fd_rep V t (open_fds t s) s" "pool_ok s" "no_mounts s"
  shows "\<exists>fd s'. fd_open lookup t path s = Some (fd, s') \<and> fd_rep V t (open_fds t s') s' \<and>
    node_pool s' = node_pool s \<and> node_count s' = node_count s \<and> vfs_root s' = vfs_root s"
proof -
  obtain r where r: "vfs_resolve lookup path s = Some (r, s)" using vfs_resolve_returns [OF assms(2,3)] by blast
  show ?thesis
  proof (cases r)
    case None
    then show ?thesis using r assms(1) by (simp add: fd_open_def)
  next
    case (Some node)
    show ?thesis
    proof (rule alloc_fd_cases [of t s])
      assume "alloc_fd t s = -1"
      then show ?thesis using r assms(1) by (simp add: fd_open_def Some)
    next
      fix i
      assume i: "alloc_fd t s = int i" "i < 64" "fdtabs s t i = 0"
      let ?I = "open_fds t s"
      have rep: "t \<noteq> 0" "t \<notin> fdtabs s t ` ?I" "0 \<notin> fdtabs s t ` ?I" "inj_on (fdtabs s t) ?I"
          "kheap.owned V (insert t (fdtabs s t ` ?I)) s"
        using assms(1) by (simp_all add: fd_rep_def)
      obtain f s1 where k: "kmalloc 16 s = Some (f, s1)"
          "f = 0 \<and> kheap.owned V (insert t (fdtabs s t ` ?I)) s1 \<or>
           f \<noteq> 0 \<and> f \<notin> insert t (fdtabs s t ` ?I) \<and> kheap.owned V (insert f (insert t (fdtabs s t ` ?I))) s1"
        using kheap.owned_mal [OF rep(5), of 16] by blast
      note fr = kmalloc_vfs [OF k(1)]
      show ?thesis
      proof (cases "f = 0")
        case True
        have "open_fds t s1 = ?I" by (simp add: open_fds_def fr)
        moreover have "fd_rep V t ?I s1" using True k(2) rep by (simp add: fd_rep_def fr)
        ultimately show ?thesis using True r k(1) i(1) fr by (simp add: fd_open_def Some Let_def)
      next
        case False
        let ?T = "(fdtabs s t)(i := f)"
        let ?s = "s1\<lparr>files := (files s1)(f := \<lparr>f_vnode = node, f_offset = 0\<rparr>), fdtabs := (fdtabs s1)(t := (fdtabs s1 t)(i := f))\<rparr>"
        have o: "open_fds t ?s = insert i ?I" using False i by (auto simp: open_fds_def fr)
        have n: "i \<notin> ?I" using i by (simp add: open_fds_def)
        then have im: "?T ` insert i ?I = insert f (fdtabs s t ` ?I)" by (auto simp: image_iff)
        have "inj_on ?T ?I" using rep(4) n by (auto simp: inj_on_def)
        then have "inj_on ?T (insert i ?I)" using n False k(2) by (auto simp: inj_on_def)
        then have "fd_rep V t (insert i ?I) ?s"
          unfolding fd_rep_def using im False k(2) rep(1-3) by (simp add: fr insert_commute) metis
        then show ?thesis using o False r k(1) i(1) fr by (simp add: fd_open_def Some Let_def)
      qed
    qed
  qed
qed

section \<open>Properties\<close>

text \<open>A session on a descriptor table: any opens, closes and seeks, in any order, on any arguments.\<close>

datatype fd_op = Open "u8 list" | Close int | Seek int u64 int

fun fd_session :: "('a vfs_scheme) dir_lookup \<Rightarrow> u64 \<Rightarrow> fd_op list \<Rightarrow> 'a vfs_scheme \<Rightarrow> 'a vfs_scheme option" where
  "fd_session lookup t [] s = Some s"
| "fd_session lookup t (Open path # ops) s =
    (case fd_open lookup t path s of None \<Rightarrow> None | Some (fd, s') \<Rightarrow> fd_session lookup t ops s')"
| "fd_session lookup t (Close fd # ops) s =
    (case fd_close t fd s of None \<Rightarrow> None | Some (rc, s') \<Rightarrow> fd_session lookup t ops s')"
| "fd_session lookup t (Seek fd off wh # ops) s = fd_session lookup t ops (snd (fd_seek t fd off wh s))"

definition fd_lifetime :: "('a vfs_scheme) dir_lookup \<Rightarrow> fd_op list \<Rightarrow> 'a vfs_scheme \<Rightarrow> 'a vfs_scheme option" where
  "fd_lifetime lookup ops s =
    (case fd_table_create s of
       None \<Rightarrow> None
     | Some (t, s1) \<Rightarrow>
        if t = 0 then Some s1
        else case fd_session lookup t ops s1 of None \<Rightarrow> None | Some s2 \<Rightarrow> fd_table_destroy t s2)"

lemma fd_seek_frame:
  "fdtabs (snd (fd_seek t fd off wh s)) = fdtabs s" "node_pool (snd (fd_seek t fd off wh s)) = node_pool s"
  "node_count (snd (fd_seek t fd off wh s)) = node_count s" "vfs_root (snd (fd_seek t fd off wh s)) = vfs_root s"
  "kheap.owned V A (snd (fd_seek t fd off wh s)) = kheap.owned V A s"
  by (simp_all add: fd_seek_def Let_def)

lemma fd_session_ok:
  "fd_rep V t (open_fds t s) s \<Longrightarrow> pool_ok s \<Longrightarrow> no_mounts s \<Longrightarrow>
    \<exists>s'. fd_session lookup t ops s = Some s' \<and> fd_rep V t (open_fds t s') s'"
proof (induction ops arbitrary: s)
  case (Cons a ops)
  note same = pool_cong(1) [THEN iffD2, OF _ _ _ Cons.prems(2)] pool_cong(2) [THEN iffD2, OF _ _ _ Cons.prems(3)]
  show ?case
  proof (cases a)
    case (Open path)
    obtain fd s' where "fd_open lookup t path s = Some (fd, s')" "fd_rep V t (open_fds t s') s'" "pool_ok s'" "no_mounts s'"
      using fd_open_ok [OF Cons.prems, of lookup path] same by blast
    then show ?thesis using Cons.IH by (simp add: Open)
  next
    case (Close fd)
    obtain rc s' where "fd_close t fd s = Some (rc, s')" "fd_rep V t (open_fds t s') s'" "pool_ok s'" "no_mounts s'"
      using fd_close_ok [OF Cons.prems(1), of fd] same by blast
    then show ?thesis using Cons.IH by (simp add: Close)
  next
    case (Seek fd off wh)
    let ?s = "snd (fd_seek t fd off wh s)"
    have "fd_rep V t (open_fds t ?s) ?s" using Cons.prems(1) by (simp add: fd_rep_def open_fds_def fd_seek_frame)
    then show ?thesis using Cons.IH same [of ?s] by (simp add: Seek fd_seek_frame)
  qed
qed simp

text \<open>A concrete state: an initialised heap and a tree that has only its root.\<close>

definition demo_vfs :: vfs where
  "demo_vfs = vfs_init
    \<lparr>bitmap_addr = bitmap_addr demo_heap, bitmap = bitmap demo_heap, bitmap_size = bitmap_size demo_heap,
     total_pages = total_pages demo_heap, used_pages = used_pages demo_heap, reserved_pages = reserved_pages demo_heap,
     mem_region_start = mem_region_start demo_heap, mem_region_end = mem_region_end demo_heap, heap_head = heap_head demo_heap,
     hdr = hdr demo_heap, regions = regions demo_heap, tab = (\<lambda>_ _. 0), g_sigtramp_phys = 0, insn = (\<lambda>_. 0),
     node_pool = (\<lambda>_. \<lparr>v_name = [], v_type = VNODE_REG, v_fops = None, v_lookup = None, v_private = 0, v_size = 0,
       v_parent = None, v_children = None, v_next = None\<rparr>),
     node_count = 0, vfs_root = 0, files = (\<lambda>_. \<lparr>f_vnode = 0, f_offset = 0\<rparr>), fdtabs = (\<lambda>_ _. 0)\<rparr>"

lemma demo_vfs_ok: "heap_live demo_vfs {}" "pool_ok demo_vfs" "no_mounts demo_vfs"
proof -
  have "heap_live demo_vfs {} = heap_live demo_heap {}"
    by (rule heap_live_cong) (simp_all add: demo_vfs_def vfs_init_def alloc_vnode_def)
  then show "heap_live demo_vfs {}" using demo_heap_live by simp
  show "pool_ok demo_vfs" "no_mounts demo_vfs"
    by (simp_all add: demo_vfs_def vfs_init_def alloc_vnode_def pool_ok_def no_mounts_def)
qed



text \<open>Registration and resolution.  Registering a device under a one-component
  name always returns; unless the pool of 128 nodes is full, the path
  \<open>/dev/<name>\<close> then resolves to the new node, which has the given type and
  operations and comes from an unused pool slot, and no existing node changes
  type or operations; \<open>/dev\<close> itself is created when it is missing.\<close>

theorem vfs_register_resolves:
  assumes "pool_ok s" "no_mounts s" "path_component name"
    and "\<And>d. vfs_resolve lookup dev_path s = Some (Some d, s) \<Longrightarrow> v_type (node_pool s d) = VNODE_DIR"
  shows "(\<exists>r s'. vfs_register_chardev lookup name fops s = Some (r, s') \<and> registered VNODE_CHR lookup name fops s r s') \<and>
    (\<exists>r s'. vfs_register_blockdev lookup name fops s = Some (r, s') \<and> registered VNODE_BLK lookup name fops s r s')"
  using register_device_ok [OF assms] by (simp add: vfs_register_chardev_def vfs_register_blockdev_def)

theorem vfs_register_resolves_witness:
  "(\<exists>r s'. vfs_register_chardev (\<lambda>_ _ _ s. (None, s)) [0x74, 0x74, 0x79] \<lparr>op_read = Some 1, op_write = Some 2, op_ioctl = None\<rparr> demo_vfs = Some (r, s') \<and>
     registered VNODE_CHR (\<lambda>_ _ _ s. (None, s)) [0x74, 0x74, 0x79] \<lparr>op_read = Some 1, op_write = Some 2, op_ioctl = None\<rparr> demo_vfs r s') \<and>
   (\<exists>r s'. vfs_register_blockdev (\<lambda>_ _ _ s. (None, s)) [0x74, 0x74, 0x79] \<lparr>op_read = Some 1, op_write = Some 2, op_ioctl = None\<rparr> demo_vfs = Some (r, s') \<and>
     registered VNODE_BLK (\<lambda>_ _ _ s. (None, s)) [0x74, 0x74, 0x79] \<lparr>op_read = Some 1, op_write = Some 2, op_ioctl = None\<rparr> demo_vfs r s')"
proof (rule vfs_register_resolves [OF demo_vfs_ok(2,3)])
  show "path_component [0x74, 0x74, 0x79]" by (simp add: path_component_def)
  have c: "node_count demo_vfs = 1" "vfs_root demo_vfs = 0" "v_type (node_pool demo_vfs 0) = VNODE_DIR"
    by (simp_all add: demo_vfs_def vfs_init_def alloc_vnode_def)
  show "v_type (node_pool demo_vfs d) = VNODE_DIR"
    if "vfs_resolve (\<lambda>_ _ _ s. (None, s)) dev_path demo_vfs = Some (Some d, demo_vfs)" for d
    using resolve_dev [OF demo_vfs_ok(2,3), of "\<lambda>_ _ _ s. (None, s)"] that c by fastforce
qed

end
