(* ===== verification/Sched.thy ===== *)
theory Sched
  imports Vfs
begin

text \<open>
  The scheduler, \<^verbatim>\<open>src/sched/sched.c\<close>: task structures in the kernel heap, the circular
  run queue threaded through them, creation of kernel and user tasks, fork, demand
  growth of the user stack, the fixed-priority choice of \<open>schedule\<close>, sleeping, killing and
  the reaper.  A task is named by its address; the statically allocated idle task has
  the address \<open>idle_task\<close>.  Switching the processor to another task is the assignment
  of \<open>current\<close>: what follows a call of \<open>schedule\<close> runs when the task is chosen again.
  Kernel stacks and user stacks are 64-bit words keyed by their kernel address; TLB
  maintenance and console output have no state.  Loops over the queue that do not end have
  the value \<open>None\<close>.
\<close>

section \<open>Tasks\<close>

datatype task_state = TASK_READY | TASK_RUNNING | TASK_SLEEPING | TASK_DEAD | TASK_BLOCKED

record elf_image =
  e_entry :: u64
  e_regions :: "(u64 \<times> u64) list"

record task =
  t_sp :: u64
  t_pid :: u64
  t_state :: task_state
  t_sleep_until :: u64
  t_stack_phys :: u64
  t_ttbr0 :: u64
  t_user_sp :: u64
  t_kstack_top :: u64
  t_ustack_phys :: u64
  t_exec_image :: elf_image
  t_name :: "u8 list"
  t_fds :: u64
  t_next :: u64
  t_stack_grown :: "u64 list"
  t_sig_handlers :: "u64 list"
  t_sig_pending :: u32
  t_sig_blocked :: u32
  t_sig_alarm_ticks :: u64
  t_priority :: u8
  t_base_priority :: u8
  t_rt_period :: u64
  t_rt_deadline :: u64
  t_rt_next_release :: u64
  t_rt_release :: u64
  t_rt_wcrt :: u64
  t_rt_last_resp :: u64
  t_rt_activations :: u32
  t_rt_misses :: u32
  t_wait_next :: u64
  t_blocked_on :: u64

record sched = vfs +
  task_at :: "u64 \<Rightarrow> task"
  idle_task :: u64
  current :: u64
  next_pid :: u64
  dead_list :: u64
  next_asid :: u16
  kmem :: "u64 \<Rightarrow> u64"
  tick_count :: u64

text \<open>Addresses fixed by the linker script and by the assembly files.\<close>

record symbols =
  text_start :: u64
  user_text_end :: u64
  task_trampoline :: u64
  kernel_task_trampoline :: u64
  fork_return :: u64

abbreviation (input) TASK_STACK_PAGES :: u64 where "TASK_STACK_PAGES \<equiv> 4"
abbreviation (input) USER_STACK_PAGES :: u64 where "USER_STACK_PAGES \<equiv> 4"
abbreviation (input) USER_STACK_PAGES_MAX :: u64 where "USER_STACK_PAGES_MAX \<equiv> 64"
abbreviation (input) USER_STACK_GROWN_MAX :: nat where "USER_STACK_GROWN_MAX \<equiv> 60"
abbreviation (input) PRIO_DEFAULT :: u8 where "PRIO_DEFAULT \<equiv> 8"
abbreviation (input) TIMER_INTERVAL_MS :: u64 where "TIMER_INTERVAL_MS \<equiv> 10"
abbreviation (input) SIZEOF_TASK :: u64 where "SIZEOF_TASK \<equiv> 1024"

text \<open>The structure after \<open>memset\<close>.\<close>

definition zero_task :: task where
  "zero_task = \<lparr>t_sp = 0, t_pid = 0, t_state = TASK_READY, t_sleep_until = 0, t_stack_phys = 0, t_ttbr0 = 0, t_user_sp = 0,
     t_kstack_top = 0, t_ustack_phys = 0, t_exec_image = \<lparr>e_entry = 0, e_regions = []\<rparr>, t_name = [], t_fds = 0, t_next = 0,
     t_stack_grown = [], t_sig_handlers = replicate 32 0, t_sig_pending = 0, t_sig_blocked = 0, t_sig_alarm_ticks = 0,
     t_priority = 0, t_base_priority = 0, t_rt_period = 0, t_rt_deadline = 0, t_rt_next_release = 0, t_rt_release = 0,
     t_rt_wcrt = 0, t_rt_last_resp = 0, t_rt_activations = 0, t_rt_misses = 0, t_wait_next = 0, t_blocked_on = 0\<rparr>"

definition upd_task :: "u64 \<Rightarrow> (task \<Rightarrow> task) \<Rightarrow> 'a sched_scheme \<Rightarrow> 'a sched_scheme" where
  "upd_task a f s = s\<lparr>task_at := (task_at s)(a := f (task_at s a))\<rparr>"

definition zero_words :: "u64 \<Rightarrow> u64 \<Rightarrow> 'a sched_scheme \<Rightarrow> 'a sched_scheme" where
  "zero_words va n s = s\<lparr>kmem := (\<lambda>a. if a - va < n then 0 else kmem s a)\<rparr>"

definition copy_words :: "u64 \<Rightarrow> u64 \<Rightarrow> u64 \<Rightarrow> 'a sched_scheme \<Rightarrow> 'a sched_scheme" where
  "copy_words dst src n s = s\<lparr>kmem := (\<lambda>a. if a - dst < n then kmem s (src + (a - dst)) else kmem s a)\<rparr>"

definition put_word :: "u64 \<Rightarrow> u64 \<Rightarrow> 'a sched_scheme \<Rightarrow> 'a sched_scheme" where
  "put_word a w s = s\<lparr>kmem := (kmem s)(a := w)\<rparr>"

definition copy_name :: "u8 list \<Rightarrow> u8 list" where
  "copy_name src = take 15 src"

section \<open>Address spaces of tasks\<close>

definition sched_asid_alloc :: "'a sched_scheme \<Rightarrow> u16 \<times> 'a sched_scheme" where
  "sched_asid_alloc s =
    (let a = next_asid s; n = a + 1
     in (a, s\<lparr>next_asid := (if n = 0 then 1 else n)\<rparr>))"

definition sched_try_grow_stack :: "u64 \<Rightarrow> u64 \<Rightarrow> 'a sched_scheme \<Rightarrow> int \<times> 'a sched_scheme" where
  "sched_try_grow_stack t far s =
    (if t = 0 \<or> t_ttbr0 (task_at s t) = 0 then (0, s)
     else if far < USER_STACK_TOP - USER_STACK_PAGES_MAX * PAGE_SIZE \<or> far \<ge> USER_STACK_TOP - USER_STACK_PAGES * PAGE_SIZE
       then (0, s)
     else if length (t_stack_grown (task_at s t)) \<ge> USER_STACK_GROWN_MAX then (0, s)
     else let (pa, s1) = pmm_allocate_page s in
       if pa = 0 then (0, s1)
       else let s2 = zero_words (PHYS_TO_VIRT pa) PAGE_SIZE s1;
                va = far AND NOT (PAGE_SIZE - 1);
                s3 = mmu_map_user_range (ttbr_baddr (t_ttbr0 (task_at s t))) va pa 1
                       (PTE_ATTRIDX 1 OR PTE_AP_RW_EL0 OR PTE_UXN OR PTE_PXN) s2
            in (1, upd_task t (\<lambda>k. k\<lparr>t_stack_grown := t_stack_grown k @ [pa]\<rparr>) s3))"

section \<open>The run queue\<close>

definition sched_init :: "'a sched_scheme \<Rightarrow> 'a sched_scheme" where
  "sched_init s =
    (let i = idle_task s in
     s\<lparr>task_at := (task_at s)(i := zero_task\<lparr>t_pid := next_pid s, t_state := TASK_READY, t_next := i, t_name := copy_name [0x69, 0x64, 0x6C, 0x65]\<rparr>),
       next_pid := next_pid s + 1, current := i\<rparr>)"

text \<open>The task before \<open>x\<close> in the queue, looked for from \<open>p\<close> on.\<close>

partial_function (option) find_pred :: "(u64 \<Rightarrow> task) \<Rightarrow> u64 \<Rightarrow> u64 \<Rightarrow> u64 option" where
  "find_pred T x p = (if t_next (T p) = x then Some p else find_pred T x (t_next (T p)))"

definition enqueue :: "u64 \<Rightarrow> 'a sched_scheme \<Rightarrow> 'a sched_scheme option" where
  "enqueue t s =
    (case find_pred (task_at s) (current s) (current s) of
       None \<Rightarrow> None
     | Some tail \<Rightarrow> Some (upd_task t (\<lambda>k. k\<lparr>t_next := current s\<rparr>) (upd_task tail (\<lambda>k. k\<lparr>t_next := t\<rparr>) s)))"

text \<open>The C functions return the process id as an \<open>int\<close>.\<close>

definition int_of_pid :: "u64 \<Rightarrow> int" where
  "int_of_pid p = sint (ucast p :: u32)"

text \<open>The zeroed kernel stack with the frame \<open>context_switch\<close> pops, and the task that starts on it.\<close>

definition kernel_frame :: "symbols \<Rightarrow> u64 \<Rightarrow> u64 \<Rightarrow> 'a sched_scheme \<Rightarrow> 'a sched_scheme" where
  "kernel_frame ks entry kstack_phys s =
    (let kstack_va = PHYS_TO_VIRT kstack_phys; kstack_size = TASK_STACK_PAGES * PAGE_SIZE;
         frame = kstack_va + kstack_size - 160
     in put_word (frame + 88) (kernel_task_trampoline ks) (put_word (frame + 8) 0
          (put_word frame entry (zero_words kstack_va kstack_size s))))"

definition kernel_task :: "u8 list \<Rightarrow> u64 \<Rightarrow> u64 \<Rightarrow> task" where
  "kernel_task name kstack_phys pid =
    (let kstack_top = PHYS_TO_VIRT kstack_phys + TASK_STACK_PAGES * PAGE_SIZE
     in zero_task\<lparr>t_priority := PRIO_DEFAULT, t_base_priority := PRIO_DEFAULT, t_sp := kstack_top - 160,
          t_pid := pid, t_state := TASK_READY, t_stack_phys := kstack_phys,
          t_kstack_top := kstack_top, t_name := copy_name name\<rparr>)"

definition sched_create_kernel_task :: "symbols \<Rightarrow> u8 list \<Rightarrow> u64 \<Rightarrow> 'a sched_scheme \<Rightarrow> (int \<times> 'a sched_scheme) option" where
  "sched_create_kernel_task ks name entry s =
    (case kmalloc SIZEOF_TASK s of
       None \<Rightarrow> None
     | Some (t, s1) \<Rightarrow>
        if t = 0 then Some (-1, s1)
        else let (kstack_phys, s2) = pmm_allocate_pages TASK_STACK_PAGES s1 in
          if kstack_phys = 0 then map_option (Pair (-1)) (kfree t s2)
          else let s3 = kernel_frame ks entry kstack_phys s2; pid = next_pid s3;
                   s4 = s3\<lparr>task_at := (task_at s3)(t := kernel_task name kstack_phys pid), next_pid := pid + 1\<rparr>
               in map_option (Pair (int_of_pid pid)) (enqueue t s4))"

text \<open>The three standard descriptors; failures of \<open>fd_open\<close> are ignored.\<close>

definition console_path :: "u8 list" where
  "console_path = [0x2F, 0x64, 0x65, 0x76, 0x2F, 0x63, 0x6F, 0x6E, 0x73, 0x6F, 0x6C, 0x65]"

definition open_console :: "('a sched_scheme) dir_lookup \<Rightarrow> u64 \<Rightarrow> 'a sched_scheme \<Rightarrow> 'a sched_scheme option" where
  "open_console lookup t s =
    (case fd_open lookup t console_path s of None \<Rightarrow> None | Some (_, s1) \<Rightarrow>
      (case fd_open lookup t console_path s1 of None \<Rightarrow> None | Some (_, s2) \<Rightarrow>
        map_option snd (fd_open lookup t console_path s2)))"

definition make_fds :: "('a sched_scheme) dir_lookup \<Rightarrow> 'a sched_scheme \<Rightarrow> (u64 \<times> 'a sched_scheme) option" where
  "make_fds lookup s =
    (case fd_table_create s of
       None \<Rightarrow> None
     | Some (t, s1) \<Rightarrow> if t = 0 then Some (0, s1) else map_option (Pair t) (open_console lookup t s1))"

definition sched_create_task ::
  "symbols \<Rightarrow> ('a sched_scheme) dir_lookup \<Rightarrow> u8 list \<Rightarrow> u64 \<Rightarrow> 'a sched_scheme \<Rightarrow> (int \<times> 'a sched_scheme) option" where
  "sched_create_task ks lookup name entry s =
    (case kmalloc SIZEOF_TASK s of
       None \<Rightarrow> None
     | Some (t, s1) \<Rightarrow>
        if t = 0 then Some (-1, s1)
        else let (kstack_phys, s2) = pmm_allocate_pages TASK_STACK_PAGES s1 in
          if kstack_phys = 0 then map_option (Pair (-1)) (kfree t s2)
          else let kstack_va = PHYS_TO_VIRT kstack_phys; kstack_size = TASK_STACK_PAGES * PAGE_SIZE;
                   kstack_top = kstack_va + kstack_size;
                   (user_l0, s3) = mmu_create_user_tables (zero_words kstack_va kstack_size s2) in
            if user_l0 = 0 then map_option (Pair (-1)) (kfree t (pmm_free_pages kstack_phys TASK_STACK_PAGES s3))
            else let entry_pa = VIRT_TO_PHYS entry; text_start_pa = VIRT_TO_PHYS (text_start ks);
                     user_text_end_pa = VIRT_TO_PHYS (user_text_end ks) in
              if entry_pa < text_start_pa \<or> entry_pa \<ge> user_text_end_pa
              then map_option (Pair (-1)) (kfree t (pmm_free_pages kstack_phys TASK_STACK_PAGES (pmm_free_page user_l0 s3)))
              else let text_pages = (user_text_end_pa - text_start_pa) div PAGE_SIZE;
                       user_entry = USER_TEXT_BASE + (entry_pa - text_start_pa);
                       s4 = mmu_map_user_range user_l0 USER_TEXT_BASE text_start_pa text_pages
                              (PTE_ATTRIDX 1 OR PTE_AP_RO_EL0 OR PTE_PXN) s3;
                       (ustack_phys, s5) = pmm_allocate_pages USER_STACK_PAGES s4 in
                if ustack_phys = 0
                then map_option (Pair (-1)) (kfree t (pmm_free_pages kstack_phys TASK_STACK_PAGES (mmu_free_user_tables user_l0 s5)))
                else let s6 = mmu_map_user_range user_l0 (USER_STACK_TOP - USER_STACK_PAGES * PAGE_SIZE) ustack_phys USER_STACK_PAGES
                                (PTE_ATTRIDX 1 OR PTE_AP_RW_EL0 OR PTE_UXN OR PTE_PXN)
                                (zero_words (PHYS_TO_VIRT ustack_phys) (USER_STACK_PAGES * PAGE_SIZE) s5);
                         frame = kstack_top - 160;
                         s7 = put_word (frame + 88) (task_trampoline ks) (put_word (frame + 8) USER_STACK_TOP (put_word frame user_entry s6));
                         (asid, s8) = sched_asid_alloc s7;
                         k = zero_task\<lparr>t_priority := PRIO_DEFAULT, t_base_priority := PRIO_DEFAULT, t_sp := frame,
                               t_pid := next_pid s8, t_state := TASK_READY, t_stack_phys := kstack_phys,
                               t_ttbr0 := ttbr_pack user_l0 asid, t_user_sp := USER_STACK_TOP,
                               t_kstack_top := kstack_top, t_ustack_phys := ustack_phys, t_name := copy_name name\<rparr>;
                         s9 = s8\<lparr>next_pid := next_pid s8 + 1\<rparr>
                     in (case make_fds lookup s9 of
                           None \<Rightarrow> None
                         | Some (fds, s10) \<Rightarrow>
                            (case enqueue t (s10\<lparr>task_at := (task_at s10)(t := k\<lparr>t_fds := fds\<rparr>)\<rparr>) of
                               None \<Rightarrow> None
                             | Some s11 \<Rightarrow> Some (int_of_pid (t_pid k), s11))))"

text \<open>The suffix \<open>+f\<close> of a child's name.\<close>

definition fork_name :: "u8 list \<Rightarrow> u8 list" where
  "fork_name parent = (let n = copy_name parent in if length n + 2 < 16 then n @ [0x2B, 0x66] else n)"

definition sched_fork ::
  "symbols \<Rightarrow> ('a sched_scheme) dir_lookup \<Rightarrow> u64 \<Rightarrow> u64 \<Rightarrow> 'a sched_scheme \<Rightarrow> (int \<times> 'a sched_scheme) option" where
  "sched_fork ks lookup parent frame s =
    (if parent = 0 \<or> frame = 0 then Some (-1, s)
     else case kmalloc SIZEOF_TASK s of
       None \<Rightarrow> None
     | Some (t, s1) \<Rightarrow>
        if t = 0 then Some (-1, s1)
        else let (kstack_phys, s2) = pmm_allocate_pages TASK_STACK_PAGES s1 in
          if kstack_phys = 0 then map_option (Pair (-1)) (kfree t s2)
          else let kstack_va = PHYS_TO_VIRT kstack_phys; kstack_size = TASK_STACK_PAGES * PAGE_SIZE;
                   kstack_top = kstack_va + kstack_size;
                   (user_l0, s3) = mmu_create_user_tables (zero_words kstack_va kstack_size s2) in
            if user_l0 = 0 then map_option (Pair (-1)) (kfree t (pmm_free_pages kstack_phys TASK_STACK_PAGES s3))
            else let text_start_pa = VIRT_TO_PHYS (text_start ks); user_text_end_pa = VIRT_TO_PHYS (user_text_end ks);
                     text_pages = (user_text_end_pa - text_start_pa) div PAGE_SIZE;
                     s4 = mmu_map_user_range user_l0 USER_TEXT_BASE text_start_pa text_pages
                            (PTE_ATTRIDX 1 OR PTE_AP_RO_EL0 OR PTE_PXN) s3;
                     (ustack_phys, s5) = pmm_allocate_pages USER_STACK_PAGES s4 in
              if ustack_phys = 0
              then map_option (Pair (-1)) (kfree t (pmm_free_pages kstack_phys TASK_STACK_PAGES (mmu_free_user_tables user_l0 s5)))
              else let s6 = copy_words (PHYS_TO_VIRT ustack_phys) (PHYS_TO_VIRT (t_ustack_phys (task_at s5 parent)))
                              (USER_STACK_PAGES * PAGE_SIZE) s5;
                       s7 = mmu_map_user_range user_l0 (USER_STACK_TOP - USER_STACK_PAGES * PAGE_SIZE) ustack_phys USER_STACK_PAGES
                              (PTE_ATTRIDX 1 OR PTE_AP_RW_EL0 OR PTE_UXN OR PTE_PXN) s6;
                       child_frame = kstack_top - 688; switch_frame = child_frame - 160;
                       s8 = put_word child_frame 0 (copy_words child_frame frame 688 s7);
                       s9 = put_word (switch_frame + 88) (fork_return ks) (put_word (switch_frame + 8) 0 (put_word switch_frame 0 s8));
                       (asid, s10) = sched_asid_alloc s9;
                       k = zero_task\<lparr>t_priority := PRIO_DEFAULT, t_base_priority := PRIO_DEFAULT, t_sp := switch_frame,
                             t_pid := next_pid s10, t_state := TASK_READY, t_stack_phys := kstack_phys,
                             t_ttbr0 := ttbr_pack user_l0 asid, t_user_sp := t_user_sp (task_at s10 parent),
                             t_kstack_top := kstack_top, t_ustack_phys := ustack_phys,
                             t_name := fork_name (t_name (task_at s10 parent))\<rparr>;
                       s11 = s10\<lparr>next_pid := next_pid s10 + 1\<rparr>
                   in (case make_fds lookup s11 of
                         None \<Rightarrow> None
                       | Some (fds, s12) \<Rightarrow>
                          (case enqueue t (s12\<lparr>task_at := (task_at s12)(t := k\<lparr>t_fds := fds\<rparr>)\<rparr>) of
                             None \<Rightarrow> None
                           | Some s13 \<Rightarrow> Some (int_of_pid (t_pid k), s13))))"

section \<open>Choosing a task\<close>

text \<open>Releasing everything a dead task holds.\<close>

definition free_regions :: "(u64 \<times> u64) list \<Rightarrow> 'a pmm_scheme \<Rightarrow> 'a pmm_scheme" where
  "free_regions rs s = fold (\<lambda>(p, pp) s. if p \<noteq> 0 \<and> pp \<noteq> 0 then pmm_free_pages p pp s else s) rs s"

definition free_grown :: "u64 list \<Rightarrow> 'a pmm_scheme \<Rightarrow> 'a pmm_scheme" where
  "free_grown ps s = fold (\<lambda>p s. if p \<noteq> 0 then pmm_free_page p s else s) ps s"

definition reap_task :: "u64 \<Rightarrow> 'a sched_scheme \<Rightarrow> 'a sched_scheme option" where
  "reap_task d s =
    (let k = task_at s d;
         s1 = (if t_stack_phys k \<noteq> 0 then pmm_free_pages (t_stack_phys k) TASK_STACK_PAGES s else s);
         s2 = (if t_ustack_phys k \<noteq> 0 then pmm_free_pages (t_ustack_phys k) USER_STACK_PAGES s1 else s1);
         s3 = free_grown (t_stack_grown k) (free_regions (e_regions (t_exec_image k)) s2);
         s4 = (if t_ttbr0 k \<noteq> 0 then mmu_free_user_tables (ttbr_baddr (t_ttbr0 k)) s3 else s3)
     in case (if t_fds k \<noteq> 0 then fd_table_destroy (t_fds k) s4 else Some s4) of
          None \<Rightarrow> None
        | Some s5 \<Rightarrow> kfree d s5)"

partial_function (option) sched_reap :: "'a sched_scheme \<Rightarrow> 'a sched_scheme option" where
  "sched_reap s =
    (if dead_list s = 0 then Some s
     else case reap_task (dead_list s) (s\<lparr>dead_list := t_next (task_at s (dead_list s))\<rparr>) of
            None \<Rightarrow> None
          | Some s1 \<Rightarrow> sched_reap s1)"

definition runnable :: "(u64 \<Rightarrow> task) \<Rightarrow> u64 \<Rightarrow> u64 \<Rightarrow> bool" where
  "runnable T prev t \<longleftrightarrow> t_state (T t) = TASK_READY \<or> t = prev \<and> t_state (T t) = TASK_RUNNING"

partial_function (option) pick_best :: "(u64 \<Rightarrow> task) \<Rightarrow> u64 \<Rightarrow> u64 \<Rightarrow> u64 \<Rightarrow> u64 \<Rightarrow> int \<Rightarrow> u64 option" where
  "pick_best T prev stop t best best_pri =
    (let better = runnable T prev t \<and> uint (t_priority (T t)) > best_pri;
         best' = (if better then t else best);
         pri' = (if better then uint (t_priority (T t)) else best_pri);
         t' = t_next (T t)
     in if t' = stop then Some best' else pick_best T prev stop t' best' pri')"

text \<open>Taking a task out of the queue and putting it on the list of the dead.\<close>

definition bury :: "u64 \<Rightarrow> 'a sched_scheme \<Rightarrow> 'a sched_scheme option" where
  "bury t s =
    (case find_pred (task_at s) t t of
       None \<Rightarrow> None
     | Some p \<Rightarrow>
        (let s1 = upd_task p (\<lambda>k. k\<lparr>t_next := t_next (task_at s t)\<rparr>) s
         in Some ((upd_task t (\<lambda>k. k\<lparr>t_next := dead_list s\<rparr>) s1)\<lparr>dead_list := t\<rparr>)))"

definition schedule_pick :: "'a sched_scheme \<Rightarrow> 'a sched_scheme option" where
  "schedule_pick s =
    (let prev = current s; stop = t_next (task_at s prev) in
     case pick_best (task_at s) prev stop stop (idle_task s) (-1) of
       None \<Rightarrow> None
     | Some nxt \<Rightarrow>
        if nxt = prev
        then Some (if t_state (task_at s prev) \<noteq> TASK_RUNNING then upd_task prev (\<lambda>k. k\<lparr>t_state := TASK_RUNNING\<rparr>) s else s)
        else let s1 = (if t_state (task_at s prev) = TASK_RUNNING then upd_task prev (\<lambda>k. k\<lparr>t_state := TASK_READY\<rparr>) s else s)
             in (case (if t_state (task_at s1 prev) = TASK_DEAD then bury prev s1 else Some s1) of
                   None \<Rightarrow> None
                 | Some s2 \<Rightarrow> Some ((upd_task nxt (\<lambda>k. k\<lparr>t_state := TASK_RUNNING\<rparr>) s2)\<lparr>current := nxt\<rparr>)))"

definition schedule :: "'a sched_scheme \<Rightarrow> 'a sched_scheme option" where
  "schedule s = (case sched_reap s of None \<Rightarrow> None | Some s1 \<Rightarrow> schedule_pick s1)"

section \<open>Operations on tasks\<close>

definition sched_set_priority :: "u64 \<Rightarrow> u8 \<Rightarrow> 'a sched_scheme \<Rightarrow> 'a sched_scheme" where
  "sched_set_priority t prio s = (if t \<noteq> 0 then upd_task t (\<lambda>k. k\<lparr>t_priority := prio\<rparr>) s else s)"

definition sched_make_ready :: "u64 \<Rightarrow> 'a sched_scheme \<Rightarrow> 'a sched_scheme" where
  "sched_make_ready t s =
    (if t \<noteq> 0 \<and> t_state (task_at s t) \<noteq> TASK_DEAD then upd_task t (\<lambda>k. k\<lparr>t_state := TASK_READY\<rparr>) s else s)"

definition sched_block_current :: "'a sched_scheme \<Rightarrow> 'a sched_scheme option" where
  "sched_block_current s = schedule (upd_task (current s) (\<lambda>k. k\<lparr>t_state := TASK_BLOCKED\<rparr>) s)"

text \<open>The queue is searched from the idle task on, once around.\<close>

partial_function (option) find_from :: "(u64 \<Rightarrow> task) \<Rightarrow> u64 \<Rightarrow> u64 \<Rightarrow> u64 \<Rightarrow> u64 option" where
  "find_from T head pid t =
    (if t_pid (T t) = pid then Some t
     else if t_next (T t) = head then Some 0
     else find_from T head pid (t_next (T t)))"

definition sched_find_task :: "u64 \<Rightarrow> 'a sched_scheme \<Rightarrow> u64 option" where
  "sched_find_task pid s = find_from (task_at s) (idle_task s) pid (idle_task s)"

definition sched_create_rt_task :: "symbols \<Rightarrow> u8 list \<Rightarrow> u64 \<Rightarrow> u8 \<Rightarrow> 'a sched_scheme \<Rightarrow> (int \<times> 'a sched_scheme) option" where
  "sched_create_rt_task ks name entry prio s =
    (case sched_create_kernel_task ks name entry s of
       None \<Rightarrow> None
     | Some (pid, s1) \<Rightarrow>
        if pid < 0 then Some (-1, s1)
        else (case sched_find_task (word_of_int pid) s1 of
                None \<Rightarrow> None
              | Some t \<Rightarrow> Some (pid, if t \<noteq> 0 then upd_task t (\<lambda>k. k\<lparr>t_priority := prio, t_base_priority := prio\<rparr>) s1 else s1)))"

definition yield :: "'a sched_scheme \<Rightarrow> 'a sched_scheme option" where
  "yield s = schedule s"

definition task_exit :: "'a sched_scheme \<Rightarrow> 'a sched_scheme option" where
  "task_exit s = schedule (upd_task (current s) (\<lambda>k. k\<lparr>t_state := TASK_DEAD\<rparr>) s)"

definition sched_kill_task :: "u64 \<Rightarrow> 'a sched_scheme \<Rightarrow> (int \<times> 'a sched_scheme) option" where
  "sched_kill_task pid s =
    (if pid = 0 then Some (-1, s)
     else case sched_find_task pid s of
       None \<Rightarrow> None
     | Some t \<Rightarrow>
        if t = 0 then Some (-1, s)
        else if t_state (task_at s t) = TASK_DEAD then Some (-1, s)
        else if t = current s then map_option (Pair 0) (task_exit s)
        else map_option (\<lambda>s1. (0, upd_task t (\<lambda>k. k\<lparr>t_state := TASK_DEAD\<rparr>) s1)) (bury t s))"

definition sleep_ms :: "u64 \<Rightarrow> 'a sched_scheme \<Rightarrow> 'a sched_scheme option" where
  "sleep_ms ms s =
    (let n = ms div TIMER_INTERVAL_MS; ticks_needed = (if n = 0 then 1 else n)
     in schedule (upd_task (current s) (\<lambda>k. k\<lparr>t_sleep_until := tick_count s + ticks_needed, t_state := TASK_SLEEPING\<rparr>) s))"

definition wake :: "u64 \<Rightarrow> task \<Rightarrow> task" where
  "wake now k =
    (if t_state k = TASK_SLEEPING \<and> t_rt_period k = 0 \<and> now \<ge> t_sleep_until k
     then k\<lparr>t_state := TASK_READY, t_sleep_until := 0\<rparr> else k)"

partial_function (option) wake_from :: "u64 \<Rightarrow> u64 \<Rightarrow> u64 \<Rightarrow> (u64 \<Rightarrow> task) \<Rightarrow> (u64 \<Rightarrow> task) option" where
  "wake_from now idle t T = (if t = idle then Some T else wake_from now idle (t_next (T t)) (T(t := wake now (T t))))"

definition sched_wake_sleepers :: "'a sched_scheme \<Rightarrow> 'a sched_scheme option" where
  "sched_wake_sleepers s =
    map_option (\<lambda>T. s\<lparr>task_at := T\<rparr>)
      (wake_from (tick_count s) (idle_task s) (t_next (task_at s (idle_task s))) (task_at s))"

definition task_state_name :: "task_state \<Rightarrow> string" where
  "task_state_name st =
    (case st of TASK_READY \<Rightarrow> ''READY'' | TASK_RUNNING \<Rightarrow> ''RUNNING'' | TASK_SLEEPING \<Rightarrow> ''SLEEPING'' | TASK_DEAD \<Rightarrow> ''DEAD'' | _ \<Rightarrow> ''?'')"

section \<open>Circular queues\<close>

text \<open>The tasks \<open>xs\<close> follow one another and the last is followed by \<open>b\<close>.\<close>

fun chain_to :: "(u64 \<Rightarrow> task) \<Rightarrow> u64 list \<Rightarrow> u64 \<Rightarrow> bool" where
  "chain_to T [] b = True"
| "chain_to T (a # as) b = (t_next (T a) = hd (as @ [b]) \<and> chain_to T as b)"

definition run_queue :: "(u64 \<Rightarrow> task) \<Rightarrow> u64 list \<Rightarrow> bool" where
  "run_queue T xs \<longleftrightarrow> xs \<noteq> [] \<and> distinct xs \<and> chain_to T xs (hd xs)"

lemma chain_to_append: "chain_to T (as @ bs) b \<longleftrightarrow> chain_to T as (hd (bs @ [b])) \<and> chain_to T bs b"
  by (induction as) (auto simp: hd_append)

lemma chain_to_cong: "(\<And>a. a \<in> set as \<Longrightarrow> t_next (T' a) = t_next (T a)) \<Longrightarrow> chain_to T' as b = chain_to T as b"
  by (induction as) auto

lemma run_queue_cong: "(\<And>a. a \<in> set as \<Longrightarrow> t_next (T' a) = t_next (T a)) \<Longrightarrow> run_queue T' as = run_queue T as"
  by (simp add: run_queue_def cong: chain_to_cong)

lemma run_queue_rotate: "run_queue T (us @ vs) \<Longrightarrow> run_queue T (vs @ us)"
  by (cases us; cases vs) (auto simp: run_queue_def chain_to_append hd_append)

lemma run_queue_from:
  assumes "run_queue T rs" "x \<in> set rs"
  obtains us vs where "rs = us @ x # vs" "run_queue T (x # vs @ us)"
proof -
  obtain us vs where rs: "rs = us @ x # vs" using assms(2) by (auto simp: in_set_conv_decomp)
  then have "run_queue T (x # vs @ us)" using run_queue_rotate [of T us "x # vs"] assms(1) by simp
  then show ?thesis using that rs by blast
qed

lemma find_pred_chain: "chain_to T (p # ps) x \<Longrightarrow> x \<notin> set ps \<Longrightarrow> find_pred T x p = Some (last (p # ps))"
proof (induction ps arbitrary: p)
  case Nil
  then show ?case by (simp add: find_pred.simps)
next
  case (Cons q ps)
  then have "t_next (T p) = q" "q \<noteq> x" by auto
  then show ?case using Cons.IH [of q] Cons.prems by (simp add: find_pred.simps [of T x p])
qed

lemma run_queue_insert:
  assumes "run_queue T (c # ts)" "t \<notin> set (c # ts)"
    and "\<And>a. a \<in> set (c # ts) \<Longrightarrow> t_next (T' a) = (if a = last (c # ts) then t else t_next (T a))" "t_next (T' t) = c"
  shows "run_queue T' (c # ts @ [t])"
proof -
  obtain us l where l: "c # ts = us @ [l]" by (metis rev_exhaust list.distinct(1))
  then have d: "l \<notin> set us" using assms(1) unfolding run_queue_def l by auto
  have "chain_to T (us @ [l]) c" using assms(1) by (simp only: run_queue_def l [symmetric]) simp
  then have "chain_to T us l" by (simp add: chain_to_append)
  moreover have "chain_to T' us l = chain_to T us l"
    using assms(3) d unfolding l by (intro chain_to_cong) auto
  ultimately have "chain_to T' (us @ [l] @ [t]) c"
    using assms(3) [of l] assms(4) unfolding l by (simp add: chain_to_append)
  moreover have "us @ [l] @ [t] = c # ts @ [t]" using l by simp
  ultimately have "chain_to T' (c # ts @ [t]) c" by metis
  then show ?thesis using assms(1,2) by (auto simp: run_queue_def)
qed

lemma run_queue_remove:
  assumes "run_queue T (x # ts)" "ts \<noteq> []"
    and "\<And>a. a \<in> set ts \<Longrightarrow> t_next (T' a) = (if a = last ts then t_next (T x) else t_next (T a))"
  shows "run_queue T' ts"
proof -
  obtain us l where l: "ts = us @ [l]" using assms(2) by (metis rev_exhaust)
  have c: "t_next (T x) = hd ts" "chain_to T ts x" "distinct ts" using assms(1,2) by (auto simp: run_queue_def hd_append)
  have "l \<notin> set us" using c(3) l by auto
  then have "chain_to T' us l = chain_to T us l"
    using assms(3) unfolding l by (intro chain_to_cong) auto
  then have "chain_to T' (us @ [l]) (hd ts)"
    using c(1,2) assms(3) [of l] by (simp add: l chain_to_append)
  then show ?thesis using c(3) assms(2) by (simp add: run_queue_def l)
qed

section \<open>The choice of the next task\<close>

text \<open>The first task of the highest priority among the runnable ones of a list.\<close>

definition first_top :: "(u64 \<Rightarrow> task) \<Rightarrow> u64 \<Rightarrow> u64 list \<Rightarrow> u64 \<Rightarrow> bool" where
  "first_top T prev ts t \<longleftrightarrow> (\<exists>us vs. ts = us @ t # vs \<and> runnable T prev t \<and>
     (\<forall>u \<in> set us. runnable T prev u \<longrightarrow> t_priority (T u) < t_priority (T t)) \<and>
     (\<forall>v \<in> set vs. runnable T prev v \<longrightarrow> t_priority (T v) \<le> t_priority (T t)))"

lemma first_top_max: "first_top T prev ts t \<Longrightarrow> u \<in> set ts \<Longrightarrow> runnable T prev u \<Longrightarrow> t_priority (T u) \<le> t_priority (T t)"
  by (auto simp: first_top_def less_imp_le)

lemma first_top_skip:
  assumes "first_top T prev ts t" "runnable T prev u \<Longrightarrow> t_priority (T u) < t_priority (T t)"
  shows "first_top T prev (u # ts) t"
proof -
  obtain us vs where "ts = us @ t # vs" "runnable T prev t"
      "\<forall>u \<in> set us. runnable T prev u \<longrightarrow> t_priority (T u) < t_priority (T t)"
      "\<forall>v \<in> set vs. runnable T prev v \<longrightarrow> t_priority (T v) \<le> t_priority (T t)"
    using assms(1) by (auto simp: first_top_def)
  then show ?thesis
    using assms(2) unfolding first_top_def by (intro exI [of _ "u # us"] exI [of _ vs]) auto
qed

definition chosen :: "(u64 \<Rightarrow> task) \<Rightarrow> u64 \<Rightarrow> u64 \<Rightarrow> u64 list \<Rightarrow> u64 \<Rightarrow> bool" where
  "chosen T prev idle ts t \<longleftrightarrow>
    (if \<exists>u \<in> set ts. runnable T prev u then first_top T prev ts t else t = idle)"

fun pick_list :: "(u64 \<Rightarrow> task) \<Rightarrow> u64 \<Rightarrow> u64 list \<Rightarrow> u64 \<Rightarrow> int \<Rightarrow> u64" where
  "pick_list T prev [] best pri = best"
| "pick_list T prev (t # ts) best pri =
    (if runnable T prev t \<and> uint (t_priority (T t)) > pri then pick_list T prev ts t (uint (t_priority (T t)))
     else pick_list T prev ts best pri)"

lemma pick_best_list:
  "chain_to T (t # ts) stop \<Longrightarrow> stop \<notin> set ts \<Longrightarrow> pick_best T prev stop t best pri = Some (pick_list T prev (t # ts) best pri)"
proof (induction ts arbitrary: t best pri)
  case Nil
  then show ?case by (simp add: pick_best.simps)
next
  case (Cons q ts)
  then have n: "t_next (T t) = q" "(q = stop) = False" by auto
  have IH: "pick_best T prev stop q b p = Some (pick_list T prev (q # ts) b p)" for b p
    using Cons.IH [of q] Cons.prems by simp
  show ?case
    by (cases "runnable T prev t \<and> uint (t_priority (T t)) > pri")
      (simp_all only: pick_best.simps [of T prev stop t] pick_list.simps(2) [of T prev t] Let_def n IH if_True if_False simp_thms)
qed

lemma pick_list_none: "\<forall>t \<in> set ts. runnable T prev t \<longrightarrow> uint (t_priority (T t)) \<le> pri \<Longrightarrow> pick_list T prev ts best pri = best"
  by (induction ts) auto

lemma pick_list_first:
  "\<exists>t \<in> set ts. runnable T prev t \<and> uint (t_priority (T t)) > pri \<Longrightarrow> first_top T prev ts (pick_list T prev ts best pri)"
proof (induction ts arbitrary: best pri)
  case (Cons t ts)
  let ?p = "\<lambda>t. uint (t_priority (T t))"
  show ?case
  proof (cases "runnable T prev t \<and> ?p t > pri")
    case True
    show ?thesis
    proof (cases "\<exists>u \<in> set ts. runnable T prev u \<and> ?p u > ?p t")
      case more: True
      then have top: "first_top T prev ts (pick_list T prev ts t (?p t))" by (rule Cons.IH)
      obtain u where u: "u \<in> set ts" "runnable T prev u" "?p u > ?p t" using more by blast
      have "t_priority (T t) < t_priority (T (pick_list T prev ts t (?p t)))"
        using first_top_max [OF top u(1,2)] u(3) by (simp add: word_less_def word_le_def)
      then show ?thesis using True first_top_skip [OF top, of t] by simp
    next
      case False
      then have "pick_list T prev ts t (?p t) = t" by (intro pick_list_none) auto
      then show ?thesis
        using True False unfolding first_top_def
        by (intro exI [of _ "[]"] exI [of _ ts]) (auto simp: word_le_def not_less)
    qed
  next
    case False
    then obtain u where u: "u \<in> set ts" "runnable T prev u" "?p u > pri" using Cons.prems by auto
    then have top: "first_top T prev ts (pick_list T prev ts best pri)" by (intro Cons.IH) blast
    have "runnable T prev t \<Longrightarrow> t_priority (T t) < t_priority (T (pick_list T prev ts best pri))"
      using first_top_max [OF top u(1,2)] u(3) False by (auto simp: word_less_def word_le_def)
    then show ?thesis using False first_top_skip [OF top, of t] by auto
  qed
qed simp

lemma pick_list_chosen: "chosen T prev idle ts (pick_list T prev ts idle (-1))"
proof (cases "\<exists>u \<in> set ts. runnable T prev u")
  case True
  then have "\<exists>t \<in> set ts. runnable T prev t \<and> uint (t_priority (T t)) > - 1"
    by (meson less_le_trans neg_less_0_iff_less uint_ge_0 zero_less_one)
  then show ?thesis using True by (simp add: chosen_def pick_list_first)
next
  case False
  then show ?thesis by (auto simp: chosen_def intro!: pick_list_none)
qed

lemma pick_best_queue:
  assumes "run_queue T (prev # ts)"
  shows "\<exists>t. pick_best T prev (t_next (T prev)) (t_next (T prev)) idle (-1) = Some t \<and> chosen T prev idle (ts @ [prev]) t"
proof -
  obtain u us where u: "ts @ [prev] = u # us" by (cases ts) auto
  have "run_queue T (u # us)" using run_queue_rotate [of T "[prev]" ts] assms u by simp
  then have "chain_to T (u # us) u" "u \<notin> set us" by (simp_all add: run_queue_def)
  moreover have "t_next (T prev) = u" using assms u by (cases ts) (auto simp: run_queue_def)
  ultimately show ?thesis
    using pick_best_list [of T u us u prev idle "-1"] pick_list_chosen [of T prev idle "u # us"] u by auto
qed

section \<open>What the reaper releases\<close>

text \<open>The pages a task holds, in the order \<open>sched_reap\<close> frees them, and its heap objects.\<close>

definition run_pages :: "u64 \<Rightarrow> u64 \<Rightarrow> u64 list" where
  "run_pages p k = map (\<lambda>i. p + of_nat i * PAGE_SIZE) [0..<unat k]"

definition task_pages :: "(u64 \<Rightarrow> u64 \<Rightarrow> u64) \<Rightarrow> task \<Rightarrow> u64 list" where
  "task_pages tb k =
    (if t_stack_phys k \<noteq> 0 then run_pages (t_stack_phys k) TASK_STACK_PAGES else []) @
    (if t_ustack_phys k \<noteq> 0 then run_pages (t_ustack_phys k) USER_STACK_PAGES else []) @
    concat (map (\<lambda>(p, pp). if p \<noteq> 0 \<and> pp \<noteq> 0 then run_pages p pp else []) (e_regions (t_exec_image k))) @
    filter (\<lambda>p. p \<noteq> 0) (t_stack_grown k) @
    (if t_ttbr0 k \<noteq> 0 then freed tb (ttbr_baddr (t_ttbr0 k)) else [])"

definition task_objs :: "'a sched_scheme \<Rightarrow> u64 \<Rightarrow> u64 set" where
  "task_objs s d = insert d (let t = t_fds (task_at s d) in if t = 0 then {} else insert t (fdtabs s t ` open_fds t s))"

definition fds_ok :: "'a sched_scheme \<Rightarrow> u64 \<Rightarrow> bool" where
  "fds_ok s d \<longleftrightarrow> (let t = t_fds (task_at s d) in t \<noteq> 0 \<longrightarrow>
     t \<notin> fdtabs s t ` open_fds t s \<and> inj_on (fdtabs s t) (open_fds t s) \<and> d \<notin> insert t (fdtabs s t ` open_fds t s))"

text \<open>The pages that hold the heap.\<close>

definition heap_bytes :: "'a heap_scheme \<Rightarrow> nat set" where
  "heap_bytes s = (\<lambda>n. n - (2 ^ 64 - 2 ^ 48)) ` \<Union> (region_span ` set (regions s))"

definition heap_page :: "'a heap_scheme \<Rightarrow> u64 \<Rightarrow> bool" where
  "heap_page s a \<longleftrightarrow> (\<exists>n < npages s. a = page_addr s n \<and> page_bytes s n \<inter> heap_bytes s \<noteq> {})"

lemma free_pages_fold: "pmm_free_pages p k s = fold pmm_free_page (run_pages p k) s"
  by (simp add: pmm_free_pages_def run_pages_def fold_map o_def)

lemma free_regions_fold:
  "free_regions rs s = fold pmm_free_page (concat (map (\<lambda>(p, pp). if p \<noteq> 0 \<and> pp \<noteq> 0 then run_pages p pp else []) rs)) s"
  unfolding free_regions_def by (induction rs arbitrary: s) (auto simp: free_pages_fold)

lemma free_grown_fold: "free_grown ps s = fold pmm_free_page (filter (\<lambda>p. p \<noteq> 0) ps) s"
  unfolding free_grown_def by (induction ps arbitrary: s) auto

lemma fold_free_more [simp]: "pmm.more (fold pmm_free_page xs s) = pmm.more s"
  by (induction xs arbitrary: s) simp_all

lemma pmm_more_sched:
  assumes "pmm.more s = pmm.more t"
  shows "hdr s = hdr t" "heap_head s = heap_head t" "regions s = regions t" "tab s = tab t" "fdtabs s = fdtabs t"
    "task_at s = task_at t" "idle_task s = idle_task t" "current s = current t" "next_pid s = next_pid t"
    "dead_list s = dead_list t" "next_asid s = next_asid t" "kmem s = kmem t" "tick_count s = tick_count t"
    "node_pool s = node_pool t" "node_count s = node_count t" "vfs_root s = vfs_root t" "files s = files t"
  using assms by (cases s; cases t; simp)+

lemma heap_more_sched:
  assumes "heap.more s = heap.more t"
  shows "tab s = tab t" "fdtabs s = fdtabs t"
    "task_at s = task_at t" "idle_task s = idle_task t" "current s = current t" "next_pid s = next_pid t"
    "dead_list s = dead_list t" "next_asid s = next_asid t" "kmem s = kmem t" "tick_count s = tick_count t"
  using assms by (cases s; cases t; simp)+

lemma reap_task_pages:
  "reap_task d s =
    (let s4 = fold pmm_free_page (task_pages (tab s) (task_at s d)) s
     in case (if t_fds (task_at s d) \<noteq> 0 then fd_table_destroy (t_fds (task_at s d)) s4 else Some s4) of
          None \<Rightarrow> None
        | Some s5 \<Rightarrow> kfree d s5)"
proof -
  have join: "(if c then fold pmm_free_page ys (fold pmm_free_page xs s) else fold pmm_free_page xs s) =
      fold pmm_free_page (xs @ (if c then ys else [])) s" for c xs ys and s :: "'a sched_scheme"
    by simp
  have tables: "(if c then mmu_free_user_tables l (fold pmm_free_page xs s) else fold pmm_free_page xs s) =
      fold pmm_free_page (xs @ (if c then freed (tab s) l else [])) s" for c l xs
    using pmm_more_sched(4) [OF fold_free_more, of xs s] by (simp add: free_user_tables_list)
  note join0 = join [where xs = "[]", simplified fold_Nil id_apply append_Nil]
  show ?thesis
    unfolding reap_task_def Let_def free_pages_fold free_regions_fold free_grown_fold task_pages_def
    unfolding join0 unfolding join unfolding fold_append [symmetric, THEN fun_cong, unfolded comp_apply]
    unfolding tables append_assoc by (rule refl)
qed

text \<open>An allocated page that is not part of the reserved image.\<close>

definition page_at :: "'a pmm_scheme \<Rightarrow> u64 \<Rightarrow> bool" where
  "page_at s a \<longleftrightarrow> (\<exists>n \<in> allocated s. a = page_addr s n \<and> unat (reserved_pages s) \<le> n)"

lemma free_fold_frame:
  assumes "pmm_inv s"
  shows "pmm_inv (fold pmm_free_page xs s)" "npages (fold pmm_free_page xs s) = npages s"
    "page_addr (fold pmm_free_page xs s) = page_addr s" "reserved_pages (fold pmm_free_page xs s) = reserved_pages s"
    "page_bytes (fold pmm_free_page xs s) = page_bytes s" "reserved_bytes (fold pmm_free_page xs s) = reserved_bytes s"
    "allocated (fold pmm_free_page xs s) =
      allocated s - {n. n < npages s \<and> unat (reserved_pages s) \<le> n \<and> page_addr s n \<in> set xs}"
proof -
  let ?t = "fold pmm_free_page xs s"
  note f = fold_free_pages [OF assms, of xs]
  show t: "pmm_inv ?t" "npages ?t = npages s" "page_addr ?t = page_addr s" "reserved_pages ?t = reserved_pages s"
    "allocated ?t = allocated s - {n. n < npages s \<and> unat (reserved_pages s) \<le> n \<and> page_addr s n \<in> set xs}"
    using f by blast+
  have "mem_region_start ?t = mem_region_start s" using fun_cong [OF t(3), of 0] by (simp add: page_addr_def)
  then show "page_bytes ?t = page_bytes s" by (simp add: page_bytes_def fun_eq_iff)
  then show "reserved_bytes ?t = reserved_bytes s" using t(4) by (simp add: reserved_bytes_def)
qed

lemma heap_live_inv: "heap_live s V \<Longrightarrow> pmm_inv s"
  by (auto simp: heap_live_def dest: heap_repD(1))

lemma heap_rep_owned_cong:
  fixes s t :: "'a heap_scheme"
  assumes "heap_rep s bs" "pmm_inv t" "pmm.more t = pmm.more s" "reserved_bytes t = reserved_bytes s"
    and "heap_bytes s \<inter> owned_bytes s \<subseteq> owned_bytes t"
  shows "heap_rep t bs"
proof -
  note rd = heap_repD [OF assms(1)] and f = heap_fields_more [OF assms(3)]
  have "(\<lambda>n. n - (2 ^ 64 - 2 ^ 48)) ` region_span r \<subseteq> owned_bytes t - reserved_bytes t" if r: "r \<in> set (regions s)" for r
  proof
    fix x
    assume x: "x \<in> (\<lambda>n. n - (2 ^ 64 - 2 ^ 48)) ` region_span r"
    then have "x \<in> owned_bytes s - reserved_bytes s" using rd(8) r by blast
    moreover have "x \<in> heap_bytes s" using x r unfolding heap_bytes_def by blast
    ultimately show "x \<in> owned_bytes t - reserved_bytes t" using assms(4,5) by blast
  qed
  then show ?thesis
    unfolding heap_rep_def addr_in_any_region_def f
    using rd(2-7,9,10) assms(2) unfolding addr_in_any_region_def by blast
qed

lemma heap_live_free:
  fixes s :: "'a heap_scheme"
  assumes live: "heap_live s V" and xs: "\<And>a. a \<in> set xs \<Longrightarrow> \<not> heap_page s a"
  shows "heap_live (fold pmm_free_page xs s) V" "heap_page (fold pmm_free_page xs s) = heap_page s"
    "page_at s a \<Longrightarrow> a \<notin> set xs \<Longrightarrow> page_at (fold pmm_free_page xs s) a"
proof -
  let ?t = "fold pmm_free_page xs s"
  note fr = free_fold_frame [OF heap_live_inv [OF live], of xs]
  obtain bs where bs: "heap_rep s bs" "bs \<noteq> []" "live bs = V" using live by (auto simp: heap_live_def)
  have reg: "regions ?t = regions s" by (rule heap_fields_more) simp
  have "heap_bytes s \<inter> owned_bytes s \<subseteq> owned_bytes ?t"
  proof
    fix x
    assume x: "x \<in> heap_bytes s \<inter> owned_bytes s"
    then obtain n where n: "n \<in> allocated s" "x \<in> page_bytes s n" by (auto simp: owned_bytes_def)
    then have "heap_page s (page_addr s n)" using x unfolding heap_page_def by (auto simp: allocated_def)
    then have "n \<in> allocated ?t" using n(1) xs unfolding fr(7) by blast
    then show "x \<in> owned_bytes ?t" using n(2) unfolding owned_bytes_def fr(5) by blast
  qed
  then have "heap_rep ?t bs"
    by (intro heap_rep_owned_cong [OF bs(1) fr(1) _ fr(6)]) simp_all
  then show "heap_live ?t V" using bs by (auto simp: heap_live_def)
  show "heap_page ?t = heap_page s" unfolding heap_page_def fr(2,3,5) heap_bytes_def reg by (rule refl)
  show "page_at ?t a" if "page_at s a" "a \<notin> set xs" using that unfolding page_at_def fr(3,4,7) by blast
qed

text \<open>Allocation takes fresh pages only, for the heap as for anyone else.\<close>

definition page_mono :: "'a heap_scheme \<Rightarrow> 'a heap_scheme \<Rightarrow> bool" where
  "page_mono s t \<longleftrightarrow> pmm_inv t \<and> page_addr t = page_addr s \<and> reserved_pages t = reserved_pages s \<and>
     reserved_bytes t = reserved_bytes s \<and> allocated s \<subseteq> allocated t \<and> (\<forall>a. page_at s a \<longrightarrow> heap_page t a \<longrightarrow> heap_page s a)"

lemma page_mono_at: "page_mono s t \<Longrightarrow> page_at s a \<Longrightarrow> page_at t a"
  unfolding page_mono_def page_at_def by auto

lemma page_mono_trans: "page_mono s t \<Longrightarrow> page_mono t u \<Longrightarrow> page_mono s u"
  using page_mono_at [of s t] unfolding page_mono_def by (metis subset_trans)

lemma page_mono_hdr: "pmm_inv s \<Longrightarrow> page_mono s (s\<lparr>hdr := h\<rparr>)"
  by (simp add: page_mono_def heap_page_def heap_bytes_def fun_eq_iff page_addr_def page_bytes_def allocated_def npages_def page_used_def)

lemma alloc_pages_mono:
  fixes s :: "'a heap_scheme"
  assumes inv: "pmm_inv s" and al: "pmm_allocate_pages k s = (p, t)"
  shows "page_mono s t" "heap_page t = heap_page s"
    "p \<noteq> 0 \<Longrightarrow> a \<in> set (run_pages p k) \<Longrightarrow> page_at t a \<and> \<not> page_at s a \<and> (page_bytes t = page_bytes s)"
proof -
  consider "p = 0" "t = s" | a where "p = page_addr s a" "t = take_run a (unat k) s" "free_run s (unat k) a"
    using pmm_allocate_pages_result [OF inv al] by blast
  then have "page_mono s t \<and> heap_page t = heap_page s \<and>
    (p \<noteq> 0 \<longrightarrow> a \<in> set (run_pages p k) \<longrightarrow> page_at t a \<and> \<not> page_at s a \<and> (page_bytes t = page_bytes s))"
  proof cases
    case 1
    then show ?thesis using inv by (simp add: page_mono_def)
  next
    case (2 b)
    have le: "b + unat k \<le> npages s" "unat (reserved_pages s) \<le> b" "{b..<b + unat k} \<inter> allocated s = {}"
      using 2(3) by (auto simp: free_run_def allocated_def)
    have al: "allocated t = allocated s \<union> {b..<b + unat k}" using allocated_take_run [OF inv le(1)] 2(2) by simp
    have t: "pmm_inv t" using pmm_inv_take_run [OF inv le(1)] le(3) 2(2) by (simp add: Int_commute)
    have reg: "regions t = regions s" by (rule heap_fields_more(3)) (simp add: 2(2))
    have hp: "heap_page t = heap_page s"
      unfolding heap_page_def heap_bytes_def reg by (simp add: 2(2) page_bytes_def)
    have inj: "page_addr s m = page_addr s n \<Longrightarrow> m < npages s \<Longrightarrow> n < npages s \<Longrightarrow> m = n" for m n
      using page_addr_inj [OF inv, of m n] by simp
    have "page_at t a \<and> \<not> page_at s a" if run: "a \<in> set (run_pages p k)"
    proof -
      obtain i where i: "i < unat k" "a = page_addr s (b + i)"
        using run 2(1) by (auto simp: run_pages_def page_addr_add)
      then have "b + i \<in> allocated t" using al by auto
      moreover have "b + i \<in> {b..<b + unat k}" using i(1) by simp
      then have "b + i \<notin> allocated s" using le(3) by blast
      ultimately show ?thesis
        using i le inj [of "b + i"] unfolding page_at_def by (fastforce simp: 2(2) allocated_def)
    qed
    then show ?thesis
      using hp al t by (simp add: page_mono_def 2(2) reserved_bytes_def page_bytes_def fun_eq_iff)
  qed
  then show "page_mono s t" "heap_page t = heap_page s"
    "p \<noteq> 0 \<Longrightarrow> a \<in> set (run_pages p k) \<Longrightarrow> page_at t a \<and> \<not> page_at s a \<and> (page_bytes t = page_bytes s)" by blast+
qed

lemma add_region_mono:
  fixes s :: "'a heap_scheme"
  assumes inv: "pmm_inv s" and al: "pmm_allocate_pages k s = (p, t)" "p \<noteq> 0"
  shows "page_mono s (t\<lparr>hdr := h, regions := regions s @ [\<lparr>va_start = PHYS_TO_VIRT p, size_bytes = k * PAGE_SIZE\<rparr>]\<rparr>)" (is "page_mono s ?u")
proof -
  note f = pmm_alloc_facts [OF inv al] and m = alloc_pages_mono [OF inv al(1)]
  note rb = region_block(6) [OF f(1,4,2)]
  have hb: "heap_bytes ?u = heap_bytes s \<union> span p k"
    unfolding heap_bytes_def using rb by (simp add: image_Un Un_commute)
  have "heap_page s a" if a: "page_at s a" "heap_page ?u a" for a
  proof -
    obtain n where n: "n \<in> allocated s" "a = page_addr s n" using a(1) by (auto simp: page_at_def)
    have m1: "page_addr t = page_addr s" "allocated s \<subseteq> allocated t" using m(1) by (auto simp: page_mono_def)
    have pb: "page_bytes ?u = page_bytes s" "npages ?u = npages t" "page_addr ?u = page_addr s"
      using m1(1) fun_cong [OF m1(1), of 0] by (auto simp: fun_eq_iff page_bytes_def page_addr_def npages_def)
    obtain n' where n': "n' < npages t" "a = page_addr s n'" "page_bytes s n' \<inter> (heap_bytes s \<union> span p k) \<noteq> {}"
      using a(2) unfolding heap_page_def hb pb by blast
    have "n' = n"
      using page_addr_inj [of t n' n] n n' m1 f(5) by (auto simp: allocated_def)
    moreover have "page_bytes s n \<inter> span p k = {}" using f(7) n(1) by (auto simp: owned_bytes_def)
    ultimately have "page_bytes s n \<inter> heap_bytes s \<noteq> {}" using n'(3) by blast
    then show ?thesis using n unfolding heap_page_def by (auto simp: allocated_def)
  qed
  then show ?thesis
    using m(1) f(5,8) unfolding page_mono_def
    by (auto simp: fun_eq_iff page_addr_def allocated_def npages_def page_used_def)
qed

lemma heap_expand_mono:
  assumes inv: "pmm_inv s" and ex: "heap_expand n s = Some (rc, s')"
  shows "page_mono s s'"
proof -
  let ?k = "expand_pages n"
  obtain p t where al: "pmm_allocate_pages ?k s = (p, t)" by fastforce
  show ?thesis
  proof (cases "p = 0")
    case True
    then have "s' = t" using ex al by (simp add: heap_expand_def Let_def)
    then show ?thesis using alloc_pages_mono(1) [OF inv al] by simp
  next
    case False
    note f = pmm_alloc_facts [OF inv al False]
    have free: "pmm_free_pages p ?k t = s" using inv al False by (rule pmm_alloc_free_restores)
    have "(\<exists>h. s' = s\<lparr>hdr := h\<rparr>) \<or>
        (\<exists>h. s' = t\<lparr>hdr := h, regions := regions s @ [\<lparr>va_start = PHYS_TO_VIRT p, size_bytes = ?k * PAGE_SIZE\<rparr>]\<rparr>)"
      using ex False f(11)
      by (auto simp: heap_expand_def al Let_def register_region_def pmm_free_pages_hdr free split: if_splits option.splits)
    then show ?thesis using page_mono_hdr [OF inv] add_region_mono [OF inv al False] by blast
  qed
qed

lemma kmalloc_attempts_mono: "pmm_inv s \<Longrightarrow> kmalloc_attempts k n s = Some (p, s') \<Longrightarrow> page_mono s s'"
proof (induction k n s rule: kmalloc_attempts.induct)
  case (1 n s)
  then show ?case by (simp add: page_mono_def)
next
  case (2 k n s)
  obtain c where c: "find_fit (hdr s) n (heap_head s) = Some c" using 2(3) by (auto split: option.splits)
  show ?case
  proof (cases "c = 0")
    case False
    then show ?thesis using 2(3) c page_mono_hdr [OF 2(2)] by auto
  next
    case True
    then obtain rc s1 where e: "heap_expand n s = Some (rc, s1)" using 2(3) c by (auto split: option.splits)
    have m: "page_mono s s1" by (rule heap_expand_mono [OF 2(2) e])
    show ?thesis
    proof (cases "rc = 0")
      case rc: True
      have inv: "pmm_inv s1" using m by (simp add: page_mono_def)
      have k: "kmalloc_attempts k n s1 = Some (p, s')" using 2(3) c True e rc by simp
      have "page_mono s1 s'" using 2(1) [OF c _ e _ _ inv k] True rc by simp
      then show ?thesis by (rule page_mono_trans [OF m])
    next
      case False
      then show ?thesis using 2(3) c True e m by auto
    qed
  qed
qed

lemma kmalloc_mono: "pmm_inv s \<Longrightarrow> kmalloc n s = Some (p, s') \<Longrightarrow> page_mono s s'"
  by (auto simp: kmalloc_def page_mono_def split: if_splits dest: kmalloc_attempts_mono [unfolded page_mono_def])

lemma heap_live_alloc:
  fixes s :: "'a heap_scheme"
  assumes live: "heap_live s V" and al: "pmm_allocate_pages k s = (p, t)"
  shows "heap_live t V"
proof (cases "p = 0")
  case True
  then show ?thesis using pmm_allocate_pages_result [OF heap_live_inv [OF live] al] page_addr_nonzero [OF heap_live_inv [OF live]] live
    by (auto simp: free_run_def)
next
  case False
  obtain bs where bs: "heap_rep s bs" "bs \<noteq> []" "live bs = V" using live by (auto simp: heap_live_def)
  note f = pmm_alloc_facts [OF heap_repD(1) [OF bs(1)] al False]
  have "heap_rep t bs"
    using heap_rep_owned_cong [OF bs(1) f(5) allocate_pages_more [OF al] f(8)] f(6) by blast
  then show ?thesis using bs by (auto simp: heap_live_def)
qed

text \<open>Static data lies in the reserved image, so no allocation is at its address.\<close>

definition static_addr :: "'a pmm_scheme \<Rightarrow> u64 \<Rightarrow> bool" where
  "static_addr s a \<longleftrightarrow> unat a - (2 ^ 64 - 2 ^ 48) \<in> reserved_bytes s"

lemma kmalloc_not_static:
  fixes s :: "'a heap_scheme"
  assumes live: "heap_live s V" and km: "kmalloc n s = Some (p, s')" "p \<noteq> 0" "n \<noteq> 0" and st: "static_addr s' a"
  shows "p \<noteq> a"
proof
  assume "p = a"
  obtain bs where bs: "heap_rep s bs" "bs \<noteq> []" using live by (auto simp: heap_live_def)
  obtain bs' where bs': "heap_rep s' bs'" "allocated_at n p bs bs'"
    using kmalloc_spec [OF bs, of n] km by auto
  obtain sz where sz: "n \<le> sz" "payload (p, sz) \<subseteq> \<Union> (region_span ` set (regions s'))"
    using allocated_at_facts [OF bs'] by (elim exE conjE) (rule that)
  have "0 < unat sz" using sz(1) km(3) unat_gt_0 [of n] by (simp add: word_le_nat_alt)
  then have "unat p \<in> payload (p, sz)" by (simp add: payload_def)
  then obtain r where r: "r \<in> set (regions s')" "unat p \<in> region_span r" using sz(2) by blast
  then have "unat p - (2 ^ 64 - 2 ^ 48) \<notin> reserved_bytes s'" using heap_repD(8) [OF bs'(1)] by blast
  then show False using st \<open>p = a\<close> by (simp add: static_addr_def)
qed

section \<open>The scheduler invariant\<close>

text \<open>
  The queue \<open>rs\<close> and the list \<open>ds\<close> of the dead; only the current task is running.
\<close>

definition queue_pre :: "'a sched_scheme \<Rightarrow> u64 list \<Rightarrow> u64 list \<Rightarrow> bool" where
  "queue_pre s rs ds \<longleftrightarrow> run_queue (task_at s) rs \<and> current s \<in> set rs \<and> idle_task s \<in> set rs \<and>
     chain_to (task_at s) ds 0 \<and> dead_list s = hd (ds @ [0]) \<and> distinct (rs @ ds) \<and> 0 \<notin> set (rs @ ds) \<and>
     (\<forall>t \<in> set rs. t_state (task_at s t) = TASK_RUNNING \<longrightarrow> t = current s) \<and>
     (\<forall>t \<in> set rs. t_state (task_at s t) = TASK_DEAD \<longrightarrow> t = current s \<and> t \<noteq> idle_task s) \<and>
     (\<forall>t \<in> set ds. t_state (task_at s t) = TASK_DEAD)"

text \<open>Only a task that calls \<open>schedule\<close> to exit may be dead and still queued.\<close>

definition queue_ok :: "'a sched_scheme \<Rightarrow> u64 list \<Rightarrow> u64 list \<Rightarrow> bool" where
  "queue_ok s rs ds \<longleftrightarrow> queue_pre s rs ds \<and> (\<forall>t \<in> set rs. t_state (task_at s t) \<noteq> TASK_DEAD)"

text \<open>
  What the tasks \<open>K\<close> hold: their heap objects beside the objects \<open>V\<close> of others, and
  pages outside the heap, nothing held twice.
\<close>

definition res_ok :: "(u64 \<times> u64) set \<Rightarrow> u64 set \<Rightarrow> 'a sched_scheme \<Rightarrow> bool" where
  "res_ok V K s \<longleftrightarrow> kheap.owned V (\<Union> (task_objs s ` K)) s \<and> (\<forall>d \<in> K. fds_ok s d) \<and>
     (\<forall>d \<in> K. \<forall>e \<in> K. d \<noteq> e \<longrightarrow> task_objs s d \<inter> task_objs s e = {} \<and>
        set (task_pages (tab s) (task_at s d)) \<inter> set (task_pages (tab s) (task_at s e)) = {}) \<and>
     (\<forall>d \<in> K. \<forall>a \<in> set (task_pages (tab s) (task_at s d)). page_at s a \<and> \<not> heap_page s a)"

lemma kfree_hdr: "kfree p s = Some s' \<Longrightarrow> \<exists>h. s' = s\<lparr>hdr := h\<rparr>"
  by (auto simp: kfree_def Let_def split: if_splits option.splits intro: exI [of _ "hdr s"])

lemma free_files_hdr: "free_files t is s = Some s' \<Longrightarrow> \<exists>h. s' = s\<lparr>hdr := h\<rparr>"
proof (induction t "is" s rule: free_files.induct)
  case (1 t s)
  then show ?case by (auto intro: exI [of _ "hdr s"])
next
  case (2 t i "is" s)
  show ?case
  proof (cases "fdtabs s t i = 0")
    case True
    then show ?thesis using 2(2,3) by simp
  next
    case False
    then obtain s1 where s1: "kfree (fdtabs s t i) s = Some s1" "free_files t is s1 = Some s'"
      using 2(3) by (auto split: option.splits)
    then show ?thesis using 2(1) [OF False s1] kfree_hdr [OF s1(1)] by fastforce
  qed
qed

lemma fd_table_destroy_hdr: "fd_table_destroy t s = Some s' \<Longrightarrow> \<exists>h. s' = s\<lparr>hdr := h\<rparr>"
  by (fastforce simp: fd_table_destroy_def split: if_splits option.splits dest: free_files_hdr kfree_hdr intro: exI [of _ "hdr s"])

lemma hdr_frame [simp]:
  fixes s :: "'a sched_scheme"
  shows "heap_page (s\<lparr>hdr := h\<rparr>) = heap_page s" "page_at (s\<lparr>hdr := h\<rparr>) = page_at s"
    "task_objs (s\<lparr>hdr := h\<rparr>) = task_objs s" "fds_ok (s\<lparr>hdr := h\<rparr>) = fds_ok s"
    "allocated (s\<lparr>hdr := h\<rparr>) = allocated s"
  by (simp_all add: fun_eq_iff heap_page_def page_at_def allocated_def npages_def page_used_def page_addr_def
      page_bytes_def heap_bytes_def task_objs_def fds_ok_def open_fds_def Let_def)

lemma owned_free:
  fixes s :: "'a sched_scheme"
  assumes "kheap.owned V A s" "\<And>a. a \<in> set xs \<Longrightarrow> \<not> heap_page s a"
  shows "kheap.owned V A (fold pmm_free_page xs s)" "heap_page (fold pmm_free_page xs s) = heap_page s"
    "page_at s a \<Longrightarrow> a \<notin> set xs \<Longrightarrow> page_at (fold pmm_free_page xs s) a" "pmm_inv s"
proof -
  obtain W where W: "heap_live s (V \<union> W)" "fst ` W = A" "fst ` V \<inter> A = {}" using assms(1) unfolding kheap.owned_def by blast
  note f = heap_live_free [OF W(1) assms(2), of xs]
  show "kheap.owned V A (fold pmm_free_page xs s)" unfolding kheap.owned_def using f(1) W(2,3) by blast
  show "heap_page (fold pmm_free_page xs s) = heap_page s" by (rule f(2))
  show "page_at s a \<Longrightarrow> a \<notin> set xs \<Longrightarrow> page_at (fold pmm_free_page xs s) a" by (rule f(3))
  show "pmm_inv s" by (rule heap_live_inv [OF W(1)])
qed

lemma res_okD:
  assumes "res_ok V K s"
  shows "kheap.owned V (\<Union> (task_objs s ` K)) s" "d \<in> K \<Longrightarrow> fds_ok s d"
    "d \<in> K \<Longrightarrow> e \<in> K \<Longrightarrow> d \<noteq> e \<Longrightarrow> task_objs s d \<inter> task_objs s e = {}"
    "d \<in> K \<Longrightarrow> e \<in> K \<Longrightarrow> d \<noteq> e \<Longrightarrow>
      set (task_pages (tab s) (task_at s d)) \<inter> set (task_pages (tab s) (task_at s e)) = {}"
    "d \<in> K \<Longrightarrow> a \<in> set (task_pages (tab s) (task_at s d)) \<Longrightarrow> page_at s a"
    "d \<in> K \<Longrightarrow> a \<in> set (task_pages (tab s) (task_at s d)) \<Longrightarrow> \<not> heap_page s a"
  using assms unfolding res_ok_def by blast+

text \<open>Closing the descriptors of a task and freeing its structure.\<close>

lemma release_objects:
  assumes own: "kheap.owned V (task_objs s d \<union> B) s" and ok: "fds_ok s d" "task_objs s d \<inter> B = {}"
  shows "\<exists>h. (case (if t_fds (task_at s d) \<noteq> 0 then fd_table_destroy (t_fds (task_at s d)) s else Some s) of
           None \<Rightarrow> None | Some s5 \<Rightarrow> kfree d s5) = Some (s\<lparr>hdr := h\<rparr>) \<and> kheap.owned V B (s\<lparr>hdr := h\<rparr>)"
proof -
  let ?t = "t_fds (task_at s d)"
  have "\<exists>s5. (if ?t \<noteq> 0 then fd_table_destroy ?t s else Some s) = Some s5 \<and> kheap.owned V (insert d B) s5 \<and> (\<exists>h. s5 = s\<lparr>hdr := h\<rparr>)"
  proof (cases "?t = 0")
    case True
    then show ?thesis using own by (auto simp: task_objs_def intro!: exI [of _ "hdr s"])
  next
    case False
    let ?F = "insert ?t (fdtabs s ?t ` open_fds ?t s)"
    have o: "task_objs s d = insert d ?F" using False by (simp add: task_objs_def Let_def)
    have f: "?t \<notin> fdtabs s ?t ` open_fds ?t s" "inj_on (fdtabs s ?t) (open_fds ?t s)" "d \<notin> ?F"
      using ok(1) False by (simp_all add: fds_ok_def Let_def)
    have "task_objs s d \<union> B = ?F \<union> insert d B" unfolding o by blast
    moreover have "F \<inter> insert d B = {}" if "insert d F \<inter> B = {}" "d \<notin> F" for F using that by blast
    from this [OF ok(2) [unfolded o] f(3)] have "?F \<inter> insert d B = {}" .
    ultimately obtain W where W: "kheap.owned (V \<union> W) ?F s" "fst ` W = insert d B" "fst ` V \<inter> insert d B = {}"
      using kheap.owned_split [of V ?F "insert d B" s] own by metis
    have "fd_rep (V \<union> W) ?t (open_fds ?t s) s"
      unfolding fd_rep_def using False f(1,2) W(1) by (auto simp: open_fds_def)
    then obtain s5 where s5: "fd_table_destroy ?t s = Some s5" "heap_live s5 (V \<union> W)"
      using fd_table_destroy_ok by blast
    then have "kheap.owned (V \<union> W) {} s5" by (simp add: kheap.owned_none)
    then have "kheap.owned V (insert d B) s5" using kheap.owned_join [of V W "{}" s5] W(2,3) by simp
    then show ?thesis using s5(1) False fd_table_destroy_hdr [OF s5(1)] by simp
  qed
  then obtain s5 h where s5: "(if ?t \<noteq> 0 then fd_table_destroy ?t s else Some s) = Some s5" "kheap.owned V (insert d B) s5" "s5 = s\<lparr>hdr := h\<rparr>"
    by blast
  obtain s6 where s6: "kfree d s5 = Some s6" "kheap.owned V (insert d B - {d}) s6"
    using kheap.owned_fre [OF s5(2), of d] by blast
  obtain h' where "s6 = s5\<lparr>hdr := h'\<rparr>" using kfree_hdr [OF s6(1)] by blast
  moreover have "insert d B - {d} = B" using ok(2) by (auto simp: task_objs_def)
  ultimately show ?thesis using s5(1,3) s6 by (intro exI [of _ h']) simp
qed

lemma reap_task_ok:
  assumes res: "res_ok V (insert d K) s" and d: "d \<notin> K"
  shows "\<exists>s'. reap_task d s = Some s' \<and> res_ok V K s' \<and> heap.more s' = heap.more s \<and>
    pmm_inv s' \<and> regions s' = regions s \<and> reserved_bytes s' = reserved_bytes s"
proof -
  let ?xs = "task_pages (tab s) (task_at s d)"
  let ?t = "fold pmm_free_page ?xs s" and ?B = "\<Union> (task_objs s ` K)"
  note r = res_okD [OF res]
  have own: "kheap.owned V (task_objs s d \<union> ?B) s" using r(1) by simp
  have nh: "\<not> heap_page s a" if "a \<in> set ?xs" for a using r(6) that by blast
  note fr = owned_free [OF own nh, of ?xs]
  note more = pmm_more_sched [OF fold_free_more, of ?xs s]
  have same: "task_objs ?t = task_objs s" "fds_ok ?t = fds_ok s"
    unfolding fun_eq_iff task_objs_def fds_ok_def open_fds_def more by simp_all
  have dis: "task_objs s d \<inter> ?B = {}" using r(3) [of d] d by blast
  obtain h where h: "(case (if t_fds (task_at s d) \<noteq> 0 then fd_table_destroy (t_fds (task_at s d)) ?t else Some ?t) of
           None \<Rightarrow> None | Some s5 \<Rightarrow> kfree d s5) = Some (?t\<lparr>hdr := h\<rparr>)" "kheap.owned V ?B (?t\<lparr>hdr := h\<rparr>)"
    using release_objects [of V ?t d ?B] fr(1) r(2) [of d] dis unfolding same more by blast
  let ?u = "?t\<lparr>hdr := h\<rparr>"
  have mu: "heap.more ?u = heap.more s" using heap_fields_more(4) [OF fold_free_more, of ?xs s] by simp
  have pg: "page_at ?t a" if "e \<in> K" "a \<in> set (task_pages (tab s) (task_at s e))" for e a
    using fr(3) [of a] r(5) [of e a] r(4) [of d e] d that by blast
  have u: "task_objs ?u = task_objs s" "fds_ok ?u = fds_ok s" "task_at ?u = task_at s" "tab ?u = tab s"
      "page_at ?u = page_at ?t" "heap_page ?u = heap_page s"
    using more same fr(2) by simp_all
  have "res_ok V K ?u"
    unfolding res_ok_def u
    by (intro conjI ballI impI; (rule h(2) r(2) r(3) r(4) pg r(6))?) simp_all
  moreover have "pmm_inv ?u" "reserved_bytes ?u = reserved_bytes s" "regions ?u = regions s"
    using free_fold_frame(1,6) [OF fr(4)] more by simp_all
  ultimately show ?thesis
    unfolding reap_task_pages Let_def using h(1) mu by blast
qed

text \<open>Only the fields the reaper reads matter for what a task holds.\<close>

definition same_res :: "task \<Rightarrow> task \<Rightarrow> bool" where
  "same_res k k' \<longleftrightarrow> t_stack_phys k = t_stack_phys k' \<and> t_ustack_phys k = t_ustack_phys k' \<and> t_exec_image k = t_exec_image k' \<and>
     t_stack_grown k = t_stack_grown k' \<and> t_ttbr0 k = t_ttbr0 k' \<and> t_fds k = t_fds k'"

lemma heap_live_sched_upd [simp]:
  "heap_live (s\<lparr>task_at := T\<rparr>) V = heap_live s V" "heap_live (s\<lparr>dead_list := a\<rparr>) V = heap_live s V"
  "heap_live (s\<lparr>current := a\<rparr>) V = heap_live s V" "heap_live (s\<lparr>next_pid := a\<rparr>) V = heap_live s V"
  "heap_live (s\<lparr>kmem := m\<rparr>) V = heap_live s V" "heap_live (s\<lparr>tick_count := a\<rparr>) V = heap_live s V"
  by (rule heap_live_cong; simp)+

lemma owned_sched_upd [simp]:
  "kheap.owned V A (s\<lparr>task_at := T\<rparr>) = kheap.owned V A s" "kheap.owned V A (s\<lparr>dead_list := a\<rparr>) = kheap.owned V A s"
  "kheap.owned V A (s\<lparr>current := a\<rparr>) = kheap.owned V A s" "kheap.owned V A (s\<lparr>next_pid := a\<rparr>) = kheap.owned V A s"
  "kheap.owned V A (s\<lparr>kmem := m\<rparr>) = kheap.owned V A s" "kheap.owned V A (s\<lparr>tick_count := a\<rparr>) = kheap.owned V A s"
  by (simp_all add: kheap.owned_def)

lemma page_sched_upd [simp]:
  fixes s :: "'a sched_scheme"
  shows "page_at (s\<lparr>task_at := T\<rparr>) = page_at s" "page_at (s\<lparr>dead_list := a\<rparr>) = page_at s" "page_at (s\<lparr>current := a\<rparr>) = page_at s"
    "page_at (s\<lparr>next_pid := a\<rparr>) = page_at s" "page_at (s\<lparr>kmem := m\<rparr>) = page_at s" "page_at (s\<lparr>tick_count := a\<rparr>) = page_at s"
    "heap_page (s\<lparr>task_at := T\<rparr>) = heap_page s" "heap_page (s\<lparr>dead_list := a\<rparr>) = heap_page s" "heap_page (s\<lparr>current := a\<rparr>) = heap_page s"
    "heap_page (s\<lparr>next_pid := a\<rparr>) = heap_page s" "heap_page (s\<lparr>kmem := m\<rparr>) = heap_page s" "heap_page (s\<lparr>tick_count := a\<rparr>) = heap_page s"
  by (simp_all add: fun_eq_iff heap_page_def page_at_def allocated_def npages_def page_used_def page_addr_def
      page_bytes_def heap_bytes_def)

lemma res_ok_upd:
  assumes "\<And>d. d \<in> K \<Longrightarrow> same_res (T d) (task_at s d)"
  shows "res_ok V K (s\<lparr>task_at := T\<rparr>) = res_ok V K s"
proof -
  let ?s = "s\<lparr>task_at := T\<rparr>"
  have o: "task_objs ?s d = task_objs s d" "fds_ok ?s d = fds_ok s d" "task_pages tb (T d) = task_pages tb (task_at s d)"
    if "d \<in> K" for d tb
    using assms [OF that] by (simp_all add: same_res_def task_objs_def fds_ok_def open_fds_def task_pages_def Let_def)
  have "\<Union> (task_objs ?s ` K) = \<Union> (task_objs s ` K)" using o(1) by simp
  then show ?thesis unfolding res_ok_def by (simp add: o cong: ball_cong)
qed

lemma objs_sched_upd [simp]:
  "task_objs (s\<lparr>dead_list := a\<rparr>) = task_objs s" "task_objs (s\<lparr>current := a\<rparr>) = task_objs s" "task_objs (s\<lparr>next_pid := a\<rparr>) = task_objs s"
  "task_objs (s\<lparr>kmem := m\<rparr>) = task_objs s" "task_objs (s\<lparr>tick_count := a\<rparr>) = task_objs s"
  "fds_ok (s\<lparr>dead_list := a\<rparr>) = fds_ok s" "fds_ok (s\<lparr>current := a\<rparr>) = fds_ok s" "fds_ok (s\<lparr>next_pid := a\<rparr>) = fds_ok s"
  "fds_ok (s\<lparr>kmem := m\<rparr>) = fds_ok s" "fds_ok (s\<lparr>tick_count := a\<rparr>) = fds_ok s"
  by (simp_all add: fun_eq_iff task_objs_def fds_ok_def open_fds_def Let_def)

lemma res_ok_sched_upd [simp]:
  "res_ok V K (s\<lparr>dead_list := a\<rparr>) = res_ok V K s" "res_ok V K (s\<lparr>current := a\<rparr>) = res_ok V K s"
  "res_ok V K (s\<lparr>next_pid := a\<rparr>) = res_ok V K s" "res_ok V K (s\<lparr>kmem := m\<rparr>) = res_ok V K s"
  "res_ok V K (s\<lparr>tick_count := a\<rparr>) = res_ok V K s"
  by (simp_all add: res_ok_def)

lemma sched_reap_ok:
  "chain_to (task_at s) ds 0 \<Longrightarrow> dead_list s = hd (ds @ [0]) \<Longrightarrow> distinct ds \<Longrightarrow> 0 \<notin> set ds \<Longrightarrow> set ds \<inter> K = {} \<Longrightarrow>
    res_ok V (set ds \<union> K) s \<Longrightarrow>
    \<exists>s'. sched_reap s = Some s' \<and> res_ok V K s' \<and> heap.more s' = heap.more (s\<lparr>dead_list := 0\<rparr>) \<and>
      regions s' = regions s \<and> reserved_bytes s' = reserved_bytes s"
proof (induction ds arbitrary: s)
  case Nil
  then have "sched_reap s = Some s" "s\<lparr>dead_list := 0\<rparr> = s" by (simp_all add: sched_reap.simps)
  then show ?case using Nil.prems(6) by auto
next
  case (Cons d ds)
  let ?s = "s\<lparr>dead_list := t_next (task_at s d)\<rparr>"
  have "res_ok V (insert d (set ds \<union> K)) ?s" "d \<notin> set ds \<union> K" using Cons.prems by auto
  then obtain s1 where s1: "reap_task d ?s = Some s1" "res_ok V (set ds \<union> K) s1" "heap.more s1 = heap.more ?s"
      "regions s1 = regions ?s" "reserved_bytes s1 = reserved_bytes ?s"
    using reap_task_ok by blast
  note m = heap_more_sched [OF s1(3)]
  have p: "dead_list s1 = hd (ds @ [0])" "chain_to (task_at s1) ds 0" using m Cons.prems(1) by simp_all
  obtain s' where s': "sched_reap s1 = Some s'" "res_ok V K s'" "heap.more s' = heap.more (s1\<lparr>dead_list := 0\<rparr>)"
      "regions s' = regions s1" "reserved_bytes s' = reserved_bytes s1"
    using Cons.IH [OF p(2,1)] Cons.prems s1(2) by auto
  have "heap.more (s1\<lparr>dead_list := 0\<rparr>) = heap.more (s\<lparr>dead_list := 0\<rparr>)" using s1(3) by (cases s1; cases s) simp
  moreover have "reserved_bytes ?s = reserved_bytes s" by (simp add: reserved_bytes_def page_bytes_def)
  moreover have "sched_reap s = Some s'" using Cons.prems(2,4) s1(1) s'(1) by (subst sched_reap.simps) simp
  ultimately show ?case using s' s1(4,5) by simp
qed

section \<open>What a call of \<open>schedule\<close> does\<close>

lemma bury_effect:
  assumes "run_queue (task_at s) (t # ts)" "ts \<noteq> []"
  shows "bury t s = Some (s\<lparr>task_at := (task_at s)
      (last ts := (task_at s (last ts))\<lparr>t_next := t_next (task_at s t)\<rparr>, t := (task_at s t)\<lparr>t_next := dead_list s\<rparr>), dead_list := t\<rparr>)"
proof -
  have "chain_to (task_at s) (t # ts) t" "t \<notin> set ts" using assms(1) by (simp_all add: run_queue_def)
  then have "find_pred (task_at s) t t = Some (last ts)" "last ts \<noteq> t"
    using find_pred_chain [of "task_at s" t ts t] assms(2) by auto
  then show ?thesis by (simp add: bury_def upd_task_def Let_def)
qed

text \<open>A task of which at most the state and the link changed.\<close>

definition only_moved :: "task \<Rightarrow> task \<Rightarrow> bool" where
  "only_moved k k' \<longleftrightarrow> k' = k\<lparr>t_state := t_state k', t_next := t_next k'\<rparr>"

lemma only_movedD:
  assumes "only_moved k k'"
  shows "t_pid k' = t_pid k" "t_priority k' = t_priority k" "t_base_priority k' = t_base_priority k"
    "t_wait_next k' = t_wait_next k" "t_blocked_on k' = t_blocked_on k" "t_sleep_until k' = t_sleep_until k"
    "t_rt_period k' = t_rt_period k" "same_res k' k"
  using assms unfolding only_moved_def same_res_def by (cases k; cases k'; simp)+

definition next_state :: "(u64 \<Rightarrow> task) \<Rightarrow> u64 \<Rightarrow> u64 \<Rightarrow> u64 \<Rightarrow> task_state" where
  "next_state T prev nxt t =
    (if t = nxt then TASK_RUNNING else if t = prev \<and> t_state (T t) = TASK_RUNNING then TASK_READY else t_state (T t))"

text \<open>The links after \<open>prev\<close> left the queue, or unchanged.\<close>

definition next_link :: "(u64 \<Rightarrow> task) \<Rightarrow> u64 \<Rightarrow> u64 list \<Rightarrow> u64 \<Rightarrow> u64 \<Rightarrow> u64" where
  "next_link T prev ts dl t =
    (if t_state (T prev) \<noteq> TASK_DEAD then t_next (T t)
     else if t = prev then dl else if t = last ts then t_next (T prev) else t_next (T t))"

lemma chosen_in: "chosen T prev idle ts t \<Longrightarrow> idle \<in> set ts \<Longrightarrow> t \<in> set ts"
  by (auto simp: chosen_def first_top_def split: if_splits)

lemma task_upd_id [simp]: "k\<lparr>t_state := t_state k\<rparr> = k" "k\<lparr>t_next := t_next k\<rparr> = k"
  by (cases k; simp)+

lemma schedule_pick_effect:
  assumes q: "run_queue (task_at s) (current s # ts)" "idle_task s \<in> set (current s # ts)"
    and dead: "t_state (task_at s (current s)) = TASK_DEAD \<Longrightarrow> current s \<noteq> idle_task s"
  shows "\<exists>nxt. chosen (task_at s) (current s) (idle_task s) (ts @ [current s]) nxt \<and>
    (t_state (task_at s (current s)) = TASK_DEAD \<longrightarrow> nxt \<noteq> current s) \<and>
    schedule_pick s = Some (s\<lparr>task_at := (\<lambda>t. (task_at s t)\<lparr>t_state := next_state (task_at s) (current s) nxt t,
        t_next := next_link (task_at s) (current s) ts (dead_list s) t\<rparr>),
      current := nxt, dead_list := (if t_state (task_at s (current s)) = TASK_DEAD then current s else dead_list s)\<rparr>)"
    (is "\<exists>nxt. _ \<and> _ \<and> _ = Some (?s' nxt)")
proof -
  let ?T = "task_at s" and ?p = "current s"
  obtain nxt where n: "pick_best ?T ?p (t_next (?T ?p)) (t_next (?T ?p)) (idle_task s) (-1) = Some nxt"
      "chosen ?T ?p (idle_task s) (ts @ [?p]) nxt"
    using pick_best_queue [OF q(1)] by blast
  have ne: "nxt \<noteq> ?p" if "t_state (?T ?p) = TASK_DEAD"
    using n(2) dead [OF that] that by (auto simp: chosen_def first_top_def runnable_def split: if_splits)
  have "schedule_pick s = Some (?s' nxt)"
  proof (cases "nxt = ?p")
    case True
    then have nd: "t_state (?T ?p) \<noteq> TASK_DEAD" using ne by blast
    have "(\<lambda>t. (?T t)\<lparr>t_state := next_state ?T ?p nxt t, t_next := next_link ?T ?p ts (dead_list s) t\<rparr>) =
        ?T(?p := (?T ?p)\<lparr>t_state := TASK_RUNNING\<rparr>)"
      using True nd by (auto simp: fun_eq_iff next_state_def next_link_def)
    then show ?thesis
      using True nd n(1) by (cases "t_state (?T ?p) = TASK_RUNNING")
        (simp_all add: schedule_pick_def Let_def upd_task_def fun_upd_idem)
  next
    case False
    show ?thesis
    proof (cases "t_state (?T ?p) = TASK_DEAD")
      case True
      have "nxt \<in> set ts" using chosen_in [OF n(2)] q(2) False by auto
      then have ts: "ts \<noteq> []" by auto
      have lp: "last ts \<noteq> ?p" using last_in_set [OF ts] q(1) by (auto simp: run_queue_def)
      have "(\<lambda>t. (?T t)\<lparr>t_state := next_state ?T ?p nxt t, t_next := next_link ?T ?p ts (dead_list s) t\<rparr>) =
        (let U = ?T(last ts := (?T (last ts))\<lparr>t_next := t_next (?T ?p)\<rparr>, ?p := (?T ?p)\<lparr>t_next := dead_list s\<rparr>)
         in U(nxt := (U nxt)\<lparr>t_state := TASK_RUNNING\<rparr>))"
        using True False ts lp by (auto simp: fun_eq_iff next_state_def next_link_def Let_def)
      then show ?thesis
        using True False n(1) bury_effect [OF q(1) ts] by (simp add: schedule_pick_def Let_def upd_task_def)
    next
      case nd: False
      have "(\<lambda>t. (?T t)\<lparr>t_state := next_state ?T ?p nxt t, t_next := next_link ?T ?p ts (dead_list s) t\<rparr>) =
        (let U = ?T(?p := if t_state (?T ?p) = TASK_RUNNING then (?T ?p)\<lparr>t_state := TASK_READY\<rparr> else ?T ?p)
         in U(nxt := (U nxt)\<lparr>t_state := TASK_RUNNING\<rparr>))"
        using nd False by (auto simp: fun_eq_iff next_state_def next_link_def Let_def)
      then show ?thesis
        using nd False n(1) by (cases "t_state (?T ?p) = TASK_RUNNING") (simp_all add: schedule_pick_def Let_def upd_task_def)
    qed
  qed
  then show ?thesis using n(2) ne by blast
qed

text \<open>The tasks whose memory the scheduler answers for: all but the idle task.\<close>

definition held :: "'a sched_scheme \<Rightarrow> u64 list \<Rightarrow> u64 list \<Rightarrow> u64 set" where
  "held s rs ds = set rs - {idle_task s} \<union> set ds"

lemma queue_preD:
  assumes "queue_pre s rs ds"
  shows "run_queue (task_at s) rs" "current s \<in> set rs" "idle_task s \<in> set rs" "chain_to (task_at s) ds 0"
    "dead_list s = hd (ds @ [0])" "distinct (rs @ ds)" "0 \<notin> set (rs @ ds)"
    "t \<in> set rs \<Longrightarrow> t_state (task_at s t) = TASK_RUNNING \<Longrightarrow> t = current s"
    "t \<in> set rs \<Longrightarrow> t_state (task_at s t) = TASK_DEAD \<Longrightarrow> t = current s"
    "t \<in> set rs \<Longrightarrow> t_state (task_at s t) = TASK_DEAD \<Longrightarrow> t \<noteq> idle_task s"
    "t \<in> set ds \<Longrightarrow> t_state (task_at s t) = TASK_DEAD"
  using assms unfolding queue_pre_def by blast+

lemma schedule_pick_queue:
  assumes q: "queue_pre s (current s # ts) []" and res: "res_ok V (held s (current s # ts) []) s"
  defines "dead \<equiv> t_state (task_at s (current s)) = TASK_DEAD"
  defines "rs' \<equiv> if dead then ts else current s # ts" and "ds' \<equiv> if dead then [current s] else []"
  shows "\<exists>s'. schedule_pick s = Some s' \<and> chosen (task_at s) (current s) (idle_task s) (ts @ [current s]) (current s') \<and>
    queue_ok s' rs' ds' \<and> res_ok V (held s' rs' ds') s' \<and> idle_task s' = idle_task s \<and>
    (\<forall>t. t_state (task_at s' t) = next_state (task_at s) (current s) (current s') t \<and> only_moved (task_at s t) (task_at s' t)) \<and>
    reserved_bytes s' = reserved_bytes s"
proof -
  let ?T = "task_at s" and ?p = "current s"
  note d = queue_preD [OF q]
  obtain nxt s' where n: "chosen ?T ?p (idle_task s) (ts @ [?p]) nxt" "dead \<longrightarrow> nxt \<noteq> ?p"
      "schedule_pick s = Some s'"
      "s' = s\<lparr>task_at := (\<lambda>t. (?T t)\<lparr>t_state := next_state ?T ?p nxt t, t_next := next_link ?T ?p ts (dead_list s) t\<rparr>),
        current := nxt, dead_list := (if dead then ?p else dead_list s)\<rparr>"
    using schedule_pick_effect [OF d(1,3)] d(10) [of ?p] unfolding dead_def by auto
  have nin: "nxt \<in> set (?p # ts)" using chosen_in [OF n(1)] d(3) by auto
  have f: "current s' = nxt" "idle_task s' = idle_task s" "dead_list s' = (if dead then ?p else dead_list s)"
      "t_state (task_at s' t) = next_state ?T ?p nxt t" "t_next (task_at s' t) = next_link ?T ?p ts (dead_list s) t"
      "only_moved (?T t) (task_at s' t)" for t
    by (simp_all add: n(4) only_moved_def)
  have dl: "dead_list s = 0" using d(5) by simp
  have notp: "?p \<notin> set ts" using d(6) by simp
  have rq: "run_queue (task_at s') rs'"
  proof (cases dead)
    case True
    then have "ts \<noteq> []" using n(2) nin by auto
    moreover have "t_next (task_at s' a) = (if a = last ts then t_next (?T ?p) else t_next (?T a))" if "a \<in> set ts" for a
      using True that notp unfolding f next_link_def dead_def by auto
    ultimately show ?thesis using True run_queue_remove [OF d(1)] by (simp add: rs'_def)
  next
    case False
    then have "t_next (task_at s' a) = t_next (?T a)" for a unfolding f next_link_def dead_def by simp
    then show ?thesis using False d(1) run_queue_cong [of "?p # ts" "task_at s'" ?T] by (simp add: rs'_def)
  qed
  have st: "t_state (task_at s' t) = (if t = nxt then TASK_RUNNING else if t = ?p \<and> t_state (?T t) = TASK_RUNNING then TASK_READY else t_state (?T t))" for t
    unfolding f next_state_def by (rule refl)
  have in_rs: "nxt \<in> set rs'" "idle_task s \<in> set rs'" "set rs' \<subseteq> set (?p # ts)"
    using nin n(2) d(3) d(10) [of ?p] unfolding rs'_def dead_def by auto
  have dead_p: "t_next (task_at s' ?p) = 0" "t_state (task_at s' ?p) = TASK_DEAD" if dead
    using that n(2) dl unfolding f next_link_def next_state_def dead_def by auto
  have run: "t = nxt" if "t \<in> set rs'" "t_state (task_at s' t) = TASK_RUNNING" for t
    using that d(8) [of t] in_rs(3) unfolding st by (auto split: if_splits)
  have nodead: "t_state (task_at s' t) \<noteq> TASK_DEAD" if "t \<in> set rs'" for t
  proof
    assume "t_state (task_at s' t) = TASK_DEAD"
    then have dt: "t_state (?T t) = TASK_DEAD" unfolding st by (auto split: if_splits)
    then have "t = ?p" using d(9) [of t] that in_rs(3) by blast
    then show False using that dt notp unfolding rs'_def dead_def by simp
  qed
  have "queue_pre s' rs' ds'"
    unfolding queue_pre_def f(1-3)
    using rq in_rs(1,2) dead_p run nodead d(6,7) dl by (auto simp: rs'_def ds'_def)
  then have qok: "queue_ok s' rs' ds'" using nodead by (simp add: queue_ok_def)
  have "held s' rs' ds' = held s (?p # ts) []"
    using d(10) [of ?p] unfolding held_def f rs'_def ds'_def dead_def by auto
  moreover have "res_ok V (held s (?p # ts) []) s'"
    using res unfolding n(4) by (simp, subst res_ok_upd) (simp_all add: same_res_def)
  moreover have "reserved_bytes s' = reserved_bytes s" by (simp add: n(4) reserved_bytes_def page_bytes_def)
  ultimately show ?thesis using n(1,3) qok f by auto
qed

lemma schedule_ok:
  assumes q: "queue_pre s (current s # ts) ds" and res: "res_ok V (held s (current s # ts) ds) s"
  defines "dead \<equiv> t_state (task_at s (current s)) = TASK_DEAD"
  defines "rs' \<equiv> if dead then ts else current s # ts" and "ds' \<equiv> if dead then [current s] else []"
  shows "\<exists>s'. schedule s = Some s' \<and> chosen (task_at s) (current s) (idle_task s) (ts @ [current s]) (current s') \<and>
    queue_ok s' rs' ds' \<and> res_ok V (held s' rs' ds') s' \<and> idle_task s' = idle_task s \<and>
    (\<forall>t. t_state (task_at s' t) = next_state (task_at s) (current s) (current s') t \<and> only_moved (task_at s t) (task_at s' t)) \<and>
    reserved_bytes s' = reserved_bytes s"
proof -
  note d = queue_preD [OF q]
  let ?K = "held s (current s # ts) []"
  have K: "held s (current s # ts) ds = set ds \<union> ?K" "set ds \<inter> ?K = {}" using d(6) unfolding held_def by auto
  obtain s1 where s1: "sched_reap s = Some s1" "res_ok V ?K s1" "heap.more s1 = heap.more (s\<lparr>dead_list := 0\<rparr>)"
      "reserved_bytes s1 = reserved_bytes s"
    using sched_reap_ok [OF d(4,5) _ _ K(2), of V] d(6,7) res unfolding K(1) by auto
  have m: "task_at s1 = task_at s" "current s1 = current s" "idle_task s1 = idle_task s" "dead_list s1 = 0"
    using heap_more_sched [OF s1(3)] by simp_all
  have "queue_pre s1 (current s1 # ts) []" using q unfolding queue_pre_def m by auto
  moreover have "res_ok V (held s1 (current s1 # ts) []) s1" using s1(2) unfolding held_def m .
  ultimately show ?thesis
    using schedule_pick_queue [of s1 ts V] s1(1,4) unfolding m rs'_def ds'_def dead_def by (simp add: schedule_def)
qed

section \<open>The invariant of the scheduler is kept\<close>

definition sched_inv :: "(u64 \<times> u64) set \<Rightarrow> 'a sched_scheme \<Rightarrow> bool" where
  "sched_inv V s \<longleftrightarrow> (\<exists>rs ds. queue_ok s rs ds \<and> res_ok V (held s rs ds) s) \<and>
     static_addr s (idle_task s) \<and> t_pid (task_at s (idle_task s)) = 0"

lemma queue_pre_rotate:
  assumes "queue_pre s rs ds"
  obtains ts where "queue_pre s (current s # ts) ds" "set (current s # ts) = set rs"
proof -
  note d = queue_preD [OF assms]
  obtain us vs where rs: "rs = us @ current s # vs" "run_queue (task_at s) (current s # vs @ us)"
    using run_queue_from [OF d(1,2)] by blast
  have set: "set (current s # vs @ us) = set rs" "distinct ((current s # vs @ us) @ ds) = distinct (rs @ ds)"
    unfolding rs(1) by auto
  have "queue_pre s (current s # vs @ us) ds"
    using assms rs(2) unfolding queue_pre_def set(2) set_append set(1) by simp
  then show ?thesis using that set(1) by blast
qed

lemma schedule_inv:
  assumes q: "queue_pre s rs ds" and res: "res_ok V (held s rs ds) s"
    and idle: "static_addr s (idle_task s)" "t_pid (task_at s (idle_task s)) = 0"
  shows "\<exists>s'. schedule s = Some s' \<and> sched_inv V s'"
proof -
  obtain ts where ts: "queue_pre s (current s # ts) ds" "set (current s # ts) = set rs" by (rule queue_pre_rotate [OF q])
  have "res_ok V (held s (current s # ts) ds) s" using res unfolding held_def ts(2) .
  note ok = schedule_ok [OF ts(1) this]
  obtain s' where s': "schedule s = Some s'" "idle_task s' = idle_task s" "reserved_bytes s' = reserved_bytes s"
      "\<And>t. only_moved (task_at s t) (task_at s' t)" "\<exists>rs ds. queue_ok s' rs ds \<and> res_ok V (held s' rs ds) s'"
    using ok by auto
  have "sched_inv V s'"
    unfolding sched_inv_def using s'(5) idle only_movedD(1) [OF s'(4)] by (simp add: s'(2) static_addr_def s'(3))
  then show ?thesis using s'(1) by blast
qed

lemma static_addr_upd [simp]:
  fixes s :: "'a sched_scheme"
  shows "static_addr (s\<lparr>task_at := T\<rparr>) a = static_addr s a" "static_addr (s\<lparr>dead_list := b\<rparr>) a = static_addr s a"
    "static_addr (s\<lparr>current := b\<rparr>) a = static_addr s a" "static_addr (s\<lparr>next_pid := b\<rparr>) a = static_addr s a"
    "static_addr (s\<lparr>kmem := m\<rparr>) a = static_addr s a" "static_addr (s\<lparr>tick_count := b\<rparr>) a = static_addr s a"
    "static_addr (s\<lparr>hdr := h\<rparr>) a = static_addr s a"
  by (simp_all add: static_addr_def reserved_bytes_def page_bytes_def)

text \<open>Changes that leave links and memory alone.\<close>

lemma sched_inv_map:
  assumes inv: "sched_inv V s"
    and T: "\<And>t. t_next (T t) = t_next (task_at s t)" "\<And>t. same_res (T t) (task_at s t)" "\<And>t. t_pid (T t) = t_pid (task_at s t)"
      "\<And>t. t_state (T t) = TASK_RUNNING \<Longrightarrow> t_state (task_at s t) = TASK_RUNNING"
      "\<And>t. t_state (T t) = TASK_DEAD \<longleftrightarrow> t_state (task_at s t) = TASK_DEAD"
  shows "sched_inv V (s\<lparr>task_at := T\<rparr>)"
proof -
  obtain rs ds where q: "queue_ok s rs ds" "res_ok V (held s rs ds) s" using inv by (auto simp: sched_inv_def)
  have "run_queue T rs = run_queue (task_at s) rs" "chain_to T ds 0 = chain_to (task_at s) ds 0"
    by (rule run_queue_cong chain_to_cong, rule T(1))+
  then have "queue_ok (s\<lparr>task_at := T\<rparr>) rs ds"
    using q(1) T(4,5) unfolding queue_ok_def queue_pre_def by (simp add: T(5))
  moreover have "res_ok V (held (s\<lparr>task_at := T\<rparr>) rs ds) (s\<lparr>task_at := T\<rparr>)"
    using q(2) T(2) unfolding held_def by (simp add: res_ok_upd)
  ultimately show ?thesis using inv T(3) by (auto simp: sched_inv_def)
qed

lemma current_change_schedule:
  assumes inv: "sched_inv V s"
    and f: "t_next (f k) = t_next k" "same_res (f k) k" "t_pid (f k) = t_pid k" "t_state (f k) = TASK_DEAD \<Longrightarrow> current s \<noteq> idle_task s"
    and k: "k = task_at s (current s)"
  shows "\<exists>s'. schedule (upd_task (current s) f s) = Some s' \<and> sched_inv V s'"
proof -
  obtain rs ds where q: "queue_ok s rs ds" "res_ok V (held s rs ds) s" using inv by (auto simp: sched_inv_def)
  let ?s = "upd_task (current s) f s"
  have T: "t_next (task_at ?s t) = t_next (task_at s t)" "same_res (task_at ?s t) (task_at s t)" "t_pid (task_at ?s t) = t_pid (task_at s t)" for t
    using f(1-3) unfolding k by (simp_all add: upd_task_def same_res_def)
  have "current s \<notin> set ds" using q(1) by (auto simp: queue_ok_def queue_pre_def)
  then have st: "t_state (task_at ?s t) = t_state (task_at s t)" if "t \<in> set ds \<or> t \<noteq> current s" for t
    using that by (auto simp: upd_task_def)
  have links: "run_queue (task_at ?s) rs = run_queue (task_at s) rs" "chain_to (task_at ?s) ds 0 = chain_to (task_at s) ds 0"
    by (rule run_queue_cong chain_to_cong, rule T(1))+
  have fr: "current ?s = current s" "idle_task ?s = idle_task s" "dead_list ?s = dead_list s" by (simp_all add: upd_task_def)
  have cd: "t_state (task_at ?s (current s)) = TASK_DEAD \<Longrightarrow> current s \<noteq> idle_task s"
    using f(4) unfolding k by (simp add: upd_task_def)
  have q': "queue_pre s rs ds" and nd: "\<And>t. t \<in> set rs \<Longrightarrow> t_state (task_at s t) \<noteq> TASK_DEAD" using q(1) by (auto simp: queue_ok_def)
  note d = queue_preD [OF q']
  have run: "t = current s" if "t \<in> set rs" "t_state (task_at ?s t) = TASK_RUNNING" for t
    using d(8) [of t] st [of t] that by metis
  have dead: "t = current s \<and> t \<noteq> idle_task s" if "t \<in> set rs" "t_state (task_at ?s t) = TASK_DEAD" for t
    using nd [of t] st [of t] cd that by metis
  have ds: "t_state (task_at ?s t) = TASK_DEAD" if "t \<in> set ds" for t using d(11) [OF that] st [of t] that by simp
  have "queue_pre ?s rs ds"
    unfolding queue_pre_def fr links using d(1-7) run dead ds by blast
  moreover have "res_ok V (held ?s rs ds) ?s"
    using q(2) T(2) unfolding held_def fr upd_task_def by (simp add: res_ok_upd)
  moreover have "static_addr ?s (idle_task ?s)" "t_pid (task_at ?s (idle_task ?s)) = 0"
    using inv T(3) unfolding fr by (simp_all add: sched_inv_def) (simp add: upd_task_def)
  ultimately show ?thesis by (rule schedule_inv)
qed

end
