(* ===== verification/Sched_Inv.thy ===== *)
theory Sched_Inv
  imports Sched
begin

text \<open>
  The scheduler invariant under every operation of \<^verbatim>\<open>src/sched/sched.c\<close> on kernel tasks, and
  the properties of the scheduler: the choice of \<open>schedule\<close>, round robin among equals,
  the safety of any sequence of operations and the ASID allocator.
\<close>

section \<open>Searching the queue\<close>

lemma find_SomeD: "List.find P xs = Some x \<Longrightarrow> x \<in> set xs \<and> P x"
  by (induction xs) (auto split: if_splits)

lemma find_from_chain:
  "chain_to T (t # ts) head \<Longrightarrow> head \<notin> set ts \<Longrightarrow>
    find_from T head pid t = Some (case List.find (\<lambda>x. t_pid (T x) = pid) (t # ts) of None \<Rightarrow> 0 | Some x \<Rightarrow> x)"
proof (induction ts arbitrary: t)
  case Nil
  then show ?case by (simp add: find_from.simps)
next
  case (Cons q ts)
  then have "t_next (T t) = q" "q \<noteq> head" by auto
  then show ?case using Cons.IH [of q] Cons.prems by (simp add: find_from.simps [of T head pid t])
qed

lemma sched_find_task_queue:
  assumes "queue_pre s rs ds"
  obtains "sched_find_task pid s = Some 0" "\<forall>t \<in> set rs. t_pid (task_at s t) \<noteq> pid"
  | t where "sched_find_task pid s = Some t" "t \<in> set rs" "t_pid (task_at s t) = pid" "t \<noteq> 0"
proof -
  note d = queue_preD [OF assms]
  obtain us vs where rs: "rs = us @ idle_task s # vs" "run_queue (task_at s) (idle_task s # vs @ us)"
    using run_queue_from [OF d(1,3)] by blast
  let ?xs = "idle_task s # vs @ us"
  have set: "set ?xs = set rs" unfolding rs(1) by auto
  have "chain_to (task_at s) ?xs (idle_task s)" "idle_task s \<notin> set (vs @ us)" using rs(2) by (auto simp: run_queue_def)
  then have f: "sched_find_task pid s = Some (case List.find (\<lambda>x. t_pid (task_at s x) = pid) ?xs of None \<Rightarrow> 0 | Some x \<Rightarrow> x)"
    unfolding sched_find_task_def by (rule find_from_chain)
  show ?thesis
  proof (cases "List.find (\<lambda>x. t_pid (task_at s x) = pid) ?xs")
    case None
    then have "\<forall>t \<in> set rs. t_pid (task_at s t) \<noteq> pid" unfolding find_None_iff set by blast
    then show ?thesis using that(1) f None by simp
  next
    case (Some t)
    then have t: "t \<in> set rs" "t_pid (task_at s t) = pid" using find_SomeD [OF Some] unfolding set by blast+
    have "t \<noteq> 0" using t(1) d(7) by auto
    moreover have "sched_find_task pid s = Some t" unfolding f Some by simp
    ultimately show ?thesis using that(2) t by blast
  qed
qed

section \<open>Killing a task\<close>

lemma bury_inv:
  assumes inv: "sched_inv V s" and q: "queue_ok s rs ds" "res_ok V (held s rs ds) s"
    and t: "t \<in> set rs" "t \<noteq> current s" "t \<noteq> idle_task s"
  shows "\<exists>s'. bury t s = Some s' \<and> sched_inv V (upd_task t (\<lambda>k. k\<lparr>t_state := TASK_DEAD\<rparr>) s')"
proof -
  have q': "queue_pre s rs ds" and nd: "\<And>t. t \<in> set rs \<Longrightarrow> t_state (task_at s t) \<noteq> TASK_DEAD" using q(1) by (auto simp: queue_ok_def)
  note d = queue_preD [OF q']
  let ?T = "task_at s"
  obtain us vs where rs: "rs = us @ t # vs" "run_queue ?T (t # vs @ us)" using run_queue_from [OF d(1) t(1)] by blast
  define ts where "ts = vs @ us"
  have set: "set rs = insert t (set ts)" "t \<notin> set ts" "distinct ts" using d(6) unfolding rs(1) ts_def by auto
  have ts: "ts \<noteq> []" using d(2) t(2) set(1) by auto
  have rq: "run_queue ?T (t # ts)" using rs(2) by (simp add: ts_def)
  define l where "l = last ts"
  have l: "l \<in> set ts" "l \<noteq> t" using ts set(2) by (auto simp: l_def)
  let ?s1 = "s\<lparr>task_at := ?T(l := (?T l)\<lparr>t_next := t_next (?T t)\<rparr>, t := (?T t)\<lparr>t_next := dead_list s\<rparr>), dead_list := t\<rparr>"
  let ?s = "upd_task t (\<lambda>k. k\<lparr>t_state := TASK_DEAD\<rparr>) ?s1"
  have b: "bury t s = Some ?s1" using bury_effect [OF rq ts] by (simp add: l_def)
  have fr: "current ?s = current s" "idle_task ?s = idle_task s" "dead_list ?s = t" by (simp_all add: upd_task_def)
  have st: "t_state (task_at ?s a) = (if a = t then TASK_DEAD else t_state (?T a))" for a using l(2) by (simp add: upd_task_def)
  have nx: "t_next (task_at ?s a) = (if a = t then dead_list s else if a = l then t_next (?T t) else t_next (?T a))" for a
    using l(2) by (simp add: upd_task_def)
  have tds: "t \<notin> set ds" "l \<notin> set ds" using d(6) l(1) set(1) by auto
  have "t_next (task_at ?s a) = (if a = l then t_next (?T t) else t_next (?T a))" if "a \<in> set ts" for a
    using set(2) that unfolding nx by auto
  then have "run_queue (task_at ?s) ts" by (rule run_queue_remove [OF rq ts, folded l_def])
  moreover have "chain_to (task_at ?s) ds 0 = chain_to ?T ds 0" using nx tds by (intro chain_to_cong) auto
  then have "chain_to (task_at ?s) (t # ds) 0" using d(4,5) nx by simp
  moreover have "distinct (ts @ t # ds)" "0 \<notin> set (ts @ t # ds)" using d(6,7) set by auto
  moreover have "current s \<in> set ts" "idle_task s \<in> set ts" using d(2,3) t(2,3) set(1) by auto
  moreover have "a = current s" if "a \<in> set ts" "t_state (task_at ?s a) = TASK_RUNNING" for a
    using that d(8) [of a] set unfolding st by (auto split: if_splits)
  moreover have nd': "t_state (task_at ?s a) \<noteq> TASK_DEAD" if "a \<in> set ts" for a using that nd [of a] set unfolding st by auto
  moreover have "t_state (task_at ?s a) = TASK_DEAD" if "a \<in> set (t # ds)" for a using that d(11) [of a] unfolding st by auto
  moreover have "t = hd ((t # ds) @ [0])" by simp
  ultimately have qk: "queue_ok ?s ts (t # ds)"
    unfolding queue_ok_def queue_pre_def fr by blast
  have h: "held ?s ts (t # ds) = held s rs ds" using t(3) set unfolding held_def fr by auto
  have r: "res_ok V (held s rs ds) ?s"
    using q(2) unfolding upd_task_def by (simp, subst res_ok_upd) (simp_all add: same_res_def)
  have "static_addr ?s (idle_task s)" "t_pid (task_at ?s (idle_task s)) = 0"
    using inv t(3) by (auto simp: sched_inv_def upd_task_def)
  then have "sched_inv V ?s" unfolding sched_inv_def fr using qk r [folded h] by blast
  then show ?thesis using b by blast
qed

lemma task_exit_inv: "sched_inv V s \<Longrightarrow> current s \<noteq> idle_task s \<Longrightarrow> \<exists>s'. task_exit s = Some s' \<and> sched_inv V s'"
  unfolding task_exit_def by (rule current_change_schedule) (simp_all add: same_res_def)

lemma sched_block_current_inv: "sched_inv V s \<Longrightarrow> \<exists>s'. sched_block_current s = Some s' \<and> sched_inv V s'"
  unfolding sched_block_current_def by (rule current_change_schedule) (simp_all add: same_res_def)

lemma sleep_ms_inv: "sched_inv V s \<Longrightarrow> \<exists>s'. sleep_ms ms s = Some s' \<and> sched_inv V s'"
  unfolding sleep_ms_def Let_def by (rule current_change_schedule) (simp_all add: same_res_def)

lemma yield_inv: "sched_inv V s \<Longrightarrow> \<exists>s'. yield s = Some s' \<and> sched_inv V s'"
  unfolding yield_def sched_inv_def [of V s] queue_ok_def using schedule_inv by blast

lemma sched_kill_task_inv:
  assumes inv: "sched_inv V s"
  shows "\<exists>rc s'. sched_kill_task pid s = Some (rc, s') \<and> sched_inv V s'"
proof (cases "pid = 0")
  case True
  then show ?thesis using inv by (simp add: sched_kill_task_def)
next
  case pid: False
  obtain rs ds where q: "queue_ok s rs ds" "res_ok V (held s rs ds) s" using inv by (auto simp: sched_inv_def)
  have q': "queue_pre s rs ds" using q(1) by (simp add: queue_ok_def)
  show ?thesis
  proof (rule sched_find_task_queue [OF q', of pid])
    assume "sched_find_task pid s = Some 0"
    then show ?thesis using pid inv by (simp add: sched_kill_task_def)
  next
    fix t
    assume t: "sched_find_task pid s = Some t" "t \<in> set rs" "t_pid (task_at s t) = pid" "t \<noteq> 0"
    have ni: "t \<noteq> idle_task s" using t(3) pid inv by (auto simp: sched_inv_def)
    show ?thesis
    proof (cases "t_state (task_at s t) = TASK_DEAD")
      case True
      then show ?thesis using t pid inv by (simp add: sched_kill_task_def)
    next
      case False
      show ?thesis
      proof (cases "t = current s")
        case True
        then show ?thesis using task_exit_inv [OF inv] ni t pid False by (auto simp: sched_kill_task_def)
      next
        case other: False
        then show ?thesis
          using bury_inv [OF inv q t(2) other ni] t pid False by (auto simp: sched_kill_task_def)
      qed
    qed
  qed
qed

section \<open>Waking and changing tasks\<close>

lemma sched_make_ready_inv: "sched_inv V s \<Longrightarrow> sched_inv V (sched_make_ready t s)"
  unfolding sched_make_ready_def upd_task_def
  by (cases "t \<noteq> 0 \<and> t_state (task_at s t) \<noteq> TASK_DEAD") (auto intro!: sched_inv_map simp: same_res_def split: if_splits)

lemma sched_set_priority_inv: "sched_inv V s \<Longrightarrow> sched_inv V (sched_set_priority t p s)"
  unfolding sched_set_priority_def upd_task_def
  by (cases "t \<noteq> 0") (auto intro!: sched_inv_map simp: same_res_def split: if_splits)

lemma wake_same:
  "t_next (wake now k) = t_next k" "same_res (wake now k) k" "t_pid (wake now k) = t_pid k"
  "t_state (wake now k) = TASK_RUNNING \<longleftrightarrow> t_state k = TASK_RUNNING" "t_state (wake now k) = TASK_DEAD \<longleftrightarrow> t_state k = TASK_DEAD"
  by (simp_all add: wake_def same_res_def)

lemma wake_from_chain:
  "chain_to T xs idle \<Longrightarrow> idle \<notin> set xs \<Longrightarrow> distinct xs \<Longrightarrow>
    wake_from now idle (hd (xs @ [idle])) T = Some (\<lambda>a. if a \<in> set xs then wake now (T a) else T a)"
proof (induction xs arbitrary: T)
  case Nil
  then show ?case by (simp add: wake_from.simps)
next
  case (Cons x xs)
  let ?T = "T(x := wake now (T x))"
  have "chain_to ?T xs idle" using Cons.prems chain_to_cong [of xs ?T T idle] by (simp add: wake_same)
  then have IH: "wake_from now idle (hd (xs @ [idle])) ?T = Some (\<lambda>a. if a \<in> set xs then wake now (?T a) else ?T a)"
    using Cons by simp
  have "wake_from now idle x T = wake_from now idle (t_next (T x)) ?T"
    using Cons.prems(2) by (subst wake_from.simps) auto
  also have "\<dots> = Some (\<lambda>a. if a \<in> set (x # xs) then wake now (T a) else T a)"
    using IH Cons.prems by (auto simp: fun_eq_iff)
  finally show ?case by simp
qed

lemma sched_wake_sleepers_effect:
  assumes "queue_pre s rs ds"
  shows "sched_wake_sleepers s =
    Some (s\<lparr>task_at := (\<lambda>a. if a \<in> set rs - {idle_task s} then wake (tick_count s) (task_at s a) else task_at s a)\<rparr>)"
proof -
  note d = queue_preD [OF assms]
  obtain us vs where rs: "rs = us @ idle_task s # vs" "run_queue (task_at s) (idle_task s # vs @ us)"
    using run_queue_from [OF d(1,3)] by blast
  have c: "chain_to (task_at s) (vs @ us) (idle_task s)" "idle_task s \<notin> set (vs @ us)" "distinct (vs @ us)"
      "t_next (task_at s (idle_task s)) = hd ((vs @ us) @ [idle_task s])"
    using rs(2) by (auto simp: run_queue_def)
  have "set rs - {idle_task s} = set (vs @ us)" using c(2) unfolding rs(1) by auto
  then show ?thesis
    unfolding sched_wake_sleepers_def c(4) wake_from_chain [OF c(1-3)] by simp
qed

lemma sched_wake_sleepers_inv:
  assumes inv: "sched_inv V s"
  shows "\<exists>s'. sched_wake_sleepers s = Some s' \<and> sched_inv V s'"
proof -
  obtain rs ds where q: "queue_pre s rs ds" using inv by (auto simp: sched_inv_def queue_ok_def)
  have "sched_inv V (s\<lparr>task_at := (\<lambda>a. if a \<in> set rs - {idle_task s} then wake (tick_count s) (task_at s a) else task_at s a)\<rparr>)"
    by (rule sched_inv_map [OF inv]) (auto simp: wake_same same_res_def wake_def split: if_splits)
  then show ?thesis unfolding sched_wake_sleepers_effect [OF q] by blast
qed

section \<open>Creating a kernel task\<close>

lemma objs_more:
  assumes "heap.more t = heap.more (s :: 'a sched_scheme)"
  shows "task_objs t = task_objs s" "fds_ok t = fds_ok s"
  by (rule ext, simp only: task_objs_def fds_ok_def open_fds_def heap_more_sched(2,3) [OF assms])+

lemma res_ok_mono:
  assumes res: "res_ok V K s" and m: "page_mono s t" "heap.more t = heap.more s"
    and own: "kheap.owned V' (\<Union> (task_objs s ` K)) t"
  shows "res_ok V' K t"
proof -
  note r = res_okD [OF res] and o = objs_more [OF m(2)]
  have pg: "page_at t a" "\<not> heap_page t a" if "d \<in> K" "a \<in> set (task_pages (tab s) (task_at s d))" for d a
    using page_mono_at [OF m(1)] r(5,6) [OF that] m(1) unfolding page_mono_def by blast+
  show ?thesis
    unfolding res_ok_def o heap_more_sched(1,3) [OF m(2)]
    by (intro conjI ballI impI; (rule own r(2) r(3) r(4) pg)?) simp_all
qed

text \<open>A state that differs in memory only.\<close>

lemma sched_inv_mono:
  assumes inv: "sched_inv V s" and q: "queue_ok s rs ds"
    and m: "page_mono s t" "heap.more t = heap.more s" and res: "res_ok V' (held s rs ds) t"
  shows "sched_inv V' t"
proof -
  note f = heap_more_sched [OF m(2)]
  have "queue_ok t rs ds" using q unfolding queue_ok_def queue_pre_def f .
  moreover have "held t rs ds = held s rs ds" unfolding held_def f ..
  moreover have "static_addr t (idle_task t)" using inv m(1) unfolding f by (simp add: sched_inv_def static_addr_def page_mono_def)
  ultimately show ?thesis using inv res unfolding sched_inv_def f by metis
qed

lemma res_ok_insert:
  assumes res: "res_ok V' K s" and own: "kheap.owned V (insert t (\<Union> (task_objs s ` K))) s"
    and t: "t \<notin> \<Union> (task_objs s ` K)" and k: "t_fds k = 0"
    and pages: "\<And>a. a \<in> set (task_pages (tab s) k) \<Longrightarrow> page_at s a \<and> \<not> heap_page s a"
      "\<And>d. d \<in> K \<Longrightarrow> set (task_pages (tab s) k) \<inter> set (task_pages (tab s) (task_at s d)) = {}"
  shows "res_ok V (insert t K) (s\<lparr>task_at := (task_at s)(t := k)\<rparr>)"
proof -
  let ?s = "s\<lparr>task_at := (task_at s)(t := k)\<rparr>"
  note r = res_okD [OF res]
  have tK: "t \<notin> K" using t by (auto simp: task_objs_def)
  have o: "task_objs ?s t = {t}" "fds_ok ?s t" using k by (simp_all add: task_objs_def fds_ok_def)
  have od: "task_objs ?s d = task_objs s d" "fds_ok ?s d = fds_ok s d" "task_at ?s d = task_at s d" if "d \<in> K" for d
    using that tK by (auto simp: task_objs_def fds_ok_def open_fds_def Let_def)
  have un: "\<Union> (task_objs ?s ` insert t K) = insert t (\<Union> (task_objs s ` K))" using o(1) od(1) by simp
  have dis: "task_objs ?s d \<inter> task_objs ?s e = {} \<and>
      set (task_pages (tab ?s) (task_at ?s d)) \<inter> set (task_pages (tab ?s) (task_at ?s e)) = {}"
    if de: "d \<in> insert t K" "e \<in> insert t K" "d \<noteq> e" for d e
  proof -
    have one: "task_objs ?s t \<inter> task_objs ?s d = {} \<and> set (task_pages (tab ?s) (task_at ?s t)) \<inter> set (task_pages (tab ?s) (task_at ?s d)) = {}"
      if "d \<in> K" for d
      using t o(1) od [OF that] pages(2) [OF that] that by auto
    consider "d \<in> K" "e \<in> K" | "d = t" "e \<in> K" | "d \<in> K" "e = t" using de by blast
    then show ?thesis
    proof cases
      case 1
      then show ?thesis using r(3,4) [OF 1 de(3)] od [OF 1(1)] od [OF 1(2)] by simp
    next
      case 2
      then show ?thesis using one [OF 2(2)] by simp
    next
      case 3
      then show ?thesis using one [OF 3(1)] by (simp only: Int_commute)
    qed
  qed
  have pg: "page_at ?s a \<and> \<not> heap_page ?s a" if "d \<in> insert t K" "a \<in> set (task_pages (tab ?s) (task_at ?s d))" for d a
  proof (cases "d = t")
    case True
    then show ?thesis using pages(1) that(2) by simp
  next
    case False
    then have "d \<in> K" using that(1) by simp
    then show ?thesis using r(5,6) [of d a] that(2) od(3) [of d] by simp
  qed
  have fd: "fds_ok ?s d" if "d \<in> insert t K" for d using that o(2) od(2) r(2) by blast
  have ow: "kheap.owned V (\<Union> (task_objs ?s ` insert t K)) ?s" unfolding un using own by simp
  show ?thesis unfolding res_ok_def using ow fd dis pg by blast
qed

lemma enqueue_effect:
  assumes "run_queue (task_at s) (current s # ts)" "t \<notin> set (current s # ts)"
  shows "\<exists>s'. enqueue t s = Some s' \<and> run_queue (task_at s') (current s # ts @ [t]) \<and>
    s' = s\<lparr>task_at := task_at s'\<rparr> \<and> (\<forall>a. task_at s' a = (task_at s a)\<lparr>t_next := t_next (task_at s' a)\<rparr>) \<and>
    (\<forall>a. a \<notin> set (current s # ts) \<longrightarrow> a \<noteq> t \<longrightarrow> task_at s' a = task_at s a)"
proof -
  let ?l = "last (current s # ts)"
  have "find_pred (task_at s) (current s) (current s) = Some ?l"
    using find_pred_chain [of "task_at s" "current s" ts "current s"] assms(1) by (auto simp: run_queue_def)
  moreover have l: "?l \<in> set (current s # ts)" "?l \<noteq> t" using assms(2) last_in_set [of "current s # ts"] by auto
  moreover define s' where "s' = upd_task t (\<lambda>k. k\<lparr>t_next := current s\<rparr>) (upd_task ?l (\<lambda>k. k\<lparr>t_next := t\<rparr>) s)"
  ultimately have e: "enqueue t s = Some s'" by (simp add: enqueue_def)
  have "run_queue (task_at s') (current s # ts @ [t])"
    by (rule run_queue_insert [OF assms]) (use l assms(2) in \<open>auto simp: s'_def upd_task_def\<close>)
  then show ?thesis using e l by (intro exI [of _ s']) (auto simp: s'_def upd_task_def)
qed

lemma heap_page_at:
  assumes live: "heap_live s V" and hp: "heap_page s a"
  shows "page_at s a"
proof -
  obtain bs where rep: "heap_rep s bs" using live by (auto simp: heap_live_def)
  obtain n x where n: "n < npages s" "a = page_addr s n" "x \<in> page_bytes s n" "x \<in> heap_bytes s"
    using hp by (auto simp: heap_page_def)
  have "x \<in> owned_bytes s" "x \<notin> reserved_bytes s" using n(4) heap_repD(8) [OF rep] by (auto simp: heap_bytes_def)
  moreover obtain m where m: "m \<in> allocated s" "x \<in> page_bytes s m" using calculation(1) by (auto simp: owned_bytes_def)
  ultimately have "m = n" "unat (reserved_pages s) \<le> n"
    using page_bytes_disjoint [of m n s] n(3) by (auto simp: reserved_bytes_def not_less)
  then show ?thesis using m(1) n(2) unfolding page_at_def by blast
qed

lemma task_pages_kernel:
  "t_ustack_phys k = 0 \<Longrightarrow> e_regions (t_exec_image k) = [] \<Longrightarrow> t_stack_grown k = [] \<Longrightarrow> t_ttbr0 k = 0 \<Longrightarrow> t_stack_phys k \<noteq> 0 \<Longrightarrow>
    task_pages tb k = run_pages (t_stack_phys k) TASK_STACK_PAGES"
  by (simp add: task_pages_def)

lemma enqueue_inv:
  assumes inv: "sched_inv V' s" and q: "queue_ok s rs ds" and res: "res_ok V (insert t (held s rs ds)) (s\<lparr>task_at := (task_at s)(t := k)\<rparr>)"
    and t: "t \<notin> held s rs ds" "t \<noteq> idle_task s" "t \<noteq> 0" and k: "t_state k = TASK_READY"
  shows "\<exists>s'. enqueue t (s\<lparr>task_at := (task_at s)(t := k), next_pid := np\<rparr>) = Some s' \<and> sched_inv V s'"
proof -
  let ?s = "s\<lparr>task_at := (task_at s)(t := k), next_pid := np\<rparr>"
  have q': "queue_pre s rs ds" and nd: "\<And>t. t \<in> set rs \<Longrightarrow> t_state (task_at s t) \<noteq> TASK_DEAD" using q by (auto simp: queue_ok_def)
  obtain ts where ts: "queue_pre s (current s # ts) ds" "set (current s # ts) = set rs" by (rule queue_pre_rotate [OF q'])
  note d = queue_preD [OF ts(1)]
  have fresh: "t \<notin> set (current s # ts)" "t \<notin> set ds" using t ts(2) by (auto simp: held_def)
  have "run_queue (task_at ?s) (current s # ts) = run_queue (task_at s) (current s # ts)"
    by (rule run_queue_cong) (use fresh(1) in auto)
  then have "run_queue (task_at ?s) (current ?s # ts)" using d(1) by simp
  from enqueue_effect [OF this, of t] fresh(1)
  obtain s' where e: "enqueue t ?s = Some s'" "run_queue (task_at s') (current s # ts @ [t])"
      "s' = ?s\<lparr>task_at := task_at s'\<rparr>" "\<And>a. task_at s' a = (task_at ?s a)\<lparr>t_next := t_next (task_at s' a)\<rparr>"
      "\<And>a. a \<notin> set (current s # ts) \<Longrightarrow> a \<noteq> t \<Longrightarrow> task_at s' a = task_at ?s a"
    by auto
  have f: "current s' = current s" "idle_task s' = idle_task s" "dead_list s' = dead_list s" by (subst e(3), simp)+
  have st: "t_state (task_at s' a) = (if a = t then TASK_READY else t_state (task_at s a))"
    and pid: "t_pid (task_at s' a) = (if a = t then t_pid k else t_pid (task_at s a))"
    and sr: "same_res (task_at s' a) (task_at ?s a)" for a
    using arg_cong [OF e(4) [of a], of t_state] arg_cong [OF e(4) [of a], of t_pid] k by (simp_all add: same_res_def) (subst e(4), simp)+
  let ?rs = "current s # ts @ [t]"
  have srs: "set ?rs = insert t (set rs)" using ts(2) by auto
  have "task_at s' a = task_at s a" if "a \<in> set ds" for a
    using e(5) [of a] that d(6) fresh(2) by (cases "a = t") auto
  then have "chain_to (task_at s') ds 0 = chain_to (task_at s) ds 0" by (intro chain_to_cong) simp
  then have "chain_to (task_at s') ds 0" using d(4) by simp
  moreover have "distinct (?rs @ ds)" "0 \<notin> set (?rs @ ds)" using d(6,7) fresh t(3) by auto
  moreover have "a = current s" if "a \<in> set ?rs" "t_state (task_at s' a) = TASK_RUNNING" for a
    using that d(8) [of a] unfolding st by (auto split: if_splits)
  moreover have "t_state (task_at s' a) \<noteq> TASK_DEAD" if "a \<in> set ?rs" for a
    using that nd [of a] srs unfolding st by auto
  moreover have "t_state (task_at s' a) = TASK_DEAD" if "a \<in> set ds" for a using that d(11) [of a] fresh(2) unfolding st by auto
  moreover have "current s \<in> set ?rs" "idle_task s \<in> set ?rs" using d(3) by auto
  ultimately have qk: "queue_ok s' ?rs ds" unfolding queue_ok_def queue_pre_def f using e(2) d(5) by blast
  have h: "held s' ?rs ds = insert t (held s rs ds)" using t(2) unfolding held_def f srs by auto
  have "res_ok V (insert t (held s rs ds)) ?s" using res by (simp add: res_ok_def)
  then have "res_ok V (insert t (held s rs ds)) s'" using res_ok_upd [of _ "task_at s'" ?s V, OF sr] e(3) by metis
  moreover have "static_addr s' (idle_task s)" using inv by (subst e(3)) (simp add: sched_inv_def)
  moreover have "t_pid (task_at s' (idle_task s)) = 0" using inv t(2) unfolding pid by (simp add: sched_inv_def)
  ultimately have "sched_inv V s'" unfolding sched_inv_def f using qk h by metis
  then show ?thesis using e(1) by blast
qed

lemma sched_create_kernel_task_inv:
  assumes inv: "sched_inv V s"
  shows "\<exists>pid s'. sched_create_kernel_task ks name entry s = Some (pid, s') \<and> sched_inv V s'"
proof -
  obtain rs ds where q: "queue_ok s rs ds" and res: "res_ok V (held s rs ds) s" using inv by (auto simp: sched_inv_def)
  let ?K = "held s rs ds"
  let ?A = "\<Union> (task_objs s ` ?K)"
  have own: "kheap.owned V ?A s" by (rule res_okD(1) [OF res])
  obtain W where live: "heap_live s (V \<union> W)" using own by (auto simp: kheap.owned_def)
  obtain t s1 where k: "kmalloc SIZEOF_TASK s = Some (t, s1)"
      "t = 0 \<and> kheap.owned V ?A s1 \<or> t \<noteq> 0 \<and> t \<notin> ?A \<and> kheap.owned V (insert t ?A) s1"
    using kheap.owned_mal [OF own, of SIZEOF_TASK] by blast
  note m1 = kmalloc_mono [OF heap_live_inv [OF live] k(1)] and h1 = kmalloc_more [OF k(1)]
  show ?thesis
  proof (cases "t = 0")
    case True
    have "sched_inv V s1" using k(2) True by (intro sched_inv_mono [OF inv q m1 h1] res_ok_mono [OF res m1 h1]) simp
    then show ?thesis using k(1) True by (simp add: sched_create_kernel_task_def)
  next
    case False
    then have t: "t \<notin> ?A" "kheap.owned V (insert t ?A) s1" using k(2) by auto
    obtain W1 where live1: "heap_live s1 (V \<union> W1)" "fst ` W1 = insert t ?A" "fst ` V \<inter> insert t ?A = {}"
      using t(2) by (auto simp: kheap.owned_def)
    obtain p s2 where al: "pmm_allocate_pages TASK_STACK_PAGES s1 = (p, s2)" by fastforce
    note i1 = heap_live_inv [OF live1(1)]
    show ?thesis
    proof (cases "p = 0")
      case True
      then have "s2 = s1" using pmm.al_fail [OF i1] al by simp
      moreover obtain s3 where s3: "kfree t s1 = Some s3" "kheap.owned V (insert t ?A - {t}) s3"
        using kheap.owned_fre [OF t(2)] by blast
      moreover have "insert t ?A - {t} = ?A" using t(1) by blast
      moreover obtain h where h: "s3 = s1\<lparr>hdr := h\<rparr>" using kfree_hdr [OF s3(1)] by blast
      moreover have m3: "page_mono s s3" "heap.more s3 = heap.more s"
        using page_mono_trans [OF m1 page_mono_hdr [OF i1, of h]] h1 h by simp_all
      ultimately have "sched_inv V s3" by (intro sched_inv_mono [OF inv q m3] res_ok_mono [OF res m3]) simp
      then show ?thesis using k(1) False al True \<open>s2 = s1\<close> s3(1) by (simp add: sched_create_kernel_task_def)
    next
      case p: False
      note a = alloc_pages_mono [OF i1 al]
      have h2: "heap.more s2 = heap.more s" using pmm_heap_more [OF allocate_pages_more [OF al]] h1 by simp
      have m2: "page_mono s s2" by (rule page_mono_trans [OF m1 a(1)])
      have own2: "kheap.owned V (insert t ?A) s2"
        using heap_live_alloc [OF live1(1) al] live1(2,3) unfolding kheap.owned_def by blast
      obtain U where U: "kheap.owned (V \<union> U) ?A s2"
        using kheap.owned_split [of V ?A "{t}" s2] own2 t(1) by (metis Int_insert_right Int_empty_right Un_insert_right Un_empty_right)
      note o2 = objs_more [OF h2] and f2 = heap_more_sched [OF h2]
      obtain mem where mem: "kernel_frame ks entry p s2 = s2\<lparr>kmem := mem\<rparr>"
        by (simp add: kernel_frame_def put_word_def zero_words_def Let_def)
      let ?k = "kernel_task name p (next_pid s)" and ?m = "s2\<lparr>kmem := mem\<rparr>"
      have e: "sched_create_kernel_task ks name entry s =
          map_option (Pair (int_of_pid (next_pid s))) (enqueue t (?m\<lparr>task_at := (task_at ?m)(t := ?k), next_pid := next_pid s + 1\<rparr>))"
        using k(1) False al p f2(6) mem by (simp add: sched_create_kernel_task_def Let_def)
      have kf: "t_fds ?k = 0" "t_state ?k = TASK_READY" "task_pages tb ?k = run_pages p TASK_STACK_PAGES" for tb
        using p by (simp_all add: kernel_task_def zero_task_def task_pages_kernel Let_def)
      have r2: "res_ok (V \<union> U) ?K s2" by (rule res_ok_mono [OF res m2 h2 U])
      have i2: "sched_inv (V \<union> U) s2" by (rule sched_inv_mono [OF inv q m2 h2 r2])
      have pg: "page_at s2 a \<and> \<not> heap_page s2 a" if "a \<in> set (task_pages (tab s2) ?k)" for a
        using a(3) [OF p, of a] that heap_page_at [OF live1(1), of a] unfolding kf a(2) by blast
      have dis: "set (task_pages (tab s2) ?k) \<inter> set (task_pages (tab s2) (task_at s2 d)) = {}" if "d \<in> ?K" for d
        using a(3) [OF p] page_mono_at [OF m1] res_okD(5) [OF res that] unfolding kf f2 by blast
      have "res_ok V (insert t ?K) (s2\<lparr>task_at := (task_at s2)(t := ?k)\<rparr>)"
        using res_ok_insert [OF r2 _ _ kf(1) pg dis] own2 t(1) unfolding o2 by blast
      moreover have "?m\<lparr>task_at := (task_at ?m)(t := ?k)\<rparr> = s2\<lparr>task_at := (task_at s2)(t := ?k)\<rparr>\<lparr>kmem := mem\<rparr>" by simp
      moreover have "held ?m rs ds = ?K" using f2(4) by (simp add: held_def)
      ultimately have r: "res_ok V (insert t (held ?m rs ds)) (?m\<lparr>task_at := (task_at ?m)(t := ?k)\<rparr>)"
        by (simp only: res_ok_sched_upd)
      have im: "sched_inv (V \<union> U) ?m" using i2 by (simp add: sched_inv_def queue_ok_def queue_pre_def held_def)
      have qm: "queue_ok ?m rs ds" using q unfolding queue_ok_def queue_pre_def by (simp add: f2)
      have tn: "t \<notin> held ?m rs ds" "t \<noteq> idle_task ?m"
      proof -
        show "t \<notin> held ?m rs ds" using t(1) f2(4) by (auto simp: held_def task_objs_def)
        have "static_addr s1 (idle_task s)" using inv m1 by (simp add: sched_inv_def static_addr_def page_mono_def)
        then show "t \<noteq> idle_task ?m" using kmalloc_not_static [OF live k(1) False] f2(4) by simp
      qed
      show ?thesis using enqueue_inv [OF im qm r tn False kf(2), of "next_pid s + 1"] unfolding e by auto
    qed
  qed
qed

lemma sched_create_rt_task_inv:
  assumes inv: "sched_inv V s"
  shows "\<exists>pid s'. sched_create_rt_task ks name entry prio s = Some (pid, s') \<and> sched_inv V s'"
proof -
  obtain pid s1 where c: "sched_create_kernel_task ks name entry s = Some (pid, s1)" "sched_inv V s1"
    using sched_create_kernel_task_inv [OF inv] by blast
  obtain rs ds where q: "queue_pre s1 rs ds" using c(2) by (auto simp: sched_inv_def queue_ok_def)
  obtain t where t: "sched_find_task (word_of_int pid) s1 = Some t"
    by (rule sched_find_task_queue [OF q, of "word_of_int pid"])
  have "sched_inv V (upd_task t (\<lambda>k. k\<lparr>t_priority := prio, t_base_priority := prio\<rparr>) s1)"
    unfolding upd_task_def by (rule sched_inv_map [OF c(2)]) (auto simp: same_res_def split: if_splits)
  then show ?thesis using c t by (simp add: sched_create_rt_task_def)
qed

lemma sched_init_inv:
  assumes live: "heap_live s V" and z: "next_pid s = 0" "dead_list s = 0" "idle_task s \<noteq> 0" "static_addr s (idle_task s)"
  shows "sched_inv V (sched_init s)"
proof -
  let ?s = "sched_init s"
  have q: "queue_ok ?s [idle_task s] []"
    using z by (simp add: queue_ok_def queue_pre_def run_queue_def sched_init_def Let_def)
  have r: "res_ok V (held ?s [idle_task s] []) ?s"
    using live by (simp add: res_ok_def held_def sched_init_def Let_def kheap.owned_none)
  have "static_addr ?s (idle_task ?s)" "t_pid (task_at ?s (idle_task ?s)) = 0"
    using z by (simp_all add: sched_init_def Let_def zero_task_def)
  then show ?thesis using q r unfolding sched_inv_def by blast
qed

section \<open>Any sequence of operations\<close>

datatype sched_op =
    Create "u8 list" u64
  | Create_rt "u8 list" u64 u8
  | Yield
  | Exit
  | Block
  | Sleep u64
  | Kill u64
  | Ready u64
  | Priority u64 u8
  | Tick

text \<open>The idle task never exits; a tick counts and wakes the sleepers.\<close>

fun sched_do :: "symbols \<Rightarrow> sched_op \<Rightarrow> 'a sched_scheme \<Rightarrow> 'a sched_scheme option" where
  "sched_do ks (Create name entry) s = map_option snd (sched_create_kernel_task ks name entry s)"
| "sched_do ks (Create_rt name entry p) s = map_option snd (sched_create_rt_task ks name entry p s)"
| "sched_do ks Yield s = yield s"
| "sched_do ks Exit s = (if current s = idle_task s then Some s else task_exit s)"
| "sched_do ks Block s = sched_block_current s"
| "sched_do ks (Sleep ms) s = sleep_ms ms s"
| "sched_do ks (Kill pid) s = map_option snd (sched_kill_task pid s)"
| "sched_do ks (Ready t) s = Some (sched_make_ready t s)"
| "sched_do ks (Priority t p) s = Some (sched_set_priority t p s)"
| "sched_do ks Tick s = sched_wake_sleepers (s\<lparr>tick_count := tick_count s + 1\<rparr>)"

fun sched_run :: "symbols \<Rightarrow> sched_op list \<Rightarrow> 'a sched_scheme \<Rightarrow> 'a sched_scheme option" where
  "sched_run ks [] s = Some s"
| "sched_run ks (x # xs) s = (case sched_do ks x s of None \<Rightarrow> None | Some s' \<Rightarrow> sched_run ks xs s')"

lemma map_snd_Some: "f = Some (rc, t) \<Longrightarrow> map_option snd f = Some t"
  by simp

lemma sched_do_inv:
  assumes inv: "sched_inv V s"
  shows "\<exists>s'. sched_do ks x s = Some s' \<and> sched_inv V s'"
proof (cases x)
  case (Create name entry)
  then show ?thesis using sched_create_kernel_task_inv [OF inv, of ks name entry] by (auto simp: map_snd_Some)
next
  case (Create_rt name entry p)
  then show ?thesis using sched_create_rt_task_inv [OF inv, of ks name entry p] by (auto simp: map_snd_Some)
next
  case (Kill pid)
  then show ?thesis using sched_kill_task_inv [OF inv, of pid] by (auto simp: map_snd_Some)
next
  case Exit
  then show ?thesis using task_exit_inv [OF inv] inv by simp
next
  case Tick
  have "sched_inv V (s\<lparr>tick_count := tick_count s + 1\<rparr>)" using inv by (simp add: sched_inv_def queue_ok_def queue_pre_def held_def)
  then show ?thesis using sched_wake_sleepers_inv by (simp add: Tick)
next
  case (Ready t)
  then show ?thesis using sched_make_ready_inv [OF inv] by simp
next
  case (Priority t p)
  then show ?thesis using sched_set_priority_inv [OF inv] by simp
next
  case Yield
  then show ?thesis using yield_inv [OF inv] by simp
next
  case Block
  then show ?thesis using sched_block_current_inv [OF inv] by simp
next
  case (Sleep ms)
  then show ?thesis using sleep_ms_inv [OF inv] by simp
qed

lemma sched_run_inv: "sched_inv V s \<Longrightarrow> \<exists>s'. sched_run ks xs s = Some s' \<and> sched_inv V s'"
proof (induction xs arbitrary: s)
  case (Cons x xs)
  obtain s1 where "sched_do ks x s = Some s1" "sched_inv V s1" using sched_do_inv [OF Cons.prems] by blast
  then show ?case using Cons.IH [of s1] by simp
qed simp

lemma sched_inv_idle_only:
  assumes inv: "sched_inv V s" and only: "t_next (task_at s (idle_task s)) = idle_task s" "dead_list s = 0"
  shows "heap_live s V"
proof -
  obtain rs ds where q: "queue_pre s rs ds" and res: "res_ok V (held s rs ds) s"
    using inv by (auto simp: sched_inv_def queue_ok_def)
  note d = queue_preD [OF q]
  obtain us vs where rs: "rs = us @ idle_task s # vs" "run_queue (task_at s) (idle_task s # vs @ us)"
    using run_queue_from [OF d(1,3)] by blast
  have "vs @ us = []" using rs(2) only(1) by (cases "vs @ us") (auto simp: run_queue_def)
  moreover have "ds = []" using d(5,7) only(2) by (cases ds) auto
  ultimately have "held s rs ds = {}" using rs(1) by (simp add: held_def)
  then show ?thesis using res_okD(1) [OF res] by (simp add: kheap.owned_none)
qed

section \<open>Round robin among equals\<close>

definition ready :: "(u64 \<Rightarrow> task) \<Rightarrow> u64 \<Rightarrow> bool" where
  "ready T t \<longleftrightarrow> t_state (T t) = TASK_READY \<or> t_state (T t) = TASK_RUNNING"

definition at_level :: "(u64 \<Rightarrow> task) \<Rightarrow> u8 \<Rightarrow> u64 \<Rightarrow> bool" where
  "at_level T p t \<longleftrightarrow> ready T t \<and> t_priority (T t) = p"

fun yields :: "nat \<Rightarrow> 'a sched_scheme \<Rightarrow> 'a sched_scheme option" where
  "yields 0 s = Some s"
| "yields (Suc n) s = (case yield s of None \<Rightarrow> None | Some s' \<Rightarrow> yields n s')"

text \<open>The current task is running at level \<open>p\<close>, no ready task is above it, and \<open>xs\<close> are the tasks of that level in queue order.\<close>

definition level_queue :: "(u64 \<times> u64) set \<Rightarrow> u8 \<Rightarrow> u64 list \<Rightarrow> 'a sched_scheme \<Rightarrow> bool" where
  "level_queue V p xs s \<longleftrightarrow> (\<exists>ts ds. queue_ok s (current s # ts) ds \<and> res_ok V (held s (current s # ts) ds) s \<and>
     t_state (task_at s (current s)) = TASK_RUNNING \<and> t_priority (task_at s (current s)) = p \<and>
     (\<forall>t \<in> set ts. ready (task_at s) t \<longrightarrow> t_priority (task_at s t) \<le> p) \<and>
     filter (at_level (task_at s) p) (current s # ts) = xs)"

lemma first_top_level:
  assumes "first_top T prev ts t" "\<And>u. u \<in> set ts \<Longrightarrow> runnable T prev u \<longleftrightarrow> ready T u"
    and "u0 \<in> set ts" "at_level T p u0" "\<And>u. u \<in> set ts \<Longrightarrow> ready T u \<Longrightarrow> t_priority (T u) \<le> p"
  obtains us vs where "ts = us @ t # vs" "at_level T p t" "filter (at_level T p) us = []"
proof -
  obtain us vs where u: "ts = us @ t # vs" "runnable T prev t"
      "\<forall>u \<in> set us. runnable T prev u \<longrightarrow> t_priority (T u) < t_priority (T t)"
    using assms(1) by (auto simp: first_top_def)
  have r: "ready T t" using u assms(2) [of t] by simp
  have "t_priority (T u0) \<le> t_priority (T t)"
    using first_top_max [OF assms(1,3)] assms(2) [OF assms(3)] assms(4) by (simp add: at_level_def)
  moreover have "t_priority (T t) \<le> p" using assms(5) [of t] u(1) r by simp
  ultimately have p: "t_priority (T t) = p" using assms(4) by (simp add: at_level_def)
  have "filter (at_level T p) us = []"
    using u(1,3) p assms(2) by (fastforce simp: filter_empty_conv at_level_def)
  then show ?thesis using that u(1) r p by (simp add: at_level_def)
qed

lemma level_queue_yield:
  assumes "level_queue V p xs s"
  shows "\<exists>s'. yield s = Some s' \<and> level_queue V p (rotate1 xs) s' \<and> current s' = hd (rotate1 xs)"
proof -
  let ?T = "task_at s" and ?p = "current s"
  obtain ts ds where q: "queue_ok s (?p # ts) ds" "res_ok V (held s (?p # ts) ds) s" "t_state (?T ?p) = TASK_RUNNING"
      "t_priority (?T ?p) = p" "\<And>t. t \<in> set ts \<Longrightarrow> ready ?T t \<Longrightarrow> t_priority (?T t) \<le> p"
      "filter (at_level ?T p) (?p # ts) = xs"
    using assms by (auto simp: level_queue_def)
  have q': "queue_pre s (?p # ts) ds" using q(1) by (simp add: queue_ok_def)
  note d = queue_preD [OF q']
  have lp: "at_level ?T p ?p" using q(3,4) by (simp add: at_level_def ready_def)
  obtain s' where s': "schedule s = Some s'" "chosen ?T ?p (idle_task s) (ts @ [?p]) (current s')"
      "queue_ok s' (?p # ts) []" "res_ok V (held s' (?p # ts) []) s'" "idle_task s' = idle_task s"
      "\<And>t. t_state (task_at s' t) = next_state ?T ?p (current s') t" "\<And>t. only_moved (?T t) (task_at s' t)"
    using schedule_ok [OF q' q(2)] q(3) by auto
  have run: "runnable ?T ?p u \<longleftrightarrow> ready ?T u" if "u \<in> set (ts @ [?p])" for u
    using d(8) [of u] that by (auto simp: runnable_def ready_def)
  have top: "first_top ?T ?p (ts @ [?p]) (current s')"
    using s'(2) run lp by (auto simp: chosen_def at_level_def split: if_splits)
  have le: "t_priority (?T u) \<le> p" if "u \<in> set (ts @ [?p])" "ready ?T u" for u using that q(4,5) by auto
  obtain us vs where uv: "ts @ [?p] = us @ current s' # vs" "at_level ?T p (current s')" "filter (at_level ?T p) us = []"
    by (rule first_top_level [OF top run _ lp le]) simp_all
  have "run_queue (task_at s') (us @ current s' # vs)"
    using run_queue_rotate [of "task_at s'" "[?p]" ts] s'(3) uv(1) by (simp add: queue_ok_def queue_pre_def)
  then have rq: "run_queue (task_at s') (current s' # vs @ us)" using run_queue_rotate [of "task_at s'" us "current s' # vs"] by simp
  have set: "set (current s' # vs @ us) = set (?p # ts)" "distinct (current s' # vs @ us) = distinct (?p # ts)"
    using arg_cong [OF uv(1), of set] arg_cong [OF uv(1), of distinct] by auto
  have qs: "queue_ok s' (current s' # vs @ us) []"
    using s'(3) rq unfolding queue_ok_def queue_pre_def append_Nil2 set by simp
  have lv: "at_level (task_at s') p t = at_level ?T p t" "ready (task_at s') t = ready ?T t" if "t \<in> set (?p # ts)" for t
  proof -
    show r: "ready (task_at s') t = ready ?T t"
      using uv(2) q(3) unfolding ready_def s'(6) next_state_def by (auto simp: at_level_def ready_def)
    then show "at_level (task_at s') p t = at_level ?T p t" using only_movedD(2) [OF s'(7)] by (simp add: at_level_def)
  qed
  have "filter (at_level (task_at s') p) (current s' # vs @ us) = filter (at_level ?T p) (current s' # vs @ us)"
    by (rule filter_cong) (use lv(1) set(1) in blast)+
  also have "\<dots> = rotate1 xs"
    using uv(2,3) arg_cong [OF uv(1), of "filter (at_level ?T p)"] q(6) lp by auto
  finally have f: "filter (at_level (task_at s') p) (current s' # vs @ us) = rotate1 xs" .
  moreover have "at_level (task_at s') p (current s')" using lv(1) uv(2) set(1) by auto
  ultimately have "current s' = hd (rotate1 xs)" by (metis filter.simps(2) list.sel(1))
  moreover have "level_queue V p (rotate1 xs) s'"
    unfolding level_queue_def
  proof (intro exI conjI ballI impI)
    show "queue_ok s' (current s' # vs @ us) []" by (rule qs)
    show "res_ok V (held s' (current s' # vs @ us) []) s'" using s'(4) unfolding held_def set .
    show "t_state (task_at s' (current s')) = TASK_RUNNING" unfolding s'(6) next_state_def by simp
    show "t_priority (task_at s' (current s')) = p" using only_movedD(2) [OF s'(7)] uv(2) by (simp add: at_level_def)
    show "filter (at_level (task_at s') p) (current s' # vs @ us) = rotate1 xs" by (rule f)
    show "t_priority (task_at s' t) \<le> p" if "t \<in> set (vs @ us)" "ready (task_at s') t" for t
    proof -
      have "t \<in> set (current s' # vs @ us)" using that(1) by simp
      then have "t \<in> set (?p # ts)" unfolding set(1) .
      then show ?thesis using le [of t] lv(2) [of t] that(2) only_movedD(2) [OF s'(7), of t] by simp
    qed
  qed
  ultimately show ?thesis using s'(1) by (auto simp: yield_def)
qed

lemma level_queue_yields:
  "level_queue V p xs s \<Longrightarrow> \<exists>s'. yields n s = Some s' \<and> level_queue V p (rotate n xs) s'"
proof (induction n arbitrary: xs s)
  case (Suc n)
  obtain s1 where "yield s = Some s1" "level_queue V p (rotate1 xs) s1" using level_queue_yield [OF Suc.prems] by blast
  then show ?case using Suc.IH [of "rotate1 xs" s1] by (simp add: rotate1_rotate_swap [symmetric])
qed simp

lemma level_queue_current: "level_queue V p xs s \<Longrightarrow> xs \<noteq> [] \<and> current s = hd xs"
  by (auto simp: level_queue_def at_level_def ready_def)

section \<open>Properties\<close>

text \<open>A concrete scheduler: the initialised heap and an empty file tree, the idle task in the kernel image.\<close>

definition demo_symbols :: symbols where
  "demo_symbols = \<lparr>text_start = 0xFFFF000040000000, user_text_end = 0xFFFF000040001000, task_trampoline = 0xFFFF000040000800,
     kernel_task_trampoline = 0xFFFF000040000900, fork_return = 0xFFFF000040000A00\<rparr>"

definition demo_sched :: sched where
  "demo_sched = sched_init (vfs.extend (vfs.truncate demo_vfs)
     \<lparr>task_at = (\<lambda>_. zero_task), idle_task = 0xFFFF000040001000, current = 0, next_pid = 0, dead_list = 0, next_asid = 1,
      kmem = (\<lambda>_. 0), tick_count = 0\<rparr>)"

lemma demo_reserved: "0x40001000 \<in> reserved_bytes demo_heap"
proof -
  obtain q t where al: "pmm_allocate_pages 256 demo_boot = (q, t)" by fastforce
  have "reserved_bytes demo_heap = reserved_bytes t"
    by (simp add: demo_heap_def heap_init_def al register_region_def Let_def)
  also have "\<dots> = reserved_bytes demo_boot"
    using alloc_pages_mono(1) [OF demo_boot_inv(1) al] by (simp add: page_mono_def)
  finally have "reserved_bytes demo_heap = (\<Union>n \<in> {..<3}. page_bytes demo_boot n)" by (simp add: reserved_bytes_def demo_boot_fields)
  moreover have "0x40001000 \<in> page_bytes demo_boot 1" by (simp add: page_bytes_def demo_boot_fields)
  ultimately show ?thesis by force
qed

lemma demo_sched_inv: "sched_inv {} demo_sched"
  unfolding demo_sched_def
proof (rule sched_init_inv)
  let ?s = "vfs.extend (vfs.truncate demo_vfs)
     \<lparr>task_at = (\<lambda>_. zero_task), idle_task = 0xFFFF000040001000, current = 0, next_pid = 0, dead_list = 0, next_asid = (1 :: u16),
      kmem = (\<lambda>_. 0 :: u64), tick_count = 0\<rparr> :: sched"
  have "heap_live ?s {} = heap_live demo_vfs {}"
    by (rule heap_live_cong) (simp_all add: vfs.defs)
  then show "heap_live ?s {}" using demo_vfs_ok(1) by simp
  have "reserved_bytes ?s = reserved_bytes demo_heap"
    by (simp add: reserved_bytes_def page_bytes_def vfs.defs demo_vfs_def vfs_init_def alloc_vnode_def)
  then show "static_addr ?s (idle_task ?s)" using demo_reserved by (simp add: static_addr_def vfs.defs)
qed (simp_all add: vfs.defs)

text \<open>C18: The choice of \<open>schedule\<close>.  With the current task at the head of the queue,
  \<open>schedule\<close> returns and the processor goes to the first task of the highest priority
  among the runnable ones in queue order after the current task, or to the idle task
  when none is runnable.  Only that task is running afterwards, the outgoing task is
  ready again unless it blocked, a dead one has left the queue for the list of the
  dead, whatever was on that list has been released, and nothing else about any task
  changed.\<close>

theorem schedule_correct:
  assumes "queue_pre s (current s # ts) ds" "res_ok V (held s (current s # ts) ds) s"
  shows "\<exists>s'. schedule s = Some s' \<and> chosen (task_at s) (current s) (idle_task s) (ts @ [current s]) (current s') \<and>
    (\<forall>t. t_state (task_at s' t) = next_state (task_at s) (current s) (current s') t \<and> only_moved (task_at s t) (task_at s' t)) \<and>
    (let dead = t_state (task_at s (current s)) = TASK_DEAD;
         rs' = (if dead then ts else current s # ts);
         ds' = (if dead then [current s] else [])
     in queue_ok s' rs' ds' \<and> res_ok V (held s' rs' ds') s')"
  using schedule_ok [OF assms] unfolding Let_def by blast

theorem schedule_correct_witness:
  "\<exists>s'. schedule demo_sched = Some s' \<and>
    chosen (task_at demo_sched) (current demo_sched) (idle_task demo_sched) ([] @ [current demo_sched]) (current s') \<and>
    (\<forall>t. t_state (task_at s' t) = next_state (task_at demo_sched) (current demo_sched) (current s') t \<and>
      only_moved (task_at demo_sched t) (task_at s' t)) \<and>
    (let dead = t_state (task_at demo_sched (current demo_sched)) = TASK_DEAD;
         rs' = (if dead then [] else current demo_sched # []);
         ds' = (if dead then [current demo_sched] else [])
     in queue_ok s' rs' ds' \<and> res_ok {} (held s' rs' ds') s')"
proof (rule schedule_correct)
  have f: "current demo_sched = idle_task demo_sched" "dead_list demo_sched = 0" "idle_task demo_sched \<noteq> 0"
      "t_next (task_at demo_sched (idle_task demo_sched)) = idle_task demo_sched"
      "t_state (task_at demo_sched (idle_task demo_sched)) = TASK_READY"
    by (simp_all add: demo_sched_def sched_init_def vfs.defs)
  show "queue_pre demo_sched (current demo_sched # []) []"
    using f by (simp add: queue_pre_def run_queue_def)
  have "heap_live demo_sched {}" by (rule sched_inv_idle_only [OF demo_sched_inv]) (use f in simp_all)
  then show "res_ok {} (held demo_sched (current demo_sched # []) []) demo_sched"
    using f by (simp add: held_def res_ok_def kheap.owned_none)
qed



text \<open>C22: Round robin.  Let the current task run at a priority above which no task is
  ready, and let \<open>xs\<close> be the ready tasks of that priority in queue order.  As long as tasks only
  yield, each of them gets the processor within as many yields as there are tasks of
  that priority.\<close>

theorem round_robin_liveness:
  assumes "level_queue V p xs s" "t \<in> set xs"
  shows "\<exists>n < length xs. \<exists>s'. yields n s = Some s' \<and> current s' = t \<and> level_queue V p (rotate n xs) s'"
proof -
  obtain n where n: "n < length xs" "xs ! n = t" using assms(2) by (auto simp: in_set_conv_nth)
  obtain s' where s': "yields n s = Some s'" "level_queue V p (rotate n xs) s'" using level_queue_yields [OF assms(1)] by blast
  have "current s' = t" using level_queue_current [OF s'(2)] hd_rotate_conv_nth [of xs n] n by (cases xs) auto
  then show ?thesis using s' n(1) by blast
qed

text \<open>Two tasks of equal priority beside the idle task, the first running.\<close>

definition demo_heap2 :: heap where
  "demo_heap2 = (let s = demo_heap\<lparr>hdr := take_block 0xFFFF000040003000 1024 (hdr demo_heap)\<rparr>
     in s\<lparr>hdr := take_block 0xFFFF000040003420 1024 (hdr s)\<rparr>)"

definition demo_two_tasks :: sched where
  "demo_two_tasks = demo_sched\<lparr>hdr := hdr demo_heap2, current := 0xFFFF000040003020, task_at := (task_at demo_sched)
     (0xFFFF000040001000 := zero_task\<lparr>t_next := 0xFFFF000040003020\<rparr>,
      0xFFFF000040003020 := zero_task\<lparr>t_state := TASK_RUNNING, t_priority := 8, t_next := 0xFFFF000040003440, t_pid := 1\<rparr>,
      0xFFFF000040003440 := zero_task\<lparr>t_priority := 8, t_next := 0xFFFF000040001000, t_pid := 2\<rparr>)\<rparr>"

lemma demo_heap2_live: "heap_live demo_heap2 {(0xFFFF000040003020, 1024), (0xFFFF000040003440, 1024)}"
proof -
  let ?b1 = "[(0xFFFF000040003000, 1024, False), (0xFFFF000040003420, 0xFFBC0, True)] :: ablock list"
  let ?b2 = "[(0xFFFF000040003000, 1024, False), (0xFFFF000040003420, 1024, False), (0xFFFF000040003840, 0xFF7A0, True)] :: ablock list"
  have "alloc_blocks 1024 demo_blocks = Some (0xFFFF000040003000, ?b1)" by code_simp
  then have r1: "heap_rep (demo_heap\<lparr>hdr := take_block 0xFFFF000040003000 1024 (hdr demo_heap)\<rparr>) ?b1"
    by (intro take_block_rep [OF demo_heap_rep]) simp_all
  have "alloc_blocks 1024 ?b1 = Some (0xFFFF000040003420, ?b2)" by code_simp
  from take_block_rep [OF r1 _ this] have "heap_rep demo_heap2 ?b2" by (simp add: demo_heap2_def Let_def)
  moreover have "live ?b2 = {(0xFFFF000040003020, 1024), (0xFFFF000040003440, 1024)}" by (simp add: live_simps)
  ultimately show ?thesis unfolding heap_live_def by blast
qed

text \<open>Two tasks that hold nothing but their structures.\<close>

lemma demo_pair_res:
  assumes "heap_live s {(a, 1024), (b, 1024)}" "a \<noteq> b" "same_res (task_at s a) zero_task" "same_res (task_at s b) zero_task"
  shows "res_ok {} {a, b} s"
proof -
  have own: "kheap.owned {} {a, b} s"
    unfolding kheap.owned_def using assms(1) by (intro exI [of _ "{(a, 1024), (b, 1024)}"]) simp
  have z: "t_fds (task_at s t) = 0" "t_stack_phys (task_at s t) = 0" "t_ustack_phys (task_at s t) = 0" "t_stack_grown (task_at s t) = []"
      "t_ttbr0 (task_at s t) = 0" "t_exec_image (task_at s t) = \<lparr>e_entry = 0, e_regions = []\<rparr>" if "t = a \<or> t = b" for t
    using that assms(3,4) by (auto simp: same_res_def zero_task_def)
  have "task_objs s t = {t}" "fds_ok s t" "task_pages tb (task_at s t) = []" if "t = a \<or> t = b" for t tb
    using z [OF that] by (simp_all add: task_objs_def fds_ok_def task_pages_def)
  then show ?thesis unfolding res_ok_def using own assms(2) by (auto simp: insert_commute)
qed

lemma demo_two_tasks_level: "level_queue {} 8 [0xFFFF000040003020, 0xFFFF000040003440] demo_two_tasks"
proof -
  let ?s = demo_two_tasks and ?i = "0xFFFF000040001000 :: u64" and ?a = "0xFFFF000040003020 :: u64" and ?b = "0xFFFF000040003440 :: u64"
  have f: "current ?s = ?a" "idle_task ?s = ?i" "dead_list ?s = 0" "task_at ?s ?i = zero_task\<lparr>t_next := ?a\<rparr>"
      "task_at ?s ?a = zero_task\<lparr>t_state := TASK_RUNNING, t_priority := 8, t_next := ?b, t_pid := 1\<rparr>"
      "task_at ?s ?b = zero_task\<lparr>t_priority := 8, t_next := ?i, t_pid := 2\<rparr>"
    by (simp_all add: demo_two_tasks_def demo_sched_def sched_init_def vfs.defs)
  have "heap_live ?s {(?a, 1024), (?b, 1024)} = heap_live demo_heap2 {(?a, 1024), (?b, 1024)}"
    by (rule heap_live_cong)
      (simp_all add: demo_two_tasks_def demo_sched_def sched_init_def vfs.defs demo_vfs_def vfs_init_def alloc_vnode_def demo_heap2_def Let_def)
  then have live: "heap_live ?s {(?a, 1024), (?b, 1024)}" using demo_heap2_live by simp
  have q: "queue_ok ?s (current ?s # [?b, ?i]) []"
    by (simp add: queue_ok_def queue_pre_def run_queue_def f zero_task_def)
  have h: "held ?s (current ?s # [?b, ?i]) [] = {?a, ?b}" by (auto simp: held_def f)
  have r: "res_ok {} (held ?s (current ?s # [?b, ?i]) []) ?s"
    unfolding h by (rule demo_pair_res [OF live]) (simp_all add: f same_res_def)
  show ?thesis
    unfolding level_queue_def using q r by (intro exI [of _ "[?b, ?i]"] exI [of _ "[]"]) (simp add: f at_level_def ready_def zero_task_def)
qed

theorem round_robin_liveness_witness:
  "\<exists>n < length [0xFFFF000040003020, 0xFFFF000040003440 :: u64]. \<exists>s'. yields n demo_two_tasks = Some s' \<and> current s' = 0xFFFF000040003440 \<and>
    level_queue {} 8 (rotate n [0xFFFF000040003020, 0xFFFF000040003440]) s'"
  by (rule round_robin_liveness [OF demo_two_tasks_level]) simp

section \<open>Address space identifiers\<close>

fun asids :: "nat \<Rightarrow> 'a sched_scheme \<Rightarrow> u16 list" where
  "asids 0 s = []"
| "asids (Suc n) s = (let (a, s') = sched_asid_alloc s in a # asids n s')"

lemma asid_step:
  assumes "next_asid s = of_nat (1 + m mod 65535)"
  shows "fst (sched_asid_alloc s) = of_nat (1 + m mod 65535)" "next_asid (snd (sched_asid_alloc s)) = of_nat (1 + Suc m mod 65535)"
proof -
  show "fst (sched_asid_alloc s) = of_nat (1 + m mod 65535)" using assms by (simp add: sched_asid_alloc_def Let_def)
  have lt: "m mod 65535 < 65535" by simp
  have z: "of_nat (1 + m mod 65535) + 1 = (0 :: u16) \<longleftrightarrow> m mod 65535 = 65534"
  proof -
    have "of_nat (1 + m mod 65535) + 1 = (of_nat (2 + m mod 65535) :: u16)" by simp
    moreover have "(of_nat k :: u16) = 0 \<longleftrightarrow> 65536 dvd k" for k by (simp add: word_of_nat_eq_0_iff)
    moreover have "65536 dvd 2 + r \<longleftrightarrow> r = 65534" if "r < 65535" for r :: nat
    proof
      assume "65536 dvd 2 + r"
      then obtain k where k: "2 + r = 65536 * k" by (auto elim: dvdE)
      then have "0 < k" "65536 * k < 65536 * 2" using that by (cases k, auto)
      then have "k = 1" by simp
      then show "r = 65534" using k by simp
    qed simp
    ultimately show ?thesis using lt by metis
  qed
  show "next_asid (snd (sched_asid_alloc s)) = of_nat (1 + Suc m mod 65535)"
  proof (cases "m mod 65535 = 65534")
    case True
    then have "Suc m mod 65535 = 0" by (simp add: mod_Suc)
    then show ?thesis using True z assms by (simp add: sched_asid_alloc_def Let_def)
  next
    case False
    then have "Suc m mod 65535 = Suc (m mod 65535)" by (simp add: mod_Suc)
    then show ?thesis using False z assms by (simp add: sched_asid_alloc_def Let_def)
  qed
qed

lemma asids_closed: "next_asid s = of_nat (1 + m mod 65535) \<Longrightarrow> asids n s = map (\<lambda>i. of_nat (1 + i mod 65535)) [m..<m + n]"
proof (induction n arbitrary: s m)
  case (Suc n)
  then show ?case
    using asid_step [OF Suc.prems] Suc.IH [of "snd (sched_asid_alloc s)" "Suc m"]
    by (simp add: upt_conv_Cons case_prod_beta del: upt_Suc)
qed simp

lemma mod_window_inj: "inj_on (\<lambda>i. i mod k) {m..<m + k :: nat}"
proof (rule inj_onI)
  fix x y
  assume xy: "x \<in> {m..<m + k}" "y \<in> {m..<m + k}" "x mod k = y mod k"
  have "x = y" if xy: "x \<le> y" "x \<in> {m..<m + k}" "y \<in> {m..<m + k}" "x mod k = y mod k" for x y
  proof -
    obtain q where "y = x + q * k" using xy(1,4) by (metis mod_eq_dvd_iff_nat dvd_def le_add_diff_inverse mult.commute)
    moreover have "y < x + k" using xy(2,3) by auto
    ultimately show ?thesis by (cases q) auto
  qed
  then show "x = y" using xy by (metis nle_le)
qed

text \<open>The ASID allocator.  From a nonzero counter it never hands out 0, and any 65535
  consecutive allocations hand out pairwise different identifiers, across the wrap
  of the 16-bit counter included.\<close>

theorem asid_alloc_distinct:
  assumes "next_asid s \<noteq> 0" "n \<le> 65535"
  shows "0 \<notin> set (asids n s) \<and> distinct (asids n s)"
proof -
  let ?f = "\<lambda>i. of_nat (1 + i mod 65535) :: u16"
  have "unat (of_nat (1 + r) :: u16) = 1 + r" if "r < 65535" for r using that by (subst unat_of_nat) simp
  then have u: "unat (?f i) = 1 + i mod 65535" for i by simp
  define m where "m = unat (next_asid s) - 1"
  have "unat (next_asid s) < 65536" "unat (next_asid s) \<noteq> 0" using assms(1) unat_lt_16 [of "next_asid s"] by (auto simp: unat_eq_zero)
  then have "m < 65535" "unat (next_asid s) = 1 + m" by (auto simp: m_def)
  then have "next_asid s = ?f m" using u [of m] by (simp add: word_unat_eq_iff)
  then have a: "asids n s = map ?f [m..<m + n]" by (rule asids_closed)
  have "inj_on ?f {m..<m + n}"
  proof (rule inj_onI)
    fix x y
    assume xy: "x \<in> {m..<m + n}" "y \<in> {m..<m + n}" "?f x = ?f y"
    then have "x mod 65535 = y mod 65535" using u [of x] u [of y] by simp
    moreover have "{m..<m + n} \<subseteq> {m..<m + 65535}" using assms(2) by auto
    ultimately show "x = y" using inj_onD [OF mod_window_inj [of 65535 m], of x y] xy(1,2) by blast
  qed
  moreover have "?f i \<noteq> 0" for i using u [of i] by (metis One_nat_def plus_1_eq_Suc unat_0 nat.distinct(1))
  ultimately show ?thesis unfolding a by (auto simp: distinct_map)
qed

theorem asid_alloc_distinct_witness: "0 \<notin> set (asids 3 demo_sched) \<and> distinct (asids 3 demo_sched)"
  by (rule asid_alloc_distinct) (simp_all add: demo_sched_def sched_init_def vfs.defs)

end
