(* ===== verification/Rtos.thy ===== *)
theory Rtos
  imports Sched_Inv
begin

text \<open>
  The real-time extension, \<^verbatim>\<open>src/sched/rtos.c\<close>: periodic tasks with release times in
  counter cycles, deadline accounting, and mutexes and semaphores whose wait
  queues are threaded through the task structures, with priority inheritance along the
  chain of owners.  The value of the hardware counter at a call is a
  parameter.  Masking interrupts has no state.  What a task does after
  \<open>schedule\<close> returns to it is the definition with the suffix \<open>_resume\<close>.
\<close>

section \<open>State\<close>

record rt_mutex =
  m_owner :: u64
  m_waiters :: u64
  m_locked :: bool

record rt_sem =
  sem_count :: int
  sem_waiters :: u64

record rtos = sched +
  mutex_at :: "u64 \<Rightarrow> rt_mutex"
  sem_at :: "u64 \<Rightarrow> rt_sem"
  timer_freq :: u64
  rt_demo_started :: bool
  pi_demo_started :: bool

definition bytes :: "string \<Rightarrow> u8 list" where
  "bytes cs = map of_char cs"

section \<open>Periodic tasks\<close>

definition us_to_cyc :: "u64 \<Rightarrow> u64 \<Rightarrow> u64" where
  "us_to_cyc freq us = us * freq div 1000000"

definition cyc_to_us :: "u64 \<Rightarrow> u64 \<Rightarrow> u64" where
  "cyc_to_us freq cyc = (if freq \<noteq> 0 then cyc * 1000000 div freq else 0)"

definition rt_create_periodic ::
  "symbols \<Rightarrow> u8 list \<Rightarrow> u64 \<Rightarrow> u8 \<Rightarrow> u64 \<Rightarrow> u64 \<Rightarrow> u64 \<Rightarrow> 'a rtos_scheme \<Rightarrow> (int \<times> 'a rtos_scheme) option" where
  "rt_create_periodic ks name entry prio period_us deadline_us now s =
    (case sched_create_rt_task ks name entry prio s of
       None \<Rightarrow> None
     | Some (pid, s1) \<Rightarrow>
        if pid < 0 then Some (-1, s1)
        else (case sched_find_task (word_of_int pid) s1 of
                None \<Rightarrow> None
              | Some t \<Rightarrow>
                 if t = 0 then Some (-1, s1)
                 else let period = us_to_cyc (timer_freq s1) period_us;
                          deadline = (if deadline_us \<noteq> 0 then us_to_cyc (timer_freq s1) deadline_us else period)
                      in Some (pid, upd_task t (\<lambda>k. k\<lparr>t_rt_period := period, t_rt_deadline := deadline, t_rt_release := now,
                           t_rt_next_release := now + period, t_rt_activations := 1\<rparr>) s1)))"

text \<open>The accounting at the end of a job.\<close>

definition end_job :: "u64 \<Rightarrow> task \<Rightarrow> task" where
  "end_job now k =
    (let resp = now - t_rt_release k; k1 = k\<lparr>t_rt_last_resp := resp\<rparr>
     in if t_rt_activations k > 1
        then k1\<lparr>t_rt_wcrt := (if resp > t_rt_wcrt k then resp else t_rt_wcrt k),
                t_rt_misses := (if resp > t_rt_deadline k then t_rt_misses k + 1 else t_rt_misses k)\<rparr>
        else k1)"

definition rt_wait_next_period :: "u64 \<Rightarrow> 'a rtos_scheme \<Rightarrow> 'a rtos_scheme option" where
  "rt_wait_next_period now s =
    (if t_rt_period (task_at s (current s)) = 0 then Some s
     else schedule (upd_task (current s) (\<lambda>k. (end_job now k)\<lparr>t_state := TASK_SLEEPING\<rparr>) s))"

text \<open>What a timer interrupt does to one task, and the earliest pending release.\<close>

definition release :: "u64 \<Rightarrow> task \<Rightarrow> task" where
  "release now k =
    (if t_rt_period k > 0 \<and> now \<ge> t_rt_next_release k
     then (if t_state k = TASK_SLEEPING
           then k\<lparr>t_rt_release := t_rt_next_release k, t_state := TASK_READY, t_rt_activations := t_rt_activations k + 1,
                  t_rt_next_release := t_rt_next_release k + t_rt_period k\<rparr>
           else k\<lparr>t_rt_misses := t_rt_misses k + 1, t_rt_next_release := t_rt_next_release k + t_rt_period k\<rparr>)
     else k)"

definition sooner :: "task \<Rightarrow> u64 \<Rightarrow> u64" where
  "sooner k earliest =
    (if t_rt_period k > 0 \<and> (earliest = 0 \<or> t_rt_next_release k < earliest) then t_rt_next_release k else earliest)"

partial_function (option) release_from ::
  "u64 \<Rightarrow> u64 \<Rightarrow> u64 \<Rightarrow> u64 \<Rightarrow> (u64 \<Rightarrow> task) \<Rightarrow> (u64 \<times> (u64 \<Rightarrow> task)) option" where
  "release_from now head t earliest T =
    (let k = release now (T t); T1 = T(t := k); e1 = sooner k earliest; t1 = t_next k
     in if t1 = head then Some (e1, T1) else release_from now head t1 e1 T1)"

definition rt_tick_release :: "u64 \<Rightarrow> 'a rtos_scheme \<Rightarrow> (u64 \<times> 'a rtos_scheme) option" where
  "rt_tick_release now s =
    map_option (\<lambda>(e, T). (e, s\<lparr>task_at := T\<rparr>)) (release_from now (idle_task s) (idle_task s) 0 (task_at s))"

section \<open>Statistics\<close>

definition stats_header :: "u8 list" where
  "stats_header = bytes ''NAME       PRIO PERIOD(us) ACT   WCRT(us) LAST(us) MISS'' @ [0x0A]"

definition stats_format :: "u8 list" where
  "stats_format = bytes ''%s  p%d  %u  %u  %u  %u  %u'' @ [0x0A]"

text \<open>The bytes one task adds when \<open>room\<close> bytes are left; the line buffer holds 128.\<close>

definition stats_line :: "u64 \<Rightarrow> task \<Rightarrow> nat \<Rightarrow> u8 list option" where
  "stats_line freq k room =
    (if t_rt_period k > 0 \<and> 0 < room
     then case ksnprintf (replicate 128 0) 128 stats_format
            [AStr (Some (t_name k)), AInt (ucast (t_base_priority k)), AInt (cyc_to_us freq (t_rt_period k)), AInt (ucast (t_rt_activations k)),
             AInt (cyc_to_us freq (t_rt_wcrt k)), AInt (cyc_to_us freq (t_rt_last_resp k)), AInt (ucast (t_rt_misses k))] of
            None \<Rightarrow> None
          | Some (line, n) \<Rightarrow> Some (if n > 0 then take (if n > int room then room else nat n) line else [])
     else Some [])"

partial_function (option) stats_from :: "u64 \<Rightarrow> (u64 \<Rightarrow> task) \<Rightarrow> u64 \<Rightarrow> u64 \<Rightarrow> nat \<Rightarrow> u8 list \<Rightarrow> u8 list option" where
  "stats_from freq T head t len acc =
    (case stats_line freq (T t) (len - length acc) of
       None \<Rightarrow> None
     | Some line \<Rightarrow> if t_next (T t) = head then Some (acc @ line) else stats_from freq T head (t_next (T t)) len (acc @ line))"

definition rt_render_stats :: "nat \<Rightarrow> 'a rtos_scheme \<Rightarrow> u8 list option" where
  "rt_render_stats len s = stats_from (timer_freq s) (task_at s) (idle_task s) (idle_task s) len (take len stats_header)"

section \<open>Wait queues and priority inheritance\<close>

partial_function (option) wq_find :: "(u64 \<Rightarrow> task) \<Rightarrow> u8 \<Rightarrow> u64 \<Rightarrow> u64 option" where
  "wq_find T prio p =
    (if t_wait_next (T p) \<noteq> 0 \<and> t_priority (T (t_wait_next (T p))) \<ge> prio then wq_find T prio (t_wait_next (T p)) else Some p)"

definition wq_insert :: "u64 \<Rightarrow> u64 \<Rightarrow> (u64 \<Rightarrow> task) \<Rightarrow> (u64 \<times> (u64 \<Rightarrow> task)) option" where
  "wq_insert head me T0 =
    (let T = T0(me := (T0 me)\<lparr>t_wait_next := 0\<rparr>) in
     if head = 0 \<or> t_priority (T me) > t_priority (T head)
     then Some (me, T(me := (T me)\<lparr>t_wait_next := head\<rparr>))
     else case wq_find T (t_priority (T me)) head of
            None \<Rightarrow> None
          | Some p \<Rightarrow>
             (let T1 = T(me := (T me)\<lparr>t_wait_next := t_wait_next (T p)\<rparr>)
              in Some (head, T1(p := (T1 p)\<lparr>t_wait_next := me\<rparr>))))"

fun pi_loop :: "nat \<Rightarrow> (u64 \<Rightarrow> rt_mutex) \<Rightarrow> u64 \<Rightarrow> u8 \<Rightarrow> (u64 \<Rightarrow> task) \<Rightarrow> u64 \<Rightarrow> task" where
  "pi_loop 0 M owner prio T = T"
| "pi_loop (Suc d) M owner prio T =
    (if owner = 0 \<or> prio \<le> t_priority (T owner) then T
     else let T1 = T(owner := (T owner)\<lparr>t_priority := prio\<rparr>); bm = t_blocked_on (T1 owner)
          in if bm = 0 then T1 else pi_loop d M (m_owner (M bm)) prio T1)"

definition pi_propagate :: "u64 \<Rightarrow> u8 \<Rightarrow> 'a rtos_scheme \<Rightarrow> 'a rtos_scheme" where
  "pi_propagate owner prio s = s\<lparr>task_at := pi_loop 8 (mutex_at s) owner prio (task_at s)\<rparr>"

section \<open>Mutexes\<close>

definition upd_mutex :: "u64 \<Rightarrow> (rt_mutex \<Rightarrow> rt_mutex) \<Rightarrow> 'a rtos_scheme \<Rightarrow> 'a rtos_scheme" where
  "upd_mutex m f s = s\<lparr>mutex_at := (mutex_at s)(m := f (mutex_at s m))\<rparr>"

definition rt_mutex_init :: "u64 \<Rightarrow> 'a rtos_scheme \<Rightarrow> 'a rtos_scheme" where
  "rt_mutex_init m s = upd_mutex m (\<lambda>_. \<lparr>m_owner = 0, m_waiters = 0, m_locked = False\<rparr>) s"

text \<open>The state when a contended caller is about to give up the processor.\<close>

definition mutex_enqueue :: "u64 \<Rightarrow> 'a rtos_scheme \<Rightarrow> 'a rtos_scheme option" where
  "mutex_enqueue m s =
    (let me = current s; s1 = upd_task me (\<lambda>k. k\<lparr>t_blocked_on := m\<rparr>) s in
     case wq_insert (m_waiters (mutex_at s1 m)) me (task_at s1) of
       None \<Rightarrow> None
     | Some (h, T) \<Rightarrow>
        (let s2 = upd_mutex m (\<lambda>x. x\<lparr>m_waiters := h\<rparr>) (s1\<lparr>task_at := T\<rparr>);
             s3 = pi_propagate (m_owner (mutex_at s2 m)) (t_priority (task_at s2 me)) s2
         in Some (upd_task me (\<lambda>k. k\<lparr>t_state := TASK_BLOCKED\<rparr>) s3)))"

definition rt_mutex_lock :: "u64 \<Rightarrow> 'a rtos_scheme \<Rightarrow> 'a rtos_scheme option" where
  "rt_mutex_lock m s =
    (if \<not> m_locked (mutex_at s m) then Some (upd_mutex m (\<lambda>x. x\<lparr>m_locked := True, m_owner := current s\<rparr>) s)
     else case mutex_enqueue m s of None \<Rightarrow> None | Some s1 \<Rightarrow> schedule s1)"

definition rt_mutex_lock_resume :: "u64 \<Rightarrow> 'a rtos_scheme \<Rightarrow> 'a rtos_scheme" where
  "rt_mutex_lock_resume me s = upd_task me (\<lambda>k. k\<lparr>t_blocked_on := 0\<rparr>) s"

definition rt_mutex_unlock :: "u64 \<Rightarrow> 'a rtos_scheme \<Rightarrow> 'a rtos_scheme option" where
  "rt_mutex_unlock m s =
    (let s1 = upd_task (current s) (\<lambda>k. k\<lparr>t_priority := t_base_priority k\<rparr>) s; w = m_waiters (mutex_at s1 m) in
     if w = 0 then Some (upd_mutex m (\<lambda>x. x\<lparr>m_locked := False, m_owner := 0\<rparr>) s1)
     else schedule (upd_task w (\<lambda>k. k\<lparr>t_wait_next := 0, t_state := TASK_READY\<rparr>)
            (upd_mutex m (\<lambda>x. x\<lparr>m_waiters := t_wait_next (task_at s1 w), m_owner := w\<rparr>) s1)))"

section \<open>Semaphores\<close>

definition upd_sem :: "u64 \<Rightarrow> (rt_sem \<Rightarrow> rt_sem) \<Rightarrow> 'a rtos_scheme \<Rightarrow> 'a rtos_scheme" where
  "upd_sem m f s = s\<lparr>sem_at := (sem_at s)(m := f (sem_at s m))\<rparr>"

definition rt_sem_init :: "u64 \<Rightarrow> int \<Rightarrow> 'a rtos_scheme \<Rightarrow> 'a rtos_scheme" where
  "rt_sem_init m initial s = upd_sem m (\<lambda>_. \<lparr>sem_count = initial, sem_waiters = 0\<rparr>) s"

definition rt_sem_wait :: "u64 \<Rightarrow> 'a rtos_scheme \<Rightarrow> 'a rtos_scheme option" where
  "rt_sem_wait m s =
    (if sem_count (sem_at s m) > 0 then Some (upd_sem m (\<lambda>x. x\<lparr>sem_count := sem_count x - 1\<rparr>) s)
     else case wq_insert (sem_waiters (sem_at s m)) (current s) (task_at s) of
            None \<Rightarrow> None
          | Some (h, T) \<Rightarrow>
             schedule (upd_task (current s) (\<lambda>k. k\<lparr>t_state := TASK_BLOCKED\<rparr>) (upd_sem m (\<lambda>x. x\<lparr>sem_waiters := h\<rparr>) (s\<lparr>task_at := T\<rparr>))))"

definition rt_sem_post :: "u64 \<Rightarrow> 'a rtos_scheme \<Rightarrow> 'a rtos_scheme option" where
  "rt_sem_post m s =
    (let w = sem_waiters (sem_at s m) in
     if w \<noteq> 0
     then schedule (upd_task w (\<lambda>k. k\<lparr>t_wait_next := 0, t_state := TASK_READY\<rparr>)
            (upd_sem m (\<lambda>x. x\<lparr>sem_waiters := t_wait_next (task_at s w)\<rparr>) s))
     else Some (upd_sem m (\<lambda>x. x\<lparr>sem_count := sem_count x + 1\<rparr>) s))"

section \<open>The built-in demonstrations\<close>

text \<open>The entry addresses of the demonstration tasks, and the counter at each creation.\<close>

fun create_all ::
  "symbols \<Rightarrow> (u8 list \<times> u64 \<times> u8 \<times> u64 \<times> u64) list \<Rightarrow> u64 list \<Rightarrow> 'a rtos_scheme \<Rightarrow> 'a rtos_scheme option" where
  "create_all ks ((name, entry, prio, period, deadline) # xs) (now # nows) s =
    (case rt_create_periodic ks name entry prio period deadline now s of None \<Rightarrow> None | Some (_, s1) \<Rightarrow> create_all ks xs nows s1)"
| "create_all ks _ _ s = Some s"

definition rt_demo_start :: "symbols \<Rightarrow> u64 \<Rightarrow> u64 \<Rightarrow> u64 \<Rightarrow> u64 \<Rightarrow> u64 list \<Rightarrow> 'a rtos_scheme \<Rightarrow> 'a rtos_scheme option" where
  "rt_demo_start ks fast hi mid lo nows s =
    (if rt_demo_started s then Some s
     else create_all ks
       [(bytes ''rt_fast'', fast, 35, 5000, 5000), (bytes ''rt_hi'', hi, 30, 100000, 100000),
        (bytes ''rt_mid'', mid, 20, 200000, 200000), (bytes ''rt_lo'', lo, 12, 500000, 500000)] nows (s\<lparr>rt_demo_started := True\<rparr>))"

definition rt_pi_demo_start :: "symbols \<Rightarrow> u64 \<Rightarrow> u64 \<Rightarrow> u64 \<Rightarrow> u64 \<Rightarrow> 'a rtos_scheme \<Rightarrow> 'a rtos_scheme option" where
  "rt_pi_demo_start ks pi_mutex low med high s =
    (if pi_demo_started s then Some s
     else case sched_create_rt_task ks (bytes ''pi_low'') low 12 (rt_mutex_init pi_mutex (s\<lparr>pi_demo_started := True\<rparr>)) of
            None \<Rightarrow> None
          | Some (_, s1) \<Rightarrow>
             (case sched_create_rt_task ks (bytes ''pi_med'') med 16 s1 of
                None \<Rightarrow> None
              | Some (_, s2) \<Rightarrow> map_option snd (sched_create_rt_task ks (bytes ''pi_high'') high 20 s2)))"

section \<open>Giving up the processor\<close>

lemma schedule_pick_more: "schedule_pick s = Some s' \<Longrightarrow> sched.more s' = sched.more s"
  by (auto simp: schedule_pick_def bury_def upd_task_def Let_def split: if_splits option.splits)

lemma chain_to_follows: "chain_to T (x # xs) b \<Longrightarrow> chain_to T (x # ys) b \<Longrightarrow> b \<notin> set xs \<Longrightarrow> b \<notin> set ys \<Longrightarrow> xs = ys"
proof (induction xs arbitrary: x ys)
  case Nil
  then show ?case by (cases ys) auto
next
  case (Cons y xs)
  then show ?case by (cases ys) auto
qed

text \<open>The queue of a state has only one set of tasks.\<close>

lemma run_queue_unique:
  assumes "run_queue T rs" "run_queue T rs'" "x \<in> set rs" "x \<in> set rs'"
  shows "set rs = set rs'"
proof -
  obtain us vs where r: "rs = us @ x # vs" "run_queue T (x # vs @ us)" using run_queue_from [OF assms(1,3)] by blast
  obtain us' vs' where r': "rs' = us' @ x # vs'" "run_queue T (x # vs' @ us')" using run_queue_from [OF assms(2,4)] by blast
  have "vs @ us = vs' @ us'" using chain_to_follows [of T x "vs @ us" x "vs' @ us'"] r(2) r'(2) by (simp add: run_queue_def)
  then have "set (vs @ us) = set (vs' @ us')" by simp
  then show ?thesis unfolding r(1) r'(1) by auto
qed

lemma heap_more_more: "heap.more s = heap.more t \<Longrightarrow> sched.more s = sched.more t"
  by (cases s; cases t; simp)

lemma sched_more_rtos:
  fixes s t :: "'a rtos_scheme"
  assumes "sched.more s = sched.more t"
  shows "mutex_at s = mutex_at t" "sem_at s = sem_at t" "timer_freq s = timer_freq t"
  using assms by (cases s; cases t; simp)+

text \<open>
  What a caller of \<open>schedule\<close> may rely on: the choice is the best runnable task of the
  queue, states change as for a switch, and nothing else about a task or outside the
  scheduler changes.
\<close>

lemma reschedule:
  assumes inv: "sched_inv V s"
  shows "\<exists>s'. schedule s = Some s' \<and> sched_inv V s' \<and> sched.more s' = sched.more s \<and>
    (\<forall>t. t_state (task_at s' t) = next_state (task_at s) (current s) (current s') t \<and> only_moved (task_at s t) (task_at s' t)) \<and>
    (runnable (task_at s) (current s) (current s') \<or> current s' = idle_task s) \<and>
    (\<forall>rs ds u. queue_pre s rs ds \<longrightarrow> u \<in> set rs \<longrightarrow> runnable (task_at s) (current s) u \<longrightarrow>
       t_priority (task_at s u) \<le> t_priority (task_at s (current s')))"
proof -
  obtain rs ds where q: "queue_pre s rs ds" "res_ok V (held s rs ds) s"
      and idle: "static_addr s (idle_task s)" "t_pid (task_at s (idle_task s)) = 0"
    using inv by (auto simp: sched_inv_def queue_ok_def)
  obtain ts where ts: "queue_pre s (current s # ts) ds" "set (current s # ts) = set rs" by (rule queue_pre_rotate [OF q(1)])
  have res: "res_ok V (held s (current s # ts) ds) s" using q(2) unfolding held_def ts(2) .
  note d = queue_preD [OF q(1)]
  let ?K = "held s rs []"
  have K: "held s rs ds = set ds \<union> ?K" "set ds \<inter> ?K = {}" using d(6) unfolding held_def by auto
  obtain s1 where "sched_reap s = Some s1" "heap.more s1 = heap.more (s\<lparr>dead_list := 0\<rparr>)"
    using sched_reap_ok [OF d(4,5) _ _ K(2), of V] d(6,7) q(2) unfolding K(1) by auto
  then have more: "sched.more s' = sched.more s" if "schedule s = Some s'" for s'
    using that heap_more_more [of s1 "s\<lparr>dead_list := 0\<rparr>"] schedule_pick_more [of s1 s'] by (simp add: schedule_def)
  obtain s' where s': "schedule s = Some s'" "chosen (task_at s) (current s) (idle_task s) (ts @ [current s]) (current s')"
      "\<forall>t. t_state (task_at s' t) = next_state (task_at s) (current s) (current s') t \<and> only_moved (task_at s t) (task_at s' t)"
    using schedule_ok [OF ts(1) res] by blast
  have sets: "set rs' = set (ts @ [current s])" if "queue_pre s rs' ds'" for rs' ds'
    using run_queue_unique [OF queue_preD(1) [OF that] d(1) queue_preD(2) [OF that] d(2)] ts(2) by auto
  have "t_priority (task_at s u) \<le> t_priority (task_at s (current s'))"
    if "queue_pre s rs' ds'" "u \<in> set rs'" "runnable (task_at s) (current s) u" for rs' ds' u
    using s'(2) first_top_max [of "task_at s" "current s" "ts @ [current s]" "current s'" u] that(2,3) sets [OF that(1)]
    unfolding chosen_def by metis
  moreover have "runnable (task_at s) (current s) (current s') \<or> current s' = idle_task s"
    using s'(2) by (auto simp: chosen_def first_top_def split: if_splits)
  moreover have "sched_inv V s'" using schedule_inv [OF q idle] s'(1) by auto
  ultimately show ?thesis using s'(1,3) more [OF s'(1)] by blast
qed

section \<open>Wait queues\<close>

fun wait_to :: "(u64 \<Rightarrow> task) \<Rightarrow> u64 list \<Rightarrow> u64 \<Rightarrow> bool" where
  "wait_to T [] b = True"
| "wait_to T (a # as) b = (t_wait_next (T a) = hd (as @ [b]) \<and> wait_to T as b)"

lemma wait_to_append: "wait_to T (as @ bs) b \<longleftrightarrow> wait_to T as (hd (bs @ [b])) \<and> wait_to T bs b"
  by (induction as) (auto simp: hd_append)

lemma wait_to_cong: "(\<And>a. a \<in> set as \<Longrightarrow> t_wait_next (T' a) = t_wait_next (T a)) \<Longrightarrow> wait_to T' as b = wait_to T as b"
  by (induction as) auto

text \<open>A null-terminated queue of tasks, the highest priority first.\<close>

definition by_priority :: "(u64 \<Rightarrow> task) \<Rightarrow> u64 list \<Rightarrow> bool" where
  "by_priority T xs \<longleftrightarrow> sorted_wrt (\<lambda>a b. t_priority (T a) \<ge> t_priority (T b)) xs"

definition wait_queue :: "(u64 \<Rightarrow> task) \<Rightarrow> u64 \<Rightarrow> u64 list \<Rightarrow> bool" where
  "wait_queue T h xs \<longleftrightarrow> h = hd (xs @ [0]) \<and> wait_to T xs 0 \<and> distinct xs \<and> 0 \<notin> set xs \<and> by_priority T xs"

lemma wait_queue_cong:
  assumes "\<And>a. a \<in> set xs \<Longrightarrow> t_wait_next (T' a) = t_wait_next (T a) \<and> t_priority (T' a) = t_priority (T a)"
  shows "wait_queue T' h xs = wait_queue T h xs"
proof -
  have "wait_to T' xs 0 = wait_to T xs 0" by (rule wait_to_cong) (simp add: assms)
  moreover have "by_priority T' xs = by_priority T xs"
    unfolding by_priority_def sorted_wrt_iff_nth_less using assms by simp
  ultimately show ?thesis by (simp add: wait_queue_def)
qed

text \<open>A newcomer goes behind everyone of at least its priority.\<close>

definition place :: "(u64 \<Rightarrow> task) \<Rightarrow> u64 \<Rightarrow> u64 list \<Rightarrow> u64 list" where
  "place T me xs = takeWhile (\<lambda>a. t_priority (T a) \<ge> t_priority (T me)) xs @ me #
     dropWhile (\<lambda>a. t_priority (T a) \<ge> t_priority (T me)) xs"

lemma by_priority_place:
  assumes "by_priority T xs"
  shows "by_priority T (place T me xs)"
proof -
  let ?P = "\<lambda>a. t_priority (T a) \<ge> t_priority (T me)"
  have s: "sorted_wrt (\<lambda>a b. t_priority (T a) \<ge> t_priority (T b)) (takeWhile ?P xs @ dropWhile ?P xs)"
    using assms by (simp add: by_priority_def)
  have hi: "?P a" if "a \<in> set (takeWhile ?P xs)" for a using that by (rule set_takeWhileD [THEN conjunct2])
  have lo: "t_priority (T me) \<ge> t_priority (T a)" if "a \<in> set (dropWhile ?P xs)" for a
  proof (cases "dropWhile ?P xs")
    case Nil
    then show ?thesis using that by (simp only: list.set empty_iff)
  next
    case (Cons y ys)
    then have "t_priority (T y) < t_priority (T me)" using hd_dropWhile [of ?P xs] by simp
    moreover have "t_priority (T a) \<le> t_priority (T y)" using s that unfolding Cons by (auto simp: sorted_wrt_append)
    ultimately show ?thesis by simp
  qed
  show ?thesis unfolding by_priority_def place_def using s hi lo by (simp add: sorted_wrt_append) (meson order_trans)
qed

lemma wq_find_chain:
  "wait_to T (p # ys @ zs) 0 \<Longrightarrow> 0 \<notin> set (p # ys @ zs) \<Longrightarrow> \<forall>y \<in> set ys. t_priority (T y) \<ge> pr \<Longrightarrow>
    (zs \<noteq> [] \<longrightarrow> t_priority (T (hd zs)) < pr) \<Longrightarrow> wq_find T pr p = Some (last (p # ys))"
proof (induction ys arbitrary: p)
  case Nil
  then show ?case by (cases zs) (auto simp: wq_find.simps [of T pr p] dest: leD)
next
  case (Cons y ys)
  then have "t_wait_next (T p) = y" "y \<noteq> 0" "t_priority (T y) \<ge> pr" by auto
  then show ?case using Cons.IH [of y] Cons.prems by (simp add: wq_find.simps [of T pr p])
qed

text \<open>Linking \<open>me\<close> between the last of \<open>us\<close> and the first of \<open>zs\<close>.\<close>

lemma wait_to_insert:
  assumes "wait_to T (us @ [p] @ zs) 0" "distinct (us @ [p] @ zs)" "me \<notin> set (us @ [p] @ zs)"
    and "\<And>a. a \<noteq> me \<Longrightarrow> a \<noteq> p \<Longrightarrow> t_wait_next (T' a) = t_wait_next (T a)" "t_wait_next (T' p) = me" "t_wait_next (T' me) = t_wait_next (T p)"
  shows "wait_to T' (us @ p # me # zs) 0"
proof -
  have "wait_to T us p" "t_wait_next (T p) = hd (zs @ [0])" "wait_to T zs 0" using assms(1) by (auto simp: wait_to_append)
  moreover have "wait_to T' us p = wait_to T us p" "wait_to T' zs 0 = wait_to T zs 0"
    using assms(2,3) by (auto intro!: wait_to_cong assms(4))
  ultimately show ?thesis using assms(5,6) by (simp add: wait_to_append)
qed

definition relinked :: "(u64 \<Rightarrow> task) \<Rightarrow> (u64 \<Rightarrow> task) \<Rightarrow> bool" where
  "relinked T T' \<longleftrightarrow> (\<forall>a. T' a = (T a)\<lparr>t_wait_next := t_wait_next (T' a)\<rparr>)"

lemma relinkedD:
  assumes "relinked T T'"
  shows "t_priority (T' a) = t_priority (T a)" "t_base_priority (T' a) = t_base_priority (T a)" "t_state (T' a) = t_state (T a)"
    "t_next (T' a) = t_next (T a)" "t_pid (T' a) = t_pid (T a)" "t_blocked_on (T' a) = t_blocked_on (T a)" "same_res (T' a) (T a)"
proof -
  have "T' a = (T a)\<lparr>t_wait_next := t_wait_next (T' a)\<rparr>" using assms by (simp add: relinked_def)
  then obtain w where "T' a = (T a)\<lparr>t_wait_next := w\<rparr>" by blast
  then show "t_priority (T' a) = t_priority (T a)" "t_base_priority (T' a) = t_base_priority (T a)" "t_state (T' a) = t_state (T a)"
    "t_next (T' a) = t_next (T a)" "t_pid (T' a) = t_pid (T a)" "t_blocked_on (T' a) = t_blocked_on (T a)" "same_res (T' a) (T a)"
    by (simp_all add: same_res_def)
qed

lemma by_priority_relinked: "relinked T T' \<Longrightarrow> by_priority T' xs = by_priority T xs"
  by (simp add: by_priority_def relinkedD)

lemma place_cases:
  assumes "xs \<noteq> []" "\<not> t_priority (T me) > t_priority (T (hd xs))"
  obtains us p zs where "xs = us @ [p] @ zs" "place T me xs = us @ p # me # zs" "hd xs = hd (us @ [p])"
    "\<forall>y \<in> set (us @ [p]). t_priority (T y) \<ge> t_priority (T me)" "zs \<noteq> [] \<longrightarrow> t_priority (T (hd zs)) < t_priority (T me)"
proof -
  let ?P = "\<lambda>a. t_priority (T a) \<ge> t_priority (T me)"
  have "takeWhile ?P xs \<noteq> []" using assms by (cases xs) auto
  then obtain us p where t: "takeWhile ?P xs = us @ [p]" by (metis rev_exhaust)
  have x: "xs = us @ [p] @ dropWhile ?P xs" using takeWhile_dropWhile_id [of ?P xs] unfolding t by simp
  then have "hd xs = hd (us @ [p])" by (metis append_assoc hd_append2 snoc_eq_iff_butlast)
  moreover have "dropWhile ?P xs \<noteq> [] \<longrightarrow> t_priority (T (hd (dropWhile ?P xs))) < t_priority (T me)"
    using hd_dropWhile [of ?P xs] by (meson not_le)
  moreover have "\<forall>y \<in> set (us @ [p]). ?P y" using set_takeWhileD [of _ ?P xs] unfolding t by blast
  moreover have "place T me xs = us @ p # me # dropWhile ?P xs" unfolding place_def t by simp
  ultimately show ?thesis using that [OF x] by blast
qed

lemma wq_insert_ok:
  assumes q: "wait_queue T h xs" and me: "me \<notin> set xs" "me \<noteq> 0"
  shows "\<exists>T' h'. wq_insert h me T = Some (h', T') \<and> wait_queue T' h' (place T me xs) \<and> relinked T T'"
proof (cases "xs = [] \<or> t_priority (T me) > t_priority (T (hd xs))")
  case True
  then have pl: "place T me xs = me # xs" by (cases xs) (auto simp: place_def)
  let ?T = "T(me := (T me)\<lparr>t_wait_next := h\<rparr>)"
  have h: "h = hd (xs @ [0])" using q by (simp add: wait_queue_def)
  have "h = 0 \<or> t_priority (T me) > t_priority (T h)" using True h by (cases xs) auto
  moreover have "h \<noteq> me" using me unfolding h by (cases xs) auto
  ultimately have w: "wq_insert h me T = Some (me, ?T)" by (auto simp: wq_insert_def Let_def)
  have "wait_to ?T xs 0 = wait_to T xs 0" by (rule wait_to_cong) (use me in auto)
  moreover have rel: "relinked T ?T" by (simp add: relinked_def)
  moreover have "by_priority T (place T me xs)" by (rule by_priority_place) (use q in \<open>simp add: wait_queue_def\<close>)
  ultimately have "wait_queue ?T me (place T me xs)"
    using q me by_priority_relinked [OF rel, of "me # xs"] unfolding pl wait_queue_def by simp
  then show ?thesis using w rel by blast
next
  case False
  then have xs: "xs \<noteq> []" "\<not> t_priority (T me) > t_priority (T (hd xs))" by auto
  obtain us p zs where x: "xs = us @ [p] @ zs" "place T me xs = us @ p # me # zs" "hd xs = hd (us @ [p])"
      "\<forall>y \<in> set (us @ [p]). t_priority (T y) \<ge> t_priority (T me)" "zs \<noteq> [] \<longrightarrow> t_priority (T (hd zs)) < t_priority (T me)"
    by (rule place_cases [OF xs])
  obtain y ys where y: "us @ [p] = y # ys" by (cases us) auto
  have last: "last (y # ys) = p" unfolding y [symmetric] by simp
  let ?T = "T(me := (T me)\<lparr>t_wait_next := 0\<rparr>)"
  have qq: "wait_to T xs 0" "distinct xs" "0 \<notin> set xs" "by_priority T xs" and h: "h = hd xs" "h \<noteq> 0"
    using q xs(1) by (cases xs; auto simp: wait_queue_def)+
  have xs': "xs = y # ys @ zs" using x(1) y by simp
  have "wait_to ?T xs 0 = wait_to T xs 0" by (rule wait_to_cong) (use me(1) in auto)
  then have "wait_to ?T xs 0" using qq(1) by simp
  moreover have "hd zs \<noteq> me" if "zs \<noteq> []" using me(1) that unfolding x(1) by (cases zs) auto
  ultimately have "wq_find ?T (t_priority (T me)) y = Some (last (y # ys))"
    using qq(3) x(4,5) me(1) unfolding xs' y by (intro wq_find_chain [of ?T y ys zs]) auto
  then have f: "wq_find ?T (t_priority (T me)) h = Some p" unfolding last unfolding h(1) xs' by simp
  have pm: "p \<noteq> me" "h \<noteq> me" using me(1) x(1) h(1) hd_in_set [OF xs(1)] by auto
  let ?T' = "T(me := (T me)\<lparr>t_wait_next := t_wait_next (T p)\<rparr>, p := (T p)\<lparr>t_wait_next := me\<rparr>)"
  have w: "wq_insert h me T = Some (h, ?T')" using f xs(2) pm h by (simp add: wq_insert_def Let_def)
  have rel: "relinked T ?T'" by (simp add: relinked_def)
  have "wait_to ?T' (us @ p # me # zs) 0" by (rule wait_to_insert [of T us p zs]) (use qq(1,2) me(1) x(1) pm(1) in auto)
  moreover note by_priority_relinked [OF rel, of "place T me xs"]
  ultimately have "wait_queue ?T' h (place T me xs)"
    using by_priority_place [OF qq(4), of me, unfolded x(2)] qq(2,3) me h x(3) pm(1) unfolding wait_queue_def x(2) unfolding x(1) by (simp add: hd_append)
  then show ?thesis using w rel by blast
qed

section \<open>Priority inheritance\<close>

text \<open>
  The owners that a waiter boosts: the owner of the mutex, the owner of the mutex
  that one is blocked on, and so on, none of lower priority than the one before.
\<close>

fun lock_chain :: "(u64 \<Rightarrow> rt_mutex) \<Rightarrow> (u64 \<Rightarrow> task) \<Rightarrow> u64 \<Rightarrow> u64 list \<Rightarrow> bool" where
  "lock_chain M T own [] = (own = 0)"
| "lock_chain M T own (x # xs) = (own = x \<and> x \<noteq> 0 \<and>
     (if t_blocked_on (T x) = 0 then xs = [] else lock_chain M T (m_owner (M (t_blocked_on (T x)))) xs) \<and>
     (xs \<noteq> [] \<longrightarrow> t_priority (T (hd xs)) \<ge> t_priority (T x)))"

lemma lock_chain_cong:
  "(\<And>x. x \<in> set xs \<Longrightarrow> t_blocked_on (T' x) = t_blocked_on (T x) \<and> t_priority (T' x) = t_priority (T x)) \<Longrightarrow>
    lock_chain M T' own xs = lock_chain M T own xs"
proof (induction xs arbitrary: own)
  case (Cons x xs)
  then show ?case by (cases xs) auto
qed simp

lemma lock_chain_high: "lock_chain M T own (x # xs) \<Longrightarrow> y \<in> set xs \<Longrightarrow> t_priority (T y) \<ge> t_priority (T x)"
proof (induction xs arbitrary: own x)
  case (Cons z xs)
  then have z: "t_priority (T z) \<ge> t_priority (T x)" "lock_chain M T (m_owner (M (t_blocked_on (T x)))) (z # xs)"
    by (auto split: if_splits)
  then show ?case using Cons.IH [OF z(2)] Cons.prems(2) by (auto intro: order_trans)
qed simp

definition boosted :: "u8 \<Rightarrow> task \<Rightarrow> task" where
  "boosted prio k = k\<lparr>t_priority := max prio (t_priority k)\<rparr>"

lemma boosted_high: "prio \<le> t_priority k \<Longrightarrow> boosted prio k = k"
  by (simp add: boosted_def max_absorb2)

lemma pi_loop_chain:
  "lock_chain M T own xs \<Longrightarrow> distinct xs \<Longrightarrow> length xs \<le> d \<Longrightarrow>
    pi_loop d M own prio T = (\<lambda>a. if a \<in> set xs then boosted prio (T a) else T a)"
proof (induction xs arbitrary: own T d)
  case Nil
  then show ?case by (cases d) auto
next
  case (Cons x xs)
  obtain e where d: "d = Suc e" using Cons.prems(3) by (cases d) auto
  show ?case
  proof (cases "prio \<le> t_priority (T x)")
    case True
    then have "boosted prio (T a) = T a" if "a \<in> set (x # xs)" for a
      using that lock_chain_high [OF Cons.prems(1), of a] by (intro boosted_high) auto
    then show ?thesis using True Cons.prems(1) unfolding d by auto
  next
    case False
    let ?T = "T(x := boosted prio (T x))"
    have b: "(T x)\<lparr>t_priority := prio\<rparr> = boosted prio (T x)" using False by (simp add: boosted_def max_def)
    have own: "own = x" "x \<noteq> 0" using Cons.prems(1) by auto
    have bo: "t_blocked_on (boosted prio (T x)) = t_blocked_on (T x)" by (simp add: boosted_def)
    show ?thesis
    proof (cases "t_blocked_on (T x) = 0")
      case True
      then have "xs = []" using Cons.prems(1) by simp
      then show ?thesis using True False own unfolding d by (auto simp: b bo fun_eq_iff)
    next
      case blocked: False
      let ?o = "m_owner (M (t_blocked_on (T x)))"
      have "lock_chain M ?T ?o xs = lock_chain M T ?o xs" by (rule lock_chain_cong) (use Cons.prems(2) in auto)
      then have "lock_chain M ?T ?o xs" using Cons.prems(1) blocked by simp
      from Cons.IH [OF this, of e] have "pi_loop e M ?o prio ?T = (\<lambda>a. if a \<in> set xs then boosted prio (?T a) else ?T a)"
        using Cons.prems(2,3) unfolding d fun_upd_def by auto
      then show ?thesis using False blocked own Cons.prems(2) unfolding d by (auto simp: b bo fun_eq_iff)
    qed
  qed
qed

section \<open>Blocking on a mutex and handing it over\<close>

lemma sched_inv_queue:
  assumes "sched_inv V s"
  obtains rs ds where "queue_pre s rs ds" "\<And>t. t \<in> set rs \<Longrightarrow> t_state (task_at s t) \<noteq> TASK_DEAD"
  using assms by (auto simp: sched_inv_def queue_ok_def)

lemma sched_inv_current:
  assumes "sched_inv V s"
  shows "current s \<noteq> 0" "t_state (task_at s (current s)) \<noteq> TASK_DEAD"
proof -
  obtain rs ds where q: "queue_pre s rs ds" "\<And>t. t \<in> set rs \<Longrightarrow> t_state (task_at s t) \<noteq> TASK_DEAD"
    using sched_inv_queue [OF assms] by blast
  show "current s \<noteq> 0" using queue_preD(2,7) [OF q(1)] by auto
  show "t_state (task_at s (current s)) \<noteq> TASK_DEAD" by (rule q(2) [OF queue_preD(2) [OF q(1)]])
qed

lemma queue_pre_tasks:
  assumes q: "queue_pre s rs ds" and s': "current s' = current s" "idle_task s' = idle_task s" "dead_list s' = dead_list s"
    and T: "\<And>t. t_next (task_at s' t) = t_next (task_at s t)"
      "\<And>t. t_state (task_at s' t) = TASK_RUNNING \<Longrightarrow> t_state (task_at s t) = TASK_RUNNING"
      "\<And>t. t_state (task_at s' t) = TASK_DEAD \<longleftrightarrow> t_state (task_at s t) = TASK_DEAD"
  shows "queue_pre s' rs ds"
proof -
  have "run_queue (task_at s') rs = run_queue (task_at s) rs" "chain_to (task_at s') ds 0 = chain_to (task_at s) ds 0"
    by (rule run_queue_cong chain_to_cong, rule T(1))+
  then show ?thesis using q T(2) unfolding queue_pre_def s' T(3) by blast
qed

lemma heap_live_rtos [simp]:
  "heap_live (s\<lparr>mutex_at := M\<rparr>) V = heap_live s V" "heap_live (s\<lparr>sem_at := N\<rparr>) V = heap_live s V"
  by (rule heap_live_cong; simp)+

text \<open>The mutexes and semaphores are no part of the scheduler.\<close>

lemma sched_inv_more:
  assumes "\<And>V A. kheap.owned V A s' = kheap.owned V A s" "reserved_bytes s' = reserved_bytes s" "regions s' = regions s"
    "tab s' = tab s" "fdtabs s' = fdtabs s" "task_at s' = task_at s" "idle_task s' = idle_task s" "current s' = current s"
    "dead_list s' = dead_list s" "\<And>a. page_at s' a = page_at s a" "\<And>a. heap_page s' a = heap_page s a"
  shows "sched_inv V s' = sched_inv V s"
proof -
  have q: "queue_ok s' rs ds = queue_ok s rs ds" for rs ds by (simp add: queue_ok_def queue_pre_def assms(6-9))
  have o: "task_objs s' = task_objs s" "fds_ok s' = fds_ok s"
    by (simp_all add: fun_eq_iff task_objs_def fds_ok_def open_fds_def Let_def assms(4-6))
  have r: "res_ok V K s' = res_ok V K s" for K by (simp add: res_ok_def o assms(1,4,6,10,11))
  have h: "held s' rs ds = held s rs ds" for rs ds by (simp add: held_def assms(6,7))
  show ?thesis unfolding sched_inv_def q r h by (simp add: static_addr_def assms(2,6,7))
qed

lemma sched_inv_rtos [simp]:
  "sched_inv V (s\<lparr>mutex_at := M\<rparr>) = sched_inv V s" "sched_inv V (s\<lparr>sem_at := N\<rparr>) = sched_inv V s"
  by (rule sched_inv_more; simp add: kheap.owned_def reserved_bytes_def page_bytes_def page_at_def heap_page_def page_addr_def npages_def allocated_def page_used_def heap_bytes_def)+

text \<open>What the processor finds when the caller has queued itself and boosted the owners.\<close>

lemma mutex_enqueue_ok:
  fixes s :: "'a rtos_scheme"
  assumes inv: "sched_inv V s" and q: "wait_queue (task_at s) (m_waiters (mutex_at s m)) ws" "current s \<notin> set ws"
    and own: "lock_chain (mutex_at s) (task_at s) (m_owner (mutex_at s m)) os" "distinct os" "length os \<le> 8"
      "set os \<inter> set (current s # ws) = {}"
  shows "\<exists>s1. mutex_enqueue m s = Some s1 \<and> sched_inv V s1 \<and> current s1 = current s \<and> idle_task s1 = idle_task s \<and>
    wait_queue (task_at s1) (m_waiters (mutex_at s1 m)) (place (task_at s) (current s) ws) \<and>
    mutex_at s1 = (mutex_at s)(m := (mutex_at s m)\<lparr>m_waiters := m_waiters (mutex_at s1 m)\<rparr>) \<and>
    t_state (task_at s1 (current s)) = TASK_BLOCKED \<and> t_blocked_on (task_at s1 (current s)) = m \<and>
    (\<forall>t. t_priority (task_at s1 t) =
       (if t \<in> set os then max (t_priority (task_at s (current s))) (t_priority (task_at s t)) else t_priority (task_at s t)))"
proof -
  let ?me = "current s"
  let ?T0 = "(task_at s)(?me := (task_at s ?me)\<lparr>t_blocked_on := m\<rparr>)"
  have me: "?me \<noteq> 0" "t_state (task_at s ?me) \<noteq> TASK_DEAD" using sched_inv_current [OF inv] by auto
  have pr0: "t_priority (?T0 a) = t_priority (task_at s a)" for a by simp
  have pl: "place ?T0 ?me ws = place (task_at s) ?me ws" unfolding place_def pr0 ..
  have "wait_queue ?T0 (m_waiters (mutex_at s m)) ws" using q(1) by (subst wait_queue_cong) auto
  from wq_insert_ok [OF this q(2) me(1)] obtain T h where w: "wq_insert (m_waiters (mutex_at s m)) ?me ?T0 = Some (h, T)"
      "wait_queue T h (place (task_at s) ?me ws)" "relinked ?T0 T" unfolding pl by blast
  note rel = relinkedD [OF w(3)]
  have k: "t_next (T a) = t_next (task_at s a)" "t_state (T a) = t_state (task_at s a)" "t_pid (T a) = t_pid (task_at s a)"
      "t_priority (T a) = t_priority (task_at s a)" "same_res (T a) (task_at s a)" for a
    using rel by (simp_all add: same_res_def)
  let ?M = "(mutex_at s)(m := (mutex_at s m)\<lparr>m_waiters := h\<rparr>)"
  have Mo: "m_owner (?M x) = m_owner (mutex_at s x)" for x by simp
  have "lock_chain ?M T ow xs = lock_chain (mutex_at s) (task_at s) ow xs" if "set xs \<subseteq> set os" for ow xs
    using that own(4) by (induction xs arbitrary: ow) (auto simp: rel Mo neq_Nil_conv)
  then have pi: "pi_loop 8 ?M (m_owner (mutex_at s m)) (t_priority (task_at s ?me)) T =
      (\<lambda>a. if a \<in> set os then boosted (t_priority (task_at s ?me)) (T a) else T a)" (is "_ = ?T1")
    using own(1-3) by (intro pi_loop_chain) auto
  let ?T2 = "?T1(?me := (?T1 ?me)\<lparr>t_state := TASK_BLOCKED\<rparr>)"
  let ?s1 = "s\<lparr>task_at := ?T2, mutex_at := ?M\<rparr>"
  have e: "mutex_enqueue m s = Some ?s1"
    using w(1) pi by (simp add: mutex_enqueue_def Let_def upd_task_def upd_mutex_def pi_propagate_def rel)
  have "sched_inv V (s\<lparr>task_at := ?T2\<rparr>)"
    by (rule sched_inv_map [OF inv]) (use k me(2) in \<open>auto simp: boosted_def same_res_def split: if_splits\<close>)
  then have inv1: "sched_inv V ?s1" unfolding sched_inv_rtos .
  have "set (place (task_at s) ?me ws) = set (?me # ws)"
    unfolding place_def using takeWhile_dropWhile_id [of "\<lambda>a. t_priority (task_at s a) \<ge> t_priority (task_at s ?me)" ws]
    by (metis (no_types, lifting) Un_insert_right list.set(2) set_append)
  then have "wait_queue ?T2 h (place (task_at s) ?me ws)"
    using w(2) own(4) by (subst wait_queue_cong [where T = T]) auto
  moreover have "?me \<notin> set os" using own(4) by auto
  ultimately show ?thesis using e inv1 rel by (intro exI [of _ ?s1]) (auto simp: boosted_def)
qed

section \<open>Releases\<close>

lemma release_same:
  "t_next (release now k) = t_next k" "same_res (release now k) k" "t_pid (release now k) = t_pid k"
  "t_rt_period (release now k) = t_rt_period k" "t_wait_next (release now k) = t_wait_next k"
  "t_priority (release now k) = t_priority k"
  by (simp_all add: release_def same_res_def)

lemma release_state:
  "t_state (release now k) = TASK_RUNNING \<Longrightarrow> t_state k = TASK_RUNNING" "t_state (release now k) = TASK_DEAD \<longleftrightarrow> t_state k = TASK_DEAD"
  by (auto simp: release_def split: if_splits)

lemma release_from_chain:
  "chain_to T (t # ts) h \<Longrightarrow> h \<notin> set ts \<Longrightarrow> distinct (t # ts) \<Longrightarrow>
    release_from now h t e T =
      Some (fold (\<lambda>a. sooner (release now (T a))) (t # ts) e, \<lambda>a. if a \<in> set (t # ts) then release now (T a) else T a)"
proof (induction ts arbitrary: t e T)
  case Nil
  then show ?case by (subst release_from.simps) (auto simp: Let_def release_same fun_eq_iff)
next
  case (Cons u ts)
  let ?T = "T(t := release now (T t))"
  have n: "t_next (release now (T t)) = u" "u \<noteq> h" using Cons.prems by (auto simp: release_same)
  have ne: "t \<notin> set (u # ts)" using Cons.prems(3) by simp
  have "chain_to ?T (u # ts) h = chain_to T (u # ts) h" by (rule chain_to_cong) (use ne in auto)
  then have c: "chain_to ?T (u # ts) h" using Cons.prems(1) by simp
  have f: "fold (\<lambda>a. sooner (release now (?T a))) (u # ts) e' = fold (\<lambda>a. sooner (release now (T a))) (u # ts) e'" for e'
    by (rule fold_cong) (use ne in auto)
  have "release_from now h t e T = release_from now h u (sooner (release now (T t)) e) ?T"
    using n by (subst release_from.simps) (simp add: Let_def)
  also have "\<dots> = Some (fold (\<lambda>a. sooner (release now (?T a))) (u # ts) (sooner (release now (T t)) e),
      \<lambda>a. if a \<in> set (u # ts) then release now (?T a) else ?T a)"
    using Cons.IH [OF c] Cons.prems by (auto simp: fun_upd_def)
  finally show ?case unfolding f using ne by (auto simp: fun_eq_iff)
qed

text \<open>The earliest pending release is the least one, or 0 when there is none.\<close>

definition releases :: "(u64 \<Rightarrow> task) \<Rightarrow> u64 list \<Rightarrow> u64 set" where
  "releases T ts = (\<lambda>a. t_rt_next_release (T a)) ` {a \<in> set ts. t_rt_period (T a) > 0}"

lemma releases_simps [simp]:
  "releases T [] = {}" "finite (releases T ts)"
  "releases T (t # ts) = (if t_rt_period (T t) > 0 then insert (t_rt_next_release (T t)) (releases T ts) else releases T ts)"
  by (auto simp: releases_def)

lemma fold_sooner_from: "e \<noteq> 0 \<Longrightarrow> 0 \<notin> releases T ts \<Longrightarrow> fold (\<lambda>a. sooner (T a)) ts e = Min (insert e (releases T ts))"
proof (induction ts arbitrary: e)
  case (Cons t ts)
  have "sooner (T t) e \<noteq> 0" using Cons.prems by (auto simp: sooner_def split: if_splits)
  moreover have "0 \<notin> releases T ts" using Cons.prems(2) by (auto split: if_splits)
  ultimately have "fold (\<lambda>a. sooner (T a)) (t # ts) e = Min (insert (sooner (T t) e) (releases T ts))" using Cons.IH by simp
  also have "\<dots> = Min (insert e (releases T (t # ts)))"
    using Cons.prems(1) by (cases "releases T ts = {}") (auto simp: sooner_def min_def)
  finally show ?case .
qed simp

lemma fold_sooner: "0 \<notin> releases T ts \<Longrightarrow> fold (\<lambda>a. sooner (T a)) ts 0 = (if releases T ts = {} then 0 else Min (releases T ts))"
proof (induction ts)
  case (Cons t ts)
  have "sooner (T t) 0 = (if t_rt_period (T t) > 0 then t_rt_next_release (T t) else 0)" by (simp add: sooner_def)
  then show ?case using Cons fold_sooner_from [of "t_rt_next_release (T t)" T ts] by (auto split: if_splits)
qed simp

lemma rt_tick_release_run:
  fixes s :: "'a rtos_scheme" and now :: u64
  assumes inv: "sched_inv V s" and q: "queue_pre s rs ds"
  defines "T \<equiv> \<lambda>a. if a \<in> set rs then release now (task_at s a) else task_at s a"
  obtains xs where "set xs = set rs" "rt_tick_release now s = Some (fold (\<lambda>a. sooner (T a)) xs 0, s\<lparr>task_at := T\<rparr>)"
    "sched_inv V (s\<lparr>task_at := T\<rparr>)"
proof -
  note d = queue_preD [OF q]
  obtain us vs where rs: "rs = us @ idle_task s # vs" "run_queue (task_at s) (idle_task s # vs @ us)"
    using run_queue_from [OF d(1,3)] by blast
  let ?xs = "idle_task s # vs @ us"
  have sets: "set ?xs = set rs" unfolding rs(1) by auto
  have "release_from now (idle_task s) (idle_task s) 0 (task_at s) =
      Some (fold (\<lambda>a. sooner (release now (task_at s a))) ?xs 0, T)"
    unfolding T_def sets [symmetric] using rs(2) by (intro release_from_chain) (auto simp: run_queue_def)
  moreover have "fold (\<lambda>a. sooner (release now (task_at s a))) ?xs 0 = fold (\<lambda>a. sooner (T a)) ?xs 0"
    by (rule fold_cong) (use sets in \<open>auto simp: T_def\<close>)
  ultimately have run: "rt_tick_release now s = Some (fold (\<lambda>a. sooner (T a)) ?xs 0, s\<lparr>task_at := T\<rparr>)"
    by (simp only: rt_tick_release_def option.map prod.case)
  have "t_next (T t) = t_next (task_at s t)" "same_res (T t) (task_at s t)" "t_pid (T t) = t_pid (task_at s t)"
      "t_state (T t) = TASK_RUNNING \<Longrightarrow> t_state (task_at s t) = TASK_RUNNING"
      "t_state (T t) = TASK_DEAD \<longleftrightarrow> t_state (task_at s t) = TASK_DEAD" for t
    using release_same [of now "task_at s t"] release_state [of now "task_at s t"]
    by (cases "t \<in> set rs"; simp add: T_def same_res_def)+
  then have "sched_inv V (s\<lparr>task_at := T\<rparr>)" by (rule sched_inv_map [OF inv])
  then show ?thesis using that [OF sets run] by blast
qed

section \<open>A concrete system\<close>

text \<open>Two tasks beside the idle task, with any contents and any mutexes.\<close>

definition demo_rt :: "u64 \<Rightarrow> task \<Rightarrow> task \<Rightarrow> (u64 \<Rightarrow> rt_mutex) \<Rightarrow> rtos" where
  "demo_rt cur ka kb M = sched.extend (sched.truncate (demo_two_tasks\<lparr>current := cur,
       task_at := (task_at demo_two_tasks)(0xFFFF000040003020 := ka, 0xFFFF000040003440 := kb)\<rparr>))
     \<lparr>mutex_at = M, sem_at = (\<lambda>_. \<lparr>sem_count = 0, sem_waiters = 0\<rparr>), timer_freq = 62500000,
      rt_demo_started = False, pi_demo_started = False\<rparr>"

lemma demo_rt_inv:
  assumes ka: "same_res ka zero_task" "t_next ka = 0xFFFF000040003440" "t_state ka \<noteq> TASK_DEAD"
      "t_state ka = TASK_RUNNING \<Longrightarrow> cur = 0xFFFF000040003020"
    and kb: "same_res kb zero_task" "t_next kb = 0xFFFF000040001000" "t_state kb \<noteq> TASK_DEAD"
      "t_state kb = TASK_RUNNING \<Longrightarrow> cur = 0xFFFF000040003440"
    and cur: "cur \<in> {0xFFFF000040003020, 0xFFFF000040003440}"
  shows "sched_inv {} (demo_rt cur ka kb M)"
    "queue_pre (demo_rt cur ka kb M) [0xFFFF000040003020, 0xFFFF000040003440, 0xFFFF000040001000] []"
proof -
  let ?s = "demo_rt cur ka kb M" and ?i = "0xFFFF000040001000 :: u64" and ?a = "0xFFFF000040003020 :: u64" and ?b = "0xFFFF000040003440 :: u64"
  have f: "current ?s = cur" "idle_task ?s = ?i" "dead_list ?s = 0" "task_at ?s ?i = zero_task\<lparr>t_next := ?a\<rparr>" "task_at ?s ?a = ka" "task_at ?s ?b = kb"
    by (simp_all add: demo_rt_def sched.defs demo_two_tasks_def demo_sched_def sched_init_def vfs.defs)
  have "heap_live ?s {(?a, 1024), (?b, 1024)} = heap_live demo_heap2 {(?a, 1024), (?b, 1024)}"
    by (rule heap_live_cong) (simp_all add: demo_rt_def sched.defs demo_two_tasks_def demo_sched_def sched_init_def vfs.defs
        demo_vfs_def vfs_init_def alloc_vnode_def demo_heap2_def Let_def)
  then have live: "heap_live ?s {(?a, 1024), (?b, 1024)}" using demo_heap2_live by simp
  have q: "queue_ok ?s [?a, ?b, ?i] []"
    using ka(2-4) kb(2-4) cur by (auto simp: queue_ok_def queue_pre_def run_queue_def f zero_task_def)
  have h: "held ?s [?a, ?b, ?i] [] = {?a, ?b}" by (auto simp: held_def f)
  have r: "res_ok {} (held ?s [?a, ?b, ?i] []) ?s"
    unfolding h by (rule demo_pair_res [OF live]) (use ka(1) kb(1) in \<open>simp_all add: f\<close>)
  have "reserved_bytes ?s = reserved_bytes demo_heap"
    by (simp add: reserved_bytes_def page_bytes_def demo_rt_def sched.defs demo_two_tasks_def demo_sched_def sched_init_def vfs.defs
        demo_vfs_def vfs_init_def alloc_vnode_def)
  then have "static_addr ?s (idle_task ?s)" using demo_reserved by (simp add: static_addr_def f)
  then show "sched_inv {} ?s" using q r by (auto simp: sched_inv_def f zero_task_def)
  show "queue_pre ?s [?a, ?b, ?i] []" using q by (simp add: queue_ok_def)
qed

lemma demo_rt_fields:
  "current (demo_rt cur ka kb M) = cur" "mutex_at (demo_rt cur ka kb M) = M" "idle_task (demo_rt cur ka kb M) = 0xFFFF000040001000"
  "task_at (demo_rt cur ka kb M) 0xFFFF000040003020 = ka" "task_at (demo_rt cur ka kb M) 0xFFFF000040003440 = kb"
  "task_at (demo_rt cur ka kb M) 0xFFFF000040001000 = zero_task\<lparr>t_next := 0xFFFF000040003020\<rparr>"
  by (simp_all add: demo_rt_def sched.defs demo_two_tasks_def demo_sched_def sched_init_def vfs.defs)

section \<open>The properties of the real-time extension\<close>


definition demo_contended :: rtos where
  "demo_contended = demo_rt 0xFFFF000040003020
     (zero_task\<lparr>t_state := TASK_RUNNING, t_priority := 20, t_base_priority := 20, t_next := 0xFFFF000040003440, t_pid := 1\<rparr>)
     (zero_task\<lparr>t_priority := 12, t_base_priority := 12, t_next := 0xFFFF000040001000, t_pid := 2\<rparr>)
     (\<lambda>_. \<lparr>m_owner = 0xFFFF000040003440, m_waiters = 0, m_locked = True\<rparr>)"



definition demo_boosted :: rtos where
  "demo_boosted = demo_rt 0xFFFF000040003440
     (zero_task\<lparr>t_state := TASK_BLOCKED, t_priority := 20, t_base_priority := 20, t_blocked_on := 0x9000, t_next := 0xFFFF000040003440, t_pid := 1\<rparr>)
     (zero_task\<lparr>t_state := TASK_RUNNING, t_priority := 20, t_base_priority := 12, t_next := 0xFFFF000040001000, t_pid := 2\<rparr>)
     (\<lambda>_. \<lparr>m_owner = 0xFFFF000040003440, m_waiters = 0xFFFF000040003020, m_locked = True\<rparr>)"


text \<open>C20: The release of periodic tasks.  In every state of the scheduler the walk over
  the queue ends; each periodic task whose release time has come is released at that
  time if it sleeps, and charged a missed deadline if it still runs, and its next release moves on by one
  period; every other task is unchanged; and the value returned for
  programming the timer is the earliest pending release, or 0 when no task is periodic.\<close>

theorem rt_tick_release_exact:
  fixes s :: "'a rtos_scheme"
  assumes "sched_inv V s" "queue_pre s rs ds"
  shows "\<exists>e s'. rt_tick_release now s = Some (e, s') \<and> sched_inv V s' \<and> s' = s\<lparr>task_at := task_at s'\<rparr> \<and>
    (\<forall>t. task_at s' t = (let k = task_at s t; nr = t_rt_next_release k in
       if t \<in> set rs \<and> t_rt_period k > 0 \<and> nr \<le> now
       then if t_state k = TASK_SLEEPING
            then k\<lparr>t_state := TASK_READY, t_rt_release := nr, t_rt_activations := t_rt_activations k + 1, t_rt_next_release := nr + t_rt_period k\<rparr>
            else k\<lparr>t_rt_misses := t_rt_misses k + 1, t_rt_next_release := nr + t_rt_period k\<rparr>
       else k)) \<and>
    (0 \<notin> releases (task_at s') rs \<longrightarrow>
       e = (if releases (task_at s') rs = {} then 0 else Min (releases (task_at s') rs)))"
proof -
  let ?T = "\<lambda>a. if a \<in> set rs then release now (task_at s a) else task_at s a"
  obtain xs where xs: "set xs = set rs" "rt_tick_release now s = Some (fold (\<lambda>a. sooner (?T a)) xs 0, s\<lparr>task_at := ?T\<rparr>)"
      "sched_inv V (s\<lparr>task_at := ?T\<rparr>)"
    by (rule rt_tick_release_run [OF assms])
  define T where "T = ?T"
  have run: "rt_tick_release now s = Some (fold (\<lambda>a. sooner (T a)) xs 0, s\<lparr>task_at := T\<rparr>)" "sched_inv V (s\<lparr>task_at := T\<rparr>)"
    unfolding T_def by (rule xs)+
  have "releases T xs = releases T rs" unfolding releases_def xs(1) ..
  then have e: "0 \<notin> releases T rs \<longrightarrow> fold (\<lambda>a. sooner (T a)) xs 0 = (if releases T rs = {} then 0 else Min (releases T rs))"
    using fold_sooner [of T xs] by simp
  have eff: "T t = (let k = task_at s t; nr = t_rt_next_release k in
       if t \<in> set rs \<and> t_rt_period k > 0 \<and> nr \<le> now
       then if t_state k = TASK_SLEEPING
            then k\<lparr>t_state := TASK_READY, t_rt_release := nr, t_rt_activations := t_rt_activations k + 1, t_rt_next_release := nr + t_rt_period k\<rparr>
            else k\<lparr>t_rt_misses := t_rt_misses k + 1, t_rt_next_release := nr + t_rt_period k\<rparr>
       else k)" for t
    unfolding T_def by (simp add: release_def Let_def)
  show ?thesis using run e eff by (intro exI [of _ "fold (\<lambda>a. sooner (T a)) xs 0"] exI [of _ "s\<lparr>task_at := T\<rparr>"]) simp
qed

definition demo_periodic :: rtos where
  "demo_periodic = demo_rt 0xFFFF000040003020
     (zero_task\<lparr>t_state := TASK_RUNNING, t_rt_period := 1000, t_rt_next_release := 5000, t_next := 0xFFFF000040003440, t_pid := 1\<rparr>)
     (zero_task\<lparr>t_state := TASK_SLEEPING, t_rt_period := 700, t_rt_next_release := 4000, t_next := 0xFFFF000040001000, t_pid := 2\<rparr>)
     (\<lambda>_. \<lparr>m_owner = 0, m_waiters = 0, m_locked = False\<rparr>)"

theorem rt_tick_release_exact_witness:
  "\<exists>e s'. rt_tick_release 4100 demo_periodic = Some (e, s') \<and> sched_inv {} s' \<and> s' = demo_periodic\<lparr>task_at := task_at s'\<rparr> \<and>
    (\<forall>t. task_at s' t = (let k = task_at demo_periodic t; nr = t_rt_next_release k in
       if t \<in> set [0xFFFF000040003020, 0xFFFF000040003440, 0xFFFF000040001000] \<and> t_rt_period k > 0 \<and> nr \<le> 4100
       then if t_state k = TASK_SLEEPING
            then k\<lparr>t_state := TASK_READY, t_rt_release := nr, t_rt_activations := t_rt_activations k + 1, t_rt_next_release := nr + t_rt_period k\<rparr>
            else k\<lparr>t_rt_misses := t_rt_misses k + 1, t_rt_next_release := nr + t_rt_period k\<rparr>
       else k)) \<and>
    (0 \<notin> releases (task_at s') [0xFFFF000040003020, 0xFFFF000040003440, 0xFFFF000040001000] \<longrightarrow>
       e = (if releases (task_at s') [0xFFFF000040003020, 0xFFFF000040003440, 0xFFFF000040001000] = {} then 0
            else Min (releases (task_at s') [0xFFFF000040003020, 0xFFFF000040003440, 0xFFFF000040001000])))"
  by (rule rt_tick_release_exact [where V = "{}" and ds = "[]"];
      (unfold demo_periodic_def, rule demo_rt_inv; simp add: same_res_def zero_task_def))

text \<open>
  A boost does not move the boosted task in the wait queue it stands in.  Task 3 holds
  mutex 1 and waits for mutex 2 behind task 2; when a task of priority 30 blocks on
  mutex 1, task 3 is boosted above task 2 and stays behind it.
\<close>

definition demo_waiting :: "u64 \<Rightarrow> task" where
  "demo_waiting t = (if t = 1 then zero_task\<lparr>t_priority := 10\<rparr>
     else if t = 2 then zero_task\<lparr>t_priority := 20, t_blocked_on := 0x2000, t_wait_next := 3\<rparr>
     else if t = 3 then zero_task\<lparr>t_priority := 12, t_blocked_on := 0x2000\<rparr> else zero_task)"

definition demo_mutexes :: "u64 \<Rightarrow> rt_mutex" where
  "demo_mutexes m = (if m = 0x1000 then \<lparr>m_owner = 3, m_waiters = 0, m_locked = True\<rparr> else \<lparr>m_owner = 1, m_waiters = 2, m_locked = True\<rparr>)"

lemma boost_leaves_queue_unsorted:
  "wait_queue demo_waiting (m_waiters (demo_mutexes 0x2000)) [2, 3] \<and>
   \<not> wait_queue (pi_loop 8 demo_mutexes (m_owner (demo_mutexes 0x1000)) 30 demo_waiting) (m_waiters (demo_mutexes 0x2000)) [2, 3]"
  by code_simp

end
