(* ===== verification/Little_Endian.thy ===== *)
theory Little_Endian
  imports Kernel_Prelude
begin

text \<open>
  Byte-addressed memory and the little-endian loads and stores that the compiled C
  performs on it, for the components that overlay structures on memory that
  someone else wrote: signal frames on a user stack, executables, directory entries.
\<close>

type_synonym mem = "u64 \<Rightarrow> u8"

fun le_bytes :: "nat \<Rightarrow> u64 \<Rightarrow> u8 list" where
  "le_bytes 0 w = []"
| "le_bytes (Suc n) w = ucast w # le_bytes n (drop_bit 8 w)"

fun le_word :: "u8 list \<Rightarrow> u64" where
  "le_word [] = 0"
| "le_word (b # bs) = ucast b OR push_bit 8 (le_word bs)"

definition mem_bytes :: "nat \<Rightarrow> u64 \<Rightarrow> mem \<Rightarrow> u8 list" where
  "mem_bytes n a m = map (\<lambda>i. m (a + of_nat i)) [0..<n]"

definition load :: "nat \<Rightarrow> u64 \<Rightarrow> mem \<Rightarrow> u64" where
  "load n a m = le_word (mem_bytes n a m)"

fun store_bytes :: "u64 \<Rightarrow> u8 list \<Rightarrow> mem \<Rightarrow> mem" where
  "store_bytes a [] m = m"
| "store_bytes a (b # bs) m = store_bytes (a + 1) bs (m(a := b))"

definition store :: "nat \<Rightarrow> u64 \<Rightarrow> u64 \<Rightarrow> mem \<Rightarrow> mem" where
  "store n a w m = store_bytes a (le_bytes n w) m"

text \<open>Consecutive 64-bit stores.\<close>

fun store_words :: "u64 \<Rightarrow> u64 list \<Rightarrow> mem \<Rightarrow> mem" where
  "store_words a [] m = m"
| "store_words a (w # ws) m = store_words (a + 8) ws (store 8 a w m)"

lemma length_le_bytes [simp]: "length (le_bytes n w) = n"
  by (induction n arbitrary: w) auto

lemma le_word_bytes: "le_word (le_bytes n w) = take_bit (8 * n) w"
proof (induction n arbitrary: w)
  case (Suc n)
  show ?case
    by (rule bit_word_eqI) (auto simp: Suc bit_simps split: if_splits)
qed simp

lemma unat_offset: "unat (x - (a + 1)) = unat (x - a) - 1" if "x \<noteq> a" for x a :: u64
proof -
  have "x - a \<noteq> 0" using that by simp
  then show ?thesis using unat_minus_one [of "x - a"] by (simp add: algebra_simps)
qed

lemma store_bytes_at:
  "length bs \<le> 2 ^ 64 \<Longrightarrow> store_bytes a bs m x = (if unat (x - a) < length bs then bs ! unat (x - a) else m x)"
proof (induction bs arbitrary: a m)
  case (Cons b bs)
  show ?case
  proof (cases "x = a")
    case True
    have "unat (a - (a + 1)) = 2 ^ 64 - 1" using unat_sub_if' [of 0 "1 :: u64"] by simp
    then show ?thesis using Cons True by simp
  next
    case False
    have "0 < unat (x - a)" using False by (simp add: unat_gt_0)
    then show ?thesis using Cons False unat_offset [OF False] by (auto simp: nth_Cons' Suc_le_eq)
  qed
qed simp

lemma store_bytes_outside: "length bs \<le> unat (x - a) \<Longrightarrow> store_bytes a bs m x = m x"
  using unat_lt_64 [of "x - a"] by (simp add: store_bytes_at)

lemma mem_bytes_store_bytes: "length bs < 2 ^ 64 \<Longrightarrow> mem_bytes (length bs) a (store_bytes a bs m) = bs"
  by (rule nth_equalityI) (simp_all add: mem_bytes_def store_bytes_at unat_of_nat_64)

text \<open>What was stored is loaded back.\<close>

lemma load_store: "n \<le> 8 \<Longrightarrow> load n a (store n a w m) = take_bit (8 * n) w"
  using mem_bytes_store_bytes [of "le_bytes n w" a m] by (simp add: load_def store_def le_word_bytes)

lemma load_cong: "(\<And>i. i < n \<Longrightarrow> m (a + of_nat i) = m' (a + of_nat i)) \<Longrightarrow> load n a m = load n a m'"
  unfolding load_def mem_bytes_def by (rule arg_cong [of _ _ le_word], rule map_cong) auto

lemma store_words_outside: "8 * length ws \<le> unat (x - a) \<Longrightarrow> store_words a ws m x = m x"
proof (induction ws arbitrary: a m)
  case (Cons w ws)
  have le: "(8 :: u64) \<le> x - a" using Cons.prems by (simp add: word_le_nat_alt)
  have "x - (a + 8) = (x - a) - 8" by (simp add: algebra_simps)
  then have "unat (x - (a + 8)) = unat (x - a) - 8" using unat_sub [OF le] by (simp only: unat_numeral) simp
  then show ?case using Cons by (simp add: store_def store_bytes_outside)
qed simp

lemma load_store_words:
  "i < length ws \<Longrightarrow> 8 * length ws < 2 ^ 64 \<Longrightarrow> load 8 (a + 8 * of_nat i) (store_words a ws m) = ws ! i"
proof (induction ws arbitrary: a m i)
  case (Cons w ws)
  show ?case
  proof (cases i)
    case 0
    have "store_words (a + 8) ws m' (a + of_nat k) = m' (a + of_nat k)" if k: "k < 8" for k m'
    proof (rule store_words_outside)
      have "a + of_nat k - (a + 8) = of_nat k - 8" by (simp add: algebra_simps)
      moreover have "unat (of_nat k - 8 :: u64) = k + 2 ^ 64 - 8"
        using k unat_sub_if' [of "of_nat k" "8 :: u64"] by (simp add: unat_of_nat_64)
      ultimately show "8 * length ws \<le> unat (a + of_nat k - (a + 8))" using Cons.prems(2) k by simp
    qed
    then have "load 8 a (store_words (a + 8) ws (store 8 a w m)) = load 8 a (store 8 a w m)" by (intro load_cong)
    moreover have "take_bit 64 w = w" by (rule bit_word_eqI) (simp add: bit_simps)
    ultimately show ?thesis using 0 by (simp add: load_store)
  next
    case (Suc j)
    then show ?thesis using Cons.IH [of j "a + 8" "store 8 a w m"] Cons.prems by (simp add: algebra_simps)
  qed
qed simp

end
