(* ===== verification/Signals.thy ===== *)
theory Signals
  imports Rtos Little_Endian
begin

text \<open>
  Signals, \<^verbatim>\<open>src/syscall/signal.c\<close>, and the timer interrupt, \<^verbatim>\<open>src/exception/timer/timer.c\<close>.
  The memory of the running user address space is byte addressed.  The trap frame has the
  saved registers and, at word 35, the user stack pointer.  An operation that ends
  the current task has the value \<open>Exited\<close>.
\<close>

section \<open>State\<close>

record trap_frame =
  tf_regs :: "u64 list"
  tf_elr :: u64
  tf_spsr :: u64
  tf_esr :: u64
  tf_far :: u64
  tf_sp :: u64

record sys = rtos +
  umem :: mem
  timer_interval :: u64
  g_next_tick :: u64
  cntp_cval :: u64
  cntp_enabled :: bool

datatype outcome = Returned int trap_frame | Exited

abbreviation (input) SIGKILL :: nat where "SIGKILL \<equiv> 9"
abbreviation (input) SIGALRM :: nat where "SIGALRM \<equiv> 14"
abbreviation (input) SIG_DFL :: u64 where "SIG_DFL \<equiv> 0"
abbreviation (input) SIG_IGN :: u64 where "SIG_IGN \<equiv> 1"
abbreviation (input) SIGFRAME_RESERVE :: u64 where "SIGFRAME_RESERVE \<equiv> 288"
abbreviation (input) SIZEOF_SIGFRAME :: u64 where "SIZEOF_SIGFRAME \<equiv> 280"

section \<open>Delivery\<close>

definition signal_terminate :: "'a sys_scheme \<Rightarrow> (outcome \<times> 'a sys_scheme) option" where
  "signal_terminate s = map_option (Pair Exited) (task_exit s)"

text \<open>The words of a signal frame, in memory order.\<close>

definition sigframe :: "trap_frame \<Rightarrow> u64 list" where
  "sigframe f = tf_regs f @ [tf_sp f, tf_elr f, tf_spsr f, USER_SIGTRAMP_VA]"

definition deliver_one :: "u64 \<Rightarrow> trap_frame \<Rightarrow> nat \<Rightarrow> u64 \<Rightarrow> 'a sys_scheme \<Rightarrow> (outcome \<times> 'a sys_scheme) option" where
  "deliver_one t frame sig handler s =
    (let old_sp = tf_sp frame;
         new_sp = (old_sp - SIGFRAME_RESERVE) AND NOT 15;
         stack_lo = USER_STACK_TOP - (USER_STACK_PAGES + of_nat (length (t_stack_grown (task_at s t)))) * PAGE_SIZE
     in if new_sp < stack_lo \<or> old_sp > USER_STACK_TOP then signal_terminate s
        else Some (Returned 1 (frame\<lparr>tf_elr := handler, tf_regs := (tf_regs frame)[0 := of_nat sig, 30 := USER_SIGTRAMP_VA], tf_sp := new_sp\<rparr>),
                   s\<lparr>umem := store_words new_sp (sigframe frame) (umem s)\<rparr>))"

text \<open>The search for a signal to act on; ignored ones are dropped on the way.\<close>

datatype action = No_signal | Terminate nat | Handle nat u64

definition lowest_signal :: "u32 \<Rightarrow> nat option" where
  "lowest_signal pending = find (\<lambda>n. pending AND push_bit n 1 \<noteq> 0) [1..<32]"

lemma and_push_one: "(w :: u32) AND push_bit n 1 \<noteq> 0 \<longleftrightarrow> bit w n"
proof
  assume "w AND push_bit n 1 \<noteq> 0"
  then obtain k where "bit (w AND push_bit n 1) k" using bit_eq_iff [of "w AND push_bit n 1" 0] by auto
  then show "bit w n" by (auto simp: bit_simps)
next
  assume "bit w n"
  then have "bit (w AND push_bit n 1) n" using bit_imp_le_length [of w n] by (simp add: bit_simps)
  then show "w AND push_bit n 1 \<noteq> 0" by auto
qed

lemma find_someD: "find P xs = Some x \<Longrightarrow> P x \<and> x \<in> set xs"
  by (induction xs) (auto split: if_splits)

lemma lowest_signal_bit: "lowest_signal p = Some n \<Longrightarrow> bit p n \<and> 1 \<le> n \<and> n < 32"
  unfolding lowest_signal_def and_push_one by (drule find_someD) auto

lemma clear_bit_less: "bit (w :: u32) n \<Longrightarrow> unat (w AND NOT (push_bit n 1)) < unat w"
proof -
  assume b: "bit w n"
  then have "\<not> bit (w AND NOT (push_bit n 1)) n" using bit_imp_le_length [of w n] by (simp add: bit_simps)
  then have "w AND NOT (push_bit n 1) \<noteq> w" using b by auto
  moreover have "w AND NOT (push_bit n 1) \<le> w" by (rule word_and_le2)
  ultimately show ?thesis by (simp add: word_less_nat_alt [symmetric])
qed

function next_signal :: "u64 list \<Rightarrow> u32 \<Rightarrow> u32 \<Rightarrow> action \<times> u32" where
  "next_signal handlers blocked pending =
    (case lowest_signal (pending AND NOT blocked) of
       None \<Rightarrow> (No_signal, pending)
     | Some sig \<Rightarrow>
        (let pending' = pending AND NOT (push_bit sig 1); handler = handlers ! sig in
         if sig = SIGKILL then (Terminate sig, pending')
         else if handler = SIG_IGN then next_signal handlers blocked pending'
         else if handler = SIG_DFL then (Terminate sig, pending')
         else (Handle sig handler, pending')))"
  by pat_completeness auto
termination
  by (relation "measure (\<lambda>(_, _, p). unat p)") (auto dest!: lowest_signal_bit intro!: clear_bit_less [simplified] simp: bit_simps)

declare next_signal.simps [simp del]

definition signal_check_and_deliver :: "u64 \<Rightarrow> trap_frame \<Rightarrow> 'a sys_scheme \<Rightarrow> (outcome \<times> 'a sys_scheme) option" where
  "signal_check_and_deliver t frame s =
    (if t = 0 \<or> tf_spsr frame AND 0xF \<noteq> 0 then Some (Returned 0 frame, s)
     else let k = task_at s t; (a, pending) = next_signal (t_sig_handlers k) (t_sig_blocked k) (t_sig_pending k);
              s1 = upd_task t (\<lambda>k. k\<lparr>t_sig_pending := pending\<rparr>) s
          in (case a of
                No_signal \<Rightarrow> Some (Returned 0 frame, s1)
              | Terminate sig \<Rightarrow> signal_terminate s1
              | Handle sig handler \<Rightarrow> deliver_one t frame sig handler s1))"

definition signal_sigreturn :: "trap_frame \<Rightarrow> 'a sys_scheme \<Rightarrow> (outcome \<times> 'a sys_scheme) option" where
  "signal_sigreturn frame s =
    (let user_sp = tf_sp frame; word = (\<lambda>i. load 8 (user_sp + 8 * of_nat i) (umem s)) in
     if user_sp \<ge> USER_STACK_TOP \<or> user_sp + SIZEOF_SIGFRAME > USER_STACK_TOP then signal_terminate s
     else Some (Returned 0 (frame\<lparr>tf_regs := map word [0..<31], tf_elr := word 32, tf_spsr := word 33, tf_sp := word 31\<rparr>), s))"

section \<open>System calls on signals\<close>

definition signal_sigaction :: "u64 \<Rightarrow> int \<Rightarrow> u64 \<Rightarrow> 'a sys_scheme \<Rightarrow> int \<times> 'a sys_scheme" where
  "signal_sigaction t signum handler s =
    (if signum < 1 \<or> signum > 31 \<or> signum = int SIGKILL then (-1, s)
     else (0, upd_task t (\<lambda>k. k\<lparr>t_sig_handlers := (t_sig_handlers k)[nat signum := handler]\<rparr>) s))"

definition u32_ptr_ok :: "u64 \<Rightarrow> bool" where
  "u32_ptr_ok ptr \<longleftrightarrow> ptr \<noteq> 0 \<and> \<not> (ptr + 4 > USER_STACK_TOP \<or> ptr + 4 < ptr)"

definition new_mask :: "int \<Rightarrow> u32 \<Rightarrow> u32 \<Rightarrow> u32 option" where
  "new_mask how s blocked =
    (if how = 0 then Some (blocked OR s) else if how = 1 then Some (blocked AND NOT s) else if how = 2 then Some s else None)"

definition write_oldset :: "u64 \<Rightarrow> u32 \<Rightarrow> 'a sys_scheme \<Rightarrow> int \<times> 'a sys_scheme" where
  "write_oldset p oldmask s =
    (if p = 0 then (0, s) else if \<not> u32_ptr_ok p then (-1, s) else (0, s\<lparr>umem := store 4 p (ucast oldmask) (umem s)\<rparr>))"

definition signal_sigprocmask :: "u64 \<Rightarrow> int \<Rightarrow> u64 \<Rightarrow> u64 \<Rightarrow> 'a sys_scheme \<Rightarrow> int \<times> 'a sys_scheme" where
  "signal_sigprocmask t how set_ptr oldset_ptr s =
    (let oldmask = t_sig_blocked (task_at s t) in
     if set_ptr = 0 then write_oldset oldset_ptr oldmask s
     else if \<not> u32_ptr_ok set_ptr then (-1, s)
     else case new_mask how (ucast (load 4 set_ptr (umem s))) oldmask of
            None \<Rightarrow> (-1, s)
          | Some blocked \<Rightarrow>
             write_oldset oldset_ptr oldmask (upd_task t (\<lambda>k. k\<lparr>t_sig_blocked := blocked AND NOT (push_bit SIGKILL 1)\<rparr>) s))"

definition signal_alarm :: "u64 \<Rightarrow> u64 \<Rightarrow> 'a sys_scheme \<Rightarrow> int \<times> 'a sys_scheme" where
  "signal_alarm t seconds s =
    (let ticks_per_sec = 1000 div TIMER_INTERVAL_MS; prev_ticks = t_sig_alarm_ticks (task_at s t);
         prev_seconds = (prev_ticks + ticks_per_sec - 1) div ticks_per_sec
     in (sint prev_seconds, upd_task t (\<lambda>k. k\<lparr>t_sig_alarm_ticks := seconds * ticks_per_sec\<rparr>) s))"

definition tick_alarm :: "task \<Rightarrow> task" where
  "tick_alarm k =
    (if t_sig_alarm_ticks k > 0
     then let n = t_sig_alarm_ticks k - 1; k1 = k\<lparr>t_sig_alarm_ticks := n\<rparr>
          in if n = 0 then k1\<lparr>t_sig_pending := t_sig_pending k OR push_bit SIGALRM 1\<rparr> else k1
     else k)"

partial_function (option) alarms_from :: "u64 \<Rightarrow> u64 \<Rightarrow> (u64 \<Rightarrow> task) \<Rightarrow> (u64 \<Rightarrow> task) option" where
  "alarms_from head t T =
    (let k = tick_alarm (T t); T1 = T(t := k) in if t_next k = head then Some T1 else alarms_from head (t_next k) T1)"

definition signal_tick_alarms :: "'a sys_scheme \<Rightarrow> 'a sys_scheme option" where
  "signal_tick_alarms s = map_option (\<lambda>T. s\<lparr>task_at := T\<rparr>) (alarms_from (idle_task s) (idle_task s) (task_at s))"

section \<open>The timer\<close>

definition timer_init :: "u64 \<Rightarrow> 'a sys_scheme \<Rightarrow> 'a sys_scheme" where
  "timer_init cntfrq s = s\<lparr>timer_freq := cntfrq\<rparr>"

definition timer_start :: "u64 \<Rightarrow> u64 \<Rightarrow> 'a sys_scheme \<Rightarrow> 'a sys_scheme" where
  "timer_start interval_ms now s =
    (if timer_freq s = 0 then s
     else let interval = timer_freq s * interval_ms div 1000
          in s\<lparr>timer_interval := interval, tick_count := 0, g_next_tick := now + interval, cntp_cval := now + interval, cntp_enabled := True\<rparr>)"

definition timer_stop :: "'a sys_scheme \<Rightarrow> 'a sys_scheme" where
  "timer_stop s = s\<lparr>cntp_enabled := False\<rparr>"

text \<open>The work of a scheduler tick; \<open>callback\<close> is what \<open>timer_set_callback\<close> installed.\<close>

definition timer_tick :: "('a sys_scheme \<Rightarrow> 'a sys_scheme) option \<Rightarrow> 'a sys_scheme \<Rightarrow> 'a sys_scheme option" where
  "timer_tick callback s =
    (case sched_wake_sleepers (s\<lparr>tick_count := tick_count s + 1, g_next_tick := g_next_tick s + timer_interval s\<rparr>) of
       None \<Rightarrow> None
     | Some s1 \<Rightarrow>
        (case signal_tick_alarms s1 of
           None \<Rightarrow> None
         | Some s2 \<Rightarrow> Some (case callback of Some f \<Rightarrow> f s2 | None \<Rightarrow> s2)))"

text \<open>The next deadline; \<open>now2\<close> is the counter when it is programmed.\<close>

definition next_event :: "u64 \<Rightarrow> u64 \<Rightarrow> u64 \<Rightarrow> u64 \<Rightarrow> u64" where
  "next_event next_tick rt_earliest interval now2 =
    (let next_ev = (if rt_earliest \<noteq> 0 \<and> rt_earliest < next_tick then rt_earliest else next_tick);
         slack = (if interval div 100 = 0 then 1 else interval div 100)
     in if next_ev \<le> now2 then now2 + slack else next_ev)"

definition timer_handle_irq ::
  "('a sys_scheme \<Rightarrow> 'a sys_scheme) option \<Rightarrow> u64 \<Rightarrow> u64 \<Rightarrow> u64 \<Rightarrow> 'a sys_scheme \<Rightarrow> 'a sys_scheme option" where
  "timer_handle_irq callback now now1 now2 s =
    (case (if now \<ge> g_next_tick s then timer_tick callback s else Some s) of
       None \<Rightarrow> None
     | Some s1 \<Rightarrow>
        (case rt_tick_release now1 s1 of
           None \<Rightarrow> None
         | Some (e, s2) \<Rightarrow> Some (s2\<lparr>cntp_cval := next_event (g_next_tick s2) e (timer_interval s2) now2\<rparr>)))"

definition timer_uptime_ms :: "'a sys_scheme \<Rightarrow> u64" where
  "timer_uptime_ms s = tick_count s * TIMER_INTERVAL_MS"

definition timer_uptime_seconds :: "'a sys_scheme \<Rightarrow> u64" where
  "timer_uptime_seconds s = tick_count s * TIMER_INTERVAL_MS div 1000"

section \<open>Which signal is delivered\<close>

lemma lowest_signal_least:
  assumes "lowest_signal p = Some n" "1 \<le> i" "i < n"
  shows "\<not> bit p i"
proof -
  obtain k where k: "n = 1 + k" "\<forall>j < k. \<not> bit p (1 + j)"
    using assms(1) unfolding lowest_signal_def and_push_one by (auto simp: find_Some_iff)
  then show ?thesis using assms(2,3) by (auto dest: spec [of _ "i - 1"])
qed

text \<open>
  The signal that is acted on is pending and not blocked, no lower one is except
  ignored ones, and the pending set loses it and those.
\<close>

definition deliverable :: "u64 list \<Rightarrow> u32 \<Rightarrow> u32 \<Rightarrow> nat \<Rightarrow> bool" where
  "deliverable handlers blocked pending n \<longleftrightarrow> 1 \<le> n \<and> n < 32 \<and> bit pending n \<and> \<not> bit blocked n \<and>
     (n = SIGKILL \<or> handlers ! n \<noteq> SIG_IGN)"

lemma next_signal_spec:
  "case next_signal handlers blocked pending of
     (No_signal, p) \<Rightarrow> (\<forall>n. \<not> deliverable handlers blocked pending n)
   | (Terminate n, p) \<Rightarrow> deliverable handlers blocked pending n \<and> (n = SIGKILL \<or> handlers ! n = SIG_DFL) \<and>
        (\<forall>i < n. \<not> deliverable handlers blocked pending i) \<and> \<not> bit p n
   | (Handle n h, p) \<Rightarrow> deliverable handlers blocked pending n \<and> n \<noteq> SIGKILL \<and> h = handlers ! n \<and> h \<noteq> SIG_DFL \<and> h \<noteq> SIG_IGN \<and>
        (\<forall>i < n. \<not> deliverable handlers blocked pending i) \<and> \<not> bit p n"
proof (induction handlers blocked pending rule: next_signal.induct)
  case (1 handlers blocked pending)
  show ?case
  proof (cases "lowest_signal (pending AND NOT blocked)")
    case None
    then have "\<not> deliverable handlers blocked pending n" for n
      unfolding lowest_signal_def and_push_one find_None_iff deliverable_def by (auto simp: bit_simps)
    then show ?thesis using None by (subst next_signal.simps) simp
  next
    case (Some sig)
    let ?p = "pending AND NOT (push_bit sig 1)"
    have b: "1 \<le> sig" "sig < 32" "bit pending sig" "\<not> bit blocked sig" using lowest_signal_bit [OF Some] by (auto simp: bit_simps)
    have low: "\<not> deliverable handlers blocked pending i" if "i < sig" for i
      using lowest_signal_least [OF Some, of i] that by (auto simp: deliverable_def bit_simps)
    have clr: "bit ?p i \<longleftrightarrow> bit pending i \<and> i \<noteq> sig" for i using b(2) bit_imp_le_length [of pending i] by (auto simp: bit_simps)
    show ?thesis
    proof (cases "sig \<noteq> SIGKILL \<and> handlers ! sig = SIG_IGN")
      case True
      have d: "deliverable handlers blocked ?p n = deliverable handlers blocked pending n" for n
        using True unfolding deliverable_def clr by auto
      have "next_signal handlers blocked pending = next_signal handlers blocked ?p"
        using Some True by (subst next_signal.simps) (simp add: Let_def del: push_bit_of_1)
      then show ?thesis using 1 [OF Some refl refl] True unfolding d by simp
    next
      case False
      then have "deliverable handlers blocked pending sig" using b by (auto simp: deliverable_def)
      then show ?thesis using Some False low clr
        by (subst next_signal.simps) (auto simp: Let_def simp del: push_bit_of_1)
    qed
  qed
qed

section \<open>The frame on the user stack\<close>

lemma sig_sp:
  fixes old_sp :: u64
  assumes "288 \<le> old_sp"
  defines "new_sp \<equiv> (old_sp - SIGFRAME_RESERVE) AND NOT 15"
  shows "unat new_sp = (unat old_sp - 288) div 16 * 16" "unat new_sp + 288 \<le> unat old_sp" "new_sp AND 15 = 0"
proof -
  have m: "(15 :: u64) = mask 4" by (simp add: mask_eq_exp_minus_1)
  have "unat (old_sp - 288) = unat old_sp - 288" using unat_sub [OF assms(1)] by simp
  then show u: "unat new_sp = (unat old_sp - 288) div 16 * 16"
    unfolding new_sp_def m using unat_and_not_mask [of 4 "old_sp - 288"] by simp
  have "288 \<le> unat old_sp" using assms(1) by (simp add: word_le_nat_alt)
  moreover have "(unat old_sp - 288) div 16 * 16 \<le> unat old_sp - 288" by (rule div_times_less_eq_dividend)
  ultimately show "unat new_sp + 288 \<le> unat old_sp" unfolding u by linarith
  show "new_sp AND 15 = 0" unfolding new_sp_def by (rule bit_word_eqI) (auto simp: bit_simps)
qed

lemma deliver_one_returns:
  assumes "deliver_one t f n h s = Some (Returned 1 f', s')"
  shows "tf_sp f \<le> USER_STACK_TOP" "tf_sp f' = (tf_sp f - SIGFRAME_RESERVE) AND NOT 15" "s' = s\<lparr>umem := store_words (tf_sp f') (sigframe f) (umem s)\<rparr>"
    "f' = f\<lparr>tf_elr := h, tf_regs := (tf_regs f)[0 := of_nat n, 30 := USER_SIGTRAMP_VA], tf_sp := tf_sp f'\<rparr>"
  using assms by (auto simp: deliver_one_def signal_terminate_def Let_def split: if_splits)

text \<open>A frame that is still there is read back whole.\<close>

lemma sigreturn_restores:
  fixes u :: "'a sys_scheme"
  assumes f: "length (tf_regs f) = 31" "288 \<le> tf_sp f" "tf_sp f \<le> USER_STACK_TOP"
    and g: "tf_sp g = (tf_sp f - SIGFRAME_RESERVE) AND NOT 15"
    and keep: "\<And>i. i < 280 \<Longrightarrow> umem u (tf_sp g + of_nat i) = store_words (tf_sp g) (sigframe f) m (tf_sp g + of_nat i)"
  shows "signal_sigreturn g u =
    Some (Returned 0 (g\<lparr>tf_regs := tf_regs f, tf_elr := tf_elr f, tf_spsr := tf_spsr f, tf_sp := tf_sp f\<rparr>), u)"
proof -
  have len: "length (sigframe f) = 35" using f(1) by (simp add: sigframe_def)
  have word: "load 8 (tf_sp g + 8 * of_nat i) (umem u) = sigframe f ! i" if i: "i < 35" for i
  proof -
    have "umem u (tf_sp g + 8 * of_nat i + of_nat k) = store_words (tf_sp g) (sigframe f) m (tf_sp g + 8 * of_nat i + of_nat k)"
      if "k < 8" for k
      using keep [of "8 * i + k"] i that by (simp add: algebra_simps)
    then have "load 8 (tf_sp g + 8 * of_nat i) (umem u) = load 8 (tf_sp g + 8 * of_nat i) (store_words (tf_sp g) (sigframe f) m)"
      by (rule load_cong)
    then show ?thesis using load_store_words [of i "sigframe f" "tf_sp g" m] i len by simp
  qed
  have regs: "map (\<lambda>i. load 8 (tf_sp g + 8 * of_nat i) (umem u)) [0..<31] = tf_regs f"
    by (rule nth_equalityI) (use f(1) in \<open>simp_all add: word sigframe_def nth_append\<close>)
  have rest: "sigframe f ! 31 = tf_sp f" "sigframe f ! 32 = tf_elr f" "sigframe f ! 33 = tf_spsr f"
    using f(1) by (simp_all add: sigframe_def nth_append)
  have sp: "unat (tf_sp g) + 288 \<le> unat (tf_sp f)" unfolding g by (rule sig_sp(2) [OF f(2)])
  then have "unat (tf_sp g) + 288 \<le> 0x800000" using f(3) by (simp add: word_le_nat_alt)
  then have "\<not> (tf_sp g \<ge> USER_STACK_TOP \<or> tf_sp g + SIZEOF_SIGFRAME > USER_STACK_TOP)"
    by (simp add: word_le_nat_alt word_less_nat_alt unat_plus_64)
  then show ?thesis unfolding signal_sigreturn_def Let_def using regs word [of 31] word [of 32] word [of 33] rest by simp
qed

section \<open>Properties of signals and of the timer\<close>

text \<open>C9: Delivery and return.  When a handler is entered, its signal is the lowest
  pending one that is neither blocked nor ignored, it has a handler, and the frame
  below the interrupted stack pointer is 16-byte aligned and in the user stack; the
  handler gets the signal number and returns to the trampoline.  If the handler leaves that
  frame alone and comes back with its stack pointer, \<open>signal_sigreturn\<close> restores every
  register, the program counter, the processor state and the stack pointer of the
  interrupted program.\<close>

theorem signal_roundtrip:
  fixes s s' u :: "'a sys_scheme"
  assumes "length (tf_regs f) = 31" "288 \<le> tf_sp f" "signal_check_and_deliver t f s = Some (Returned 1 f', s')"
    and "tf_sp g = tf_sp f'" "\<And>i. i < 280 \<Longrightarrow> umem u (tf_sp f' + of_nat i) = umem s' (tf_sp f' + of_nat i)"
  shows "(\<exists>n. let k = task_at s t in
      deliverable (t_sig_handlers k) (t_sig_blocked k) (t_sig_pending k) n \<and>
      (\<forall>i < n. \<not> deliverable (t_sig_handlers k) (t_sig_blocked k) (t_sig_pending k) i) \<and>
      f' = f\<lparr>tf_elr := t_sig_handlers k ! n, tf_regs := (tf_regs f)[0 := of_nat n, 30 := USER_SIGTRAMP_VA], tf_sp := tf_sp f'\<rparr> \<and>
      n \<noteq> SIGKILL \<and> t_sig_handlers k ! n \<noteq> SIG_DFL) \<and>
    tf_sp f' AND 15 = 0 \<and> unat (tf_sp f') + 280 \<le> unat (tf_sp f) \<and>
    signal_sigreturn g u = Some (Returned 0 (g\<lparr>tf_regs := tf_regs f, tf_elr := tf_elr f, tf_spsr := tf_spsr f, tf_sp := tf_sp f\<rparr>), u)"
proof -
  let ?k = "task_at s t"
  obtain a p where a: "next_signal (t_sig_handlers ?k) (t_sig_blocked ?k) (t_sig_pending ?k) = (a, p)" by fastforce
  let ?s1 = "upd_task t (\<lambda>k. k\<lparr>t_sig_pending := p\<rparr>) s"
  obtain n h where ah: "a = Handle n h" "deliver_one t f n h ?s1 = Some (Returned 1 f', s')"
    using assms(3) a by (auto simp: signal_check_and_deliver_def signal_terminate_def Let_def split: if_splits action.splits)
  note d = deliver_one_returns [OF ah(2)]
  have spec: "deliverable (t_sig_handlers ?k) (t_sig_blocked ?k) (t_sig_pending ?k) n" "n \<noteq> SIGKILL" "h = t_sig_handlers ?k ! n" "h \<noteq> SIG_DFL"
      "\<forall>i < n. \<not> deliverable (t_sig_handlers ?k) (t_sig_blocked ?k) (t_sig_pending ?k) i"
    using next_signal_spec [of "t_sig_handlers ?k" "t_sig_blocked ?k" "t_sig_pending ?k"] unfolding a ah(1) by auto
  have "umem u (tf_sp g + of_nat i) = store_words (tf_sp g) (sigframe f) (umem ?s1) (tf_sp g + of_nat i)" if "i < 280" for i
    using assms(5) [OF that] unfolding assms(4) d(3) by simp
  then have "signal_sigreturn g u = Some (Returned 0 (g\<lparr>tf_regs := tf_regs f, tf_elr := tf_elr f, tf_spsr := tf_spsr f, tf_sp := tf_sp f\<rparr>), u)"
    by (rule sigreturn_restores [OF assms(1,2) d(1) trans [OF assms(4) d(2)]])
  moreover have "tf_sp f' AND 15 = 0" "unat (tf_sp f') + 280 \<le> unat (tf_sp f)"
    using sig_sp(2,3) [OF assms(2)] unfolding d(2) by auto
  ultimately show ?thesis using spec d(4) unfolding Let_def by blast
qed

text \<open>The system of the scheduler's examples with the timer and user memory.\<close>

definition demo_sys :: "task \<Rightarrow> sys" where
  "demo_sys k = rtos.extend (rtos.truncate (demo_rt 0xFFFF000040003020 k
       (zero_task\<lparr>t_state := TASK_SLEEPING, t_rt_period := 700, t_rt_next_release := 4000, t_next := 0xFFFF000040001000, t_pid := 2\<rparr>)
       (\<lambda>_. \<lparr>m_owner = 0, m_waiters = 0, m_locked = False\<rparr>)))
     \<lparr>umem = (\<lambda>_. 0), timer_interval = 1000, g_next_tick = 5000, cntp_cval = 4000, cntp_enabled = True\<rparr>"

text \<open>Signals 2 (ignored), 14 (default) and 15 (handled) are pending; 14 is blocked.\<close>

definition demo_signalled :: task where
  "demo_signalled = zero_task\<lparr>t_state := TASK_RUNNING, t_next := 0xFFFF000040003440, t_pid := 1, t_sig_pending := 0xC004,
     t_sig_blocked := 0x4000, t_sig_handlers := (replicate 32 0)[2 := 1, 15 := 0x201000]\<rparr>"

definition demo_frame :: trap_frame where
  "demo_frame = \<lparr>tf_regs = map of_nat [100..<131], tf_elr = 0x200040, tf_spsr = 0, tf_esr = 0, tf_far = 0, tf_sp = 0x7FFF38\<rparr>"

lemma demo_signal: "next_signal (t_sig_handlers demo_signalled) (t_sig_blocked demo_signalled) (t_sig_pending demo_signalled) = (Handle 15 0x201000, 0x4000)"
proof -
  have l: "lowest_signal (0xC004 AND NOT 0x4000) = Some 2" "lowest_signal (0xC000 AND NOT 0x4000) = Some 15" by code_simp+
  have e: "(0xC004 :: u32) AND NOT (push_bit 2 1) = 0xC000" "(0xC000 :: u32) AND NOT (push_bit 15 1) = 0x4000" by code_simp+
  let ?h = "(replicate 32 0)[2 := 1, 15 := 0x201000] :: u64 list"
  have h: "?h ! 2 = 1" "?h ! 15 = 0x201000" by simp_all
  have "next_signal ?h 0x4000 0xC004 = next_signal ?h 0x4000 0xC000"
    by (subst next_signal.simps) (simp only: l e h option.case Let_def, simp)
  also have "\<dots> = (Handle 15 0x201000, 0x4000)"
    by (subst next_signal.simps) (simp only: l e h option.case Let_def, simp)
  finally show ?thesis by (simp add: demo_signalled_def)
qed

theorem signal_roundtrip_witness:
  "\<exists>f' s' n. signal_check_and_deliver 0xFFFF000040003020 demo_frame (demo_sys demo_signalled) = Some (Returned 1 f', s') \<and>
    f' = demo_frame\<lparr>tf_elr := t_sig_handlers demo_signalled ! n, tf_regs := (tf_regs demo_frame)[0 := of_nat n, 30 := USER_SIGTRAMP_VA], tf_sp := tf_sp f'\<rparr> \<and>
    signal_sigreturn f' s' = Some (Returned 0 (f'\<lparr>tf_regs := tf_regs demo_frame, tf_elr := tf_elr demo_frame,
      tf_spsr := tf_spsr demo_frame, tf_sp := tf_sp demo_frame\<rparr>), s')"
proof -
  let ?t = "0xFFFF000040003020 :: u64" and ?s = "demo_sys demo_signalled"
  have k: "task_at ?s ?t = demo_signalled" by (simp add: demo_sys_def rtos.defs demo_rt_fields)
  have g: "t_stack_grown (demo_signalled\<lparr>t_sig_pending := p\<rparr>) = []" "tf_spsr demo_frame = 0" "tf_sp demo_frame = 0x7FFF38" for p
    by (simp_all add: demo_signalled_def zero_task_def demo_frame_def)
  have "\<exists>f' s'. deliver_one ?t demo_frame 15 0x201000 (upd_task ?t (\<lambda>k. k\<lparr>t_sig_pending := 0x4000\<rparr>) ?s) = Some (Returned 1 f', s')"
    unfolding deliver_one_def Let_def by (simp add: upd_task_def k g)
  then obtain f' s' where d: "signal_check_and_deliver ?t demo_frame ?s = Some (Returned 1 f', s')"
    by (auto simp: signal_check_and_deliver_def Let_def k demo_signal g)
  have f: "length (tf_regs demo_frame) = 31" "288 \<le> tf_sp demo_frame" by (simp_all add: demo_frame_def)
  from signal_roundtrip [OF f d refl, where u = s'] show ?thesis using d unfolding Let_def k by blast
qed

text \<open>
  The guard of \<open>deliver_one\<close> is evaded by a stack pointer below the reservation: the subtraction
  wraps and the frame is written at the top of the address space, in the kernel's half.
\<close>

lemma deliver_one_wraps:
  fixes s :: "'a sys_scheme"
  assumes "tf_sp f < 288" "length (t_stack_grown (task_at s t)) \<le> 60"
  shows "\<exists>f'. deliver_one t f n h s = Some (Returned 1 f', s\<lparr>umem := store_words (tf_sp f') (sigframe f) (umem s)\<rparr>) \<and> tf_sp f' \<ge> 0xFFFFFFFFFFFFFEE0"
proof -
  let ?n = "(tf_sp f - 288) AND NOT 15"
  have lt: "unat (tf_sp f) < 288" using assms(1) by (simp add: word_less_nat_alt)
  have "unat (tf_sp f - 288) = unat (tf_sp f) + 2 ^ 64 - 288" using lt unat_sub_if' [of "tf_sp f" 288] by simp
  moreover have m: "(15 :: u64) = mask 4" by (simp add: mask_eq_exp_minus_1)
  ultimately have "unat ?n = (unat (tf_sp f) + 2 ^ 64 - 288) div 16 * 16" unfolding m using unat_and_not_mask [of 4 "tf_sp f - 288"] by simp
  moreover have "2 ^ 64 - 288 \<le> (x + 2 ^ 64 - 288) div 16 * 16" for x :: nat by simp
  ultimately have hi: "?n \<ge> 0xFFFFFFFFFFFFFEE0" unfolding word_le_nat_alt by simp
  have "USER_STACK_TOP - (USER_STACK_PAGES + of_nat j) * PAGE_SIZE \<le> 0xFFFFFFFFFFFFFEE0" if "j \<le> 60" for j
  proof -
    have "unat ((4 + of_nat j :: u64) * 0x1000) = (4 + j) * 0x1000" using that by (simp add: unat_mult_64 unat_plus_64 unat_of_nat_64)
    then have "unat (0x800000 - (4 + of_nat j) * 0x1000 :: u64) = 0x800000 - (4 + j) * 0x1000"
      using that unat_sub_if' [of "0x800000 :: u64" "(4 + of_nat j) * 0x1000"] by simp
    then show ?thesis by (simp add: word_le_nat_alt)
  qed
  then have "\<not> (?n < USER_STACK_TOP - (USER_STACK_PAGES + of_nat (length (t_stack_grown (task_at s t)))) * PAGE_SIZE)"
    using hi assms(2) by (meson not_less order_trans)
  moreover have "\<not> tf_sp f > USER_STACK_TOP" using lt by (simp add: word_less_nat_alt)
  ultimately show ?thesis using hi unfolding deliver_one_def Let_def by auto
qed

text \<open>The processor state comes back from user memory unchecked, exception level included.\<close>

lemma sigreturn_spsr_from_user:
  fixes s :: "'a sys_scheme"
  assumes "tf_sp g < 0x7FF000"
  shows "\<exists>f'. signal_sigreturn g (s\<lparr>umem := store 8 (tf_sp g + 264) w m\<rparr>) =
    Some (Returned 0 f', s\<lparr>umem := store 8 (tf_sp g + 264) w m\<rparr>) \<and> tf_spsr f' = w"
proof -
  have "unat (tf_sp g) < 0x7FF000" using assms by (simp add: word_less_nat_alt)
  then have "\<not> (tf_sp g \<ge> USER_STACK_TOP \<or> tf_sp g + SIZEOF_SIGFRAME > USER_STACK_TOP)"
    by (simp add: word_le_nat_alt word_less_nat_alt unat_plus_64)
  then show ?thesis by (simp add: signal_sigreturn_def Let_def load_store take_bit_word_eq_self)
qed

text \<open>A bad pointer for the old mask is reported after the new mask has been installed.\<close>

lemma sigprocmask_fails_after_change:
  fixes s :: "'a sys_scheme"
  assumes "u32_ptr_ok p" "q \<noteq> 0" "\<not> u32_ptr_ok q" "new_mask how (ucast (load 4 p (umem s))) (t_sig_blocked (task_at s t)) = Some b"
  shows "fst (signal_sigprocmask t how p q s) = -1 \<and>
    t_sig_blocked (task_at (snd (signal_sigprocmask t how p q s)) t) = b AND NOT (push_bit SIGKILL 1)"
  using assms by (auto simp: signal_sigprocmask_def write_oldset_def Let_def upd_task_def u32_ptr_ok_def)

text \<open>\<open>SIGKILL\<close> is never blocked by the system call.\<close>

lemma sigkill_stays_unblocked:
  fixes s :: "'a sys_scheme"
  assumes "\<not> bit (t_sig_blocked (task_at s u)) SIGKILL"
  shows "\<not> bit (t_sig_blocked (task_at (snd (signal_sigprocmask t how p q s)) u)) SIGKILL"
proof -
  have "\<not> bit (b AND NOT (push_bit SIGKILL 1) :: u32) SIGKILL" for b by (simp add: bit_simps)
  then show ?thesis
    using assms by (auto simp: signal_sigprocmask_def write_oldset_def Let_def upd_task_def simp del: push_bit_of_1 split: option.splits)
qed

section \<open>The timer interrupt\<close>

lemma tick_alarm_same:
  "t_next (tick_alarm k) = t_next k" "same_res (tick_alarm k) k" "t_pid (tick_alarm k) = t_pid k" "t_state (tick_alarm k) = t_state k"
  by (simp_all add: tick_alarm_def same_res_def Let_def)

lemma alarms_from_chain:
  "chain_to T (t # ts) h \<Longrightarrow> h \<notin> set ts \<Longrightarrow> distinct (t # ts) \<Longrightarrow>
    alarms_from h t T = Some (\<lambda>a. if a \<in> set (t # ts) then tick_alarm (T a) else T a)"
proof (induction ts arbitrary: t T)
  case Nil
  then show ?case by (subst alarms_from.simps) (auto simp: Let_def tick_alarm_same fun_eq_iff)
next
  case (Cons u ts)
  let ?T = "T(t := tick_alarm (T t))"
  have n: "t_next (tick_alarm (T t)) = u" "u \<noteq> h" using Cons.prems by (auto simp: tick_alarm_same)
  have ne: "t \<notin> set (u # ts)" using Cons.prems(3) by simp
  have "chain_to ?T (u # ts) h = chain_to T (u # ts) h" by (rule chain_to_cong) (use ne in auto)
  then have c: "chain_to ?T (u # ts) h" using Cons.prems(1) by simp
  have "alarms_from h t T = alarms_from h u ?T" using n by (subst alarms_from.simps) (simp add: Let_def)
  also have "\<dots> = Some (\<lambda>a. if a \<in> set (u # ts) then tick_alarm (?T a) else ?T a)"
    using Cons.IH [OF c] Cons.prems by (auto simp: fun_upd_def)
  finally show ?case using ne by (auto simp: fun_eq_iff)
qed

lemma signal_tick_alarms_ok:
  assumes inv: "sched_inv V s" and q: "queue_pre s rs ds"
  shows "signal_tick_alarms s = Some (s\<lparr>task_at := (\<lambda>a. if a \<in> set rs then tick_alarm (task_at s a) else task_at s a)\<rparr>)"
    "sched_inv V (s\<lparr>task_at := (\<lambda>a. if a \<in> set rs then tick_alarm (task_at s a) else task_at s a)\<rparr>)"
proof -
  note d = queue_preD [OF q]
  obtain us vs where rs: "rs = us @ idle_task s # vs" "run_queue (task_at s) (idle_task s # vs @ us)"
    using run_queue_from [OF d(1,3)] by blast
  have sets: "set (idle_task s # vs @ us) = set rs" unfolding rs(1) by auto
  have "alarms_from (idle_task s) (idle_task s) (task_at s) =
      Some (\<lambda>a. if a \<in> set (idle_task s # vs @ us) then tick_alarm (task_at s a) else task_at s a)"
    using rs(2) by (intro alarms_from_chain) (auto simp: run_queue_def)
  then show "signal_tick_alarms s = Some (s\<lparr>task_at := (\<lambda>a. if a \<in> set rs then tick_alarm (task_at s a) else task_at s a)\<rparr>)"
    unfolding sets signal_tick_alarms_def by simp
  show "sched_inv V (s\<lparr>task_at := (\<lambda>a. if a \<in> set rs then tick_alarm (task_at s a) else task_at s a)\<rparr>)"
    by (rule sched_inv_map [OF inv]; use tick_alarm_same in \<open>simp add: same_res_def split: if_splits\<close>)
qed

lemma heap_live_sys [simp]:
  "heap_live (u\<lparr>g_next_tick := a\<rparr>) V = heap_live u V" "heap_live (u\<lparr>cntp_cval := a\<rparr>) V = heap_live u V"
  "heap_live (u\<lparr>umem := m\<rparr>) V = heap_live u V"
  by (rule heap_live_cong; simp)+

lemma sched_inv_sys [simp]:
  "sched_inv V (s\<lparr>tick_count := n\<rparr>) = sched_inv V s" "sched_inv V (u\<lparr>g_next_tick := a\<rparr>) = sched_inv V u"
  "sched_inv V (u\<lparr>cntp_cval := a\<rparr>) = sched_inv V u" "sched_inv V (u\<lparr>umem := m\<rparr>) = sched_inv V u"
  by (rule sched_inv_more; simp add: kheap.owned_def reserved_bytes_def page_bytes_def page_at_def heap_page_def page_addr_def npages_def
      allocated_def page_used_def heap_bytes_def)+

lemma wake_sleepers_ok:
  assumes inv: "sched_inv V s" and q: "queue_pre s rs ds"
  shows "\<exists>T. sched_wake_sleepers s = Some (s\<lparr>task_at := T\<rparr>) \<and> sched_inv V (s\<lparr>task_at := T\<rparr>) \<and> queue_pre (s\<lparr>task_at := T\<rparr>) rs ds"
proof -
  let ?T = "\<lambda>a. if a \<in> set rs - {idle_task s} then wake (tick_count s) (task_at s a) else task_at s a"
  have "sched_inv V (s\<lparr>task_at := ?T\<rparr>)"
    using sched_wake_sleepers_inv [OF inv] unfolding sched_wake_sleepers_effect [OF q] by auto
  moreover have "queue_pre (s\<lparr>task_at := ?T\<rparr>) rs ds"
    by (rule queue_pre_tasks [OF q]) (auto simp: wake_same wake_def split: if_splits)
  ultimately show ?thesis unfolding sched_wake_sleepers_effect [OF q] by blast
qed

lemma timer_tick_ok:
  fixes s :: "'a sys_scheme"
  assumes inv: "sched_inv V s"
    and cb: "\<And>f u. callback = Some f \<Longrightarrow> sched_inv V u \<Longrightarrow> sched_inv V (f u) \<and> tick_count (f u) = tick_count u \<and>
      g_next_tick (f u) = g_next_tick u \<and> timer_interval (f u) = timer_interval u"
  shows "\<exists>s'. timer_tick callback s = Some s' \<and> sched_inv V s' \<and> tick_count s' = tick_count s + 1 \<and>
    g_next_tick s' = g_next_tick s + timer_interval s \<and> timer_interval s' = timer_interval s"
proof -
  let ?s = "s\<lparr>tick_count := tick_count s + 1, g_next_tick := g_next_tick s + timer_interval s\<rparr>"
  have i0: "sched_inv V ?s" unfolding sched_inv_sys by (rule inv)
  obtain rs ds where q0: "queue_pre ?s rs ds" using sched_inv_queue [OF i0] by blast
  obtain T where w: "sched_wake_sleepers ?s = Some (?s\<lparr>task_at := T\<rparr>)" "sched_inv V (?s\<lparr>task_at := T\<rparr>)" "queue_pre (?s\<lparr>task_at := T\<rparr>) rs ds"
    using wake_sleepers_ok [OF i0 q0] by blast
  obtain T2 where a: "signal_tick_alarms (?s\<lparr>task_at := T\<rparr>) = Some (?s\<lparr>task_at := T, task_at := T2\<rparr>)"
      "sched_inv V (?s\<lparr>task_at := T, task_at := T2\<rparr>)"
    using signal_tick_alarms_ok [OF w(2,3)] by blast
  let ?s2 = "?s\<lparr>task_at := T, task_at := T2\<rparr>"
  have run: "timer_tick callback s = Some (case callback of Some f \<Rightarrow> f ?s2 | None \<Rightarrow> ?s2)"
    unfolding timer_tick_def w(1) option.case a(1) ..
  show ?thesis
  proof (cases callback)
    case None
    then show ?thesis using run a(2) by simp
  next
    case (Some f)
    then show ?thesis using run cb [OF Some a(2)] by simp
  qed
qed

lemma next_event_later:
  assumes "unat now2 + unat interval div 100 + 1 < 2 ^ 64"
  shows "now2 < next_event next_tick e interval now2"
    "next_event next_tick e interval now2 \<le> max next_tick (now2 + (if interval div 100 = 0 then 1 else interval div 100))"
proof -
  let ?k = "if interval div 100 = 0 then 1 else interval div 100 :: u64"
  have "unat ?k \<le> unat interval div 100 + 1" "0 < unat ?k" by (auto simp: unat_div unat_gt_0)
  then have "unat now2 < unat (now2 + ?k)" using assms unat_plus_64 [of now2 ?k] by linarith
  then have "now2 < now2 + ?k" by (simp only: word_less_nat_alt)
  then show "now2 < next_event next_tick e interval now2" unfolding next_event_def Let_def by (simp only: if_split not_le) auto
  show "next_event next_tick e interval now2 \<le> max next_tick (now2 + ?k)" unfolding next_event_def Let_def by (auto simp: le_max_iff_disj)
qed

text \<open>C21: The timer interrupt.  In every state of the scheduler the handler returns
  and keeps the invariant; a scheduler tick is counted and its boundary moved on
  by one interval exactly when the boundary has been reached; and the deadline that is programmed lies
  after the present, and no later than the next boundary or the minimal slack.  The tick
  callback is assumed to keep the invariant and the clock.\<close>

theorem timer_handle_irq_ok:
  fixes s :: "'a sys_scheme"
  assumes "sched_inv V s" "unat now2 + unat (timer_interval s) div 100 + 1 < 2 ^ 64"
    and "\<And>f u. callback = Some f \<Longrightarrow> sched_inv V u \<Longrightarrow> sched_inv V (f u) \<and> tick_count (f u) = tick_count u \<and>
      g_next_tick (f u) = g_next_tick u \<and> timer_interval (f u) = timer_interval u"
  shows "\<exists>s'. timer_handle_irq callback now now1 now2 s = Some s' \<and> sched_inv V s' \<and> timer_interval s' = timer_interval s \<and>
    tick_count s' = (if g_next_tick s \<le> now then tick_count s + 1 else tick_count s) \<and>
    g_next_tick s' = (if g_next_tick s \<le> now then g_next_tick s + timer_interval s else g_next_tick s) \<and>
    now2 < cntp_cval s' \<and>
    cntp_cval s' \<le> max (g_next_tick s') (now2 + (if timer_interval s div 100 = 0 then 1 else timer_interval s div 100))"
proof -
  have "\<exists>s1. (if now \<ge> g_next_tick s then timer_tick callback s else Some s) = Some s1 \<and> sched_inv V s1 \<and>
      timer_interval s1 = timer_interval s \<and> tick_count s1 = (if g_next_tick s \<le> now then tick_count s + 1 else tick_count s) \<and>
      g_next_tick s1 = (if g_next_tick s \<le> now then g_next_tick s + timer_interval s else g_next_tick s)"
    using timer_tick_ok [of V s callback] assms(1,3) by auto
  then obtain s1 where s1: "(if now \<ge> g_next_tick s then timer_tick callback s else Some s) = Some s1" "sched_inv V s1"
      "timer_interval s1 = timer_interval s" "tick_count s1 = (if g_next_tick s \<le> now then tick_count s + 1 else tick_count s)"
      "g_next_tick s1 = (if g_next_tick s \<le> now then g_next_tick s + timer_interval s else g_next_tick s)" by blast
  obtain rs ds where "queue_pre s1 rs ds" using sched_inv_queue [OF s1(2)] by blast
  then obtain e T where r: "rt_tick_release now1 s1 = Some (e, s1\<lparr>task_at := T\<rparr>)" "sched_inv V (s1\<lparr>task_at := T\<rparr>)"
    by (rule rt_tick_release_run [OF s1(2), of rs ds now1]) blast
  let ?s2 = "s1\<lparr>task_at := T\<rparr>"
  have "timer_handle_irq callback now now1 now2 s = Some (?s2\<lparr>cntp_cval := next_event (g_next_tick s1) e (timer_interval s1) now2\<rparr>)"
    unfolding timer_handle_irq_def s1(1) by (simp add: r(1))
  moreover have "sched_inv V (?s2\<lparr>cntp_cval := next_event (g_next_tick s1) e (timer_interval s1) now2\<rparr>)" unfolding sched_inv_sys by (rule r(2))
  ultimately show ?thesis using next_event_later [of now2 "timer_interval s" "g_next_tick s1" e] assms(2) s1(3-5) by simp
qed

theorem timer_handle_irq_ok_witness:
  "\<exists>s'. timer_handle_irq (None :: (sys \<Rightarrow> sys) option) 5100 5110 5120 (demo_sys demo_signalled) = Some s' \<and> sched_inv {} s' \<and>
    timer_interval s' = timer_interval (demo_sys demo_signalled) \<and>
    tick_count s' = (if g_next_tick (demo_sys demo_signalled) \<le> 5100 then tick_count (demo_sys demo_signalled) + 1 else tick_count (demo_sys demo_signalled)) \<and>
    g_next_tick s' = (if g_next_tick (demo_sys demo_signalled) \<le> 5100
      then g_next_tick (demo_sys demo_signalled) + timer_interval (demo_sys demo_signalled) else g_next_tick (demo_sys demo_signalled)) \<and>
    5120 < cntp_cval s' \<and>
    cntp_cval s' \<le> max (g_next_tick s') (5120 +
      (if timer_interval (demo_sys demo_signalled) div 100 = 0 then 1 else timer_interval (demo_sys demo_signalled) div 100))"
proof (rule timer_handle_irq_ok)
  let ?kb = "zero_task\<lparr>t_state := TASK_SLEEPING, t_rt_period := 700, t_rt_next_release := 4000, t_next := 0xFFFF000040001000, t_pid := 2\<rparr>"
  let ?r = "demo_rt 0xFFFF000040003020 demo_signalled ?kb (\<lambda>_. \<lparr>m_owner = 0, m_waiters = 0, m_locked = False\<rparr>)"
  have "sched_inv {} ?r" by (rule demo_rt_inv) (simp_all add: demo_signalled_def same_res_def zero_task_def)
  moreover have "heap_live (demo_sys demo_signalled) V = heap_live ?r V" for V by (rule heap_live_cong) (simp_all add: demo_sys_def rtos.defs)
  then have "sched_inv {} (demo_sys demo_signalled) = sched_inv {} ?r"
    by (intro sched_inv_more) (simp_all add: demo_sys_def rtos.defs kheap.owned_def reserved_bytes_def page_bytes_def page_at_def heap_page_def
        page_addr_def npages_def allocated_def page_used_def heap_bytes_def)
  ultimately show "sched_inv {} (demo_sys demo_signalled)" by simp
qed (simp_all add: demo_sys_def rtos.defs)

end
