(* ===== verification/Elf.thy ===== *)
theory Elf
  imports Signals
begin

text \<open>
  The loader of executables, \<^verbatim>\<open>src/syscall/elf.c\<close>.  The file is a list of
  bytes, read through the packed structures of \<^verbatim>\<open>elf.h\<close>.  The kernel's view of
  physical memory is byte addressed.  Cache maintenance and console output have no state.
\<close>

section \<open>Headers\<close>

record kern = sys +
  kbytes :: mem

text \<open>A field of \<open>n\<close> bytes at an offset of the file.\<close>

definition rd :: "nat \<Rightarrow> nat \<Rightarrow> u8 list \<Rightarrow> u64" where
  "rd n off buf = le_word (take n (drop off buf))"

record Elf64_Ehdr =
  e_ident :: "u8 list"
  e_type :: u64
  e_machine :: u64
  eh_entry :: u64
  e_phoff :: u64
  e_phentsize :: u64
  e_phnum :: u64

record Elf64_Phdr =
  p_type :: u64
  p_flags :: u64
  p_offset :: u64
  p_vaddr :: u64
  p_filesz :: u64
  p_memsz :: u64

definition read_ehdr :: "u8 list \<Rightarrow> Elf64_Ehdr" where
  "read_ehdr buf = \<lparr>e_ident = take 16 buf, e_type = rd 2 16 buf, e_machine = rd 2 18 buf, eh_entry = rd 8 24 buf,
     e_phoff = rd 8 32 buf, e_phentsize = rd 2 54 buf, e_phnum = rd 2 56 buf\<rparr>"

definition read_phdr :: "u8 list \<Rightarrow> nat \<Rightarrow> Elf64_Phdr" where
  "read_phdr buf off = \<lparr>p_type = rd 4 off buf, p_flags = rd 4 (off + 4) buf, p_offset = rd 8 (off + 8) buf,
     p_vaddr = rd 8 (off + 16) buf, p_filesz = rd 8 (off + 32) buf, p_memsz = rd 8 (off + 40) buf\<rparr>"

abbreviation (input) ELF_MAX_REGIONS :: nat where "ELF_MAX_REGIONS \<equiv> 4"
abbreviation (input) SIZEOF_PHDR :: u64 where "SIZEOF_PHDR \<equiv> 56"
abbreviation (input) SIZEOF_EHDR :: nat where "SIZEOF_EHDR \<equiv> 64"
abbreviation (input) PT_LOAD :: u64 where "PT_LOAD \<equiv> 1"

definition file_size :: "u8 list \<Rightarrow> u64" where
  "file_size buf = of_nat (length buf)"

definition header_ok :: "u8 list \<Rightarrow> bool" where
  "header_ok buf \<longleftrightarrow> SIZEOF_EHDR \<le> length buf \<and>
    (let eh = read_ehdr buf in
     take 4 (e_ident eh) = [0x7F, 0x45, 0x4C, 0x46] \<and> e_ident eh ! 4 = 2 \<and> e_ident eh ! 5 = 1 \<and> e_ident eh ! 6 = 1 \<and>
     e_type eh = 2 \<and> e_machine eh = 0xB7 \<and> e_phentsize eh = SIZEOF_PHDR \<and> e_phnum eh \<noteq> 0 \<and> e_phnum eh \<le> 32 \<and>
     \<not> (e_phoff eh > file_size buf \<or> e_phoff eh + e_phnum eh * SIZEOF_PHDR > file_size buf))"

definition phdrs :: "u8 list \<Rightarrow> Elf64_Phdr list" where
  "phdrs buf = map (\<lambda>i. read_phdr buf (unat (e_phoff (read_ehdr buf)) + 56 * i)) [0..<unat (e_phnum (read_ehdr buf))]"

section \<open>Loading\<close>

text \<open>The bits of \<open>p_flags\<close>: 1 execute, 2 write, 4 read.\<close>

definition parse_flags :: "u64 \<Rightarrow> u64 option" where
  "parse_flags pf =
    (let f = PTE_ATTRIDX 1 OR PTE_PXN;
         f = f OR (if pf AND 2 \<noteq> 0 then PTE_AP_RW_EL0 else PTE_AP_RO_EL0);
         f = (if pf AND 1 = 0 then f OR PTE_UXN else f)
     in if pf AND 2 \<noteq> 0 \<and> pf AND 1 \<noteq> 0 then None else if pf AND 4 = 0 then None else Some f)"

fun free_regions_of :: "(u64 \<times> u64) list \<Rightarrow> 'a kern_scheme \<Rightarrow> 'a kern_scheme" where
  "free_regions_of [] s = s"
| "free_regions_of ((phys, pages) # rs) s =
    free_regions_of rs (if phys \<noteq> 0 \<and> pages \<noteq> 0 then pmm_free_pages phys pages s else s)"

definition elf_free_regions :: "elf_image \<Rightarrow> 'a kern_scheme \<Rightarrow> elf_image \<times> 'a kern_scheme" where
  "elf_free_regions img s = (img\<lparr>e_regions := []\<rparr>, free_regions_of (e_regions img) s)"

text \<open>The checks on a segment's claims about the file and the address space.\<close>

definition seg_ok :: "u8 list \<Rightarrow> Elf64_Phdr \<Rightarrow> bool" where
  "seg_ok buf ph \<longleftrightarrow> \<not> p_filesz ph > p_memsz ph \<and>
    \<not> (p_offset ph + p_filesz ph > file_size buf \<or> p_offset ph + p_filesz ph < p_offset ph) \<and>
    \<not> (p_vaddr ph \<ge> USER_STACK_TOP \<or> p_vaddr ph + p_memsz ph > USER_STACK_TOP \<or> p_vaddr ph + p_memsz ph < p_vaddr ph)"

definition va_lo :: "Elf64_Phdr \<Rightarrow> u64" where
  "va_lo ph = p_vaddr ph AND NOT (PAGE_SIZE - 1)"

definition seg_pages :: "Elf64_Phdr \<Rightarrow> u64" where
  "seg_pages ph =
    (let va_hi = (p_vaddr ph + p_memsz ph + PAGE_SIZE - 1) AND NOT (PAGE_SIZE - 1) in (va_hi - va_lo ph) div PAGE_SIZE)"

definition kzero :: "u64 \<Rightarrow> u64 \<Rightarrow> 'a kern_scheme \<Rightarrow> 'a kern_scheme" where
  "kzero a n s = s\<lparr>kbytes := (\<lambda>x. if x - a < n then 0 else kbytes s x)\<rparr>"

definition fill_segment :: "u8 list \<Rightarrow> Elf64_Phdr \<Rightarrow> u64 \<Rightarrow> 'a kern_scheme \<Rightarrow> 'a kern_scheme" where
  "fill_segment buf ph phys s =
    (let kva = PHYS_TO_VIRT phys; s1 = kzero kva (seg_pages ph * PAGE_SIZE) s in
     if p_filesz ph > 0
     then s1\<lparr>kbytes := store_bytes (kva + (p_vaddr ph - va_lo ph)) (take (unat (p_filesz ph)) (drop (unat (p_offset ph)) buf)) (kbytes s1)\<rparr>
     else s1)"

fun load_segments :: "u8 list \<Rightarrow> u64 \<Rightarrow> Elf64_Phdr list \<Rightarrow> elf_image \<Rightarrow> 'a kern_scheme \<Rightarrow> bool \<times> elf_image \<times> 'a kern_scheme" where
  "load_segments buf l0 [] img s = (True, img, s)"
| "load_segments buf l0 (ph # phs) img s =
    (if p_type ph \<noteq> PT_LOAD then load_segments buf l0 phs img s
     else if \<not> seg_ok buf ph \<or> length (e_regions img) \<ge> ELF_MAX_REGIONS then (False, elf_free_regions img s)
     else case parse_flags (p_flags ph) of
            None \<Rightarrow> (False, elf_free_regions img s)
          | Some flags \<Rightarrow>
             (case pmm_allocate_pages (seg_pages ph) s of
                (phys, s1) \<Rightarrow>
                  if phys = 0 then (False, elf_free_regions img s1)
                  else load_segments buf l0 phs (img\<lparr>e_regions := e_regions img @ [(phys, seg_pages ph)]\<rparr>)
                         (mmu_map_user_range l0 (va_lo ph) phys (seg_pages ph) flags (fill_segment buf ph phys s1))))"

definition entry_ok :: "u64 \<Rightarrow> Elf64_Phdr list \<Rightarrow> bool" where
  "entry_ok entry phs \<longleftrightarrow>
    list_ex (\<lambda>ph. p_type ph = PT_LOAD \<and> entry \<ge> p_vaddr ph \<and> entry < p_vaddr ph + p_memsz ph \<and> p_flags ph AND 1 \<noteq> 0) phs"

definition elf_load :: "u8 list \<Rightarrow> u64 \<Rightarrow> elf_image \<Rightarrow> 'a kern_scheme \<Rightarrow> int \<times> elf_image \<times> 'a kern_scheme" where
  "elf_load buf l0 out s =
    (if \<not> header_ok buf then (-1, out, s)
     else case load_segments buf l0 (phdrs buf) \<lparr>e_entry = eh_entry (read_ehdr buf), e_regions = []\<rparr> s of
            (False, img, s1) \<Rightarrow> (-1, img, s1)
          | (True, img, s1) \<Rightarrow>
             if e_regions img = [] then (-1, img, s1)
             else if \<not> entry_ok (e_entry img) (phdrs buf) then (-1, elf_free_regions img s1)
             else (0, img, s1))"

section \<open>Segments\<close>

lemma page_mask: "PAGE_SIZE - 1 = (mask 12 :: u64)"
  by (simp add: mask_eq_exp_minus_1)

lemma seg_range:
  assumes "seg_ok buf ph"
  shows "unat (p_vaddr ph) < 0x800000" "unat (p_vaddr ph + p_memsz ph) = unat (p_vaddr ph) + unat (p_memsz ph)"
    "unat (p_vaddr ph) + unat (p_memsz ph) \<le> 0x800000" "unat (p_filesz ph) \<le> unat (p_memsz ph)"
    "length buf < 2 ^ 64 \<Longrightarrow> unat (p_offset ph) + unat (p_filesz ph) \<le> length buf"
proof -
  have plus: "unat a + unat b < 2 ^ 64" if "\<not> a + b < a" for a b :: u64
    using that no_olen_add_nat [of a b] by (simp add: not_less)
  have ok: "\<not> p_vaddr ph + p_memsz ph < p_vaddr ph" "\<not> p_offset ph + p_filesz ph < p_offset ph" using assms by (auto simp: seg_ok_def)
  show u: "unat (p_vaddr ph + p_memsz ph) = unat (p_vaddr ph) + unat (p_memsz ph)" by (rule unat_plus_64 [OF plus [OF ok(1)]])
  show "unat (p_vaddr ph) < 0x800000" "unat (p_filesz ph) \<le> unat (p_memsz ph)"
    using assms by (simp_all add: seg_ok_def word_less_nat_alt word_le_nat_alt not_le not_less)
  have "unat (p_vaddr ph + p_memsz ph) \<le> 0x800000" using assms by (simp add: seg_ok_def word_le_nat_alt not_less)
  then show "unat (p_vaddr ph) + unat (p_memsz ph) \<le> 0x800000" unfolding u .
  assume "length buf < 2 ^ 64"
  moreover have "unat (p_offset ph + p_filesz ph) \<le> unat (file_size buf)" using assms by (simp add: seg_ok_def word_le_nat_alt not_less)
  ultimately show "unat (p_offset ph) + unat (p_filesz ph) \<le> length buf"
    unfolding unat_plus_64 [OF plus [OF ok(2)]] by (simp add: file_size_def unat_of_nat_64)
qed

lemma seg_facts:
  assumes ok: "seg_ok buf ph"
  shows "unat (va_lo ph) = unat (p_vaddr ph) div 4096 * 4096"
    "unat (seg_pages ph) = (unat (p_vaddr ph) + unat (p_memsz ph) + 4095) div 4096 - unat (p_vaddr ph) div 4096"
    "unat (p_vaddr ph - va_lo ph) = unat (p_vaddr ph) mod 4096"
    "unat (p_vaddr ph) mod 4096 + unat (p_memsz ph) \<le> 4096 * unat (seg_pages ph)" "unat (seg_pages ph) \<le> 2048"
    "unat (va_lo ph) + 4096 * unat (seg_pages ph) \<le> 2 ^ 48"
proof -
  let ?v = "unat (p_vaddr ph)" and ?m = "unat (p_memsz ph)"
  note r = seg_range [OF ok]
  have lo: "unat (va_lo ph) = ?v div 4096 * 4096" unfolding va_lo_def page_mask using unat_and_not_mask [of 12 "p_vaddr ph"] by simp
  have hi: "unat ((p_vaddr ph + p_memsz ph + PAGE_SIZE - 1) AND NOT (PAGE_SIZE - 1)) = (?v + ?m + 4095) div 4096 * 4096"
  proof -
    have e: "p_vaddr ph + p_memsz ph + PAGE_SIZE - 1 = p_vaddr ph + p_memsz ph + 4095" by simp
    have "unat (p_vaddr ph + p_memsz ph + 4095) = ?v + ?m + 4095"
      using r(2,3) unat_plus_64 [of "p_vaddr ph + p_memsz ph" 4095] by simp
    then show ?thesis unfolding e page_mask using unat_and_not_mask [of 12 "p_vaddr ph + p_memsz ph + 4095"] by simp
  qed
  have le: "?v div 4096 \<le> (?v + ?m + 4095) div 4096" by (rule div_le_mono) simp
  have "va_lo ph \<le> (p_vaddr ph + p_memsz ph + PAGE_SIZE - 1) AND NOT (PAGE_SIZE - 1)"
    unfolding word_le_nat_alt hi lo using le by simp
  from unat_sub [OF this] have "unat (((p_vaddr ph + p_memsz ph + PAGE_SIZE - 1) AND NOT (PAGE_SIZE - 1)) - va_lo ph) =
      (?v + ?m + 4095) div 4096 * 4096 - ?v div 4096 * 4096" unfolding hi lo .
  then show pg: "unat (seg_pages ph) = (?v + ?m + 4095) div 4096 - ?v div 4096"
    by (simp add: seg_pages_def Let_def unat_div diff_mult_distrib [symmetric])
  show "unat (va_lo ph) = ?v div 4096 * 4096" by (rule lo)
  have "va_lo ph \<le> p_vaddr ph" by (simp add: word_le_nat_alt lo)
  then show "unat (p_vaddr ph - va_lo ph) = ?v mod 4096" by (simp add: unat_sub lo minus_div_mult_eq_mod)
  have "?v + ?m \<le> (?v + ?m + 4095) div 4096 * 4096" using page_up_ge [of "?v + ?m"] by (simp add: ac_simps)
  then show "?v mod 4096 + ?m \<le> 4096 * unat (seg_pages ph)"
    using le div_mult_mod_eq [of ?v 4096] unfolding pg diff_mult_distrib2 by linarith
  have "(?v + ?m + 4095) div 4096 \<le> 2048" using r(3) by simp
  then show "unat (seg_pages ph) \<le> 2048" unfolding pg by simp
  moreover have "?v div 4096 * 4096 \<le> ?v" by simp
  ultimately show "unat (va_lo ph) + 4096 * unat (seg_pages ph) \<le> 2 ^ 48" using r(1) unfolding lo by simp
qed

text \<open>The byte that the program finds at an offset of the segment's pages.\<close>

definition seg_byte :: "u8 list \<Rightarrow> Elf64_Phdr \<Rightarrow> nat \<Rightarrow> u8" where
  "seg_byte buf ph j =
    (let intra = unat (p_vaddr ph) mod 4096 in
     if intra \<le> j \<and> j < intra + unat (p_filesz ph) then buf ! (unat (p_offset ph) + (j - intra)) else 0)"

lemma fill_segment_bytes:
  assumes ok: "seg_ok buf ph" "length buf < 2 ^ 64" and x: "x = PHYS_TO_VIRT phys + of_nat j" "j < 2 ^ 64"
  shows "kbytes (fill_segment buf ph phys s) x = (if j < 4096 * unat (seg_pages ph) then seg_byte buf ph j else kbytes s x)"
proof -
  let ?kva = "PHYS_TO_VIRT phys" and ?in = "unat (p_vaddr ph) mod 4096" and ?f = "unat (p_filesz ph)" and ?n = "4096 * unat (seg_pages ph)"
  note f = seg_facts [OF ok(1)] and r = seg_range [OF ok(1)]
  let ?bs = "take ?f (drop (unat (p_offset ph)) buf)"
  have j: "unat (x - ?kva) = j" using x by (simp add: unat_of_nat_64)
  have n: "unat (seg_pages ph * PAGE_SIZE) = ?n" using f(5) by (subst unat_mult_64) simp_all
  have z: "kbytes (kzero ?kva (seg_pages ph * PAGE_SIZE) s) x = (if j < ?n then 0 else kbytes s x)"
    by (simp add: kzero_def word_less_nat_alt j n)
  have len: "length ?bs = ?f" using r(5) [OF ok(2)] by simp
  have lt: "length ?bs \<le> 2 ^ 64" using unat_lt_64 [of "p_filesz ph"] unfolding len by simp
  have d: "x - (?kva + (p_vaddr ph - va_lo ph)) = of_nat j - of_nat ?in"
    unfolding x(1) f(3) [symmetric] by simp
  have sb: "kbytes (fill_segment buf ph phys s) x =
      (if unat (x - (?kva + (p_vaddr ph - va_lo ph))) < ?f then ?bs ! unat (x - (?kva + (p_vaddr ph - va_lo ph)))
       else if j < ?n then 0 else kbytes s x)"
  proof (cases "p_filesz ph = 0")
    case True
    then show ?thesis by (simp add: fill_segment_def Let_def z)
  next
    case False
    then have "p_filesz ph > 0" by (simp add: word_neq_0_conv)
    then show ?thesis unfolding fill_segment_def Let_def using store_bytes_at [OF lt, unfolded len] z by simp
  qed
  show ?thesis
  proof (cases "?in \<le> j")
    case True
    then have "(of_nat j - of_nat ?in :: u64) = of_nat (j - ?in)" by (simp add: of_nat_diff)
    then have "unat (x - (?kva + (p_vaddr ph - va_lo ph))) = j - ?in" unfolding d using x(2) by (simp add: unat_of_nat_64)
    moreover have "?bs ! (j - ?in) = buf ! (unat (p_offset ph) + (j - ?in))" if "j - ?in < ?f" using that r(5) [OF ok(2)] by simp
    moreover have "j < ?n" if "j - ?in < ?f" using that f(4) r(4) True by linarith
    ultimately show ?thesis unfolding sb seg_byte_def Let_def using True by auto
  next
    case False
    then have "unat (x - (?kva + (p_vaddr ph - va_lo ph))) = j + 2 ^ 64 - ?in"
      unfolding d using x(2) unat_sub_if' [of "of_nat j :: u64" "of_nat ?in"] by (simp add: unat_of_nat_64)
    moreover have "?in < 4096" by simp
    moreover have "?f \<le> 0x800000" using r(3,4) by linarith
    ultimately have "\<not> unat (x - (?kva + (p_vaddr ph - va_lo ph))) < ?f" by simp
    then show ?thesis unfolding sb seg_byte_def Let_def using False by auto
  qed
qed

section \<open>What has been loaded so far\<close>

definition run_of :: "nat list \<Rightarrow> Elf64_Phdr list \<Rightarrow> nat \<Rightarrow> nat set" where
  "run_of ns L i = {ns ! i..<ns ! i + unat (seg_pages (L ! i))}"

definition regions_of :: "'a kern_scheme \<Rightarrow> nat list \<Rightarrow> Elf64_Phdr list \<Rightarrow> (u64 \<times> u64) list" where
  "regions_of s ns L = map2 (\<lambda>n ph. (page_addr s n, seg_pages ph)) ns L"

text \<open>
  The segments \<open>L\<close> have their own runs of pages, from \<open>ns\<close> on; every page taken since
  \<open>s0\<close> is in one of them or is a table of the address space, and nothing was released.
\<close>

definition runs_ok :: "u64 \<Rightarrow> 'a kern_scheme \<Rightarrow> Elf64_Phdr list \<Rightarrow> nat list \<Rightarrow> 'a kern_scheme \<Rightarrow> bool" where
  "runs_ok l0 s0 L ns s \<longleftrightarrow> pmm_inv s \<and> tree_ok s l0 \<and> npages s = npages s0 \<and> page_addr s = page_addr s0 \<and>
     reserved_pages s = reserved_pages s0 \<and> allocated s0 \<subseteq> allocated s \<and> length ns = length L \<and>
     (\<forall>i < length L. 0 < unat (seg_pages (L ! i)) \<and> unat (reserved_pages s0) \<le> ns ! i \<and>
        ns ! i + unat (seg_pages (L ! i)) \<le> npages s0 \<and> run_of ns L i \<subseteq> allocated s - allocated s0 \<and>
        (\<forall>n \<in> run_of ns L i. page_addr s0 n \<notin> tree_tables (tab s) l0)) \<and>
     (\<forall>i < length L. \<forall>j < i. run_of ns L i \<inter> run_of ns L j = {}) \<and>
     (\<forall>n \<in> allocated s - allocated s0. page_addr s0 n \<in> tree_tables (tab s) l0 \<or> (\<exists>i < length L. n \<in> run_of ns L i))"

definition contents_ok :: "u8 list \<Rightarrow> 'a kern_scheme \<Rightarrow> Elf64_Phdr list \<Rightarrow> nat list \<Rightarrow> 'a kern_scheme \<Rightarrow> bool" where
  "contents_ok buf s0 L ns s \<longleftrightarrow> (\<forall>i < length L. \<forall>j < 4096 * unat (seg_pages (L ! i)).
     kbytes s (PHYS_TO_VIRT (page_addr s0 (ns ! i)) + of_nat j) = seg_byte buf (L ! i) j)"

text \<open>The page of an address in a segment, and the translation of the addresses of the last segment there.\<close>

definition in_seg :: "Elf64_Phdr \<Rightarrow> u64 \<Rightarrow> bool" where
  "in_seg ph x \<longleftrightarrow> unat x < 2 ^ 48 \<and> unat (va_lo ph) div 4096 \<le> unat x div 4096 \<and>
     unat x div 4096 < unat (va_lo ph) div 4096 + unat (seg_pages ph)"

definition mapped_ok :: "u64 \<Rightarrow> 'a kern_scheme \<Rightarrow> Elf64_Phdr list \<Rightarrow> nat list \<Rightarrow> 'a kern_scheme \<Rightarrow> bool" where
  "mapped_ok l0 s0 L ns s \<longleftrightarrow> (allocated s \<noteq> {..<npages s0} \<longrightarrow> (\<forall>i < length L. \<forall>x. in_seg (L ! i) x \<longrightarrow>
     (\<forall>k < length L. i < k \<longrightarrow> \<not> in_seg (L ! k) x) \<longrightarrow>
     leaf (tab s) l0 x = Some (user_pte (page_addr s0 (ns ! i) + of_nat (unat x div 4096 - unat (va_lo (L ! i)) div 4096) * PAGE_SIZE)
       (the (parse_flags (p_flags (L ! i)))))))"

lemma run_of_append: "i < length L \<Longrightarrow> length ns = length L \<Longrightarrow> run_of (ns @ [n]) (L @ [ph]) i = run_of ns L i"
  "length ns = length L \<Longrightarrow> run_of (ns @ [n]) (L @ [ph]) (length L) = {n..<n + unat (seg_pages ph)}"
  by (simp_all add: run_of_def nth_append)

lemma kbytes_frame [simp]:
  fixes s :: "'a kern_scheme"
  shows "pmm_inv (s\<lparr>kbytes := m\<rparr>) = pmm_inv s" "allocated (s\<lparr>kbytes := m\<rparr>) = allocated s" "npages (s\<lparr>kbytes := m\<rparr>) = npages s"
    "page_addr (s\<lparr>kbytes := m\<rparr>) = page_addr s" "tree_ok (s\<lparr>kbytes := m\<rparr>) l0 = tree_ok s l0"
proof -
  have n: "npages (s\<lparr>kbytes := m\<rparr>) = npages s" by (simp add: npages_def)
  have u: "page_used (s\<lparr>kbytes := m\<rparr>) = page_used s" by (simp add: fun_eq_iff page_used_def)
  have a: "allocated (s\<lparr>kbytes := m\<rparr>) = allocated s" by (simp add: allocated_def n u)
  have p: "page_addr (s\<lparr>kbytes := m\<rparr>) = page_addr s" by (simp add: fun_eq_iff page_addr_def)
  have t: "table_page (s\<lparr>kbytes := m\<rparr>) = table_page s" by (simp add: fun_eq_iff table_page_def a p)
  show "pmm_inv (s\<lparr>kbytes := m\<rparr>) = pmm_inv s" by (simp add: pmm_inv_def n u a)
  show "tree_ok (s\<lparr>kbytes := m\<rparr>) l0 = tree_ok s l0" by (simp add: tree_ok_def t)
  show "allocated (s\<lparr>kbytes := m\<rparr>) = allocated s" "npages (s\<lparr>kbytes := m\<rparr>) = npages s" "page_addr (s\<lparr>kbytes := m\<rparr>) = page_addr s"
    by (rule a n p)+
qed

lemma fill_segment_frame:
  fixes s :: "'a kern_scheme"
  shows "\<exists>m. fill_segment buf ph phys s = s\<lparr>kbytes := m\<rparr>"
  by (auto simp: fill_segment_def kzero_def Let_def)

text \<open>Taking a run of pages and filling it, then mapping it.\<close>

lemma taken_run:
  fixes s :: "'a kern_scheme"
  assumes inv: "pmm_inv s" "tree_ok s l0" and al: "pmm_allocate_pages k s = (phys, s1)" "phys \<noteq> 0"
  obtains a where "phys = page_addr s a" "0 < unat k" "unat (reserved_pages s) \<le> a" "a + unat k \<le> npages s"
    "allocated s \<inter> {a..<a + unat k} = {}" "allocated s1 = allocated s \<union> {a..<a + unat k}" "pmm_inv s1" "tree_ok s1 l0"
    "npages s1 = npages s" "page_addr s1 = page_addr s" "reserved_pages s1 = reserved_pages s" "tab s1 = tab s" "kbytes s1 = kbytes s"
    "\<forall>n \<in> {a..<a + unat k}. page_addr s n \<notin> tree_tables (tab s) l0"
proof -
  obtain a where a: "phys = page_addr s a" "s1 = take_run a (unat k) s" "0 < unat k" "free_run s (unat k) a"
    using pmm_allocate_pages_result [OF inv(1) al(1)] al(2) by auto
  have f: "unat (reserved_pages s) \<le> a" "a + unat k \<le> npages s" "allocated s \<inter> {a..<a + unat k} = {}"
    using a(4) by (auto simp: free_run_def allocated_def)
  have more: "pmm.more s1 = pmm.more s" by (simp add: a(2))
  have tab: "tab s1 = tab s" by (rule more_fields(1) [OF more])
  have kb: "kbytes s1 = kbytes s" using more by (cases s1; cases s; simp)
  have al1: "allocated s1 = allocated s \<union> {a..<a + unat k}" unfolding a(2) by (rule allocated_take_run [OF inv(1) f(2)])
  have fr: "npages s1 = npages s" "page_addr s1 = page_addr s" "reserved_pages s1 = reserved_pages s" by (simp_all add: a(2))
  have inv1: "pmm_inv s1" unfolding a(2) by (rule pmm_inv_take_run [OF inv(1) f(2,3)])
  have tree1: "tree_ok s1 l0"
    by (rule tree_ok_frame(1) [OF inv(2)]) (use al1 fr tab in \<open>auto intro: table_page_mono\<close>)
  have "page_addr s n \<notin> tree_tables (tab s) l0" if "n \<in> {a..<a + unat k}" for n
  proof -
    have "n < npages s" "n \<notin> allocated s" using that f(2,3) by auto
    then have "\<not> table_page s (page_addr s n)" by (rule not_table_page [OF inv(1)])
    then show ?thesis using inv(2) unfolding tree_ok_def tree_tables_def by blast
  qed
  then show ?thesis using that [OF a(1,3) f al1 inv1 tree1 fr tab kb] by blast
qed

lemma next_level_more: "next_level b t i s = (r, s') \<Longrightarrow> mm.more s' = mm.more s"
proof -
  assume n: "next_level b t i s = (r, s')"
  obtain p s1 where a: "pmm_allocate_page s = (p, s1)" by fastforce
  then have "pmm.more s1 = pmm.more s" using allocate_pages_more [of 1 s p s1] by (simp add: pmm_allocate_pages_def)
  then have "mm.more s1 = mm.more s" by (rule more_fields(7))
  then show ?thesis using n a by (auto simp: next_level_def alloc_table_def set_entry_def Let_def split: if_splits)
qed

lemma map_pages_more: "mm.more (map_pages l0 va pa flags is s) = mm.more s"
proof (induction "is" arbitrary: s)
  case (Cons i "is")
  obtain r s1 where w: "walk_levels l0 (va + of_nat i * PAGE_SIZE) 3 True s = (r, s1)" by fastforce
  then have "mm.more s1 = mm.more s"
    by (auto simp: walk_levels_def split: prod.splits option.splits dest!: next_level_more)
  then show ?case using Cons.IH w by (auto simp: set_entry_def split: option.splits)
qed simp

lemma kbytes_map_range: "kbytes (mmu_map_user_range l0 va pa n flags s) = kbytes s"
  using map_pages_more [of l0 va pa flags "[0..<unat n]" s] unfolding mmu_map_user_range_def
  by (cases "map_pages l0 va pa flags [0..<unat n] s"; cases s) simp

text \<open>Two different pages have different bytes in the kernel's view.\<close>

lemma page_bytes_apart:
  assumes inv: "pmm_inv s" and a: "a + k \<le> npages s" "b + l \<le> npages s" "{a..<a + k} \<inter> {b..<b + l} = {}" and j: "j < 4096 * k"
  obtains i where "PHYS_TO_VIRT (page_addr s a) + of_nat j = PHYS_TO_VIRT (page_addr s b) + of_nat i" "i < 2 ^ 64" "4096 * l \<le> i"
proof -
  let ?x = "PHYS_TO_VIRT (page_addr s a) + of_nat j - PHYS_TO_VIRT (page_addr s b)"
  let ?r = "unat (mem_region_start s)"
  have top: "?r + 4096 * npages s < 2 ^ 48" using inv by (simp add: pmm_inv_def)
  have ua: "unat (page_addr s a) = ?r + 4096 * a" "unat (page_addr s b) = ?r + 4096 * b"
    using unat_page_addr [OF inv] a(1,2) by simp_all
  have x: "?x = (page_addr s a + of_nat j) - page_addr s b" by (simp add: PHYS_TO_VIRT_def)
  have aj: "4096 * a + j < 4096 * (a + k)" using j by simp
  have le: "4096 * (a + k) \<le> 4096 * npages s" using a(1) by simp
  have uj: "unat (page_addr s a + of_nat j) = ?r + 4096 * a + j"
    using unat_plus_64 [of "page_addr s a" "of_nat j"] ua(1) aj le top by (simp add: unat_of_nat_64)
  have "4096 * l \<le> unat ?x"
  proof (cases "a < b")
    case True
    then have "a + k \<le> b \<or> l = 0" using a(3) j by (auto simp: set_eq_iff) (metis le_add1 le_less_trans less_add_same_cancel1 linorder_not_less nat_less_le not_gr_zero)
    then show ?thesis
    proof
      assume ab: "a + k \<le> b"
      then have "?r + 4096 * a + j < ?r + 4096 * b" using aj by simp
      then have "unat ?x = ?r + 4096 * a + j + 2 ^ 64 - (?r + 4096 * b)" unfolding x unat_sub_if' uj ua(2) by simp
      moreover have "4096 * b + 4096 * l \<le> 4096 * npages s" using a(2) by simp
      moreover have "(2 :: nat) ^ 48 \<le> 2 ^ 64" by simp
      ultimately show ?thesis using top by linarith
    qed simp
  next
    case False
    then have "b + l \<le> a \<or> k = 0" using a(3) by (auto simp: set_eq_iff) (metis False le_add1 le_less_trans less_add_same_cancel1 linorder_not_less nat_less_le not_gr_zero)
    then have "b + l \<le> a" using j by auto
    then have "4096 * b + 4096 * l \<le> 4096 * a" by simp
    then have "unat ?x = 4096 * a + j - 4096 * b" unfolding x unat_sub_if' uj ua(2) by simp
    then show ?thesis using \<open>4096 * b + 4096 * l \<le> 4096 * a\<close> by linarith
  qed
  moreover have "PHYS_TO_VIRT (page_addr s a) + of_nat j = PHYS_TO_VIRT (page_addr s b) + of_nat (unat ?x)" by simp
  ultimately show ?thesis using that [of "unat ?x"] unat_lt_64 [of ?x] by blast
qed

lemma runs_okD:
  assumes "runs_ok l0 s0 L ns s"
  shows "pmm_inv s" "tree_ok s l0" "npages s = npages s0" "page_addr s = page_addr s0" "reserved_pages s = reserved_pages s0"
    "allocated s0 \<subseteq> allocated s" "length ns = length L"
    "i < length L \<Longrightarrow> 0 < unat (seg_pages (L ! i))" "i < length L \<Longrightarrow> unat (reserved_pages s0) \<le> ns ! i"
    "i < length L \<Longrightarrow> ns ! i + unat (seg_pages (L ! i)) \<le> npages s0" "i < length L \<Longrightarrow> run_of ns L i \<subseteq> allocated s - allocated s0"
    "i < length L \<Longrightarrow> n \<in> run_of ns L i \<Longrightarrow> page_addr s0 n \<notin> tree_tables (tab s) l0"
    "i < length L \<Longrightarrow> j < i \<Longrightarrow> run_of ns L i \<inter> run_of ns L j = {}"
    "n \<in> allocated s \<Longrightarrow> n \<notin> allocated s0 \<Longrightarrow> page_addr s0 n \<in> tree_tables (tab s) l0 \<or> (\<exists>i < length L. n \<in> run_of ns L i)"
  using assms unfolding runs_ok_def by blast+

text \<open>
  A run of pages taken and filled, and pages mapped by a step that keeps the tables: the runs so far
  stay as they are and the new one joins them.
\<close>

lemma runs_step:
  fixes s s' :: "'a kern_scheme"
  assumes r: "runs_ok l0 s0 L ns s"
    and a: "0 < unat (seg_pages ph)" "unat (reserved_pages s) \<le> a" "a + unat (seg_pages ph) \<le> npages s"
      "allocated s \<inter> {a..<a + unat (seg_pages ph)} = {}" "allocated s1 = allocated s \<union> {a..<a + unat (seg_pages ph)}"
      "page_addr s1 = page_addr s" "reserved_pages s1 = reserved_pages s" "npages s1 = npages s" "tab s1 = tab s"
      "\<forall>n \<in> {a..<a + unat (seg_pages ph)}. page_addr s n \<notin> tree_tables (tab s) l0"
    and k: "keeps l0 s1 s'"
  shows "runs_ok l0 s0 (L @ [ph]) (ns @ [a]) s'"
proof -
  note d = runs_okD [OF r] and kd = keepsD [OF k]
  let ?L = "L @ [ph]" and ?ns = "ns @ [a]" and ?R = "{a..<a + unat (seg_pages ph)}"
  have old: "run_of ?ns ?L i = run_of ns L i" if "i < length L" for i by (rule run_of_append(1) [OF that d(7)])
  have new: "run_of ?ns ?L (length L) = ?R" by (rule run_of_append(2) [OF d(7)])
  have pages: "page_addr s0 n \<notin> tree_tables (tab s') l0"
    if n: "n \<in> allocated s1" "unat (reserved_pages s0) \<le> n" "page_addr s0 n \<notin> tree_tables (tab s) l0" for n
  proof -
    have "table_page s1 (page_addr s0 n)" unfolding table_page_def using n(1,2) a(6,7) d(4,5) by auto
    then show ?thesis using kd(9) n(3) a(9) by simp
  qed
  have res: "unat (reserved_pages s0) \<le> n" if "n \<in> ?R" for n using that a(2) d(5) by simp
  have resL: "unat (reserved_pages s0) \<le> n" if "i < length L" "n \<in> run_of ns L i" for i n
    using that d(9) [OF that(1)] by (simp add: run_of_def)
  have fact: "0 < unat (seg_pages (?L ! i)) \<and> unat (reserved_pages s0) \<le> ?ns ! i \<and> ?ns ! i + unat (seg_pages (?L ! i)) \<le> npages s0 \<and>
      run_of ?ns ?L i \<subseteq> allocated s' - allocated s0 \<and> (\<forall>n \<in> run_of ?ns ?L i. page_addr s0 n \<notin> tree_tables (tab s') l0)"
    if i: "i < length ?L" for i
  proof (cases "i < length L")
    case True
    have "run_of ns L i \<subseteq> allocated s1" using d(11) [OF True] a(5) by blast
    then have "\<forall>n \<in> run_of ns L i. page_addr s0 n \<notin> tree_tables (tab s') l0" using pages resL [OF True] d(12) [OF True] by blast
    moreover have "run_of ns L i \<subseteq> allocated s' - allocated s0" using d(11) [OF True] a(5) kd(3) by blast
    ultimately show ?thesis unfolding old [OF True] using d(8-10) [OF True] True d(7) by (simp add: nth_append)
  next
    case False
    then have i: "i = length L" using i by simp
    have "\<forall>n \<in> ?R. page_addr s0 n \<notin> tree_tables (tab s') l0" using pages res a(5,10) d(4) by auto
    moreover have "?R \<subseteq> allocated s' - allocated s0" using a(4,5) kd(3) d(6) by blast
    ultimately show ?thesis unfolding i new using a(1-3) d(3,5,7) by (simp add: nth_append)
  qed
  have disj: "run_of ?ns ?L i \<inter> run_of ?ns ?L j = {}" if "i < length ?L" "j < i" for i j
  proof (cases "i < length L")
    case True
    then show ?thesis using d(13) [OF True that(2)] old [OF True] old [of j] that(2) by simp
  next
    case False
    then have i: "i = length L" "j < length L" using that by simp_all
    have "run_of ns L j \<subseteq> allocated s" using d(11) [OF i(2)] by blast
    then show ?thesis unfolding i(1) new old [OF i(2)] using a(4) by blast
  qed
  have all: "page_addr s0 n \<in> tree_tables (tab s') l0 \<or> (\<exists>i < length ?L. n \<in> run_of ?ns ?L i)"
    if n: "n \<in> allocated s'" "n \<notin> allocated s0" for n
  proof (cases "n \<in> allocated s1")
    case True
    then consider "n \<in> ?R" | "n \<in> allocated s" using a(5) by blast
    then show ?thesis
    proof cases
      case 1
      then have "length L < length ?L \<and> n \<in> run_of ?ns ?L (length L)" unfolding new by simp
      then show ?thesis by blast
    next
      case 2
      then consider "page_addr s0 n \<in> tree_tables (tab s) l0" | i where "i < length L" "n \<in> run_of ns L i" using d(14) n(2) by blast
      then show ?thesis
      proof cases
        case 1
        then show ?thesis using kd(7) a(9) unfolding tree_tables_def by auto
      next
        case 2
        then have "i < length ?L \<and> n \<in> run_of ?ns ?L i" using old by simp
        then show ?thesis by blast
      qed
    qed
  next
    case False
    then show ?thesis using kd(11) [OF n(1)] a(6) d(4) by simp
  qed
  have "allocated s0 \<subseteq> allocated s'" using d(6) a(5) kd(3) by blast
  moreover have "npages s' = npages s0" "page_addr s' = page_addr s0" "reserved_pages s' = reserved_pages s0" "length ?ns = length ?L"
    using kd(4-6) a(6-8) d(3-5,7) by simp_all
  ultimately show ?thesis unfolding runs_ok_def using kd(1,2) fact disj all by blast
qed

lemma contents_step:
  fixes s s' :: "'a kern_scheme"
  assumes c: "contents_ok buf s0 L ns s" and r: "runs_ok l0 s0 L ns s" "runs_ok l0 s0 (L @ [ph]) (ns @ [a]) s'"
    and ok: "seg_ok buf ph" "length buf < 2 ^ 64" and kb: "kbytes s' = kbytes (fill_segment buf ph (page_addr s0 a) t)" "kbytes t = kbytes s"
  shows "contents_ok buf s0 (L @ [ph]) (ns @ [a]) s'"
  unfolding contents_ok_def
proof (intro allI impI)
  note d = runs_okD [OF r(1)] and d' = runs_okD [OF r(2)]
  fix i j assume i: "i < length (L @ [ph])" and j: "j < 4096 * unat (seg_pages ((L @ [ph]) ! i))"
  show "kbytes s' (PHYS_TO_VIRT (page_addr s0 ((ns @ [a]) ! i)) + of_nat j) = seg_byte buf ((L @ [ph]) ! i) j"
  proof (cases "i < length L")
    case True
    have j': "j < 4096 * unat (seg_pages (L ! i))" using j True by (simp add: nth_append)
    have "{ns ! i..<ns ! i + unat (seg_pages (L ! i))} \<inter> {a..<a + unat (seg_pages ph)} = {}"
      using d'(13) [of "length L" i] True d(7) by (simp add: run_of_def nth_append Int_commute)
    moreover have "ns ! i + unat (seg_pages (L ! i)) \<le> npages s" "a + unat (seg_pages ph) \<le> npages s"
      using d(3) d(10) [OF True] d'(10) [of "length L"] d(7) by (simp_all add: nth_append)
    ultimately obtain k where k: "PHYS_TO_VIRT (page_addr s0 (ns ! i)) + of_nat j = PHYS_TO_VIRT (page_addr s0 a) + of_nat k"
        "k < 2 ^ 64" "4096 * unat (seg_pages ph) \<le> k"
      using page_bytes_apart [OF d(1) _ _ _ j', of "ns ! i" a "unat (seg_pages ph)"] unfolding d(4) by blast
    have "kbytes s' (PHYS_TO_VIRT (page_addr s0 (ns ! i)) + of_nat j) = kbytes s (PHYS_TO_VIRT (page_addr s0 (ns ! i)) + of_nat j)"
      unfolding kb using fill_segment_bytes [OF ok k(1,2), of t] k(3) kb(2) by simp
    then show ?thesis using c True d(7) j' by (simp add: contents_ok_def nth_append)
  next
    case False
    then have e: "(L @ [ph]) ! i = ph" "(ns @ [a]) ! i = a" using i d(7) by (auto simp: nth_append)
    have "j < 2 ^ 64" using j seg_facts(5) [OF ok(1)] unfolding e by simp
    then show ?thesis using j unfolding e kb fill_segment_bytes [OF ok refl \<open>j < 2 ^ 64\<close>, of "page_addr s0 a" t] by simp
  qed
qed

lemma mapped_step:
  fixes s s' :: "'a kern_scheme"
  assumes m: "mapped_ok l0 s0 L ns s" and len: "length ns = length L" and sub: "allocated s \<subseteq> allocated s'" "allocated s' \<subseteq> {..<npages s0}"
    and map: "k \<le> unat (seg_pages ph)" "k < unat (seg_pages ph) \<longrightarrow> allocated s' = {..<npages s0}"
      "\<forall>x. unat x < 2 ^ 48 \<longrightarrow> leaf (tab s') l0 x =
        (if unat (va_lo ph) div 4096 \<le> unat x div 4096 \<and> unat x div 4096 < unat (va_lo ph) div 4096 + k
         then Some (user_pte (page_addr s0 a + of_nat (unat x div 4096 - unat (va_lo ph) div 4096) * PAGE_SIZE) flags)
         else leaf (tab s) l0 x)"
    and fl: "parse_flags (p_flags ph) = Some flags"
  shows "mapped_ok l0 s0 (L @ [ph]) (ns @ [a]) s'"
  unfolding mapped_ok_def
proof (intro allI impI)
  fix i x
  assume full: "allocated s' \<noteq> {..<npages s0}" and i: "i < length (L @ [ph])" and x: "in_seg ((L @ [ph]) ! i) x"
    and last: "\<forall>k < length (L @ [ph]). i < k \<longrightarrow> \<not> in_seg ((L @ [ph]) ! k) x"
  have k: "k = unat (seg_pages ph)" using map(1,2) full by auto
  have lt: "unat x < 2 ^ 48" using x by (simp add: in_seg_def)
  note leaf = map(3) [rule_format, OF lt, unfolded k]
  show "leaf (tab s') l0 x = Some (user_pte (page_addr s0 ((ns @ [a]) ! i) +
      of_nat (unat x div 4096 - unat (va_lo ((L @ [ph]) ! i)) div 4096) * PAGE_SIZE) (the (parse_flags (p_flags ((L @ [ph]) ! i)))))"
  proof (cases "i < length L")
    case True
    have "\<not> in_seg ph x" using last True by (auto dest: spec [of _ "length L"])
    then have "leaf (tab s') l0 x = leaf (tab s) l0 x" unfolding leaf using lt by (auto simp: in_seg_def)
    moreover have "allocated s \<noteq> {..<npages s0}" using sub full by blast
    moreover have "\<not> in_seg (L ! k) x" if "k < length L" "i < k" for k using last [rule_format, of k] that by (simp add: nth_append)
    ultimately show ?thesis using m True x len by (simp add: mapped_ok_def nth_append)
  next
    case False
    then have e: "(L @ [ph]) ! i = ph" "(ns @ [a]) ! i = a" using i len by (auto simp: nth_append)
    show ?thesis using x unfolding e leaf by (simp add: in_seg_def fl)
  qed
qed

definition loaded :: "u8 list \<Rightarrow> u64 \<Rightarrow> 'a kern_scheme \<Rightarrow> Elf64_Phdr list \<Rightarrow> nat list \<Rightarrow> 'a kern_scheme \<Rightarrow> bool" where
  "loaded buf l0 s0 L ns s \<longleftrightarrow> runs_ok l0 s0 L ns s \<and> contents_ok buf s0 L ns s \<and> mapped_ok l0 s0 L ns s"

lemma loaded_step:
  fixes s :: "'a kern_scheme"
  assumes l: "loaded buf l0 s0 L ns s" and ok: "seg_ok buf ph" "length buf < 2 ^ 64" "parse_flags (p_flags ph) = Some flags"
    and al: "pmm_allocate_pages (seg_pages ph) s = (phys, s1)" "phys \<noteq> 0"
  obtains a where "phys = page_addr s0 a"
    "loaded buf l0 s0 (L @ [ph]) (ns @ [a]) (mmu_map_user_range l0 (va_lo ph) phys (seg_pages ph) flags (fill_segment buf ph phys s1))"
proof -
  have r: "runs_ok l0 s0 L ns s" using l by (simp add: loaded_def)
  note d = runs_okD [OF r] and f = seg_facts [OF ok(1)]
  obtain a where a: "phys = page_addr s a" "0 < unat (seg_pages ph)" "unat (reserved_pages s) \<le> a" "a + unat (seg_pages ph) \<le> npages s"
      "allocated s \<inter> {a..<a + unat (seg_pages ph)} = {}" "allocated s1 = allocated s \<union> {a..<a + unat (seg_pages ph)}" "pmm_inv s1" "tree_ok s1 l0"
      "npages s1 = npages s" "page_addr s1 = page_addr s" "reserved_pages s1 = reserved_pages s" "tab s1 = tab s" "kbytes s1 = kbytes s"
      "\<forall>n \<in> {a..<a + unat (seg_pages ph)}. page_addr s n \<notin> tree_tables (tab s) l0"
    by (rule taken_run [OF d(1,2) al])
  obtain m where m: "fill_segment buf ph phys s1 = s1\<lparr>kbytes := m\<rparr>" using fill_segment_frame by blast
  let ?s2 = "s1\<lparr>kbytes := m\<rparr>" and ?s' = "mmu_map_user_range l0 (va_lo ph) phys (seg_pages ph) flags (s1\<lparr>kbytes := m\<rparr>)"
  have lo: "4096 dvd unat (va_lo ph)" unfolding f(1) by simp
  obtain k where k: "k \<le> unat (seg_pages ph)" "keeps l0 ?s2 ?s'" "k < unat (seg_pages ph) \<longrightarrow> allocated ?s' = {..<npages ?s2}"
      "\<forall>x. unat x < 2 ^ 48 \<longrightarrow> leaf (tab ?s') l0 x =
        (if unat (va_lo ph) div 4096 + 0 \<le> unat x div 4096 \<and> unat x div 4096 < unat (va_lo ph) div 4096 + k
         then Some (user_pte (phys + of_nat (unat x div 4096 - unat (va_lo ph) div 4096) * PAGE_SIZE) flags)
         else leaf (tab ?s2) l0 x)"
    using map_pages_spec [OF lo f(6), of ?s2 l0 0 phys flags] a(7,8) unfolding mmu_map_user_range_def by auto
  have r': "runs_ok l0 s0 (L @ [ph]) (ns @ [a]) ?s'"
    by (rule runs_step [OF r a(2-5) _ _ _ _ _ a(14) k(2)]) (use a(6,9-12) in simp_all)
  have "contents_ok buf s0 (L @ [ph]) (ns @ [a]) ?s'"
    by (rule contents_step [OF _ r r' ok(1,2) _ a(13)]) (use l m a(1) d(4) in \<open>simp_all add: loaded_def kbytes_map_range\<close>)
  moreover have "mapped_ok l0 s0 (L @ [ph]) (ns @ [a]) ?s'"
  proof (rule mapped_step [OF _ d(7) _ _ k(1) _ _ ok(3)])
    show "mapped_ok l0 s0 L ns s" using l by (simp add: loaded_def)
    show "allocated s \<subseteq> allocated ?s'" using keepsD(3) [OF k(2)] a(6) by auto
    show "allocated ?s' \<subseteq> {..<npages s0}" using runs_okD(3) [OF r'] by (auto simp: allocated_def)
    show "k < unat (seg_pages ph) \<longrightarrow> allocated ?s' = {..<npages s0}" using k(3) a(9) d(3) by simp
  qed (use k(4) a(1,12) d(4) in simp)
  ultimately show ?thesis using that [of a] r' a(1) d(4) unfolding m loaded_def by simp
qed

section \<open>Undoing a load\<close>

definition run_at :: "nat \<times> u64 \<Rightarrow> nat set" where
  "run_at x = {fst x..<fst x + unat (snd x)}"

lemma free_regions_runs:
  fixes s :: "'a kern_scheme"
  assumes "pmm_inv s" "\<forall>x \<in> set xs. 0 < unat (snd x) \<and> unat (reserved_pages s) \<le> fst x \<and> fst x + unat (snd x) \<le> npages s \<and> run_at x \<subseteq> allocated s"
    "sorted_wrt (\<lambda>x y. run_at x \<inter> run_at y = {}) xs"
  shows "\<exists>t. free_regions_of (map (\<lambda>x. (page_addr s (fst x), snd x)) xs) s = t \<and> pmm_inv t \<and>
    allocated t = allocated s - \<Union> (run_at ` set xs) \<and> page_addr t = page_addr s \<and> npages t = npages s \<and>
    reserved_pages t = reserved_pages s \<and> pmm.more t = pmm.more s"
  using assms
proof (induction xs arbitrary: s)
  case (Cons x xs)
  have x: "0 < unat (snd x)" "unat (reserved_pages s) \<le> fst x" "fst x + unat (snd x) \<le> npages s" "run_at x \<subseteq> allocated s"
    using Cons.prems(2) by auto
  let ?t = "pmm_free_pages (page_addr s (fst x)) (snd x) s"
  note f = pmm_free_pages_run [OF Cons.prems(1) x(3,2), folded run_at_def [of x], OF x(4)]
  have nz: "page_addr s (fst x) \<noteq> 0" "snd x \<noteq> 0" using page_addr_nonzero [OF Cons.prems(1), of "fst x"] x(1,3) by auto
  have "\<exists>t. free_regions_of (map (\<lambda>x. (page_addr ?t (fst x), snd x)) xs) ?t = t \<and> pmm_inv t \<and>
    allocated t = allocated ?t - \<Union> (run_at ` set xs) \<and> page_addr t = page_addr ?t \<and> npages t = npages ?t \<and>
    reserved_pages t = reserved_pages ?t \<and> pmm.more t = pmm.more ?t"
  proof (rule Cons.IH [OF f(1)])
    show "\<forall>y \<in> set xs. 0 < unat (snd y) \<and> unat (reserved_pages ?t) \<le> fst y \<and> fst y + unat (snd y) \<le> npages ?t \<and> run_at y \<subseteq> allocated ?t"
      using Cons.prems(2,3) unfolding f(2,4,5) by (auto simp: disjoint_iff)
  qed (use Cons.prems(3) in simp)
  then show ?case using nz unfolding f(2-6) by (auto simp: Diff_eq Int_assoc)
qed simp

text \<open>What a failed load leaves: page tables, and nothing else, beside what there was.\<close>

definition load_undone :: "u64 \<Rightarrow> 'a kern_scheme \<Rightarrow> 'a kern_scheme \<Rightarrow> bool" where
  "load_undone l0 s0 s \<longleftrightarrow> pmm_inv s \<and> tree_ok s l0 \<and> allocated s0 \<subseteq> allocated s \<and>
     (\<forall>n \<in> allocated s - allocated s0. page_addr s0 n \<in> tree_tables (tab s) l0)"

lemma runs_freed:
  fixes s :: "'a kern_scheme"
  assumes r: "runs_ok l0 s0 L ns s"
  shows "load_undone l0 s0 (free_regions_of (regions_of s0 ns L) s)"
proof -
  note d = runs_okD [OF r]
  let ?xs = "zip ns (map seg_pages L)"
  have reg: "regions_of s0 ns L = map (\<lambda>x. (page_addr s (fst x), snd x)) ?xs"
    by (rule nth_equalityI) (simp_all add: regions_of_def d(4,7))
  have at: "run_at (?xs ! i) = run_of ns L i" "i < length ?xs \<longleftrightarrow> i < length L" if "i < length L" for i
    using that d(7) by (simp_all add: run_at_def run_of_def)
  have "\<forall>x \<in> set ?xs. 0 < unat (snd x) \<and> unat (reserved_pages s) \<le> fst x \<and> fst x + unat (snd x) \<le> npages s \<and> run_at x \<subseteq> allocated s"
  proof
    fix x assume "x \<in> set ?xs"
    then obtain i where i: "i < length L" "x = ?xs ! i" using d(7) by (auto simp: in_set_conv_nth)
    then have x: "fst x = ns ! i" "snd x = seg_pages (L ! i)" using d(7) by simp_all
    have "run_at x \<subseteq> allocated s" using at(1) [OF i(1)] d(11) [OF i(1)] i(2) by auto
    then show "0 < unat (snd x) \<and> unat (reserved_pages s) \<le> fst x \<and> fst x + unat (snd x) \<le> npages s \<and> run_at x \<subseteq> allocated s"
      using d(8-10) [OF i(1)] d(3,5) unfolding x by simp
  qed
  moreover have "sorted_wrt (\<lambda>x y. run_at x \<inter> run_at y = {}) ?xs"
    unfolding sorted_wrt_iff_nth_less
  proof (intro allI impI)
    fix i j assume "i < j" "j < length ?xs"
    then have ij: "i < j" "i < length L" "j < length L" using d(7) by auto
    show "run_at (?xs ! i) \<inter> run_at (?xs ! j) = {}"
      unfolding at(1) [OF ij(2)] at(1) [OF ij(3)] using d(13) [OF ij(3,1)] by blast
  qed
  ultimately obtain t where t: "free_regions_of (regions_of s0 ns L) s = t" "pmm_inv t" "allocated t = allocated s - \<Union> (run_at ` set ?xs)"
      "page_addr t = page_addr s" "reserved_pages t = reserved_pages s" "pmm.more t = pmm.more s"
    using free_regions_runs [OF d(1), of ?xs] unfolding reg by blast
  have un: "\<Union> (run_at ` set ?xs) = (\<Union>i \<in> {..<length L}. run_of ns L i)"
  proof -
    have "set ?xs = (!) ?xs ` {..<length L}" using nth_image [of "length ?xs" ?xs] d(7) by (simp add: lessThan_atLeast0)
    then have "\<Union> (run_at ` set ?xs) = (\<Union>i \<in> {..<length L}. run_at (?xs ! i))" by simp
    also have "\<dots> = (\<Union>i \<in> {..<length L}. run_of ns L i)" by (rule SUP_cong [OF refl], rule at(1)) simp
    finally show ?thesis .
  qed
  have tab: "tab t = tab s" by (rule more_fields(1) [OF t(6)])
  have keep: "table_page t x" if x: "x \<in> tree_tables (tab s) l0" "table_page s x" for x
  proof -
    obtain n where n: "n \<in> allocated s" "unat (reserved_pages s) \<le> n" "x = page_addr s n" using x(2) by (auto simp: table_page_def)
    have "n \<notin> run_of ns L i" if "i < length L" for i using d(12) [OF that] x(1) n(3) d(4) by auto
    then have "n \<in> allocated t" using n(1) unfolding t(3) un by blast
    then show ?thesis using n(2,3) t(4,5) unfolding table_page_def by auto
  qed
  have "tree_ok t l0" by (rule tree_ok_frame(1) [OF d(2)]) (use tab keep in auto)
  moreover have "allocated s0 \<subseteq> allocated t" using d(6,11) unfolding t(3) un by blast
  moreover have "\<forall>n \<in> allocated t - allocated s0. page_addr s0 n \<in> tree_tables (tab t) l0"
    using d(14) unfolding tab t(3) un by blast
  ultimately show ?thesis using t(1,2) by (simp add: load_undone_def)
qed

section \<open>The loader is correct\<close>

abbreviation (input) pt_load :: "Elf64_Phdr list \<Rightarrow> Elf64_Phdr list" where
  "pt_load phs \<equiv> filter (\<lambda>ph. p_type ph = PT_LOAD) phs"

lemma regions_of_snoc: "length ns = length L \<Longrightarrow> regions_of s (ns @ [a]) (L @ [ph]) = regions_of s ns L @ [(page_addr s a, seg_pages ph)]"
  by (simp add: regions_of_def)

lemma elf_free_undone:
  assumes "runs_ok l0 s0 L ns s" "e_regions img = regions_of s0 ns L" "elf_free_regions img s = (img', s')"
  shows "e_regions img' = [] \<and> e_entry img' = e_entry img \<and> load_undone l0 s0 s'"
  using runs_freed [OF assms(1)] assms(2,3) by (auto simp: elf_free_regions_def)

lemma load_segments_ok:
  fixes s :: "'a kern_scheme"
  assumes buf: "length buf < 2 ^ 64"
  shows "loaded buf l0 s0 L ns s \<Longrightarrow> e_regions img = regions_of s0 ns L \<Longrightarrow> length L \<le> ELF_MAX_REGIONS \<Longrightarrow>
    load_segments buf l0 phs img s = (b, img', s') \<Longrightarrow>
    e_entry img' = e_entry img \<and>
    (if b then length (L @ pt_load phs) \<le> ELF_MAX_REGIONS \<and> (\<forall>ph \<in> set (pt_load phs). seg_ok buf ph \<and> parse_flags (p_flags ph) \<noteq> None) \<and>
       (\<exists>ns'. e_regions img' = regions_of s0 ns' (L @ pt_load phs) \<and> loaded buf l0 s0 (L @ pt_load phs) ns' s')
     else e_regions img' = [] \<and> load_undone l0 s0 s')"
proof (induction phs arbitrary: L ns img s)
  case Nil
  then show ?case by auto
next
  case (Cons ph phs)
  have r: "runs_ok l0 s0 L ns s" and len: "length ns = length L" using Cons.prems(1) runs_okD(7) by (auto simp: loaded_def)
  have lr: "length (e_regions img) = length L" using len by (simp add: Cons.prems(2) regions_of_def)
  consider (skip) "p_type ph \<noteq> PT_LOAD" | (bad) "p_type ph = PT_LOAD" "\<not> seg_ok buf ph \<or> length L \<ge> ELF_MAX_REGIONS \<or> parse_flags (p_flags ph) = None"
    | (good) flags where "p_type ph = PT_LOAD" "seg_ok buf ph" "length L < ELF_MAX_REGIONS" "parse_flags (p_flags ph) = Some flags"
    by fastforce
  then show ?case
  proof cases
    case skip
    then have "load_segments buf l0 phs img s = (b, img', s')" using Cons.prems(4) by simp
    from Cons.IH [OF Cons.prems(1-3) this] show ?thesis using skip by (cases b) auto
  next
    case bad
    then have "b = False" "elf_free_regions img s = (img', s')" using Cons.prems(4) by (auto simp: lr split: if_splits)
    then show ?thesis using elf_free_undone [OF r Cons.prems(2)] by simp
  next
    case good
    obtain phys s1 where al: "pmm_allocate_pages (seg_pages ph) s = (phys, s1)" by fastforce
    show ?thesis
    proof (cases "phys = 0")
      case True
      then have "s1 = s" using pmm_allocate_pages_result [OF runs_okD(1) [OF r] al] page_addr_nonzero [OF runs_okD(1) [OF r]]
        by (auto simp: free_run_def)
      then have "b = False" "elf_free_regions img s = (img', s')" using Cons.prems(4) good al True by (auto simp: lr)
      then show ?thesis using elf_free_undone [OF r Cons.prems(2)] by simp
    next
      case False
      obtain a where a: "phys = page_addr s0 a"
          "loaded buf l0 s0 (L @ [ph]) (ns @ [a]) (mmu_map_user_range l0 (va_lo ph) phys (seg_pages ph) flags (fill_segment buf ph phys s1))"
        using loaded_step [OF Cons.prems(1) good(2) buf good(4) al False] by blast
      let ?img = "img\<lparr>e_regions := e_regions img @ [(phys, seg_pages ph)]\<rparr>"
      have e: "e_regions ?img = regions_of s0 (ns @ [a]) (L @ [ph])" using Cons.prems(2) a(1) by (simp add: regions_of_snoc [OF len])
      have run: "load_segments buf l0 phs ?img (mmu_map_user_range l0 (va_lo ph) phys (seg_pages ph) flags (fill_segment buf ph phys s1)) = (b, img', s')"
        using Cons.prems(4) good al False by (simp add: lr)
      show ?thesis using Cons.IH [OF a(2) e _ run] good by (cases b) auto
    qed
  qed
qed

text \<open>A page is writable at EL0 unless bit 7 is set, and executable unless bit 54 is.\<close>

lemma parse_flags_wx:
  assumes "parse_flags pf = Some f"
  shows "bit f 7 \<or> bit f 54" "bit f 53" "pf AND 1 = 0 \<Longrightarrow> bit f 54" "pf AND 2 = 0 \<Longrightarrow> bit f 7"
proof -
  have c: "bit (0xC0 :: u64) 7" "bit (0x40000000000000 :: u64) 54" "bit (0x20000000000000 :: u64) 53" by code_simp+
  show "bit f 7 \<or> bit f 54" "bit f 53" "pf AND 1 = 0 \<Longrightarrow> bit f 54" "pf AND 2 = 0 \<Longrightarrow> bit f 7"
    using assms c unfolding parse_flags_def Let_def by (auto simp: bit_or_iff split: if_splits)
qed

text \<open>C3: Loading an executable.  If \<open>elf_load\<close> succeeds, the header is that of a static AArch64
  executable; there are between one and four loadable segments, each inside the file and
  below the user stack's top, none both writable and executable, and the entry point is in
  an executable one; every segment has its own run of newly taken pages, which hold the
  segment's bytes and zeros elsewhere, and, unless memory ran out for page tables, every address
  is translated to the page of the last segment that has it, with that segment's permissions.
  If it fails, every page it took is free again except page tables of the address space.
  In both cases nothing that was allocated is released.\<close>

theorem elf_load_correct:
  fixes s :: "'a kern_scheme"
  assumes "pmm_inv s" "tree_ok s l0" "length buf < 2 ^ 64"
  shows "case elf_load buf l0 out s of (rc, img, s') \<Rightarrow>
    (rc = 0 \<and> header_ok buf \<and> 1 \<le> length (pt_load (phdrs buf)) \<and> length (pt_load (phdrs buf)) \<le> ELF_MAX_REGIONS \<and>
     (\<forall>ph \<in> set (pt_load (phdrs buf)). seg_ok buf ph \<and> (\<exists>f. parse_flags (p_flags ph) = Some f \<and> (bit f 7 \<or> bit f 54))) \<and>
     e_entry img = eh_entry (read_ehdr buf) \<and> entry_ok (e_entry img) (phdrs buf) \<and>
     (\<exists>ns. e_regions img = regions_of s ns (pt_load (phdrs buf)) \<and> loaded buf l0 s (pt_load (phdrs buf)) ns s')) \<or>
    (rc = -1 \<and> (header_ok buf \<longrightarrow> e_regions img = []) \<and> load_undone l0 s s')"
proof (cases "header_ok buf")
  case False
  then show ?thesis using assms(1,2) by (simp add: elf_load_def load_undone_def)
next
  case True
  let ?img = "\<lparr>e_entry = eh_entry (read_ehdr buf), e_regions = []\<rparr>" and ?L = "pt_load (phdrs buf)"
  have start: "loaded buf l0 s [] [] s" "e_regions ?img = regions_of s [] []" "length ([] :: Elf64_Phdr list) \<le> ELF_MAX_REGIONS"
    using assms(1,2) by (simp_all add: loaded_def runs_ok_def contents_ok_def mapped_ok_def regions_of_def)
  obtain b img s1 where run: "load_segments buf l0 (phdrs buf) ?img s = (b, img, s1)" by (metis prod_cases3)
  note ok = load_segments_ok [OF assms(3) start run, simplified]
  show ?thesis
  proof (cases b)
    case False
    then show ?thesis using True run ok by (simp add: elf_load_def)
  next
    case b: True
    obtain ns where ns: "e_regions img = regions_of s ns ?L" "loaded buf l0 s ?L ns s1" using ok b by auto
    have r: "runs_ok l0 s ?L ns s1" using ns(2) by (simp add: loaded_def)
    have len: "length (e_regions img) = length ?L" using runs_okD(7) [OF r] by (simp add: ns(1) regions_of_def)
    consider (none) "?L = []" | (entry) "?L \<noteq> []" "\<not> entry_ok (e_entry img) (phdrs buf)" | (fine) "?L \<noteq> []" "entry_ok (e_entry img) (phdrs buf)" by blast
    then show ?thesis
    proof cases
      case none
      have "e_regions img = []" using none len by simp
      moreover have "load_undone l0 s s1" using runs_freed [OF r] none ns(1) \<open>e_regions img = []\<close> by simp
      ultimately show ?thesis using True run b by (simp add: elf_load_def)
    next
      case entry
      obtain img' s2 where f: "elf_free_regions img s1 = (img', s2)" by fastforce
      have "e_regions img \<noteq> []" using entry(1) len by auto
      then show ?thesis using True run b entry(2) f elf_free_undone [OF r ns(1) f] by (simp add: elf_load_def)
    next
      case fine
      have "e_regions img \<noteq> []" using fine(1) len by auto
      then have "elf_load buf l0 out s = (0, img, s1)" using True run b fine(2) by (simp add: elf_load_def)
      moreover have "1 \<le> length ?L" using fine(1) by (cases ?L) auto
      ultimately show ?thesis using True fine(2) ok b ns by (auto dest: parse_flags_wx(1))
    qed
  qed
qed

text \<open>A small executable: one segment of four bytes of code at \<^verbatim>\<open>0x400078\<close>.\<close>

definition demo_elf :: "u8 list" where
  "demo_elf = [0x7F, 0x45, 0x4C, 0x46, 2, 1, 1, 0, 0, 0, 0, 0, 0, 0, 0, 0] @ le_bytes 2 2 @ le_bytes 2 0xB7 @ le_bytes 4 1 @ le_bytes 8 0x400078 @
     le_bytes 8 64 @ le_bytes 8 0 @ le_bytes 4 0 @ le_bytes 2 64 @ le_bytes 2 56 @ le_bytes 2 1 @ le_bytes 2 0 @ le_bytes 2 0 @ le_bytes 2 0 @
     le_bytes 4 1 @ le_bytes 4 5 @ le_bytes 8 0x78 @ le_bytes 8 0x400078 @ le_bytes 8 0x400078 @ le_bytes 8 4 @ le_bytes 8 16 @ le_bytes 8 0x1000 @
     [0x00, 0x00, 0x80, 0xD2]"

definition demo_segment :: Elf64_Phdr where
  "demo_segment = \<lparr>p_type = 1, p_flags = 5, p_offset = 0x78, p_vaddr = 0x400078, p_filesz = 4, p_memsz = 16\<rparr>"

lemma demo_phdrs: "phdrs demo_elf = [demo_segment]"
proof -
  have h: "rd 8 32 demo_elf = 64" "rd 2 56 demo_elf = 1" by code_simp+
  have p: "rd 4 64 demo_elf = 1" "rd 4 68 demo_elf = 5" "rd 8 72 demo_elf = 0x78" by code_simp+
  have q: "rd 8 80 demo_elf = 0x400078" "rd 8 96 demo_elf = 4" "rd 8 104 demo_elf = 16" by code_simp+
  show ?thesis by (simp add: phdrs_def read_ehdr_def read_phdr_def h p q demo_segment_def)
qed

text \<open>The kernel with one empty address space, whose root is at \<^verbatim>\<open>0x40003000\<close>.\<close>

definition demo_kern :: kern where
  "demo_kern = mm.extend (mm.truncate demo_space) (mm.more (sys.extend (sys.truncate (demo_sys demo_signalled)) \<lparr>kbytes = (\<lambda>_. 0)\<rparr>))"

lemma mm_fields_cong:
  fixes s :: "'a mm_scheme" and t :: "'b mm_scheme"
  assumes "bitmap s = bitmap t" "bitmap_size s = bitmap_size t" "total_pages s = total_pages t" "used_pages s = used_pages t"
    "reserved_pages s = reserved_pages t" "mem_region_start s = mem_region_start t" "mem_region_end s = mem_region_end t" "tab s = tab t"
  shows "pmm_inv s = pmm_inv t" "tree_ok s l = tree_ok t l"
proof -
  have n: "npages s = npages t" by (simp add: npages_def assms)
  have u: "page_used s = page_used t" by (simp add: fun_eq_iff page_used_def assms)
  have a: "allocated s = allocated t" by (simp add: allocated_def n u)
  have p: "page_addr s = page_addr t" by (simp add: fun_eq_iff page_addr_def assms)
  show "pmm_inv s = pmm_inv t" by (simp add: pmm_inv_def n u a assms)
  have "table_page s = table_page t" by (simp add: fun_eq_iff table_page_def a p assms)
  then show "tree_ok s l = tree_ok t l" by (simp add: tree_ok_def assms)
qed

theorem elf_load_correct_witness:
  "case elf_load demo_elf 0x40003000 \<lparr>e_entry = 0, e_regions = []\<rparr> demo_kern of (rc, img, s') \<Rightarrow>
    (rc = 0 \<and> header_ok demo_elf \<and> 1 \<le> length [demo_segment] \<and> length [demo_segment] \<le> ELF_MAX_REGIONS \<and>
     (\<forall>ph \<in> set [demo_segment]. seg_ok demo_elf ph \<and> (\<exists>f. parse_flags (p_flags ph) = Some f \<and> (bit f 7 \<or> bit f 54))) \<and>
     e_entry img = eh_entry (read_ehdr demo_elf) \<and> entry_ok (e_entry img) [demo_segment] \<and>
     (\<exists>ns. e_regions img = regions_of demo_kern ns [demo_segment] \<and> loaded demo_elf 0x40003000 demo_kern [demo_segment] ns s')) \<or>
    (rc = -1 \<and> (header_ok demo_elf \<longrightarrow> e_regions img = []) \<and> load_undone 0x40003000 demo_kern s')"
proof -
  have k: "pmm_inv demo_kern = pmm_inv demo_space" "tree_ok demo_kern 0x40003000 = tree_ok demo_space 0x40003000"
    by (rule mm_fields_cong; simp add: demo_kern_def mm.defs)+
  have len: "length demo_elf < 2 ^ 64" by (simp add: demo_elf_def)
  have seg: "pt_load (phdrs demo_elf) = [demo_segment]" unfolding demo_phdrs by (simp add: demo_segment_def)
  have i: "pmm_inv demo_kern" "tree_ok demo_kern 0x40003000" unfolding k by (rule demo_space_ok)+
  show ?thesis using elf_load_correct [OF i len, of "\<lparr>e_entry = 0, e_regions = []\<rparr>"] unfolding seg unfolding demo_phdrs .
qed

end
