(* ===== verification/Fat32.thy ===== *)
theory Fat32
  imports Elf
begin

text \<open>
  The FAT32 file system, \<^verbatim>\<open>src/fs/fat32/fat32.c\<close>, and its connection to the virtual
  file system, \<^verbatim>\<open>fat32_vfs.c\<close>.

  The block driver \<^verbatim>\<open>blk.c\<close> is modelled in theory \<open>Blk\<close> and abstracted here: \<open>sector_read\<close> and \<open>sector_write\<close> below are the
  contract in \<^verbatim>\<open>blk.h\<close> for one sector: the transfer is whole, or it fails.  The abstraction is
  narrower than the driver in two ways: a sector given as bad fails every time, so a fault that
  comes and goes is not covered, and a failed write leaves the sector as it was.  Walks along a
  cluster chain are partial, because a damaged table may have cycles.  C strings are lists without
  the terminating zero, and \<open>sec_buf\<close> is no part of the state, since every use fills it first.
\<close>

section \<open>State\<close>

record fat32_priv =
  pd_first_cluster :: u32
  pd_size :: u32

record fatfs = kern +
  fat_start_sector :: u32
  data_start_sector :: u32
  sectors_per_cluster :: u32
  root_cluster :: u32
  bytes_per_cluster :: u32
  disk :: "u32 \<Rightarrow> u8 list"
  rd_bad :: "u32 \<Rightarrow> bool"
  wr_bad :: "u32 \<Rightarrow> bool"
  fpriv :: "u64 \<Rightarrow> fat32_priv"

abbreviation (input) SECTOR :: nat where "SECTOR \<equiv> 512"
abbreviation (input) FAT32_EOC :: u32 where "FAT32_EOC \<equiv> 0x0FFFFFF8"

definition sector_read :: "u32 \<Rightarrow> 'a fatfs_scheme \<Rightarrow> u8 list option" where
  "sector_read sec s = (if rd_bad s sec then None else Some (disk s sec))"

definition sector_write :: "u32 \<Rightarrow> u8 list \<Rightarrow> 'a fatfs_scheme \<Rightarrow> bool \<times> 'a fatfs_scheme" where
  "sector_write sec b s = (if wr_bad s sec then (False, s) else (True, s\<lparr>disk := (disk s)(sec := b)\<rparr>))"

text \<open>Bytes written into a buffer at an offset.\<close>

definition splice :: "nat \<Rightarrow> u8 list \<Rightarrow> u8 list \<Rightarrow> u8 list" where
  "splice off bs b = take off b @ bs @ drop (off + length bs) b"

section \<open>The table\<close>

definition cluster_to_sector :: "u32 \<Rightarrow> 'a fatfs_scheme \<Rightarrow> u32" where
  "cluster_to_sector cluster s = data_start_sector s + (cluster - 2) * sectors_per_cluster s"

definition fat_sector :: "u32 \<Rightarrow> 'a fatfs_scheme \<Rightarrow> u32" where
  "fat_sector cluster s = fat_start_sector s + cluster * 4 div 512"

definition fat_off :: "u32 \<Rightarrow> nat" where
  "fat_off cluster = unat (cluster * 4 mod 512)"

definition fat_next :: "u32 \<Rightarrow> 'a fatfs_scheme \<Rightarrow> u32" where
  "fat_next cluster s =
    (case sector_read (fat_sector cluster s) s of
       None \<Rightarrow> FAT32_EOC
     | Some b \<Rightarrow> ucast (rd 4 (fat_off cluster) b) AND 0x0FFFFFFF)"

definition fat_write :: "u32 \<Rightarrow> u32 \<Rightarrow> 'a fatfs_scheme \<Rightarrow> bool \<times> 'a fatfs_scheme" where
  "fat_write cluster val s =
    (case sector_read (fat_sector cluster s) s of
       None \<Rightarrow> (False, s)
     | Some b \<Rightarrow>
        (let existing = ucast (rd 4 (fat_off cluster) b) :: u32;
             v = (existing AND 0xF0000000) OR (val AND 0x0FFFFFFF)
         in sector_write (fat_sector cluster s) (splice (fat_off cluster) (le_bytes 4 (ucast v)) b) s))"

partial_function (option) alloc_from :: "u32 \<Rightarrow> 'a fatfs_scheme \<Rightarrow> (u32 \<times> 'a fatfs_scheme) option" where
  "alloc_from c s =
    (if fat_sector c s \<ge> data_start_sector s then Some (0, s)
     else case sector_read (fat_sector c s) s of
            None \<Rightarrow> Some (0, s)
          | Some b \<Rightarrow>
             if ucast (rd 4 (fat_off c) b) AND (0x0FFFFFFF :: u32) = 0
             then (case fat_write c 0x0FFFFFFF s of (ok, s1) \<Rightarrow> Some (if ok then c else 0, s1))
             else alloc_from (c + 1) s)"

definition fat_alloc_cluster :: "'a fatfs_scheme \<Rightarrow> (u32 \<times> 'a fatfs_scheme) option" where
  "fat_alloc_cluster s = alloc_from 2 s"

section \<open>Names and the volume header\<close>

definition upper :: "u8 \<Rightarrow> u8" where
  "upper c = (if 0x61 \<le> c \<and> c \<le> 0x7A then c - 32 else c)"

definition pad :: "nat \<Rightarrow> u8 list \<Rightarrow> u8 list" where
  "pad n xs = xs @ replicate (n - length xs) 0x20"

definition to_83 :: "u8 list \<Rightarrow> u8 list" where
  "to_83 name =
    (let base = takeWhile (\<lambda>c. c \<noteq> DOT) (take 8 name);
         rest = dropWhile (\<lambda>c. c \<noteq> DOT) (drop (length base) name);
         ext = (case rest of [] \<Rightarrow> [] | _ # xs \<Rightarrow> take 3 xs)
     in pad 8 (map upper base) @ pad 3 (map upper ext))"

definition fat32_mount :: "'a fatfs_scheme \<Rightarrow> bool \<times> 'a fatfs_scheme" where
  "fat32_mount s =
    (case sector_read 0 s of
       None \<Rightarrow> (False, s)
     | Some b \<Rightarrow>
        if rd 2 11 b \<noteq> 512 then (False, s)
        else if rd 2 22 b \<noteq> 0 \<or> rd 2 17 b \<noteq> 0 then (False, s)
        else (True, s\<lparr>sectors_per_cluster := ucast (rd 1 13 b), fat_start_sector := ucast (rd 2 14 b),
                data_start_sector := ucast (rd 2 14 b) + ucast (rd 1 16 b) * ucast (rd 4 36 b),
                root_cluster := ucast (rd 4 44 b), bytes_per_cluster := ucast (rd 1 13 b) * 512\<rparr>))"

section \<open>Directories\<close>

definition dir_entries :: "u8 list \<Rightarrow> u8 list list" where
  "dir_entries b = map (\<lambda>i. take 32 (drop (32 * i) b)) [0..<16]"

definition entry_attr :: "u8 list \<Rightarrow> u8" where "entry_attr e = e ! 11"

definition entry_cluster :: "u8 list \<Rightarrow> u32" where
  "entry_cluster e = push_bit 16 (ucast (rd 2 20 e)) OR ucast (rd 2 26 e)"

definition entry_size :: "u8 list \<Rightarrow> u32" where "entry_size e = ucast (rd 4 28 e)"

datatype scan = Hit "u8 list" | Stop | Go_on

fun scan_entries :: "u8 list \<Rightarrow> u8 list list \<Rightarrow> scan" where
  "scan_entries target [] = Go_on"
| "scan_entries target (e # es) =
    (if e ! 0 = 0 then Stop
     else if e ! 0 = 0xE5 then scan_entries target es
     else if entry_attr e = 0x0F then scan_entries target es
     else if entry_attr e AND 0x08 \<noteq> 0 then scan_entries target es
     else if take 11 e = target then Hit e
     else scan_entries target es)"

fun scan_sectors :: "u8 list \<Rightarrow> u32 list \<Rightarrow> 'a fatfs_scheme \<Rightarrow> scan" where
  "scan_sectors target [] s = Go_on"
| "scan_sectors target (a # as) s =
    (case sector_read a s of
       None \<Rightarrow> Stop
     | Some b \<Rightarrow> (case scan_entries target (dir_entries b) of Go_on \<Rightarrow> scan_sectors target as s | r \<Rightarrow> r))"

definition sectors_of :: "u32 \<Rightarrow> 'a fatfs_scheme \<Rightarrow> u32 list" where
  "sectors_of cluster s = map (\<lambda>i. cluster_to_sector cluster s + of_nat i) [0..<unat (sectors_per_cluster s)]"

text \<open>The entry found, if any; the outer option is the walk along the chain.\<close>

partial_function (option) dir_lookup :: "u8 list \<Rightarrow> u32 \<Rightarrow> 'a fatfs_scheme \<Rightarrow> u8 list option option" where
  "dir_lookup target cluster s =
    (if cluster < FAT32_EOC
     then (case scan_sectors target (sectors_of cluster s) s of
             Hit e \<Rightarrow> Some (Some e)
           | Stop \<Rightarrow> Some None
           | Go_on \<Rightarrow> dir_lookup target (fat_next cluster s) s)
     else Some None)"

lemma rest_of_path: "path \<noteq> [] \<Longrightarrow> length (dropWhile (\<lambda>c. c = SLASH) (dropWhile (\<lambda>c. c \<noteq> SLASH) path)) < length path"
proof (cases path)
  case (Cons c cs)
  have "length (dropWhile P xs) \<le> length xs" for P and xs :: "u8 list" by (rule length_dropWhile_le)
  then show ?thesis using Cons by (cases "c = SLASH") (auto simp: le_imp_less_Suc intro: le_less_trans le_trans)
qed simp

function find_path_from :: "u32 \<Rightarrow> u8 list \<Rightarrow> 'a fatfs_scheme \<Rightarrow> (u32 \<times> u32) option option" where
  "find_path_from cur path s =
    (if path = [] then Some None
     else let seg = takeWhile (\<lambda>c. c \<noteq> SLASH) path; rest = dropWhile (\<lambda>c. c = SLASH) (dropWhile (\<lambda>c. c \<noteq> SLASH) path) in
          case dir_lookup (to_83 (take 12 seg)) cur s of
            None \<Rightarrow> None
          | Some None \<Rightarrow> Some None
          | Some (Some e) \<Rightarrow>
             if rest \<noteq> [] then if entry_attr e AND 0x10 = 0 then Some None else find_path_from (entry_cluster e) rest s
             else Some (Some (entry_cluster e, entry_size e)))"
  by pat_completeness auto
termination
  by (relation "measure (\<lambda>(cur, path, s). length path)") (auto intro: rest_of_path)

declare find_path_from.simps [simp del]

definition fat32_find :: "u8 list \<Rightarrow> 'a fatfs_scheme \<Rightarrow> (u32 \<times> u32) option option" where
  "fat32_find path s = find_path_from (root_cluster s) (dropWhile (\<lambda>c. c = SLASH) path) s"

text \<open>The first slot that is free or was deleted.\<close>

definition free_slot :: "u8 list \<Rightarrow> nat option" where
  "free_slot b = find (\<lambda>i. b ! (32 * i) = 0 \<or> b ! (32 * i) = 0xE5) [0..<16]"

fun add_in_sectors :: "u8 list \<Rightarrow> u32 list \<Rightarrow> 'a fatfs_scheme \<Rightarrow> (bool \<times> 'a fatfs_scheme) option" where
  "add_in_sectors e [] s = None"
| "add_in_sectors e (a # as) s =
    (case sector_read a s of
       None \<Rightarrow> Some (False, s)
     | Some b \<Rightarrow> (case free_slot b of
                    Some i \<Rightarrow> Some (sector_write a (splice (32 * i) e b) s)
                  | None \<Rightarrow> add_in_sectors e as s))"

partial_function (option) dir_add_entry :: "u32 \<Rightarrow> u8 list \<Rightarrow> 'a fatfs_scheme \<Rightarrow> (bool \<times> 'a fatfs_scheme) option" where
  "dir_add_entry cluster e s =
    (if cluster < FAT32_EOC
     then (case add_in_sectors e (sectors_of cluster s) s of Some r \<Rightarrow> Some r | None \<Rightarrow> dir_add_entry (fat_next cluster s) e s)
     else Some (False, s))"

section \<open>File contents\<close>

fun write_sectors :: "u32 list \<Rightarrow> u8 list \<Rightarrow> 'a fatfs_scheme \<Rightarrow> bool \<times> u8 list \<times> 'a fatfs_scheme" where
  "write_sectors [] src s = (True, src, s)"
| "write_sectors (a # as) src s =
    (if src = [] then (True, src, s)
     else let chunk = take SECTOR src in
          case sector_write a (chunk @ replicate (SECTOR - length chunk) 0) s of
            (False, s1) \<Rightarrow> (False, src, s1)
          | (True, s1) \<Rightarrow> write_sectors as (drop SECTOR src) s1)"

partial_function (option) cluster_write_data :: "u32 \<Rightarrow> u8 list \<Rightarrow> 'a fatfs_scheme \<Rightarrow> (bool \<times> 'a fatfs_scheme) option" where
  "cluster_write_data cluster src s =
    (if src \<noteq> [] \<and> cluster < FAT32_EOC
     then (case write_sectors (sectors_of cluster s) src s of
             (ok, rest, s1) \<Rightarrow> if ok then cluster_write_data (fat_next cluster s1) rest s1 else Some (False, s1))
     else Some (True, s))"

fun read_sectors :: "u32 list \<Rightarrow> nat \<Rightarrow> 'a fatfs_scheme \<Rightarrow> (u8 list \<times> nat) option" where
  "read_sectors [] n s = Some ([], n)"
| "read_sectors (a # as) n s =
    (if n = 0 then Some ([], 0)
     else case sector_read a s of
            None \<Rightarrow> None
          | Some b \<Rightarrow>
             (case read_sectors as (n - min n SECTOR) s of
                None \<Rightarrow> None
              | Some (out, m) \<Rightarrow> Some (take (min n SECTOR) b @ out, m)))"

text \<open>The bytes read, or \<open>None\<close> on an I/O error; the outer option is the walk.\<close>

partial_function (option) read_clusters :: "u32 \<Rightarrow> nat \<Rightarrow> u8 list \<Rightarrow> 'a fatfs_scheme \<Rightarrow> u8 list option option" where
  "read_clusters cluster n acc s =
    (if n > 0 \<and> cluster < FAT32_EOC
     then (case read_sectors (sectors_of cluster s) n s of
             None \<Rightarrow> Some None
           | Some (out, m) \<Rightarrow> read_clusters (fat_next cluster s) m (acc @ out) s)
     else Some (Some acc))"

text \<open>
  The count is returned as a C \<open>int\<close>, so 2 GiB and more come back negative.  Beside it are the bytes
  in the buffer; after an I/O error what was copied so far is left out.
\<close>

definition fat32_read :: "u32 \<Rightarrow> u32 \<Rightarrow> u32 \<Rightarrow> 'a fatfs_scheme \<Rightarrow> (int \<times> u8 list) option" where
  "fat32_read first_cluster fsize buf_len s =
    (case read_clusters first_cluster (unat (if fsize > buf_len then buf_len else fsize)) [] s of
       None \<Rightarrow> None
     | Some None \<Rightarrow> Some (-1, [])
     | Some (Some out) \<Rightarrow> Some (sint (of_nat (length out) :: u32), out))"

section \<open>Creating a file\<close>

function walk_dirs :: "u32 \<Rightarrow> u8 list \<Rightarrow> 'a fatfs_scheme \<Rightarrow> u32 option option" where
  "walk_dirs cur path s =
    (if path = [] then Some (Some cur)
     else let seg = takeWhile (\<lambda>c. c \<noteq> SLASH) path; rest = dropWhile (\<lambda>c. c = SLASH) (dropWhile (\<lambda>c. c \<noteq> SLASH) path) in
          case dir_lookup (to_83 (take 12 seg)) cur s of
            None \<Rightarrow> None
          | Some None \<Rightarrow> Some None
          | Some (Some e) \<Rightarrow> if entry_attr e AND 0x10 = 0 then Some None else walk_dirs (entry_cluster e) rest s)"
  by pat_completeness auto
termination
  by (relation "measure (\<lambda>(cur, path, s). length path)") (auto intro: rest_of_path)

declare walk_dirs.simps [simp del]

definition split_path :: "u8 list \<Rightarrow> u8 list \<times> u8 list" where
  "split_path p =
    (let r = rev p in
     if SLASH \<in> set p then (rev (tl (dropWhile (\<lambda>c. c \<noteq> SLASH) r)), rev (takeWhile (\<lambda>c. c \<noteq> SLASH) r)) else ([], p))"

fun alloc_chain :: "nat \<Rightarrow> u32 \<Rightarrow> u32 \<Rightarrow> 'a fatfs_scheme \<Rightarrow> (u32 option \<times> 'a fatfs_scheme) option" where
  "alloc_chain 0 first prev s = Some (Some first, s)"
| "alloc_chain (Suc n) first prev s =
    (case fat_alloc_cluster s of
       None \<Rightarrow> None
     | Some (c, s1) \<Rightarrow>
        if c = 0 then Some (None, s1)
        else case (if prev \<noteq> 0 then fat_write prev c s1 else (True, s1)) of
               (False, s2) \<Rightarrow> Some (None, s2)
             | (True, s2) \<Rightarrow> alloc_chain n (if prev = 0 then c else first) c s2)"

definition new_entry :: "u8 list \<Rightarrow> u32 \<Rightarrow> u32 \<Rightarrow> u8 list" where
  "new_entry filename first_cluster len =
    to_83 filename @ [0x20] @ replicate 8 0 @ le_bytes 2 (ucast (drop_bit 16 first_cluster)) @ replicate 4 0 @
    le_bytes 2 (ucast (first_cluster AND 0xFFFF)) @ le_bytes 4 (ucast len)"

definition clusters_needed :: "u32 \<Rightarrow> 'a fatfs_scheme \<Rightarrow> u32" where
  "clusters_needed len s = (if len = 0 then 0 else (len + bytes_per_cluster s - 1) div bytes_per_cluster s)"

definition fat32_create :: "u8 list \<Rightarrow> u8 list \<Rightarrow> 'a fatfs_scheme \<Rightarrow> (bool \<times> 'a fatfs_scheme) option" where
  "fat32_create path data s =
    (let (dir, fname) = split_path (dropWhile (\<lambda>c. c = SLASH) path); filename = take 12 fname; len = of_nat (length data) :: u32 in
     case walk_dirs (root_cluster s) dir s of
       None \<Rightarrow> None
     | Some None \<Rightarrow> Some (False, s)
     | Some (Some dir_cluster) \<Rightarrow>
        (case alloc_chain (unat (clusters_needed len s)) 0 0 s of
           None \<Rightarrow> None
         | Some (None, s1) \<Rightarrow> Some (False, s1)
         | Some (Some first_cluster, s1) \<Rightarrow>
            (case (if len > 0 \<and> first_cluster \<noteq> 0 then cluster_write_data first_cluster data s1 else Some (True, s1)) of
               None \<Rightarrow> None
             | Some (False, s2) \<Rightarrow> Some (False, s2)
             | Some (True, s2) \<Rightarrow> dir_add_entry dir_cluster (new_entry filename first_cluster len) s2)))"

definition fat32_lookup_in_dir :: "u32 \<Rightarrow> u8 list \<Rightarrow> 'a fatfs_scheme \<Rightarrow> (u32 \<times> u32 \<times> bool) option option" where
  "fat32_lookup_in_dir dir_cluster name s =
    map_option (map_option (\<lambda>e. (entry_cluster e, entry_size e, entry_attr e AND 0x10 \<noteq> 0))) (dir_lookup (to_83 name) dir_cluster s)"

section \<open>The virtual file system's entry points\<close>

text \<open>The operation tables are named 1; a null result is \<open>None\<close> inside.\<close>

definition fat32_lookup :: "nat \<Rightarrow> u8 list \<Rightarrow> 'a fatfs_scheme \<Rightarrow> (nat option \<times> 'a fatfs_scheme) option" where
  "fat32_lookup dir name s =
    (let pd = v_private (node_pool s dir) in
     if pd = 0 \<or> length name > 12 then Some (None, s)
     else case fat32_lookup_in_dir (pd_first_cluster (fpriv s pd)) name s of
            None \<Rightarrow> None
          | Some None \<Rightarrow> Some (None, s)
          | Some (Some (cluster, fsize, is_dir)) \<Rightarrow>
             (case kmalloc 8 s of
                None \<Rightarrow> None
              | Some (cpd, s1) \<Rightarrow>
                 if cpd = 0 then Some (None, s1)
                 else let s2 = s1\<lparr>fpriv := (fpriv s1)(cpd := \<lparr>pd_first_cluster = cluster, pd_size = fsize\<rparr>)\<rparr> in
                      (case vfs_create_node (Some dir) name (if is_dir then VNODE_DIR else VNODE_REG) s2 of
                         (None, s3) \<Rightarrow> map_option (Pair None) (kfree cpd s3)
                       | (Some child, s3) \<Rightarrow>
                          (let v = (node_pool s3 child)\<lparr>v_private := cpd, v_size := ucast fsize\<rparr>;
                               v' = (if is_dir then v\<lparr>v_lookup := Some 1\<rparr>
                                     else v\<lparr>v_fops := Some \<lparr>op_read = Some 1, op_write = None, op_ioctl = None\<rparr>\<rparr>)
                           in Some (Some child, s3\<lparr>node_pool := (node_pool s3)(child := v')\<rparr>)))))"

definition fat32_file_read :: "nat \<Rightarrow> u64 \<Rightarrow> u64 \<Rightarrow> u64 \<Rightarrow> 'a fatfs_scheme \<Rightarrow> (int \<times> 'a fatfs_scheme) option" where
  "fat32_file_read n f buf count s =
    (let pd = v_private (node_pool s n); off = f_offset (files s f); fsize = pd_size (fpriv s pd) in
     if pd = 0 then Some (-1, s)
     else if off \<ge> ucast fsize then Some (0, s)
     else let remaining = ucast fsize - off; to_read = ucast (if remaining < count then remaining else count) :: u32;
              total_needed = ucast off + to_read :: u32
          in (case kmalloc (ucast total_needed) s of
                None \<Rightarrow> None
              | Some (tmp, s1) \<Rightarrow>
                 if tmp = 0 then Some (-1, s1)
                 else (case fat32_read (pd_first_cluster (fpriv s pd)) total_needed total_needed s1 of
                         None \<Rightarrow> None
                       | Some (got, out) \<Rightarrow>
                          if got < 0 then map_option (Pair (-1)) (kfree tmp s1)
                          else if (of_int got :: u32) \<le> ucast off then map_option (Pair 0) (kfree tmp s1)
                          else let n' = (if (of_int got :: u32) < total_needed then of_int got - ucast off else to_read);
                                   s2 = s1\<lparr>umem := store_bytes buf (take (unat n') (drop (unat off) out)) (umem s1)\<rparr>
                               in (case kfree tmp s2 of
                                     None \<Rightarrow> None
                                   | Some s3 \<Rightarrow>
                                      Some (sint n', s3\<lparr>files := (files s3)(f := (files s3 f)\<lparr>f_offset := off + ucast n'\<rparr>)\<rparr>)))))"

definition fat32_vfs_mount :: "('a fatfs_scheme) dir_lookup \<Rightarrow> u8 list \<Rightarrow> 'a fatfs_scheme \<Rightarrow> (bool \<times> 'a fatfs_scheme) option" where
  "fat32_vfs_mount lookup path s =
    (case vfs_resolve lookup path s of
       None \<Rightarrow> None
     | Some (None, s1) \<Rightarrow> Some (False, s1)
     | Some (Some mp, s1) \<Rightarrow>
        if v_type (node_pool s1 mp) \<noteq> VNODE_DIR then Some (False, s1)
        else case kmalloc 8 s1 of
               None \<Rightarrow> None
             | Some (pd, s2) \<Rightarrow>
                if pd = 0 then Some (False, s2)
                else let s3 = s2\<lparr>fpriv := (fpriv s2)(pd := \<lparr>pd_first_cluster = root_cluster s2, pd_size = 0\<rparr>)\<rparr>
                     in Some (True, s3\<lparr>node_pool := (node_pool s3)(mp := (node_pool s3 mp)\<lparr>v_private := pd, v_lookup := Some 1\<rparr>)\<rparr>))"

end
