(* ===== verification/Fat32_Files.thy ===== *)
theory Fat32_Files
  imports Fat32
begin

text \<open>
  Files on a FAT32 volume: the table as a function on clusters, chains, allocation, directory slots,
  and the round trip from \<open>fat32_create\<close> to \<open>fat32_read\<close>.  A volume is sound (\<open>vol_ok\<close>) when its sectors
  have 512 bytes and the sector numbers of its clusters do not wrap in 32 bits.
\<close>

section \<open>Sectors in a buffer\<close>

lemma length_splice [simp]: "off + length bs \<le> length b \<Longrightarrow> length (splice off bs b) = length b"
  by (simp add: splice_def)

lemma rd_splice_same:
  assumes "off + n \<le> length b" "n \<le> 8"
  shows "rd n off (splice off (le_bytes n w) b) = take_bit (8 * n) w"
  using assms by (simp add: rd_def splice_def le_word_bytes)

lemma rd_splice_other:
  assumes "off + length bs \<le> length b" "o' + n \<le> off \<or> off + length bs \<le> o'"
  shows "rd n o' (splice off bs b) = rd n o' b"
  using assms(2)
proof
  assume "o' + n \<le> off"
  then show ?thesis using assms(1) by (simp add: rd_def splice_def take_drop min_def)
next
  assume o: "off + length bs \<le> o'"
  have "drop o' (splice off bs b) = drop o' b"
    using o assms(1) by (simp add: splice_def)
  then show ?thesis by (simp add: rd_def)
qed

section \<open>Geometry\<close>

definition nclus :: "'a fatfs_scheme \<Rightarrow> nat" where
  "nclus s = (unat (data_start_sector s) - unat (fat_start_sector s)) * 128"

definition vol_ok :: "'a fatfs_scheme \<Rightarrow> bool" where
  "vol_ok s \<longleftrightarrow> (\<forall>x. length (disk s x) = SECTOR) \<and> fat_start_sector s < data_start_sector s \<and>
     nclus s \<le> 0x0FFFFFF8 \<and> unat (data_start_sector s) + nclus s * unat (sectors_per_cluster s) < 2 ^ 32 \<and>
     0 < sectors_per_cluster s \<and> unat (sectors_per_cluster s) < 256 \<and>
     unat (bytes_per_cluster s) = unat (sectors_per_cluster s) * SECTOR"

lemma vol_okD:
  assumes "vol_ok s"
  shows "length (disk s x) = 512" "fat_start_sector s \<le> data_start_sector s" "nclus s \<le> 0x0FFFFFF8"
    "unat (data_start_sector s) + nclus s * unat (sectors_per_cluster s) < 2 ^ 32"
    "0 < unat (sectors_per_cluster s)" "unat (sectors_per_cluster s) < 256"
    "unat (bytes_per_cluster s) = unat (sectors_per_cluster s) * 512" "2 \<le> nclus s"
  using assms by (auto simp: vol_ok_def word_less_nat_alt word_le_nat_alt nclus_def)

lemma vol_ok_disk: "vol_ok s \<Longrightarrow> (\<And>x. length (d x) = 512) \<Longrightarrow> vol_ok (s\<lparr>disk := d\<rparr>)"
  by (simp add: vol_ok_def nclus_def)

lemma fat_sector_nat:
  assumes v: "vol_ok s" and c: "unat c \<le> nclus s"
  shows "unat (fat_sector c s) = unat (fat_start_sector s) + unat c div 128"
    and "fat_off c = 4 * (unat c mod 128)"
proof -
  have b: "unat c < 2 ^ 30" using c vol_okD(3) [OF v] by simp
  have m: "unat (c * 4) = 4 * unat c" using b by (simp add: unat_word_ariths)
  have "unat c div 128 \<le> unat (data_start_sector s) - unat (fat_start_sector s)"
    using div_le_mono [OF c, of 128] by (simp add: nclus_def)
  then have "unat (fat_start_sector s) + unat c div 128 \<le> unat (data_start_sector s)"
    using vol_okD(2) [OF v] by (simp add: word_le_nat_alt)
  then have l: "unat (fat_start_sector s) + unat c div 128 < 2 ^ 32"
    using unat_lt_32 [of "data_start_sector s"] by linarith
  have "unat (c * 4 div 512) = unat c div 128" using m by (simp add: unat_div)
  then show "unat (fat_sector c s) = unat (fat_start_sector s) + unat c div 128"
    using l by (simp add: fat_sector_def unat_word_ariths)
  have "4 * unat c mod (4 * 128) = 4 * (unat c mod 128)" by (rule mult_mod_right [symmetric])
  then show "fat_off c = 4 * (unat c mod 128)" using m by (simp add: fat_off_def unat_mod)
qed

lemma fat_sector_in:
  assumes v: "vol_ok s" and c: "unat c \<le> nclus s"
  shows "fat_sector c s < data_start_sector s \<longleftrightarrow> unat c < nclus s"
proof -
  define n where "n = unat (data_start_sector s) - unat (fat_start_sector s)"
  have e: "unat (data_start_sector s) = unat (fat_start_sector s) + n"
    using vol_okD(2) [OF v] by (simp add: n_def word_le_nat_alt)
  have "unat c div 128 < n \<longleftrightarrow> unat c < n * 128" by (rule div_less_iff_less_mult) simp
  then show ?thesis unfolding word_less_nat_alt fat_sector_nat(1) [OF v c] e by (simp add: nclus_def n_def [symmetric])
qed

lemma data_sector_nat:
  assumes v: "vol_ok s" and c: "2 \<le> unat c" "unat c < nclus s" and i: "i < unat (sectors_per_cluster s)"
  shows "unat (cluster_to_sector c s + of_nat i) = unat (data_start_sector s) + (unat c - 2) * unat (sectors_per_cluster s) + i"
proof -
  define k where "k = unat (sectors_per_cluster s)"
  define D where "D = unat (data_start_sector s)"
  have c2: "unat (c - 2) = unat c - 2" using c(1) by (simp add: unat_sub word_le_nat_alt)
  obtain m where m: "unat c = m + 2" using c(1) by (metis le_add_diff_inverse2)
  have "m * k + i < (m + 1) * k" using i by (simp add: k_def)
  also have "(m + 1) * k \<le> nclus s * k" using c(2) m by (intro mult_le_mono1) simp
  finally have b: "D + (m * k + i) < 2 ^ 32" using vol_okD(4) [OF v] unfolding k_def D_def by linarith
  have "unat (c - 2) * unat (sectors_per_cluster s) < 2 ^ 32" using b by (simp add: c2 m k_def)
  then have e: "unat ((c - 2) * sectors_per_cluster s) = m * k" by (simp add: unat_word_ariths c2 m k_def)
  have f: "unat (of_nat i :: u32) = i" using b by (intro unat_of_nat_32) simp
  have "unat (cluster_to_sector c s) = D + m * k"
    using b by (simp add: cluster_to_sector_def unat_word_ariths(1) e D_def)
  then show ?thesis using b by (simp add: unat_word_ariths(1) f m D_def k_def)
qed

section \<open>The table as a function\<close>

definition fat :: "'a fatfs_scheme \<Rightarrow> u32 \<Rightarrow> u32" where
  "fat s c = ucast (rd 4 (fat_off c) (disk s (fat_sector c s))) AND 0x0FFFFFFF"

definition no_faults :: "'a fatfs_scheme \<Rightarrow> bool" where
  "no_faults s \<longleftrightarrow> (\<forall>x. \<not> rd_bad s x)"

lemma fat_next_fat: "no_faults s \<Longrightarrow> fat_next c s = fat s c"
  by (simp add: fat_next_def fat_def sector_read_def no_faults_def)

text \<open>Nothing but the disk differs.\<close>

definition disk_only :: "'a fatfs_scheme \<Rightarrow> 'a fatfs_scheme \<Rightarrow> bool" where
  "disk_only s s' \<longleftrightarrow> s' = s\<lparr>disk := disk s'\<rparr>"

lemma disk_only_refl [simp]: "disk_only s s" by (simp add: disk_only_def)

lemma disk_only_upd [simp]: "disk_only s (s\<lparr>disk := d\<rparr>)" by (simp add: disk_only_def)

lemma disk_only_trans: "disk_only s t \<Longrightarrow> disk_only t u \<Longrightarrow> disk_only s u"
  unfolding disk_only_def by (cases s, cases t, cases u) simp

lemma disk_onlyD:
  assumes "disk_only s s'"
  shows "fat_start_sector s' = fat_start_sector s" "data_start_sector s' = data_start_sector s"
    "sectors_per_cluster s' = sectors_per_cluster s" "bytes_per_cluster s' = bytes_per_cluster s"
    "root_cluster s' = root_cluster s" "rd_bad s' = rd_bad s" "wr_bad s' = wr_bad s"
    "nclus s' = nclus s" "fat_sector c s' = fat_sector c s" "cluster_to_sector c s' = cluster_to_sector c s"
    "sectors_of c s' = sectors_of c s" "no_faults s' = no_faults s" "clusters_needed n s' = clusters_needed n s"
proof -
  have e: "s' = s\<lparr>disk := disk s'\<rparr>" using assms by (simp add: disk_only_def)
  show "fat_start_sector s' = fat_start_sector s" "data_start_sector s' = data_start_sector s"
    "sectors_per_cluster s' = sectors_per_cluster s" "bytes_per_cluster s' = bytes_per_cluster s"
    "root_cluster s' = root_cluster s" "rd_bad s' = rd_bad s" "wr_bad s' = wr_bad s"
    by (subst e, simp)+
  then show "nclus s' = nclus s" "fat_sector c s' = fat_sector c s" "cluster_to_sector c s' = cluster_to_sector c s"
    "sectors_of c s' = sectors_of c s" "no_faults s' = no_faults s" "clusters_needed n s' = clusters_needed n s"
    by (simp_all add: nclus_def fat_sector_def cluster_to_sector_def sectors_of_def no_faults_def clusters_needed_def)
qed

lemma entry_apart:
  assumes v: "vol_ok s" and c: "unat c < nclus s" and d: "unat d < nclus s" and ne: "c \<noteq> d"
    and eq: "fat_sector c s = fat_sector d s"
  shows "fat_off d + 4 \<le> fat_off c \<or> fat_off c + 4 \<le> fat_off d"
proof -
  have "unat c div 128 = unat d div 128"
    using arg_cong [OF eq, of unat] fat_sector_nat(1) [OF v] c d by simp
  moreover have "unat c \<noteq> unat d" using ne word_unat_eq_iff by blast
  ultimately have "unat c mod 128 \<noteq> unat d mod 128" by (metis div_mult_mod_eq)
  moreover have "4 * q + 4 \<le> 4 * p \<or> 4 * p + 4 \<le> 4 * q" if "p \<noteq> q" for p q :: nat using that by arith
  ultimately show ?thesis using fat_sector_nat(2) [OF v] c d by simp
qed

lemma fat_off_le: "vol_ok s \<Longrightarrow> unat c < nclus s \<Longrightarrow> fat_off c + 4 \<le> 512"
  using fat_sector_nat(2) [of s c] mod_less_divisor [of 128 "unat c"] by simp

lemma entry_word:
  "(ucast (take_bit 32 (ucast v :: u64)) :: u32) = v" for v :: u32
  by (rule bit_word_eqI) (simp add: bit_simps)

lemma masked_entry: "((x AND 0xF0000000) OR (w AND 0x0FFFFFFF)) AND 0x0FFFFFFF = w AND 0x0FFFFFFF" for x w :: u32
proof -
  have m: "(0x0FFFFFFF :: u32) = mask 28" "(0xF0000000 :: u32) = NOT (mask 28)"
    by (simp_all add: mask_eq_exp_minus_1 not_eq_complement)
  show ?thesis unfolding m by (rule bit_word_eqI) (auto simp: bit_simps)
qed

lemma low_bits: "c < FAT32_EOC \<Longrightarrow> c AND 0x0FFFFFFF = c" for c :: u32
proof -
  assume "c < FAT32_EOC"
  then have "unat c < 2 ^ 28" by (simp add: word_less_nat_alt)
  then have "take_bit 28 c = c"
    by (simp add: word_unat_eq_iff unsigned_take_bit_eq take_bit_nat_eq_self)
  moreover have "(0x0FFFFFFF :: u32) = mask 28" by (simp add: mask_eq_exp_minus_1)
  ultimately show ?thesis by (metis take_bit_eq_mask)
qed

lemma fat_write_ok:
  assumes v: "vol_ok s" and c: "unat c < nclus s" and w: "fat_write c val s = (ok, s')"
  shows "disk_only s s'" "vol_ok s'" "\<not> ok \<Longrightarrow> s' = s"
    and "ok \<Longrightarrow> fat s' c = val AND 0x0FFFFFFF"
    and "unat d < nclus s \<Longrightarrow> d \<noteq> c \<Longrightarrow> fat s' d = fat s d"
    and "x \<ge> data_start_sector s \<Longrightarrow> disk s' x = disk s x"
proof -
  define b where "b = disk s (fat_sector c s)"
  define b' where "b' = splice (fat_off c) (le_bytes 4 (ucast (((ucast (rd 4 (fat_off c) b) :: u32) AND 0xF0000000) OR (val AND 0x0FFFFFFF)))) b"
  have lb: "length b = 512" using vol_okD(1) [OF v] by (simp add: b_def)
  have fit: "fat_off c + 4 \<le> 512" using v c by (rule fat_off_le)
  have lb': "length b' = 512" using fit lb by (simp add: b'_def)
  have s': "s' = s \<and> \<not> ok \<or> ok \<and> s' = s\<lparr>disk := (disk s)(fat_sector c s := b')\<rparr>"
    using w by (auto simp: fat_write_def sector_read_def sector_write_def Let_def b_def b'_def split: if_splits)
  show "disk_only s s'" "\<not> ok \<Longrightarrow> s' = s" using s' by auto
  show "vol_ok s'" using s' v lb' vol_okD(1) [OF v] by (auto intro!: vol_ok_disk)
  show "fat s' c = val AND 0x0FFFFFFF" if ok
    using s' that fit lb by (simp add: fat_def fat_sector_def b'_def rd_splice_same entry_word masked_entry)
  show "fat s' d = fat s d" if d: "unat d < nclus s" "d \<noteq> c"
  proof (cases "fat_sector d s = fat_sector c s")
    case True
    have "fat_off d + 4 \<le> fat_off c \<or> fat_off c + 4 \<le> fat_off d"
      using entry_apart [OF v c d(1)] d(2) True by simp
    then have "rd 4 (fat_off d) b' = rd 4 (fat_off d) b" using fit lb by (simp add: b'_def rd_splice_other)
    then show ?thesis using s' True by (auto simp: fat_def fat_sector_def b_def)
  next
    case False
    then show ?thesis using s' by (auto simp: fat_def fat_sector_def)
  qed
  have "fat_sector c s < data_start_sector s" using fat_sector_in [OF v] c by simp
  then show "disk s' x = disk s x" if "x \<ge> data_start_sector s"
    using s' that by auto
qed

section \<open>Allocation\<close>

lemma alloc_from_ok:
  assumes v: "vol_ok s" and f: "no_faults s" and c: "unat c \<le> nclus s"
  shows "\<exists>r s'. alloc_from c s = Some (r, s') \<and>
    (r = 0 \<and> s' = s \<or>
     unat c \<le> unat r \<and> unat r < nclus s \<and> fat s r = 0 \<and> fat_write r 0x0FFFFFFF s = (True, s') \<and>
     (\<forall>d. unat c \<le> unat d \<and> unat d < unat r \<longrightarrow> fat s d \<noteq> 0))"
  using c
proof (induction "nclus s - unat c" arbitrary: c)
  case 0
  then have "\<not> fat_sector c s < data_start_sector s" using fat_sector_in [OF v] by simp
  then have "alloc_from c s = Some (0, s)" by (subst alloc_from.simps) (simp add: not_less)
  then show ?case by blast
next
  case (Suc k)
  then have lt: "unat c < nclus s" by simp
  then have sec: "\<not> data_start_sector s \<le> fat_sector c s" using fat_sector_in [OF v Suc.prems] by simp
  have rd: "sector_read (fat_sector c s) s = Some (disk s (fat_sector c s))" using f by (simp add: sector_read_def no_faults_def)
  have step: "alloc_from c s = (if fat s c = 0
      then (case fat_write c 0x0FFFFFFF s of (ok, s1) \<Rightarrow> Some (if ok then c else 0, s1)) else alloc_from (c + 1) s)"
    by (subst alloc_from.simps) (simp add: sec rd fat_def)
  show ?case
  proof (cases "fat s c = 0")
    case True
    obtain ok s1 where w: "fat_write c 0x0FFFFFFF s = (ok, s1)" by (cases "fat_write c 0x0FFFFFFF s")
    have "\<not> ok \<Longrightarrow> s1 = s" by (rule fat_write_ok(3) [OF v lt w])
    then show ?thesis using step True w lt by (cases ok) auto
  next
    case False
    have n: "unat (c + 1) = unat c + 1"
      using lt vol_okD(3) [OF v] by (simp add: unat_word_ariths)
    have "k = nclus s - unat (c + 1)" "unat (c + 1) \<le> nclus s" using Suc.hyps(2) lt n by simp_all
    from Suc.hyps(1) [OF this] obtain r s' where r: "alloc_from (c + 1) s = Some (r, s')"
      "r = 0 \<and> s' = s \<or> unat c + 1 \<le> unat r \<and> unat r < nclus s \<and> fat s r = 0 \<and> fat_write r 0x0FFFFFFF s = (True, s') \<and>
       (\<forall>d. unat c + 1 \<le> unat d \<and> unat d < unat r \<longrightarrow> fat s d \<noteq> 0)"
      unfolding n by blast
    have "fat s d \<noteq> 0" if "unat c \<le> unat d" "unat d < unat r" "\<forall>d. unat c + 1 \<le> unat d \<and> unat d < unat r \<longrightarrow> fat s d \<noteq> 0" for d
      using that False word_unat_eq_iff [of c d] by (cases "unat c = unat d") auto
    moreover have "alloc_from c s = Some (r, s')" using step False r(1) by simp
    ultimately show ?thesis using r(2) by (metis Suc_eq_plus1 Suc_leD)
  qed
qed

text \<open>A cluster chain: its clusters in order, ended by an end-of-chain mark.\<close>

definition clus :: "'a fatfs_scheme \<Rightarrow> u32 \<Rightarrow> bool" where
  "clus s c \<longleftrightarrow> 2 \<le> unat c \<and> unat c < nclus s"

fun chain :: "'a fatfs_scheme \<Rightarrow> u32 \<Rightarrow> u32 list \<Rightarrow> bool" where
  "chain s c [] \<longleftrightarrow> FAT32_EOC \<le> c"
| "chain s c (d # ds) \<longleftrightarrow> d = c \<and> clus s c \<and> chain s (fat s c) ds"

lemma clus_lt: "vol_ok s \<Longrightarrow> clus s c \<Longrightarrow> c < FAT32_EOC"
  using vol_okD(3) [of s] by (simp add: clus_def word_less_nat_alt)

lemma chain_inj: "vol_ok s \<Longrightarrow> chain s c cs \<Longrightarrow> chain s c ds \<Longrightarrow> cs = ds"
proof (induction cs arbitrary: c ds)
  case Nil
  then show ?case using clus_lt [of s c] by (cases ds) (auto simp: not_less [symmetric])
next
  case (Cons a cs)
  then show ?case using clus_lt [of s c] by (cases ds) (auto simp: not_less [symmetric])
qed

lemma chain_suffix: "chain s c (xs @ y # ys) \<Longrightarrow> chain s y (y # ys)"
  by (induction xs arbitrary: c) auto

lemma chain_distinct: "vol_ok s \<Longrightarrow> chain s c cs \<Longrightarrow> distinct cs"
proof (rule ccontr)
  assume v: "vol_ok s" and ch: "chain s c cs" and "\<not> distinct cs"
  then obtain xs ys zs y where e: "cs = xs @ [y] @ ys @ [y] @ zs" using not_distinct_decomp by blast
  have "chain s y (y # ys @ y # zs)" using ch e by (intro chain_suffix [of s c xs]) simp
  moreover have "chain s y (y # zs)" using ch e by (intro chain_suffix [of s c "xs @ y # ys"]) simp
  ultimately have "y # ys @ y # zs = y # zs" by (rule chain_inj [OF v])
  then have "length (ys @ y # zs) = length zs" by simp
  then show False by simp
qed

lemma chain_used: "vol_ok s \<Longrightarrow> chain s c cs \<Longrightarrow> d \<in> set cs \<Longrightarrow> clus s d \<and> fat s d \<noteq> 0"
proof (induction cs arbitrary: c)
  case (Cons a cs)
  show ?case
  proof (cases "d = a")
    case True
    have "chain s (fat s a) cs" using Cons.prems by simp
    then have "fat s a \<noteq> 0" by (cases cs) (auto simp: clus_def)
    then show ?thesis using True Cons.prems by auto
  next
    case False
    then show ?thesis using Cons.IH [of "fat s c"] Cons.prems by auto
  qed
qed simp

lemma chain_cong:
  "chain s c cs \<Longrightarrow> nclus s' = nclus s \<Longrightarrow> (\<And>d. d \<in> set cs \<Longrightarrow> fat s' d = fat s d) \<Longrightarrow> chain s' c cs"
  by (induction cs arbitrary: c) (auto simp: clus_def)

lemma fat_alloc_ok:
  assumes v: "vol_ok s" and f: "no_faults s"
  shows "\<exists>r s'. fat_alloc_cluster s = Some (r, s') \<and>
    (r = 0 \<and> s' = s \<or> clus s r \<and> fat s r = 0 \<and> fat_write r 0x0FFFFFFF s = (True, s'))"
  using alloc_from_ok [OF v f, of 2] vol_okD(8) [OF v] unfolding fat_alloc_cluster_def clus_def by fastforce

text \<open>What allocation leaves of the volume: the table off the clusters taken, and every data sector.\<close>

definition table_kept :: "u32 set \<Rightarrow> 'a fatfs_scheme \<Rightarrow> 'a fatfs_scheme \<Rightarrow> bool" where
  "table_kept X s s' \<longleftrightarrow> disk_only s s' \<and> vol_ok s' \<and> (\<forall>d. clus s d \<and> d \<notin> X \<longrightarrow> fat s' d = fat s d) \<and>
     (\<forall>x \<ge> data_start_sector s. disk s' x = disk s x)"

lemma table_keptD:
  assumes "table_kept X s s'"
  shows "disk_only s s'" "vol_ok s'" "clus s d \<Longrightarrow> d \<notin> X \<Longrightarrow> fat s' d = fat s d"
    "data_start_sector s \<le> x \<Longrightarrow> disk s' x = disk s x"
  using assms by (auto simp: table_kept_def)

lemma clus_only: "disk_only s s' \<Longrightarrow> clus s' c = clus s c"
  by (simp add: clus_def disk_onlyD)

lemma table_kept_trans:
  assumes "table_kept X s t" "table_kept Y t u"
  shows "table_kept (X \<union> Y) s u"
  unfolding table_kept_def
  using table_keptD [OF assms(1)] table_keptD [OF assms(2)] disk_only_trans [of s t u]
    clus_only [of s t] disk_onlyD(2) [of s t] by simp

lemma table_kept_mono: "table_kept X s t \<Longrightarrow> X \<subseteq> Y \<Longrightarrow> table_kept Y s t"
  unfolding table_kept_def by blast

lemma fat_write_kept:
  assumes "vol_ok s" "clus s c" "fat_write c val s = (ok, s')"
  shows "table_kept {c} s s'"
  using fat_write_ok [OF assms(1) _ assms(3)] assms(2) by (simp add: table_kept_def clus_def)

lemma link_cluster:
  assumes v: "vol_ok s" and p: "clus s prev" "FAT32_EOC \<le> fat s prev"
    and c: "clus s c" "fat s c = 0" "fat_write c 0x0FFFFFFF s = (True, s1)" and w: "fat_write prev c s1 = (True, s2)"
  shows "table_kept {prev, c} s s2" "fat s2 prev = c" "fat s2 c = 0x0FFFFFFF"
proof -
  have k1: "table_kept {c} s s1" using v c(1,3) by (rule fat_write_kept)
  note K1 = table_keptD [OF k1]
  have c1: "fat s1 c = 0x0FFFFFFF" using fat_write_ok(4) [OF v _ c(3)] c(1) by (simp add: clus_def)
  have pc: "prev \<noteq> c" using p(2) c(2) by auto
  have p1: "clus s1 prev" "clus s1 c" using p(1) c(1) clus_only [OF K1(1)] by simp_all
  have k2: "table_kept {prev} s1 s2" using K1(2) p1(1) w by (rule fat_write_kept)
  show "fat s2 prev = c"
    using fat_write_ok(4) [OF K1(2) _ w] p1(1) low_bits [OF clus_lt [OF v c(1)]] by (simp add: clus_def)
  show "fat s2 c = 0x0FFFFFFF" using table_keptD(3) [OF k2 p1(2)] pc c1 by simp
  show "table_kept {prev, c} s s2" using table_kept_trans [OF k1 k2] by (simp add: insert_commute)
qed

text \<open>
  The clusters a run of allocations took were free.  When it succeeds they form the chain; when it
  fails they stay taken.
\<close>

definition took :: "nat \<Rightarrow> u32 option \<Rightarrow> u32 \<Rightarrow> u32 list \<Rightarrow> u32 list \<Rightarrow> 'a fatfs_scheme \<Rightarrow> 'a fatfs_scheme \<Rightarrow> bool" where
  "took k res c pre cs s s' \<longleftrightarrow> (\<forall>d \<in> set cs. fat s d = 0 \<and> clus s d) \<and> table_kept (set (pre @ cs)) s s' \<and>
     (res = None \<or> res = Some c \<and> length cs = k \<and> (pre @ cs \<noteq> [] \<longrightarrow> chain s' (hd (pre @ cs)) (pre @ cs)))"

lemma table_kept_refl: "vol_ok s \<Longrightarrow> table_kept X s s"
  by (simp add: table_kept_def)

lemma took_more:
  assumes k: "table_kept {prev, c} s s2" and f: "fat s2 prev = c" "fat s2 c \<noteq> 0" "c \<noteq> 0" "prev \<noteq> c"
    and c: "fat s c = 0" "clus s c" "clus s prev" and t: "took n res first [c] cs s2 s'"
  shows "took (Suc n) res first [prev] (c # cs) s s'"
proof -
  note K = table_keptD [OF k]
  have cs: "\<forall>d \<in> set cs. fat s2 d = 0 \<and> clus s2 d" "table_kept (insert c (set cs)) s2 s'"
    "res = None \<or> res = Some first \<and> length cs = n \<and> chain s' c (c # cs)" using t by (auto simp: took_def)
  have out: "prev \<notin> set cs" "c \<notin> set cs" using cs(1) f by auto
  have free: "fat s d = 0 \<and> clus s d" if "d \<in> set cs" for d
    using that cs(1) out K(3) [of d] clus_only [OF K(1)] by auto
  have "fat s' prev = c" using table_keptD(3) [OF cs(2), of prev] clus_only [OF K(1)] c(3) out f by simp
  moreover have "clus s' prev" using clus_only [OF K(1)] clus_only [OF table_keptD(1) [OF cs(2)]] c(3) by simp
  moreover have "table_kept (insert prev (insert c (set cs))) s s'"
    using table_kept_trans [OF k cs(2)] by (rule table_kept_mono) auto
  ultimately show ?thesis using cs(3) free c(1,2) unfolding took_def by auto
qed

lemma extend_chain:
  assumes "vol_ok s" "no_faults s" "clus s prev" "FAT32_EOC \<le> fat s prev"
  shows "\<exists>res s' cs. alloc_chain k first prev s = Some (res, s') \<and> took k res first [prev] cs s s'"
  using assms
proof (induction k arbitrary: prev s)
  case 0
  then have "took 0 (Some first) first [prev] [] s s" by (simp add: took_def table_kept_refl)
  then show ?case by fastforce
next
  case (Suc k)
  obtain c s1 where a: "fat_alloc_cluster s = Some (c, s1)"
    "c = 0 \<and> s1 = s \<or> clus s c \<and> fat s c = 0 \<and> fat_write c 0x0FFFFFFF s = (True, s1)"
    using fat_alloc_ok [OF Suc.prems(1,2)] by blast
  have np: "prev \<noteq> 0" using Suc.prems(3) by (auto simp: clus_def)
  show ?case
  proof (cases "c = 0")
    case True
    then have "took (Suc k) None first [prev] [] s s1" using a(2) Suc.prems(1) by (auto simp: took_def table_kept_refl clus_def)
    then show ?thesis using a(1) True by fastforce
  next
    case False
    then have c: "clus s c" "fat s c = 0" "fat_write c 0x0FFFFFFF s = (True, s1)" using a(2) by auto
    have k1: "table_kept {c} s s1" using Suc.prems(1) c(1,3) by (rule fat_write_kept)
    have p1: "unat prev < nclus s1" using Suc.prems(3) disk_onlyD(8) [OF table_keptD(1) [OF k1]] by (simp add: clus_def)
    obtain ok s2 where w: "fat_write prev c s1 = (ok, s2)" by (cases "fat_write prev c s1")
    show ?thesis
    proof (cases ok)
      case failed: False
      then have "s2 = s1" using fat_write_ok(3) [OF table_keptD(2) [OF k1] p1 w] by simp
      then have "took (Suc k) None first [prev] [c] s s2" using c table_kept_mono [OF k1] by (simp add: took_def)
      moreover have "alloc_chain (Suc k) first prev s = Some (None, s2)" using a(1) np w failed False by simp
      ultimately show ?thesis by blast
    next
      case True
      have w': "fat_write prev c s1 = (True, s2)" using w True by simp
      note L = link_cluster [OF Suc.prems(1,3,4) c w']
      note K = table_keptD [OF L(1)]
      have "no_faults s2" "clus s2 c" "FAT32_EOC \<le> fat s2 c"
        using Suc.prems(2) c(1) L(3) disk_onlyD(12) [OF K(1)] clus_only [OF K(1)] by simp_all
      from Suc.IH [OF K(2) this] obtain res s' cs where r: "alloc_chain k first c s2 = Some (res, s')"
        "took k res first [c] cs s2 s'" by blast
      have ne: "prev \<noteq> c" using Suc.prems(4) c(2) by auto
      have "took (Suc k) res first [prev] (c # cs) s s'"
        by (rule took_more [OF L(1,2) _ False ne c(2,1) Suc.prems(3) r(2)]) (simp add: L(3))
      moreover have "alloc_chain (Suc k) first prev s = Some (res, s')" using a(1) np w True r(1) False by simp
      ultimately show ?thesis by blast
    qed
  qed
qed

lemma new_chain:
  assumes v: "vol_ok s" and f: "no_faults s"
  shows "\<exists>res s' cs c. alloc_chain n 0 0 s = Some (res, s') \<and> took n res c [] cs s s' \<and>
    (res \<noteq> None \<and> n > 0 \<longrightarrow> c \<noteq> 0 \<and> c = hd cs) \<and> (n = 0 \<longrightarrow> c = 0)"
proof (cases n)
  case 0
  then have "took n (Some 0) 0 [] [] s s" by (simp add: took_def table_kept_refl v)
  then show ?thesis using 0 by fastforce
next
  case (Suc k)
  obtain c s1 where a: "fat_alloc_cluster s = Some (c, s1)"
    "c = 0 \<and> s1 = s \<or> clus s c \<and> fat s c = 0 \<and> fat_write c 0x0FFFFFFF s = (True, s1)"
    using fat_alloc_ok [OF v f] by blast
  show ?thesis
  proof (cases "c = 0")
    case True
    then have "took n None 0 [] [] s s1" using a(2) v by (auto simp: took_def table_kept_refl clus_def)
    moreover have "alloc_chain n 0 0 s = Some (None, s1)" using a(1) True Suc by simp
    ultimately show ?thesis using Suc by blast
  next
    case False
    then have c: "clus s c" "fat s c = 0" "fat_write c 0x0FFFFFFF s = (True, s1)" using a(2) by auto
    have k1: "table_kept {c} s s1" using v c(1,3) by (rule fat_write_kept)
    note K = table_keptD [OF k1]
    have c1: "fat s1 c = 0x0FFFFFFF" using fat_write_ok(4) [OF v _ c(3)] c(1) by (simp add: clus_def)
    have "no_faults s1" "clus s1 c" "FAT32_EOC \<le> fat s1 c"
      using f c(1) c1 disk_onlyD(12) [OF K(1)] clus_only [OF K(1)] by simp_all
    from extend_chain [OF K(2) this, of k c] obtain res s' cs where r: "alloc_chain k c c s1 = Some (res, s')"
      "took k res c [c] cs s1 s'" by blast
    have cs: "\<forall>d \<in> set cs. fat s1 d = 0 \<and> clus s1 d" "table_kept (insert c (set cs)) s1 s'"
      "res = None \<or> res = Some c \<and> length cs = k \<and> chain s' c (c # cs)" using r(2) by (auto simp: took_def)
    have out: "c \<notin> set cs" using cs(1) c1 by auto
    have "fat s d = 0 \<and> clus s d" if "d \<in> set cs" for d
      using that cs(1) out K(3) [of d] clus_only [OF K(1)] by auto
    then have "took n res c [] (c # cs) s s'"
      using table_kept_trans [OF k1 cs(2)] cs(3) c Suc by (auto simp: took_def)
    moreover have "alloc_chain n 0 0 s = Some (res, s')" using Suc a(1) False r(1) by simp
    ultimately show ?thesis using False Suc by (metis list.sel(1) nat.distinct(1))
  qed
qed

section \<open>Data sectors\<close>

definition secs :: "'a fatfs_scheme \<Rightarrow> u32 list \<Rightarrow> u32 list" where
  "secs s cs = concat (map (\<lambda>c. sectors_of c s) cs)"

definition contents :: "'a fatfs_scheme \<Rightarrow> u32 list \<Rightarrow> u8 list" where
  "contents s as = concat (map (disk s) as)"

lemma secs_simps [simp]: "secs s [] = []" "secs s (c # cs) = sectors_of c s @ secs s cs"
  by (simp_all add: secs_def)

lemma contents_simps [simp]: "contents s [] = []" "contents s (a # as) = disk s a @ contents s as"
    "contents s (as @ bs) = contents s as @ contents s bs"
  by (simp_all add: contents_def)

lemma length_contents: "vol_ok s \<Longrightarrow> length (contents s as) = 512 * length as"
  by (induction as) (simp_all add: vol_okD(1))

lemma contents_cong: "(\<And>a. a \<in> set as \<Longrightarrow> disk s' a = disk s a) \<Longrightarrow> contents s' as = contents s as"
  by (induction as) auto

lemma length_sectors_of [simp]: "length (sectors_of c s) = unat (sectors_per_cluster s)"
  by (simp add: sectors_of_def)

lemma length_secs: "length (secs s cs) = length cs * unat (sectors_per_cluster s)"
  by (induction cs) simp_all

lemma block_number_inj:
  assumes "p * k + i = q * k + j" "i < k" "j < (k :: nat)"
  shows "p = q \<and> i = j"
proof -
  have "(p * k + i) div k = p" "(q * k + j) div k = q" using assms(2,3) by simp_all
  then have "p = q" using assms(1) by simp
  then show ?thesis using assms(1) by simp
qed

lemma sector_inj:
  assumes v: "vol_ok s" and c: "clus s c" "clus s d"
    and i: "i < unat (sectors_per_cluster s)" "j < unat (sectors_per_cluster s)"
    and e: "cluster_to_sector c s + of_nat i = cluster_to_sector d s + of_nat j"
  shows "c = d \<and> i = j"
proof -
  have "(unat c - 2) * unat (sectors_per_cluster s) + i = (unat d - 2) * unat (sectors_per_cluster s) + j"
    using arg_cong [OF e, of unat] data_sector_nat [OF v _ _ i(1), of c] data_sector_nat [OF v _ _ i(2), of d] c
    by (simp add: clus_def)
  from block_number_inj [OF this i] have "unat c = unat d" "i = j" using c by (auto simp: clus_def)
  then show ?thesis using word_unat_eq_iff by blast
qed

lemma sectors_of_data: "vol_ok s \<Longrightarrow> clus s c \<Longrightarrow> a \<in> set (sectors_of c s) \<Longrightarrow> data_start_sector s \<le> a"
  by (auto simp: sectors_of_def clus_def word_le_nat_alt data_sector_nat)

lemma sectors_of_distinct: "vol_ok s \<Longrightarrow> clus s c \<Longrightarrow> distinct (sectors_of c s)"
  by (auto simp: sectors_of_def distinct_map inj_on_def dest: sector_inj [where c = c and d = c])

lemma sectors_of_disjoint:
  "vol_ok s \<Longrightarrow> clus s c \<Longrightarrow> clus s d \<Longrightarrow> c \<noteq> d \<Longrightarrow> set (sectors_of c s) \<inter> set (sectors_of d s) = {}"
  by (auto simp: sectors_of_def dest: sector_inj)

lemma set_secs: "set (secs s cs) = (\<Union>c \<in> set cs. set (sectors_of c s))"
  by (simp add: secs_def)

lemma secs_disjoint:
  assumes "vol_ok s" "\<And>c. c \<in> set cs \<union> set ds \<Longrightarrow> clus s c" "set cs \<inter> set ds = {}"
  shows "set (secs s cs) \<inter> set (secs s ds) = {}"
proof -
  have "set (sectors_of c s) \<inter> set (sectors_of d s) = {}" if "c \<in> set cs" "d \<in> set ds" for c d
    using sectors_of_disjoint [OF assms(1)] assms(2,3) that by blast
  then show ?thesis unfolding set_secs by blast
qed

lemma secs_distinct: "vol_ok s \<Longrightarrow> (\<And>c. c \<in> set cs \<Longrightarrow> clus s c) \<Longrightarrow> distinct cs \<Longrightarrow> distinct (secs s cs)"
proof (induction cs)
  case (Cons c cs)
  have "set (secs s [c]) \<inter> set (secs s cs) = {}" using Cons.prems by (intro secs_disjoint) auto
  then show ?case using Cons sectors_of_distinct [OF Cons.prems(1), of c] by simp
qed simp

text \<open>Writing data sectors leaves every other sector, and with them the table.\<close>

definition data_kept :: "u32 set \<Rightarrow> 'a fatfs_scheme \<Rightarrow> 'a fatfs_scheme \<Rightarrow> bool" where
  "data_kept X s s' \<longleftrightarrow> disk_only s s' \<and> vol_ok s' \<and> (\<forall>x. x \<notin> X \<longrightarrow> disk s' x = disk s x)"

lemma data_keptD:
  assumes "data_kept X s s'"
  shows "disk_only s s'" "vol_ok s'" "x \<notin> X \<Longrightarrow> disk s' x = disk s x"
  using assms by (auto simp: data_kept_def)

lemma data_kept_trans: "data_kept X s t \<Longrightarrow> data_kept Y t u \<Longrightarrow> data_kept (X \<union> Y) s u"
  unfolding data_kept_def using disk_only_trans [of s t u] by auto

lemma data_kept_fat:
  assumes "vol_ok s" "data_kept X s s'" "\<And>x. x \<in> X \<Longrightarrow> data_start_sector s \<le> x" "clus s d"
  shows "fat s' d = fat s d"
proof -
  have "fat_sector d s < data_start_sector s" using fat_sector_in [OF assms(1)] assms(4) by (simp add: clus_def)
  then have "fat_sector d s \<notin> X" using assms(3) by force
  then show ?thesis using data_keptD [OF assms(2)] by (simp add: fat_def disk_onlyD)
qed

section \<open>Writing and reading a chain\<close>

lemma read_sectors_ok:
  assumes "vol_ok s" "no_faults s"
  shows "read_sectors as n s = Some (take n (contents s as), n - 512 * length as)"
proof (induction as arbitrary: n)
  case (Cons a as)
  have "sector_read a s = Some (disk s a)" using assms(2) by (simp add: sector_read_def no_faults_def)
  then show ?case using Cons vol_okD(1) [OF assms(1), of a] by (cases "n \<le> 512") (simp_all add: min_def)
qed simp

lemma read_clusters_ok:
  assumes "vol_ok s" "no_faults s" "chain s c cs"
  shows "read_clusters c n acc s = Some (Some (acc @ take n (contents s (secs s cs))))"
  using assms(3)
proof (induction cs arbitrary: c n acc)
  case Nil
  then have "\<not> c < FAT32_EOC" by (simp add: not_less)
  then show ?case by (subst read_clusters.simps) simp
next
  case (Cons d ds)
  have d: "d = c" "clus s c" "chain s (fat s c) ds" using Cons.prems by auto
  have "c < FAT32_EOC" using assms(1) d(2) by (rule clus_lt)
  then have "read_clusters c n acc s = (if n > 0 then read_clusters (fat s c) (n - 512 * length (sectors_of c s))
      (acc @ take n (contents s (sectors_of c s))) s else Some (Some acc))"
    by (subst read_clusters.simps) (simp add: read_sectors_ok [OF assms(1,2)] fat_next_fat [OF assms(2)])
  then show ?case using d(1) Cons.IH [OF d(3)] length_contents [OF assms(1), of "sectors_of c s"] by (cases "n = 0") simp_all
qed

lemma write_sectors_ok:
  assumes "vol_ok s" "distinct as" "write_sectors as src s = (ok, rest, s')"
  shows "data_kept (set as) s s'"
    and "ok \<Longrightarrow> rest = drop (512 * length as) src \<and> take (length src) (contents s' as) = take (512 * length as) src"
proof -
  have "data_kept (set as) s s' \<and>
    (ok \<longrightarrow> rest = drop (512 * length as) src \<and> take (length src) (contents s' as) = take (512 * length as) src)"
    using assms
  proof (induction as arbitrary: src s)
    case Nil
    then show ?case by (auto simp: data_kept_def)
  next
    case (Cons a as)
    define b where "b = take 512 src @ replicate (512 - length (take 512 src)) 0"
    have lb: "length b = 512" by (simp add: b_def)
    consider "src = []" | "src \<noteq> []" "wr_bad s a" | "src \<noteq> []" "\<not> wr_bad s a" by blast
    then show ?case
    proof cases
      case 1
      then show ?thesis using Cons.prems by (auto simp: data_kept_def)
    next
      case 2
      then show ?thesis using Cons.prems by (auto simp: data_kept_def sector_write_def Let_def)
    next
      case 3
      define s1 where "s1 = s\<lparr>disk := (disk s)(a := b)\<rparr>"
      have v1: "vol_ok s1" using Cons.prems(1) lb vol_okD(1) [OF Cons.prems(1)] by (auto simp: s1_def intro!: vol_ok_disk)
      have k1: "data_kept {a} s s1" using v1 by (simp add: data_kept_def s1_def)
      have "write_sectors as (drop 512 src) s1 = (ok, rest, s')"
        using Cons.prems(3) 3 by (simp add: sector_write_def Let_def b_def s1_def)
      from Cons.IH [OF v1 _ this] Cons.prems(2) have ih: "data_kept (set as) s1 s'"
        "ok \<Longrightarrow> rest = drop (512 * length as) (drop 512 src)"
        "ok \<Longrightarrow> take (length (drop 512 src)) (contents s' as) = take (512 * length as) (drop 512 src)" by simp_all
      have "disk s' a = b" using data_keptD(3) [OF ih(1), of a] Cons.prems(2) by (simp add: s1_def)
      moreover have "take (length src) b = take 512 src" by (cases "length src \<le> 512") (simp_all add: b_def min_def)
      moreover have "take (512 + m) src = take 512 src @ take m (drop 512 src)" for m by (rule take_add)
      ultimately have "ok \<Longrightarrow> take (length src) (contents s' (a # as)) = take (512 * length (a # as)) src"
        using ih(3) lb by simp
      moreover have "ok \<Longrightarrow> rest = drop (512 * length (a # as)) src" using ih(2) by (simp add: add.commute)
      ultimately show ?thesis using data_kept_trans [OF k1 ih(1)] by simp
    qed
  qed
  then show "data_kept (set as) s s'"
    and "ok \<Longrightarrow> rest = drop (512 * length as) src \<and> take (length src) (contents s' as) = take (512 * length as) src" by auto
qed

lemma cluster_write_ok:
  assumes "vol_ok s" "no_faults s" "chain s c cs"
  shows "\<exists>ok s'. cluster_write_data c src s = Some (ok, s') \<and> data_kept (set (secs s cs)) s s' \<and>
    (ok \<longrightarrow> take (length src) (contents s' (secs s cs)) = take (512 * length (secs s cs)) src)"
  using assms
proof (induction cs arbitrary: c src s)
  case Nil
  then have "\<not> c < FAT32_EOC" by (simp add: not_less)
  then have "cluster_write_data c src s = Some (True, s)" by (subst cluster_write_data.simps) simp
  then show ?case using Nil by (auto simp: data_kept_def)
next
  case (Cons d ds)
  have d: "d = c" "clus s c" "chain s (fat s c) ds" using Cons.prems by auto
  have lt: "c < FAT32_EOC" using Cons.prems(1) d(2) by (rule clus_lt)
  have all: "clus s x" if "x \<in> set (c # ds)" for x using chain_used [OF Cons.prems(1,3)] that d(1) by auto
  have dis: "set (sectors_of c s) \<inter> set (secs s ds) = {}"
    using secs_disjoint [OF Cons.prems(1), of "[c]" ds] chain_distinct [OF Cons.prems(1,3)] all d(1) by auto
  obtain ok rest s1 where w: "write_sectors (sectors_of c s) src s = (ok, rest, s1)" by (metis prod_cases3)
  note W = write_sectors_ok [OF Cons.prems(1) sectors_of_distinct [OF Cons.prems(1) d(2)] w]
  note K = data_keptD [OF W(1)]
  have fat1: "fat s1 x = fat s x" if "clus s x" for x
    using Cons.prems(1) W(1) sectors_of_data [OF Cons.prems(1) d(2)] that by (rule data_kept_fat)
  have nf: "no_faults s1" using Cons.prems(2) disk_onlyD(12) [OF K(1)] by simp
  have secs1: "secs s1 ds = secs s ds" by (simp add: secs_def disk_onlyD(11) [OF K(1)])
  have step: "cluster_write_data c src s = (if src = [] then Some (True, s) else if ok then cluster_write_data (fat s c) rest s1 else Some (False, s1))"
    by (subst cluster_write_data.simps) (simp add: lt w fat_next_fat [OF nf] fat1 [OF d(2)])
  consider "src = []" | "src \<noteq> []" "\<not> ok" | "src \<noteq> []" ok by blast
  then show ?case
  proof cases
    case 1
    then show ?thesis using step Cons.prems(1) by (auto simp: data_kept_def)
  next
    case 2
    have "data_kept (set (secs s (d # ds))) s s1" using W(1) d(1) by (auto simp only: data_kept_def secs_simps set_append Un_iff)
    then show ?thesis using step 2 by auto
  next
    case 3
    have "chain s1 (fat s c) ds" by (rule chain_cong [OF d(3) disk_onlyD(8) [OF K(1)]]) (simp add: fat1 all)
    from Cons.IH [OF K(2) nf this, of rest] obtain ok' s' where r: "cluster_write_data (fat s c) rest s1 = Some (ok', s')"
      "data_kept (set (secs s ds)) s1 s'"
      "ok' \<Longrightarrow> take (length rest) (contents s' (secs s ds)) = take (512 * length (secs s ds)) rest"
      unfolding secs1 by blast
    have same: "contents s' (sectors_of c s) = contents s1 (sectors_of c s)"
      using data_keptD(3) [OF r(2)] dis by (intro contents_cong) blast
    have len: "length (contents s1 (sectors_of c s)) = 512 * length (sectors_of c s)" by (rule length_contents [OF K(2)])
    have "take (length src) (contents s' (secs s (d # ds))) = take (512 * length (secs s (d # ds))) src" if ok'
      using r(3) [OF that] W(2) [OF 3(2)] same len d(1) by (simp add: take_add distrib_left)
    moreover have "data_kept (set (secs s (d # ds))) s s'" using data_kept_trans [OF W(1) r(2)] d(1) by simp
    ultimately show ?thesis using step 3 r(1) by simp
  qed
qed

section \<open>Directory slots\<close>

definition slots :: "'a fatfs_scheme \<Rightarrow> u32 list \<Rightarrow> u8 list list" where
  "slots s as = concat (map (\<lambda>a. dir_entries (disk s a)) as)"

definition free_entry :: "u8 list \<Rightarrow> bool" where
  "free_entry e \<longleftrightarrow> e ! 0 = 0 \<or> e ! 0 = 0xE5"

lemma slots_simps [simp]: "slots s [] = []" "slots s (a # as) = dir_entries (disk s a) @ slots s as"
    "slots s (as @ bs) = slots s as @ slots s bs"
  by (simp_all add: slots_def)

lemma slots_cong: "(\<And>a. a \<in> set as \<Longrightarrow> disk s' a = disk s a) \<Longrightarrow> slots s' as = slots s as"
  by (induction as) auto

lemma scan_append: "scan_entries t (xs @ ys) = (case scan_entries t xs of Go_on \<Rightarrow> scan_entries t ys | r \<Rightarrow> r)"
  by (induction xs) auto

lemma scan_sectors_slots: "no_faults s \<Longrightarrow> scan_sectors t as s = scan_entries t (slots s as)"
  by (induction as) (auto simp: scan_append sector_read_def no_faults_def split: scan.splits)

lemma dir_lookup_ok:
  assumes "vol_ok s" "no_faults s" "chain s c cs"
  shows "dir_lookup t c s = Some (case scan_entries t (slots s (secs s cs)) of Hit e \<Rightarrow> Some e | _ \<Rightarrow> None)"
  using assms(3)
proof (induction cs arbitrary: c)
  case Nil
  then have "\<not> c < FAT32_EOC" by (simp add: not_less)
  then show ?case by (subst dir_lookup.simps) simp
next
  case (Cons d ds)
  then have d: "d = c" "chain s (fat s c) ds" and "c < FAT32_EOC" using clus_lt [OF assms(1)] by auto
  then show ?case
    by (subst dir_lookup.simps)
      (simp add: scan_sectors_slots [OF assms(2)] fat_next_fat [OF assms(2)] Cons.IH scan_append split: scan.splits)
qed

lemma length_dir_entries [simp]: "length (dir_entries b) = 16"
  by (simp add: dir_entries_def)

lemma nth_dir_entries: "i < 16 \<Longrightarrow> dir_entries b ! i = take 32 (drop (32 * i) b)"
  by (simp add: dir_entries_def)

lemma free_entry_nth: "i < 16 \<Longrightarrow> length b = 512 \<Longrightarrow>
    free_entry (dir_entries b ! i) \<longleftrightarrow> b ! (32 * i) = 0 \<or> b ! (32 * i) = 0xE5"
  by (simp add: free_entry_def nth_dir_entries)

lemma dir_entries_splice:
  assumes "i < 16" "length b = 512" "length e = 32"
  shows "dir_entries (splice (32 * i) e b) = (dir_entries b)[i := e]"
proof (rule nth_equalityI)
  fix j assume "j < length (dir_entries (splice (32 * i) e b))"
  then have j: "j < 16" by simp
  consider "j = i" | "j < i" | "i < j" by linarith
  then show "dir_entries (splice (32 * i) e b) ! j = (dir_entries b)[i := e] ! j"
  proof cases
    case 1
    then show ?thesis using assms by (simp add: nth_dir_entries splice_def)
  next
    case 2
    then have "32 * j + 32 \<le> 32 * i" by simp
    then show ?thesis using 2 j assms by (simp add: nth_dir_entries splice_def take_drop min_def)
  next
    case 3
    then have "32 * i + 32 \<le> 32 * j" by simp
    then have "drop (32 * j) (splice (32 * i) e b) = drop (32 * j) b" using assms by (simp add: splice_def)
    then show ?thesis using 3 j by (simp add: nth_dir_entries)
  qed
qed simp

lemma free_slot_cases:
  assumes "length b = 512"
  shows "free_slot b = None \<Longrightarrow> \<forall>x \<in> set (dir_entries b). \<not> free_entry x"
    and "free_slot b = Some i \<Longrightarrow> i < 16 \<and> free_entry (dir_entries b ! i) \<and> (\<forall>x \<in> set (take i (dir_entries b)). \<not> free_entry x)"
proof -
  show "\<forall>x \<in> set (dir_entries b). \<not> free_entry x" if "free_slot b = None"
    using that assms by (auto simp: free_slot_def find_None_iff in_set_conv_nth free_entry_nth)
  assume "free_slot b = Some i"
  then obtain k where k: "k < 16" "i = k" "b ! (32 * k) = 0 \<or> b ! (32 * k) = 0xE5"
    "\<forall>j < k. \<not> (b ! (32 * j) = 0 \<or> b ! (32 * j) = 0xE5)"
    by (auto simp: free_slot_def find_Some_iff)
  then show "i < 16 \<and> free_entry (dir_entries b ! i) \<and> (\<forall>x \<in> set (take i (dir_entries b)). \<not> free_entry x)"
    using assms by (auto simp: in_set_conv_nth free_entry_nth)
qed

text \<open>The first free slot of a directory takes the entry; the others stay.\<close>

definition slot_taken :: "u8 list \<Rightarrow> u8 list list \<Rightarrow> u8 list list \<Rightarrow> bool" where
  "slot_taken e es es' \<longleftrightarrow> (\<exists>xs y ys. es = xs @ y # ys \<and> free_entry y \<and> (\<forall>x \<in> set xs. \<not> free_entry x) \<and> es' = xs @ e # ys)"

lemma slot_taken_prefix: "slot_taken e es es' \<Longrightarrow> \<forall>x \<in> set zs. \<not> free_entry x \<Longrightarrow> slot_taken e (zs @ es) (zs @ es')"
proof -
  assume "slot_taken e es es'" "\<forall>x \<in> set zs. \<not> free_entry x"
  then obtain xs y ys where x: "es = xs @ y # ys" "free_entry y" "\<forall>x \<in> set xs. \<not> free_entry x" "es' = xs @ e # ys"
    and z: "\<forall>x \<in> set zs. \<not> free_entry x" unfolding slot_taken_def by blast
  have "zs @ es = (zs @ xs) @ y # ys" "zs @ es' = (zs @ xs) @ e # ys" "\<forall>x \<in> set (zs @ xs). \<not> free_entry x"
    using x z by auto
  then show ?thesis using x(2) unfolding slot_taken_def by blast
qed

lemma slot_taken_suffix: "slot_taken e es es' \<Longrightarrow> slot_taken e (es @ zs) (es' @ zs)"
  unfolding slot_taken_def by (metis append.assoc append_Cons)

lemma data_kept_refl: "vol_ok s \<Longrightarrow> data_kept X s s"
  by (simp add: data_kept_def)

lemma data_kept_mono: "data_kept X s s' \<Longrightarrow> X \<subseteq> Y \<Longrightarrow> data_kept Y s s'"
  unfolding data_kept_def by blast

lemma write_slot_ok:
  assumes v: "vol_ok s" and e: "length e = 32" and i: "free_slot (disk s a) = Some i"
    and w: "sector_write a (splice (32 * i) e (disk s a)) s = (ok, s')"
  shows "data_kept {a} s s' \<and> (ok \<longrightarrow> slot_taken e (dir_entries (disk s a)) (dir_entries (disk s' a)))"
proof -
  note l = vol_okD(1) [OF v, of a]
  note F = free_slot_cases(2) [OF l i]
  have lb: "length (splice (32 * i) e (disk s a)) = 512" using F e l by simp
  have "data_kept {a} s s'"
    using w v lb vol_okD(1) [OF v] by (auto simp: sector_write_def data_kept_def intro!: vol_ok_disk split: if_splits)
  moreover have "slot_taken e (dir_entries (disk s a)) (dir_entries (disk s' a))" if ok
  proof -
    have "disk s' a = splice (32 * i) e (disk s a)" using w that by (auto simp: sector_write_def split: if_splits)
    then have "dir_entries (disk s' a) = take i (dir_entries (disk s a)) @ e # drop (Suc i) (dir_entries (disk s a))"
      using F dir_entries_splice [OF _ l e, of i] by (simp add: upd_conv_take_nth_drop)
    moreover have "dir_entries (disk s a) = take i (dir_entries (disk s a)) @ dir_entries (disk s a) ! i # drop (Suc i) (dir_entries (disk s a))"
      using F by (intro id_take_nth_drop) simp
    ultimately show ?thesis using F unfolding slot_taken_def by blast
  qed
  ultimately show ?thesis by blast
qed

lemma add_in_sectors_ok:
  assumes v: "vol_ok s" and f: "no_faults s" and e: "length e = 32" and d: "distinct as"
  shows "case add_in_sectors e as s of
      None \<Rightarrow> \<forall>x \<in> set (slots s as). \<not> free_entry x
    | Some (ok, s') \<Rightarrow> data_kept (set as) s s' \<and> (ok \<longrightarrow> slot_taken e (slots s as) (slots s' as))"
  using d
proof (induction as)
  case (Cons a as)
  have rd: "sector_read a s = Some (disk s a)" using f by (simp add: sector_read_def no_faults_def)
  show ?case
  proof (cases "free_slot (disk s a)")
    case None
    note N = free_slot_cases(1) [OF vol_okD(1) [OF v] None]
    have step: "add_in_sectors e (a # as) s = add_in_sectors e as s" using rd None by simp
    show ?thesis
    proof (cases "add_in_sectors e as s")
      case None
      then show ?thesis using step Cons N by auto
    next
      case (Some r)
      obtain ok s' where r: "r = (ok, s')" by (cases r)
      have k: "data_kept (set as) s s'" "ok \<longrightarrow> slot_taken e (slots s as) (slots s' as)" using Cons Some r by auto
      have "disk s' a = disk s a" using data_keptD(3) [OF k(1), of a] Cons.prems by simp
      then have "ok \<longrightarrow> slot_taken e (slots s (a # as)) (slots s' (a # as))" using k(2) slot_taken_prefix N by simp
      moreover have "data_kept (set (a # as)) s s'" using k(1) by (rule data_kept_mono) auto
      ultimately show ?thesis using step Some r by simp
    qed
  next
    case (Some i)
    obtain ok s' where w: "sector_write a (splice (32 * i) e (disk s a)) s = (ok, s')" by (cases "sector_write a (splice (32 * i) e (disk s a)) s")
    note W = write_slot_ok [OF v e Some w]
    have "slots s' as = slots s as" using W Cons.prems by (intro slots_cong) (auto simp: data_kept_def)
    then have "ok \<longrightarrow> slot_taken e (slots s (a # as)) (slots s' (a # as))" using W slot_taken_suffix by simp
    moreover have "data_kept (set (a # as)) s s'" using conjunct1 [OF W] by (rule data_kept_mono) auto
    ultimately show ?thesis using rd Some w by simp
  qed
qed simp

lemma dir_add_ok:
  assumes v: "vol_ok s" and f: "no_faults s" and e: "length e = 32" and ch: "chain s c cs"
  shows "\<exists>ok s'. dir_add_entry c e s = Some (ok, s') \<and> data_kept (set (secs s cs)) s s' \<and>
    (ok \<longrightarrow> slot_taken e (slots s (secs s cs)) (slots s' (secs s cs)))"
  using ch
proof (induction cs arbitrary: c)
  case Nil
  then have "\<not> c < FAT32_EOC" by (simp add: not_less)
  then have "dir_add_entry c e s = Some (False, s)" by (subst dir_add_entry.simps) simp
  then show ?case using data_kept_refl [OF v] by auto
next
  case (Cons d ds)
  then have d: "d = c" "clus s c" "chain s (fat s c) ds" by auto
  have lt: "c < FAT32_EOC" using v d(2) by (rule clus_lt)
  have step: "dir_add_entry c e s = (case add_in_sectors e (sectors_of c s) s of Some r \<Rightarrow> Some r | None \<Rightarrow> dir_add_entry (fat s c) e s)"
    by (subst dir_add_entry.simps) (simp add: lt fat_next_fat [OF f] split: option.split)
  note A = add_in_sectors_ok [OF v f e sectors_of_distinct [OF v d(2)]]
  have all: "clus s x" if "x \<in> set (d # ds)" for x using chain_used [OF v Cons.prems that] by simp
  have dis: "set (sectors_of c s) \<inter> set (secs s ds) = {}"
    using secs_disjoint [OF v, of "[c]" ds] chain_distinct [OF v Cons.prems] all d(1) by auto
  show ?case
  proof (cases "add_in_sectors e (sectors_of c s) s")
    case None
    obtain ok s' where r: "dir_add_entry (fat s c) e s = Some (ok, s')" "data_kept (set (secs s ds)) s s'"
      "ok \<longrightarrow> slot_taken e (slots s (secs s ds)) (slots s' (secs s ds))" using Cons.IH [OF d(3)] by blast
    have "slots s' (sectors_of c s) = slots s (sectors_of c s)"
      using data_keptD(3) [OF r(2)] dis by (intro slots_cong) blast
    then have "ok \<longrightarrow> slot_taken e (slots s (secs s (d # ds))) (slots s' (secs s (d # ds)))"
      using r(3) A None d(1) slot_taken_prefix by simp
    moreover have "data_kept (set (secs s (d # ds))) s s'" using r(2) by (rule data_kept_mono) auto
    ultimately show ?thesis using step None r(1) by simp
  next
    case (Some r)
    obtain ok s' where r: "r = (ok, s')" by (cases r)
    have k: "data_kept (set (sectors_of c s)) s s'" "ok \<longrightarrow> slot_taken e (slots s (sectors_of c s)) (slots s' (sectors_of c s))"
      using A Some r by auto
    have "slots s' (secs s ds) = slots s (secs s ds)" using data_keptD(3) [OF k(1)] dis by (intro slots_cong) blast
    then have "ok \<longrightarrow> slot_taken e (slots s (secs s (d # ds))) (slots s' (secs s (d # ds)))"
      using k(2) d(1) slot_taken_suffix by simp
    moreover have "data_kept (set (secs s (d # ds))) s s'" using k(1) by (rule data_kept_mono) (auto simp: d(1))
    ultimately show ?thesis using step Some r by simp
  qed
qed

lemma scan_taken:
  assumes "slot_taken e es es'" "\<And>x. scan_entries t es \<noteq> Hit x"
    "\<not> free_entry e" "entry_attr e = 0x20" "take 11 e = t"
  shows "scan_entries t es' = Hit e"
proof -
  obtain xs y ys where d: "es = xs @ y # ys" "\<forall>x \<in> set xs. \<not> free_entry x" "es' = xs @ e # ys"
    using assms(1) by (auto simp: slot_taken_def)
  have "scan_entries t xs \<noteq> Stop" using d(2) by (induction xs) (auto simp: free_entry_def)
  moreover have "scan_entries t xs \<noteq> Hit x" for x using assms(2) [of x] by (auto simp: d(1) scan_append)
  ultimately have "scan_entries t xs = Go_on" by (cases "scan_entries t xs") auto
  then show ?thesis using assms(3-5) by (simp add: d(3) scan_append free_entry_def)
qed

section \<open>The new entry\<close>

lemma length_pad: "length xs \<le> n \<Longrightarrow> length (pad n xs) = n"
  by (simp add: pad_def)

lemma length_to_83 [simp]: "length (to_83 name) = 11"
proof -
  have "length (takeWhile P (take 8 name)) \<le> 8" for P
    using length_takeWhile_le [of P "take 8 name"] by simp
  then show ?thesis by (simp add: to_83_def Let_def length_pad split: list.split)
qed

lemma to_83_first: "name = [] \<or> hd name \<notin> {0, 0xE5} \<Longrightarrow> to_83 name ! 0 \<notin> {0, 0xE5}"
proof (cases name)
  case Nil
  then show ?thesis by (simp add: to_83_def pad_def nth_append)
next
  case (Cons c cs)
  assume "name = [] \<or> hd name \<notin> {0, 0xE5}"
  then have c: "c \<notin> {0, 0xE5}" using Cons by simp
  have "upper c \<notin> {0, 0xE5}" using c by (auto simp: upper_def word_le_nat_alt diff_eq_eq)
  then show ?thesis using Cons by (simp add: to_83_def pad_def Let_def nth_append)
qed

lemma length_new_entry [simp]: "length (new_entry f c n) = 32"
  by (simp add: new_entry_def)

lemma cluster_halves: "push_bit 16 (drop_bit 16 c) OR (c AND 0xFFFF) = c" for c :: u32
proof -
  have m: "(0xFFFF :: u32) = mask 16" by (simp add: mask_eq_exp_minus_1)
  show ?thesis unfolding m by (rule bit_word_eqI) (auto simp: bit_simps)
qed

lemma new_entry_fields:
  "take 11 (new_entry f c n) = to_83 f" "entry_attr (new_entry f c n) = 0x20"
  "entry_size (new_entry f c n) = n" "entry_cluster (new_entry f c n) = c"
proof -
  show "take 11 (new_entry f c n) = to_83 f" "entry_attr (new_entry f c n) = 0x20"
    by (simp_all add: new_entry_def entry_attr_def nth_append)
  show "entry_size (new_entry f c n) = n"
    by (simp add: new_entry_def entry_size_def rd_def le_word_bytes entry_word)
  have "(ucast (take_bit 16 (ucast (drop_bit 16 c) :: u64)) :: u32) = drop_bit 16 c"
    by (rule bit_word_eqI) (auto simp: bit_simps dest: bit_imp_le_length)
  moreover have "(ucast (take_bit 16 (ucast (c AND 0xFFFF) :: u64)) :: u32) = c AND 0xFFFF"
  proof -
    have m: "(0xFFFF :: u32) = mask 16" by (simp add: mask_eq_exp_minus_1)
    show ?thesis unfolding m by (rule bit_word_eqI) (auto simp: bit_simps)
  qed
  ultimately show "entry_cluster (new_entry f c n) = c"
    by (simp add: new_entry_def entry_cluster_def rd_def le_word_bytes cluster_halves)
qed

lemma new_entry_used:
  "f = [] \<or> hd f \<notin> {0, 0xE5} \<Longrightarrow> \<not> free_entry (new_entry f c n)"
  using to_83_first [of f] by (simp add: free_entry_def new_entry_def nth_append)

lemma clusters_needed_enough:
  assumes v: "vol_ok s" and l: "length data < 2 ^ 31"
  defines "n \<equiv> unat (clusters_needed (of_nat (length data)) s)"
  shows "length data \<le> 512 * (n * unat (sectors_per_cluster s))" "n = 0 \<longleftrightarrow> data = []"
proof -
  define B where "B = unat (bytes_per_cluster s)"
  have B: "0 < B" "B < 2 ^ 17" "B = 512 * unat (sectors_per_cluster s)" using vol_okD(5-7) [OF v] by (simp_all add: B_def)
  have L: "unat (of_nat (length data) :: u32) = length data" using l by (intro unat_of_nat_32) simp
  have "unat (of_nat (length data) + bytes_per_cluster s) = length data + B"
    using L l B(2) by (simp add: unat_word_ariths B_def)
  moreover have "1 \<le> of_nat (length data) + bytes_per_cluster s" using calculation B(1) by (simp add: word_le_nat_alt)
  ultimately have "unat (of_nat (length data) + bytes_per_cluster s - 1) = length data + B - 1" by (simp add: unat_sub)
  moreover have "(of_nat (length data) = (0 :: u32)) = (data = [])" by (simp add: word_unat_eq_iff L)
  ultimately have n: "n = (if data = [] then 0 else (length data + B - 1) div B)"
    by (simp add: n_def clusters_needed_def unat_div B_def)
  have "length data \<le> (length data + B - 1) div B * B"
    using div_mult_mod_eq [of "length data + B - 1" B] mod_less_divisor [OF B(1), of "length data + B - 1"] by linarith
  then show "length data \<le> 512 * (n * unat (sectors_per_cluster s))" using n B(3) by (simp add: ac_simps)
  show "n = 0 \<longleftrightarrow> data = []" using n B(1) by (cases data) (simp_all add: div_eq_0_iff)
qed

section \<open>Creating and reading back\<close>

text \<open>Chains that avoid the given clusters keep their links and every sector.\<close>

definition files_kept :: "u32 set \<Rightarrow> 'a fatfs_scheme \<Rightarrow> 'a fatfs_scheme \<Rightarrow> bool" where
  "files_kept X s s' \<longleftrightarrow> (\<forall>e es. chain s e es \<and> set es \<inter> X = {} \<longrightarrow>
     chain s' e es \<and> (\<forall>a \<in> set (secs s es). disk s' a = disk s a))"

lemma files_keptD:
  assumes "files_kept X s s'" "chain s e es" "set es \<inter> X = {}"
  shows "chain s' e es" "a \<in> set (secs s es) \<Longrightarrow> disk s' a = disk s a"
  using assms by (auto simp: files_kept_def)

lemma secs_only: "disk_only s s' \<Longrightarrow> secs s' cs = secs s cs"
  by (simp add: secs_def disk_onlyD)

lemma took_files:
  assumes v: "vol_ok s" and t: "took k res c [] cs s s'"
  shows "files_kept {} s s'" "chain s e es \<Longrightarrow> set es \<inter> set cs = {}"
proof -
  have k: "table_kept (set cs) s s'" and f: "\<forall>d \<in> set cs. fat s d = 0" using t by (auto simp: took_def)
  show apart: "set es \<inter> set cs = {}" if "chain s e es" for e es using chain_used [OF v that] f by blast
  show "files_kept {} s s'"
    unfolding files_kept_def
  proof (intro allI impI conjI ballI)
    fix e es assume "chain s e es \<and> set es \<inter> {} = {}"
    then have ch: "chain s e es" by simp
    note U = chain_used [OF v ch]
    show "chain s' e es"
      using ch disk_onlyD(8) [OF table_keptD(1) [OF k]]
    proof (rule chain_cong)
      fix d assume "d \<in> set es"
      then show "fat s' d = fat s d" using table_keptD(3) [OF k, of d] U apart [OF ch] by blast
    qed
    fix a assume "a \<in> set (secs s es)"
    then show "disk s' a = disk s a" using table_keptD(4) [OF k] sectors_of_data [OF v] U unfolding set_secs by blast
  qed
qed

lemma data_kept_files:
  assumes v: "vol_ok s" and k: "data_kept (set (secs s cs)) s s'" and c: "\<And>c. c \<in> set cs \<Longrightarrow> clus s c"
  shows "files_kept (set cs) s s'"
  unfolding files_kept_def
proof (intro allI impI conjI ballI)
  fix e es assume a: "chain s e es \<and> set es \<inter> set cs = {}"
  note U = chain_used [OF v conjunct1 [OF a]]
  have data: "data_start_sector s \<le> x" if "x \<in> set (secs s cs)" for x
    using that sectors_of_data [OF v] c unfolding set_secs by blast
  show "chain s' e es"
    using conjunct1 [OF a] disk_onlyD(8) [OF data_keptD(1) [OF k]]
  proof (rule chain_cong)
    fix d assume "d \<in> set es"
    then show "fat s' d = fat s d" using data_kept_fat [OF v k data] U by blast
  qed
  have "set (secs s es) \<inter> set (secs s cs) = {}" using U c a by (intro secs_disjoint [OF v]) auto
  then show "disk s' x = disk s x" if "x \<in> set (secs s es)" for x using that data_keptD(3) [OF k] by blast
qed

lemma write_new_file:
  assumes v: "vol_ok s" "no_faults s" "length data < 2 ^ 31"
    and t: "took (unat (clusters_needed (of_nat (length data)) s)) (Some c) c [] cs s s1"
    and c: "data \<noteq> [] \<longrightarrow> c \<noteq> 0 \<and> c = hd cs"
  shows "\<exists>ok s2. (if (of_nat (length data) :: u32) > 0 \<and> c \<noteq> 0 then cluster_write_data c data s1 else Some (True, s1)) = Some (ok, s2) \<and>
    data_kept (set (secs s1 cs)) s1 s2 \<and>
    (ok \<and> data \<noteq> [] \<longrightarrow> chain s1 c cs \<and> take (length data) (contents s2 (secs s1 cs)) = data)"
proof (cases "data = []")
  case True
  then show ?thesis using t data_kept_refl [of s1] by (auto simp: took_def table_kept_def)
next
  case False
  note N = clusters_needed_enough [OF v(1,3)]
  have k: "table_kept (set cs) s s1" and len: "length cs = unat (clusters_needed (of_nat (length data)) s)"
    and "cs \<noteq> [] \<longrightarrow> chain s1 (hd cs) cs" using t by (auto simp: took_def)
  then have ch: "chain s1 c cs" using N(2) False c by force
  note K = table_keptD [OF k]
  have "length (secs s1 cs) = length cs * unat (sectors_per_cluster s)" by (simp add: length_secs disk_onlyD(3) [OF K(1)])
  then have fits: "length data \<le> 512 * length (secs s1 cs)" using N(1) len by simp
  have "no_faults s1" using v(2) disk_onlyD(12) [OF K(1)] by simp
  from cluster_write_ok [OF K(2) this ch, of data] obtain ok s2 where w: "cluster_write_data c data s1 = Some (ok, s2)"
    "data_kept (set (secs s1 cs)) s1 s2"
    "ok \<longrightarrow> take (length data) (contents s2 (secs s1 cs)) = take (512 * length (secs s1 cs)) data" by blast
  have "unat (of_nat (length data) :: u32) = length data" using v(3) by (intro unat_of_nat_32) simp
  then have "(of_nat (length data) :: u32) > 0" using False by (simp add: word_less_nat_alt)
  then show ?thesis using w fits ch c False by auto
qed

lemma fat32_read_back:
  assumes "vol_ok s" "no_faults s" "length data < 2 ^ 31"
    "data \<noteq> [] \<longrightarrow> chain s c cs \<and> take (length data) (contents s (secs s cs)) = data"
  shows "fat32_read c (of_nat (length data)) (of_nat (length data)) s = Some (int (length data), data)"
proof -
  have u: "unat (of_nat (length data) :: u32) = length data" using assms(3) by (intro unat_of_nat_32) simp
  have "read_clusters c (length data) [] s = Some (Some data)"
  proof (cases "data = []")
    case True
    then show ?thesis by (subst read_clusters.simps) simp
  next
    case False
    then show ?thesis using assms(4) read_clusters_ok [OF assms(1,2), of c cs "length data" "[]"] by simp
  qed
  then show ?thesis using assms(3) by (simp add: fat32_read_def u sint_of_nat_32)
qed

text \<open>One directory, the entry that is not yet in it, and the state after the file's sectors were written.\<close>

lemma finish_create:
  assumes v: "vol_ok s" "no_faults s" and ch: "chain s dc ds" and k: "files_kept X s s2" "set ds \<inter> X = {}"
    and s2: "disk_only s s2" "vol_ok s2" and n: "dir_lookup (to_83 f) dc s = Some None"
    and f: "f = [] \<or> hd f \<notin> {0, 0xE5}"
  shows "\<exists>ok s3. dir_add_entry dc (new_entry f c len) s2 = Some (ok, s3) \<and> data_kept (set (secs s2 ds)) s2 s3 \<and>
    (ok \<longrightarrow> fat32_lookup_in_dir dc f s3 = Some (Some (c, len, False)))"
proof -
  have ch2: "chain s2 dc ds" and "slots s2 (secs s ds) = slots s (secs s ds)"
    using files_keptD [OF k(1) ch k(2)] by (auto intro: slots_cong)
  then have same: "slots s2 (secs s2 ds) = slots s (secs s ds)" by (simp add: secs_only [OF s2(1)])
  have nf: "no_faults s2" using v(2) disk_onlyD(12) [OF s2(1)] by simp
  obtain ok s3 where a: "dir_add_entry dc (new_entry f c len) s2 = Some (ok, s3)" "data_kept (set (secs s2 ds)) s2 s3"
    "ok \<longrightarrow> slot_taken (new_entry f c len) (slots s2 (secs s2 ds)) (slots s3 (secs s2 ds))"
    using dir_add_ok [OF s2(2) nf length_new_entry ch2] by blast
  have miss: "scan_entries (to_83 f) (slots s2 (secs s2 ds)) \<noteq> Hit x" for x
    using n dir_lookup_ok [OF v ch] same by auto
  have "chain s3 dc ds"
    using ch2 disk_onlyD(8) [OF data_keptD(1) [OF a(2)]]
  proof (rule chain_cong)
    fix d assume "d \<in> set ds"
    then show "fat s3 d = fat s2 d"
      using chain_used [OF s2(2) ch2] sectors_of_data [OF s2(2)] by (intro data_kept_fat [OF s2(2) a(2)]) (auto simp: set_secs)
  qed
  moreover have "no_faults s3" using nf disk_onlyD(12) [OF data_keptD(1) [OF a(2)]] by simp
  ultimately have look: "dir_lookup (to_83 f) dc s3 = Some (case scan_entries (to_83 f) (slots s3 (secs s3 ds)) of Hit e \<Rightarrow> Some e | _ \<Rightarrow> None)"
    by (intro dir_lookup_ok [OF data_keptD(2) [OF a(2)]])
  have "fat32_lookup_in_dir dc f s3 = Some (Some (c, len, False))" if ok
  proof -
    have "scan_entries (to_83 f) (slots s3 (secs s2 ds)) = Hit (new_entry f c len)"
      using a(3) that miss new_entry_used [OF f] new_entry_fields(2,1) by (intro scan_taken) auto
    then show ?thesis using look secs_only [OF data_keptD(1) [OF a(2)]]
      by (simp add: fat32_lookup_in_dir_def new_entry_fields)
  qed
  then show ?thesis using a(1,2) by blast
qed

lemma files_kept_trans:
  assumes "files_kept X s t" "files_kept Y t u" "disk_only s t"
  shows "files_kept (X \<union> Y) s u"
  unfolding files_kept_def
proof (intro allI impI)
  fix e es assume a: "chain s e es \<and> set es \<inter> (X \<union> Y) = {}"
  then have x: "chain s e es" "set es \<inter> X = {}" "set es \<inter> Y = {}" by auto
  note A = files_keptD [OF assms(1) x(1,2)]
  note B = files_keptD [OF assms(2) A(1) x(3)]
  show "chain u e es \<and> (\<forall>a \<in> set (secs s es). disk u a = disk s a)"
    using A B by (simp add: secs_only [OF assms(3)])
qed

lemma new_file_kept:
  assumes v: "vol_ok s1" and k: "data_kept (set (secs s1 cs)) s1 s2" and c: "\<And>c. c \<in> set cs \<Longrightarrow> clus s1 c"
    and F: "files_kept X s2 s3" and k3: "data_kept Y s2 s3" and ch: "chain s1 c cs" and X: "X \<inter> set cs = {}"
    and r: "take n (contents s2 (secs s1 cs)) = data"
  shows "chain s3 c cs \<and> take n (contents s3 (secs s3 cs)) = data"
proof -
  note K = data_keptD [OF k]
  have "chain s2 c cs"
    using ch disk_onlyD(8) [OF K(1)]
  proof (rule chain_cong)
    fix d assume "d \<in> set cs"
    then show "fat s2 d = fat s1 d" using c sectors_of_data [OF v] by (intro data_kept_fat [OF v k]) (auto simp: set_secs)
  qed
  moreover have "set cs \<inter> X = {}" using X by blast
  ultimately have A: "chain s3 c cs" "\<And>a. a \<in> set (secs s2 cs) \<Longrightarrow> disk s3 a = disk s2 a"
    using files_keptD [OF F] by blast+
  then have "contents s3 (secs s2 cs) = contents s2 (secs s2 cs)" by (intro contents_cong)
  then show ?thesis using A(1) r by (simp add: secs_only [OF K(1)] secs_only [OF data_keptD(1) [OF k3]])
qed

lemma create_entry:
  assumes v: "vol_ok s" "no_faults s" and l: "length data < 2 ^ 31" and d: "chain s dc ds" "set ds \<inter> set cs = {}"
    and n: "dir_lookup (to_83 f) dc s = Some None" and f: "f = [] \<or> hd f \<notin> {0, 0xE5}"
    and s1: "disk_only s s1" "vol_ok s1" "\<And>x. x \<in> set cs \<Longrightarrow> clus s1 x"
    and s2: "data_kept (set (secs s1 cs)) s1 s2" "files_kept (set cs) s s2"
    and r: "data \<noteq> [] \<longrightarrow> chain s1 c cs \<and> take (length data) (contents s2 (secs s1 cs)) = data"
  shows "\<exists>ok s3. dir_add_entry dc (new_entry f c (of_nat (length data))) s2 = Some (ok, s3) \<and> files_kept (set cs \<union> set ds) s s3 \<and>
    (ok \<longrightarrow> fat32_lookup_in_dir dc f s3 = Some (Some (c, of_nat (length data), False)) \<and>
       fat32_read c (of_nat (length data)) (of_nat (length data)) s3 = Some (int (length data), data))"
proof -
  note K2 = data_keptD [OF s2(1)]
  have o2: "disk_only s s2" using s1(1) K2(1) by (rule disk_only_trans)
  obtain ok s3 where e: "dir_add_entry dc (new_entry f c (of_nat (length data))) s2 = Some (ok, s3)"
    "data_kept (set (secs s2 ds)) s2 s3" "ok \<longrightarrow> fat32_lookup_in_dir dc f s3 = Some (Some (c, of_nat (length data), False))"
    using finish_create [OF v d(1) s2(2) d(2) o2 K2(2) n f] by blast
  have "clus s2 x" if "x \<in> set ds" for x using chain_used [OF v(1) d(1) that] clus_only [OF o2] by simp
  then have F3: "files_kept (set ds) s2 s3" by (rule data_kept_files [OF K2(2) e(2)])
  have "data \<noteq> [] \<longrightarrow> chain s3 c cs \<and> take (length data) (contents s3 (secs s3 cs)) = data"
    using new_file_kept [OF s1(2) s2(1) s1(3) F3 e(2)] r d(2) by blast
  moreover have "no_faults s3" using v(2) disk_onlyD(12) [OF o2] disk_onlyD(12) [OF data_keptD(1) [OF e(2)]] by simp
  ultimately have "fat32_read c (of_nat (length data)) (of_nat (length data)) s3 = Some (int (length data), data)"
    by (intro fat32_read_back [OF data_keptD(2) [OF e(2)] _ l])
  then show ?thesis using e(1,3) files_kept_trans [OF s2(2) F3 o2] by blast
qed


section \<open>A small volume\<close>

definition demo_table :: "u8 list" where
  "demo_table = replicate 8 0 @ [0xFF, 0xFF, 0xFF, 0x0F] @ replicate 500 0"

definition demo_fat :: fatfs where
  "demo_fat = kern.extend demo_kern \<lparr>fat_start_sector = 1, data_start_sector = 2, sectors_per_cluster = 1,
     root_cluster = 2, bytes_per_cluster = 512, disk = (\<lambda>x. if x = 1 then demo_table else replicate 512 0),
     rd_bad = (\<lambda>_. False), wr_bad = (\<lambda>_. False), fpriv = (\<lambda>_. \<lparr>pd_first_cluster = 0, pd_size = 0\<rparr>)\<rparr>"

lemma demo_fat_fields [simp]:
  "fat_start_sector demo_fat = 1" "data_start_sector demo_fat = 2" "sectors_per_cluster demo_fat = 1"
  "root_cluster demo_fat = 2" "bytes_per_cluster demo_fat = 512" "rd_bad demo_fat x = False" "wr_bad demo_fat x = False"
  "disk demo_fat x = (if x = 1 then demo_table else replicate 512 0)"
  by (simp_all add: demo_fat_def kern.defs)

lemma demo_fat_ok: "vol_ok demo_fat" "no_faults demo_fat"
  by (simp_all add: vol_ok_def no_faults_def nclus_def demo_table_def)

lemma demo_fat_root: "chain demo_fat 2 [2]"
proof -
  have o: "fat_off 2 = 8" by code_simp
  have "rd 4 8 demo_table = 0x0FFFFFFF" by code_simp
  then have "fat demo_fat 2 = 0x0FFFFFFF" by (simp add: fat_def fat_sector_def o)
  then show ?thesis by (simp add: clus_def nclus_def)
qed

lemma demo_sectors: "sectors_of 2 demo_fat = [2]" "sectors_of 3 demo_fat = [3]"
  by (simp_all add: sectors_of_def cluster_to_sector_def)

lemma empty_sector: "dir_entries (replicate 512 0) = replicate 32 0 # tl (dir_entries (replicate 512 0))" "free_slot (replicate 512 0) = Some 0"
  by (simp_all add: dir_entries_def free_slot_def upt_conv_Cons)

lemma demo_fat_lookup: "dir_lookup (to_83 [0x41]) 2 demo_fat = Some None"
proof -
  have "scan_entries t (dir_entries (replicate 512 0)) = Stop" for t
    by (subst empty_sector(1)) simp
  then show ?thesis by (simp add: dir_lookup_ok [OF demo_fat_ok demo_fat_root] demo_sectors)
qed

lemma demo_fat_alloc:
  obtains s1 where "alloc_chain 1 0 0 demo_fat = Some (Some 3, s1)" "table_kept {3} demo_fat s1" "fat s1 3 = 0x0FFFFFFF"
proof -
  have o: "fat_off 3 = 12" "rd 4 12 demo_table = 0" by code_simp+
  have c: "clus demo_fat 2" "clus demo_fat 3" by (simp_all add: clus_def nclus_def)
  have f: "fat demo_fat 3 = 0" "fat demo_fat 2 \<noteq> 0"
    using chain_used [OF demo_fat_ok(1) demo_fat_root, of 2] by (simp_all add: fat_def fat_sector_def o)
  obtain ok s1 where w: "fat_write 3 0x0FFFFFFF demo_fat = (ok, s1)" by (cases "fat_write 3 0x0FFFFFFF demo_fat")
  have ok: ok using w by (auto simp: fat_write_def sector_read_def sector_write_def Let_def)
  have step: "alloc_from x demo_fat = (if fat demo_fat x = 0
      then (case fat_write x 0x0FFFFFFF demo_fat of (ok, s1) \<Rightarrow> Some (if ok then x else 0, s1)) else alloc_from (x + 1) demo_fat)"
    if "clus demo_fat x" for x
    using that fat_sector_in [OF demo_fat_ok(1), of x]
    by (subst alloc_from.simps) (simp add: clus_def sector_read_def fat_def not_le [symmetric])
  have "fat_alloc_cluster demo_fat = Some (3, s1)"
    using step [OF c(1)] step [OF c(2)] f w ok by (simp add: fat_alloc_cluster_def)
  then have "alloc_chain 1 0 0 demo_fat = Some (Some 3, s1)" by simp
  moreover have "table_kept {3} demo_fat s1" using demo_fat_ok(1) c(2) w by (rule fat_write_kept)
  moreover have "fat s1 3 = 0x0FFFFFFF" using fat_write_ok(4) [OF demo_fat_ok(1) _ w ok] c(2) by (simp add: clus_def)
  ultimately show ?thesis by (rule that)
qed

lemma demo_fat_write:
  assumes "table_kept {3} demo_fat s1"
  obtains s2 where "cluster_write_data 3 [1, 2, 3] s1 = Some (True, s2)" "disk_only demo_fat s2" "disk s2 2 = replicate 512 0"
proof -
  note K = table_keptD [OF assms]
  define s2 where "s2 = s1\<lparr>disk := (disk s1)(3 := [1, 2, 3] @ replicate 509 0)\<rparr>"
  have "sectors_of 3 s1 = [3]" "wr_bad s1 = (\<lambda>_. False)"
    using disk_onlyD(7,11) [OF K(1)] demo_sectors(2) by (simp_all add: fun_eq_iff)
  then have "write_sectors (sectors_of 3 s1) [1, 2, 3] s1 = (True, [], s2)" by (simp add: sector_write_def s2_def)
  moreover have "cluster_write_data x [] s2 = Some (True, s2)" for x by (subst cluster_write_data.simps) simp
  ultimately have "cluster_write_data 3 [1, 2, 3] s1 = Some (True, s2)" by (subst cluster_write_data.simps) simp
  moreover have "disk_only demo_fat s2" using K(1) by (rule disk_only_trans) (simp add: s2_def)
  moreover have "disk s2 2 = replicate 512 0" using K(4) [of 2] by (simp add: s2_def)
  ultimately show ?thesis by (rule that)
qed

lemma demo_fat_create: "\<exists>s'. fat32_create [0x2F, 0x41] [1, 2, 3] demo_fat = Some (True, s')"
proof -
  obtain s1 where a: "alloc_chain 1 0 0 demo_fat = Some (Some 3, s1)" "table_kept {3} demo_fat s1" by (rule demo_fat_alloc)
  obtain s2 where w: "cluster_write_data 3 [1, 2, 3] s1 = Some (True, s2)" "disk_only demo_fat s2" "disk s2 2 = replicate 512 0"
    using a(2) by (rule demo_fat_write)
  have s2: "sectors_of 2 s2 = [2]" "wr_bad s2 = (\<lambda>_. False)" "rd_bad s2 = (\<lambda>_. False)"
    using disk_onlyD(6,7,11) [OF w(2)] demo_sectors(1) by (simp_all add: fun_eq_iff)
  have "dir_add_entry 2 e s2 = Some (True, s2\<lparr>disk := (disk s2)(2 := splice 0 e (replicate 512 0))\<rparr>)" for e
    by (subst dir_add_entry.simps) (simp add: s2 w(3) sector_read_def sector_write_def empty_sector(2))
  moreover have "clusters_needed 3 demo_fat = 1" by (simp add: clusters_needed_def)
  moreover have "split_path [0x41] = ([], [0x41])" "walk_dirs 2 [] demo_fat = Some (Some 2)"
    by (simp_all add: split_path_def walk_dirs.simps)
  ultimately show ?thesis using a(1) w(1) by (simp add: fat32_create_def Let_def)
qed


section \<open>Limits of the code\<close>

text \<open>A name that starts with the deleted mark makes an entry that counts as free.\<close>

lemma deleted_mark_name: "free_entry (new_entry (0xE5 # cs) c n)"
  by (simp add: free_entry_def new_entry_def to_83_def pad_def Let_def upper_def nth_append)

text \<open>Near 4 GiB the cluster count wraps to nothing.\<close>

lemma clusters_needed_wraps: "clusters_needed 0xFFFFFFFF demo_fat = 0"
  by (simp add: clusters_needed_def)

text \<open>Data left over at the end of a chain is dropped with success.\<close>

lemma write_past_chain: "FAT32_EOC \<le> c \<Longrightarrow> cluster_write_data c src s = Some (True, s)"
  by (subst cluster_write_data.simps) (simp add: not_less [symmetric])

end
