(* ===== verification/Pci.thy ===== *)
theory Pci
  imports Kernel_Prelude
begin

text \<open>
  The PCI bus, \<^verbatim>\<open>src/pci/pci.c\<close>, and the capability lists of virtio devices,
  \<^verbatim>\<open>src/pci/virtio/virtio.c\<close>: configuration space through ECAM, enumeration, sizing and placement of
  the base address registers (BARs), and the walks over capability lists.  Configuration space is a
  memory of 32-bit registers; the hardware is a parameter \<open>hw\<close>, the bits of each register that can be
  written.  A walk that does not end, and an access across a register boundary, are the value \<open>None\<close>.
\<close>

section \<open>State\<close>

record pci_device =
  d_bus :: u8
  d_slot :: u8
  d_func :: u8
  vendor_id :: u16
  device_id :: u16
  bar_addr :: "nat \<Rightarrow> u64"

record pci =
  cfg :: "u64 \<Rightarrow> u32"
  pci_devices :: "pci_device list"
  mmio32_next :: u64
  mmio64_next :: u64

record virtio_pci_caps =
  common_cfg :: u64
  notify_base :: u64
  isr_cfg :: u64
  device_cfg :: u64
  notify_off_multiplier :: u32

type_synonym wmask = "u64 \<Rightarrow> u32"

abbreviation (input) PCI_ECAM_PHYS :: u64 where "PCI_ECAM_PHYS \<equiv> 0x4010000000"
abbreviation (input) PCI_MMIO32_PHYS :: u64 where "PCI_MMIO32_PHYS \<equiv> 0x10000000"
abbreviation (input) PCI_MMIO32_LIMIT :: u64 where "PCI_MMIO32_LIMIT \<equiv> 0x3EFEFFFF"
abbreviation (input) PCI_MMIO64_PHYS :: u64 where "PCI_MMIO64_PHYS \<equiv> 0x8000000000"
abbreviation (input) PCI_MMIO64_LIMIT :: u64 where "PCI_MMIO64_LIMIT \<equiv> 0xFFFFFFFFFF"
abbreviation (input) MAX_PCI_DEVICES :: nat where "MAX_PCI_DEVICES \<equiv> 16"

section \<open>Address windows\<close>

text \<open>Both allocators align the next address, check the limit and advance; the result is the address
  (0 when the window is exhausted) and the new next address.\<close>

definition alloc_window :: "u64 \<Rightarrow> u64 \<Rightarrow> u64 \<Rightarrow> u64 \<times> u64" where
  "alloc_window limit sz next_addr =
    (let m = sz - 1; n = (next_addr + m) AND NOT m in
     if n + sz - 1 > limit then (0, n) else (n, n + sz))"

definition alloc_mmio32 :: "u32 \<Rightarrow> pci \<Rightarrow> u64 \<times> pci" where
  "alloc_mmio32 sz s = (let (a, n) = alloc_window PCI_MMIO32_LIMIT (ucast sz) (mmio32_next s) in (a, s\<lparr>mmio32_next := n\<rparr>))"

definition alloc_mmio64 :: "u64 \<Rightarrow> pci \<Rightarrow> u64 \<times> pci" where
  "alloc_mmio64 sz s = (let (a, n) = alloc_window PCI_MMIO64_LIMIT sz (mmio64_next s) in (a, s\<lparr>mmio64_next := n\<rparr>))"

section \<open>Configuration space\<close>

definition pci_make_ecam_addr :: "u16 \<Rightarrow> u8 \<Rightarrow> u8 \<Rightarrow> u16 \<Rightarrow> u64" where
  "pci_make_ecam_addr bus slot func offset =
    PCI_ECAM_PHYS OR push_bit 20 (ucast bus) OR push_bit 15 (ucast slot) OR push_bit 12 (ucast func) OR ucast offset"

definition pci_config_read32 :: "u16 \<Rightarrow> u8 \<Rightarrow> u8 \<Rightarrow> u16 \<Rightarrow> pci \<Rightarrow> u32" where
  "pci_config_read32 bus slot func offset s = cfg s (pci_make_ecam_addr bus slot func offset)"

text \<open>Narrow accesses: the register and the place inside it.\<close>

definition lane :: "u16 \<Rightarrow> nat" where
  "lane offset = 8 * unat (offset AND 3)"

definition pci_config_read16 :: "u16 \<Rightarrow> u8 \<Rightarrow> u8 \<Rightarrow> u16 \<Rightarrow> pci \<Rightarrow> u16" where
  "pci_config_read16 bus slot func offset s =
    ucast (drop_bit (lane offset) (pci_config_read32 bus slot func (offset AND NOT 3) s))"

definition pci_config_read8 :: "u16 \<Rightarrow> u8 \<Rightarrow> u8 \<Rightarrow> u16 \<Rightarrow> pci \<Rightarrow> u8" where
  "pci_config_read8 bus slot func offset s =
    ucast (drop_bit (lane offset) (pci_config_read32 bus slot func (offset AND NOT 3) s))"

definition write_reg :: "wmask \<Rightarrow> u64 \<Rightarrow> u32 \<Rightarrow> pci \<Rightarrow> pci" where
  "write_reg hw a v s = s\<lparr>cfg := (cfg s)(a := (cfg s a AND NOT (hw a)) OR (v AND hw a))\<rparr>"

definition pci_config_write32 :: "wmask \<Rightarrow> u16 \<Rightarrow> u8 \<Rightarrow> u8 \<Rightarrow> u16 \<Rightarrow> u32 \<Rightarrow> pci \<Rightarrow> pci" where
  "pci_config_write32 hw bus slot func offset v = write_reg hw (pci_make_ecam_addr bus slot func offset) v"

definition pci_config_write16 :: "wmask \<Rightarrow> u16 \<Rightarrow> u8 \<Rightarrow> u8 \<Rightarrow> u16 \<Rightarrow> u16 \<Rightarrow> pci \<Rightarrow> pci" where
  "pci_config_write16 hw bus slot func offset v s =
    (let m = push_bit (lane offset) (mask 16); a = pci_make_ecam_addr bus slot func (offset AND NOT 3)
     in write_reg hw a ((cfg s a AND NOT m) OR push_bit (lane offset) (ucast v)) s)"

definition pci_config_write8 :: "wmask \<Rightarrow> u16 \<Rightarrow> u8 \<Rightarrow> u8 \<Rightarrow> u16 \<Rightarrow> u8 \<Rightarrow> pci \<Rightarrow> pci" where
  "pci_config_write8 hw bus slot func offset v s =
    (let m = push_bit (lane offset) (mask 8); a = pci_make_ecam_addr bus slot func (offset AND NOT 3)
     in write_reg hw a ((cfg s a AND NOT m) OR push_bit (lane offset) (ucast v)) s)"

section \<open>Enumeration\<close>

fun enum_functions :: "(nat \<times> nat \<times> nat) list \<Rightarrow> pci \<Rightarrow> pci" where
  "enum_functions [] s = s"
| "enum_functions ((bus, slot, func) # fs) s =
    (let vendor = pci_config_read16 (of_nat bus) (of_nat slot) (of_nat func) 0x00 s in
     if vendor = 0xFFFF then enum_functions fs s
     else let device = pci_config_read16 (of_nat bus) (of_nat slot) (of_nat func) 0x02 s in
          if length (pci_devices s) \<ge> MAX_PCI_DEVICES then s
          else enum_functions fs (s\<lparr>pci_devices := pci_devices s @
            [\<lparr>d_bus = of_nat bus, d_slot = of_nat slot, d_func = of_nat func, vendor_id = vendor, device_id = device, bar_addr = (\<lambda>_. 0)\<rparr>]\<rparr>))"

definition bus_order :: "(nat \<times> nat \<times> nat) list" where
  "bus_order = concat (map (\<lambda>bus. concat (map (\<lambda>slot. map (\<lambda>func. (bus, slot, func)) [0..<8]) [0..<32])) [0..<256])"

definition pci_enumerate_bus :: "pci \<Rightarrow> pci" where
  "pci_enumerate_bus = enum_functions bus_order"

definition pci_find_device :: "u16 \<Rightarrow> u16 \<Rightarrow> pci \<Rightarrow> pci_device option" where
  "pci_find_device vendor device s = find (\<lambda>d. vendor_id d = vendor \<and> device_id d = device) (pci_devices s)"

definition pci_get_header_type :: "pci_device \<Rightarrow> pci \<Rightarrow> u8" where
  "pci_get_header_type dev = pci_config_read8 (ucast (d_bus dev)) (d_slot dev) (d_func dev) 0x0E"

section \<open>Base address registers\<close>

definition pci_get_bar_size :: "wmask \<Rightarrow> u8 \<Rightarrow> u8 \<Rightarrow> u8 \<Rightarrow> u16 \<Rightarrow> pci \<Rightarrow> u32 \<times> pci" where
  "pci_get_bar_size hw bus slot func offset s =
    (let original = pci_config_read32 (ucast bus) slot func offset s;
         s1 = pci_config_write32 hw (ucast bus) slot func offset 0xFFFFFFFF s;
         size_mask = pci_config_read32 (ucast bus) slot func offset s1 AND NOT 0xF;
         s2 = pci_config_write32 hw (ucast bus) slot func offset original s1
     in (if size_mask = 0 then 0 else NOT size_mask + 1, s2))"

definition pci_get_bar_size64 :: "wmask \<Rightarrow> u8 \<Rightarrow> u8 \<Rightarrow> u8 \<Rightarrow> u16 \<Rightarrow> u16 \<Rightarrow> pci \<Rightarrow> u64 \<times> pci" where
  "pci_get_bar_size64 hw bus slot func offset_lo offset_hi s =
    (let orig_lo = pci_config_read32 (ucast bus) slot func offset_lo s;
         orig_hi = pci_config_read32 (ucast bus) slot func offset_hi s;
         s1 = pci_config_write32 hw (ucast bus) slot func offset_lo 0xFFFFFFFF s;
         s2 = pci_config_write32 hw (ucast bus) slot func offset_hi 0xFFFFFFFF s1;
         mask_lo = pci_config_read32 (ucast bus) slot func offset_lo s2;
         mask_hi = pci_config_read32 (ucast bus) slot func offset_hi s2;
         s3 = pci_config_write32 hw (ucast bus) slot func offset_lo orig_lo s2;
         s4 = pci_config_write32 hw (ucast bus) slot func offset_hi orig_hi s3;
         m = push_bit 32 (ucast mask_hi) OR (ucast mask_lo AND NOT 0xF)
     in (NOT m + 1, s4))"

definition bar_offset :: "nat \<Rightarrow> u16" where
  "bar_offset i = 0x10 + of_nat i * 4"

definition set_bar :: "nat \<Rightarrow> u64 \<Rightarrow> pci_device \<Rightarrow> pci_device" where
  "set_bar i a dev = dev\<lparr>bar_addr := (bar_addr dev)(i := a)\<rparr>"

function assign_from :: "wmask \<Rightarrow> nat \<Rightarrow> pci_device \<Rightarrow> pci \<Rightarrow> pci_device \<times> pci" where
  "assign_from hw i dev s =
    (if i < 6 then
       let b = d_bus dev; d = d_slot dev; f = d_func dev;
           bar = pci_config_read32 (ucast b) d f (bar_offset i) s
       in
       if bar AND 1 \<noteq> 0 then assign_from hw (i + 1) dev s
       else let type = drop_bit 1 bar AND 3 in
         if type = 0 then
           let (sz, s1) = pci_get_bar_size hw b d f (bar_offset i) s in
           if sz = 0 \<or> sz = 0xFFFFFFFF then assign_from hw (i + 1) (set_bar i 0 dev) s1
           else let (addr, s2) = alloc_mmio32 sz s1;
                    s3 = pci_config_write32 hw (ucast b) d f (bar_offset i) (ucast addr) s2
                in assign_from hw (i + 1) (set_bar i addr dev) s3
         else if type = 2 then
           if i + 1 \<ge> 6 then assign_from hw (i + 1) (set_bar i 0 dev) s
           else let (sz, s1) = pci_get_bar_size64 hw b d f (bar_offset i) (bar_offset (i + 1)) s in
                if sz = 0 then assign_from hw (i + 2) (set_bar i 0 dev) s1
                else let (addr, s2) = alloc_mmio64 sz s1;
                         s3 = pci_config_write32 hw (ucast b) d f (bar_offset i) (ucast (addr AND 0xFFFFFFFF)) s2;
                         s4 = pci_config_write32 hw (ucast b) d f (bar_offset i + 4) (ucast (drop_bit 32 addr)) s3
                     in assign_from hw (i + 2) (set_bar i addr dev) s4
         else assign_from hw (i + 1) dev s
     else (dev, s))"
  by pat_completeness auto
termination
  by (relation "measure (\<lambda>(hw, i, dev, s). 6 - i)") auto

declare assign_from.simps [simp del]

definition pci_assign_bars :: "wmask \<Rightarrow> pci_device \<Rightarrow> pci \<Rightarrow> pci_device \<times> pci" where
  "pci_assign_bars hw dev s = assign_from hw 0 dev s"

definition pci_enable_device :: "wmask \<Rightarrow> pci_device \<Rightarrow> pci \<Rightarrow> pci" where
  "pci_enable_device hw dev s =
    (let cmd = pci_config_read16 (ucast (d_bus dev)) (d_slot dev) (d_func dev) 0x04 s
     in pci_config_write16 hw (ucast (d_bus dev)) (d_slot dev) (d_func dev) 0x04 (cmd OR 2 OR 4) s)"

definition pci_enable_intx :: "wmask \<Rightarrow> pci_device \<Rightarrow> pci \<Rightarrow> pci" where
  "pci_enable_intx hw dev s =
    (let cmd = pci_config_read16 (ucast (d_bus dev)) (d_slot dev) (d_func dev) 0x04 s
     in pci_config_write16 hw (ucast (d_bus dev)) (d_slot dev) (d_func dev) 0x04 (cmd AND NOT 0x400) s)"

definition pci_intx_intid :: "pci_device \<Rightarrow> pci \<Rightarrow> u32" where
  "pci_intx_intid dev s =
    (let pin = pci_config_read8 (ucast (d_bus dev)) (d_slot dev) (d_func dev) 0x3D s in
     if pin = 0 \<or> pin > 4 then 0 else 32 + (3 + (ucast (d_slot dev) + ucast pin - 1) mod 4))"

section \<open>Capabilities\<close>

abbreviation (input) cap_byte :: "pci_device \<Rightarrow> u16 \<Rightarrow> pci \<Rightarrow> u8" where
  "cap_byte dev \<equiv> pci_config_read8 (ucast (d_bus dev)) (d_slot dev) (d_func dev)"

abbreviation (input) has_caps :: "pci_device \<Rightarrow> pci \<Rightarrow> bool" where
  "has_caps dev s \<equiv> pci_config_read16 (ucast (d_bus dev)) (d_slot dev) (d_func dev) 0x06 s AND 16 \<noteq> 0"

fun cap_walk :: "nat \<Rightarrow> u8 \<Rightarrow> u8 \<Rightarrow> pci_device \<Rightarrow> pci \<Rightarrow> u8" where
  "cap_walk 0 ptr cap_id dev s = 0"
| "cap_walk (Suc hops) ptr cap_id dev s =
    (if ptr < 0x40 then 0
     else if cap_byte dev (ucast ptr) s = cap_id then ptr
     else let nxt = cap_byte dev (ucast ptr + 1) s AND 0xFC
          in if nxt = 0 then 0 else cap_walk hops nxt cap_id dev s)"

definition pci_find_capability :: "pci_device \<Rightarrow> u8 \<Rightarrow> pci \<Rightarrow> u8" where
  "pci_find_capability dev cap_id s =
    (if \<not> has_caps dev s then 0 else cap_walk 48 (cap_byte dev 0x34 s AND 0xFC) cap_id dev s)"

text \<open>A 32-bit register at an offset that is a multiple of four.\<close>

definition cap_word :: "pci_device \<Rightarrow> u16 \<Rightarrow> pci \<Rightarrow> u32 option" where
  "cap_word dev offset s =
    (if offset AND 3 = 0 then Some (pci_config_read32 (ucast (d_bus dev)) (d_slot dev) (d_func dev) offset s) else None)"

definition virtio_populate_capabilities :: "pci_device \<Rightarrow> virtio_pci_caps \<Rightarrow> u8 \<Rightarrow> pci \<Rightarrow> virtio_pci_caps option" where
  "virtio_populate_capabilities dev caps cap_ptr s =
    (let cfg_type = cap_byte dev (ucast cap_ptr + 3) s; bar = cap_byte dev (ucast cap_ptr + 4) s in
     case (cap_word dev (ucast cap_ptr + 8) s, cap_word dev (ucast cap_ptr + 12) s) of
       (Some offset, Some _) \<Rightarrow>
         if bar \<ge> 6 then Some caps
         else let cap_addr = bar_addr dev (unat bar) + ucast offset in
              if cfg_type = 1 then Some (caps\<lparr>common_cfg := cap_addr\<rparr>)
              else if cfg_type = 2 then map_option (\<lambda>m. caps\<lparr>notify_base := cap_addr, notify_off_multiplier := m\<rparr>) (cap_word dev (ucast cap_ptr + 16) s)
              else if cfg_type = 3 then Some (caps\<lparr>isr_cfg := cap_addr\<rparr>)
              else if cfg_type = 4 then Some (caps\<lparr>device_cfg := cap_addr\<rparr>)
              else Some caps
     | _ \<Rightarrow> None)"

partial_function (option) parse_from :: "pci_device \<Rightarrow> u8 \<Rightarrow> virtio_pci_caps \<Rightarrow> pci \<Rightarrow> virtio_pci_caps option" where
  "parse_from dev cap_ptr caps s =
    (if cap_ptr = 0 then Some caps
     else let cap_id = cap_byte dev (ucast cap_ptr) s; nxt = cap_byte dev (ucast cap_ptr + 1) s in
          if cap_id = 0x09
          then (case virtio_populate_capabilities dev caps cap_ptr s of
                  None \<Rightarrow> None
                | Some caps1 \<Rightarrow> parse_from dev nxt caps1 s)
          else parse_from dev nxt caps s)"

definition virtio_parse_capabilities :: "pci_device \<Rightarrow> virtio_pci_caps \<Rightarrow> pci \<Rightarrow> virtio_pci_caps option" where
  "virtio_parse_capabilities dev caps s =
    (if \<not> has_caps dev s then Some caps else parse_from dev (cap_byte dev 0x34 s) caps s)"

section \<open>The windows\<close>

lemma unat_power_64: "k < 64 \<Longrightarrow> unat (2 ^ k :: u64) = 2 ^ k"
  using unat_of_nat_64 [of "2 ^ k"] power_strict_increasing [of k 64 "2::nat"] by simp

lemma align_up_nat:
  fixes n z :: nat
  assumes "0 < z"
  shows "z dvd (n + (z - 1)) div z * z" "n \<le> (n + (z - 1)) div z * z" "z dvd m \<Longrightarrow> n \<le> m \<Longrightarrow> (n + (z - 1)) div z * z \<le> m"
proof -
  define q where "q = (n + (z - 1)) div z"
  show "z dvd (n + (z - 1)) div z * z" by simp
  have "n + (z - 1) < (q + 1) * z" using assms dividend_less_div_times [of z "n + (z - 1)"] by (simp add: q_def algebra_simps)
  then show "n \<le> (n + (z - 1)) div z * z" using assms unfolding q_def [symmetric] by (simp add: algebra_simps)
  assume "z dvd m" "n \<le> m"
  then obtain c where c: "m = z * c" by auto
  have "q \<le> (z * c + (z - 1)) div z" unfolding q_def using \<open>n \<le> m\<close> c by (intro div_le_mono) simp
  also have "\<dots> = c" using assms by (intro div_nat_eqI) (simp_all add: algebra_simps)
  finally show "(n + (z - 1)) div z * z \<le> m" unfolding q_def [symmetric] using c by (simp add: mult.commute)
qed

text \<open>A success is aligned, at or above the old next address, and its end is the new one; a failure keeps
  the next address where no later rounding wraps.\<close>

lemma alloc_window_result:
  assumes k: "k < 64" and n: "unat next_addr \<le> 2 ^ 63" and l: "unat limit < 2 ^ 63"
    and r: "alloc_window limit (2 ^ k) next_addr = (a, n')"
  shows "unat next_addr \<le> unat n' \<and> unat n' \<le> 2 ^ 63 \<and>
    (a = 0 \<or> 2 ^ k dvd unat a \<and> unat next_addr \<le> unat a \<and> unat n' = unat a + 2 ^ k \<and> unat n' \<le> unat limit + 1)"
proof -
  define z :: nat where "z = 2 ^ k"
  have z: "0 < z" "z dvd 2 ^ 63" using k le_imp_power_dvd [of k 63 "2 :: nat"] by (simp_all only: z_def) simp_all
  then have z': "z \<le> 2 ^ 63" by (intro dvd_imp_le) simp_all
  define m :: u64 where "m = 2 ^ k - 1"
  have m: "m = mask k" by (simp add: m_def mask_eq_exp_minus_1)
  have um: "unat m = z - 1" using k z(1) by (simp add: m_def unat_minus_64 unat_power_64 z_def)
  define x where "x = (next_addr + m) AND NOT m"
  have s: "unat (next_addr + m) = unat next_addr + (z - 1)" using n z z' um by (simp add: unat_plus_64)
  have ux: "unat x = (unat next_addr + (z - 1)) div z * z" unfolding x_def m using unat_and_not_mask [OF k] s m z_def by metis
  note A = align_up_nat [OF z(1), where n = "unat next_addr", folded ux]
  have xb: "unat x \<le> 2 ^ 63" using A(3) [OF z(2) n] by simp
  have e: "unat (x + 2 ^ k - 1) = unat x + (z - 1)"
  proof -
    have eq: "x + 2 ^ k - 1 = x + m" by (simp add: m_def)
    show ?thesis unfolding eq using xb z z' um by (simp add: unat_plus_64)
  qed
  have r': "(if x + 2 ^ k - 1 > limit then (0, x) else (x, x + 2 ^ k)) = (a, n')"
    using r unfolding alloc_window_def Let_def m_def [symmetric] x_def [symmetric] .
  show ?thesis
  proof (cases "x + 2 ^ k - 1 > limit")
    case True
    then show ?thesis using r' A xb by auto
  next
    case False
    then have le: "unat x + (z - 1) \<le> unat limit" using e by (simp add: word_less_nat_alt)
    have s: "unat (x + 2 ^ k) = unat x + z" using xb le l k z z' by (simp add: unat_plus_64 unat_power_64 z_def)
    have "x = a" "x + 2 ^ k = n'" using r' False by (auto split: if_splits)
    then have n': "a = x" "unat n' = unat x + z" using s by auto
    have "unat n' \<le> unat limit + 1" "unat next_addr \<le> unat n'" using n' le z A(2) by linarith+
    moreover from this l have "unat n' \<le> 2 ^ 63" by linarith
    ultimately show ?thesis using n' A(1,2) unfolding z_def by blast
  qed
qed

section \<open>ECAM addresses\<close>

text \<open>Different registers have different addresses.\<close>

lemma bit_bound: "unat w < 2 ^ k \<Longrightarrow> bit w n \<Longrightarrow> n < k" for w :: "'a :: len word"
proof (rule ccontr)
  assume w: "unat w < 2 ^ k" "bit w n" "\<not> n < k"
  then have "unat w < 2 ^ n" using power_increasing [of k n "2 :: nat"] by linarith
  then have "\<not> bit (unat w) n" by (simp add: bit_iff_odd)
  then show False using w(2) by (simp add: bit_unsigned_iff bit_imp_le_length)
qed

lemma ecam_fields:
  assumes "unat bus < 2 ^ 8" "unat slot < 2 ^ 5" "unat func < 2 ^ 3" "unat offset < 2 ^ 12"
  shows "take_bit 8 (drop_bit 20 (pci_make_ecam_addr bus slot func offset)) = ucast bus"
    "take_bit 5 (drop_bit 15 (pci_make_ecam_addr bus slot func offset)) = ucast slot"
    "take_bit 3 (drop_bit 12 (pci_make_ecam_addr bus slot func offset)) = ucast func"
    "take_bit 12 (pci_make_ecam_addr bus slot func offset) = ucast offset"
proof -
  have e: "PCI_ECAM_PHYS = push_bit 38 1 OR push_bit 28 1" by simp
  note B = assms [THEN bit_bound]
  show "take_bit 8 (drop_bit 20 (pci_make_ecam_addr bus slot func offset)) = ucast bus"
    unfolding pci_make_ecam_addr_def e by (rule bit_word_eqI) (auto simp: bit_simps dest: B)
  show "take_bit 5 (drop_bit 15 (pci_make_ecam_addr bus slot func offset)) = ucast slot"
    unfolding pci_make_ecam_addr_def e by (rule bit_word_eqI) (auto simp: bit_simps dest: B)
  show "take_bit 3 (drop_bit 12 (pci_make_ecam_addr bus slot func offset)) = ucast func"
    unfolding pci_make_ecam_addr_def e by (rule bit_word_eqI) (auto simp: bit_simps dest: B)
  show "take_bit 12 (pci_make_ecam_addr bus slot func offset) = ucast offset"
    unfolding pci_make_ecam_addr_def e by (rule bit_word_eqI) (auto simp: bit_simps dest: B)
qed

section \<open>What the hardware decodes\<close>

definition bar_reg :: "pci_device \<Rightarrow> nat \<Rightarrow> u64" where
  "bar_reg dev i = pci_make_ecam_addr (ucast (d_bus dev)) (d_slot dev) (d_func dev) (bar_offset i)"

definition bdf :: "pci_device \<Rightarrow> u8 \<times> u8 \<times> u8" where
  "bdf dev = (d_bus dev, d_slot dev, d_func dev)"

definition on_bus :: "pci_device \<Rightarrow> bool" where
  "on_bus dev \<longleftrightarrow> unat (d_slot dev) < 32 \<and> unat (d_func dev) < 8"

lemma bar_offset_nat: "i < 6 \<Longrightarrow> unat (bar_offset i) = 16 + 4 * i"
  by (simp add: bar_offset_def unat_word_ariths unat_of_nat)

lemma bar_offset_Suc: "bar_offset i + 4 = bar_offset (i + 1)"
  by (simp add: bar_offset_def algebra_simps)

lemma ucast_eq_iff_64:
  "(ucast (x :: u8) :: u64) = ucast y \<longleftrightarrow> x = y" "(ucast (v :: u16) :: u64) = ucast w \<longleftrightarrow> v = w" "(ucast (x :: u8) :: u16) = ucast y \<longleftrightarrow> x = y"
proof -
  have a: "unat (ucast x :: u64) = unat x" "unat (ucast x :: u16) = unat x" for x :: u8
    using unat_lt_8 [of x] by (simp_all add: unsigned_ucast_eq take_bit_nat_eq_self)
  have b: "unat (ucast v :: u64) = unat v" for v :: u16
    using unat_lt_16 [of v] by (simp add: unsigned_ucast_eq take_bit_nat_eq_self)
  show "(ucast x :: u64) = ucast y \<longleftrightarrow> x = y" "(ucast v :: u64) = ucast w \<longleftrightarrow> v = w" "(ucast x :: u16) = ucast y \<longleftrightarrow> x = y"
    by (metis a b word_unat_eq_iff)+
qed

lemma bar_reg_fields:
  assumes "on_bus d" "i < 6"
  shows "ucast (ucast (d_bus d) :: u16) = take_bit 8 (drop_bit 20 (bar_reg d i))" "ucast (d_slot d) = take_bit 5 (drop_bit 15 (bar_reg d i))"
    "ucast (d_func d) = take_bit 3 (drop_bit 12 (bar_reg d i))" "ucast (bar_offset i) = take_bit 12 (bar_reg d i)"
proof -
  have "unat (ucast (d_bus d) :: u16) < 2 ^ 8"
    using unat_lt_8 [of "d_bus d"] by (simp add: unsigned_ucast_eq take_bit_nat_eq_self)
  moreover have "unat (d_slot d) < 2 ^ 5" "unat (d_func d) < 2 ^ 3" "unat (bar_offset i) < 2 ^ 12"
    using assms by (simp_all add: on_bus_def bar_offset_nat)
  ultimately show "ucast (ucast (d_bus d) :: u16) = take_bit 8 (drop_bit 20 (bar_reg d i))" "ucast (d_slot d) = take_bit 5 (drop_bit 15 (bar_reg d i))"
      "ucast (d_func d) = take_bit 3 (drop_bit 12 (bar_reg d i))" "ucast (bar_offset i) = take_bit 12 (bar_reg d i)"
    unfolding bar_reg_def by (simp_all only: ecam_fields)
qed

lemma bar_reg_eq:
  assumes "on_bus d" "on_bus d'" "i < 6" "j < 6"
  shows "bar_reg d i = bar_reg d' j \<longleftrightarrow> bdf d = bdf d' \<and> i = j"
proof
  assume e: "bar_reg d i = bar_reg d' j"
  have "(ucast (ucast (d_bus d) :: u16) :: u64) = ucast (ucast (d_bus d') :: u16)" "(ucast (d_slot d) :: u64) = ucast (d_slot d')"
      "(ucast (d_func d) :: u64) = ucast (d_func d')" "(ucast (bar_offset i) :: u64) = ucast (bar_offset j)"
    by (simp_all only: bar_reg_fields [OF assms(1,3)] bar_reg_fields [OF assms(2,4)] e)
  then have "d_bus d = d_bus d'" "d_slot d = d_slot d'" "d_func d = d_func d'" "bar_offset i = bar_offset j" unfolding ucast_eq_iff_64 .
  moreover from this(4) have "16 + 4 * i = 16 + 4 * j" using bar_offset_nat [OF assms(3)] bar_offset_nat [OF assms(4)] by metis
  ultimately show "bdf d = bdf d' \<and> i = j" unfolding bdf_def by auto
qed (auto simp: bar_reg_def bdf_def)

lemma bar_reg_Suc [simp]: "pci_make_ecam_addr (ucast (d_bus dev)) (d_slot dev) (d_func dev) (bar_offset i + 4) = bar_reg dev (i + 1)"
  by (simp add: bar_reg_def bar_offset_Suc)

text \<open>The kind of a register, the registers that start a BAR, and the addresses a BAR decodes.\<close>

abbreviation io_bar :: "u32 \<Rightarrow> bool" where "io_bar w \<equiv> w AND 1 \<noteq> 0"
abbreviation bar_type :: "u32 \<Rightarrow> u32" where "bar_type w \<equiv> drop_bit 1 w AND 3"

definition wide :: "(u64 \<Rightarrow> u32) \<Rightarrow> pci_device \<Rightarrow> nat \<Rightarrow> bool" where
  "wide c dev i \<longleftrightarrow> \<not> io_bar (c (bar_reg dev i)) \<and> bar_type (c (bar_reg dev i)) = 2 \<and> i + 1 < 6"

function heads :: "(u64 \<Rightarrow> u32) \<Rightarrow> pci_device \<Rightarrow> nat \<Rightarrow> nat list" where
  "heads c dev i = (if i < 6 then i # heads c dev (if wide c dev i then i + 2 else i + 1) else [])"
  by pat_completeness auto
termination
  by (relation "measure (\<lambda>(c, dev, i). 6 - i)") auto

declare heads.simps [simp del]

definition join :: "u32 \<Rightarrow> u32 \<Rightarrow> u64" where
  "join hi lo = push_bit 32 (ucast hi) OR ucast lo"

definition region :: "wmask \<Rightarrow> (u64 \<Rightarrow> u32) \<Rightarrow> pci_device \<Rightarrow> nat \<Rightarrow> (nat \<times> nat) option" where
  "region hw c dev i =
    (let r = bar_reg dev i; h = bar_reg dev (i + 1) in
     if io_bar (c r) then None
     else if bar_type (c r) = 0 then
       if hw r = 0 \<or> c r AND NOT 15 = 0 then None else Some (unat (c r AND NOT 15), unat (NOT (hw r) + 1))
     else if wide c dev i then
       if join (hw h) (hw r) = 0 \<or> join (c h) (c r AND NOT 15) = 0 then None
       else Some (unat (join (c h) (c r AND NOT 15)), unat (NOT (join (hw h) (hw r)) + 1))
     else None)"

text \<open>What the PCI specification says of a memory BAR: the low bits are fixed, the writable bits are
  those above the size, and the other address bits are zero.\<close>

definition bar_spec :: "wmask \<Rightarrow> (u64 \<Rightarrow> u32) \<Rightarrow> pci_device \<Rightarrow> nat \<Rightarrow> bool" where
  "bar_spec hw c dev i \<longleftrightarrow>
    (let r = bar_reg dev i; h = bar_reg dev (i + 1) in
     \<not> io_bar (c r) \<longrightarrow>
       hw r AND 15 = 0 \<and> c r AND NOT (hw r) AND NOT 15 = 0 \<and>
       (bar_type (c r) = 0 \<longrightarrow> hw r = 0 \<or> (\<exists>k \<in> {4..<32}. hw r = NOT (mask k))) \<and>
       (wide c dev i \<longrightarrow> c h AND NOT (hw h) = 0 \<and> (join (hw h) (hw r) = 0 \<or> (\<exists>k \<in> {4..<64}. join (hw h) (hw r) = NOT (mask k)))))"

section \<open>Probing changes nothing\<close>

lemma write_restore: "write_reg hw a (cfg s a) (write_reg hw a v s) = s"
proof -
  have "(x AND NOT h OR v AND h) AND NOT h OR x AND h = x" for x v h :: u32 by (rule bit_word_eqI) (auto simp: bit_simps)
  then show ?thesis by (simp add: write_reg_def)
qed

lemma write_reg_twist: "a \<noteq> b \<Longrightarrow> write_reg hw a v (write_reg hw b w s) = write_reg hw b w (write_reg hw a v s)"
  by (simp add: write_reg_def fun_upd_twist)

lemma write_reg_cfg: "cfg (write_reg hw a v s) b = (if b = a then (cfg s a AND NOT (hw a)) OR (v AND hw a) else cfg s b)"
  by (simp add: write_reg_def)

lemma write_reg_next [simp]: "mmio32_next (write_reg hw a v s) = mmio32_next s" "mmio64_next (write_reg hw a v s) = mmio64_next s"
  by (simp_all add: write_reg_def)

lemma ones_read:
  fixes c h :: u32
  assumes "c AND NOT h AND NOT 15 = 0" "h AND 15 = 0"
  shows "((c AND NOT h) OR (0xFFFFFFFF AND h)) AND NOT 15 = h"
proof -
  have "(0xFFFFFFFF :: u32) = - 1" by simp
  then have "((c AND NOT h) OR (0xFFFFFFFF AND h)) AND NOT 15 = (c AND NOT h AND NOT 15) OR (h AND NOT 15)"
    by (simp only:) (rule bit_word_eqI, auto simp: bit_simps)
  also have "h AND NOT 15 = (h AND NOT 15) OR (h AND 15)" using assms(2) by simp
  also have "\<dots> = h" by (rule bit_word_eqI) (auto simp: bit_simps)
  finally show ?thesis using assms(1) by simp
qed

lemma bar_size_32:
  assumes "c AND NOT h AND NOT 15 = 0" "h AND 15 = 0" "h = hw (bar_reg dev i)" "c = cfg s (bar_reg dev i)"
  shows "pci_get_bar_size hw (d_bus dev) (d_slot dev) (d_func dev) (bar_offset i) s = (if h = 0 then 0 else NOT h + 1, s)"
  using ones_read [OF assms(1,2)] assms(3,4)
  by (simp add: pci_get_bar_size_def pci_config_read32_def pci_config_write32_def bar_reg_def [symmetric] Let_def write_restore write_reg_cfg)

lemma ucast_and_not_15: "(ucast x :: u64) AND NOT 15 = ucast (x AND NOT 15)" for x :: u32
proof -
  have "(15 :: u64) = mask 4" "(15 :: u32) = mask 4" by (simp_all add: mask_eq_exp_minus_1)
  then show ?thesis by (simp only:) (rule bit_word_eqI, auto simp: bit_simps dest: bit_imp_le_length)
qed

lemma bar_size_64:
  assumes "c AND NOT h AND NOT 15 = 0" "h AND 15 = 0" "h = hw (bar_reg dev i)" "c = cfg s (bar_reg dev i)"
    and "cfg s (bar_reg dev (i + 1)) AND NOT (hw (bar_reg dev (i + 1))) = 0" and ne: "bar_reg dev (i + 1) \<noteq> bar_reg dev i"
  shows "pci_get_bar_size64 hw (d_bus dev) (d_slot dev) (d_func dev) (bar_offset i) (bar_offset (i + 1)) s =
    (NOT (join (hw (bar_reg dev (i + 1))) h) + 1, s)"
proof -
  let ?lo = "bar_reg dev i" and ?hi = "bar_reg dev (i + 1)"
  define s2 where "s2 = write_reg hw ?hi 0xFFFFFFFF (write_reg hw ?lo 0xFFFFFFFF s)"
  have ones: "0xFFFFFFFF AND x = x" for x :: u32 proof -
    have m: "(0xFFFFFFFF :: u32) = - 1" by simp
    show "0xFFFFFFFF AND x = x" unfolding m by simp
  qed
  have f1: "cfg s2 ?hi = hw ?hi" using ne assms(5) by (simp add: s2_def write_reg_cfg ones)
  have f2: "cfg s2 ?lo AND NOT 15 = h" using ones_read [OF assms(1,2)] ne assms(3,4) by (simp add: s2_def write_reg_cfg)
  have f3: "write_reg hw ?hi (cfg s ?hi) (write_reg hw ?lo (cfg s ?lo) s2) = s"
  proof -
    have "write_reg hw ?lo (cfg s ?lo) s2 = write_reg hw ?hi 0xFFFFFFFF s"
      unfolding s2_def using write_reg_twist [OF ne [symmetric]] write_restore by metis
    then show ?thesis using write_restore by simp
  qed
  show ?thesis
    unfolding pci_get_bar_size64_def pci_config_read32_def pci_config_write32_def bar_reg_def [symmetric] Let_def
      s2_def [symmetric] ucast_and_not_15 f1 f2 f3 join_def ..
qed

section \<open>Placing one BAR\<close>

lemma dvd_bits: "2 ^ k dvd unat x \<Longrightarrow> bit x n \<Longrightarrow> k \<le> n" for x :: "'a :: len word"
proof (rule ccontr)
  assume x: "2 ^ k dvd unat x" "bit x n" "\<not> k \<le> n"
  then have "take_bit k (unat x) = 0" by (simp add: take_bit_eq_mod)
  moreover have "bit (unat x) n" using x(2) by (simp add: bit_unsigned_iff bit_imp_le_length)
  ultimately show False using x(3) bit_take_bit_iff [of k "unat x" n] by simp
qed

lemma and_not_mask_id: "2 ^ k dvd unat x \<Longrightarrow> x AND NOT (mask k) = x" for x :: "'a :: len word"
  by (rule bit_word_eqI) (auto simp: bit_simps dest: dvd_bits)

lemma size_of_mask: "NOT (NOT (mask k)) + 1 = (2 ^ k :: 'a :: len word)"
  by (simp add: mask_eq_exp_minus_1)

lemma bar_written:
  fixes c h v :: u32
  assumes "c AND NOT h AND NOT 15 = 0" "h AND 15 = 0"
  shows "((c AND NOT h) OR (v AND h)) AND NOT 15 = v AND h"
proof -
  have "((c AND NOT h) OR (v AND h)) AND NOT 15 = (c AND NOT h AND NOT 15) OR (v AND (h AND NOT 15))"
    by (rule bit_word_eqI) (auto simp: bit_simps)
  moreover have "h AND NOT 15 = h"
  proof -
    have "h = (h AND NOT 15) OR (h AND 15)" by (rule bit_word_eqI) (auto simp: bit_simps)
    then show ?thesis using assms(2) by simp
  qed
  ultimately show ?thesis using assms(1) by simp
qed

lemma kind_fixed:
  fixes c h v :: u32
  assumes "h AND 15 = 0"
  shows "io_bar ((c AND NOT h) OR (v AND h)) = io_bar c" "bar_type ((c AND NOT h) OR (v AND h)) = bar_type c"
proof -
  have m: "(15 :: u32) = mask 4" "(1 :: u32) = mask 1" "(3 :: u32) = mask 2" by (simp_all add: mask_eq_exp_minus_1)
  have k: "w AND 1 = (w AND 15) AND 1" "drop_bit 1 w AND 3 = drop_bit 1 (w AND 15) AND 3" for w :: u32
    unfolding m by (rule bit_word_eqI, auto simp: bit_simps)+
  have "((c AND NOT h) OR (v AND h)) AND 15 = (c AND 15 AND NOT (h AND 15)) OR (v AND (h AND 15))"
    unfolding m by (rule bit_word_eqI) (auto simp: bit_simps)
  then have e: "((c AND NOT h) OR (v AND h)) AND 15 = c AND 15" using assms by simp
  show "io_bar ((c AND NOT h) OR (v AND h)) = io_bar c" by (metis e k(1))
  show "bar_type ((c AND NOT h) OR (v AND h)) = bar_type c" by (metis e k(2))
qed

lemma join_and: "join (x AND hi) (y AND lo) = join x y AND join hi lo"
  unfolding join_def by (rule bit_word_eqI) (auto simp: bit_simps dest: bit_imp_le_length)

lemma join_split: "join (ucast (drop_bit 32 a)) (ucast (a AND 0xFFFFFFFF)) = a"
proof -
  have m: "(0xFFFFFFFF :: u64) = mask 32" by (simp add: mask_eq_exp_minus_1)
  show ?thesis unfolding m join_def by (rule bit_word_eqI) (auto simp: bit_simps)
qed

text \<open>The invariant: every BAR placed so far decodes a range below the next address of its window, and
  no two ranges meet.\<close>

definition apart :: "(nat \<times> nat) option \<Rightarrow> (nat \<times> nat) option \<Rightarrow> bool" where
  "apart x y \<longleftrightarrow> (case (x, y) of (Some (b, z), Some (b', z')) \<Rightarrow> b + z \<le> b' \<or> b' + z' \<le> b | _ \<Rightarrow> True)"

definition in_window :: "nat \<Rightarrow> nat \<Rightarrow> nat \<Rightarrow> nat \<Rightarrow> nat \<times> nat \<Rightarrow> bool" where
  "in_window lo32 hi32 lo64 hi64 r \<longleftrightarrow> (case r of (b, z) \<Rightarrow> 0 < z \<and> z dvd b \<and>
     (lo32 \<le> b \<and> b + z \<le> hi32 \<and> b + z \<le> unat PCI_MMIO32_LIMIT + 1 \<or> lo64 \<le> b \<and> b + z \<le> hi64 \<and> b + z \<le> unat PCI_MMIO64_LIMIT + 1))"

definition bars_inv :: "wmask \<Rightarrow> pci \<Rightarrow> (pci_device \<times> nat) list \<Rightarrow> bool" where
  "bars_inv hw s H \<longleftrightarrow>
    unat PCI_MMIO32_PHYS \<le> unat (mmio32_next s) \<and> unat (mmio32_next s) \<le> 2 ^ 63 \<and>
    unat PCI_MMIO64_PHYS \<le> unat (mmio64_next s) \<and> unat (mmio64_next s) \<le> 2 ^ 63 \<and>
    (\<forall>(d, i) \<in> set H. \<forall>r. region hw (cfg s) d i = Some r \<longrightarrow>
       in_window (unat PCI_MMIO32_PHYS) (unat (mmio32_next s)) (unat PCI_MMIO64_PHYS) (unat (mmio64_next s)) r) \<and>
    sorted_wrt (\<lambda>(d, i) (d', j). apart (region hw (cfg s) d i) (region hw (cfg s) d' j)) H"

lemma bars_inv_snoc:
  assumes i: "bars_inv hw s H"
    and same: "\<And>d j. (d, j) \<in> set H \<Longrightarrow> region hw (cfg s') d j = region hw (cfg s) d j"
    and n: "unat (mmio32_next s) \<le> unat (mmio32_next s')" "unat (mmio32_next s') \<le> 2 ^ 63" "unat (mmio64_next s) \<le> unat (mmio64_next s')" "unat (mmio64_next s') \<le> 2 ^ 63"
    and new: "\<And>r. region hw (cfg s') dev k = Some r \<Longrightarrow>
      in_window (unat (mmio32_next s)) (unat (mmio32_next s')) (unat (mmio64_next s)) (unat (mmio64_next s')) r"
  shows "bars_inv hw s' (H @ [(dev, k)])"
proof -
  have lo: "unat PCI_MMIO32_PHYS \<le> unat (mmio32_next s)" "unat PCI_MMIO64_PHYS \<le> unat (mmio64_next s)" using i by (simp_all add: bars_inv_def)
  have old: "in_window (unat PCI_MMIO32_PHYS) (unat (mmio32_next s)) (unat PCI_MMIO64_PHYS) (unat (mmio64_next s)) r"
    if "(d, j) \<in> set H" "region hw (cfg s') d j = Some r" for d j r
    using i that same [OF that(1)] by (cases r) (fastforce simp: bars_inv_def)
  have w: "unat PCI_MMIO32_LIMIT + 1 \<le> unat PCI_MMIO64_PHYS" by simp
  have ap: "apart (region hw (cfg s') d j) (region hw (cfg s') dev k)" if "(d, j) \<in> set H" for d j
  proof (cases "region hw (cfg s') d j"; cases "region hw (cfg s') dev k")
    fix r q assume r: "region hw (cfg s') d j = Some r" "region hw (cfg s') dev k = Some q"
    then show ?thesis using old [OF that r(1)] new [OF r(2)] lo w
      by (cases r; cases q) (auto simp: apart_def in_window_def)
  qed (simp_all add: apart_def split: option.splits)
  have "sorted_wrt (\<lambda>(d, i) (d', j). apart (region hw (cfg s) d i) (region hw (cfg s) d' j)) H" using i by (simp add: bars_inv_def)
  then have "sorted_wrt (\<lambda>(d, i) (d', j). apart (region hw (cfg s') d i) (region hw (cfg s') d' j)) H"
    by (rule sorted_wrt_mono_rel [rotated]) (auto simp: same)
  then have so: "sorted_wrt (\<lambda>(d, i) (d', j). apart (region hw (cfg s') d i) (region hw (cfg s') d' j)) (H @ [(dev, k)])"
    using ap by (auto simp: sorted_wrt_append)
  have win: "in_window (unat PCI_MMIO32_PHYS) (unat (mmio32_next s')) (unat PCI_MMIO64_PHYS) (unat (mmio64_next s')) r"
    if "(d, j) \<in> set (H @ [(dev, k)])" "region hw (cfg s') d j = Some r" for d j r
    using that old [of d j r] new [of r] lo n by (cases r) (auto simp: in_window_def)
  show ?thesis unfolding bars_inv_def using lo n so win by auto
qed

section \<open>Placing all BARs\<close>

lemma region_cong:
  "c' (bar_reg dev i) = c (bar_reg dev i) \<Longrightarrow> (wide c dev i \<Longrightarrow> c' (bar_reg dev (i + 1)) = c (bar_reg dev (i + 1))) \<Longrightarrow>
    region hw c' dev i = region hw c dev i"
  by (auto simp: region_def wide_def Let_def)

lemma wide_cong: "c' (bar_reg dev i) = c (bar_reg dev i) \<Longrightarrow> wide c' dev i = wide c dev i"
  by (simp add: wide_def)

text \<open>A 32-bit BAR.\<close>

lemma place_32:
  assumes sp: "bar_spec hw (cfg s) dev i" and m: "\<not> io_bar (cfg s (bar_reg dev i))" "bar_type (cfg s (bar_reg dev i)) = 0"
    and nz: "hw (bar_reg dev i) \<noteq> 0" and n: "unat (mmio32_next s) \<le> 2 ^ 63"
    and a: "alloc_mmio32 (NOT (hw (bar_reg dev i)) + 1) s = (addr, s2)"
  defines "s3 \<equiv> write_reg hw (bar_reg dev i) (ucast addr) s2"
  shows "NOT (hw (bar_reg dev i)) + 1 \<noteq> 0" "NOT (hw (bar_reg dev i)) + 1 \<noteq> 0xFFFFFFFF"
    "mmio64_next s3 = mmio64_next s" "unat (mmio32_next s) \<le> unat (mmio32_next s3)" "unat (mmio32_next s3) \<le> 2 ^ 63"
    "\<And>x. x \<noteq> bar_reg dev i \<Longrightarrow> cfg s3 x = cfg s x"
    "io_bar (cfg s3 (bar_reg dev i)) = io_bar (cfg s (bar_reg dev i))" "bar_type (cfg s3 (bar_reg dev i)) = bar_type (cfg s (bar_reg dev i))"
    "region hw (cfg s3) dev i = Some r \<Longrightarrow> in_window (unat (mmio32_next s)) (unat (mmio32_next s3)) (unat (mmio64_next s)) (unat (mmio64_next s3)) r \<and> unat addr = fst r"
proof -
  let ?r = "bar_reg dev i"
  have sp': "hw ?r AND 15 = 0" "cfg s ?r AND NOT (hw ?r) AND NOT 15 = 0" using sp m by (simp_all add: bar_spec_def Let_def)
  obtain k where k: "4 \<le> k" "k < 32" "hw ?r = NOT (mask k)" using sp m nz by (auto simp: bar_spec_def Let_def)
  have sz: "NOT (hw ?r) + 1 = 2 ^ k" unfolding k(3) by (rule size_of_mask)
  have p: "unat (2 ^ k :: u32) = 2 ^ k" using k unat_of_nat_32 [of "2 ^ k"] power_strict_increasing [of k 32 "2::nat"] by simp
  have u: "ucast (2 ^ k :: u32) = (2 ^ k :: u64)"
    using k p unat_power_64 [of k] power_strict_increasing [of k 32 "2::nat"] by (simp add: word_unat_eq_iff unsigned_ucast_eq take_bit_nat_eq_self)
  obtain n' where w: "alloc_window PCI_MMIO32_LIMIT (2 ^ k) (mmio32_next s) = (addr, n')" "s2 = s\<lparr>mmio32_next := n'\<rparr>"
    using a unfolding sz alloc_mmio32_def u by (auto simp: Let_def split: prod.splits)
  have k64: "k < 64" using k by simp
  have lim: "unat PCI_MMIO32_LIMIT < 2 ^ 63" by simp
  note W = alloc_window_result [OF k64 n lim w(1)]
  show "NOT (hw ?r) + 1 \<noteq> 0" unfolding sz using p by (metis power_not_zero unat_0 zero_neq_numeral)
  show "NOT (hw ?r) + 1 \<noteq> 0xFFFFFFFF"
    unfolding sz using p k power_increasing [of k 31 "2 :: nat"] by (auto simp: word_unat_eq_iff)
  show "mmio64_next s3 = mmio64_next s" "unat (mmio32_next s) \<le> unat (mmio32_next s3)" "unat (mmio32_next s3) \<le> 2 ^ 63"
    using W w(2) by (simp_all add: s3_def)
  show "cfg s3 x = cfg s x" if "x \<noteq> ?r" for x using that w(2) by (simp add: s3_def write_reg_cfg)
  have c: "cfg s3 ?r = (cfg s ?r AND NOT (hw ?r)) OR (ucast addr AND hw ?r)" using w(2) by (simp add: s3_def write_reg_cfg)
  show kk: "io_bar (cfg s3 ?r) = io_bar (cfg s ?r)" "bar_type (cfg s3 ?r) = bar_type (cfg s ?r)"
    unfolding c by (rule kind_fixed [OF sp'(1)])+
  have b: "cfg s3 ?r AND NOT 15 = ucast addr AND hw ?r" unfolding c by (rule bar_written [OF sp'(2,1)])
  assume R: "region hw (cfg s3) dev i = Some r"
  then have nz': "cfg s3 ?r AND NOT 15 \<noteq> 0" and r: "r = (unat (cfg s3 ?r AND NOT 15), unat (NOT (hw ?r) + 1))"
    using kk m by (auto simp: region_def Let_def split: if_splits)
  have "addr \<noteq> 0" using nz' b by auto
  then have ok: "2 ^ k dvd unat addr" "unat (mmio32_next s) \<le> unat addr" "unat n' = unat addr + 2 ^ k" "unat n' \<le> unat PCI_MMIO32_LIMIT + 1"
    using W by auto
  have "unat (ucast addr :: u32) = unat addr" using ok(3,4) by (simp add: unat_ucast_64_32)
  then have "ucast addr AND hw ?r = (ucast addr :: u32)" unfolding k(3) using ok(1) by (intro and_not_mask_id) simp
  then have "r = (unat addr, 2 ^ k)" using r b \<open>unat (ucast addr :: u32) = unat addr\<close> sz p by simp
  then show "in_window (unat (mmio32_next s)) (unat (mmio32_next s3)) (unat (mmio64_next s)) (unat (mmio64_next s3)) r \<and> unat addr = fst r"
    using ok w(2) by (simp add: in_window_def s3_def)
qed

text \<open>A 64-bit BAR.\<close>

lemma place_64:
  assumes sp: "bar_spec hw (cfg s) dev i" and wd: "wide (cfg s) dev i" and ne: "bar_reg dev (i + 1) \<noteq> bar_reg dev i"
  defines "J \<equiv> join (hw (bar_reg dev (i + 1))) (hw (bar_reg dev i))"
  assumes nz: "J \<noteq> 0" and n: "unat (mmio64_next s) \<le> 2 ^ 63"
    and a: "alloc_mmio64 (NOT J + 1) s = (addr, s2)"
  defines "s4 \<equiv> write_reg hw (bar_reg dev (i + 1)) (ucast (drop_bit 32 addr)) (write_reg hw (bar_reg dev i) (ucast (addr AND 0xFFFFFFFF)) s2)"
  shows "NOT J + 1 \<noteq> 0" "mmio32_next s4 = mmio32_next s" "unat (mmio64_next s) \<le> unat (mmio64_next s4)" "unat (mmio64_next s4) \<le> 2 ^ 63"
    "\<And>x. x \<noteq> bar_reg dev i \<Longrightarrow> x \<noteq> bar_reg dev (i + 1) \<Longrightarrow> cfg s4 x = cfg s x"
    "wide (cfg s4) dev i"
    "region hw (cfg s4) dev i = Some r \<Longrightarrow> in_window (unat (mmio32_next s)) (unat (mmio32_next s4)) (unat (mmio64_next s)) (unat (mmio64_next s4)) r \<and> unat addr = fst r"
proof -
  let ?r = "bar_reg dev i" and ?h = "bar_reg dev (i + 1)"
  have m: "\<not> io_bar (cfg s ?r)" "bar_type (cfg s ?r) = 2" "i + 1 < 6" using wd by (simp_all add: wide_def)
  have sp': "hw ?r AND 15 = 0" "cfg s ?r AND NOT (hw ?r) AND NOT 15 = 0" "cfg s ?h AND NOT (hw ?h) = 0"
    using sp m wd by (simp_all add: bar_spec_def Let_def)
  obtain k where k: "4 \<le> k" "k < 64" "J = NOT (mask k)" using sp m wd nz by (auto simp: bar_spec_def Let_def J_def)
  have sz: "NOT J + 1 = 2 ^ k" unfolding k(3) by (rule size_of_mask)
  obtain n' where w: "alloc_window PCI_MMIO64_LIMIT (2 ^ k) (mmio64_next s) = (addr, n')" "s2 = s\<lparr>mmio64_next := n'\<rparr>"
    using a unfolding sz alloc_mmio64_def by (auto simp: Let_def split: prod.splits)
  have lim: "unat PCI_MMIO64_LIMIT < 2 ^ 63" by simp
  note W = alloc_window_result [OF k(2) n lim w(1)]
  show "NOT J + 1 \<noteq> 0" unfolding sz using unat_power_64 [OF k(2)] by (metis power_not_zero unat_0 zero_neq_numeral)
  show "mmio32_next s4 = mmio32_next s" "unat (mmio64_next s) \<le> unat (mmio64_next s4)" "unat (mmio64_next s4) \<le> 2 ^ 63"
    using W w(2) by (simp_all add: s4_def)
  show "cfg s4 x = cfg s x" if "x \<noteq> ?r" "x \<noteq> ?h" for x using that w(2) by (simp add: s4_def write_reg_cfg)
  have c: "cfg s4 ?r = (cfg s ?r AND NOT (hw ?r)) OR (ucast (addr AND 0xFFFFFFFF) AND hw ?r)" "cfg s4 ?h = ucast (drop_bit 32 addr) AND hw ?h"
    using w(2) ne sp'(3) by (simp_all add: s4_def write_reg_cfg)
  have kk: "io_bar (cfg s4 ?r) = io_bar (cfg s ?r)" "bar_type (cfg s4 ?r) = bar_type (cfg s ?r)"
    unfolding c by (rule kind_fixed [OF sp'(1)])+
  then show wd': "wide (cfg s4) dev i" using m by (simp add: wide_def)
  have b: "cfg s4 ?r AND NOT 15 = ucast (addr AND 0xFFFFFFFF) AND hw ?r" unfolding c by (rule bar_written [OF sp'(2,1)])
  have j: "join (cfg s4 ?h) (cfg s4 ?r AND NOT 15) = addr AND J" unfolding b c(2) join_and join_split J_def ..
  assume R: "region hw (cfg s4) dev i = Some r"
  then have nz': "addr AND J \<noteq> 0" and r: "r = (unat (addr AND J), unat (NOT J + 1))"
    using kk m wd' unfolding region_def Let_def j J_def [symmetric] by (auto split: if_splits)
  have "addr \<noteq> 0" using nz' by auto
  then have ok: "2 ^ k dvd unat addr" "unat (mmio64_next s) \<le> unat addr" "unat n' = unat addr + 2 ^ k" "unat n' \<le> unat PCI_MMIO64_LIMIT + 1"
    using W by auto
  have "addr AND J = addr" unfolding k(3) using ok(1) by (rule and_not_mask_id)
  then have "r = (unat addr, 2 ^ k)" using r sz unat_power_64 [OF k(2)] by simp
  then show "in_window (unat (mmio32_next s)) (unat (mmio32_next s4)) (unat (mmio64_next s)) (unat (mmio64_next s4)) r \<and> unat addr = fst r"
    using ok w(2) by (simp add: in_window_def s4_def)
qed

text \<open>One round of the loop, as one transition that adds a BAR.\<close>

definition bar_regs :: "pci_device \<Rightarrow> nat \<Rightarrow> u64 set" where
  "bar_regs dev i = bar_reg dev ` {i..<6}"

definition clear_of :: "(u64 \<Rightarrow> u32) \<Rightarrow> (pci_device \<times> nat) list \<Rightarrow> u64 set \<Rightarrow> bool" where
  "clear_of c H A \<longleftrightarrow> (\<forall>(d, j) \<in> set H. bar_reg d j \<notin> A \<and> (wide c d j \<longrightarrow> bar_reg d (j + 1) \<notin> A))"

definition assigned :: "wmask \<Rightarrow> pci \<Rightarrow> pci_device \<Rightarrow> nat \<Rightarrow> bool" where
  "assigned hw s dev j \<longleftrightarrow> (\<forall>r. region hw (cfg s) dev j = Some r \<longrightarrow> unat (bar_addr dev j) = fst r)"

lemma bar_reg_set_bar [simp]: "bar_reg (set_bar i a dev) j = bar_reg dev j" "wide c (set_bar i a dev) j = wide c dev j"
    "region hw c (set_bar i a dev) j = region hw c dev j" "bdf (set_bar i a dev) = bdf dev" "on_bus (set_bar i a dev) = on_bus dev"
  by (simp_all add: set_bar_def bar_reg_def wide_def region_def bdf_def on_bus_def Let_def)

definition bar_round :: "wmask \<Rightarrow> nat \<Rightarrow> pci_device \<Rightarrow> pci \<Rightarrow> pci_device \<Rightarrow> pci \<Rightarrow> bool" where
  "bar_round hw i dev s dev1 s1 \<longleftrightarrow>
    (\<exists>a. dev1 = dev \<or> dev1 = set_bar i a dev) \<and> wide (cfg s1) dev i = wide (cfg s) dev i \<and>
    (\<forall>x. x \<noteq> bar_reg dev i \<longrightarrow> (wide (cfg s) dev i \<longrightarrow> x \<noteq> bar_reg dev (i + 1)) \<longrightarrow> cfg s1 x = cfg s x) \<and>
    unat (mmio32_next s) \<le> unat (mmio32_next s1) \<and> unat (mmio32_next s1) \<le> 2 ^ 63 \<and>
    unat (mmio64_next s) \<le> unat (mmio64_next s1) \<and> unat (mmio64_next s1) \<le> 2 ^ 63 \<and>
    (\<forall>r. region hw (cfg s1) dev i = Some r \<longrightarrow> unat (bar_addr dev1 i) = fst r \<and>
       in_window (unat (mmio32_next s)) (unat (mmio32_next s1)) (unat (mmio64_next s)) (unat (mmio64_next s1)) r)"

lemma round_narrow:
  assumes i: "i < 6" and sp: "bar_spec hw (cfg s) dev i" and m: "\<not> io_bar (cfg s (bar_reg dev i))" "bar_type (cfg s (bar_reg dev i)) = 0"
    and n: "unat (mmio32_next s) \<le> 2 ^ 63" "unat (mmio64_next s) \<le> 2 ^ 63"
  shows "\<exists>dev1 s1. assign_from hw i dev s = assign_from hw (i + 1) dev1 s1 \<and> bar_round hw i dev s dev1 s1"
proof -
  let ?r = "bar_reg dev i"
  note unf = assign_from.simps [of hw i dev s, unfolded pci_config_read32_def pci_config_write32_def Let_def, folded bar_reg_def]
  have sz: "pci_get_bar_size hw (d_bus dev) (d_slot dev) (d_func dev) (bar_offset i) s = (if hw ?r = 0 then 0 else NOT (hw ?r) + 1, s)"
    using sp m by (intro bar_size_32) (simp_all add: bar_spec_def Let_def)
  have nw: "\<not> wide (cfg s) dev i" using m by (simp add: wide_def)
  show ?thesis
  proof (cases "hw ?r = 0")
    case True
    then have "assign_from hw i dev s = assign_from hw (i + 1) (set_bar i 0 dev) s" using i m by (simp add: unf sz)
    moreover have "bar_round hw i dev s (set_bar i 0 dev) s" using True m n nw by (auto simp: bar_round_def region_def Let_def)
    ultimately show ?thesis by blast
  next
    case False
    obtain addr s2 where a: "alloc_mmio32 (NOT (hw ?r) + 1) s = (addr, s2)" by fastforce
    define s3 where "s3 = write_reg hw ?r (ucast addr) s2"
    note P = place_32 [OF sp m False n(1) a, folded s3_def]
    have "assign_from hw i dev s = assign_from hw (i + 1) (set_bar i addr dev) s3"
      using i m False P(1,2) by (simp add: unf sz a s3_def)
    moreover have "wide (cfg s3) dev i = wide (cfg s) dev i" using P(7,8) by (simp add: wide_def)
    then have "bar_round hw i dev s (set_bar i addr dev) s3"
      unfolding bar_round_def using P(3-6) P(9) n nw by (auto simp: set_bar_def)
    ultimately show ?thesis by blast
  qed
qed

lemma round_wide:
  assumes b: "on_bus dev" and sp: "bar_spec hw (cfg s) dev i" and m: "wide (cfg s) dev i"
    and n: "unat (mmio32_next s) \<le> 2 ^ 63" "unat (mmio64_next s) \<le> 2 ^ 63"
  shows "\<exists>dev1 s1. assign_from hw i dev s = assign_from hw (i + 2) dev1 s1 \<and> bar_round hw i dev s dev1 s1"
proof -
  let ?r = "bar_reg dev i" and ?h = "bar_reg dev (i + 1)"
  define J where "J = join (hw ?h) (hw ?r)"
  note unf = assign_from.simps [of hw i dev s, unfolded pci_config_read32_def pci_config_write32_def Let_def, folded bar_reg_def, unfolded bar_reg_Suc]
  have t: "\<not> io_bar (cfg s ?r)" "bar_type (cfg s ?r) = 2" "i + 1 < 6" using m by (simp_all add: wide_def)
  have ne: "?h \<noteq> ?r" using bar_reg_eq [OF b b, of "i + 1" i] t by simp
  have sz: "pci_get_bar_size64 hw (d_bus dev) (d_slot dev) (d_func dev) (bar_offset i) (bar_offset (i + 1)) s = (NOT J + 1, s)"
    unfolding J_def using sp t m ne by (intro bar_size_64) (simp_all add: bar_spec_def Let_def)
  show ?thesis
  proof (cases "J = 0")
    case True
    then have "assign_from hw i dev s = assign_from hw (i + 2) (set_bar i 0 dev) s" using t unf sz by simp
    moreover have "bar_round hw i dev s (set_bar i 0 dev) s" using True t n m by (auto simp: bar_round_def region_def Let_def J_def)
    ultimately show ?thesis by blast
  next
    case False
    obtain addr s2 where a: "alloc_mmio64 (NOT J + 1) s = (addr, s2)" by fastforce
    define s4 where "s4 = write_reg hw ?h (ucast (drop_bit 32 addr)) (write_reg hw ?r (ucast (addr AND 0xFFFFFFFF)) s2)"
    note P = place_64 [OF sp m ne, folded J_def, OF False n(2) a, folded s4_def]
    have "assign_from hw i dev s = assign_from hw (i + 2) (set_bar i addr dev) s4"
      using t False P(1) unf sz a by (simp add: s4_def)
    moreover have "bar_round hw i dev s (set_bar i addr dev) s4"
      unfolding bar_round_def using P(2-7) n m by (auto simp: set_bar_def)
    ultimately show ?thesis by blast
  qed
qed

lemma bar_round_step:
  assumes i: "i < 6" and b: "on_bus dev" and sp: "bar_spec hw (cfg s) dev i"
    and n: "unat (mmio32_next s) \<le> 2 ^ 63" "unat (mmio64_next s) \<le> 2 ^ 63"
  shows "\<exists>dev1 s1. assign_from hw i dev s = assign_from hw (if wide (cfg s) dev i then i + 2 else i + 1) dev1 s1 \<and> bar_round hw i dev s dev1 s1"
proof -
  let ?r = "bar_reg dev i" and ?h = "bar_reg dev (i + 1)"
  note unf = assign_from.simps [of hw i dev s, unfolded pci_config_read32_def pci_config_write32_def Let_def, folded bar_reg_def]
  consider (io) "io_bar (cfg s ?r)" | (narrow) "\<not> io_bar (cfg s ?r)" "bar_type (cfg s ?r) = 0"
    | (wide) "wide (cfg s) dev i" | (last) "\<not> io_bar (cfg s ?r)" "bar_type (cfg s ?r) = 2" "\<not> i + 1 < 6"
    | (other) "\<not> io_bar (cfg s ?r)" "bar_type (cfg s ?r) \<noteq> 0" "bar_type (cfg s ?r) \<noteq> 2"
    using wide_def by blast
  then show ?thesis
  proof cases
    case io
    then show ?thesis using i n by (auto simp: unf bar_round_def wide_def region_def Let_def)
  next
    case narrow
    then show ?thesis using round_narrow [OF i sp _ _ n] by (simp add: wide_def)
  next
    case wide
    then show ?thesis using round_wide [OF b sp _ n] by simp
  next
    case last
    then have "assign_from hw i dev s = assign_from hw (i + 1) (set_bar i 0 dev) s" using i by (simp add: unf)
    moreover have "bar_round hw i dev s (set_bar i 0 dev) s" using last i n by (auto simp: bar_round_def wide_def region_def Let_def)
    moreover have "\<not> wide (cfg s) dev i" using last by (simp add: wide_def)
    ultimately show ?thesis by auto
  next
    case other
    then show ?thesis using i n by (auto simp: unf bar_round_def wide_def region_def Let_def)
  qed
qed

lemma same_bdf: "bdf d = bdf d' \<Longrightarrow> bar_reg d = bar_reg d'" "bdf d = bdf d' \<Longrightarrow> on_bus d = on_bus d'"
  by (auto simp: bdf_def bar_reg_def on_bus_def)

lemma same_regs:
  assumes "bar_reg d = bar_reg d'"
  shows "wide c d = wide c d'" "region hw c d = region hw c d'" "bar_spec hw c d = bar_spec hw c d'" "heads c d = heads c d'" "bar_regs d = bar_regs d'"
proof -
  show w: "wide c d = wide c d'" by (rule ext) (simp add: wide_def assms)
  show "region hw c d = region hw c d'" by (rule ext) (unfold region_def assms w, rule refl)
  show "bar_spec hw c d = bar_spec hw c d'" by (rule ext) (unfold bar_spec_def assms w, rule refl)
  have "heads c d i = heads c d' i" for i
  proof (induction "6 - i" arbitrary: i rule: less_induct)
    case less
    show ?case by (cases "i < 6") (use less in \<open>simp_all add: heads.simps [of _ _ i] w\<close>)
  qed
  then show "heads c d = heads c d'" by (rule ext)
  show "bar_regs d = bar_regs d'" by (rule ext) (simp add: bar_regs_def assms)
qed

lemma heads_mem: "j \<in> set (heads c d i) \<Longrightarrow> i \<le> j \<and> j < 6"
proof (induction c d i rule: heads.induct)
  case (1 c d i)
  then show ?case by (subst (asm) (2) heads.simps) (fastforce split: if_splits)
qed

lemma heads_cong: "(\<And>x. x \<in> bar_regs d i \<Longrightarrow> c' x = c x) \<Longrightarrow> heads c' d i = heads c d i"
proof (induction c d i rule: heads.induct)
  case (1 c d i)
  show ?case
  proof (cases "i < 6")
    case True
    then have w: "wide c' d i = wide c d i" by (intro wide_cong 1(2)) (simp add: bar_regs_def)
    have "heads c' d (if wide c d i then i + 2 else i + 1) = heads c d (if wide c d i then i + 2 else i + 1)"
      by (rule 1(1) [OF True]) (auto intro!: 1(2) simp: bar_regs_def split: if_splits)
    then show ?thesis using True w by (simp add: heads.simps [of c d i] heads.simps [of c' d i])
  qed (simp add: heads.simps)
qed

lemma bar_spec_cong:
  assumes "\<And>x. x \<in> bar_regs d i \<Longrightarrow> c' x = c x" "i \<le> j" "j < 6"
  shows "bar_spec hw c' d j = bar_spec hw c d j"
proof -
  have "c' (bar_reg d j) = c (bar_reg d j)" "j + 1 < 6 \<Longrightarrow> c' (bar_reg d (j + 1)) = c (bar_reg d (j + 1))"
    using assms by (auto simp: bar_regs_def)
  then show ?thesis by (auto simp: bar_spec_def Let_def wide_def)
qed

lemma region_frame:
  assumes "\<And>x. x \<notin> A \<Longrightarrow> c' x = c x" "bar_reg d j \<notin> A" "wide c d j \<Longrightarrow> bar_reg d (j + 1) \<notin> A"
  shows "region hw c' d j = region hw c d j" "wide c' d j = wide c d j"
  using assms by (auto intro!: region_cong wide_cong)

lemma bar_reg_notin:
  assumes "on_bus d" "j < i" "j < 6"
  shows "bar_reg d j \<notin> bar_regs d i"
  using bar_reg_eq [OF assms(1,1)] assms(2,3) by (auto simp: bar_regs_def)

lemma assign_from_inv:
  assumes b: "on_bus d0"
  shows "bdf dev = bdf d0 \<Longrightarrow> bars_inv hw s H \<Longrightarrow> \<forall>j \<in> set (heads (cfg s) d0 i). bar_spec hw (cfg s) d0 j \<Longrightarrow>
    clear_of (cfg s) H (bar_regs d0 i) \<Longrightarrow>
    \<exists>dev' s'. assign_from hw i dev s = (dev', s') \<and> bdf dev' = bdf d0 \<and> bars_inv hw s' (H @ map (Pair d0) (heads (cfg s) d0 i)) \<and>
      heads (cfg s') d0 i = heads (cfg s) d0 i \<and> (\<forall>x. x \<notin> bar_regs d0 i \<longrightarrow> cfg s' x = cfg s x) \<and>
      (\<forall>j \<in> set (heads (cfg s) d0 i). \<forall>r. region hw (cfg s') d0 j = Some r \<longrightarrow> unat (bar_addr dev' j) = fst r) \<and>
      (\<forall>j < i. bar_addr dev' j = bar_addr dev j)"
proof (induction "6 - i" arbitrary: i dev s H rule: less_induct)
  case less
  show ?case
  proof (cases "i < 6")
    case False
    then show ?thesis using less.prems by (simp add: assign_from.simps heads.simps)
  next
    case True
    define i' where "i' = (if wide (cfg s) d0 i then i + 2 else i + 1)"
    have hd: "heads (cfg s) d0 i = i # heads (cfg s) d0 i'" using True by (simp add: heads.simps [of _ _ i] i'_def)
    have bd: "on_bus dev" and rg: "bar_reg dev = bar_reg d0" using same_bdf [OF less.prems(1)] b by simp_all
    note S = same_regs [OF rg]
    have n: "unat (mmio32_next s) \<le> 2 ^ 63" "unat (mmio64_next s) \<le> 2 ^ 63" using less.prems(2) by (simp_all add: bars_inv_def)
    have "bar_spec hw (cfg s) dev i" using less.prems(3) hd S(3) by simp
    from bar_round_step [OF True bd this n] obtain dev1 s1 where
      st: "assign_from hw i dev s = assign_from hw i' dev1 s1" "bar_round hw i dev s dev1 s1"
      using S(1) by (auto simp: i'_def)
    define A where "A = (if wide (cfg s) d0 i then {bar_reg d0 i, bar_reg d0 (i + 1)} else {bar_reg d0 i})"
    have A: "A \<subseteq> bar_regs d0 i" "bar_regs d0 i' \<subseteq> bar_regs d0 i" "A \<inter> bar_regs d0 i' = {}"
      using True bar_reg_notin [OF b, of i i'] bar_reg_notin [OF b, of "i + 1" i'] by (auto simp: A_def i'_def bar_regs_def wide_def)
    have fr: "\<And>x. x \<notin> A \<Longrightarrow> cfg s1 x = cfg s x" using st(2) rg S(1) by (auto simp: bar_round_def A_def)
    have d1: "bdf dev1 = bdf d0" "\<forall>j < i. bar_addr dev1 j = bar_addr dev j"
      using st(2) less.prems(1) by (auto simp: bar_round_def set_bar_def bdf_def)
    have cl: "(d, j) \<in> set H \<Longrightarrow> bar_reg d j \<notin> A" "(d, j) \<in> set H \<Longrightarrow> wide (cfg s) d j \<Longrightarrow> bar_reg d (j + 1) \<notin> A" for d j
      using less.prems(4) A(1) by (auto simp: clear_of_def)
    have inv1: "bars_inv hw s1 (H @ [(d0, i)])"
      using st(2) S(2) region_frame(1) [OF fr] cl by (intro bars_inv_snoc [OF less.prems(2)]) (auto simp: bar_round_def)
    have same: "\<And>x. x \<in> bar_regs d0 i' \<Longrightarrow> cfg s1 x = cfg s x" using fr A(3) by blast
    have hd1: "heads (cfg s1) d0 i' = heads (cfg s) d0 i'" using same by (rule heads_cong)
    have sp1: "\<forall>j \<in> set (heads (cfg s1) d0 i'). bar_spec hw (cfg s1) d0 j"
      using less.prems(3) hd hd1 bar_spec_cong [OF same] heads_mem by fastforce
    have w1: "wide (cfg s1) d0 i = wide (cfg s) d0 i" using st(2) S(1) by (simp add: bar_round_def)
    have cl1: "clear_of (cfg s1) (H @ [(d0, i)]) (bar_regs d0 i')"
      unfolding clear_of_def
    proof clarify
      fix d j assume "(d, j) \<in> set (H @ [(d0, i)])"
      then consider (old) "(d, j) \<in> set H" | (new) "d = d0" "j = i" by auto
      then show "bar_reg d j \<notin> bar_regs d0 i' \<and> (wide (cfg s1) d j \<longrightarrow> bar_reg d (j + 1) \<notin> bar_regs d0 i')"
      proof cases
        case old
        then have "wide (cfg s1) d j = wide (cfg s) d j" using wide_cong fr cl(1) by metis
        then show ?thesis using old less.prems(4) A(2) by (fastforce simp: clear_of_def)
      next
        case new
        then show ?thesis using A(3) w1 by (auto simp: A_def split: if_splits)
      qed
    qed
    have dec: "6 - i' < 6 - i" using True by (auto simp: i'_def)
    obtain dev' s' where IH: "assign_from hw i' dev1 s1 = (dev', s')" "bdf dev' = bdf d0"
        "bars_inv hw s' ((H @ [(d0, i)]) @ map (Pair d0) (heads (cfg s1) d0 i'))" "heads (cfg s') d0 i' = heads (cfg s1) d0 i'"
        "\<And>x. x \<notin> bar_regs d0 i' \<Longrightarrow> cfg s' x = cfg s1 x"
        "\<And>j r. j \<in> set (heads (cfg s1) d0 i') \<Longrightarrow> region hw (cfg s') d0 j = Some r \<Longrightarrow> unat (bar_addr dev' j) = fst r"
        "\<And>j. j < i' \<Longrightarrow> bar_addr dev' j = bar_addr dev1 j"
      using less.hyps [OF dec d1(1) inv1 sp1 cl1] by blast
    have fr': "\<And>x. x \<notin> bar_regs d0 i \<Longrightarrow> cfg s' x = cfg s x" using IH(5) fr A(1,2) by (metis subset_iff)
    have keep: "region hw (cfg s') d0 i = region hw (cfg s1) d0 i" "wide (cfg s') d0 i = wide (cfg s1) d0 i"
      using region_frame [where A = "bar_regs d0 i'" and c' = "cfg s'" and c = "cfg s1" and d = d0 and j = i, OF IH(5)] A(3) w1 by (auto simp: A_def split: if_splits)
    have first: "unat (bar_addr dev' i) = fst r" if "region hw (cfg s') d0 i = Some r" for r
      using that keep(1) st(2) S(2) IH(7) [of i] by (auto simp: bar_round_def i'_def)
    have hd': "heads (cfg s') d0 i = heads (cfg s) d0 i"
      using True keep(2) w1 IH(4) hd hd1 by (simp add: heads.simps [of "cfg s'" d0 i] i'_def)
    have early: "\<forall>j < i. bar_addr dev' j = bar_addr dev j" using IH(7) d1(2) by (simp add: i'_def)
    have all: "\<forall>j \<in> set (heads (cfg s) d0 i). \<forall>r. region hw (cfg s') d0 j = Some r \<longrightarrow> unat (bar_addr dev' j) = fst r"
      using first IH(6) hd hd1 by auto
    have "bars_inv hw s' (H @ map (Pair d0) (heads (cfg s) d0 i))" using IH(3) hd hd1 by simp
    then show ?thesis using st(1) IH(1,2) hd' fr' early all by auto
  qed
qed

text \<open>The drivers assign their devices one after the other.\<close>

fun assign_all :: "wmask \<Rightarrow> pci_device list \<Rightarrow> pci \<Rightarrow> pci_device list \<times> pci" where
  "assign_all hw [] s = ([], s)"
| "assign_all hw (d # ds) s =
    (let (d1, s1) = pci_assign_bars hw d s; (ds1, s2) = assign_all hw ds s1 in (d1 # ds1, s2))"

definition all_heads :: "(u64 \<Rightarrow> u32) \<Rightarrow> pci_device list \<Rightarrow> (pci_device \<times> nat) list" where
  "all_heads c ds = concat (map (\<lambda>d. map (Pair d) (heads c d 0)) ds)"

lemma bar_regs_disjoint: "on_bus d \<Longrightarrow> on_bus d' \<Longrightarrow> bdf d \<noteq> bdf d' \<Longrightarrow> bar_regs d i \<inter> bar_regs d' j = {}"
  using bar_reg_eq by (auto simp: bar_regs_def)

lemma assign_all_inv:
  assumes "\<forall>d \<in> set ds. on_bus d" "distinct (map bdf ds)"
    and "bars_inv hw s H" and "\<forall>(d, i) \<in> set (all_heads (cfg s) ds). bar_spec hw (cfg s) d i"
    and "clear_of (cfg s) H (\<Union>d \<in> set ds. bar_regs d 0)"
  shows "\<exists>ds' s'. assign_all hw ds s = (ds', s') \<and> map bdf ds' = map bdf ds \<and> bars_inv hw s' (H @ all_heads (cfg s) ds) \<and>
    all_heads (cfg s') ds = all_heads (cfg s) ds \<and> (\<forall>x. x \<notin> (\<Union>d \<in> set ds. bar_regs d 0) \<longrightarrow> cfg s' x = cfg s x) \<and>
    list_all2 (\<lambda>d d'. \<forall>j \<in> set (heads (cfg s) d 0). \<forall>r. region hw (cfg s') d j = Some r \<longrightarrow> unat (bar_addr d' j) = fst r) ds ds'"
  using assms
proof (induction ds arbitrary: s H)
  case Nil
  then show ?case by (simp add: all_heads_def)
next
  case (Cons d ds)
  let ?R = "\<Union>d \<in> set ds. bar_regs d 0"
  have b: "on_bus d" "\<forall>d \<in> set ds. on_bus d" "distinct (map bdf ds)" "bdf d \<notin> bdf ` set ds" using Cons.prems by auto
  have dj: "bar_regs d 0 \<inter> ?R = {}" using b bar_regs_disjoint [of d] by fastforce
  have ah: "all_heads c (d # ds) = map (Pair d) (heads c d 0) @ all_heads c ds" for c by (simp add: all_heads_def)
  have "\<forall>j \<in> set (heads (cfg s) d 0). bar_spec hw (cfg s) d j" "clear_of (cfg s) H (bar_regs d 0)"
    using Cons.prems(4,5) by (auto simp: ah clear_of_def)
  from assign_from_inv [OF b(1) refl Cons.prems(3) this] obtain d1 s1 where
    st: "assign_from hw 0 d s = (d1, s1)" "bdf d1 = bdf d" "bars_inv hw s1 (H @ map (Pair d) (heads (cfg s) d 0))"
      "heads (cfg s1) d 0 = heads (cfg s) d 0" "\<And>x. x \<notin> bar_regs d 0 \<Longrightarrow> cfg s1 x = cfg s x"
      "\<And>j r. j \<in> set (heads (cfg s) d 0) \<Longrightarrow> region hw (cfg s1) d j = Some r \<Longrightarrow> unat (bar_addr d1 j) = fst r"
    by blast
  have same: "heads (cfg s1) e 0 = heads (cfg s) e 0" if "e \<in> set ds" for e
    using that dj by (intro heads_cong st(5)) blast
  have ah1: "all_heads (cfg s1) ds = all_heads (cfg s) ds" using same by (simp add: all_heads_def cong: map_cong)
  have sp1: "\<forall>(e, i) \<in> set (all_heads (cfg s1) ds). bar_spec hw (cfg s1) e i"
  proof clarify
    fix e i assume a: "(e, i) \<in> set (all_heads (cfg s1) ds)"
    have e: "(e, i) \<in> set (all_heads (cfg s) ds)" using a unfolding ah1 .
    have e': "e \<in> set ds" "i < 6" using a by (auto simp: all_heads_def dest: heads_mem)
    have "bar_spec hw (cfg s1) e i = bar_spec hw (cfg s) e i" using dj e' by (intro bar_spec_cong [of e 0] st(5)) auto
    then show "bar_spec hw (cfg s1) e i" using Cons.prems(4) e by (auto simp: ah)
  qed
  have own: "bar_reg d j \<in> bar_regs d 0" "wide c d j \<Longrightarrow> bar_reg d (j + 1) \<in> bar_regs d 0" if "j \<in> set (heads (cfg s) d 0)" for j c
    using heads_mem [OF that] by (auto simp: bar_regs_def wide_def)
  have cl1: "clear_of (cfg s1) (H @ map (Pair d) (heads (cfg s) d 0)) ?R"
    unfolding clear_of_def
  proof clarify
    fix e j assume "(e, j) \<in> set (H @ map (Pair d) (heads (cfg s) d 0))"
    then consider (old) "(e, j) \<in> set H" | (new) "e = d" "j \<in> set (heads (cfg s) d 0)" by auto
    then show "bar_reg e j \<notin> ?R \<and> (wide (cfg s1) e j \<longrightarrow> bar_reg e (j + 1) \<notin> ?R)"
    proof cases
      case old
      then have c: "bar_reg e j \<notin> bar_regs d 0" "bar_reg e j \<notin> ?R" "wide (cfg s) e j \<longrightarrow> bar_reg e (j + 1) \<notin> ?R"
        using Cons.prems(5) by (auto simp: clear_of_def)
      then show ?thesis using wide_cong [of "cfg s1" e j "cfg s", OF st(5) [OF c(1)]] by blast
    next
      case new
      then show ?thesis using own(1) [OF new(2)] own(2) [OF new(2), of "cfg s1"] dj by blast
    qed
  qed
  from Cons.IH [OF b(2,3) st(3) sp1 cl1] obtain ds' s' where
    IH: "assign_all hw ds s1 = (ds', s')" "map bdf ds' = map bdf ds" "bars_inv hw s' ((H @ map (Pair d) (heads (cfg s) d 0)) @ all_heads (cfg s) ds)"
      "all_heads (cfg s') ds = all_heads (cfg s) ds" "\<And>x. x \<notin> ?R \<Longrightarrow> cfg s' x = cfg s1 x"
      "list_all2 (\<lambda>d d'. \<forall>j \<in> set (heads (cfg s1) d 0). \<forall>r. region hw (cfg s') d j = Some r \<longrightarrow> unat (bar_addr d' j) = fst r) ds ds'"
    unfolding ah1 by blast
  have hd: "heads (cfg s') d 0 = heads (cfg s) d 0" using st(4) heads_cong [of d 0 "cfg s'" "cfg s1"] IH(5) dj by auto
  have mine: "\<forall>j \<in> set (heads (cfg s) d 0). \<forall>r. region hw (cfg s') d j = Some r \<longrightarrow> unat (bar_addr d1 j) = fst r"
  proof clarify
    fix j z y assume j: "j \<in> set (heads (cfg s) d 0)" and "region hw (cfg s') d j = Some (z, y)"
    moreover have "region hw (cfg s') d j = region hw (cfg s1) d j" using own [OF j] dj by (intro region_frame(1) [of ?R] IH(5)) auto
    ultimately show "unat (bar_addr d1 j) = fst (z, y)" using st(6) by simp
  qed
  have rest: "list_all2 (\<lambda>d d'. \<forall>j \<in> set (heads (cfg s) d 0). \<forall>r. region hw (cfg s') d j = Some r \<longrightarrow> unat (bar_addr d' j) = fst r) ds ds'"
    using IH(6) same by (simp add: list_all2_conv_all_nth)
  have fr: "\<forall>x. x \<notin> (\<Union>d \<in> set (d # ds). bar_regs d 0) \<longrightarrow> cfg s' x = cfg s x" using IH(5) st(5) by simp
  have "assign_all hw (d # ds) s = (d1 # ds', s')" using st(1) IH(1) by (simp add: pci_assign_bars_def)
  then show ?case using st(2) IH(2-4) hd mine rest fr by (simp add: ah)
qed

text \<open>C27: After the drivers have assigned their devices, whatever the sizes of the BARs: no two memory BARs of all the devices decode a common address; every range is aligned to its size and lies inside the 32-bit or the 64-bit window; the address noted for the driver is the one the hardware decodes; and every register that is not a BAR of these devices has its old value, although sizing writes all ones to the BARs.\<close>
theorem pci_bars_disjoint:
  assumes "\<forall>d \<in> set ds. on_bus d" and "distinct (map bdf ds)"
    and "mmio32_next s = PCI_MMIO32_PHYS" and "mmio64_next s = PCI_MMIO64_PHYS"
    and "\<forall>(d, i) \<in> set (all_heads (cfg s) ds). bar_spec hw (cfg s) d i"
  shows "case assign_all hw ds s of (ds', s') \<Rightarrow>
    all_heads (cfg s') ds = all_heads (cfg s) ds \<and>
    sorted_wrt (\<lambda>(d, i) (d', j). apart (region hw (cfg s') d i) (region hw (cfg s') d' j)) (all_heads (cfg s') ds) \<and>
    (\<forall>(d, i) \<in> set (all_heads (cfg s') ds). \<forall>b z. region hw (cfg s') d i = Some (b, z) \<longrightarrow>
       0 < z \<and> z dvd b \<and> (0x10000000 \<le> b \<and> b + z \<le> 0x3EFF0000 \<or> 0x8000000000 \<le> b \<and> b + z \<le> 0x10000000000)) \<and>
    list_all2 (\<lambda>d d'. \<forall>j \<in> set (heads (cfg s) d 0). \<forall>r. region hw (cfg s') d j = Some r \<longrightarrow> unat (bar_addr d' j) = fst r) ds ds' \<and>
    (\<forall>x. x \<notin> (\<Union>d \<in> set ds. bar_regs d 0) \<longrightarrow> cfg s' x = cfg s x)"
proof -
  have "bars_inv hw s []" using assms(3,4) by (simp add: bars_inv_def)
  from assign_all_inv [OF assms(1,2) this assms(5)] obtain ds' s' where
    A: "assign_all hw ds s = (ds', s')" "bars_inv hw s' (all_heads (cfg s) ds)" "all_heads (cfg s') ds = all_heads (cfg s) ds"
      "\<forall>x. x \<notin> (\<Union>d \<in> set ds. bar_regs d 0) \<longrightarrow> cfg s' x = cfg s x"
      "list_all2 (\<lambda>d d'. \<forall>j \<in> set (heads (cfg s) d 0). \<forall>r. region hw (cfg s') d j = Some r \<longrightarrow> unat (bar_addr d' j) = fst r) ds ds'"
    by (auto simp: clear_of_def)
  have "\<forall>(d, i) \<in> set (all_heads (cfg s') ds). \<forall>b z. region hw (cfg s') d i = Some (b, z) \<longrightarrow>
      0 < z \<and> z dvd b \<and> (0x10000000 \<le> b \<and> b + z \<le> 0x3EFF0000 \<or> 0x8000000000 \<le> b \<and> b + z \<le> 0x10000000000)"
    using A(2) unfolding A(3) bars_inv_def by (fastforce simp: in_window_def)
  moreover have "sorted_wrt (\<lambda>(d, i) (d', j). apart (region hw (cfg s') d i) (region hw (cfg s') d' j)) (all_heads (cfg s') ds)"
    using A(2) unfolding A(3) bars_inv_def by blast
  ultimately show ?thesis using A by auto
qed

text \<open>Two devices, each with a 32-bit and a 64-bit BAR.\<close>

definition demo_dev :: "u8 \<Rightarrow> pci_device" where
  "demo_dev slot = \<lparr>d_bus = 0, d_slot = slot, d_func = 0, vendor_id = 0x1AF4, device_id = 0x1042, bar_addr = (\<lambda>_. 0)\<rparr>"

definition demo_wmask :: wmask where
  "demo_wmask a =
    (if a = 0x4010008014 \<or> a = 0x4010010014 then 0xFFFFF000
     else if a = 0x4010008020 \<or> a = 0x4010010020 then 0xFFFFC000
     else if a = 0x4010008024 \<or> a = 0x4010010024 then 0xFFFFFFFF else 0)"

definition demo_pci :: pci where
  "demo_pci = \<lparr>cfg = (\<lambda>a. if a = 0x4010008020 \<or> a = 0x4010010020 then 0xC else 0),
    pci_devices = [], mmio32_next = PCI_MMIO32_PHYS, mmio64_next = PCI_MMIO64_PHYS\<rparr>"

lemma demo_reg:
  "bar_reg (demo_dev 1) 0 = 0x4010008010" "bar_reg (demo_dev 1) (Suc 0) = 0x4010008014"
  "bar_reg (demo_dev 1) (Suc (Suc 0)) = 0x4010008018" "bar_reg (demo_dev 1) 2 = 0x4010008018"
  "bar_reg (demo_dev 1) (Suc (Suc (Suc 0))) = 0x401000801C" "bar_reg (demo_dev 1) 3 = 0x401000801C"
  "bar_reg (demo_dev 1) (Suc (Suc (Suc (Suc 0)))) = 0x4010008020" "bar_reg (demo_dev 1) 4 = 0x4010008020"
  "bar_reg (demo_dev 1) (Suc (Suc (Suc (Suc (Suc 0))))) = 0x4010008024" "bar_reg (demo_dev 1) 5 = 0x4010008024"
  "bar_reg (demo_dev 2) 0 = 0x4010010010" "bar_reg (demo_dev 2) (Suc 0) = 0x4010010014"
  "bar_reg (demo_dev 2) (Suc (Suc 0)) = 0x4010010018" "bar_reg (demo_dev 2) 2 = 0x4010010018"
  "bar_reg (demo_dev 2) (Suc (Suc (Suc 0))) = 0x401001001C" "bar_reg (demo_dev 2) 3 = 0x401001001C"
  "bar_reg (demo_dev 2) (Suc (Suc (Suc (Suc 0)))) = 0x4010010020" "bar_reg (demo_dev 2) 4 = 0x4010010020"
  "bar_reg (demo_dev 2) (Suc (Suc (Suc (Suc (Suc 0))))) = 0x4010010024" "bar_reg (demo_dev 2) 5 = 0x4010010024"
  by (simp_all add: bar_reg_def demo_dev_def pci_make_ecam_addr_def bar_offset_def)

lemma demo_heads: "heads (cfg demo_pci) (demo_dev 1) 0 = [0, 1, 2, 3, 4]" "heads (cfg demo_pci) (demo_dev 2) 0 = [0, 1, 2, 3, 4]"
  by (simp_all add: heads.simps wide_def demo_reg demo_pci_def)

lemma demo_spec:
  assumes "d = demo_dev 1 \<or> d = demo_dev 2" "i \<in> {0, 1, 2, 3, 4}"
  shows "bar_spec demo_wmask (cfg demo_pci) d i"
proof -
  have "\<exists>k \<in> {4..<32}. 0xFFFFF000 = (NOT (mask k) :: u32)" by (rule bexI [of _ 12]) (simp_all add: mask_eq_exp_minus_1)
  moreover have "\<exists>k \<in> {4..<64}. join 0xFFFFFFFF 0xFFFFC000 = NOT (mask k)" by (rule bexI [of _ 14]) (simp_all add: mask_eq_exp_minus_1 join_def)
  ultimately show ?thesis using assms by (auto simp: bar_spec_def wide_def demo_reg demo_wmask_def demo_pci_def)
qed

theorem pci_bars_disjoint_witness:
  "case assign_all demo_wmask [demo_dev 1, demo_dev 2] demo_pci of (ds', s') \<Rightarrow>
    all_heads (cfg s') [demo_dev 1, demo_dev 2] = all_heads (cfg demo_pci) [demo_dev 1, demo_dev 2] \<and>
    sorted_wrt (\<lambda>(d, i) (d', j). apart (region demo_wmask (cfg s') d i) (region demo_wmask (cfg s') d' j)) (all_heads (cfg s') [demo_dev 1, demo_dev 2]) \<and>
    (\<forall>(d, i) \<in> set (all_heads (cfg s') [demo_dev 1, demo_dev 2]). \<forall>b z. region demo_wmask (cfg s') d i = Some (b, z) \<longrightarrow>
       0 < z \<and> z dvd b \<and> (0x10000000 \<le> b \<and> b + z \<le> 0x3EFF0000 \<or> 0x8000000000 \<le> b \<and> b + z \<le> 0x10000000000)) \<and>
    list_all2 (\<lambda>d d'. \<forall>j \<in> set (heads (cfg demo_pci) d 0). \<forall>r. region demo_wmask (cfg s') d j = Some r \<longrightarrow> unat (bar_addr d' j) = fst r) [demo_dev 1, demo_dev 2] ds' \<and>
    (\<forall>x. x \<notin> (\<Union>d \<in> set [demo_dev 1, demo_dev 2]. bar_regs d 0) \<longrightarrow> cfg s' x = cfg demo_pci x)"
proof (rule pci_bars_disjoint)
  show "\<forall>d \<in> set [demo_dev 1, demo_dev 2]. on_bus d" "distinct (map bdf [demo_dev 1, demo_dev 2])"
    by (simp_all add: demo_dev_def on_bus_def bdf_def)
  show "mmio32_next demo_pci = PCI_MMIO32_PHYS" "mmio64_next demo_pci = PCI_MMIO64_PHYS" by (simp_all add: demo_pci_def)
  show "\<forall>(d, i) \<in> set (all_heads (cfg demo_pci) [demo_dev 1, demo_dev 2]). bar_spec demo_wmask (cfg demo_pci) d i"
    using demo_spec by (auto simp: all_heads_def demo_heads)
qed

text \<open>A BAR too large for its window leaves the next address past the limit, and no later BAR, however
  small, gets an address.\<close>

lemma oversized_bar_exhausts:
  "alloc_mmio32 0x40000000 demo_pci = (0, demo_pci\<lparr>mmio32_next := 0x40000000\<rparr>)"
  "fst (alloc_mmio32 4096 (demo_pci\<lparr>mmio32_next := 0x40000000\<rparr>)) = 0"
  by (simp_all add: alloc_mmio32_def alloc_window_def demo_pci_def)

section \<open>Enumeration finds the devices in bus order\<close>

definition dev_of :: "pci \<Rightarrow> nat \<times> nat \<times> nat \<Rightarrow> pci_device" where
  "dev_of s f = (case f of (bus, slot, func) \<Rightarrow>
    \<lparr>d_bus = of_nat bus, d_slot = of_nat slot, d_func = of_nat func,
     vendor_id = pci_config_read16 (of_nat bus) (of_nat slot) (of_nat func) 0x00 s,
     device_id = pci_config_read16 (of_nat bus) (of_nat slot) (of_nat func) 0x02 s, bar_addr = (\<lambda>_. 0)\<rparr>)"

definition present :: "pci \<Rightarrow> nat \<times> nat \<times> nat \<Rightarrow> bool" where
  "present s f = (vendor_id (dev_of s f) \<noteq> 0xFFFF)"

lemma read16_devices [simp]: "pci_config_read16 b sl f off (s\<lparr>pci_devices := ds\<rparr>) = pci_config_read16 b sl f off s"
  by (simp add: pci_config_read16_def pci_config_read32_def)

lemma dev_of_devices [simp]: "dev_of (s\<lparr>pci_devices := ds\<rparr>) = dev_of s" "present (s\<lparr>pci_devices := ds\<rparr>) = present s"
  by (rule ext, simp add: dev_of_def present_def split: prod.split)+

lemma enum_functions_devices:
  "length (pci_devices s) \<le> 16 \<Longrightarrow>
    enum_functions fs s = s\<lparr>pci_devices := pci_devices s @ take (16 - length (pci_devices s)) (map (dev_of s) (filter (present s) fs))\<rparr>"
proof (induction fs s rule: enum_functions.induct)
  case (2 bus slot func fs s)
  have v: "pci_config_read16 (of_nat bus) (of_nat slot) (of_nat func) 0x00 s = vendor_id (dev_of s (bus, slot, func))" by (simp add: dev_of_def)
  have d: "\<lparr>d_bus = of_nat bus, d_slot = of_nat slot, d_func = of_nat func, vendor_id = vendor_id (dev_of s (bus, slot, func)),
      device_id = pci_config_read16 (of_nat bus) (of_nat slot) (of_nat func) 0x02 s, bar_addr = (\<lambda>_. 0)\<rparr> = dev_of s (bus, slot, func)"
    by (simp add: dev_of_def)
  show ?case
  proof (cases "present s (bus, slot, func)")
    case False
    then show ?thesis using 2 by (simp add: v present_def)
  next
    case True
    show ?thesis
    proof (cases "length (pci_devices s) \<ge> 16")
      case full: True
      then show ?thesis using True 2(3) by (simp add: v present_def Let_def)
    next
      case False
      then have "16 - length (pci_devices s) = Suc (16 - Suc (length (pci_devices s)))" by simp
      then show ?thesis using True False 2(2) [OF refl, of "pci_config_read16 (of_nat bus) (of_nat slot) (of_nat func) 0x02 s"]
        by (simp add: v present_def Let_def d)
    qed
  qed
qed simp

lemma bus_order_mem: "(bus, slot, func) \<in> set bus_order \<longleftrightarrow> bus < 256 \<and> slot < 32 \<and> func < 8"
  unfolding bus_order_def by (auto simp: image_iff simp del: upt_rec_numeral)

text \<open>C39: Enumeration notes exactly the first sixteen functions that are present, in bus order with their identifiers, and changes nothing else; a search then gives the first of them with the identifiers asked for, or nothing.\<close>
theorem pci_enumerate_finds:
  "pci_enumerate_bus (s\<lparr>pci_devices := []\<rparr>) = s\<lparr>pci_devices := take 16 (map (dev_of s) (filter (present s) bus_order))\<rparr> \<and>
   pci_find_device v d (pci_enumerate_bus (s\<lparr>pci_devices := []\<rparr>)) =
     find (\<lambda>e. vendor_id e = v \<and> device_id e = d) (take 16 (map (dev_of s) (filter (present s) bus_order))) \<and>
   (\<forall>bus slot func. (bus, slot, func) \<in> set bus_order \<longleftrightarrow> bus < 256 \<and> slot < 32 \<and> func < 8)"
  using enum_functions_devices [of "s\<lparr>pci_devices := []\<rparr>" bus_order] bus_order_mem
  by (simp add: pci_enumerate_bus_def pci_find_device_def)

section \<open>Capability lists\<close>

text \<open>The list of a device that follows the specification: pointers to words of the upper part, ended by 0.\<close>

fun cap_list :: "pci_device \<Rightarrow> pci \<Rightarrow> u8 \<Rightarrow> u8 list \<Rightarrow> bool" where
  "cap_list dev s p [] \<longleftrightarrow> p = 0"
| "cap_list dev s p (q # ps) \<longleftrightarrow> q = p \<and> 0x40 \<le> p \<and> p AND 3 = 0 \<and> cap_list dev s (cap_byte dev (ucast p + 1) s) ps"

lemma cap_list_unique: "cap_list dev s p ps \<Longrightarrow> cap_list dev s p qs \<Longrightarrow> ps = qs"
proof (induction dev s p ps arbitrary: qs rule: cap_list.induct)
  case (1 dev s p)
  then show ?case by (cases qs) auto
next
  case (2 dev s p q ps)
  then show ?case by (cases qs) auto
qed

lemma cap_list_suffix: "cap_list dev s p (ps @ q # qs) \<Longrightarrow> cap_list dev s q (q # qs)"
  by (induction ps arbitrary: p) auto

lemma cap_list_distinct: "cap_list dev s p ps \<Longrightarrow> distinct ps"
proof (induction ps arbitrary: p)
  case (Cons q ps)
  have "q \<notin> set ps"
  proof
    assume "q \<in> set ps"
    then obtain xs ys where e: "ps = xs @ q # ys" by (meson split_list)
    have "cap_list dev s p ((q # xs) @ q # ys)" using Cons.prems unfolding e by (simp only: append_Cons)
    then have "cap_list dev s q (q # ys)" by (rule cap_list_suffix)
    moreover have "cap_list dev s q (q # ps)" using Cons.prems by simp
    ultimately have "q # ps = q # ys" by (rule cap_list_unique [rotated])
    then show False using e by simp
  qed
  then show ?case using Cons by auto
qed simp

lemma and3_iff: "q AND 3 = 0 \<longleftrightarrow> 4 dvd unat q" for q :: "'a :: len word"
proof -
  have m: "(3 :: 'a word) = mask 2" by (simp add: mask_eq_exp_minus_1)
  have "q AND 3 = 0 \<longleftrightarrow> unat (take_bit 2 q) = 0" unfolding m take_bit_eq_mask [symmetric] by (simp add: unat_eq_0)
  also have "unat (take_bit 2 q) = take_bit 2 (unat q)" by (rule unsigned_take_bit_eq)
  finally show ?thesis by (simp add: take_bit_eq_mod dvd_eq_mod_eq_0)
qed

text \<open>There are 48 such places, so the bound of the walk is never reached early.\<close>

lemma cap_list_length:
  assumes "cap_list dev s p ps"
  shows "length ps \<le> 48"
proof -
  have "\<forall>q \<in> set ps. 0x40 \<le> q \<and> q AND 3 = 0" using assms by (induction ps arbitrary: p) auto
  then have "\<forall>q \<in> set ps. unat q div 4 \<in> {16..<64} \<and> 4 dvd unat q"
    by (auto simp: and3_iff word_le_nat_alt less_eq_div_iff_mult_less_eq div_less_iff_less_mult intro: order_less_le_trans [OF unat_lt_8])
  moreover from this have "inj_on (\<lambda>q. unat q div 4) (set ps)"
    by (intro inj_onI) (metis dvd_div_mult_self word_unat_eq_iff)
  ultimately have "card (set ps) \<le> card {16..<64 :: nat}" by (intro card_inj_on_le) auto
  then show ?thesis using distinct_card [OF cap_list_distinct [OF assms]] by simp
qed

lemma low_bits_zero: "p AND 3 = 0 \<Longrightarrow> p AND 0xFC = p" for p :: u8
proof -
  assume p: "p AND 3 = 0"
  have "(0xFC :: u8) = NOT 3" by simp
  then have "p AND 0xFC = (p AND 0xFC) OR (p AND 3)" using p by simp
  also have "\<dots> = p AND (0xFC OR 3)" by (simp only: bit.conj_disj_distrib)
  also have "(0xFC OR 3 :: u8) = - 1" by simp
  finally show ?thesis by simp
qed

lemma cap_list_head: "cap_list dev s p ps \<Longrightarrow> p AND 0xFC = p"
  by (cases ps) (auto dest: low_bits_zero)

lemma cap_walk_list:
  "cap_list dev s p ps \<Longrightarrow> length ps \<le> n \<Longrightarrow>
    cap_walk n p cap_id dev s = (case find (\<lambda>q. cap_byte dev (ucast q) s = cap_id) ps of None \<Rightarrow> 0 | Some q \<Rightarrow> q)"
proof (induction ps arbitrary: n p)
  case Nil
  then show ?case by (cases n) auto
next
  case (Cons q ps)
  then obtain m where n: "n = Suc m" by (cases n) auto
  define nxt where "nxt = cap_byte dev (ucast p + 1) s"
  have q: "q = p" "0x40 \<le> p" "cap_list dev s nxt ps" using Cons.prems(1) by (auto simp: nxt_def)
  have w: "cap_walk m nxt cap_id dev s = (case find (\<lambda>q. cap_byte dev (ucast q) s = cap_id) ps of None \<Rightarrow> 0 | Some q \<Rightarrow> q)"
    using Cons.IH [OF q(3)] Cons.prems(2) n by simp
  have z: "nxt = 0 \<Longrightarrow> ps = []" using q(3) by (cases ps) auto
  show ?case using q w z cap_list_head [OF q(3)] n by (auto simp: nxt_def [symmetric] not_less)
qed

lemma cap_word_aligned:
  fixes p :: u8
  assumes "p AND 3 = 0" "k \<in> {8, 12, 16}"
  shows "\<exists>w. cap_word dev (ucast p + k) s = Some w"
proof -
  have u: "unat (ucast p :: u16) = unat p" using unat_lt_8 [of p] by (simp add: unsigned_ucast_eq take_bit_nat_eq_self)
  have "unat (ucast p + k) = unat p + unat k" using assms(2) u unat_lt_8 [of p] by (auto simp: unat_word_ariths)
  moreover have "4 dvd unat p" "4 dvd unat k" using assms by (auto simp: and3_iff)
  ultimately show ?thesis by (simp add: cap_word_def and3_iff)
qed

lemma populate_total: "p AND 3 = 0 \<Longrightarrow> \<exists>caps'. virtio_populate_capabilities dev caps p s = Some caps'"
proof -
  assume p: "p AND 3 = 0"
  obtain o1 o2 o3 where "cap_word dev (ucast p + 8) s = Some o1" "cap_word dev (ucast p + 12) s = Some o2" "cap_word dev (ucast p + 16) s = Some o3"
    using cap_word_aligned [OF p] by (metis insertCI)
  then show ?thesis by (simp add: virtio_populate_capabilities_def Let_def)
qed

lemma parse_from_list:
  "cap_list dev s p ps \<Longrightarrow> parse_from dev p caps s =
    Some (fold (\<lambda>q caps. the (virtio_populate_capabilities dev caps q s)) (filter (\<lambda>q. cap_byte dev (ucast q) s = 0x09) ps) caps)"
proof (induction ps arbitrary: p caps)
  case Nil
  then show ?case by (simp add: parse_from.simps)
next
  case (Cons q ps)
  define nxt where "nxt = cap_byte dev (ucast p + 1) s"
  have q: "q = p" "p \<noteq> 0" "p AND 3 = 0" "cap_list dev s nxt ps" using Cons.prems by (auto simp: nxt_def)
  obtain caps1 where c: "virtio_populate_capabilities dev caps p s = Some caps1" using populate_total [OF q(3)] by blast
  show ?case using Cons.IH [OF q(4)] q c by (simp add: parse_from.simps [of dev p] nxt_def [symmetric])
qed

text \<open>On a device whose capability list follows the specification, both walks return.  The bounded search gives the first capability with the identifier asked for, or 0; its bound of 48 steps is never what ends it.  The virtio walk processes exactly the vendor capabilities, in the order of the list.\<close>
theorem capability_walks_agree:
  assumes "has_caps dev s" and "cap_list dev s (cap_byte dev 0x34 s) ps"
  shows "pci_find_capability dev cap_id s = (case find (\<lambda>q. cap_byte dev (ucast q) s = cap_id) ps of None \<Rightarrow> 0 | Some q \<Rightarrow> q) \<and>
    length ps \<le> 48 \<and>
    virtio_parse_capabilities dev caps s =
      Some (fold (\<lambda>q caps. the (virtio_populate_capabilities dev caps q s)) (filter (\<lambda>q. cap_byte dev (ucast q) s = 0x09) ps) caps)"
  using assms cap_walk_list [OF assms(2) cap_list_length [OF assms(2)]] cap_list_length [OF assms(2)] parse_from_list [OF assms(2)] cap_list_head [OF assms(2)]
  by (simp add: pci_find_capability_def virtio_parse_capabilities_def)

text \<open>A device with one virtio capability (common configuration, BAR 4) and an MSI-X capability.\<close>

definition demo_caps :: pci where
  "demo_caps = \<lparr>cfg = (\<lambda>a. if a = 0x4010008004 then 0x100000 else if a = 0x4010008034 then 0x40
      else if a = 0x4010008040 then 0x01105009 else if a = 0x4010008044 then 4 else if a = 0x4010008048 then 0x1000
      else if a = 0x4010008050 then 0x11 else 0),
    pci_devices = [], mmio32_next = PCI_MMIO32_PHYS, mmio64_next = PCI_MMIO64_PHYS\<rparr>"

lemma demo_caps_list: "has_caps (demo_dev 1) demo_caps" "cap_list (demo_dev 1) demo_caps (cap_byte (demo_dev 1) 0x34 demo_caps) [0x40, 0x50]"
  by (simp_all add: demo_caps_def demo_dev_def pci_config_read16_def pci_config_read8_def pci_config_read32_def pci_make_ecam_addr_def lane_def)

theorem capability_walks_agree_witness:
  "pci_find_capability (demo_dev 1) 0x11 demo_caps =
     (case find (\<lambda>q. cap_byte (demo_dev 1) (ucast q) demo_caps = 0x11) [0x40, 0x50] of None \<Rightarrow> 0 | Some q \<Rightarrow> q) \<and>
   length [0x40, 0x50 :: u8] \<le> 48 \<and>
   virtio_parse_capabilities (demo_dev 1) \<lparr>common_cfg = 0, notify_base = 0, isr_cfg = 0, device_cfg = 0, notify_off_multiplier = 0\<rparr> demo_caps =
     Some (fold (\<lambda>q caps. the (virtio_populate_capabilities (demo_dev 1) caps q demo_caps)) (filter (\<lambda>q. cap_byte (demo_dev 1) (ucast q) demo_caps = 0x09) [0x40, 0x50])
       \<lparr>common_cfg = 0, notify_base = 0, isr_cfg = 0, device_cfg = 0, notify_off_multiplier = 0\<rparr>)"
  by (rule capability_walks_agree [OF demo_caps_list])

text \<open>A list that comes back to itself ends the bounded search, but not the virtio walk.\<close>

lemma cyclic_list_hangs:
  assumes "p \<noteq> 0" "cap_byte dev (ucast p) s = 0x11" "cap_byte dev (ucast p + 1) s = p"
  shows "parse_from dev p caps s = None"
proof -
  have "\<not> (dev = dev \<and> p = p \<and> s = s)" if "parse_from dev p caps s = Some y" for y
    using that
    by (rule parse_from.raw_induct [where P = "\<lambda>dev' q caps s' y. \<not> (dev' = dev \<and> q = p \<and> s' = s)", rotated])
      (use assms in \<open>fastforce simp: Let_def\<close>)
  then show ?thesis by (cases "parse_from dev p caps s") auto
qed

end
