(* ===== verification/Virtqueue.thy ===== *)
theory Virtqueue
  imports Pmm
begin

unbundle bit_operations_syntax

text \<open>
  Split virtqueues, \<^verbatim>\<open>src/pci/virtio/virtqueue.c\<close>: the descriptor table with its free
  list, the available and used rings, submission, completion and polling.  The
  tables are functions of the 16-bit index; the free list is threaded through the
  \<open>next\<close> field of free descriptors.  The driver and a device that follows the
  VirtIO rules form a transition system, and the invariant of that system gives
  the two properties: requests and completions pass through the rings in order,
  and no descriptor is ever both free and in flight or lost.
\<close>

section \<open>Data\<close>

abbreviation VIRTQ_DESC_F_NEXT :: u16 where "VIRTQ_DESC_F_NEXT \<equiv> 1"
abbreviation VIRTQ_DESC_F_WRITE :: u16 where "VIRTQ_DESC_F_WRITE \<equiv> 2"
abbreviation VIRTIO_MSI_NO_VECTOR :: u16 where "VIRTIO_MSI_NO_VECTOR \<equiv> 0xFFFF"
abbreviation VIRTQ_MAX_SIZE :: u16 where "VIRTQ_MAX_SIZE \<equiv> 128"
abbreviation VIRTQ_NO_DESC :: u16 where "VIRTQ_NO_DESC \<equiv> 0xFFFF"

record virtq_desc =
  d_addr :: u64
  d_len :: u32
  d_flags :: u16
  d_next :: u16

record virtq_seg =
  s_pa :: u64
  s_len :: u32
  s_flags :: u16

record virtqueue =
  vq_size :: u16
  free_head :: u16
  num_free :: u16
  last_used :: u16
  notify_addr :: u64
  desc_va :: u64
  avail_va :: u64
  used_va :: u64
  vdesc :: "u16 \<Rightarrow> virtq_desc"
  avail_idx :: u16
  avail_ring :: "u16 \<Rightarrow> u16"
  used_idx :: u16
  used_ring :: "u16 \<Rightarrow> u32 \<times> u32"

text \<open>Register writes, in program order.\<close>

datatype mmio_op = Write16 u64 u16 | Write32 u64 u32

section \<open>The free list\<close>

definition set_desc :: "u16 \<Rightarrow> virtq_desc \<Rightarrow> virtqueue \<Rightarrow> virtqueue" where
  "set_desc i d vq = vq\<lparr>vdesc := (vdesc vq)(i := d)\<rparr>"

fun init_next :: "nat list \<Rightarrow> virtqueue \<Rightarrow> virtqueue" where
  "init_next [] vq = vq"
| "init_next (i # is) vq = init_next is
    (set_desc (of_nat i)
      ((vdesc vq (of_nat i))\<lparr>d_next := if i + 1 < unat (vq_size vq) then of_nat (i + 1) else VIRTQ_NO_DESC\<rparr>) vq)"

definition virtqueue_init_free_list :: "virtqueue \<Rightarrow> virtqueue" where
  "virtqueue_init_free_list vq =
    (init_next [0..<unat (vq_size vq)] vq)
      \<lparr>free_head := if vq_size vq > 0 then 0 else VIRTQ_NO_DESC, num_free := vq_size vq\<rparr>"

definition virtqueue_alloc_desc :: "virtqueue \<Rightarrow> u16 \<times> virtqueue" where
  "virtqueue_alloc_desc vq =
    (let idx = free_head vq in
     if idx = VIRTQ_NO_DESC then (VIRTQ_NO_DESC, vq)
     else (idx, vq\<lparr>free_head := d_next (vdesc vq idx), num_free := num_free vq - 1\<rparr>))"

definition has_next :: "virtq_desc \<Rightarrow> bool" where
  "has_next d \<longleftrightarrow> d_flags d AND VIRTQ_DESC_F_NEXT \<noteq> 0"

definition release_desc :: "u16 \<Rightarrow> virtqueue \<Rightarrow> virtqueue" where
  "release_desc idx vq =
    (set_desc idx \<lparr>d_addr = 0, d_len = 0, d_flags = 0, d_next = free_head vq\<rparr> vq)
      \<lparr>free_head := idx, num_free := num_free vq + 1\<rparr>"

text \<open>Every turn of the release loop clears the flags of one descriptor, so the number of
  descriptors whose chain flag is set decreases.\<close>

definition linked_descs :: "virtqueue \<Rightarrow> u16 set" where
  "linked_descs vq = {i. has_next (vdesc vq i)}"

lemma release_desc_decreases:
  assumes "has_next (vdesc vq idx)"
  shows "card (linked_descs (release_desc idx vq)) < card (linked_descs vq)"
proof (rule psubset_card_mono)
  have "idx \<notin> linked_descs (release_desc idx vq)" "idx \<in> linked_descs vq"
    "linked_descs (release_desc idx vq) \<subseteq> linked_descs vq"
    using assms by (auto simp: linked_descs_def release_desc_def set_desc_def has_next_def split: if_splits)
  then show "linked_descs (release_desc idx vq) \<subset> linked_descs vq" by blast
qed simp

function virtqueue_free_chain :: "virtqueue \<Rightarrow> u16 \<Rightarrow> virtqueue" where
  "virtqueue_free_chain vq idx =
    (if idx \<ge> vq_size vq then vq
     else if \<not> has_next (vdesc vq idx) then release_desc idx vq
     else virtqueue_free_chain (release_desc idx vq) (d_next (vdesc vq idx)))"
  by pat_completeness auto
termination
  by (relation "measure (\<lambda>(vq, idx). card (linked_descs vq))") (auto intro: release_desc_decreases)

declare virtqueue_free_chain.simps [simp del]

section \<open>Set-up\<close>

text \<open>The device answers two reads: its maximal queue size and the notification offset.  The
  result is the success flag, the register writes and the queue.\<close>

definition virtqueue_setup ::
  "u64 \<Rightarrow> u16 \<Rightarrow> u16 \<Rightarrow> u16 \<Rightarrow> u64 \<Rightarrow> u32 \<Rightarrow> virtqueue \<Rightarrow> bool \<times> mmio_op list \<times> virtqueue" where
  "virtqueue_setup base queue_idx max_size notify_off notify_base multiplier vq =
    (let w0 = [Write16 (base + 0x10) VIRTIO_MSI_NO_VECTOR, Write16 (base + 0x16) queue_idx] in
     if max_size = 0 then (False, w0, vq)
     else
       let qsize = (if VIRTQ_MAX_SIZE > max_size then max_size else VIRTQ_MAX_SIZE);
           w1 = [Write16 (base + 0x18) qsize, Write16 (base + 0x1A) VIRTIO_MSI_NO_VECTOR];
           vq1 = vq\<lparr>vdesc := (\<lambda>i. if i < qsize then \<lparr>d_addr = 0, d_len = 0, d_flags = 0, d_next = 0\<rparr> else vdesc vq i),
                    avail_idx := 0, avail_ring := (\<lambda>i. if i < VIRTQ_MAX_SIZE then 0 else avail_ring vq i),
                    used_idx := 0, used_ring := (\<lambda>i. if i < VIRTQ_MAX_SIZE then (0, 0) else used_ring vq i)\<rparr>;
           desc_pa = VIRT_TO_PHYS (desc_va vq1);
           avail_pa = VIRT_TO_PHYS (avail_va vq1);
           used_pa = VIRT_TO_PHYS (used_va vq1);
           w2 = [Write32 (base + 0x20) (ucast desc_pa), Write32 (base + 0x24) (ucast (drop_bit 32 desc_pa)),
                 Write32 (base + 0x28) (ucast avail_pa), Write32 (base + 0x2C) (ucast (drop_bit 32 avail_pa)),
                 Write32 (base + 0x30) (ucast used_pa), Write32 (base + 0x34) (ucast (drop_bit 32 used_pa))];
           vq2 = virtqueue_init_free_list
                   (vq1\<lparr>notify_addr := notify_base + ucast (ucast notify_off * multiplier),
                        vq_size := qsize, last_used := 0\<rparr>)
       in (True, w0 @ w1 @ w2 @ [Write16 (base + 0x1C) 1], vq2))"

section \<open>Submission and completion\<close>

definition publish :: "u16 \<Rightarrow> virtqueue \<Rightarrow> virtqueue" where
  "publish head vq =
    vq\<lparr>avail_ring := (avail_ring vq)(avail_idx vq mod vq_size vq := head), avail_idx := avail_idx vq + 1\<rparr>"

definition virtqueue_submit :: "virtqueue \<Rightarrow> u64 \<Rightarrow> u32 \<Rightarrow> u16 \<Rightarrow> u16 \<times> virtqueue" where
  "virtqueue_submit vq buf_pa len flags =
    (let (idx, vq1) = virtqueue_alloc_desc vq in
     if idx = VIRTQ_NO_DESC then (VIRTQ_NO_DESC, vq1)
     else (idx, publish idx (set_desc idx
       \<lparr>d_addr = buf_pa, d_len = len, d_flags = flags AND NOT VIRTQ_DESC_F_NEXT, d_next = 0\<rparr> vq1)))"

definition virtqueue_notify :: "virtqueue \<Rightarrow> mmio_op list" where
  "virtqueue_notify vq = [Write16 (notify_addr vq) 0]"

text \<open>The identity and length of a completion, and whether one was taken.\<close>

definition virtqueue_get_used :: "virtqueue \<Rightarrow> (u16 \<times> u32) option \<times> virtqueue" where
  "virtqueue_get_used vq =
    (if used_idx vq = last_used vq then (None, vq)
     else
       let (head, written) = used_ring vq (last_used vq mod vq_size vq);
           vq1 = vq\<lparr>last_used := last_used vq + 1\<rparr>
       in if head \<ge> ucast (vq_size vq) then (None, vq1)
          else (Some (ucast head, written), virtqueue_free_chain vq1 (ucast head)))"

text \<open>Polling: before each look the device may have written to the shared rings; \<open>dev\<close> gives
  what it did before the look with that number.\<close>

type_synonym vq_dev = "nat \<Rightarrow> virtqueue \<Rightarrow> virtqueue"

abbreviation VIRTQUEUE_POLL_MAX_SPINS :: nat where "VIRTQUEUE_POLL_MAX_SPINS \<equiv> 10000000"

function poll_from :: "vq_dev \<Rightarrow> nat \<Rightarrow> virtqueue \<Rightarrow> u32 \<times> virtqueue" where
  "poll_from dev spins vq =
    (case virtqueue_get_used (dev spins vq) of
       (Some (_, written), vq') \<Rightarrow> (written, vq')
     | (None, vq') \<Rightarrow>
         if spins + 1 \<ge> VIRTQUEUE_POLL_MAX_SPINS then (0, vq') else poll_from dev (spins + 1) vq')"
  by pat_completeness auto
termination by (relation "measure (\<lambda>(dev, spins, vq). VIRTQUEUE_POLL_MAX_SPINS - spins)") auto

declare poll_from.simps [simp del]

definition virtqueue_poll :: "vq_dev \<Rightarrow> virtqueue \<Rightarrow> u32 \<times> virtqueue" where
  "virtqueue_poll dev vq = poll_from dev 0 vq"

fun alloc_descs :: "nat \<Rightarrow> virtqueue \<Rightarrow> u16 list \<times> virtqueue" where
  "alloc_descs 0 vq = ([], vq)"
| "alloc_descs (Suc n) vq =
    (let (i, vq1) = virtqueue_alloc_desc vq; (is, vq2) = alloc_descs n vq1 in (i # is, vq2))"

fun fill_chain :: "u16 list \<Rightarrow> virtq_seg list \<Rightarrow> virtqueue \<Rightarrow> virtqueue" where
  "fill_chain (i # is) (g # gs) vq = fill_chain is gs
    (set_desc i \<lparr>d_addr = s_pa g, d_len = s_len g,
                 d_flags = (if is \<noteq> [] then s_flags g OR VIRTQ_DESC_F_NEXT else s_flags g),
                 d_next = (if is \<noteq> [] then hd is else 0)\<rparr> vq)"
| "fill_chain is gs vq = vq"

definition virtqueue_submit_chain :: "virtqueue \<Rightarrow> virtq_seg list \<Rightarrow> u16 \<Rightarrow> u16 \<times> virtqueue" where
  "virtqueue_submit_chain vq segs n =
    (if n = 0 \<or> n > num_free vq then (VIRTQ_NO_DESC, vq)
     else let (idx, vq1) = alloc_descs (unat n) vq;
              vq2 = fill_chain idx (take (unat n) segs) vq1
          in (hd idx, publish (hd idx) vq2))"


section \<open>The representation invariant\<close>

text \<open>A null-terminated path through the \<open>next\<close> fields, and a chain as the device reads it.\<close>

fun linked :: "(u16 \<Rightarrow> u16) \<Rightarrow> u16 \<Rightarrow> u16 list \<Rightarrow> u16 \<Rightarrow> bool" where
  "linked nx a [] z \<longleftrightarrow> a = z"
| "linked nx a (x # xs) z \<longleftrightarrow> a = x \<and> linked nx (nx x) xs z"

fun chain_ok :: "(u16 \<Rightarrow> virtq_desc) \<Rightarrow> u16 list \<Rightarrow> bool" where
  "chain_ok D [] \<longleftrightarrow> False"
| "chain_ok D [x] \<longleftrightarrow> \<not> has_next (D x)"
| "chain_ok D (x # y # ys) \<longleftrightarrow> has_next (D x) \<and> d_next (D x) = y \<and> chain_ok D (y # ys)"

definition vq_rep :: "virtqueue \<Rightarrow> u16 list \<Rightarrow> u16 list list \<Rightarrow> bool" where
  "vq_rep vq free chs \<longleftrightarrow>
    vq_size vq \<le> VIRTQ_MAX_SIZE \<and> 0 < vq_size vq \<and>
    linked (\<lambda>i. d_next (vdesc vq i)) (free_head vq) free VIRTQ_NO_DESC \<and>
    distinct (free @ concat chs) \<and> set (free @ concat chs) = {i. i < vq_size vq} \<and>
    num_free vq = of_nat (length free) \<and> (\<forall>c \<in> set chs. chain_ok (vdesc vq) c)"

lemma card_below: "card {i::u16. i < n} = unat n"
proof -
  have "{i::u16. i < n} = of_nat ` {..<unat n}"
  proof (rule set_eqI)
    fix i :: u16
    have "i = of_nat (unat i)" by simp
    moreover have "of_nat k < n" if "k < unat n" for k
    proof -
      have "unat (of_nat k :: u16) = k"
        using that unat_lt_16 [of n] by (simp add: unat_of_nat)
      then show ?thesis using that by (simp add: word_less_nat_alt)
    qed
    ultimately show "i \<in> {i. i < n} \<longleftrightarrow> i \<in> of_nat ` {..<unat n}"
      by (auto simp: word_less_nat_alt intro!: image_eqI [of _ _ "unat i"])
  qed
  moreover have "inj_on (of_nat :: nat \<Rightarrow> u16) {..<unat n}"
    using unat_lt_16 [of n] by (intro inj_on_inverseI [where g = unat]) (simp add: unat_of_nat)
  ultimately show ?thesis by (simp add: card_image)
qed

lemma linked_cong:
  "(\<And>x. x \<in> set xs \<Longrightarrow> nx x = nx' x) \<Longrightarrow> linked nx a xs z = linked nx' a xs z"
  by (induction xs arbitrary: a) auto

lemma chain_ok_cong:
  "(\<And>x. x \<in> set c \<Longrightarrow> D x = D' x) \<Longrightarrow> chain_ok D c = chain_ok D' c"
  by (induction D c rule: chain_ok.induct) auto

lemma vq_rep_count:
  assumes "vq_rep vq free chs"
  shows "unat (num_free vq) = length free" "length free + length (concat chs) = unat (vq_size vq)"
    "length free \<le> 128"
proof -
  have "card (set (free @ concat chs)) = unat (vq_size vq)" "distinct (free @ concat chs)"
    using assms by (simp_all only: vq_rep_def card_below)
  then show len: "length free + length (concat chs) = unat (vq_size vq)"
    using distinct_card by fastforce
  have "unat (vq_size vq) \<le> 128" using assms by (simp add: vq_rep_def word_le_nat_alt)
  then show "length free \<le> 128" using len by simp
  then show "unat (num_free vq) = length free" using assms by (simp add: vq_rep_def unat_of_nat)
qed

lemma free_not_sentinel:
  assumes "vq_rep vq free chs" "x \<in> set (free @ concat chs)"
  shows "x < vq_size vq" "x \<noteq> VIRTQ_NO_DESC"
proof -
  show "x < vq_size vq" using assms unfolding vq_rep_def by blast
  then have "x < VIRTQ_MAX_SIZE" using assms(1) unfolding vq_rep_def by (simp add: less_le_trans)
  then show "x \<noteq> VIRTQ_NO_DESC" by auto
qed

lemma free_head_rep: "vq_rep vq free chs \<Longrightarrow>
  free_head vq = (case free of [] \<Rightarrow> VIRTQ_NO_DESC | x # _ \<Rightarrow> x)"
  by (cases free) (auto simp: vq_rep_def)


subsection \<open>Allocation and filling\<close>

lemma and_one_odd: "f AND 1 \<noteq> 0 \<longleftrightarrow> odd f" for f :: u16
  by (simp add: and_one_eq mod_2_eq_odd)

lemma and_not_one_even: "even f \<Longrightarrow> f AND NOT 1 = f" for f :: u16
  by (rule bit_eqI) (auto simp: bit_simps bit_0)

lemma or_one_and_not_one: "even f \<Longrightarrow> (f OR 1) AND NOT 1 = f" for f :: u16
  by (rule bit_eqI) (auto simp: bit_simps bit_0)

lemma has_next_odd: "has_next d \<longleftrightarrow> odd (d_flags d)"
  by (simp add: has_next_def and_one_odd)

lemma set_desc_simps [simp]:
  "vdesc (set_desc i d vq) = (vdesc vq)(i := d)" "vq_size (set_desc i d vq) = vq_size vq"
  "free_head (set_desc i d vq) = free_head vq" "num_free (set_desc i d vq) = num_free vq"
  "avail_idx (set_desc i d vq) = avail_idx vq" "avail_ring (set_desc i d vq) = avail_ring vq"
  "used_idx (set_desc i d vq) = used_idx vq" "used_ring (set_desc i d vq) = used_ring vq"
  "last_used (set_desc i d vq) = last_used vq"
  by (simp_all add: set_desc_def)

lemma release_desc_simps [simp]:
  "vdesc (release_desc i vq) = (vdesc vq)(i := \<lparr>d_addr = 0, d_len = 0, d_flags = 0, d_next = free_head vq\<rparr>)"
  "vq_size (release_desc i vq) = vq_size vq" "free_head (release_desc i vq) = i"
  "num_free (release_desc i vq) = num_free vq + 1"
  "avail_idx (release_desc i vq) = avail_idx vq" "avail_ring (release_desc i vq) = avail_ring vq"
  "used_idx (release_desc i vq) = used_idx vq" "used_ring (release_desc i vq) = used_ring vq"
  "last_used (release_desc i vq) = last_used vq"
  by (simp_all add: release_desc_def)

lemma alloc_descs_path:
  "linked (\<lambda>i. d_next (vdesc vq i)) (free_head vq) (xs @ ys) VIRTQ_NO_DESC \<Longrightarrow> VIRTQ_NO_DESC \<notin> set xs \<Longrightarrow>
   \<exists>a. alloc_descs (length xs) vq = (xs, vq\<lparr>free_head := a, num_free := num_free vq - of_nat (length xs)\<rparr>) \<and>
     linked (\<lambda>i. d_next (vdesc vq i)) a ys VIRTQ_NO_DESC"
proof (induction xs arbitrary: vq)
  case Nil
  then show ?case by (intro exI [of _ "free_head vq"]) simp
next
  case (Cons x xs)
  let ?vq1 = "vq\<lparr>free_head := d_next (vdesc vq x), num_free := num_free vq - 1\<rparr>"
  have one: "virtqueue_alloc_desc vq = (x, ?vq1)"
    using Cons.prems by (auto simp: virtqueue_alloc_desc_def)
  have "linked (\<lambda>i. d_next (vdesc ?vq1 i)) (free_head ?vq1) (xs @ ys) VIRTQ_NO_DESC"
    "VIRTQ_NO_DESC \<notin> set xs" using Cons.prems by auto
  from Cons.IH [OF this] show ?case
    by (auto simp: one algebra_simps)
qed

definition desc_seg :: "virtq_desc \<Rightarrow> virtq_seg" where
  "desc_seg d = \<lparr>s_pa = d_addr d, s_len = d_len d, s_flags = d_flags d AND NOT VIRTQ_DESC_F_NEXT\<rparr>"

lemma fill_chain_frame:
  "fill_chain is gs vq = vq\<lparr>vdesc := vdesc (fill_chain is gs vq)\<rparr> \<and>
   (\<forall>x. x \<notin> set is \<longrightarrow> vdesc (fill_chain is gs vq) x = vdesc vq x)"
proof (induction "is" gs vq rule: fill_chain.induct)
  case (1 i "is" g gs vq)
  define d where "d = \<lparr>d_addr = s_pa g, d_len = s_len g,
                 d_flags = (if is \<noteq> [] then s_flags g OR VIRTQ_DESC_F_NEXT else s_flags g),
                 d_next = (if is \<noteq> [] then hd is else 0)\<rparr>"
  let ?vq1 = "set_desc i d vq"
  have step: "fill_chain (i # is) (g # gs) vq = fill_chain is gs ?vq1" by (simp add: d_def)
  have "fill_chain is gs ?vq1 = ?vq1\<lparr>vdesc := vdesc (fill_chain is gs ?vq1)\<rparr>"
    and out: "x \<notin> set is \<Longrightarrow> vdesc (fill_chain is gs ?vq1) x = vdesc ?vq1 x" for x
    using 1 unfolding d_def by blast+
  moreover have "?vq1\<lparr>vdesc := D\<rparr> = vq\<lparr>vdesc := D\<rparr>" for D by (simp add: set_desc_def)
  ultimately have "fill_chain is gs ?vq1 = vq\<lparr>vdesc := vdesc (fill_chain is gs ?vq1)\<rparr>" by metis
  then show ?case unfolding step using out by simp
qed simp_all

lemma fill_chain_chain:
  "distinct is \<Longrightarrow> is \<noteq> [] \<Longrightarrow> length is = length gs \<Longrightarrow> \<forall>g \<in> set gs. even (s_flags g) \<Longrightarrow>
   chain_ok (vdesc (fill_chain is gs vq)) is \<and> map (\<lambda>i. desc_seg (vdesc (fill_chain is gs vq) i)) is = gs"
proof (induction "is" gs vq rule: fill_chain.induct)
  case (1 i "is" g gs vq)
  let ?d = "\<lparr>d_addr = s_pa g, d_len = s_len g,
                 d_flags = (if is \<noteq> [] then s_flags g OR VIRTQ_DESC_F_NEXT else s_flags g),
                 d_next = (if is \<noteq> [] then hd is else 0)\<rparr>"
  let ?D = "vdesc (fill_chain is gs (set_desc i ?d vq))"
  have Di: "?D i = ?d"
    using fill_chain_frame [of "is" gs "set_desc i ?d vq"] 1(2) by simp
  have even: "even (s_flags g)" using 1 by simp
  then have seg: "desc_seg ?d = g"
    by (simp add: desc_seg_def and_not_one_even [simplified] or_one_and_not_one [simplified])
  show ?case
  proof (cases "is")
    case Nil
    then show ?thesis using Di 1(4) seg even by (simp add: has_next_odd)
  next
    case (Cons j js)
    have "chain_ok ?D is \<and> map (\<lambda>i. desc_seg (?D i)) is = gs"
      using 1 Cons by auto
    moreover have "has_next (?D i)" "d_next (?D i) = j"
      unfolding Di using Cons by (simp_all add: has_next_odd even_or_iff)
    ultimately show ?thesis using Cons Di seg by (simp only: fill_chain.simps chain_ok.simps list.map)
  qed
qed simp_all


subsection \<open>Submission\<close>

lemma publish_simps [simp]:
  "vdesc (publish h vq) = vdesc vq" "vq_size (publish h vq) = vq_size vq"
  "free_head (publish h vq) = free_head vq" "num_free (publish h vq) = num_free vq"
  "avail_idx (publish h vq) = avail_idx vq + 1"
  "avail_ring (publish h vq) = (avail_ring vq)(avail_idx vq mod vq_size vq := h)"
  "used_idx (publish h vq) = used_idx vq" "used_ring (publish h vq) = used_ring vq"
  "last_used (publish h vq) = last_used vq"
  by (simp_all add: publish_def)

lemma vq_rep_publish [simp]: "vq_rep (publish h vq) free chs = vq_rep vq free chs"
  by (simp add: vq_rep_def)

lemma vq_rep_take_chain:
  assumes rep: "vq_rep vq (c @ free) chs"
    and vq': "vq_size vq' = vq_size vq" "num_free vq' = num_free vq - of_nat (length c)"
      "linked (\<lambda>i. d_next (vdesc vq i)) (free_head vq') free VIRTQ_NO_DESC"
      "\<And>x. x \<notin> set c \<Longrightarrow> vdesc vq' x = vdesc vq x" "chain_ok (vdesc vq') c"
  shows "vq_rep vq' free (c # chs)"
proof -
  have d: "distinct (c @ free @ concat chs)" using rep by (simp add: vq_rep_def)
  have "linked (\<lambda>i. d_next (vdesc vq' i)) (free_head vq') free VIRTQ_NO_DESC"
  proof -
    have "vdesc vq' x = vdesc vq x" if "x \<in> set free" for x using d vq'(4) that by auto
    then show ?thesis using vq'(3) linked_cong [of free "\<lambda>i. d_next (vdesc vq' i)" "\<lambda>i. d_next (vdesc vq i)"] by simp
  qed
  moreover have "chain_ok (vdesc vq') x" if "x \<in> set chs" for x
  proof -
    have "chain_ok (vdesc vq) x" using rep that by (simp add: vq_rep_def)
    moreover have "set x \<inter> set c = {}" using d that by auto
    ultimately show ?thesis using chain_ok_cong [of x "vdesc vq'" "vdesc vq"] vq'(4) by blast
  qed
  moreover have "num_free vq' = of_nat (length free)" using rep vq'(2) by (simp add: vq_rep_def)
  ultimately show ?thesis using rep vq'(1,5) unfolding vq_rep_def by auto
qed

lemma submit_chain_rep:
  assumes rep: "vq_rep vq free chs" and n: "n \<noteq> 0" "n \<le> num_free vq"
    and segs: "length segs = unat n" "\<forall>g \<in> set segs. even (s_flags g)"
  defines "c \<equiv> take (unat n) free"
  shows "\<exists>vq'. virtqueue_submit_chain vq segs n = (hd c, publish (hd c) vq') \<and>
    vq_rep vq' (drop (unat n) free) (c # chs) \<and> map (\<lambda>i. desc_seg (vdesc vq' i)) c = segs \<and>
    (\<exists>D fh nf. vq' = vq\<lparr>vdesc := D, free_head := fh, num_free := nf\<rparr> \<and> (\<forall>x. x \<notin> set c \<longrightarrow> D x = vdesc vq x))"
proof -
  have len: "length c = unat n"
    using n(2) vq_rep_count(1) [OF rep] by (simp add: c_def word_le_nat_alt)
  have fr: "free = c @ drop (unat n) free" by (simp add: c_def)
  have "linked (\<lambda>i. d_next (vdesc vq i)) (free_head vq) (c @ drop (unat n) free) VIRTQ_NO_DESC"
    using rep fr by (simp add: vq_rep_def)
  moreover have "VIRTQ_NO_DESC \<notin> set c"
    using free_not_sentinel(2) [OF rep] set_take_subset [of "unat n" free] unfolding c_def by auto
  ultimately obtain a where a: "alloc_descs (unat n) vq = (c, vq\<lparr>free_head := a, num_free := num_free vq - of_nat (length c)\<rparr>)"
    and la: "linked (\<lambda>i. d_next (vdesc vq i)) a (drop (unat n) free) VIRTQ_NO_DESC"
    using alloc_descs_path [of vq c "drop (unat n) free"] len by metis
  define vq1 where "vq1 = vq\<lparr>free_head := a, num_free := num_free vq - of_nat (length c)\<rparr>"
  define vq2 where "vq2 = fill_chain c segs vq1"
  have sub: "virtqueue_submit_chain vq segs n = (hd c, publish (hd c) vq2)"
    using n a segs(1) by (simp add: virtqueue_submit_chain_def vq2_def vq1_def not_less [symmetric])
  have fill: "vq2 = vq1\<lparr>vdesc := vdesc vq2\<rparr>" "\<And>x. x \<notin> set c \<Longrightarrow> vdesc vq2 x = vdesc vq x"
    using fill_chain_frame [of c segs vq1] unfolding vq2_def [symmetric] by (auto simp: vq1_def)
  have "distinct c" "c \<noteq> []"
    using rep n(1) len unat_eq_0 [of n] by (auto simp: vq_rep_def c_def)
  then have ch: "chain_ok (vdesc vq2) c" "map (\<lambda>i. desc_seg (vdesc vq2 i)) c = segs"
    using fill_chain_chain [of c segs vq1] segs len by (auto simp: vq2_def)
  have eq: "vq2 = vq\<lparr>vdesc := vdesc vq2, free_head := a, num_free := num_free vq - of_nat (length c)\<rparr>"
    by (subst fill(1)) (simp add: vq1_def)
  have "vq_rep vq2 (drop (unat n) free) (c # chs)"
  proof (rule vq_rep_take_chain)
    show "vq_rep vq (c @ drop (unat n) free) chs" using rep fr by simp
    show "vq_size vq2 = vq_size vq" "num_free vq2 = num_free vq - of_nat (length c)" by (subst eq, simp)+
    show "linked (\<lambda>i. d_next (vdesc vq i)) (free_head vq2) (drop (unat n) free) VIRTQ_NO_DESC"
      using la by (subst eq) simp
  qed (use fill(2) ch(1) in auto)
  then show ?thesis using sub ch(2) eq fill(2) by blast
qed

subsection \<open>Completion\<close>

lemma free_chain_path:
  "chain_ok (vdesc vq) c \<Longrightarrow> distinct (c @ free) \<Longrightarrow> \<forall>x \<in> set c. x < vq_size vq \<Longrightarrow>
   linked (\<lambda>i. d_next (vdesc vq i)) (free_head vq) free VIRTQ_NO_DESC \<Longrightarrow>
   \<exists>D fh. virtqueue_free_chain vq (hd c) =
       vq\<lparr>vdesc := D, free_head := fh, num_free := num_free vq + of_nat (length c)\<rparr> \<and>
     linked (\<lambda>i. d_next (D i)) fh (rev c @ free) VIRTQ_NO_DESC \<and> (\<forall>x. x \<notin> set c \<longrightarrow> D x = vdesc vq x)"
proof (induction c arbitrary: vq free)
  case (Cons x c)
  let ?vq1 = "release_desc x vq"
  have x: "x < vq_size vq" "x \<notin> set c" "x \<notin> set free" using Cons.prems by auto
  have l1: "linked (\<lambda>i. d_next (vdesc ?vq1 i)) (free_head ?vq1) (x # free) VIRTQ_NO_DESC"
    using Cons.prems(4) x(3)
    by (simp, subst linked_cong [of _ _ "\<lambda>i. d_next (vdesc vq i)"]) auto
  have one: "?vq1 = vq\<lparr>vdesc := vdesc ?vq1, free_head := x, num_free := num_free vq + 1\<rparr>"
    by (simp add: release_desc_def set_desc_def)
  show ?case
  proof (cases c)
    case Nil
    then have "virtqueue_free_chain vq x = ?vq1"
      using Cons.prems(1) x(1) by (subst virtqueue_free_chain.simps) auto
    moreover define D where "D = vdesc ?vq1"
    ultimately have "virtqueue_free_chain vq x =
        vq\<lparr>vdesc := D, free_head := x, num_free := num_free vq + of_nat (length [x])\<rparr>"
      using one by simp
    moreover have "linked (\<lambda>i. d_next (D i)) x (x # free) VIRTQ_NO_DESC" "\<forall>z. z \<noteq> x \<longrightarrow> D z = vdesc vq z"
      using l1 by (simp_all add: D_def)
    ultimately show ?thesis using Nil by (intro exI [of _ D] exI [of _ x]) simp
  next
    case (Cons y ys)
    then have step: "virtqueue_free_chain vq x = virtqueue_free_chain ?vq1 (hd c)"
      using Cons.prems(1) x(1) by (subst virtqueue_free_chain.simps) auto
    have "chain_ok (vdesc vq) c" using Cons.prems(1) Cons by simp
    moreover have "vdesc ?vq1 z = vdesc vq z" if "z \<in> set c" for z using x(2) that by auto
    ultimately have "chain_ok (vdesc ?vq1) c"
      using chain_ok_cong [of c "vdesc ?vq1" "vdesc vq"] by blast
    from Cons.IH [OF this _ _ l1] Cons.prems x
    obtain D fh where IH: "virtqueue_free_chain ?vq1 (hd c) =
        ?vq1\<lparr>vdesc := D, free_head := fh, num_free := num_free ?vq1 + of_nat (length c)\<rparr>"
      "linked (\<lambda>i. d_next (D i)) fh (rev c @ x # free) VIRTQ_NO_DESC"
      "\<forall>z. z \<notin> set c \<longrightarrow> D z = vdesc ?vq1 z" by auto
    have "?vq1\<lparr>vdesc := D, free_head := fh, num_free := num_free ?vq1 + of_nat (length c)\<rparr> =
        vq\<lparr>vdesc := D, free_head := fh, num_free := num_free vq + of_nat (length (x # c))\<rparr>"
      by (subst one) (simp add: algebra_simps)
    then show ?thesis using IH step by (intro exI [of _ D] exI [of _ fh]) auto
  qed
qed simp


lemma free_chain_rep:
  assumes rep: "vq_rep vq free (pre @ c # post)"
  shows "\<exists>D fh nf. virtqueue_free_chain vq (hd c) = vq\<lparr>vdesc := D, free_head := fh, num_free := nf\<rparr> \<and>
    vq_rep (vq\<lparr>vdesc := D, free_head := fh, num_free := nf\<rparr>) (rev c @ free) (pre @ post) \<and>
    (\<forall>x. x \<notin> set c \<longrightarrow> D x = vdesc vq x)"
proof -
  have d: "distinct (free @ concat (pre @ c # post))" and ok: "chain_ok (vdesc vq) c"
    and l: "linked (\<lambda>i. d_next (vdesc vq i)) (free_head vq) free VIRTQ_NO_DESC"
    using rep by (auto simp: vq_rep_def)
  have "\<forall>x \<in> set c. x < vq_size vq" using free_not_sentinel(1) [OF rep] by auto
  moreover have "distinct (c @ free)" using d by auto
  ultimately obtain D fh where fc: "virtqueue_free_chain vq (hd c) =
      vq\<lparr>vdesc := D, free_head := fh, num_free := num_free vq + of_nat (length c)\<rparr>"
    and l': "linked (\<lambda>i. d_next (D i)) fh (rev c @ free) VIRTQ_NO_DESC"
    and D: "\<forall>x. x \<notin> set c \<longrightarrow> D x = vdesc vq x"
    using free_chain_path [OF ok _ _ l] by blast
  have "chain_ok D x" if "x \<in> set (pre @ post)" for x
  proof -
    have "chain_ok (vdesc vq) x" using rep that by (auto simp: vq_rep_def)
    moreover have "set x \<inter> set c = {}" using d that by auto
    ultimately show ?thesis using chain_ok_cong [of x D "vdesc vq"] D by blast
  qed
  moreover have "distinct ((rev c @ free) @ concat (pre @ post))" using d by auto
  moreover have "set ((rev c @ free) @ concat (pre @ post)) = {i. i < vq_size vq}"
    using rep unfolding vq_rep_def by auto
  ultimately have "vq_rep (vq\<lparr>vdesc := D, free_head := fh, num_free := num_free vq + of_nat (length c)\<rparr>)
      (rev c @ free) (pre @ post)"
    using rep l' unfolding vq_rep_def by (simp add: algebra_simps)
  then show ?thesis using fc D by blast
qed

subsection \<open>Initialisation\<close>

lemma init_next_spec:
  "distinct is \<Longrightarrow> \<forall>i \<in> set is. i < 2 ^ 16 \<Longrightarrow>
   \<exists>D. init_next is vq = vq\<lparr>vdesc := D\<rparr> \<and> (\<forall>i \<in> set is. d_next (D (of_nat i)) =
     (if i + 1 < unat (vq_size vq) then of_nat (i + 1) else VIRTQ_NO_DESC)) \<and>
     (\<forall>x. (\<forall>i \<in> set is. x \<noteq> of_nat i) \<longrightarrow> D x = vdesc vq x)"
proof (induction "is" arbitrary: vq)
  case Nil
  then show ?case by (intro exI [of _ "vdesc vq"]) simp
next
  case (Cons i "is")
  define d where "d = (vdesc vq (of_nat i))\<lparr>d_next := if i + 1 < unat (vq_size vq) then of_nat (i + 1) else VIRTQ_NO_DESC\<rparr>"
  let ?vq1 = "set_desc (of_nat i) d vq"
  have ne: "of_nat j \<noteq> (of_nat i :: u16)" if "j \<in> set is" for j
  proof
    assume "of_nat j = (of_nat i :: u16)"
    then have "unat (of_nat j :: u16) = unat (of_nat i :: u16)" by simp
    then show False using Cons.prems that by (auto simp: unat_of_nat)
  qed
  obtain D where D: "init_next is ?vq1 = ?vq1\<lparr>vdesc := D\<rparr>"
    "\<forall>j \<in> set is. d_next (D (of_nat j)) = (if j + 1 < unat (vq_size vq) then of_nat (j + 1) else VIRTQ_NO_DESC)"
    "\<forall>x. (\<forall>j \<in> set is. x \<noteq> of_nat j) \<longrightarrow> D x = vdesc ?vq1 x"
    using Cons.IH [of ?vq1] Cons.prems by auto
  have "init_next (i # is) vq = vq\<lparr>vdesc := D\<rparr>" using D(1) by (simp add: d_def set_desc_def)
  moreover have "D (of_nat i) = d" using D(3) [rule_format, of "of_nat i"] ne by (metis fun_upd_same set_desc_simps(1))
  ultimately show ?case using D(2,3) by (intro exI [of _ D]) (auto simp: d_def)
qed

lemma linked_upto:
  "(\<And>i. i < n \<Longrightarrow> nx (of_nat i) = (if i + 1 < n then of_nat (i + 1) else z)) \<Longrightarrow> k \<le> n \<Longrightarrow>
   linked nx (if k < n then of_nat k else z) (map of_nat [k..<n]) z"
proof (induction "n - k" arbitrary: k)
  case (Suc m)
  have "m = n - (k + 1)" "k + 1 \<le> n" using Suc by auto
  then have "linked nx (if k + 1 < n then of_nat (k + 1) else z) (map of_nat [k + 1..<n]) z"
    using Suc(1) [of "k + 1"] Suc.prems(1) by blast
  moreover have "[k..<n] = k # [k + 1..<n]" using Suc by (simp add: upt_conv_Cons)
  moreover have "nx (of_nat k) = (if k + 1 < n then of_nat (k + 1) else z)" "k < n"
    using Suc by auto
  ultimately show ?case by (simp only: list.map linked.simps if_True simp_thms)
qed simp

lemma init_free_list_rep:
  assumes "0 < vq_size vq" "vq_size vq \<le> VIRTQ_MAX_SIZE"
  shows "\<exists>D. virtqueue_init_free_list vq = vq\<lparr>vdesc := D, free_head := 0, num_free := vq_size vq\<rparr> \<and>
    vq_rep (virtqueue_init_free_list vq) (map of_nat [0..<unat (vq_size vq)]) []"
proof -
  let ?n = "unat (vq_size vq)"
  have n: "?n < 2 ^ 16" "0 < ?n" using unat_lt_16 [of "vq_size vq"] assms(1) by (auto simp: word_less_nat_alt)
  obtain D where D: "init_next [0..<?n] vq = vq\<lparr>vdesc := D\<rparr>"
    "\<And>i. i < ?n \<Longrightarrow> d_next (D (of_nat i)) = (if i + 1 < ?n then of_nat (i + 1) else VIRTQ_NO_DESC)"
    using init_next_spec [of "[0..<?n]" vq] n by auto
  have eq: "virtqueue_init_free_list vq = vq\<lparr>vdesc := D, free_head := 0, num_free := vq_size vq\<rparr>"
    using D(1) assms(1) by (simp add: virtqueue_init_free_list_def)
  have "linked (\<lambda>i. d_next (D i)) 0 (map of_nat [0..<?n]) VIRTQ_NO_DESC"
    using linked_upto [of ?n "\<lambda>i. d_next (D i)" VIRTQ_NO_DESC 0] D(2) n by simp
  moreover have inj: "inj_on (of_nat :: nat \<Rightarrow> u16) {0..<?n}"
    using n by (intro inj_on_inverseI [where g = unat]) (simp add: unat_of_nat)
  moreover have "of_nat ` {0..<?n} = {i. i < vq_size vq}"
  proof (rule card_subset_eq)
    show "of_nat ` {0..<?n} \<subseteq> {i. i < vq_size vq}"
      using n by (auto simp: word_less_nat_alt unat_of_nat)
    show "card (of_nat ` {0..<?n} :: u16 set) = card {i. i < vq_size vq}"
      by (simp add: card_image [OF inj] card_below)
  qed simp
  ultimately show ?thesis using assms unfolding eq
    by (intro exI [of _ D]) (simp add: vq_rep_def distinct_map)
qed


lemma init_free_list_fresh:
  "0 < vq_size vq \<Longrightarrow> vq_size vq \<le> VIRTQ_MAX_SIZE \<Longrightarrow> n = unat (vq_size vq) \<Longrightarrow>
   vq_rep (virtqueue_init_free_list vq) (map of_nat [0..<n]) []"
  using init_free_list_rep by blast

section \<open>Rings as channels\<close>

text \<open>A free-running 16-bit index pair over a ring of \<open>sz\<close> slots holds the list \<open>xs\<close>.  The
  ring size divides \<open>2 ^ 16\<close>, so the slot order survives the wrap of the indices.\<close>

definition ring_holds :: "u16 \<Rightarrow> u16 \<Rightarrow> (u16 \<Rightarrow> 'a) \<Rightarrow> 'a list \<Rightarrow> u16 \<Rightarrow> bool" where
  "ring_holds sz base ring xs idx \<longleftrightarrow> idx = base + of_nat (length xs) \<and> length xs \<le> unat sz \<and>
    (\<forall>k < length xs. ring ((base + of_nat k) mod sz) = xs ! k)"

lemma slot_unat:
  "unat sz dvd 65536 \<Longrightarrow> unat ((base + of_nat k) mod sz) = (unat base + k) mod unat sz" for sz base :: u16
  by (simp add: unat_mod unat_word_ariths unat_of_nat mod_mod_cancel mod_add_right_eq)

lemma slot_inj:
  fixes sz base :: u16
  assumes "unat sz dvd 65536" "(base + of_nat k) mod sz = (base + of_nat k') mod sz" "k < unat sz" "k' < unat sz"
  shows "k = k'"
proof -
  have "(unat base + k) mod unat sz = (unat base + k') mod unat sz"
    using assms(1,2) slot_unat [of sz base k] slot_unat [of sz base k'] by simp
  then have "k mod unat sz = k' mod unat sz" by (simp add: nat_mod_eq_iff)
  then show ?thesis using assms(3,4) by simp
qed

lemma ring_push:
  assumes "ring_holds sz base ring xs idx" "length xs < unat sz" "unat sz dvd 65536"
  shows "ring_holds sz base (ring(idx mod sz := x)) (xs @ [x]) (idx + 1)"
proof -
  have idx: "idx = base + of_nat (length xs)" using assms(1) by (simp add: ring_holds_def)
  have "(ring(idx mod sz := x)) ((base + of_nat k) mod sz) = (xs @ [x]) ! k" if k: "k < Suc (length xs)" for k
  proof (cases "k = length xs")
    case True
    then show ?thesis using idx by simp
  next
    case False
    then have "(base + of_nat k) mod sz \<noteq> idx mod sz"
      using slot_inj [OF assms(3), of base k "length xs"] k assms(2) idx by auto
    then show ?thesis using assms(1) False k by (simp add: ring_holds_def nth_append)
  qed
  then show ?thesis using assms(2) idx by (simp add: ring_holds_def algebra_simps)
qed

lemma ring_pop:
  assumes "ring_holds sz base ring (x # xs) idx"
  shows "ring (base mod sz) = x" "ring_holds sz (base + 1) ring xs idx"
proof -
  have r: "\<forall>k < Suc (length xs). ring ((base + of_nat k) mod sz) = (x # xs) ! k"
    using assms by (simp add: ring_holds_def)
  show "ring (base mod sz) = x" using r [rule_format, of 0] by simp
  have "ring ((base + 1 + of_nat k) mod sz) = xs ! k" if "k < length xs" for k
    using r [rule_format, of "Suc k"] that by (simp add: algebra_simps)
  then show "ring_holds sz (base + 1) ring xs idx"
    using assms by (simp add: ring_holds_def algebra_simps)
qed

lemma ring_empty:
  assumes "ring_holds sz base ring xs idx" "sz \<le> VIRTQ_MAX_SIZE"
  shows "idx = base \<longleftrightarrow> xs = []"
proof -
  have "length xs \<le> 128" using assms by (simp add: ring_holds_def word_le_nat_alt)
  then have "unat (of_nat (length xs) :: u16) = length xs" by (simp add: unat_of_nat)
  then have "of_nat (length xs) = (0::u16) \<longleftrightarrow> xs = []" by (auto simp: unat_eq_0)
  then show ?thesis using assms(1) by (simp add: ring_holds_def)
qed


section \<open>Driver and device\<close>

text \<open>The device of the VirtIO specification: it takes heads from the available ring in
  order, reads the chain behind each, and completes the requests it holds in any order.
  The logs record what was submitted, read, completed and reaped.\<close>

fun read_chain :: "(u16 \<Rightarrow> virtq_desc) \<Rightarrow> nat \<Rightarrow> u16 \<Rightarrow> virtq_seg list" where
  "read_chain D 0 i = []"
| "read_chain D (Suc n) i = desc_seg (D i) # (if has_next (D i) then read_chain D n (d_next (D i)) else [])"

record vsys =
  vq :: virtqueue
  seen :: u16
  work :: "u16 list"
  submitted :: "(u16 \<times> virtq_seg list) list"
  fetched :: "(u16 \<times> virtq_seg list) list"
  completed :: "(u16 \<times> u32) list"
  reaped :: "(u16 \<times> u32) list"

definition complete :: "u16 \<Rightarrow> u32 \<Rightarrow> virtqueue \<Rightarrow> virtqueue" where
  "complete h len q = q\<lparr>used_ring := (used_ring q)(used_idx q mod vq_size q := (ucast h, len)), used_idx := used_idx q + 1\<rparr>"

inductive vstep :: "vsys \<Rightarrow> vsys \<Rightarrow> bool" where
  submit: "virtqueue_submit_chain (vq s) segs n = (h, q) \<Longrightarrow> length segs = unat n \<Longrightarrow>
    \<forall>g \<in> set segs. s_flags g AND VIRTQ_DESC_F_NEXT = 0 \<Longrightarrow>
    vstep s (s\<lparr>vq := q, submitted := submitted s @ (if h = VIRTQ_NO_DESC then [] else [(h, segs)])\<rparr>)"
| fetch: "seen s \<noteq> avail_idx (vq s) \<Longrightarrow> h = avail_ring (vq s) (seen s mod vq_size (vq s)) \<Longrightarrow>
    vstep s (s\<lparr>seen := seen s + 1, work := work s @ [h],
      fetched := fetched s @ [(h, read_chain (vdesc (vq s)) (unat (vq_size (vq s))) h)]\<rparr>)"
| finish: "h \<in> set (work s) \<Longrightarrow>
    vstep s (s\<lparr>vq := complete h len (vq s), work := remove1 h (work s), completed := completed s @ [(h, len)]\<rparr>)"
| reap: "virtqueue_get_used (vq s) = (r, q) \<Longrightarrow>
    vstep s (s\<lparr>vq := q, reaped := reaped s @ (case r of None \<Rightarrow> [] | Some x \<Rightarrow> [x])\<rparr>)"

inductive_cases vstep_cases: "vstep s t"

definition vsys_start :: "virtqueue \<Rightarrow> vsys" where
  "vsys_start q = \<lparr>vq = q, seen = 0, work = [], submitted = [], fetched = [], completed = [], reaped = []\<rparr>"

text \<open>In every state: the chains in flight carry the segments that were submitted, each is
  waiting in the available ring, with the device, or in the used ring, and the logs are
  the two ring contents apart.\<close>

definition vsys_rep :: "vsys \<Rightarrow> u16 list \<Rightarrow> (u16 list \<times> virtq_seg list) list \<Rightarrow>
    (u16 \<times> virtq_seg list) list \<Rightarrow> (u16 \<times> u32) list \<Rightarrow> bool" where
  "vsys_rep s free chs pub pend \<longleftrightarrow>
    vq_rep (vq s) free (map fst chs) \<and> unat (vq_size (vq s)) dvd 65536 \<and>
    (\<forall>(c, g) \<in> set chs. map (\<lambda>i. desc_seg (vdesc (vq s) i)) c = g) \<and>
    submitted s = fetched s @ pub \<and> completed s = reaped s @ pend \<and>
    distinct (map fst pub @ work s @ map fst pend) \<and>
    set (map fst pub @ work s @ map fst pend) = set (map (\<lambda>(c, g). hd c) chs) \<and>
    (\<forall>(h, g) \<in> set pub. \<exists>c. (c, g) \<in> set chs \<and> hd c = h) \<and>
    ring_holds (vq_size (vq s)) (seen s) (avail_ring (vq s)) (map fst pub) (avail_idx (vq s)) \<and>
    ring_holds (vq_size (vq s)) (last_used (vq s)) (used_ring (vq s)) (map (\<lambda>(h, l). (ucast h, l)) pend) (used_idx (vq s)) \<and>
    length (submitted s) = length (reaped s) + length chs"

lemma read_chain_ok: "chain_ok D c \<Longrightarrow> length c \<le> n \<Longrightarrow> read_chain D n (hd c) = map (\<lambda>i. desc_seg (D i)) c"
proof (induction D c arbitrary: n rule: chain_ok.induct)
  case (2 D x)
  then show ?case by (cases n) auto
next
  case (3 D x y ys)
  then show ?case by (cases n) auto
qed simp

lemma chain_ok_nonempty: "chain_ok D c \<Longrightarrow> c \<noteq> []" by auto

lemma heads_distinct: "distinct (concat cs) \<Longrightarrow> \<forall>c \<in> set cs. c \<noteq> [] \<Longrightarrow> distinct (map hd cs)"
proof (induction cs)
  case (Cons c cs)
  have "hd c \<noteq> hd d" if "d \<in> set cs" for d
  proof -
    have "hd c \<in> set c" "hd d \<in> set d" using Cons.prems that by auto
    then show ?thesis using Cons.prems(1) that by auto
  qed
  then show ?case using Cons by auto
qed simp

lemma heads_le: "\<forall>c \<in> set cs. c \<noteq> [] \<Longrightarrow> length cs \<le> length (concat cs)"
proof (induction cs)
  case (Cons c cs)
  then have "0 < length c" by simp
  moreover have "length cs \<le> length (concat cs)" using Cons by simp
  ultimately show ?case by (simp only: concat.simps length_append list.size)
qed simp

lemma vq_heads_distinct:
  assumes "vq_rep q free (map fst chs)"
  shows "distinct (map (\<lambda>(c, g). hd c) chs)"
proof -
  have "\<forall>c \<in> set (map fst chs). c \<noteq> []" "distinct (concat (map fst chs))"
    using assms chain_ok_nonempty unfolding vq_rep_def by auto
  then show ?thesis using heads_distinct [of "map fst chs"] by (simp add: comp_def case_prod_unfold)
qed

lemma vsys_rep_count:
  assumes "vsys_rep s free chs pub pend"
  shows "length pub + length (work s) + length pend = length chs"
    "length free + length chs \<le> unat (vq_size (vq s))"
proof -
  have rep: "vq_rep (vq s) free (map fst chs)" using assms by (simp add: vsys_rep_def)
  then have ne: "\<forall>c \<in> set (map fst chs). c \<noteq> []" using chain_ok_nonempty unfolding vq_rep_def by auto
  have "distinct (map (\<lambda>(c, g). hd c) chs)" by (rule vq_heads_distinct [OF rep])
  then have "length chs = card (set (map fst pub @ work s @ map fst pend))"
    using assms distinct_card [of "map (\<lambda>(c, g). hd c) chs"] unfolding vsys_rep_def by simp
  also have "\<dots> = length (map fst pub @ work s @ map fst pend)"
    using assms unfolding vsys_rep_def by (intro distinct_card) blast
  finally show "length pub + length (work s) + length pend = length chs" by simp
  show "length free + length chs \<le> unat (vq_size (vq s))"
    using heads_le [OF ne] vq_rep_count(2) [OF rep] by simp
qed


lemma head_not_free:
  assumes "vq_rep q free (map fst chs)" "x \<in> set free"
  shows "x \<notin> set (map (\<lambda>(c, g). hd c) chs)"
proof
  assume "x \<in> set (map (\<lambda>(c, g). hd c) chs)"
  then obtain c g where c: "(c, g) \<in> set chs" "x = hd c" by auto
  then have "c \<noteq> []" using assms(1) chain_ok_nonempty unfolding vq_rep_def by force
  then have "x \<in> set (concat (map fst chs))" using c by force
  then show False using assms unfolding vq_rep_def by auto
qed

lemma contents_frame:
  assumes "\<forall>(c, g) \<in> set chs. map (\<lambda>i. desc_seg (D i)) c = g" "\<And>x. x \<notin> set a \<Longrightarrow> D' x = D x"
    "\<And>c g. (c, g) \<in> set chs \<Longrightarrow> set c \<inter> set a = {}"
  shows "\<forall>(c, g) \<in> set chs. map (\<lambda>i. desc_seg (D' i)) c = g"
proof clarify
  fix c g
  assume cg: "(c, g) \<in> set chs"
  then have "D' i = D i" if "i \<in> set c" for i using that assms(2) [of i] assms(3) [OF cg] by auto
  then have "map (\<lambda>i. desc_seg (D' i)) c = map (\<lambda>i. desc_seg (D i)) c" by simp
  then show "map (\<lambda>i. desc_seg (D' i)) c = g" using assms(1) cg by auto
qed

lemma submit_pres:
  assumes inv: "vsys_rep s free chs pub pend" and seg: "length segs = unat n"
      "\<forall>g \<in> set segs. s_flags g AND VIRTQ_DESC_F_NEXT = 0"
    and n: "n \<noteq> 0" "n \<le> num_free (vq s)"
  shows "\<exists>c q. virtqueue_submit_chain (vq s) segs n = (hd c, q) \<and> hd c \<noteq> VIRTQ_NO_DESC \<and>
    vsys_rep (s\<lparr>vq := q, submitted := submitted s @ [(hd c, segs)]\<rparr>)
      (drop (unat n) free) ((c, segs) # chs) (pub @ [(hd c, segs)]) pend"
proof -
  let ?c = "take (unat n) free"
  have rep: "vq_rep (vq s) free (map fst chs)" using inv by (simp add: vsys_rep_def)
  have even: "\<forall>g \<in> set segs. even (s_flags g)" using seg(2) and_one_odd by blast
  obtain q D fh nf where sub: "virtqueue_submit_chain (vq s) segs n = (hd ?c, publish (hd ?c) q)"
    and rep': "vq_rep q (drop (unat n) free) (?c # map fst chs)"
    and cont: "map (\<lambda>i. desc_seg (vdesc q i)) ?c = segs"
    and q: "q = (vq s)\<lparr>vdesc := D, free_head := fh, num_free := nf\<rparr>" "\<And>x. x \<notin> set ?c \<Longrightarrow> D x = vdesc (vq s) x"
    using submit_chain_rep [OF rep n seg(1) even] by blast
  have ne: "?c \<noteq> []" using rep' chain_ok_nonempty unfolding vq_rep_def by (metis list.set_intros(1))
  then have hd: "hd ?c \<in> set free" by (metis hd_in_set in_set_takeD)
  have dis: "distinct (free @ concat (map fst chs))" using rep by (simp add: vq_rep_def)
  have order: "distinct (map fst pub @ work s @ map fst pend)"
    "set (map fst pub @ work s @ map fst pend) = set (map (\<lambda>(c, g). hd c) chs)"
    using inv unfolding vsys_rep_def by blast+
  have fresh': "hd ?c \<notin> set (map fst pub @ work s @ map fst pend)" using head_not_free [OF rep hd] order(2) by blast
  have old: "\<forall>(c, g) \<in> set chs. map (\<lambda>i. desc_seg (vdesc q i)) c = g"
  proof (rule contents_frame [of _ "vdesc (vq s)" ?c])
    show "\<forall>(c, g) \<in> set chs. map (\<lambda>i. desc_seg (vdesc (vq s) i)) c = g" using inv by (simp add: vsys_rep_def)
    show "set c \<inter> set ?c = {}" if "(c, g) \<in> set chs" for c g
    proof -
      have "set c \<inter> set free = {}" using dis that by fastforce
      then show ?thesis using set_take_subset [of "unat n" free] by blast
    qed
  qed (simp add: q)
  have "length pub < unat (vq_size (vq s))"
    using vsys_rep_count [OF inv] hd by (cases free) auto
  then have av: "ring_holds (vq_size (vq s)) (seen s) (avail_ring (publish (hd ?c) q))
      (map fst (pub @ [(hd ?c, segs)])) (avail_idx (publish (hd ?c) q))"
    using inv q(1) ring_push [of "vq_size (vq s)" "seen s" "avail_ring (vq s)" "map fst pub" "avail_idx (vq s)" "hd ?c"]
    by (simp add: vsys_rep_def)
  have "vsys_rep (s\<lparr>vq := publish (hd ?c) q, submitted := submitted s @ [(hd ?c, segs)]\<rparr>)
      (drop (unat n) free) ((?c, segs) # chs) (pub @ [(hd ?c, segs)]) pend"
    unfolding vsys_rep_def
  proof (intro conjI)
    show "set (map fst (pub @ [(hd ?c, segs)]) @ work (s\<lparr>vq := publish (hd ?c) q, submitted := submitted s @ [(hd ?c, segs)]\<rparr>) @ map fst pend) =
      set (map (\<lambda>(c, g). hd c) ((?c, segs) # chs))"
      using inv by (auto simp: vsys_rep_def)
    show "distinct (map fst (pub @ [(hd ?c, segs)]) @ work (s\<lparr>vq := publish (hd ?c) q, submitted := submitted s @ [(hd ?c, segs)]\<rparr>) @ map fst pend)"
      using order fresh' by auto
    show "\<forall>(h, g) \<in> set (pub @ [(hd ?c, segs)]). \<exists>c. (c, g) \<in> set ((?c, segs) # chs) \<and> hd c = h"
      using inv by (auto simp: vsys_rep_def)
  qed (use inv rep' cont old av q(1) in \<open>auto simp: vsys_rep_def\<close>)
  then show ?thesis using sub hd free_not_sentinel(2) [OF rep] by (intro exI [of _ ?c]) auto
qed


lemma fetch_pres:
  assumes inv: "vsys_rep s free chs pub pend" and av: "seen s \<noteq> avail_idx (vq s)"
  defines "h \<equiv> avail_ring (vq s) (seen s mod vq_size (vq s))"
  shows "\<exists>g pub'. pub = (h, g) # pub' \<and>
    vsys_rep (s\<lparr>seen := seen s + 1, work := work s @ [h],
      fetched := fetched s @ [(h, read_chain (vdesc (vq s)) (unat (vq_size (vq s))) h)]\<rparr>) free chs pub' pend"
proof -
  have rep: "vq_rep (vq s) free (map fst chs)"
    and rh: "ring_holds (vq_size (vq s)) (seen s) (avail_ring (vq s)) (map fst pub) (avail_idx (vq s))"
    and chs: "\<forall>(c, g) \<in> set chs. map (\<lambda>i. desc_seg (vdesc (vq s) i)) c = g"
    and pub: "\<forall>(h, g) \<in> set pub. \<exists>c. (c, g) \<in> set chs \<and> hd c = h"
    using inv by (simp_all add: vsys_rep_def)
  have "pub \<noteq> []" using ring_empty [OF rh] rep av by (auto simp: vq_rep_def)
  then obtain h' g pub' where p: "pub = (h', g) # pub'" by (cases pub) auto
  have h': "h' = h" and rh': "ring_holds (vq_size (vq s)) (seen s + 1) (avail_ring (vq s)) (map fst pub') (avail_idx (vq s))"
    using ring_pop [of "vq_size (vq s)" "seen s" "avail_ring (vq s)" h' "map fst pub'"] rh p by (simp_all add: h_def)
  obtain c where c: "(c, g) \<in> set chs" "hd c = h" using pub p h' by auto
  have len: "length c \<le> unat (vq_size (vq s))"
  proof -
    have "length c \<le> length (concat (map fst chs))"
      using c(1) split_list [OF c(1)] by auto
    then show ?thesis using vq_rep_count(2) [OF rep] by simp
  qed
  have "chain_ok (vdesc (vq s)) c" using rep c(1) by (force simp: vq_rep_def)
  then have rd: "read_chain (vdesc (vq s)) (unat (vq_size (vq s))) h = g"
    using read_chain_ok [OF _ len] c chs by auto
  show ?thesis
    using inv p h' rh' by (intro exI [of _ g] exI [of _ pub']) (auto simp: vsys_rep_def rd)
qed

lemma complete_simps [simp]:
  "vq_rep (complete h len q) free chs = vq_rep q free chs" "vdesc (complete h len q) = vdesc q"
  "vq_size (complete h len q) = vq_size q" "last_used (complete h len q) = last_used q"
  "avail_idx (complete h len q) = avail_idx q" "avail_ring (complete h len q) = avail_ring q"
  by (simp_all add: vq_rep_def complete_def)

lemma finish_pres:
  assumes inv: "vsys_rep s free chs pub pend" and h: "h \<in> set (work s)"
  shows "vsys_rep (s\<lparr>vq := complete h len (vq s), work := remove1 h (work s), completed := completed s @ [(h, len)]\<rparr>)
    free chs pub (pend @ [(h, len)])"
proof -
  have dis: "distinct (map fst pub @ work s @ map fst pend)"
    and set: "set (map fst pub @ work s @ map fst pend) = set (map (\<lambda>(c, g). hd c) chs)"
    and rh: "ring_holds (vq_size (vq s)) (last_used (vq s)) (used_ring (vq s)) (map (\<lambda>(h, l). (ucast h, l)) pend) (used_idx (vq s))"
    using inv unfolding vsys_rep_def by blast+
  have "length pend < unat (vq_size (vq s))"
    using vsys_rep_count [OF inv] h by (cases "work s") auto
  then have "ring_holds (vq_size (vq s)) (last_used (vq s)) (used_ring (complete h len (vq s)))
      (map (\<lambda>(h, l). (ucast h, l)) (pend @ [(h, len)])) (used_idx (complete h len (vq s)))"
    using ring_push [OF rh] inv by (simp add: vsys_rep_def complete_def)
  moreover have "distinct (map fst pub @ remove1 h (work s) @ map fst (pend @ [(h, len)]))"
    using dis h by (auto simp: distinct_remove1)
  moreover have "set (map fst pub @ remove1 h (work s) @ map fst (pend @ [(h, len)])) =
      set (map fst pub @ work s @ map fst pend)"
    using dis h by auto
  ultimately show ?thesis using inv set by (auto simp: vsys_rep_def)
qed


lemma get_used_none: "used_idx q = last_used q \<Longrightarrow> virtqueue_get_used q = (None, q)"
  by (simp add: virtqueue_get_used_def)

lemma unat_ucast_16_32: "unat (ucast h :: u32) = unat h" for h :: u16
  using unat_lt_16 [of h] by (simp add: unsigned_ucast_eq take_bit_nat_eq_self)

lemma get_used_some:
  assumes "used_idx q \<noteq> last_used q" "used_ring q (last_used q mod vq_size q) = (ucast h, len)" "h < vq_size q"
  shows "virtqueue_get_used q = (Some (h, len), virtqueue_free_chain (q\<lparr>last_used := last_used q + 1\<rparr>) h)"
proof -
  have "\<not> ucast (vq_size q) \<le> (ucast h :: u32)"
    using assms(3) by (simp add: word_less_nat_alt word_le_nat_alt unat_ucast_16_32)
  moreover have "ucast (ucast h :: u32) = h"
    by (rule bit_word_eqI) (simp add: bit_simps)
  ultimately show ?thesis using assms by (simp add: virtqueue_get_used_def)
qed

lemma drop_head:
  assumes dis: "distinct (map fst pub @ wk @ map fst ((h, l) # pend))"
    and set: "set (map fst pub @ wk @ map fst ((h, l) # pend)) = set (map (\<lambda>(c, g). hd c) (pre @ (c, g) # post))"
    and hds: "distinct (map (\<lambda>(c, g). hd c) (pre @ (c, g) # post))"
    and pub: "\<forall>(k, f) \<in> set pub. \<exists>d. (d, f) \<in> set (pre @ (c, g) # post) \<and> hd d = k"
    and h: "hd c = h"
  shows "set (map fst pub @ wk @ map fst pend) = set (map (\<lambda>(c, g). hd c) (pre @ post)) \<and>
    (\<forall>(k, f) \<in> set pub. \<exists>d. (d, f) \<in> set (pre @ post) \<and> hd d = k)"
proof
  have "set (map fst pub @ wk @ map fst pend) = set (map fst pub @ wk @ map fst ((h, l) # pend)) - {h}"
    using dis by auto
  also have "\<dots> = set (map (\<lambda>(c, g). hd c) (pre @ post))" unfolding set using hds h by auto
  finally show "set (map fst pub @ wk @ map fst pend) = set (map (\<lambda>(c, g). hd c) (pre @ post))" .
  show "\<forall>(k, f) \<in> set pub. \<exists>d. (d, f) \<in> set (pre @ post) \<and> hd d = k"
  proof clarify
    fix k f
    assume kf: "(k, f) \<in> set pub"
    then obtain d where "(d, f) \<in> set (pre @ (c, g) # post)" "hd d = k" using pub by blast
    moreover have "k \<noteq> h" using dis kf by force
    ultimately show "\<exists>d. (d, f) \<in> set (pre @ post) \<and> hd d = k" using h by auto
  qed
qed

lemma reap_pres:
  assumes inv: "vsys_rep s free chs pub pend" and us: "used_idx (vq s) \<noteq> last_used (vq s)"
  shows "\<exists>h l pend' q free' chs'. pend = (h, l) # pend' \<and> virtqueue_get_used (vq s) = (Some (h, l), q) \<and>
    vsys_rep (s\<lparr>vq := q, reaped := reaped s @ [(h, l)]\<rparr>) free' chs' pub pend'"
proof -
  have rep: "vq_rep (vq s) free (map fst chs)"
    and rh: "ring_holds (vq_size (vq s)) (last_used (vq s)) (used_ring (vq s)) (map (\<lambda>(h, l). (ucast h, l)) pend) (used_idx (vq s))"
    and dis: "distinct (map fst pub @ work s @ map fst pend)"
    and set: "set (map fst pub @ work s @ map fst pend) = set (map (\<lambda>(c, g). hd c) chs)"
    and cont: "\<forall>(c, g) \<in> set chs. map (\<lambda>i. desc_seg (vdesc (vq s) i)) c = g"
    and pub: "\<forall>(h, g) \<in> set pub. \<exists>c. (c, g) \<in> set chs \<and> hd c = h"
    using inv unfolding vsys_rep_def by simp_all
  have "pend \<noteq> []" using ring_empty [OF rh] rep us by (auto simp: vq_rep_def)
  then obtain h l pend' where p: "pend = (h, l) # pend'" by (cases pend) auto
  have slot: "used_ring (vq s) (last_used (vq s) mod vq_size (vq s)) = (ucast h, l)"
    and rh': "ring_holds (vq_size (vq s)) (last_used (vq s) + 1) (used_ring (vq s)) (map (\<lambda>(h, l). (ucast h, l)) pend') (used_idx (vq s))"
    using ring_pop [OF rh [unfolded p list.map prod.case]] by simp_all
  have "h \<in> set (map fst pub @ work s @ map fst pend)" using p by simp
  then have "h \<in> set (map (\<lambda>(c, g). hd c) chs)" by (simp only: set)
  then obtain c g where cg: "(c, g) \<in> set chs" "hd c = h" by auto
  then obtain pre post where sp: "chs = pre @ (c, g) # post" by (meson split_list)
  let ?q0 = "vq s\<lparr>last_used := last_used (vq s) + 1\<rparr>"
  have rep0: "vq_rep ?q0 free (map fst pre @ c # map fst post)" using rep sp by (simp add: vq_rep_def)
  obtain D fh nf where fc: "virtqueue_free_chain ?q0 h = ?q0\<lparr>vdesc := D, free_head := fh, num_free := nf\<rparr>"
    and rep': "vq_rep (?q0\<lparr>vdesc := D, free_head := fh, num_free := nf\<rparr>) (rev c @ free) (map fst (pre @ post))"
    and D: "\<And>x. x \<notin> set c \<Longrightarrow> D x = vdesc (vq s) x"
    using free_chain_rep [OF rep0] cg(2) by auto
  have dc: "distinct (free @ concat (map fst chs))" using rep by (simp add: vq_rep_def)
  have "c \<noteq> []" using rep cg(1) chain_ok_nonempty unfolding vq_rep_def by force
  then have "h \<in> set (concat (map fst chs))" using cg by force
  then have hlt: "h < vq_size (vq s)" using free_not_sentinel(1) [OF rep] by simp
  define q where "q = ?q0\<lparr>vdesc := D, free_head := fh, num_free := nf\<rparr>"
  have get: "virtqueue_get_used (vq s) = (Some (h, l), q)"
    using get_used_some [OF us slot hlt] fc by (simp add: q_def)
  have old: "\<forall>(c, g) \<in> set (pre @ post). map (\<lambda>i. desc_seg (D i)) c = g"
  proof (rule contents_frame [of _ "vdesc (vq s)" c])
    show "\<forall>(c, g) \<in> set (pre @ post). map (\<lambda>i. desc_seg (vdesc (vq s) i)) c = g" using cont sp by auto
    show "set d \<inter> set c = {}" if "(d, g) \<in> set (pre @ post)" for d g
      using dc sp that by fastforce
  qed (rule D)
  have hds: "distinct (map (\<lambda>(c, g). hd c) chs)" by (rule vq_heads_distinct [OF rep])
  have set': "set (map fst pub @ work s @ map fst pend') = set (map (\<lambda>(c, g). hd c) (pre @ post))"
    and pub': "\<forall>(k, g) \<in> set pub. \<exists>c. (c, g) \<in> set (pre @ post) \<and> hd c = k"
    using drop_head [OF dis [unfolded p] set [unfolded p sp] hds [unfolded sp] pub [unfolded sp] cg(2)] by blast+
  have "vsys_rep (s\<lparr>vq := q, reaped := reaped s @ [(h, l)]\<rparr>) (rev c @ free) (pre @ post) pub pend'"
    using inv rep' old set' pub' rh' dis p sp unfolding vsys_rep_def q_def by auto
  then show ?thesis using p get by blast
qed


lemma vstep_pres:
  assumes "vstep s t" "vsys_rep s free chs pub pend"
  shows "\<exists>free chs pub pend. vsys_rep t free chs pub pend"
  using assms(1)
proof (cases rule: vstep.cases)
  case (submit segs n h q)
  show ?thesis
  proof (cases "n = 0 \<or> n > num_free (vq s)")
    case True
    then have "t = s" using submit by (auto simp: virtqueue_submit_chain_def)
    then show ?thesis using assms(2) by blast
  next
    case False
    then show ?thesis using submit_pres [OF assms(2) submit(3,4)] submit by (auto simp: not_less)
  qed
next
  case (fetch h)
  then show ?thesis using fetch_pres [OF assms(2)] by blast
next
  case (finish h len)
  then show ?thesis using finish_pres [OF assms(2)] by blast
next
  case (reap r q)
  show ?thesis
  proof (cases "used_idx (vq s) = last_used (vq s)")
    case True
    then have "t = s" using reap get_used_none by auto
    then show ?thesis using assms(2) by blast
  next
    case False
    then show ?thesis using reap_pres [OF assms(2) False] reap by force
  qed
qed

lemma setup_rep:
  assumes "virtqueue_setup base qi max_size noff nb mul q = (True, w, q0)" "unat max_size dvd 65536"
  shows "\<exists>free. vsys_rep (vsys_start q0) free [] [] []"
proof -
  define qs where "qs = (if VIRTQ_MAX_SIZE > max_size then max_size else VIRTQ_MAX_SIZE)"
  have m: "max_size \<noteq> 0" using assms(1) by (auto simp: virtqueue_setup_def split: if_splits)
  then have qs: "0 < qs" "qs \<le> VIRTQ_MAX_SIZE" "unat qs dvd 65536"
    using assms(2) by (auto simp: qs_def word_gt_0)
  obtain q1 where q1: "q0 = virtqueue_init_free_list q1" "vq_size q1 = qs" "avail_idx q1 = 0"
      "used_idx q1 = 0" "last_used q1 = 0"
    using assms(1) m by (auto simp: virtqueue_setup_def Let_def qs_def)
  obtain D where "q0 = q1\<lparr>vdesc := D, free_head := 0, num_free := qs\<rparr>"
      "vq_rep q0 (map of_nat [0..<unat qs]) []"
    using init_free_list_rep [of q1] q1 qs by auto
  then show ?thesis
    using q1 qs by (intro exI [of _ "map of_nat [0..<unat qs]"]) (simp add: vsys_rep_def vsys_start_def ring_holds_def)
qed

lemma poll_skip:
  assumes "used_idx q = last_used q" "i \<le> k" "k < VIRTQUEUE_POLL_MAX_SPINS" "\<forall>j. i \<le> j \<and> j < k \<longrightarrow> dev j q = q"
  shows "poll_from dev i q = poll_from dev k q"
  using assms(2,4)
proof (induction "k - i" arbitrary: i)
  case (Suc m)
  have limit: "\<not> VIRTQUEUE_POLL_MAX_SPINS \<le> i + 1" using Suc.hyps(2) assms(3) by linarith
  have "dev i q = q" using Suc by simp
  then have "poll_from dev i q = poll_from dev (i + 1) q"
    using limit by (subst poll_from.simps) (simp add: get_used_none [OF assms(1)])
  also have "\<dots> = poll_from dev k q" using Suc.hyps(2) Suc.prems by (intro Suc.hyps(1)) auto
  finally show ?case .
qed simp

section \<open>Properties\<close>

text \<open>C7: whatever order driver and device act in, a queue set up with a power-of-two size is
  two in-order channels over shared memory: the device reads exactly the requests that
  were submitted, in order and with every segment intact, the driver reaps exactly the
  completions the device wrote, in order, and every descriptor is either on the free list
  or in exactly one of the chains submitted and not yet reaped.\<close>

theorem virtqueue_channels_in_order:
  assumes "virtqueue_setup base qi max_size noff nb mul q = (True, w, q0)" "unat max_size dvd 65536"
    and "rtranclp vstep (vsys_start q0) s"
  shows "\<exists>free chs pub pend. vq_rep (vq s) free chs \<and>
    submitted s = fetched s @ pub \<and> (seen s = avail_idx (vq s) \<longrightarrow> pub = []) \<and>
    completed s = reaped s @ pend \<and> (last_used (vq s) = used_idx (vq s) \<longrightarrow> pend = []) \<and>
    length (submitted s) = length (reaped s) + length chs"
proof -
  have "\<exists>free chs pub pend. vsys_rep s free chs pub pend"
    using assms(3)
  proof (induction rule: rtranclp_induct)
    case base
    then show ?case using setup_rep [OF assms(1,2)] by blast
  next
    case (step y z)
    then show ?case using vstep_pres by blast
  qed
  then obtain free chs pub pend where inv: "vsys_rep s free chs pub pend" by blast
  then have "vq_size (vq s) \<le> VIRTQ_MAX_SIZE" by (simp add: vsys_rep_def vq_rep_def)
  then have "seen s = avail_idx (vq s) \<longrightarrow> pub = []" "last_used (vq s) = used_idx (vq s) \<longrightarrow> pend = []"
    using ring_empty [of _ "seen s" "avail_ring (vq s)" "map fst pub" "avail_idx (vq s)"]
      ring_empty [of _ "last_used (vq s)" "used_ring (vq s)" "map (\<lambda>(h, l). (ucast h, l)) pend" "used_idx (vq s)"]
      inv by (auto simp: vsys_rep_def)
  then show ?thesis
    using inv unfolding vsys_rep_def by (intro exI [of _ free] exI [of _ "map fst chs"] exI [of _ pub] exI [of _ pend]) auto
qed


definition demo_raw :: virtqueue where
  "demo_raw =
    \<lparr>vq_size = 0, free_head = 0, num_free = 0, last_used = 0, notify_addr = 0,
     desc_va = 0, avail_va = 0, used_va = 0,
     vdesc = (\<lambda>_. \<lparr>d_addr = 0, d_len = 0, d_flags = 0, d_next = 0\<rparr>), avail_idx = 0, avail_ring = (\<lambda>_. 0),
     used_idx = 0, used_ring = (\<lambda>_. (0, 0))\<rparr>"

definition demo_vq :: virtqueue where
  "demo_vq = snd (snd (virtqueue_setup 0 0 4 1 0x1000 4 demo_raw))"

definition demo_segs :: "virtq_seg list" where
  "demo_segs = [\<lparr>s_pa = 0x4000, s_len = 16, s_flags = 0\<rparr>, \<lparr>s_pa = 0x5000, s_len = 512, s_flags = 2\<rparr>]"

definition demo_submitted :: vsys where
  "demo_submitted = (vsys_start demo_vq)\<lparr>vq := snd (virtqueue_submit_chain demo_vq demo_segs 2), submitted := [(0, demo_segs)]\<rparr>"

theorem virtqueue_channels_in_order_witness:
  "\<exists>free chs pub pend. vq_rep (vq demo_submitted) free chs \<and>
    [(0, demo_segs)] = fetched demo_submitted @ pub \<and> (seen demo_submitted = avail_idx (vq demo_submitted) \<longrightarrow> pub = []) \<and>
    [] = reaped demo_submitted @ pend \<and> 1 = length chs"
proof -
  have su: "virtqueue_setup 0 0 4 1 0x1000 4 demo_raw =
      (True, fst (snd (virtqueue_setup 0 0 4 1 0x1000 4 demo_raw)), demo_vq)"
    unfolding demo_vq_def by (simp add: virtqueue_setup_def Let_def)
  have "fst (virtqueue_submit_chain demo_vq demo_segs 2) = 0" by code_simp
  then have "virtqueue_submit_chain (vq (vsys_start demo_vq)) demo_segs 2 =
      (0, snd (virtqueue_submit_chain demo_vq demo_segs 2))"
    by (metis prod.collapse vsys_start_def vsys.select_convs(1))
  then have "vstep (vsys_start demo_vq) ((vsys_start demo_vq)
      \<lparr>vq := snd (virtqueue_submit_chain demo_vq demo_segs 2), submitted := submitted (vsys_start demo_vq) @
        (if (0::u16) = VIRTQ_NO_DESC then [] else [(0, demo_segs)])\<rparr>)"
    by (rule vstep.submit) (simp_all add: demo_segs_def)
  then have step: "rtranclp vstep (vsys_start demo_vq) demo_submitted"
    by (simp add: demo_submitted_def vsys_start_def)
  show ?thesis
    using virtqueue_channels_in_order [OF su _ step] by (simp add: demo_submitted_def vsys_start_def)
qed


text \<open>Submitting a chain is all or nothing.  With no segment, or fewer free descriptors
  than segments, it fails and changes nothing; otherwise it takes exactly the first free
  descriptors and leaves a chain through which the device reads back the segments given.\<close>

theorem virtqueue_submit_chain_atomic:
  assumes "vq_rep q free chs" "length segs = unat n" "\<forall>g \<in> set segs. s_flags g AND VIRTQ_DESC_F_NEXT = 0"
  shows "if n = 0 \<or> length free < unat n then virtqueue_submit_chain q segs n = (VIRTQ_NO_DESC, q)
    else \<exists>q'. virtqueue_submit_chain q segs n = (hd free, q') \<and>
      vq_rep q' (drop (unat n) free) (take (unat n) free # chs) \<and>
      read_chain (vdesc q') (unat (vq_size q')) (hd free) = segs"
proof (cases "n = 0 \<or> length free < unat n")
  case True
  then show ?thesis using vq_rep_count(1) [OF assms(1)] by (simp add: virtqueue_submit_chain_def word_less_nat_alt)
next
  case False
  let ?c = "take (unat n) free"
  have n: "n \<noteq> 0" "n \<le> num_free q" using False vq_rep_count(1) [OF assms(1)] by (auto simp: word_le_nat_alt)
  have ev: "\<forall>g \<in> set segs. even (s_flags g)" using assms(3) and_one_odd by blast
  obtain q' where q': "virtqueue_submit_chain q segs n = (hd ?c, publish (hd ?c) q')"
    "vq_rep q' (drop (unat n) free) (?c # chs)" "map (\<lambda>i. desc_seg (vdesc q' i)) ?c = segs"
    using submit_chain_rep [OF assms(1) n assms(2) ev] by blast
  have "length ?c \<le> unat (vq_size q')" using vq_rep_count(2) [OF q'(2)] by simp
  moreover have "chain_ok (vdesc q') ?c" using q'(2) by (simp add: vq_rep_def)
  ultimately have "read_chain (vdesc q') (unat (vq_size q')) (hd ?c) = segs"
    using read_chain_ok q'(3) by metis
  moreover have "0 < unat n" using n(1) unat_eq_0 by blast
  then have "hd ?c = hd free" by (cases free; cases "unat n") auto
  ultimately show ?thesis using q' False by auto
qed

theorem virtqueue_submit_chain_atomic_witness:
  "\<exists>q'. virtqueue_submit_chain demo_vq demo_segs 2 = (0, q') \<and> vq_rep q' [2, 3] [[0, 1]] \<and>
    read_chain (vdesc q') (unat (vq_size q')) 0 = demo_segs"
proof -
  have "vq_rep demo_vq (map of_nat [0..<4]) []"
    unfolding demo_vq_def virtqueue_setup_def Let_def by (simp add: init_free_list_fresh)
  moreover have "map of_nat [0..<4] = [0, 1, 2, 3 :: u16]" by code_simp
  ultimately have "vq_rep demo_vq [0, 1, 2, 3] []" by simp
  from virtqueue_submit_chain_atomic [OF this, of demo_segs 2] show ?thesis by (simp add: demo_segs_def)
qed

text \<open>polling never hangs and misses no completion: if the device is silent it gives up
  after the spin limit with the queue unchanged, and a completion that appears at any look
  before the limit is taken and its length returned.\<close>

theorem virtqueue_poll_bounded:
  assumes "used_idx q = last_used q"
  shows "((\<forall>i. dev i q = q) \<longrightarrow> virtqueue_poll dev q = (0, q)) \<and>
    (\<forall>k h len q'. k < VIRTQUEUE_POLL_MAX_SPINS \<longrightarrow> (\<forall>i < k. dev i q = q) \<longrightarrow>
      virtqueue_get_used (dev k q) = (Some (h, len), q') \<longrightarrow> virtqueue_poll dev q = (len, q'))"
proof (intro conjI impI allI)
  assume "\<forall>i. dev i q = q"
  then have "virtqueue_poll dev q = poll_from dev (VIRTQUEUE_POLL_MAX_SPINS - 1) q"
    unfolding virtqueue_poll_def by (intro poll_skip [OF assms]) auto
  also have "\<dots> = (0, q)" using \<open>\<forall>i. dev i q = q\<close>
    by (subst poll_from.simps) (simp add: get_used_none [OF assms])
  finally show "virtqueue_poll dev q = (0, q)" .
next
  fix k h len q'
  assume k: "k < VIRTQUEUE_POLL_MAX_SPINS" "\<forall>i < k. dev i q = q" "virtqueue_get_used (dev k q) = (Some (h, len), q')"
  then have "virtqueue_poll dev q = poll_from dev k q"
    unfolding virtqueue_poll_def by (intro poll_skip [OF assms]) auto
  then show "virtqueue_poll dev q = (len, q')" using k(3) by (subst (asm) poll_from.simps) simp
qed

theorem virtqueue_poll_bounded_witness: "virtqueue_poll (\<lambda>i q. q) demo_raw = (0, demo_raw)"
  using virtqueue_poll_bounded [of demo_raw "\<lambda>i q. q"] by (simp add: demo_raw_def)


text \<open>submitting a single buffer is submitting the one-segment chain with the chain flag
  masked out, on every consistent queue, a full one included.\<close>

theorem virtqueue_submit_is_chain:
  assumes "vq_rep q free chs"
  shows "virtqueue_submit q pa len fl =
    virtqueue_submit_chain q [\<lparr>s_pa = pa, s_len = len, s_flags = fl AND NOT VIRTQ_DESC_F_NEXT\<rparr>] 1"
proof (cases free)
  case Nil
  then show ?thesis
    using free_head_rep [OF assms] assms
    by (simp add: virtqueue_submit_def virtqueue_submit_chain_def virtqueue_alloc_desc_def vq_rep_def)
next
  case (Cons x xs)
  then have "free_head q = x" "x \<noteq> VIRTQ_NO_DESC" "\<not> num_free q < 1"
    using free_head_rep [OF assms] free_not_sentinel(2) [OF assms, of x] vq_rep_count(1) [OF assms]
    by (simp_all add: word_less_nat_alt)
  then show ?thesis
    by (simp add: virtqueue_submit_def virtqueue_submit_chain_def virtqueue_alloc_desc_def)
qed

theorem virtqueue_submit_is_chain_witness:
  "virtqueue_submit demo_vq 0x4000 16 3 = virtqueue_submit_chain demo_vq [\<lparr>s_pa = 0x4000, s_len = 16, s_flags = 2\<rparr>] 1"
proof -
  have "vq_rep demo_vq (map of_nat [0..<4]) []"
    unfolding demo_vq_def virtqueue_setup_def Let_def by (simp add: init_free_list_fresh)
  from virtqueue_submit_is_chain [OF this, of "0x4000" 16 3] show ?thesis by simp
qed

end
