(* ===== verification/Virtio_Init.thy ===== *)
theory Virtio_Init
  imports Pci Virtqueue
begin

text \<open>
  What every VirtIO driver of \<^verbatim>\<open>src/pci/virtio\<close> does to bring its device up: find it on the bus, assign
  its windows, parse its capabilities, and run the initialisation sequence on the common configuration
  registers.  The device is a parameter, \<open>virtio_hw\<close>; the registers it keeps and the writes it has seen
  are the record \<open>transport\<close>.  The order the VirtIO specification (section 3.1.1) prescribes for those
  writes is an automaton, and the lemmas show that the shared steps are accepted by it.  A wait that
  never ends is the value \<open>None\<close>.
\<close>

section \<open>The device\<close>

record virtio_hw =
  can_reset :: bool
  offered_lo :: u32
  offered_hi :: u32
  accepts :: "u32 \<Rightarrow> u32 \<Rightarrow> bool"
  queue_max :: "u16 \<Rightarrow> u16"
  queue_noff :: "u16 \<Rightarrow> u16"

datatype bus_op = Status u8 | Reg mmio_op

record transport =
  status :: u8
  driver_lo :: u32
  driver_hi :: u32
  bus_ops :: "bus_op list"

text \<open>A write to the status register; the device keeps \<open>FEATURES_OK\<close> only when it accepts the
  features the driver chose.\<close>

definition write_status :: "virtio_hw \<Rightarrow> u8 \<Rightarrow> transport \<Rightarrow> transport" where
  "write_status hw v t =
    t\<lparr>status := (if accepts hw (driver_lo t) (driver_hi t) then v else v AND NOT 8), bus_ops := bus_ops t @ [Status v]\<rparr>"

definition add_status :: "virtio_hw \<Rightarrow> u8 \<Rightarrow> transport \<Rightarrow> transport" where
  "add_status hw b t = write_status hw (status t OR b) t"

definition reg_writes :: "mmio_op list \<Rightarrow> transport \<Rightarrow> transport" where
  "reg_writes ws t = t\<lparr>bus_ops := bus_ops t @ map Reg ws\<rparr>"

section \<open>The shared steps\<close>

definition virtio_reset :: "virtio_hw \<Rightarrow> transport \<Rightarrow> transport option" where
  "virtio_reset hw t = (if can_reset hw then Some (write_status hw 0 t) else None)"

definition write_features :: "u64 \<Rightarrow> u32 \<Rightarrow> u32 \<Rightarrow> transport \<Rightarrow> transport" where
  "write_features base lo hi t =
    (reg_writes [Write32 (base + 0x08) 0, Write32 (base + 0x0C) lo, Write32 (base + 0x08) 1, Write32 (base + 0x0C) hi] t)
      \<lparr>driver_lo := lo, driver_hi := hi\<rparr>"

text \<open>Steps 1 to 6: reset, acknowledge, driver, features, \<open>FEATURES_OK\<close> and its read back.  The result
  is whether the device agreed, the accepted low features, and the device.\<close>

definition virtio_negotiate :: "virtio_hw \<Rightarrow> u64 \<Rightarrow> bool \<Rightarrow> u32 \<Rightarrow> transport \<Rightarrow> (bool \<times> u32 \<times> transport) option" where
  "virtio_negotiate hw base need_v1 want_lo t =
    (case virtio_reset hw t of
       None \<Rightarrow> None
     | Some t0 \<Rightarrow>
        let t1 = add_status hw 1 t0;
            t2 = add_status hw 2 t1;
            t3 = reg_writes [Write32 base 0, Write32 base 1] t2
        in if need_v1 \<and> \<not> bit (offered_hi hw) 0 then Some (False, 0, t3)
           else let guest_lo = offered_lo hw AND want_lo;
                    guest_hi = offered_hi hw AND 1;
                    t4 = add_status hw 8 (write_features base guest_lo guest_hi t3)
                in Some (status t4 AND 8 \<noteq> 0, guest_lo, t4))"

definition setup_queue ::
  "virtio_hw \<Rightarrow> u64 \<Rightarrow> virtio_pci_caps \<Rightarrow> u16 \<Rightarrow> virtqueue \<Rightarrow> transport \<Rightarrow> bool \<times> virtqueue \<times> transport" where
  "setup_queue hw base caps i q t =
    (case virtqueue_setup base i (queue_max hw i) (queue_noff hw i) (notify_base caps) (notify_off_multiplier caps) q of
       (ok, ws, q') \<Rightarrow> (ok, q', reg_writes ws t))"

text \<open>The addresses of the three rings of a queue, static arrays of the driver.\<close>

definition place_rings :: "u64 \<times> u64 \<times> u64 \<Rightarrow> virtqueue \<Rightarrow> virtqueue" where
  "place_rings rings q = (case rings of (d, a, u) \<Rightarrow> q\<lparr>desc_va := d, avail_va := a, used_va := u\<rparr>)"

text \<open>Finding a device and mapping its registers.  The inner option is empty when the device is
  missing or is not an ordinary one.\<close>

definition virtio_probe ::
  "wmask \<Rightarrow> u16 \<Rightarrow> u16 \<Rightarrow> virtio_pci_caps \<Rightarrow> pci \<Rightarrow> ((pci_device \<times> virtio_pci_caps) option \<times> pci) option" where
  "virtio_probe wm vendor device caps p =
    (case pci_find_device vendor device p of
       None \<Rightarrow> Some (None, p)
     | Some dev \<Rightarrow>
        if pci_get_header_type dev p AND 0x7F \<noteq> 0 then Some (None, p)
        else let (dev1, p1) = pci_assign_bars wm dev p;
                 p2 = pci_enable_device wm dev1 p1
             in case virtio_parse_capabilities dev1 caps p2 of
                  None \<Rightarrow> None
                | Some caps1 \<Rightarrow> Some (Some (dev1, caps1), p2))"

section \<open>The order of initialisation\<close>

datatype phase = Fresh | Resetting | Acknowledged | Driving | Negotiated | Live | Failed

text \<open>The state of the automaton: the phase, the queue last selected and the queues enabled.\<close>

type_synonym protocol = "phase \<times> u16 \<times> u16 list"

fun advance :: "u64 \<Rightarrow> protocol \<Rightarrow> bus_op \<Rightarrow> protocol option" where
  "advance base (Fresh, q, qs) (Status v) = (if v = 0 then Some (Resetting, q, qs) else None)"
| "advance base (Resetting, q, qs) (Status v) = (if v = 1 then Some (Acknowledged, q, qs) else None)"
| "advance base (Acknowledged, q, qs) (Status v) = (if v = 3 then Some (Driving, q, qs) else None)"
| "advance base (Driving, q, qs) (Status v) = (if v = 11 then Some (Negotiated, q, qs) else if v = 128 then Some (Failed, q, qs) else None)"
| "advance base (Driving, q, qs) (Reg (Write32 a v)) =
    (if a - base \<in> {0, 8, 12} then Some (Driving, q, qs) else None)"
| "advance base (Negotiated, q, qs) (Status v) = (if v = 15 then Some (Live, q, qs) else if v = 128 then Some (Failed, q, qs) else None)"
| "advance base (Negotiated, q, qs) (Reg (Write16 a v)) =
    (if a - base = 0x16 then Some (Negotiated, v, qs)
     else if a - base = 0x1C then (if v = 1 \<and> q \<notin> set qs then Some (Negotiated, q, qs @ [q]) else None)
     else if a - base = 0x10 then Some (Negotiated, q, qs)
     else if a - base \<in> {0x18, 0x1A} \<and> q \<notin> set qs then Some (Negotiated, q, qs) else None)"
| "advance base (Negotiated, q, qs) (Reg (Write32 a v)) =
    (if a - base \<in> {0x20, 0x24, 0x28, 0x2C, 0x30, 0x34} \<and> q \<notin> set qs then Some (Negotiated, q, qs) else None)"
| "advance base st e = None"

fun accept :: "u64 \<Rightarrow> protocol \<Rightarrow> bus_op list \<Rightarrow> protocol option" where
  "accept base st [] = Some st"
| "accept base st (x # xs) = (case advance base st x of None \<Rightarrow> None | Some st' \<Rightarrow> accept base st' xs)"

lemma accept_append:
  "accept base st (xs @ ys) = (case accept base st xs of None \<Rightarrow> None | Some st' \<Rightarrow> accept base st' ys)"
  by (induction xs arbitrary: st) (auto split: option.splits)


text \<open>A bring-up conforms when its writes are accepted, and the device is live exactly when the driver
  took it into use; then every queue the driver needs is enabled, and the features chosen are the ones
  the driver wants among those offered, which the device has agreed to.\<close>

definition conforms :: "virtio_hw \<Rightarrow> u64 \<Rightarrow> u32 \<Rightarrow> u16 list \<Rightarrow> bool \<Rightarrow> transport \<Rightarrow> bool" where
  "conforms hw base want qs live t \<longleftrightarrow>
    (case accept base (Fresh, 0, []) (bus_ops t) of
       None \<Rightarrow> False
     | Some (ph, _, es) \<Rightarrow> (live \<longleftrightarrow> ph = Live) \<and>
         (live \<longrightarrow> es = qs \<and> driver_lo t = offered_lo hw AND want \<and> driver_hi t = offered_hi hw AND 1 \<and>
           accepts hw (driver_lo t) (driver_hi t)))"

definition fresh :: transport where
  "fresh = \<lparr>status = 0, driver_lo = 0, driver_hi = 0, bus_ops = []\<rparr>"

text \<open>A negotiated device: ready for its queues.\<close>

definition negotiated :: "virtio_hw \<Rightarrow> u64 \<Rightarrow> u32 \<Rightarrow> u16 list \<Rightarrow> transport \<Rightarrow> bool" where
  "negotiated hw base want qs t \<longleftrightarrow>
    (\<exists>q. accept base (Fresh, 0, []) (bus_ops t) = Some (Negotiated, q, qs)) \<and> status t = 11 \<and>
    driver_lo t = offered_lo hw AND want \<and> driver_hi t = offered_hi hw AND 1 \<and> accepts hw (driver_lo t) (driver_hi t)"

lemma virtio_negotiate_conforms:
  assumes "virtio_negotiate hw base v1 want fresh = Some (ok, lo, t)"
  shows "if ok then negotiated hw base want [] t \<and> lo = driver_lo t else conforms hw base want qs False t"
  using assms
  by (auto simp: virtio_negotiate_def virtio_reset_def fresh_def Let_def add_status_def write_status_def write_features_def
      reg_writes_def negotiated_def conforms_def split: if_splits)

lemma setup_queue_conforms:
  assumes "setup_queue hw base caps i q t = (ok, q', t')" "negotiated hw base want es t" "i \<notin> set es"
  shows "if ok then negotiated hw base want (es @ [i]) t' else conforms hw base want qs False t'"
proof -
  obtain ws where ws: "virtqueue_setup base i (queue_max hw i) (queue_noff hw i) (notify_base caps) (notify_off_multiplier caps) q = (ok, ws, q')"
    and t': "t' = reg_writes ws t"
    using assms(1) by (auto simp: setup_queue_def split: prod.splits)
  obtain s where s: "accept base (Fresh, 0, []) (bus_ops t) = Some (Negotiated, s, es)" using assms(2) by (auto simp: negotiated_def)
  have "accept base (Negotiated, s, es) (map Reg ws) = Some (Negotiated, i, if ok then es @ [i] else es)"
    using ws assms(3) by (auto simp: virtqueue_setup_def Let_def split: if_splits)
  then show ?thesis
    using s assms(2) by (auto simp: t' reg_writes_def negotiated_def conforms_def accept_append)
qed

lemma driver_ok_conforms:
  "negotiated hw base want qs t \<Longrightarrow> conforms hw base want qs True (add_status hw 4 t)"
  by (auto simp: negotiated_def conforms_def add_status_def write_status_def accept_append)

section \<open>One request at a time\<close>

text \<open>A queue with nothing in flight, and a device that answers the last request before the look with
  number \<open>k\<close>.\<close>

definition idle :: "virtqueue \<Rightarrow> bool" where
  "idle q \<longleftrightarrow> (\<exists>free. vq_rep q free []) \<and> used_idx q = last_used q"

definition serve :: "u32 \<Rightarrow> virtqueue \<Rightarrow> virtqueue" where
  "serve len q = complete (avail_ring q ((avail_idx q - 1) mod vq_size q)) len q"

definition answers :: "nat \<Rightarrow> u32 \<Rightarrow> vq_dev" where
  "answers k len = (\<lambda>i q. if i = k then serve len q else q)"

definition prompt :: "vq_dev \<Rightarrow> bool" where
  "prompt dev \<longleftrightarrow> (\<exists>k len. k < VIRTQUEUE_POLL_MAX_SPINS \<and> dev = answers k len)"

lemma idle_setup:
  assumes "virtqueue_setup base qi max_size noff nb mul q = (True, w, q0)" "unat max_size dvd 65536"
  shows "idle q0"
proof -
  obtain free where "vsys_rep (vsys_start q0) free [] [] []" using setup_rep [OF assms] by blast
  then show ?thesis by (auto simp: vsys_rep_def vsys_start_def idle_def ring_holds_def)
qed

lemma idle_setup_queue: "max_size \<noteq> 0 \<Longrightarrow> unat max_size dvd 65536 \<Longrightarrow> idle (snd (snd (virtqueue_setup base qi max_size noff nb mul q)))"
  by (rule idle_setup [where w = "fst (snd (virtqueue_setup base qi max_size noff nb mul q))"])
    (simp_all add: virtqueue_setup_def Let_def)

definition demo_queue :: virtqueue where
  "demo_queue = snd (snd (virtqueue_setup 0 0 4 0 0 0 \<lparr>vq_size = 0, free_head = 0, num_free = 0, last_used = 0, notify_addr = 0,
      desc_va = 0, avail_va = 0, used_va = 0, vdesc = (\<lambda>i. \<lparr>d_addr = 0, d_len = 0, d_flags = 0, d_next = 0\<rparr>),
      avail_idx = 0, avail_ring = (\<lambda>i. 0), used_idx = 0, used_ring = (\<lambda>i. (0, 0))\<rparr>))"

lemma demo_queue_idle: "idle demo_queue"
  unfolding demo_queue_def by (rule idle_setup_queue) simp_all

text \<open>A single buffer submitted to an idle queue, polled until the device has answered: the device saw
  the buffer, and the queue is idle again.\<close>

lemma transact:
  assumes q: "idle q" and dev: "prompt dev"
  obtains h q1 w q2 where "virtqueue_submit q pa len fl = (h, q1)" "h \<noteq> VIRTQ_NO_DESC"
    "desc_seg (vdesc q1 h) = \<lparr>s_pa = pa, s_len = len, s_flags = fl AND NOT VIRTQ_DESC_F_NEXT\<rparr>"
    "virtqueue_poll dev q1 = (w, q2)" "idle q2"
proof -
  obtain free where rep: "vq_rep q free []" and ui: "used_idx q = last_used q" using q by (auto simp: idle_def)
  let ?g = "\<lparr>s_pa = pa, s_len = len, s_flags = fl AND NOT VIRTQ_DESC_F_NEXT\<rparr>"
  have fl: "even (s_flags ?g)"
    by (simp add: even_and_iff even_not_iff)
  have nf: "1 \<le> num_free q"
    using vq_rep_count [OF rep] rep by (simp add: word_le_nat_alt vq_rep_def word_less_nat_alt)
  obtain h fr where f: "free = h # fr" using vq_rep_count [OF rep] nf by (cases free) (auto simp: word_le_nat_alt)
  obtain vq' where sub: "virtqueue_submit_chain q [?g] 1 = (h, publish h vq')" and rep': "vq_rep vq' fr [[h]]"
    and seg: "desc_seg (vdesc vq' h) = ?g" and fr: "last_used vq' = last_used q" "used_idx vq' = used_idx q"
    using submit_chain_rep [OF rep, of 1 "[?g]"] nf fl f by auto
  have h: "h < vq_size vq'" "h \<noteq> VIRTQ_NO_DESC" using free_not_sentinel [OF rep', of h] by simp_all
  obtain k l where k: "k < VIRTQUEUE_POLL_MAX_SPINS" "dev = answers k l" using dev by (auto simp: prompt_def)
  let ?q1 = "publish h vq'" and ?q2 = "complete h l (publish h vq')"
  have "poll_from dev 0 ?q1 = poll_from dev k ?q1"
    using k fr ui by (intro poll_skip) (auto simp: answers_def)
  moreover have "dev k ?q1 = ?q2" by (simp add: k answers_def serve_def)
  moreover have rep2: "vq_rep (?q2\<lparr>last_used := last_used ?q2 + 1\<rparr>) fr ([] @ [h] # [])"
    using rep' by (simp add: vq_rep_def complete_def)
  moreover have "virtqueue_get_used ?q2 = (Some (h, l), virtqueue_free_chain (?q2\<lparr>last_used := last_used ?q2 + 1\<rparr>) h)"
    using h fr ui by (intro get_used_some) (simp_all add: complete_def)
  moreover obtain D fh nf' where fc: "virtqueue_free_chain (?q2\<lparr>last_used := last_used ?q2 + 1\<rparr>) h =
      (?q2\<lparr>last_used := last_used ?q2 + 1\<rparr>)\<lparr>vdesc := D, free_head := fh, num_free := nf'\<rparr>"
    "vq_rep ((?q2\<lparr>last_used := last_used ?q2 + 1\<rparr>)\<lparr>vdesc := D, free_head := fh, num_free := nf'\<rparr>) (rev [h] @ fr) ([] @ [])"
    using free_chain_rep [OF rep2] by auto
  ultimately have poll: "virtqueue_poll dev ?q1 = (l, (?q2\<lparr>last_used := last_used ?q2 + 1\<rparr>)\<lparr>vdesc := D, free_head := fh, num_free := nf'\<rparr>)"
    unfolding virtqueue_poll_def using poll_from.simps [of dev k ?q1] by simp
  have "idle ((?q2\<lparr>last_used := last_used ?q2 + 1\<rparr>)\<lparr>vdesc := D, free_head := fh, num_free := nf'\<rparr>)"
    using fc(2) fr ui by (auto simp: idle_def complete_def)
  moreover have "virtqueue_submit q pa len fl = (h, ?q1)" using virtqueue_submit_is_chain [OF rep] sub by simp
  ultimately show thesis using that poll h seg by simp
qed


text \<open>The length of the next piece of a transfer cut into pieces of at most \<open>most\<close> units.\<close>

lemma next_chunk:
  fixes count dn most :: u32
  assumes "dn < count"
  defines "chunk \<equiv> if count - dn > most then most else count - dn"
  shows "unat chunk = min (unat most) (unat count - unat dn)" "unat (dn + chunk) = unat dn + unat chunk" "0 < unat count - unat dn"
    "unat count - unat (dn + chunk) = unat count - unat dn - unat most"
proof -
  have d: "unat (count - dn) = unat count - unat dn" "unat dn < unat count"
    using assms(1) by (simp_all add: unat_sub word_le_nat_alt word_less_nat_alt)
  then show c: "unat chunk = min (unat most) (unat count - unat dn)" by (auto simp: chunk_def word_less_nat_alt)
  show a: "unat (dn + chunk) = unat dn + unat chunk" using d c unat_lt_32 [of count] by (simp add: unat_word_ariths)
  show "0 < unat count - unat dn" using d by simp
  show "unat count - unat (dn + chunk) = unat count - unat dn - unat most" unfolding a c by simp
qed

lemma chunk_decreases:
  fixes count dn most :: u32
  assumes "dn < count" "0 < unat most" "chunk = (if count - dn > most then most else count - dn)"
  shows "unat (count - (dn + chunk)) < unat (count - dn)"
proof -
  define d where "d = count - dn"
  have d: "0 < unat d" "chunk = (if d > most then most else d)" using assms by (auto simp: d_def unat_gt_0)
  then have lt: "unat (d - chunk) < unat d" using assms(2) by (auto simp: unat_sub word_le_nat_alt word_less_nat_alt)
  have eq: "count - (dn + chunk) = d - chunk" by (simp add: d_def)
  show ?thesis unfolding eq d_def [symmetric] by (rule lt)
qed

end
