(* ===== verification/Rng.thy ===== *)
theory Rng
  imports Virtio_Init
begin

text \<open>
  The entropy driver, \<^verbatim>\<open>src/pci/virtio/rng/rng.c\<close>: bringing the device up and reading random bytes
  through the 256-byte bounce buffer.  The device is given by \<open>dev\<close>, what it does to the queue while the
  driver polls for the request with that number, and \<open>fill\<close>, what it makes of the bounce buffer.
\<close>

record rng =
  rng_caps :: virtio_pci_caps
  rng_vq :: virtqueue
  rng_buf :: "u8 list"
  rng_buf_va :: u64
  rng_rings :: "u64 \<times> u64 \<times> u64"

abbreviation (input) RNG_BUF_SIZE :: u32 where "RNG_BUF_SIZE \<equiv> 256"

section \<open>Operations\<close>

function rng_from ::
  "(nat \<Rightarrow> vq_dev) \<Rightarrow> (nat \<Rightarrow> u8 list \<Rightarrow> u8 list) \<Rightarrow> u32 \<Rightarrow> nat \<Rightarrow> u32 \<Rightarrow> u8 list \<Rightarrow> rng \<Rightarrow> u32 \<times> u8 list \<times> rng" where
  "rng_from dev fill count k done out r =
    (if done < count
     then let chunk = (if count - done > RNG_BUF_SIZE then RNG_BUF_SIZE else count - done);
              (_, q1) = virtqueue_submit (rng_vq r) (VIRT_TO_PHYS (rng_buf_va r)) chunk VIRTQ_DESC_F_WRITE;
              (_, q2) = virtqueue_poll (dev k) q1;
              buf = fill k (rng_buf r)
          in rng_from dev fill count (Suc k) (done + chunk) (out @ take (unat chunk) buf) (r\<lparr>rng_vq := q2, rng_buf := buf\<rparr>)
     else (done, out, r))"
  by pat_completeness auto
termination
proof (relation "measure (\<lambda>(dev, fill, count, k, done, out, r). unat (count - done))", goal_cases)
  case (2 dev fill count k "done" out r chunk)
  then show ?case using chunk_decreases [OF 2(1) _ 2(2)] by simp
qed simp

declare rng_from.simps [simp del]

definition rng_read :: "(nat \<Rightarrow> vq_dev) \<Rightarrow> (nat \<Rightarrow> u8 list \<Rightarrow> u8 list) \<Rightarrow> u32 \<Rightarrow> rng \<Rightarrow> int \<times> u8 list \<times> rng" where
  "rng_read dev fill count r = (case rng_from dev fill count 0 0 [] r of (done, out, r') \<Rightarrow> (sint done, out, r'))"

text \<open>Bringing the device up once its registers are mapped: whether it is live, the device, the driver.\<close>

definition rng_bringup :: "virtio_hw \<Rightarrow> virtio_pci_caps \<Rightarrow> transport \<Rightarrow> rng \<Rightarrow> (bool \<times> transport \<times> rng) option" where
  "rng_bringup hw caps t r =
    (case virtio_negotiate hw (common_cfg caps) False 0 t of
       None \<Rightarrow> None
     | Some (ok, _, t1) \<Rightarrow>
        if \<not> ok then Some (False, t1, r)
        else case setup_queue hw (common_cfg caps) caps 0 (place_rings (rng_rings r) (rng_vq r)) t1 of
               (ok, q, t2) \<Rightarrow>
                 if \<not> ok then Some (False, t2, r\<lparr>rng_vq := q\<rparr>)
                 else Some (True, add_status hw 4 t2, r\<lparr>rng_vq := q\<rparr>))"

definition pci_virtio_rng_init :: "wmask \<Rightarrow> virtio_hw \<Rightarrow> pci \<Rightarrow> transport \<Rightarrow> rng \<Rightarrow> (pci \<times> transport \<times> rng) option" where
  "pci_virtio_rng_init wm hw p t r =
    (case virtio_probe wm 0x1AF4 0x1044 (rng_caps r) p of
       None \<Rightarrow> None
     | Some (None, p1) \<Rightarrow> Some (p1, t, r)
     | Some (Some (_, caps), p1) \<Rightarrow>
        (case rng_bringup hw caps t (r\<lparr>rng_caps := caps\<rparr>) of
           None \<Rightarrow> None
         | Some (_, t1, r1) \<Rightarrow> Some (p1, t1, r1)))"

section \<open>Reading\<close>

text \<open>The bounce buffer before the request with a given number.\<close>

primrec buf_before :: "(nat \<Rightarrow> u8 list \<Rightarrow> u8 list) \<Rightarrow> u8 list \<Rightarrow> nat \<Rightarrow> u8 list" where
  "buf_before fill b 0 = b"
| "buf_before fill b (Suc k) = fill k (buf_before fill b k)"

text \<open>The bytes a read of \<open>n\<close> bytes delivers, starting with the request with number \<open>k\<close>.\<close>

definition delivered :: "(nat \<Rightarrow> u8 list \<Rightarrow> u8 list) \<Rightarrow> u8 list \<Rightarrow> nat \<Rightarrow> nat \<Rightarrow> u8 list" where
  "delivered fill b k n = concat (map (\<lambda>(off, l). take l (buf_before fill b (Suc (k + off div 256)))) (tiles 256 n))"

lemma delivered_0 [simp]: "delivered fill b k 0 = []"
  by (simp add: delivered_def)

lemma delivered_step:
  "0 < n \<Longrightarrow> delivered fill b k n = take (min 256 n) (buf_before fill b (Suc k)) @ delivered fill b (Suc k) (n - 256)"
  by (simp add: delivered_def tiles_step case_prod_unfold comp_def div_add_self2 [where b = "256 :: nat", simplified])

lemma rng_from_result:
  assumes "dn \<le> count" "rng_buf r = buf_before fill b k"
  shows "\<exists>r'. rng_from dev fill count k dn out r = (count, out @ delivered fill b k (unat count - unat dn), r')"
  using assms
proof (induction dev fill count k dn out r rule: rng_from.induct)
  case (1 dev fill count k dn out r)
  show ?case
  proof (cases "dn < count")
    case False
    then have "dn = count" using "1.prems" by simp
    then show ?thesis by (subst rng_from.simps) simp
  next
    case True
    define chunk where "chunk = (if count - dn > RNG_BUF_SIZE then RNG_BUF_SIZE else count - dn)"
    note c = next_chunk(1,2,4) [OF True, where most = RNG_BUF_SIZE, folded chunk_def, simplified]
    have pos: "0 < unat count - unat dn" by (rule next_chunk(3) [OF True])
    obtain h q1 where q1: "virtqueue_submit (rng_vq r) (VIRT_TO_PHYS (rng_buf_va r)) chunk VIRTQ_DESC_F_WRITE = (h, q1)" by fastforce
    obtain w q2 where q2: "virtqueue_poll (dev k) q1 = (w, q2)" by fastforce
    let ?r = "r\<lparr>rng_vq := q2, rng_buf := fill k (rng_buf r)\<rparr>"
    have "\<exists>r'. rng_from dev fill count (Suc k) (dn + chunk) (out @ take (unat chunk) (fill k (rng_buf r))) ?r =
        (count, (out @ take (unat chunk) (fill k (rng_buf r))) @ delivered fill b (Suc k) (unat count - unat (dn + chunk)), r')"
    proof (rule "1.IH" [OF True chunk_def q1 [symmetric] refl q2 [symmetric] refl refl])
      show "dn + chunk \<le> count" using c pos unfolding word_le_nat_alt by linarith
    qed (use "1.prems" in simp)
    moreover have "rng_from dev fill count k dn out r =
        rng_from dev fill count (Suc k) (dn + chunk) (out @ take (unat chunk) (fill k (rng_buf r))) ?r"
      using True q1 q2 by (simp add: rng_from.simps [of dev fill count k dn] chunk_def [symmetric] Let_def)
    ultimately show ?thesis using c "1.prems" delivered_step [OF pos, of fill b k] by simp
  qed
qed


lemma rng_from_idle:
  assumes "idle (rng_vq r)" "\<And>k. prompt (dev k)" "rng_from dev fill count k dn out r = (d, bs, r')"
  shows "idle (rng_vq r')"
  using assms
proof (induction dev fill count k dn out r rule: rng_from.induct)
  case (1 dev fill count k dn out r)
  show ?case
  proof (cases "dn < count")
    case False
    then show ?thesis using "1.prems" by (simp add: rng_from.simps [of dev fill count k dn])
  next
    case True
    define chunk where "chunk = (if count - dn > RNG_BUF_SIZE then RNG_BUF_SIZE else count - dn)"
    obtain h q1 w q2 where q: "virtqueue_submit (rng_vq r) (VIRT_TO_PHYS (rng_buf_va r)) chunk VIRTQ_DESC_F_WRITE = (h, q1)"
      "virtqueue_poll (dev k) q1 = (w, q2)" "idle q2"
      using transact [OF "1.prems"(1,2)] by metis
    show ?thesis
    proof (rule "1.IH" [OF True chunk_def q(1) [symmetric] refl q(2) [symmetric] refl refl])
      show "rng_from dev fill count (Suc k) (dn + chunk) (out @ take (unat chunk) (fill k (rng_buf r)))
          (r\<lparr>rng_vq := q2, rng_buf := fill k (rng_buf r)\<rparr>) = (d, bs, r')"
        using "1.prems"(3) True q by (simp add: rng_from.simps [of dev fill count k dn] chunk_def [symmetric] Let_def)
    qed (use q "1.prems" in simp_all)
  qed
qed

lemma length_buf_before: "(\<And>k b. length (fill k b) = length b) \<Longrightarrow> length (buf_before fill b k) = length b"
  by (induction k) simp_all

lemma length_delivered:
  assumes "\<And>k b. length (fill k b) = length b" "length b = 256"
  shows "length (delivered fill b k n) = n"
proof -
  have "(0 :: nat) < 256" by simp
  then show ?thesis
  proof (induction n arbitrary: k rule: tiles_induct)
    case (piece n)
    then show ?case using length_buf_before [of fill b "Suc k"] assms by (simp add: delivered_step del: buf_before.simps)
  qed simp
qed

section \<open>Properties\<close>

text \<open>On an idle queue, and with a device that answers every request before the driver stops polling,
  a read of any length returns the length asked for and exactly that many bytes: for each request in
  turn, the bytes the device then left in the bounce buffer; the queue is idle again, so that reads can
  follow each other without end.\<close>

theorem rng_read_delivers:
  assumes "idle (rng_vq r)" "\<And>k. prompt (dev k)" "length (rng_buf r) = 256" "\<And>k b. length (fill k b) = length b"
  shows "\<exists>bs r'. rng_read dev fill count r = (sint count, bs, r') \<and> length bs = unat count \<and> idle (rng_vq r') \<and>
    bs = concat (map (\<lambda>(off, l). take l (buf_before fill (rng_buf r) (Suc (off div 256)))) (tiles 256 (unat count)))"
proof -
  obtain r' where r': "rng_from dev fill count 0 0 [] r = (count, delivered fill (rng_buf r) 0 (unat count), r')"
    using rng_from_result [of 0 count r fill "rng_buf r" 0 dev "[]"] by auto
  moreover have "idle (rng_vq r')" using rng_from_idle [OF assms(1,2) r'] .
  moreover have "length (delivered fill (rng_buf r) 0 (unat count)) = unat count" by (rule length_delivered [OF assms(4,3)])
  ultimately show ?thesis by (simp add: rng_read_def delivered_def del: buf_before.simps)
qed

definition demo_rng :: rng where
  "demo_rng = \<lparr>rng_caps = \<lparr>common_cfg = 0, notify_base = 0, isr_cfg = 0, device_cfg = 0, notify_off_multiplier = 0\<rparr>,
    rng_vq = demo_queue, rng_buf = replicate 256 0, rng_buf_va = 0xFFFF000040100000, rng_rings = (0, 0, 0)\<rparr>"

theorem rng_read_delivers_witness:
  "\<exists>r'. rng_read (\<lambda>k. answers 3 256) (\<lambda>k b. replicate (length b) (of_nat k + 1)) 300 demo_rng =
    (300, replicate 256 1 @ replicate 44 2, r')"
proof -
  have t: "tiles 256 300 = [(0, 256), (256, 44)]" by (simp add: tiles_step)
  have p: "\<And>k. prompt ((\<lambda>k :: nat. answers 3 256) k)" unfolding prompt_def by (intro exI [of _ 3] exI [of _ 256]) simp
  show ?thesis
    using rng_read_delivers [of demo_rng "\<lambda>k. answers 3 256" "\<lambda>k b. replicate (length b) (of_nat k + 1)" 300, OF _ p]
    by (auto simp: t demo_rng_def demo_queue_idle)
qed

text \<open>A device that never answers goes unnoticed: the driver returns the stale bounce buffer as random
  bytes, with the length asked for.\<close>

lemma rng_read_silent_device:
  assumes "count \<noteq> 0" "unat count \<le> 256"
  shows "\<exists>r'. rng_read (\<lambda>k i q. q) (\<lambda>k b. b) count r = (sint count, take (unat count) (rng_buf r), r')"
proof -
  have "0 < unat count" using assms by (simp add: unat_gt_0)
  then show ?thesis
    using rng_from_result [of 0 count r "\<lambda>k b. b" "rng_buf r" 0 "\<lambda>k i q. q" "[]"] assms
    by (auto simp: rng_read_def delivered_step)
qed

end
