(* ===== verification/Console.thy ===== *)
theory Console
  imports Virtio_Init
begin

text \<open>
  The console driver, \<^verbatim>\<open>src/pci/virtio/console/console.c\<close>: bringing the device up and sending bytes
  through the 4096-byte staging buffer.  The device is given by \<open>dev\<close>, what it does to the transmit
  queue while the driver polls for the chunk with that number; \<open>sent\<close> collects the contents of the
  staging buffer each time the device is notified.
\<close>

record console =
  con_ready :: bool
  con_caps :: virtio_pci_caps
  con_rx_vq :: virtqueue
  con_tx_vq :: virtqueue
  tx_buf :: "u8 list"
  tx_buf_va :: u64
  con_rx_rings :: "u64 \<times> u64 \<times> u64"
  con_tx_rings :: "u64 \<times> u64 \<times> u64"

abbreviation (input) CONSOLE_TX_BUF :: u32 where "CONSOLE_TX_BUF \<equiv> 4096"

section \<open>Operations\<close>

function send_from ::
  "(nat \<Rightarrow> vq_dev) \<Rightarrow> u8 list \<Rightarrow> u32 \<Rightarrow> nat \<Rightarrow> u32 \<Rightarrow> u8 list list \<Rightarrow> console \<Rightarrow> u32 \<times> u8 list list \<times> console" where
  "send_from dev src len k done sent c =
    (if done < len
     then let chunk = (if len - done > CONSOLE_TX_BUF then CONSOLE_TX_BUF else len - done);
              buf = take (unat chunk) (drop (unat done) src) @ drop (unat chunk) (tx_buf c);
              (_, q1) = virtqueue_submit (con_tx_vq c) (VIRT_TO_PHYS (tx_buf_va c)) chunk 0;
              (_, q2) = virtqueue_poll (dev k) q1
          in send_from dev src len (Suc k) (done + chunk) (sent @ [take (unat chunk) buf]) (c\<lparr>tx_buf := buf, con_tx_vq := q2\<rparr>)
     else (done, sent, c))"
  by pat_completeness auto
termination
proof (relation "measure (\<lambda>(dev, src, len, k, done, sent, c). unat (len - done))", goal_cases)
  case (2 dev src len k "done" sent c chunk)
  then show ?case using chunk_decreases [OF 2(1) _ 2(2)] by simp
qed simp

declare send_from.simps [simp del]

definition vcons_send :: "(nat \<Rightarrow> vq_dev) \<Rightarrow> u8 list \<Rightarrow> u32 \<Rightarrow> console \<Rightarrow> int \<times> u8 list list \<times> console" where
  "vcons_send dev src len c =
    (if \<not> con_ready c then (-1, [], c)
     else if len = 0 then (0, [], c)
     else case send_from dev src len 0 0 [] c of (done, sent, c') \<Rightarrow> (sint done, sent, c'))"

definition con_bringup :: "virtio_hw \<Rightarrow> virtio_pci_caps \<Rightarrow> transport \<Rightarrow> console \<Rightarrow> (bool \<times> transport \<times> console) option" where
  "con_bringup hw caps t c =
    (case virtio_negotiate hw (common_cfg caps) False 0 t of
       None \<Rightarrow> None
     | Some (ok, _, t1) \<Rightarrow>
        if \<not> ok then Some (False, t1, c)
        else case setup_queue hw (common_cfg caps) caps 0 (place_rings (con_rx_rings c) (con_rx_vq c)) t1 of
               (ok, q, t2) \<Rightarrow>
                 if \<not> ok then Some (False, t2, c\<lparr>con_rx_vq := q\<rparr>)
                 else case setup_queue hw (common_cfg caps) caps 1 (place_rings (con_tx_rings c) (con_tx_vq c)) t2 of
                        (ok, q', t3) \<Rightarrow>
                          if \<not> ok then Some (False, t3, c\<lparr>con_rx_vq := q, con_tx_vq := q'\<rparr>)
                          else Some (True, add_status hw 4 t3, c\<lparr>con_rx_vq := q, con_tx_vq := q', con_ready := True\<rparr>))"

text \<open>\<open>banner\<close> is the message sent once the device is live.\<close>

definition banner :: "u8 list" where
  "banner = map of_char ''[Fermi OS] virtio-console attached. Hello from guest!\<newline>''"

definition pci_virtio_console_init ::
  "wmask \<Rightarrow> virtio_hw \<Rightarrow> (nat \<Rightarrow> vq_dev) \<Rightarrow> pci \<Rightarrow> transport \<Rightarrow> console \<Rightarrow> (pci \<times> transport \<times> u8 list list \<times> console) option" where
  "pci_virtio_console_init wm hw dev p t c =
    (case virtio_probe wm 0x1AF4 0x1043 (con_caps c) p of
       None \<Rightarrow> None
     | Some (None, p1) \<Rightarrow> Some (p1, t, [], c)
     | Some (Some (_, caps), p1) \<Rightarrow>
        (case con_bringup hw caps t (c\<lparr>con_caps := caps\<rparr>) of
           None \<Rightarrow> None
         | Some (live, t1, c1) \<Rightarrow>
            if live then case vcons_send dev banner (of_nat (length banner)) c1 of (_, sent, c2) \<Rightarrow> Some (p1, t1, sent, c2)
            else Some (p1, t1, [], c1)))"

section \<open>Sending\<close>

definition chunks :: "u8 list \<Rightarrow> nat \<Rightarrow> nat \<Rightarrow> u8 list list" where
  "chunks src dn n = map (\<lambda>(off, l). take l (drop (dn + off) src)) (tiles 4096 n)"

lemma chunks_step: "0 < n \<Longrightarrow> chunks src dn n = take (min 4096 n) (drop dn src) # chunks src (dn + 4096) (n - 4096)"
  by (simp add: chunks_def tiles_step case_prod_unfold comp_def ac_simps)

lemma concat_chunks: "dn + n \<le> length src \<Longrightarrow> concat (chunks src dn n) = take n (drop dn src)"
proof -
  have "(0 :: nat) < 4096" by simp
  then show "dn + n \<le> length src \<Longrightarrow> concat (chunks src dn n) = take n (drop dn src)"
  proof (induction n arbitrary: dn rule: tiles_induct)
    case (piece n)
    show ?case
    proof (cases "n \<le> 4096")
      case True
      then show ?thesis using piece by (simp add: chunks_step) (simp add: chunks_def)
    next
      case False
      then have "take n (drop dn src) = take 4096 (drop dn src) @ take (n - 4096) (drop (dn + 4096) src)"
        using take_add [of 4096 "n - 4096" "drop dn src"] by (simp add: add.commute)
      then show ?thesis using False piece.IH [of "dn + 4096"] piece.prems chunks_step [OF piece.hyps, of src dn] by simp
    qed
  qed (simp add: chunks_def)
qed

lemma send_from_result:
  assumes "dn \<le> len" "unat len \<le> length src"
  shows "\<exists>c'. send_from dev src len k dn sent c = (len, sent @ chunks src (unat dn) (unat len - unat dn), c') \<and>
    ((\<forall>k. prompt (dev k)) \<longrightarrow> idle (con_tx_vq c) \<longrightarrow> idle (con_tx_vq c'))"
  using assms
proof (induction dev src len k dn sent c rule: send_from.induct)
  case (1 dev src len k dn sent c)
  show ?case
  proof (cases "dn < len")
    case False
    then have "dn = len" using "1.prems" by simp
    then show ?thesis by (subst send_from.simps) (simp add: chunks_def)
  next
    case True
    define chunk where "chunk = (if len - dn > CONSOLE_TX_BUF then CONSOLE_TX_BUF else len - dn)"
    define buf where "buf = take (unat chunk) (drop (unat dn) src) @ drop (unat chunk) (tx_buf c)"
    note n = next_chunk(1,2,4) [OF True, where most = CONSOLE_TX_BUF, folded chunk_def, simplified]
    have pos: "0 < unat len - unat dn" by (rule next_chunk(3) [OF True])
    obtain h q1 where q1: "virtqueue_submit (con_tx_vq c) (VIRT_TO_PHYS (tx_buf_va c)) chunk 0 = (h, q1)" by fastforce
    obtain w q2 where q2: "virtqueue_poll (dev k) q1 = (w, q2)" by fastforce
    let ?c = "c\<lparr>tx_buf := buf, con_tx_vq := q2\<rparr>" and ?sent = "sent @ [take (unat chunk) buf]"
    have le: "dn + chunk \<le> len" using n pos unfolding word_le_nat_alt by linarith
    have "unat chunk \<le> length src - unat dn" using n "1.prems" by linarith
    then have buf: "take (unat chunk) buf = take (min 4096 (unat len - unat dn)) (drop (unat dn) src)"
      using n by (simp add: buf_def)
    obtain c' where c': "send_from dev src len (Suc k) (dn + chunk) ?sent ?c =
          (len, ?sent @ chunks src (unat (dn + chunk)) (unat len - unat (dn + chunk)), c')"
        "(\<forall>k. prompt (dev k)) \<longrightarrow> idle q2 \<longrightarrow> idle (con_tx_vq c')"
      using "1.IH" [OF True chunk_def buf_def q1 [symmetric] refl q2 [symmetric] refl le] "1.prems" by auto
    have "send_from dev src len k dn sent c = send_from dev src len (Suc k) (dn + chunk) ?sent ?c"
      using True q1 q2 unfolding buf_def by (simp add: send_from.simps [of dev src len k dn] chunk_def [symmetric] Let_def)
    moreover have "chunks src (unat (dn + chunk)) (unat len - unat (dn + chunk)) = chunks src (unat dn + 4096) (unat len - unat dn - 4096)"
      using n by (cases "unat len - unat dn \<le> 4096") (simp_all add: chunks_def)
    moreover have "idle q2" if "\<forall>k. prompt (dev k)" "idle (con_tx_vq c)"
      using transact [of "con_tx_vq c" "dev k" "VIRT_TO_PHYS (tx_buf_va c)" chunk 0] that q1 q2 by (metis prod.inject)
    ultimately show ?thesis using c' buf chunks_step [OF pos, of src "unat dn"] by auto
  qed
qed

section \<open>Properties\<close>


definition demo_console :: console where
  "demo_console = \<lparr>con_ready = True, con_caps = \<lparr>common_cfg = 0, notify_base = 0, isr_cfg = 0, device_cfg = 0, notify_off_multiplier = 0\<rparr>,
    con_rx_vq = demo_queue, con_tx_vq = demo_queue, tx_buf = replicate 4096 0, tx_buf_va = 0xFFFF000040200000, con_rx_rings = (0, 0, 0), con_tx_rings = (0, 0, 0)\<rparr>"


text \<open>The result does not depend on the device: a device that never takes a byte goes unnoticed.\<close>

lemma vcons_send_ignores_device:
  assumes "con_ready c" "len \<noteq> 0" "unat len \<le> length src"
  shows "fst (vcons_send dev src len c) = sint len"
  using send_from_result [of 0 len src dev 0 "[]" c] assms by (auto simp: vcons_send_def)

end
