(* ===== verification/Balloon.thy ===== *)
theory Balloon
  imports Virtio_Init
begin

text \<open>
  The memory balloon, \<^verbatim>\<open>src/pci/virtio/balloon/balloon.c\<close>, over the page allocator: pages handed to the
  host and reclaimed from it in last-in first-out order, tracked in a table of 1024 page frame numbers.
  The state extends that of the allocator; the device is given by what it does to a queue while the
  driver polls, and \<open>actual_reg\<close> is its register for the size of the balloon.
\<close>

record balloon = pmm +
  bln_ready :: bool
  bln_caps :: virtio_pci_caps
  inflate_vq :: virtqueue
  deflate_vq :: virtqueue
  actual :: u32
  pfn_buf :: "nat \<Rightarrow> u32"
  inflated_pfns :: "nat \<Rightarrow> u32"
  pfn_buf_va :: u64
  actual_reg :: u32
  inflate_rings :: "u64 \<times> u64 \<times> u64"
  deflate_rings :: "u64 \<times> u64 \<times> u64"

abbreviation (input) VIRTIO_BALLOON_MAX_PAGES :: u32 where "VIRTIO_BALLOON_MAX_PAGES \<equiv> 1024"
abbreviation (input) VIRTIO_BALLOON_PFN_SHIFT :: nat where "VIRTIO_BALLOON_PFN_SHIFT \<equiv> 12"

section \<open>Operations\<close>

definition submit_pfn_batch :: "vq_dev \<Rightarrow> u64 \<Rightarrow> u32 \<Rightarrow> virtqueue \<Rightarrow> int \<times> virtqueue" where
  "submit_pfn_batch dev buf_va count q =
    (if count = 0 then (0, q)
     else let (_, q1) = virtqueue_submit q (VIRT_TO_PHYS buf_va) (count * 4) 0;
              (_, q2) = virtqueue_poll dev q1
          in (0, q2))"

definition publish_actual :: "balloon \<Rightarrow> balloon" where
  "publish_actual s = (if device_cfg (bln_caps s) = 0 then s else s\<lparr>actual_reg := actual s\<rparr>)"

text \<open>The allocation loop of an inflation: the number of pages staged so far and the state.\<close>

fun stage_pages :: "nat \<Rightarrow> nat \<Rightarrow> balloon \<Rightarrow> nat \<times> balloon" where
  "stage_pages 0 got s = (got, s)"
| "stage_pages (Suc k) got s =
    (case pmm_allocate_page s of
       (pa, s1) \<Rightarrow>
         if pa = 0 then (got, s1)
         else let pfn = ucast (drop_bit VIRTIO_BALLOON_PFN_SHIFT pa)
              in stage_pages k (Suc got)
                   (s1\<lparr>pfn_buf := (pfn_buf s1)(got := pfn), inflated_pfns := (inflated_pfns s1)(unat (actual s1) + got := pfn)\<rparr>))"

definition free_staged :: "nat \<Rightarrow> balloon \<Rightarrow> balloon" where
  "free_staged n s = fold (\<lambda>i s. pmm_free_page (push_bit VIRTIO_BALLOON_PFN_SHIFT (ucast (pfn_buf s i))) s) [0..<n] s"

definition balloon_inflate :: "vq_dev \<Rightarrow> u32 \<Rightarrow> balloon \<Rightarrow> int \<times> balloon" where
  "balloon_inflate dev n s =
    (if \<not> bln_ready s then (-1, s)
     else let headroom = VIRTIO_BALLOON_MAX_PAGES - actual s;
              n' = (if n > headroom then headroom else n)
          in if n' = 0 then (0, s)
             else let (got, s1) = stage_pages (unat n') 0 s
                  in if got = 0 then (0, s1)
                     else let (rc, q) = submit_pfn_batch dev (pfn_buf_va s1) (of_nat got) (inflate_vq s1);
                              s2 = s1\<lparr>inflate_vq := q\<rparr>
                          in if rc < 0 then (-1, free_staged got s2)
                             else (int got, publish_actual (s2\<lparr>actual := actual s2 + of_nat got\<rparr>)))"

definition balloon_deflate :: "vq_dev \<Rightarrow> u32 \<Rightarrow> balloon \<Rightarrow> int \<times> balloon" where
  "balloon_deflate dev n s =
    (if \<not> bln_ready s then (-1, s)
     else let n' = (if n > actual s then actual s else n)
          in if n' = 0 then (0, s)
             else let base = unat (actual s - n');
                      s1 = s\<lparr>pfn_buf := (\<lambda>i. if i < unat n' then inflated_pfns s (base + i) else pfn_buf s i)\<rparr>;
                      (rc, q) = submit_pfn_batch dev (pfn_buf_va s1) n' (deflate_vq s1);
                      s2 = s1\<lparr>deflate_vq := q\<rparr>
                  in if rc < 0 then (-1, s2)
                     else let s3 = free_staged (unat n') s2
                          in (sint n', publish_actual (s3\<lparr>actual := actual s3 - n'\<rparr>)))"

text \<open>The size of the balloon and the size the host asks for; \<open>target\<close> is what its register reads.\<close>

definition balloon_get_status :: "u32 \<Rightarrow> balloon \<Rightarrow> u32 \<times> u32" where
  "balloon_get_status target s =
    (if bln_ready s then actual s else 0, if \<not> bln_ready s \<or> device_cfg (bln_caps s) = 0 then 0 else target)"

definition bln_bringup :: "virtio_hw \<Rightarrow> virtio_pci_caps \<Rightarrow> transport \<Rightarrow> balloon \<Rightarrow> (bool \<times> transport \<times> balloon) option" where
  "bln_bringup hw caps t s =
    (case virtio_negotiate hw (common_cfg caps) False 0 t of
       None \<Rightarrow> None
     | Some (ok, _, t1) \<Rightarrow>
        if \<not> ok then Some (False, t1, s)
        else case setup_queue hw (common_cfg caps) caps 0 (place_rings (inflate_rings s) (inflate_vq s)) t1 of
               (ok, q, t2) \<Rightarrow>
                 if \<not> ok then Some (False, t2, s\<lparr>inflate_vq := q\<rparr>)
                 else case setup_queue hw (common_cfg caps) caps 1 (place_rings (deflate_rings s) (deflate_vq s)) t2 of
                        (ok, q', t3) \<Rightarrow>
                          if \<not> ok then Some (False, t3, s\<lparr>inflate_vq := q, deflate_vq := q'\<rparr>)
                          else Some (True, add_status hw 4 t3,
                                 (publish_actual (s\<lparr>inflate_vq := q, deflate_vq := q', actual := 0\<rparr>))\<lparr>bln_ready := True\<rparr>))"

definition pci_virtio_balloon_init :: "wmask \<Rightarrow> virtio_hw \<Rightarrow> pci \<Rightarrow> transport \<Rightarrow> balloon \<Rightarrow> (pci \<times> transport \<times> balloon) option" where
  "pci_virtio_balloon_init wm hw p t s =
    (case virtio_probe wm 0x1AF4 0x1045 (bln_caps s) p of
       None \<Rightarrow> None
     | Some (None, p1) \<Rightarrow> Some (p1, t, s)
     | Some (Some (_, caps), p1) \<Rightarrow>
        (case bln_bringup hw caps t (s\<lparr>bln_caps := caps\<rparr>) of
           None \<Rightarrow> None
         | Some (_, t1, s1) \<Rightarrow> Some (p1, t1, s1)))"

section \<open>Frame numbers\<close>

definition pfn_of :: "'a pmm_scheme \<Rightarrow> nat \<Rightarrow> u32" where
  "pfn_of s n = ucast (drop_bit VIRTIO_BALLOON_PFN_SHIFT (page_addr s n))"

text \<open>The region ends below \<open>2 ^ 44\<close>, so that a frame number fits 32 bits.\<close>

definition small_region :: "'a pmm_scheme \<Rightarrow> bool" where
  "small_region s \<longleftrightarrow> unat (mem_region_end s) < 2 ^ 44"

lemma unat_pfn_of:
  assumes "pmm_inv s" "small_region s" "n < npages s"
  shows "unat (pfn_of s n) = unat (mem_region_start s) div 4096 + n"
proof -
  have a: "unat (page_addr s n) = unat (mem_region_start s) + 4096 * n" using unat_page_addr [OF assms(1)] assms(3) by simp
  have "unat (drop_bit 12 (page_addr s n)) = unat (mem_region_start s) div 4096 + n"
    unfolding unat_drop_bit_eq a by (simp add: drop_bit_eq_div)
  moreover have "\<dots> < 2 ^ 32" using assms by (simp add: pmm_inv_def small_region_def)
  ultimately show ?thesis by (simp add: pfn_of_def unat_ucast_64_32)
qed

lemma unat_push_12: "unat w * 4096 < 2 ^ 64 \<Longrightarrow> unat (push_bit 12 w) = unat w * 4096" for w :: u64
  unfolding unsigned_push_bit_eq by (simp add: push_bit_eq_mult take_bit_eq_mod)

lemma pfn_of_back:
  assumes "pmm_inv s" "small_region s" "n < npages s"
  shows "push_bit VIRTIO_BALLOON_PFN_SHIFT (ucast (pfn_of s n)) = page_addr s n"
proof -
  have u: "unat (ucast (pfn_of s n) :: u64) = unat (mem_region_start s) div 4096 + n"
    using unat_pfn_of [OF assms] unat_lt_32 [of "pfn_of s n"] by (simp add: unsigned_ucast_eq take_bit_eq_mod)
  have e: "unat (ucast (pfn_of s n) :: u64) * 4096 = unat (mem_region_start s) + 4096 * n"
    unfolding u using assms(1) by (simp add: pmm_inv_def)
  moreover have "unat (mem_region_start s) + 4096 * n < 2 ^ 64" using assms by (simp add: pmm_inv_def small_region_def)
  ultimately have "unat (push_bit 12 (ucast (pfn_of s n) :: u64)) = unat (mem_region_start s) + 4096 * n"
    using unat_push_12 [of "ucast (pfn_of s n)"] by simp
  then have "unat (push_bit 12 (ucast (pfn_of s n) :: u64)) = unat (page_addr s n)"
    using unat_page_addr [OF assms(1) less_imp_le [OF assms(3)]] by metis
  then show ?thesis by (rule word_unat_eq_iff [THEN iffD2])
qed

lemma pfn_of_inj:
  assumes "pmm_inv s" "small_region s" "m < npages s" "n < npages s" "pfn_of s m = pfn_of s n"
  shows "m = n"
  using arg_cong [OF assms(5), of unat] unfolding unat_pfn_of [OF assms(1,2,3)] unat_pfn_of [OF assms(1,2,4)]
  by (rule add_left_imp_eq)


section \<open>Pages out and pages back\<close>

text \<open>The fields the allocator does not know.\<close>

definition bln_part :: "balloon \<Rightarrow> bool \<times> virtio_pci_caps \<times> virtqueue \<times> virtqueue \<times> u32 \<times> u64 \<times> u32" where
  "bln_part s = (bln_ready s, bln_caps s, inflate_vq s, deflate_vq s, actual s, pfn_buf_va s, actual_reg s)"

lemma same_more:
  assumes "pmm.more s' = pmm.more s"
  shows "bln_part s' = bln_part s" "pfn_buf s' = pfn_buf s" "inflated_pfns s' = inflated_pfns s"
  using assms by (cases s; cases s'; simp add: bln_part_def)+

lemma bln_upd [simp]:
  "pmm_inv (s\<lparr>pfn_buf := b, inflated_pfns := i\<rparr>) = pmm_inv s" "allocated (s\<lparr>pfn_buf := b, inflated_pfns := i\<rparr>) = allocated s"
  "npages (s\<lparr>pfn_buf := b, inflated_pfns := i\<rparr>) = npages s" "page_addr (s\<lparr>pfn_buf := b, inflated_pfns := i\<rparr>) = page_addr s"
  "bln_part (s\<lparr>pfn_buf := b, inflated_pfns := i\<rparr>) = bln_part s"
  by (simp_all add: pmm_inv_def allocated_def npages_def page_used_def page_addr_def fun_eq_iff bln_part_def)

lemma fresh_page:
  assumes inv: "pmm_inv s" and al: "pmm_allocate_page s = (pa, s')"
  shows "if pa = 0 then s' = s \<and> card (allocated s) = npages s
    else \<exists>n. n \<notin> allocated s \<and> n < npages s \<and> unat (reserved_pages s) \<le> n \<and> pa = page_addr s n \<and> s' = take_run n 1 s \<and> pmm_inv s' \<and>
      allocated s' = insert n (allocated s)"
proof (cases "allocated s = {..<npages s}")
  case True
  then show ?thesis using pmm_allocate_page_cases [OF inv] al by simp
next
  case False
  have ff: "first_free s < npages s" "first_free s \<notin> allocated s" "\<not> page_used s (first_free s)"
    using first_free_props [OF False] by (auto simp: allocated_def)
  have res: "unat (reserved_pages s) \<le> first_free s" using inv ff(3) by (meson not_le pmm_inv_def)
  have "page_addr s (first_free s) \<noteq> 0" using page_addr_nonzero [OF inv, of "first_free s"] ff(1) by simp
  moreover have "pmm_inv (take_run (first_free s) 1 s)" using ff by (intro pmm_inv_take_run [OF inv]) auto
  moreover have "allocated (take_run (first_free s) 1 s) = insert (first_free s) (allocated s)"
    using allocated_take_run [OF inv, of "first_free s" 1] ff(1) by auto
  ultimately show ?thesis using pmm_allocate_page_cases [OF inv] al False ff res by auto
qed


text \<open>A list of pages taken from the free ones.\<close>

definition taken :: "nat list \<Rightarrow> balloon \<Rightarrow> balloon \<Rightarrow> bool" where
  "taken ns s s' \<longleftrightarrow> distinct ns \<and> set ns \<inter> allocated s = {} \<and> (\<forall>n \<in> set ns. n < npages s \<and> unat (reserved_pages s) \<le> n) \<and>
    allocated s' = allocated s \<union> set ns \<and> pmm_inv s' \<and> page_addr s' = page_addr s \<and> npages s' = npages s \<and>
    reserved_pages s' = reserved_pages s \<and> mem_region_end s' = mem_region_end s"

lemma pfn_of_cong: "page_addr s' = page_addr s \<Longrightarrow> pfn_of s' = pfn_of s"
  by (simp add: pfn_of_def fun_eq_iff)

lemma stage_pages_takes:
  assumes "pmm_inv s" "stage_pages k got s = (got', s')"
  shows "\<exists>ns. taken ns s s' \<and> got' = got + length ns \<and> length ns = min k (npages s - card (allocated s)) \<and> bln_part s' = bln_part s \<and>
    map (pfn_buf s') [0..<got'] = map (pfn_buf s) [0..<got] @ map (pfn_of s) ns \<and>
    map (inflated_pfns s') [0..<unat (actual s) + got'] = map (inflated_pfns s) [0..<unat (actual s) + got] @ map (pfn_of s) ns"
  using assms
proof (induction k arbitrary: got s)
  case 0
  then show ?case by (auto simp: taken_def)
next
  case (Suc k)
  obtain pa s1 where al: "pmm_allocate_page s = (pa, s1)" by fastforce
  note fp = fresh_page [OF Suc.prems(1) al]
  show ?case
  proof (cases "pa = 0")
    case True
    then show ?thesis using fp Suc.prems al by (auto simp: taken_def)
  next
    case False
    then obtain n where n: "n \<notin> allocated s" "n < npages s" "unat (reserved_pages s) \<le> n" "pa = page_addr s n" "s1 = take_run n 1 s"
        "pmm_inv s1" "allocated s1 = insert n (allocated s)"
      using fp by auto
    let ?s2 = "s1\<lparr>pfn_buf := (pfn_buf s1)(got := pfn_of s n), inflated_pfns := (inflated_pfns s1)(unat (actual s1) + got := pfn_of s n)\<rparr>"
    have same: "bln_part s1 = bln_part s" "pfn_buf s1 = pfn_buf s" "inflated_pfns s1 = inflated_pfns s"
      using same_more [of s1 s] n(5) by simp_all
    then have act: "actual s1 = actual s" by (simp add: bln_part_def)
    have pf: "pfn_of ?s2 = pfn_of s" by (rule pfn_of_cong) (simp add: n(5))
    have "stage_pages k (Suc got) ?s2 = (got', s')" using Suc.prems(2) al False by (simp add: n(4) pfn_of_def Let_def)
    moreover have "pmm_inv ?s2" using n(6) by simp
    ultimately obtain ns where ns: "taken ns ?s2 s'" "got' = Suc got + length ns" "length ns = min k (npages ?s2 - card (allocated ?s2))"
        "bln_part s' = bln_part ?s2" "map (pfn_buf s') [0..<got'] = map (pfn_buf ?s2) [0..<Suc got] @ map (pfn_of s) ns"
        "map (inflated_pfns s') [0..<unat (actual ?s2) + got'] = map (inflated_pfns ?s2) [0..<unat (actual ?s2) + Suc got] @ map (pfn_of s) ns"
      using Suc.IH [of ?s2 "Suc got"] unfolding pf by blast
    have card: "card (allocated ?s2) = Suc (card (allocated s))" "card (allocated s) < npages s"
    proof -
      show "card (allocated ?s2) = Suc (card (allocated s))" using n(1,7) by simp
      then show "card (allocated s) < npages s" using card_allocated_le [of ?s2] n(5) by simp
    qed
    have "taken (n # ns) s s'" using ns(1) n by (auto simp: taken_def)
    moreover have "length (n # ns) = min (Suc k) (npages s - card (allocated s))" using ns(3) card n(5) by simp
    moreover have "map (pfn_buf ?s2) [0..<Suc got] = map (pfn_buf s) [0..<got] @ [pfn_of s n]" using same by simp
    moreover have "map (inflated_pfns ?s2) [0..<unat (actual ?s2) + Suc got] = map (inflated_pfns s) [0..<unat (actual s) + got] @ [pfn_of s n]"
      using same act by simp
    ultimately show ?thesis using ns(2,4,5,6) same act by (intro exI [of _ "n # ns"]) simp
  qed
qed

text \<open>A list of pages given back.\<close>

lemma free_staged_returns:
  assumes inv: "pmm_inv s" and small: "small_region s" and ns: "map (pfn_buf s) [0..<k] = map (pfn_of s) ns" "distinct ns"
    "\<forall>n \<in> set ns. n \<in> allocated s \<and> unat (reserved_pages s) \<le> n"
  shows "pmm_inv (free_staged k s) \<and> allocated (free_staged k s) = allocated s - set ns \<and> pmm.more (free_staged k s) = pmm.more s \<and>
    page_addr (free_staged k s) = page_addr s \<and> npages (free_staged k s) = npages s \<and> reserved_pages (free_staged k s) = reserved_pages s \<and>
    mem_region_end (free_staged k s) = mem_region_end s"
  using ns
proof (induction k arbitrary: ns)
  case 0
  then show ?case using inv by (simp add: free_staged_def)
next
  case (Suc k)
  then obtain ms m where ms: "ns = ms @ [m]" "map (pfn_buf s) [0..<k] = map (pfn_of s) ms" "pfn_buf s k = pfn_of s m"
    by (cases ns rule: rev_cases) auto
  let ?s = "free_staged k s"
  have IH: "pmm_inv ?s" "allocated ?s = allocated s - set ms" "pmm.more ?s = pmm.more s" "page_addr ?s = page_addr s"
      "npages ?s = npages s" "reserved_pages ?s = reserved_pages s" "mem_region_end ?s = mem_region_end s"
    using Suc.IH [OF ms(2)] Suc.prems(2,3) ms(1) by simp_all
  have m: "m \<in> allocated s" "unat (reserved_pages s) \<le> m" "m \<notin> set ms" "m < npages s" using Suc.prems(2,3) ms(1) by (auto simp: allocated_def)
  then have mu: "page_used ?s m" using IH(2) by (auto simp: allocated_def)
  have "push_bit 12 (ucast (pfn_buf ?s k)) = page_addr ?s m"
    using pfn_of_back [OF inv small m(4)] same_more(2) [OF IH(3)] ms(3) IH(4) by simp
  then have "free_staged (Suc k) s = drop_page m ?s"
    using pmm_free_page_page_addr [OF IH(1), of m] IH(5,6) m mu by (simp add: free_staged_def)
  moreover have "pmm_inv (drop_page m ?s)" using IH m mu by (intro pmm_inv_drop_page) simp_all
  moreover have "allocated (drop_page m ?s) = allocated s - set ns" using allocated_drop_page [OF IH(1), of m] IH m ms(1) by auto
  ultimately show ?case using IH by simp
qed


section \<open>The invariant\<close>

text \<open>The table lists, in order, the frame numbers of pages that are allocated and not reserved, and the
  register of the device shows their number.\<close>

definition balloon_inv :: "nat list \<Rightarrow> balloon \<Rightarrow> bool" where
  "balloon_inv ns s \<longleftrightarrow> pmm_inv s \<and> small_region s \<and> unat (actual s) \<le> 1024 \<and> length ns = unat (actual s) \<and>
    map (inflated_pfns s) [0..<unat (actual s)] = map (pfn_of s) ns \<and> distinct ns \<and>
    (\<forall>n \<in> set ns. n \<in> allocated s \<and> unat (reserved_pages s) \<le> n) \<and>
    (device_cfg (bln_caps s) \<noteq> 0 \<longrightarrow> actual_reg s = actual s)"

lemma submit_pfn_batch_result: "submit_pfn_batch dev va k q = (rc, q') \<Longrightarrow> rc = 0"
  by (auto simp: submit_pfn_batch_def split: if_splits prod.splits)

lemma bln_upd_more:
  "pmm_inv (publish_actual (s\<lparr>inflate_vq := q, actual := a\<rparr>)) = pmm_inv s" "allocated (publish_actual (s\<lparr>inflate_vq := q, actual := a\<rparr>)) = allocated s"
  "npages (publish_actual (s\<lparr>inflate_vq := q, actual := a\<rparr>)) = npages s" "page_addr (publish_actual (s\<lparr>inflate_vq := q, actual := a\<rparr>)) = page_addr s"
  "reserved_pages (publish_actual (s\<lparr>inflate_vq := q, actual := a\<rparr>)) = reserved_pages s"
  "mem_region_end (publish_actual (s\<lparr>inflate_vq := q, actual := a\<rparr>)) = mem_region_end s"
  "inflated_pfns (publish_actual (s\<lparr>inflate_vq := q, actual := a\<rparr>)) = inflated_pfns s"
  "pfn_buf (publish_actual (s\<lparr>inflate_vq := q, actual := a\<rparr>)) = pfn_buf s"
  "actual (publish_actual (s\<lparr>inflate_vq := q, actual := a\<rparr>)) = a" "bln_ready (publish_actual (s\<lparr>inflate_vq := q, actual := a\<rparr>)) = bln_ready s"
  "bln_caps (publish_actual (s\<lparr>inflate_vq := q, actual := a\<rparr>)) = bln_caps s"
  "device_cfg (bln_caps s) \<noteq> 0 \<Longrightarrow> actual_reg (publish_actual (s\<lparr>inflate_vq := q, actual := a\<rparr>)) = a"
  by (simp_all add: publish_actual_def pmm_inv_def allocated_def npages_def page_used_def page_addr_def fun_eq_iff)

lemma balloon_inflate_takes:
  assumes inv: "balloon_inv ns s" and ready: "bln_ready s" and op: "balloon_inflate dev n s = (rc, s')"
  shows "\<exists>fs. balloon_inv (ns @ fs) s' \<and> bln_ready s' \<and> allocated s' = allocated s \<union> set fs \<and> set fs \<inter> allocated s = {} \<and>
    page_addr s' = page_addr s \<and> rc = int (length fs) \<and>
    length fs = min (unat n) (min (1024 - length ns) (npages s - card (allocated s)))"
proof -
  define n' where "n' = (if n > 1024 - actual s then 1024 - actual s else n)"
  have p: "pmm_inv s" "small_region s" "unat (actual s) \<le> 1024" "length ns = unat (actual s)"
      "map (inflated_pfns s) [0..<unat (actual s)] = map (pfn_of s) ns" "distinct ns"
      "\<forall>n \<in> set ns. n \<in> allocated s \<and> unat (reserved_pages s) \<le> n" "device_cfg (bln_caps s) \<noteq> 0 \<longrightarrow> actual_reg s = actual s"
    using inv unfolding balloon_inv_def by blast+
  have n': "unat n' = min (unat n) (1024 - length ns)"
    using p(3,4) by (auto simp: n'_def word_less_nat_alt unat_sub word_le_nat_alt)
  obtain got s1 where st: "stage_pages (unat n') 0 s = (got, s1)" by fastforce
  obtain fs where fs: "taken fs s s1" "got = length fs" "length fs = min (unat n') (npages s - card (allocated s))" "bln_part s1 = bln_part s"
      "map (inflated_pfns s1) [0..<unat (actual s) + got] = map (inflated_pfns s) [0..<unat (actual s)] @ map (pfn_of s) fs"
    using stage_pages_takes [OF p(1) st] by auto
  have part: "actual s1 = actual s" "bln_ready s1 = bln_ready s" "bln_caps s1 = bln_caps s" "actual_reg s1 = actual_reg s"
    using fs(4) by (simp_all add: bln_part_def)
  have le: "unat (actual s) + got \<le> 1024" using fs(2,3) n' p(3,4) by linarith
  then have a: "unat (actual s + of_nat got) = unat (actual s) + got" by (simp add: unat_word_ariths unat_of_nat)
  define q where "q = snd (submit_pfn_batch dev (pfn_buf_va s1) (of_nat got) (inflate_vq s1))"
  define s2 where "s2 = (if got = 0 then s1 else publish_actual (s1\<lparr>inflate_vq := q, actual := actual s1 + of_nat got\<rparr>))"
  have tk: "distinct fs" "set fs \<inter> allocated s = {}" "\<forall>n \<in> set fs. n < npages s \<and> unat (reserved_pages s) \<le> n"
      "allocated s1 = allocated s \<union> set fs" "pmm_inv s1" "page_addr s1 = page_addr s" "reserved_pages s1 = reserved_pages s" "mem_region_end s1 = mem_region_end s"
    using fs(1) unfolding taken_def by blast+
  have s2f: "pmm_inv s2" "allocated s2 = allocated s1" "page_addr s2 = page_addr s" "reserved_pages s2 = reserved_pages s" "mem_region_end s2 = mem_region_end s"
      "inflated_pfns s2 = inflated_pfns s1" "unat (actual s2) = unat (actual s) + got" "bln_ready s2" "device_cfg (bln_caps s2) \<noteq> 0 \<longrightarrow> actual_reg s2 = actual s2"
    using tk part a ready p(8) by (auto simp: s2_def bln_upd_more)
  have "balloon_inv (ns @ fs) s2"
    unfolding balloon_inv_def s2f(2,4,6,7) pfn_of_cong [OF s2f(3)] small_region_def s2f(5)
    using p tk fs(2,5) s2f(1,9) le by (auto simp: small_region_def)
  moreover have "s' = s2 \<and> rc = int got"
  proof (cases "n' = 0")
    case True
    then have "got = 0" "s1 = s" using st by simp_all
    then show ?thesis using op ready True by (simp add: balloon_inflate_def n'_def [symmetric] Let_def s2_def)
  next
    case False
    then show ?thesis
      using op ready st submit_pfn_batch_result [of dev "pfn_buf_va s1" "of_nat got" "inflate_vq s1"]
      by (auto simp: balloon_inflate_def n'_def [symmetric] Let_def s2_def q_def split: if_splits prod.splits)
  qed
  moreover have "length fs = min (unat n) (min (1024 - length ns) (npages s - card (allocated s)))" using fs(3) n' by (simp add: min.assoc)
  moreover have "allocated s2 = allocated s \<union> set fs" unfolding s2f(2) by (rule tk(4))
  ultimately show ?thesis using s2f(3,8) tk(2) fs(2) by blast
qed


lemma bln_upd_deflate:
  "pmm_inv (publish_actual (s\<lparr>actual := a\<rparr>)) = pmm_inv s" "allocated (publish_actual (s\<lparr>actual := a\<rparr>)) = allocated s"
  "page_addr (publish_actual (s\<lparr>actual := a\<rparr>)) = page_addr s"
  "reserved_pages (publish_actual (s\<lparr>actual := a\<rparr>)) = reserved_pages s"
  "mem_region_end (publish_actual (s\<lparr>actual := a\<rparr>)) = mem_region_end s"
  "inflated_pfns (publish_actual (s\<lparr>actual := a\<rparr>)) = inflated_pfns s"
  "actual (publish_actual (s\<lparr>actual := a\<rparr>)) = a" "bln_ready (publish_actual (s\<lparr>actual := a\<rparr>)) = bln_ready s"
  "device_cfg (bln_caps (publish_actual (s\<lparr>actual := a\<rparr>))) \<noteq> 0 \<longrightarrow> actual_reg (publish_actual (s\<lparr>actual := a\<rparr>)) = a"
  by (simp_all add: publish_actual_def pmm_inv_def allocated_def npages_def page_used_def page_addr_def fun_eq_iff)

lemma bln_upd_stage:
  "pmm_inv (s\<lparr>pfn_buf := b, deflate_vq := q\<rparr>) = pmm_inv s" "allocated (s\<lparr>pfn_buf := b, deflate_vq := q\<rparr>) = allocated s"
  "page_addr (s\<lparr>pfn_buf := b, deflate_vq := q\<rparr>) = page_addr s"
  by (simp_all add: pmm_inv_def allocated_def npages_def page_used_def page_addr_def fun_eq_iff)

lemma balloon_deflate_returns:
  assumes inv: "balloon_inv ns s" and ready: "bln_ready s" and op: "balloon_deflate dev n s = (rc, s')"
  defines "k \<equiv> min (unat n) (length ns)"
  shows "balloon_inv (take (length ns - k) ns) s' \<and> bln_ready s' \<and> allocated s' = allocated s - set (drop (length ns - k) ns) \<and>
    page_addr s' = page_addr s \<and> rc = int k"
proof -
  define n' where "n' = (if n > actual s then actual s else n)"
  have p: "pmm_inv s" "small_region s" "unat (actual s) \<le> 1024" "length ns = unat (actual s)"
      "map (inflated_pfns s) [0..<unat (actual s)] = map (pfn_of s) ns" "distinct ns"
      "\<forall>n \<in> set ns. n \<in> allocated s \<and> unat (reserved_pages s) \<le> n" "device_cfg (bln_caps s) \<noteq> 0 \<longrightarrow> actual_reg s = actual s"
    using inv unfolding balloon_inv_def by blast+
  have n': "unat n' = k" using p(4) by (auto simp: n'_def k_def word_less_nat_alt)
  show ?thesis
  proof (cases "n' = 0")
    case True
    then have "k = 0" using n' by simp
    then show ?thesis using op inv ready True by (simp add: balloon_deflate_def n'_def [symmetric] Let_def)
  next
    case False
    define base where "base = unat (actual s) - k"
    define b where "b = (\<lambda>i. if i < k then inflated_pfns s (base + i) else pfn_buf s i)"
    define q where "q = snd (submit_pfn_batch dev (pfn_buf_va s) n' (deflate_vq s))"
    let ?s2 = "s\<lparr>pfn_buf := b, deflate_vq := q\<rparr>"
    define s3 where "s3 = free_staged k ?s2"
    have kl: "k \<le> unat (actual s)" by (simp add: k_def p(4))
    then have base: "unat (actual s - n') = base" using n' by (simp add: base_def unat_sub word_le_nat_alt)
    have pf: "pfn_of ?s2 = pfn_of s" by (rule pfn_of_cong) (simp add: bln_upd_stage)
    have split: "drop base (map (inflated_pfns s) [0..<unat (actual s)]) = drop base (map (pfn_of s) ns)" unfolding p(5) ..
    have "map (pfn_buf ?s2) [0..<k] = map (\<lambda>i. inflated_pfns s (base + i)) [0..<k]" by (simp add: b_def)
    also have "\<dots> = map (inflated_pfns s) [base..<base + k]" using map_add_upt [of base k, symmetric] by (simp add: comp_def add.commute)
    also have "\<dots> = map (pfn_of ?s2) (drop base ns)" using split kl unfolding pf by (simp add: drop_map base_def)
    finally have buf: "map (pfn_buf ?s2) [0..<k] = map (pfn_of ?s2) (drop base ns)" .
    have gone: "pmm_inv s3" "allocated s3 = allocated s - set (drop base ns)" "pmm.more s3 = pmm.more ?s2" "page_addr s3 = page_addr s"
        "reserved_pages s3 = reserved_pages s" "mem_region_end s3 = mem_region_end s"
      using free_staged_returns [of ?s2 k "drop base ns", OF _ _ buf] p(1,2,6,7) set_drop_subset [of base ns]
      by (auto simp: s3_def bln_upd_stage small_region_def)
    have part: "bln_part s3 = bln_part ?s2" "inflated_pfns s3 = inflated_pfns s" using same_more [OF gone(3)] by simp_all
    then have part: "actual s3 = actual s" "bln_ready s3" "inflated_pfns s3 = inflated_pfns s" using ready by (simp_all add: bln_part_def)
    define s4 where "s4 = publish_actual (s3\<lparr>actual := actual s3 - n'\<rparr>)"
    have s4: "unat (actual s4) = base" "pmm_inv s4" "allocated s4 = allocated s3" "page_addr s4 = page_addr s" "reserved_pages s4 = reserved_pages s"
        "mem_region_end s4 = mem_region_end s" "inflated_pfns s4 = inflated_pfns s" "bln_ready s4"
        "device_cfg (bln_caps s4) \<noteq> 0 \<longrightarrow> actual_reg s4 = actual s4"
      using gone part base unfolding s4_def by (simp_all add: bln_upd_deflate)
    have "map (inflated_pfns s) [0..<base] = take base (map (inflated_pfns s) [0..<unat (actual s)])" by (simp add: take_map base_def)
    then have tab: "map (inflated_pfns s) [0..<base] = map (pfn_of s) (take base ns)" unfolding p(5) by (simp add: take_map)
    have dis: "set (take base ns) \<inter> set (drop base ns) = {}" using p(6) by (metis append_take_drop_id distinct_append)
    have "balloon_inv (take base ns) s4"
      unfolding balloon_inv_def small_region_def s4(1,3,5,6,7) pfn_of_cong [OF s4(4)] gone(2)
      using p(2,3,4,6,7) s4(2,9) tab dis set_take_subset [of base ns] by (auto simp: small_region_def base_def)
    moreover have "s' = s4 \<and> rc = sint n'"
      using op ready False submit_pfn_batch_result [of dev "pfn_buf_va s" n' "deflate_vq s"] n' base
      by (auto simp: balloon_deflate_def n'_def [symmetric] Let_def s4_def s3_def q_def b_def split: if_splits prod.splits)
    moreover have "sint n' = int k"
      using n' kl p(3) sint_small_32 [of n'] by simp
    ultimately show ?thesis using s4 gone p(4) by (simp add: base_def)
  qed
qed


section \<open>Properties\<close>

datatype balloon_op = Inflate u32 | Deflate u32

text \<open>One call, with a device that does as it likes.\<close>

fun balloon_call :: "vq_dev \<times> balloon_op \<Rightarrow> balloon \<Rightarrow> balloon" where
  "balloon_call (dev, Inflate n) s = snd (balloon_inflate dev n s)"
| "balloon_call (dev, Deflate n) s = snd (balloon_deflate dev n s)"

lemma balloon_run:
  assumes "balloon_inv ns s" "bln_ready s" "allocated s = A \<union> set ns" "set ns \<inter> A = {}"
  shows "\<exists>ms. balloon_inv ms (fold balloon_call ops s) \<and> bln_ready (fold balloon_call ops s) \<and>
    allocated (fold balloon_call ops s) = A \<union> set ms \<and> set ms \<inter> A = {} \<and> page_addr (fold balloon_call ops s) = page_addr s"
  using assms
proof (induction ops arbitrary: ns s)
  case Nil
  then show ?case by auto
next
  case (Cons x ops)
  obtain dev c where x: "x = (dev, c)" by fastforce
  have "\<exists>ms. balloon_inv ms (balloon_call x s) \<and> bln_ready (balloon_call x s) \<and> allocated (balloon_call x s) = A \<union> set ms \<and>
      set ms \<inter> A = {} \<and> page_addr (balloon_call x s) = page_addr s"
  proof (cases c)
    case (Inflate n)
    obtain rc s' where op: "balloon_inflate dev n s = (rc, s')" by fastforce
    obtain fs where fs: "balloon_inv (ns @ fs) s'" "bln_ready s'" "allocated s' = allocated s \<union> set fs" "set fs \<inter> allocated s = {}" "page_addr s' = page_addr s"
      using balloon_inflate_takes [OF Cons.prems(1,2) op] by blast
    then show ?thesis using Cons.prems(3,4) op by (intro exI [of _ "ns @ fs"]) (auto simp: x Inflate)
  next
    case (Deflate n)
    obtain rc s' where op: "balloon_deflate dev n s = (rc, s')" by fastforce
    define k where "k = length ns - min (unat n) (length ns)"
    have d: "balloon_inv (take k ns) s'" "bln_ready s'" "allocated s' = allocated s - set (drop k ns)" "page_addr s' = page_addr s"
      using balloon_deflate_returns [OF Cons.prems(1,2) op] by (simp_all add: k_def)
    have "set ns = set (take k ns) \<union> set (drop k ns)" by (metis append_take_drop_id set_append)
    moreover have "set (take k ns) \<inter> set (drop k ns) = {}"
      using Cons.prems(1) unfolding balloon_inv_def by (metis append_take_drop_id distinct_append)
    ultimately have "allocated s' = A \<union> set (take k ns)" "set (take k ns) \<inter> A = {}" using d(3) Cons.prems(3,4) by auto
    then show ?thesis using d op by (auto simp: x Deflate)
  qed
  then obtain ms where ms: "balloon_inv ms (balloon_call x s)" "bln_ready (balloon_call x s)" "allocated (balloon_call x s) = A \<union> set ms"
      "set ms \<inter> A = {}" "page_addr (balloon_call x s) = page_addr s" by blast
  then show ?case using Cons.IH [OF ms(1-4)] by simp
qed

text \<open>C15: whatever is asked of the balloon, in whatever order, and whatever the device does, no page is
  lost or handed out twice: from a state with an empty balloon, the pages allocated afterwards are those
  allocated before and, beside them, exactly the pages whose frame numbers the balloon's table holds, each
  once; the size of the balloon, at most 1024, is their number and what the device's register shows.\<close>

theorem balloon_conserves_pages:
  fixes s0 :: balloon and ops :: "(vq_dev \<times> balloon_op) list"
  assumes "pmm_inv s0" "small_region s0" "bln_ready s0" "actual s0 = 0" "actual_reg s0 = 0"
  defines "s \<equiv> fold balloon_call ops s0"
  shows "\<exists>ns. map (inflated_pfns s) [0..<unat (actual s)] = map (pfn_of s0) ns \<and> distinct ns \<and> set ns \<inter> allocated s0 = {} \<and>
    allocated s = allocated s0 \<union> set ns \<and> unat (used_pages s) = unat (used_pages s0) + unat (actual s) \<and> unat (actual s) \<le> 1024 \<and>
    (device_cfg (bln_caps s) \<noteq> 0 \<longrightarrow> actual_reg s = actual s)"
proof -
  have "balloon_inv [] s0" using assms by (simp add: balloon_inv_def)
  then obtain ns where ns: "balloon_inv ns s" "allocated s = allocated s0 \<union> set ns" "set ns \<inter> allocated s0 = {}" "page_addr s = page_addr s0"
    using balloon_run [of "[]" s0 "allocated s0" ops] assms(3) unfolding s_def by auto
  then have inv: "pmm_inv s" "length ns = unat (actual s)" "distinct ns" "unat (actual s) \<le> 1024"
      "map (inflated_pfns s) [0..<unat (actual s)] = map (pfn_of s) ns" "device_cfg (bln_caps s) \<noteq> 0 \<longrightarrow> actual_reg s = actual s"
    unfolding balloon_inv_def by blast+
  have "card (allocated s) = card (allocated s0) + length ns"
    unfolding ns(2) using ns(3) inv(3) by (simp add: card_Un_disjoint Int_commute distinct_card)
  then have "unat (used_pages s) = unat (used_pages s0) + unat (actual s)"
    using inv(1,2) assms(1) unfolding pmm_inv_def by simp
  then show ?thesis using ns inv pfn_of_cong [OF ns(4)] by auto
qed

definition demo_balloon :: balloon where
  "demo_balloon = pmm.extend demo_pmm (balloon.fields True
    \<lparr>common_cfg = 0, notify_base = 0, isr_cfg = 0, device_cfg = 0x10002000, notify_off_multiplier = 0\<rparr>
    demo_queue demo_queue 0 (\<lambda>i. 0) (\<lambda>i. 0) 0xFFFF000040300000 0 (0, 0, 0) (0, 0, 0))"

theorem balloon_conserves_pages_witness:
  "\<exists>ns. allocated (fold balloon_call [(answers 0 0, Inflate 3), (answers 2 0, Deflate 1)] demo_balloon) = allocated demo_balloon \<union> set ns \<and> distinct ns"
proof -
  have "pmm_inv demo_balloon" using demo_pmm_inv
    by (simp add: demo_balloon_def pmm.extend_def pmm_inv_def allocated_def npages_def page_used_def)
  moreover have "small_region demo_balloon" by (simp add: demo_balloon_def pmm.extend_def small_region_def demo_pmm_value)
  moreover have "bln_ready demo_balloon" "actual demo_balloon = 0" "actual_reg demo_balloon = 0"
    by (simp_all add: demo_balloon_def pmm.extend_def balloon.fields_def)
  ultimately show ?thesis using balloon_conserves_pages [of demo_balloon "[(answers 0 0, Inflate 3), (answers 2 0, Deflate 1)]"] by blast
qed

text \<open>The exchange with the device never fails, so the error branches of both operations are dead: with
  a device that never answers, pages are given back to the allocator although the host still has them.\<close>

lemma deflate_unacknowledged:
  assumes "balloon_inv ns s" "bln_ready s" "unat n = length ns"
  shows "\<exists>s'. balloon_deflate (\<lambda>i q. q) n s = (int (length ns), s') \<and> allocated s' = allocated s - set ns"
proof -
  obtain rc s' where op: "balloon_deflate (\<lambda>i q. q) n s = (rc, s')" by fastforce
  show ?thesis using balloon_deflate_returns [OF assms(1,2) op] op assms(3) by simp
qed

end
