(* ===== verification/Net.thy ===== *)
theory Net
  imports Virtqueue
begin

text \<open>
  The network driver, \<^verbatim>\<open>src/pci/virtio/net/net.c\<close>: sending a frame, draining the receive queue,
  ARP, ICMP echo, and the DHCP client with the frames it builds and parses.  The static buffers are
  lists of bytes; \<open>net_mem\<close> gives them by physical address.  What the device does to a queue while
  the driver polls it is a parameter.  A read outside a buffer is the value \<open>None\<close>.  Start-up
  is in theory \<open>Driver_Init\<close>; the text for \<^verbatim>\<open>/proc\<close> is not modelled.
\<close>

section \<open>State\<close>

record net =
  have_mac :: bool
  mac :: "u8 list"
  tx_vq :: virtqueue
  rx_vq :: virtqueue
  rx_packets :: u64
  tx_packets :: u64
  g_my_ip :: "u8 list"
  g_subnet_mask :: "u8 list"
  g_gateway_ip :: "u8 list"
  g_dhcp_server :: "u8 list"
  g_lease_secs :: u32
  g_dhcp_acquired :: bool
  rx_bufs :: "nat \<Rightarrow> u8 list"
  rx_desc_to_buf :: "u16 \<Rightarrow> int"
  rx_initialized :: bool
  gateway_mac :: "u8 list"
  have_gateway_mac :: bool
  net_mem :: "u64 \<Rightarrow> u8 list"
  tx_hdr_pa :: u64
  arp_pa :: u64
  ping_pa :: u64
  dhcp_pa :: u64
  rx_pa :: "nat \<Rightarrow> u64"

abbreviation (input) NET_RX_BUF_COUNT :: nat where "NET_RX_BUF_COUNT \<equiv> 8"
abbreviation (input) NET_RX_BUF_SIZE :: u32 where "NET_RX_BUF_SIZE \<equiv> 1600"
abbreviation (input) VIRTIO_NET_HDR_LEN :: u32 where "VIRTIO_NET_HDR_LEN \<equiv> 12"

section \<open>Transmission and reception\<close>

definition net_tx :: "vq_dev \<Rightarrow> u64 \<Rightarrow> u32 \<Rightarrow> net \<Rightarrow> int \<times> net" where
  "net_tx dev frame len n =
    (if len = 0 then (-1, n)
     else let segs = [\<lparr>s_pa = tx_hdr_pa n, s_len = VIRTIO_NET_HDR_LEN, s_flags = 0\<rparr>, \<lparr>s_pa = frame, s_len = len, s_flags = 0\<rparr>];
              (_, q1) = virtqueue_submit_chain (tx_vq n) segs 2;
              (_, q2) = virtqueue_poll dev q1
          in (sint len, n\<lparr>net_mem := (net_mem n)(tx_hdr_pa n := replicate 12 0), tx_vq := q2, tx_packets := tx_packets n + 1\<rparr>))"

text \<open>A static buffer filled and sent.\<close>

definition send_buf :: "vq_dev \<Rightarrow> u64 \<Rightarrow> u8 list \<Rightarrow> net \<Rightarrow> int \<times> net" where
  "send_buf dev pa bytes n = net_tx dev pa (of_nat (length bytes)) (n\<lparr>net_mem := (net_mem n)(pa := bytes)\<rparr>)"

definition arp_request :: "net \<Rightarrow> u8 list" where
  "arp_request n =
    replicate 6 0xFF @ mac n @ [0x08, 0x06] @
    [0x00, 0x01, 0x08, 0x00, 6, 4, 0x00, 0x01] @ mac n @ g_my_ip n @ replicate 6 0 @ g_gateway_ip n @ replicate 18 0"

definition net_send_arp_probe :: "vq_dev \<Rightarrow> net \<Rightarrow> int \<times> net" where
  "net_send_arp_probe dev n = (if \<not> have_mac n then (-1, n) else send_buf dev (arp_pa n) (arp_request n) n)"

definition net_rx_submit_buf :: "int \<Rightarrow> net \<Rightarrow> net" where
  "net_rx_submit_buf buf_idx n =
    (let (desc_id, q) = virtqueue_submit (rx_vq n) (rx_pa n (nat buf_idx)) NET_RX_BUF_SIZE VIRTQ_DESC_F_WRITE in
     if desc_id = VIRTQ_NO_DESC then n\<lparr>rx_vq := q\<rparr>
     else n\<lparr>rx_vq := q, rx_desc_to_buf := (rx_desc_to_buf n)(desc_id := buf_idx)\<rparr>)"

definition net_rx_init :: "net \<Rightarrow> net" where
  "net_rx_init n =
    (fold (\<lambda>i. net_rx_submit_buf (int i)) [0..<NET_RX_BUF_COUNT]
      (n\<lparr>rx_desc_to_buf := (\<lambda>i. if i < VIRTQ_MAX_SIZE then -1 else rx_desc_to_buf n i)\<rparr>))\<lparr>rx_initialized := True\<rparr>"

definition rx_copy_len :: "u32 \<Rightarrow> u32 \<Rightarrow> u32" where
  "rx_copy_len total_len max_len =
    (if total_len \<ge> VIRTIO_NET_HDR_LEN
     then let frame_len = total_len - VIRTIO_NET_HDR_LEN in if frame_len < max_len then frame_len else max_len
     else 0)"

text \<open>The result, the bytes copied to the caller, and the state.  Callers ask for at most 600 bytes,
  so the copy stays inside the buffer.\<close>

definition net_rx_poll :: "u32 \<Rightarrow> net \<Rightarrow> int \<times> u8 list \<times> net" where
  "net_rx_poll max_len n =
    (if \<not> rx_initialized n then (-1, [], n)
     else case virtqueue_get_used (rx_vq n) of
            (None, q) \<Rightarrow> (0, [], n\<lparr>rx_vq := q\<rparr>)
          | (Some (desc_id, total_len), q) \<Rightarrow>
              let n1 = n\<lparr>rx_vq := q\<rparr>; buf_idx = rx_desc_to_buf n desc_id in
              if desc_id \<ge> VIRTQ_MAX_SIZE \<or> buf_idx < 0 then (-1, [], n1)
              else
                let n2 = n1\<lparr>rx_desc_to_buf := (rx_desc_to_buf n1)(desc_id := -1)\<rparr>;
                    to_copy = rx_copy_len total_len max_len;
                    n3 = net_rx_submit_buf buf_idx n2
                in (sint to_copy, take (unat to_copy) (drop 12 (rx_bufs n (nat buf_idx))),
                    if sint to_copy > 0 then n3\<lparr>rx_packets := rx_packets n3 + 1\<rparr> else n3))"

section \<open>Checksums and headers\<close>

definition be16 :: "u32 \<Rightarrow> u8 list" where
  "be16 w = [ucast (drop_bit 8 w), ucast w]"

definition be32 :: "u32 \<Rightarrow> u8 list" where
  "be32 w = [ucast (drop_bit 24 w), ucast (drop_bit 16 w), ucast (drop_bit 8 w), ucast w]"

definition of_be16 :: "u8 \<Rightarrow> u8 \<Rightarrow> u32" where
  "of_be16 a b = push_bit 8 (ucast a) OR ucast b"

fun csum_add :: "u32 \<Rightarrow> u8 list \<Rightarrow> u32" where
  "csum_add acc (a # b # rest) = csum_add (acc + of_be16 a b) rest"
| "csum_add acc [a] = acc + push_bit 8 (ucast a)"
| "csum_add acc [] = acc"

lemma unat_carry:
  "unat ((s AND 0xFFFF) + drop_bit 16 s) = unat s mod 65536 + unat s div 65536" for s :: u32
proof -
  have m: "(0xFFFF :: u32) = mask 16" by (simp add: mask_eq_exp_minus_1)
  have a: "unat (s AND 0xFFFF) = unat s mod 65536"
    unfolding m by (simp flip: take_bit_eq_mask add: unsigned_take_bit_eq) (simp add: take_bit_eq_mod)
  have b: "unat (drop_bit 16 s) = unat s div 65536"
    by (simp add: unat_drop_bit_eq) (simp add: drop_bit_eq_div)
  have "unat s mod 65536 + unat s div 65536 < 2 ^ 32" using unat_lt_32 [of s] by simp
  then show ?thesis by (simp add: unat_word_ariths a b)
qed

function csum_fold :: "u32 \<Rightarrow> u32" where
  "csum_fold acc = (if drop_bit 16 acc \<noteq> 0 then csum_fold ((acc AND 0xFFFF) + drop_bit 16 acc) else acc)"
  by pat_completeness auto
termination
proof (relation "measure unat")
  fix s :: u32 assume "drop_bit 16 s \<noteq> 0"
  then have "unat (drop_bit 16 s) \<noteq> 0" by (simp add: unat_eq_0)
  then have "unat s div 65536 \<noteq> 0" by (simp add: unat_drop_bit_eq) (simp add: drop_bit_eq_div)
  moreover have "unat s = 65536 * (unat s div 65536) + unat s mod 65536" by simp
  ultimately have "unat s mod 65536 + unat s div 65536 < unat s" by linarith
  then show "((s AND 0xFFFF) + drop_bit 16 s, s) \<in> measure unat" by (simp only: in_measure unat_carry)
qed simp

declare csum_fold.simps [simp del]

definition inet_csum :: "u8 list \<Rightarrow> u16" where
  "inet_csum data = ucast (NOT (csum_fold (csum_add 0 data)))"

definition parse_arp_reply :: "u8 list \<Rightarrow> net \<Rightarrow> net" where
  "parse_arp_reply frame n =
    (if length frame < 42 then n
     else if frame ! 12 \<noteq> 0x08 \<or> frame ! 13 \<noteq> 0x06 then n
     else if frame ! 20 \<noteq> 0x00 \<or> frame ! 21 \<noteq> 0x02 then n
     else n\<lparr>gateway_mac := take 6 (drop 22 frame), have_gateway_mac := True\<rparr>)"

text \<open>An IPv4 header with a given checksum, and with the one the code stores.\<close>

definition ip_fields :: "u32 \<Rightarrow> u32 \<Rightarrow> u8 \<Rightarrow> u8 list \<Rightarrow> u8 list \<Rightarrow> u8 list" where
  "ip_fields csum tot proto src dst =
    [0x45, 0] @ be16 tot @ [0, 0, 0, 0, 64, proto] @ be16 csum @ src @ dst"

definition ip_header :: "u32 \<Rightarrow> u8 \<Rightarrow> u8 list \<Rightarrow> u8 list \<Rightarrow> u8 list" where
  "ip_header tot proto src dst =
    ip_fields (ucast (inet_csum (ip_fields 0 tot proto src dst))) tot proto src dst"

definition icmp_fields :: "u32 \<Rightarrow> u16 \<Rightarrow> u8 list" where
  "icmp_fields csum seq =
    [8, 0] @ be16 csum @ [0, 42] @ be16 (ucast seq) @ map (\<lambda>i. 0x61 + of_nat (i mod 26)) [0..<56]"

definition icmp_echo :: "u16 \<Rightarrow> u8 list" where
  "icmp_echo seq = icmp_fields (ucast (inet_csum (icmp_fields 0 seq))) seq"

definition ping_frame :: "u16 \<Rightarrow> net \<Rightarrow> u8 list" where
  "ping_frame seq n = gateway_mac n @ mac n @ [0x08, 0x00] @ ip_header 84 1 (g_my_ip n) (g_gateway_ip n) @ icmp_echo seq"

definition net_send_ping :: "vq_dev \<Rightarrow> u16 \<Rightarrow> net \<Rightarrow> int \<times> net" where
  "net_send_ping dev seq n =
    (if \<not> have_gateway_mac n then (-1, n) else send_buf dev (ping_pa n) (ping_frame seq n) n)"

definition udp_build :: "u8 list \<Rightarrow> u8 list \<Rightarrow> u8 list \<Rightarrow> u16 \<Rightarrow> u16 \<Rightarrow> u8 list \<Rightarrow> net \<Rightarrow> u8 list" where
  "udp_build dst_mac src_ip dst_ip src_port dst_port payload n =
    (let udp_len = 8 + of_nat (length payload); ip_len = 20 + udp_len in
     dst_mac @ mac n @ [0x08, 0x00] @ ip_header ip_len 17 src_ip dst_ip @
     be16 (ucast src_port) @ be16 (ucast dst_port) @ be16 udp_len @ [0, 0] @ payload)"

section \<open>DHCP\<close>

definition dhcp_build :: "u8 \<Rightarrow> u8 list \<Rightarrow> u32 \<Rightarrow> u8 list option \<Rightarrow> u8 list option \<Rightarrow> u8 list" where
  "dhcp_build msg_type client_mac xid requested_ip server_id =
    [1, 1, 6, 0] @ be32 xid @ replicate 20 0 @ client_mac @ replicate 202 0 @ [0x63, 0x82, 0x53, 0x63] @
    [53, 1, msg_type] @ [55, 4, 1, 3, 51, 54] @
    (case requested_ip of None \<Rightarrow> [] | Some ip \<Rightarrow> [50, 4] @ ip) @
    (case server_id of None \<Rightarrow> [] | Some sid \<Rightarrow> [54, 4] @ sid) @ [255]"

text \<open>The offset and length of the value; the outer option is a read outside the buffer.\<close>

function dhcp_find_option :: "u8 list \<Rightarrow> nat \<Rightarrow> u8 \<Rightarrow> nat \<Rightarrow> (nat \<times> u8) option option" where
  "dhcp_find_option opts max_len want p =
    (if p < max_len then
       if p \<ge> length opts then None
       else if opts ! p = 255 then Some None
       else if opts ! p = 0 then dhcp_find_option opts max_len want (p + 1)
       else if p + 1 \<ge> max_len then Some None
       else if p + 1 \<ge> length opts then None
       else if p + 2 + unat (opts ! (p + 1)) > max_len then Some None
       else if opts ! p = want then Some (Some (p + 2, opts ! (p + 1)))
       else dhcp_find_option opts max_len want (p + 2 + unat (opts ! (p + 1)))
     else Some None)"
  by pat_completeness auto
termination
  by (relation "measure (\<lambda>(opts, max_len, want, p). max_len - p)") auto

declare dhcp_find_option.simps [simp del]

record lease =
  l_yiaddr :: "u8 list"
  l_server :: "u8 list"
  l_mask :: "u8 list"
  l_router :: "u8 list"
  l_secs :: u32

text \<open>The value of an option of the accepted length, if it is there.\<close>

definition option_bytes :: "u8 list \<Rightarrow> nat \<Rightarrow> u8 \<Rightarrow> (u8 \<Rightarrow> bool) \<Rightarrow> nat \<Rightarrow> u8 list option option" where
  "option_bytes opts max_len want len_ok k =
    (case dhcp_find_option opts max_len want 0 of
       None \<Rightarrow> None
     | Some None \<Rightarrow> Some None
     | Some (Some (off, l)) \<Rightarrow>
        if \<not> len_ok l then Some None
        else if off + k \<le> length opts then Some (Some (take k (drop off opts))) else None)"

definition of_be32 :: "u8 list \<Rightarrow> u32" where
  "of_be32 b = push_bit 24 (ucast (b ! 0)) OR push_bit 16 (ucast (b ! 1)) OR push_bit 8 (ucast (b ! 2)) OR ucast (b ! 3)"

definition udp_len_of :: "u8 list \<Rightarrow> nat" where
  "udp_len_of frame = unat (of_be16 (frame ! 38) (frame ! 39))"

definition dhcp_headers_ok :: "u8 list \<Rightarrow> nat \<Rightarrow> u32 \<Rightarrow> bool" where
  "dhcp_headers_ok frame flen expect_xid \<longleftrightarrow>
    282 \<le> flen \<and> frame ! 12 = 0x08 \<and> frame ! 13 = 0x00 \<and> frame ! 14 AND 0xF0 = 0x40 \<and> frame ! 23 = 17 \<and>
    (ucast (frame ! 14 AND 0x0F) :: u32) * 4 = 20 \<and>
    of_be16 (frame ! 34) (frame ! 35) = 67 \<and> of_be16 (frame ! 36) (frame ! 37) = 68 \<and> 248 \<le> udp_len_of frame \<and>
    frame ! 42 = 2 \<and> of_be32 (drop 46 frame) = expect_xid \<and>
    frame ! 278 = 0x63 \<and> frame ! 279 = 0x82 \<and> frame ! 280 = 0x53 \<and> frame ! 281 = 0x63"

definition dhcp_parse :: "u8 list \<Rightarrow> nat \<Rightarrow> u32 \<Rightarrow> u8 \<Rightarrow> lease \<Rightarrow> lease option option" where
  "dhcp_parse frame flen expect_xid expect_msg out =
    (if \<not> dhcp_headers_ok frame flen expect_xid then Some None
     else let opts = drop 282 frame; opts_len = udp_len_of frame - 248 in
          case option_bytes opts opts_len 53 (\<lambda>l. l = 1) 1 of
            None \<Rightarrow> None
          | Some None \<Rightarrow> Some None
          | Some (Some mt) \<Rightarrow>
             if mt ! 0 \<noteq> expect_msg then Some None
             else (case (option_bytes opts opts_len 54 (\<lambda>l. l = 4) 4, option_bytes opts opts_len 1 (\<lambda>l. l = 4) 4,
                         option_bytes opts opts_len 3 (\<lambda>l. 4 \<le> l) 4, option_bytes opts opts_len 51 (\<lambda>l. l = 4) 4) of
                     (Some sid, Some sm, Some rt, Some ls) \<Rightarrow>
                       Some (Some \<lparr>l_yiaddr = take 4 (drop 58 frame),
                         l_server = (case sid of None \<Rightarrow> l_server out | Some b \<Rightarrow> b),
                         l_mask = (case sm of None \<Rightarrow> l_mask out | Some b \<Rightarrow> b),
                         l_router = (case rt of None \<Rightarrow> l_router out | Some b \<Rightarrow> b),
                         l_secs = (case ls of None \<Rightarrow> 0 | Some b \<Rightarrow> of_be32 b)\<rparr>)
                   | _ \<Rightarrow> None))"

abbreviation (input) XID :: u32 where "XID \<equiv> 0xFE221001"
abbreviation (input) DHCP_POLLS :: nat where "DHCP_POLLS \<equiv> 5000000"

text \<open>Waiting for a reply; \<open>env\<close> is what the device does before the poll with that number.\<close>

function dhcp_wait :: "(nat \<Rightarrow> net \<Rightarrow> net) \<Rightarrow> u8 \<Rightarrow> nat \<Rightarrow> u8 list \<Rightarrow> lease \<Rightarrow> net \<Rightarrow> (lease option \<times> u8 list \<times> net) option" where
  "dhcp_wait env msg s rx out n =
    (if s < DHCP_POLLS then
       let (k, bytes, n1) = net_rx_poll 600 (env s n); rx1 = bytes @ drop (length bytes) rx in
       case (if k > 0 then dhcp_parse rx1 (nat k) XID msg out else Some None) of
         None \<Rightarrow> None
       | Some (Some l) \<Rightarrow> Some (Some l, rx1, n1)
       | Some None \<Rightarrow> dhcp_wait env msg (s + 1) rx1 out n1
     else Some (None, rx, n))"
  by pat_completeness auto
termination
  by (relation "measure (\<lambda>(env, msg, s, rx, out, n). DHCP_POLLS - s)") auto

declare dhcp_wait.simps [simp del]

definition no_lease :: lease where
  "no_lease = \<lparr>l_yiaddr = replicate 4 0, l_server = replicate 4 0, l_mask = [255, 255, 255, 0], l_router = replicate 4 0, l_secs = 0\<rparr>"

definition dhcp_send :: "vq_dev \<Rightarrow> u8 list \<Rightarrow> net \<Rightarrow> int \<times> net" where
  "dhcp_send dev bootp n =
    send_buf dev (dhcp_pa n) (udp_build (replicate 6 0xFF) (replicate 4 0) (replicate 4 255) 68 67 bootp n) n"

definition commit_lease :: "lease \<Rightarrow> net \<Rightarrow> net" where
  "commit_lease l n = n\<lparr>g_my_ip := l_yiaddr l, g_subnet_mask := l_mask l, g_gateway_ip := l_router l,
     g_dhcp_server := l_server l, g_lease_secs := l_secs l, g_dhcp_acquired := True\<rparr>"

definition dhcp_acquire :: "vq_dev \<Rightarrow> (nat \<Rightarrow> net \<Rightarrow> net) \<Rightarrow> u8 list \<Rightarrow> net \<Rightarrow> (int \<times> net) option" where
  "dhcp_acquire dev env rx n =
    (if \<not> have_mac n then Some (-1, n)
     else let (r1, n1) = dhcp_send dev (dhcp_build 1 (mac n) XID None None) n in
          if r1 \<le> 0 then Some (-1, n1)
          else case dhcp_wait env 2 0 rx no_lease n1 of
                 None \<Rightarrow> None
               | Some (None, _, n2) \<Rightarrow> Some (-1, n2)
               | Some (Some off, rx1, n2) \<Rightarrow>
                   let (r2, n3) = dhcp_send dev (dhcp_build 3 (mac n2) XID (Some (l_yiaddr off)) (Some (l_server off))) n2 in
                   if r2 \<le> 0 then Some (-1, n3)
                   else case dhcp_wait env 5 0 rx1 no_lease n3 of
                          None \<Rightarrow> None
                        | Some (None, _, n4) \<Rightarrow> Some (-1, n4)
                        | Some (Some ack, _, n4) \<Rightarrow> Some (0, commit_lease ack n4))"

section \<open>The checksum as arithmetic\<close>

fun nsum :: "u8 list \<Rightarrow> nat" where
  "nsum (a # b # rest) = 256 * unat a + unat b + nsum rest"
| "nsum [a] = 256 * unat a"
| "nsum [] = 0"

lemma unat_ucast_8_32: "unat (ucast a :: u32) = unat a" for a :: u8
  using unat_lt_8 [of a] by (simp add: unsigned_ucast_eq take_bit_nat_eq_self)

lemma unat_shift8: "unat (push_bit 8 (ucast a) :: u32) = 256 * unat a" for a :: u8
  using unat_lt_8 [of a] by (simp add: push_bit_eq_mult unat_word_ariths unat_ucast_8_32)

lemma unat_of_be16: "unat (of_be16 a b) = 256 * unat a + unat b"
proof -
  have "of_be16 a b = push_bit 8 (ucast a) + ucast b"
    unfolding of_be16_def by (rule disjunctive_add [symmetric]) (auto simp: bit_simps dest: bit_imp_le_length)
  moreover have "256 * unat a + unat b < 2 ^ 32" using unat_lt_8 [of a] unat_lt_8 [of b] by simp
  ultimately show ?thesis by (simp add: unat_word_ariths unat_shift8 unat_ucast_8_32)
qed

lemma nsum_bound: "nsum xs \<le> 65280 * length xs"
proof (induction xs rule: nsum.induct)
  case (1 a b rest)
  then show ?case using unat_lt_8 [of a] unat_lt_8 [of b] by simp
next
  case (2 a)
  then show ?case using unat_lt_8 [of a] by simp
qed simp

lemma unat_csum_add: "unat s + nsum xs < 2 ^ 32 \<Longrightarrow> unat (csum_add s xs) = unat s + nsum xs"
proof (induction s xs rule: csum_add.induct)
  case (1 s a b rest)
  then have "unat (s + of_be16 a b) = unat s + (256 * unat a + unat b)" by (simp add: unat_word_ariths unat_of_be16)
  then show ?case using 1 by simp
next
  case (2 s a)
  then show ?case by (simp add: unat_word_ariths unat_shift8)
qed simp

lemma nsum_append: "even (length xs) \<Longrightarrow> nsum (xs @ ys) = nsum xs + nsum ys"
  by (induction xs rule: nsum.induct) auto

text \<open>End-around carry: the residue modulo 65535, with 65535 in place of 0.\<close>

definition residue :: "nat \<Rightarrow> nat" where
  "residue u = (if u = 0 then 0 else (u - 1) mod 65535 + 1)"

lemma residue_carry: "65536 \<le> u \<Longrightarrow> residue (u mod 65536 + u div 65536) = residue u"
proof -
  assume u: "65536 \<le> u"
  define q r where "q = u div 65536" and "r = u mod 65536"
  have e: "u = 65536 * q + r" "0 < q" using u by (simp_all add: q_def r_def div_greater_zero_iff)
  then have "u - 1 = (r + q - 1) + q * 65535" by simp
  then have "(u - 1) mod 65535 = (r + q - 1) mod 65535" by (metis mod_mult_self1)
  moreover have "u \<noteq> 0" "r + q \<noteq> 0" using e by auto
  ultimately show ?thesis unfolding q_def [symmetric] r_def [symmetric] by (simp add: residue_def)
qed

lemma unat_csum_fold: "unat (csum_fold s) = residue (unat s)"
proof (induction s rule: csum_fold.induct)
  case (1 s)
  have d: "drop_bit 16 s \<noteq> 0 \<longleftrightarrow> 65536 \<le> unat s"
    by (simp add: unat_eq_0 [symmetric] unat_drop_bit_eq) (simp add: drop_bit_eq_div div_greater_zero_iff)
  show ?case
  proof (cases "drop_bit 16 s \<noteq> 0")
    case True
    then have "unat (csum_fold s) = residue (unat s mod 65536 + unat s div 65536)"
      using 1 by (simp add: csum_fold.simps [of s] unat_carry)
    then show ?thesis using True d residue_carry by simp
  next
    case False
    then have "unat s < 65536" using d by simp
    then show ?thesis using False by (simp add: csum_fold.simps [of s] residue_def)
  qed
qed

lemma residue_le: "residue u \<le> 65535"
  using mod_less_divisor [of 65535 "u - 1"] by (simp add: residue_def Suc_le_eq)

lemma unat_low_not: "unat s \<le> 65535 \<Longrightarrow> unat (ucast (NOT s) :: u16) = 65535 - unat s" for s :: u32
proof -
  assume s: "unat s \<le> 65535"
  have "NOT s = - 1 - s" by (simp add: not_eq_complement)
  moreover have "unat (- 1 - s) = unat (- 1 :: u32) - unat s" by (rule unat_sub) simp
  moreover have "unat (- 1 :: u32) = 2 ^ 32 - 1" by (simp add: unsigned_minus_1_eq_mask mask_eq_exp_minus_1)
  ultimately have "unat (NOT s) = 2 ^ 32 - 1 - unat s" by simp
  then have "unat (ucast (NOT s) :: u16) = (2 ^ 32 - 1 - unat s) mod 2 ^ 16"
    by (simp add: unsigned_ucast_eq take_bit_eq_mod)
  also have "2 ^ 32 - 1 - unat s = (65535 - unat s) + 65535 * 2 ^ 16" using s by simp
  also have "((65535 - unat s) + 65535 * 2 ^ 16) mod 2 ^ 16 = (65535 - unat s) mod 2 ^ 16" by (rule mod_mult_self1)
  finally show ?thesis using s by simp
qed

lemma unat_inet_csum: "length xs \<le> 65535 \<Longrightarrow> unat (inet_csum xs) = 65535 - residue (nsum xs)"
proof -
  assume "length xs \<le> 65535"
  then have "nsum xs < 2 ^ 32" using nsum_bound [of xs] by simp
  then have "unat (csum_fold (csum_add 0 xs)) = residue (nsum xs)" by (simp add: unat_csum_fold unat_csum_add)
  then show ?thesis using residue_le [of "nsum xs"] by (simp add: inet_csum_def unat_low_not)
qed

lemma residue_complement: "residue (u + (65535 - residue u)) = 65535"
proof (cases "u = 0")
  case False
  define q r where "q = (u - 1) div 65535" and "r = (u - 1) mod 65535"
  have "u = q * 65535 + r + 1" "r < 65535" using False by (simp_all add: q_def r_def)
  moreover from this have "residue u = r + 1" using False by (simp add: residue_def r_def)
  ultimately have "u + (65535 - residue u) - 1 = 65534 + q * 65535" "u + (65535 - residue u) \<noteq> 0" by simp_all
  then show ?thesis unfolding residue_def [of "u + _"] by (metis (no_types, lifting) Suc_eq_plus1 eval_nat_numeral(3) mod_less mod_mult_self1 lessI numeral_eq_iff)
qed (simp add: residue_def)

lemma nsum_be16: "nsum (be16 (ucast c)) = unat c" for c :: u16
proof -
  have low: "unat (ucast x :: u8) = unat x mod 256" for x :: u32
    by (simp add: unsigned_ucast_eq) (simp add: take_bit_eq_mod)
  have "unat (drop_bit 8 (ucast c :: u32)) = unat c div 256"
    by (simp add: unat_drop_bit_eq unat_ucast_16_32) (simp add: drop_bit_eq_div)
  then show ?thesis using unat_lt_16 [of c] by (simp add: be16_def low unat_ucast_16_32)
qed

text \<open>Storing the checksum in its own field makes the whole sum verify.\<close>

lemma inet_csum_verifies:
  assumes "even (length xs)" "length (xs @ ys) \<le> 65533"
  shows "inet_csum (xs @ be16 (ucast (inet_csum (xs @ be16 0 @ ys))) @ ys) = 0"
proof -
  let ?c = "inet_csum (xs @ be16 0 @ ys)"
  have z: "nsum (be16 w @ zs) = nsum (be16 w) + nsum zs" for w zs by (simp add: be16_def)
  have "nsum (xs @ be16 0 @ ys) = nsum xs + nsum ys" using assms(1) by (simp add: nsum_append z) (simp add: be16_def)
  moreover have "length (be16 w) = 2" for w by (simp add: be16_def)
  ultimately have c: "unat ?c = 65535 - residue (nsum xs + nsum ys)" using assms(2) by (simp add: unat_inet_csum)
  have "nsum (xs @ be16 (ucast ?c) @ ys) = nsum xs + nsum ys + (65535 - residue (nsum xs + nsum ys))"
    using assms(1) by (simp add: nsum_append z nsum_be16 c)
  then have "unat (inet_csum (xs @ be16 (ucast ?c) @ ys)) = 0"
    using assms(2) \<open>length (be16 _) = 2\<close> by (simp add: unat_inet_csum residue_complement)
  then show ?thesis by (simp add: unat_eq_0)
qed

section \<open>Frames\<close>

lemma length_be16 [simp]: "length (be16 w) = 2" by (simp add: be16_def)

lemma length_ip_header [simp]: "length src = 4 \<Longrightarrow> length dst = 4 \<Longrightarrow> length (ip_header tot proto src dst) = 20"
  by (simp add: ip_header_def ip_fields_def)

lemma ip_header_verifies: "length src = 4 \<Longrightarrow> length dst = 4 \<Longrightarrow> inet_csum (ip_header tot proto src dst) = 0"
  using inet_csum_verifies [of "[0x45, 0] @ be16 tot @ [0, 0, 0, 0, 64, proto]" "src @ dst"]
  by (simp add: ip_header_def ip_fields_def)

lemma icmp_echo_verifies: "inet_csum (icmp_echo seq) = 0"
  using inet_csum_verifies [of "[8, 0]" "[0, 42] @ be16 (ucast seq) @ map (\<lambda>i. 0x61 + of_nat (i mod 26)) [0..<56]"]
  by (simp add: icmp_echo_def icmp_fields_def)

lemma length_icmp_echo [simp]: "length (icmp_echo seq) = 64"
  by (simp add: icmp_echo_def icmp_fields_def)

lemma of_be16_be16: "unat w < 65536 \<Longrightarrow> of_be16 (be16 w ! 0) (be16 w ! 1) = w"
proof -
  assume w: "unat w < 65536"
  have low: "unat (ucast x :: u8) = unat x mod 256" for x :: u32
    by (simp add: unsigned_ucast_eq) (simp add: take_bit_eq_mod)
  have "unat (drop_bit 8 w) = unat w div 256" by (simp add: unat_drop_bit_eq) (simp add: drop_bit_eq_div)
  then have "unat (of_be16 (be16 w ! 0) (be16 w ! 1)) = unat w" using w by (simp add: unat_of_be16 be16_def low)
  then show ?thesis using word_unat_eq_iff by blast
qed

lemma ping_frame_valid:
  assumes "length (mac n) = 6" "length (gateway_mac n) = 6" "length (g_my_ip n) = 4" "length (g_gateway_ip n) = 4"
  shows "let f = ping_frame seq n in
    length f = 98 \<and> inet_csum (take 20 (drop 14 f)) = 0 \<and> inet_csum (drop 34 f) = 0 \<and> of_be16 (f ! 16) (f ! 17) = 84"
  using assms of_be16_be16 [of 84]
  by (simp add: ping_frame_def ip_header_verifies icmp_echo_verifies nth_append) (simp add: ip_header_def ip_fields_def nth_append)

lemma udp_frame_valid:
  assumes m: "length (mac n) = 6" "length dst_mac = 6" "length src = 4" "length dst = 4" and p: "length payload \<le> 65507"
  shows "let f = udp_build dst_mac src dst sp dp payload n in
    length f = 42 + length payload \<and> inet_csum (take 20 (drop 14 f)) = 0 \<and>
    unat (of_be16 (f ! 16) (f ! 17)) + 14 = length f \<and> unat (of_be16 (f ! 38) (f ! 39)) + 34 = length f \<and> drop 42 f = payload"
proof -
  define u :: u32 where "u = 8 + of_nat (length payload)"
  have u: "unat u = 8 + length payload" "unat (20 + u) = 28 + length payload"
    using p by (simp_all add: u_def unat_word_ariths unat_of_nat take_bit_nat_eq_self)
  have w: "of_be16 (be16 u ! 0) (be16 u ! 1) = u" "of_be16 (be16 (20 + u) ! 0) (be16 (20 + u) ! 1) = 20 + u"
    using u p by (intro of_be16_be16; simp)+
  have i: "ip_header t pr src dst ! 2 = be16 t ! 0" "ip_header t pr src dst ! 3 = be16 t ! 1" for t pr
    by (simp_all add: ip_header_def ip_fields_def nth_append)
  show ?thesis
    unfolding udp_build_def u_def [symmetric] Let_def using m u w i by (simp add: ip_header_verifies nth_append)
qed


section \<open>Options\<close>

lemma dhcp_find_option_in_bounds:
  assumes "max_len \<le> length opts"
  shows "\<exists>r. dhcp_find_option opts max_len want p = Some r \<and>
    (case r of None \<Rightarrow> True | Some (off, l) \<Rightarrow> p + 2 \<le> off \<and> off + unat l \<le> max_len \<and> opts ! (off - 2) = want \<and> opts ! (off - 1) = l)"
  using assms
proof (induction opts max_len want p rule: dhcp_find_option.induct)
  case (1 opts max_len want p)
  show ?case
  proof (cases "p < max_len \<and> opts ! p \<noteq> 255 \<and> (opts ! p = 0 \<or> p + 1 < max_len \<and> p + 2 + unat (opts ! (p + 1)) \<le> max_len)")
    case False
    then have "dhcp_find_option opts max_len want p = Some None"
      using 1(3) by (subst dhcp_find_option.simps) (auto simp: not_less)
    then show ?thesis by simp
  next
    case go: True
    define q where "q = (if opts ! p = 0 then p + 1 else p + 2 + unat (opts ! (p + 1)))"
    show ?thesis
    proof (cases "opts ! p \<noteq> 0 \<and> opts ! p = want")
      case True
      then have "dhcp_find_option opts max_len want p = Some (Some (p + 2, opts ! (p + 1)))"
        using go 1(3) by (subst dhcp_find_option.simps) auto
      then show ?thesis using go True by auto
    next
      case False
      have "dhcp_find_option opts max_len want p = dhcp_find_option opts max_len want q"
        using go 1(3) False by (subst dhcp_find_option.simps) (auto simp: q_def)
      moreover have "\<exists>r. dhcp_find_option opts max_len want q = Some r \<and>
        (case r of None \<Rightarrow> True | Some (off, l) \<Rightarrow> q + 2 \<le> off \<and> off + unat l \<le> max_len \<and> opts ! (off - 2) = want \<and> opts ! (off - 1) = l)"
      proof (cases "opts ! p = 0")
        case True
        then have q: "q = p + 1" by (simp add: q_def)
        show ?thesis unfolding q by (rule 1(1)) (use 1(3) go True in auto)
      next
        case nz: False
        then have q: "q = p + 2 + unat (opts ! (p + 1))" by (simp add: q_def)
        show ?thesis unfolding q by (rule 1(2)) (use 1(3) go False nz in auto)
      qed
      moreover have "p \<le> q" by (simp add: q_def)
      ultimately show ?thesis by (fastforce split: option.splits)
    qed
  qed
qed

text \<open>Options as the protocol writes them.\<close>

fun encode_options :: "(u8 \<times> u8 list) list \<Rightarrow> u8 list" where
  "encode_options [] = []"
| "encode_options ((c, v) # os) = [c, of_nat (length v)] @ v @ encode_options os"

definition option_ok :: "u8 \<times> u8 list \<Rightarrow> bool" where
  "option_ok x \<longleftrightarrow> fst x \<noteq> 0 \<and> fst x \<noteq> 255 \<and> length (snd x) < 256"

lemma dhcp_find_option_from:
  assumes "\<forall>x \<in> set os. option_ok x" "drop p opts = encode_options os @ 255 # rest" "p + length (encode_options os) < max_len"
    "max_len \<le> length opts"
  shows "case map_of os want of
      None \<Rightarrow> dhcp_find_option opts max_len want p = Some None
    | Some v \<Rightarrow> \<exists>off. dhcp_find_option opts max_len want p = Some (Some (off, of_nat (length v))) \<and> take (length v) (drop off opts) = v"
  using assms
proof (induction os arbitrary: p)
  case Nil
  then have "p < length opts" "opts ! p = 255" using hd_drop_conv_nth [of p opts] by auto
  then show ?case using Nil by (subst dhcp_find_option.simps) simp
next
  case (Cons x os)
  obtain c v where x: "x = (c, v)" by (cases x)
  have ok: "c \<noteq> 0" "c \<noteq> 255" "length v < 256" using Cons.prems(1) x by (auto simp: option_ok_def)
  have d: "drop p opts = c # of_nat (length v) # v @ encode_options os @ 255 # rest" using Cons.prems(2) x by simp
  then have n: "p + 1 < length opts" "opts ! p = c" "opts ! (p + 1) = of_nat (length v)"
    using nth_drop [of p opts 0] nth_drop [of p opts 1] length_drop [of p opts] by (auto simp: d)
  have l: "unat (of_nat (length v) :: u8) = length v" using ok(3) by (simp add: unat_of_nat take_bit_nat_eq_self)
  define q where "q = p + 2 + length v"
  have q: "drop q opts = encode_options os @ 255 # rest" "take (length v) (drop (p + 2) opts) = v"
  proof -
    have "drop q opts = drop (2 + length v) (drop p opts)" "drop (p + 2) opts = drop 2 (drop p opts)"
      by (simp_all add: q_def ac_simps)
    then show "drop q opts = encode_options os @ 255 # rest" "take (length v) (drop (p + 2) opts) = v" unfolding d by simp_all
  qed
  have step: "dhcp_find_option opts max_len want p =
      (if c = want then Some (Some (p + 2, of_nat (length v))) else dhcp_find_option opts max_len want q)"
    using n ok l Cons.prems(3,4) x by (subst dhcp_find_option.simps) (simp add: q_def)
  show ?case
  proof (cases "c = want")
    case True
    then show ?thesis using step q(2) x by auto
  next
    case False
    have "q + length (encode_options os) < max_len" using Cons.prems(3) x by (simp add: q_def)
    then show ?thesis using Cons.IH [OF _ q(1) _ Cons.prems(4)] Cons.prems(1) x step False by (simp split: option.splits)
  qed
qed

lemma option_bytes_encoded:
  assumes "\<forall>x \<in> set os. option_ok x" and that: "\<And>v. map_of os want = Some v \<Longrightarrow> len_ok (of_nat (length v)) \<Longrightarrow> k = length v"
  shows "option_bytes (encode_options os @ [255]) (length (encode_options os) + 1) want len_ok k =
    Some (case map_of os want of None \<Rightarrow> None | Some v \<Rightarrow> if len_ok (of_nat (length v)) then Some v else None)"
proof (cases "map_of os want")
  case None
  then show ?thesis using dhcp_find_option_from [OF assms(1), of 0 "encode_options os @ [255]" "[]" "length (encode_options os) + 1" want]
    by (simp add: option_bytes_def)
next
  case (Some v)
  then obtain off where f: "dhcp_find_option (encode_options os @ [255]) (length (encode_options os) + 1) want 0 = Some (Some (off, of_nat (length v)))"
    "take (length v) (drop off (encode_options os @ [255])) = v"
    using dhcp_find_option_from [OF assms(1), of 0 "encode_options os @ [255]" "[]" "length (encode_options os) + 1" want] by auto
  have "length v < 256" using assms(1) Some by (auto simp: option_ok_def dest!: map_of_SomeD)
  then have "unat (of_nat (length v) :: u8) = length v" by (simp add: unat_of_nat take_bit_nat_eq_self)
  moreover have "off + unat (of_nat (length v) :: u8) \<le> length (encode_options os) + 1"
    using dhcp_find_option_in_bounds [of "length (encode_options os) + 1" "encode_options os @ [255]" want 0] f(1) by auto
  ultimately have "off + length v \<le> length (encode_options os @ [255])" by simp
  then show ?thesis using f Some that [OF Some] by (auto simp: option_bytes_def)
qed

text \<open>C38: The client's own request reads back: the option search finds the message type, the requested
  address and the server identifier that \<open>dhcp_build\<close> wrote, and finds no lease time.\<close>
theorem dhcp_request_roundtrip:
  assumes "length client_mac = 6" "length ip = 4" "length sid = 4"
  shows "let opts = drop 240 (dhcp_build msg client_mac xid (Some ip) (Some sid)); n = length opts in
    option_bytes opts n 53 (\<lambda>l. l = 1) 1 = Some (Some [msg]) \<and> option_bytes opts n 50 (\<lambda>l. l = 4) 4 = Some (Some ip) \<and>
    option_bytes opts n 54 (\<lambda>l. l = 4) 4 = Some (Some sid) \<and> option_bytes opts n 51 (\<lambda>l. l = 4) 4 = Some None"
proof -
  define os where "os = [(53 :: u8, [msg]), (55, [1, 3, 51, 54]), (50, ip), (54, sid)]"
  have opts: "drop 240 (dhcp_build msg client_mac xid (Some ip) (Some sid)) = encode_options os @ [255]"
    using assms by (simp add: dhcp_build_def os_def be32_def)
  have ok: "\<forall>x \<in> set os. option_ok x" using assms by (auto simp: os_def option_ok_def)
  have n: "length (encode_options os @ [255]) = length (encode_options os) + 1" by simp
  have m: "map_of os 53 = Some [msg]" "map_of os 50 = Some ip" "map_of os 54 = Some sid" "map_of os 51 = None"
    by (simp_all add: os_def)
  note E = option_bytes_encoded [OF ok]
  show ?thesis
    unfolding opts Let_def n using E [of 53 "\<lambda>l. l = 1" 1] E [of 50 "\<lambda>l. l = 4" 4] E [of 54 "\<lambda>l. l = 4" 4] E [of 51 "\<lambda>l. l = 4" 4]
    by (simp add: m assms)
qed

theorem dhcp_request_roundtrip_witness:
  "option_bytes (drop 240 (dhcp_build 3 (replicate 6 2) 7 (Some [10, 0, 2, 15]) (Some [10, 0, 2, 2]))) 22 50 (\<lambda>l. l = 4) 4 = Some (Some [10, 0, 2, 15])"
proof -
  have "length (drop 240 (dhcp_build 3 (replicate 6 2) 7 (Some [10, 0, 2, 15]) (Some [10, 0, 2, 2]))) = 22"
    by (simp add: dhcp_build_def be32_def)
  then show ?thesis using dhcp_request_roundtrip [of "replicate 6 2" "[10, 0, 2, 15]" "[10, 0, 2, 2]" 3 7] unfolding Let_def by simp
qed

section \<open>The client\<close>

lemma option_bytes_in_bounds:
  assumes "max_len \<le> length opts" "\<And>l. len_ok l \<Longrightarrow> k \<le> unat l"
  shows "\<exists>r. option_bytes opts max_len want len_ok k = Some r"
proof -
  obtain r where r: "dhcp_find_option opts max_len want 0 = Some r"
    "case r of None \<Rightarrow> True | Some (off, l) \<Rightarrow> off + unat l \<le> max_len"
    using dhcp_find_option_in_bounds [OF assms(1), of want 0] by (fastforce split: option.splits)
  then show ?thesis using assms by (fastforce simp: option_bytes_def split: option.splits)
qed

lemma dhcp_parse_in_bounds:
  assumes "udp_len_of frame + 34 \<le> length frame"
  shows "\<exists>r. dhcp_parse frame flen xid msg out = Some r"
proof (cases "dhcp_headers_ok frame flen xid")
  case True
  then have m: "udp_len_of frame - 248 \<le> length (drop 282 frame)" using assms by (auto simp: dhcp_headers_ok_def)
  note B = option_bytes_in_bounds [OF m]
  have "\<exists>r. option_bytes (drop 282 frame) (udp_len_of frame - 248) w (\<lambda>l. l = 4) 4 = Some r"
    "\<exists>r. option_bytes (drop 282 frame) (udp_len_of frame - 248) w (\<lambda>l. 4 \<le> l) 4 = Some r"
    "\<exists>r. option_bytes (drop 282 frame) (udp_len_of frame - 248) w (\<lambda>l. l = 1) 1 = Some r" for w
    by (rule B, simp add: word_le_nat_alt)+
  then obtain a b c d e where "option_bytes (drop 282 frame) (udp_len_of frame - 248) 53 (\<lambda>l. l = 1) 1 = Some a"
    "option_bytes (drop 282 frame) (udp_len_of frame - 248) 54 (\<lambda>l. l = 4) 4 = Some b"
    "option_bytes (drop 282 frame) (udp_len_of frame - 248) 1 (\<lambda>l. l = 4) 4 = Some c"
    "option_bytes (drop 282 frame) (udp_len_of frame - 248) 3 (\<lambda>l. 4 \<le> l) 4 = Some d"
    "option_bytes (drop 282 frame) (udp_len_of frame - 248) 51 (\<lambda>l. l = 4) 4 = Some e"
    by meson
  then show ?thesis using True by (simp add: dhcp_parse_def Let_def split: option.split)
qed (simp add: dhcp_parse_def)

definition net_config :: "net \<Rightarrow> u8 list \<times> u8 list \<times> u8 list \<times> u8 list \<times> u32 \<times> bool" where
  "net_config n = (g_my_ip n, g_subnet_mask n, g_gateway_ip n, g_dhcp_server n, g_lease_secs n, g_dhcp_acquired n)"

lemma net_config_upd [simp]:
  "net_config (n\<lparr>rx_vq := q\<rparr>) = net_config n" "net_config (n\<lparr>tx_vq := q\<rparr>) = net_config n"
  "net_config (n\<lparr>rx_desc_to_buf := d\<rparr>) = net_config n" "net_config (n\<lparr>net_mem := m\<rparr>) = net_config n"
  "net_config (n\<lparr>rx_packets := p\<rparr>) = net_config n" "net_config (n\<lparr>tx_packets := p\<rparr>) = net_config n"
  by (simp_all add: net_config_def)

lemma net_tx_config: "net_config (snd (net_tx dev pa len n)) = net_config n"
  by (simp add: net_tx_def Let_def split: prod.split)

lemma send_buf_config: "net_config (snd (send_buf dev pa b n)) = net_config n"
  by (simp add: send_buf_def net_tx_config)

lemma dhcp_send_config: "dhcp_send dev b n = (r, n') \<Longrightarrow> net_config n' = net_config n"
  unfolding dhcp_send_def using send_buf_config by (metis snd_conv)

lemma rx_submit_config: "net_config (net_rx_submit_buf i n) = net_config n"
  by (simp add: net_rx_submit_buf_def split: prod.split)

lemma net_rx_poll_ok:
  assumes "net_rx_poll 600 n = (k, bytes, n')" "\<And>b. length (rx_bufs n b) = 1600"
  shows "net_config n' = net_config n" "k > 0 \<Longrightarrow> k \<le> 600 \<and> int (length bytes) = k \<and> (\<exists>b. bytes = take (nat k) (drop 12 (rx_bufs n b)))"
    "length bytes \<le> 600"
proof -
  show "net_config n' = net_config n"
    using assms(1) by (auto simp: net_rx_poll_def Let_def rx_submit_config split: if_splits prod.splits option.splits)
  have le: "unat (rx_copy_len t 600) \<le> 600" for t by (simp add: rx_copy_len_def Let_def word_less_nat_alt)
  have small: "sint (rx_copy_len t 600) = int (unat (rx_copy_len t 600))" for t
    using le [of t] by (intro sint_small_32) simp
  consider "bytes = []" "k \<le> 0"
    | b t where "k = sint (rx_copy_len t 600)" "bytes = take (unat (rx_copy_len t 600)) (drop 12 (rx_bufs n b))"
    using assms(1) unfolding net_rx_poll_def Let_def by (auto split: if_splits prod.splits option.splits)
  then show "k > 0 \<Longrightarrow> k \<le> 600 \<and> int (length bytes) = k \<and> (\<exists>b. bytes = take (nat k) (drop 12 (rx_bufs n b)))" "length bytes \<le> 600"
  proof (atomize (full), cases)
    case (2 b t)
    define m where "m = unat (rx_copy_len t 600)"
    have "k = int m" "bytes = take m (drop 12 (rx_bufs n b))" "m \<le> 600" using 2 small [of t] le [of t] by (simp_all add: m_def)
    then show "(k > 0 \<longrightarrow> k \<le> 600 \<and> int (length bytes) = k \<and> (\<exists>b. bytes = take (nat k) (drop 12 (rx_bufs n b)))) \<and> length bytes \<le> 600"
      using assms(2) [of b] by auto
  qed simp
qed

text \<open>What the device may do while the driver waits: it fills receive buffers with frames whose UDP
  length fits the client's buffer, and leaves the configuration alone.\<close>

definition sound_device :: "(nat \<Rightarrow> net \<Rightarrow> net) \<Rightarrow> bool" where
  "sound_device env \<longleftrightarrow> (\<forall>s n. net_config (env s n) = net_config n \<and>
     (\<forall>b. length (rx_bufs (env s n) b) = 1600 \<and> udp_len_of (drop 12 (rx_bufs (env s n) b)) \<le> 566))"

lemma dhcp_parse_received:
  assumes "length (rx_bufs n b) = 1600" "udp_len_of (drop 12 (rx_bufs n b)) \<le> 566" "length rx = 600" "k \<le> 600"
  shows "\<exists>r. dhcp_parse (take k (drop 12 (rx_bufs n b)) @ drop k rx) k xid msg out = Some r"
proof (cases "282 \<le> k")
  case True
  let ?f = "take k (drop 12 (rx_bufs n b)) @ drop k rx"
  have "udp_len_of ?f = udp_len_of (drop 12 (rx_bufs n b))" using True assms(1) by (simp add: udp_len_of_def nth_append)
  then have "udp_len_of ?f + 34 \<le> length ?f" using assms by simp
  then show ?thesis by (rule dhcp_parse_in_bounds)
qed (simp add: dhcp_parse_def dhcp_headers_ok_def)

lemma dhcp_wait_ok:
  assumes "sound_device env" "length rx = 600"
  shows "\<exists>r rx' n'. dhcp_wait env msg s rx out n = Some (r, rx', n') \<and> length rx' = 600 \<and> net_config n' = net_config n \<and>
    (\<forall>l. r = Some l \<longrightarrow> (\<exists>fr k. dhcp_parse fr k XID msg out = Some (Some l)))"
  using assms
proof (induction env msg s rx out n rule: dhcp_wait.induct)
  case (1 env msg s rx out n)
  show ?case
  proof (cases "s < DHCP_POLLS")
    case False
    then show ?thesis using 1(3) by (subst dhcp_wait.simps) simp
  next
    case True
    obtain k bytes n1 where p: "net_rx_poll 600 (env s n) = (k, bytes, n1)" by (metis prod_cases3)
    have env: "net_config (env s n) = net_config n" "\<And>b. length (rx_bufs (env s n) b) = 1600"
      "\<And>b. udp_len_of (drop 12 (rx_bufs (env s n) b)) \<le> 566" using 1(2) by (auto simp: sound_device_def)
    note P = net_rx_poll_ok [OF p env(2)]
    define rx1 where "rx1 = bytes @ drop (length bytes) rx"
    have l1: "length rx1 = 600" using P(3) 1(3) by (simp add: rx1_def)
    have "\<exists>r. (if k > 0 then dhcp_parse rx1 (nat k) XID msg out else Some None) = Some r"
    proof (cases "k > 0")
      case True
      then obtain b where "bytes = take (nat k) (drop 12 (rx_bufs (env s n) b))" using P(2) by blast
      moreover have "length bytes = nat k" "nat k \<le> 600" using P(2) True by auto
      ultimately show ?thesis using dhcp_parse_received [OF env(2,3) 1(3)] True by (simp add: rx1_def)
    qed simp
    then obtain r where r: "(if k > 0 then dhcp_parse rx1 (nat k) XID msg out else Some None) = Some r" by blast
    have step0: "dhcp_wait env msg s rx out n = (case (if k > 0 then dhcp_parse rx1 (nat k) XID msg out else Some None) of
        None \<Rightarrow> None | Some (Some l) \<Rightarrow> Some (Some l, rx1, n1) | Some None \<Rightarrow> dhcp_wait env msg (s + 1) rx1 out n1)"
      by (subst dhcp_wait.simps) (simp only: True if_True p Let_def prod.case rx1_def)
    show ?thesis
    proof (cases r)
      case None
      have step: "dhcp_wait env msg s rx out n = dhcp_wait env msg (s + 1) rx1 out n1"
        using step0 r None by simp
      have "\<exists>r rx' n'. dhcp_wait env msg (s + 1) rx1 out n1 = Some (r, rx', n') \<and> length rx' = 600 \<and> net_config n' = net_config n1 \<and>
        (\<forall>l. r = Some l \<longrightarrow> (\<exists>fr k. dhcp_parse fr k XID msg out = Some (Some l)))"
        by (rule 1(1) [OF True refl p [symmetric] refl rx1_def r None 1(2) l1])
      then show ?thesis using step P(1) env(1) by simp
    next
      case (Some l)
      have "dhcp_wait env msg s rx out n = Some (Some l, rx1, n1)"
        using step0 r Some by simp
      moreover have "dhcp_parse rx1 (nat k) XID msg out = Some (Some l)" using r Some by (simp split: if_splits)
      ultimately show ?thesis using P(1) env(1) l1 by auto
    qed
  qed
qed


section \<open>An exchange\<close>

text \<open>A server that answers the client's first two waits with an offer and an acknowledgement.\<close>

definition demo_reply :: "u8 \<Rightarrow> u8 list" where
  "demo_reply msg =
    replicate 12 0 @ [8, 0] @ [0x45] @ replicate 8 0 @ [17] @ replicate 10 0 @ [0, 67, 0, 68, 1, 2, 0, 0] @
    [2, 1, 6, 0] @ be32 XID @ replicate 8 0 @ [10, 0, 2, 15] @ replicate 216 0 @ [0x63, 0x82, 0x53, 0x63] @
    [53, 1, msg, 54, 4, 10, 0, 2, 2, 255]"

definition demo_server :: "nat \<Rightarrow> net \<Rightarrow> net" where
  "demo_server s n =
    n\<lparr>rx_bufs := (\<lambda>b. replicate 12 0 @ demo_reply (if rx_packets n = 0 then 2 else 5) @ replicate 1296 0),
      rx_vq := (rx_vq n)\<lparr>vq_size := 8, used_idx := last_used (rx_vq n) + 1, used_ring := (\<lambda>_. (0, 304))\<rparr>,
      rx_initialized := True, rx_desc_to_buf := (\<lambda>_. 0)\<rparr>"

lemma length_demo_reply: "length (demo_reply m) = 292"
  by (simp add: demo_reply_def be32_def)

definition demo_net :: net where
  "demo_net = \<lparr>have_mac = True, mac = [0x52, 0x54, 0, 0x12, 0x34, 0x56], tx_vq = demo_vq, rx_vq = demo_vq, rx_packets = 0,
     tx_packets = 0, g_my_ip = [10, 0, 2, 15], g_subnet_mask = [255, 255, 255, 0], g_gateway_ip = [10, 0, 2, 2],
     g_dhcp_server = replicate 4 0, g_lease_secs = 0, g_dhcp_acquired = False, rx_bufs = (\<lambda>_. replicate 1600 0),
     rx_desc_to_buf = (\<lambda>_. -1), rx_initialized = False, gateway_mac = replicate 6 2, have_gateway_mac = True,
     net_mem = (\<lambda>_. []), tx_hdr_pa = 0x1000, arp_pa = 0x2000, ping_pa = 0x3000, dhcp_pa = 0x4000, rx_pa = (\<lambda>i. 0x10000 + of_nat i * 1600)\<rparr>"


definition demo_lease :: lease where
  "demo_lease = \<lparr>l_yiaddr = [10, 0, 2, 15], l_server = [10, 0, 2, 2], l_mask = [255, 255, 255, 0], l_router = replicate 4 0, l_secs = 0\<rparr>"

lemma demo_parse_2: "dhcp_parse (demo_reply 2 @ replicate 308 0) 292 XID 2 no_lease = Some (Some demo_lease)"
  by code_simp

lemma demo_parse_5: "dhcp_parse (demo_reply 5 @ replicate 308 0) 292 XID 5 no_lease = Some (Some demo_lease)"
  by code_simp

lemma demo_server_sound: "sound_device demo_server"
  by (simp add: sound_device_def demo_server_def length_demo_reply net_config_def udp_len_of_def unat_of_be16 nth_append demo_reply_def be32_def)

lemma net_rx_poll_mac: "net_rx_poll k n = (r, b, n') \<Longrightarrow> mac n' = mac n"
proof -
  have "mac (net_rx_submit_buf i m) = mac m" for i m by (simp add: net_rx_submit_buf_def split: prod.split)
  then show "net_rx_poll k n = (r, b, n') \<Longrightarrow> ?thesis" by (auto simp: net_rx_poll_def Let_def split: if_splits prod.splits option.splits)
qed

lemma demo_poll:
  "\<exists>n1. net_rx_poll 600 (demo_server s m) = (292, demo_reply (if rx_packets m = 0 then 2 else 5), n1) \<and>
    rx_packets n1 = rx_packets m + 1 \<and> mac n1 = mac m"
proof -
  have c: "rx_copy_len 304 600 = 292" by (simp add: rx_copy_len_def)
  have "rx_packets (net_rx_submit_buf i k) = rx_packets k" for i k by (simp add: net_rx_submit_buf_def split: prod.split)
  then have "\<exists>n1. net_rx_poll 600 (demo_server s m) = (292, demo_reply (if rx_packets m = 0 then 2 else 5), n1) \<and> rx_packets n1 = rx_packets m + 1"
    by (simp add: net_rx_poll_def demo_server_def virtqueue_get_used_def c length_demo_reply Let_def split: prod.split)
  moreover have "mac (demo_server s m) = mac m" by (simp add: demo_server_def)
  ultimately show ?thesis using net_rx_poll_mac by metis
qed

lemma demo_wait:
  assumes "msg = (if rx_packets m = 0 then 2 else 5)" "drop 292 rx = replicate 308 0" "msg = 2 \<or> msg = 5"
  shows "\<exists>n1. dhcp_wait demo_server msg 0 rx no_lease m = Some (Some demo_lease, demo_reply msg @ replicate 308 0, n1) \<and>
    rx_packets n1 = rx_packets m + 1 \<and> mac n1 = mac m"
proof -
  obtain n1 where "net_rx_poll 600 (demo_server 0 m) = (292, demo_reply msg, n1)" "rx_packets n1 = rx_packets m + 1" "mac n1 = mac m"
    using demo_poll [of 0 m] assms(1) by auto
  then show ?thesis using assms(2,3) demo_parse_2 demo_parse_5
    by (subst dhcp_wait.simps) (auto simp: length_demo_reply)
qed

lemma net_tx_result: "len \<noteq> 0 \<Longrightarrow> fst (net_tx dev pa len n) = sint len" and
  net_tx_rx_packets: "rx_packets (snd (net_tx dev pa len n)) = rx_packets n"
  by (simp_all add: net_tx_def Let_def split: prod.split)

lemma demo_send:
  assumes "length (mac n) = 6" "length b \<le> 400"
  shows "\<exists>r n1. dhcp_send dev b n = (r, n1) \<and> r > 0 \<and> rx_packets n1 = rx_packets n"
proof -
  define f where "f = udp_build (replicate 6 0xFF) (replicate 4 0) (replicate 4 255) 68 67 b n"
  have "length f = 42 + length b" using udp_frame_valid [of n "replicate 6 0xFF" "replicate 4 0" "replicate 4 255" b] assms by (simp add: f_def Let_def)
  moreover from this have "unat (of_nat (length f) :: u32) = length f" "sint (of_nat (length f) :: u32) = int (length f)"
    using assms(2) by (intro unat_of_nat_32 sint_of_nat_32; simp)+
  ultimately have u: "unat (of_nat (length f) :: u32) = 42 + length b" "sint (of_nat (length f) :: u32) = int (42 + length b)"
    by simp_all
  have "of_nat (length f) \<noteq> (0 :: u32)" using u(1) by (metis add_is_0 unat_0 zero_neq_numeral)
  then show ?thesis
    using u(2) net_tx_result net_tx_rx_packets by (simp add: dhcp_send_def send_buf_def f_def [symmetric] prod_eq_iff)
qed

lemma dhcp_send_mac: "dhcp_send dev b n = (r, n') \<Longrightarrow> mac n' = mac n"
  by (auto simp: dhcp_send_def send_buf_def net_tx_def Let_def split: if_splits prod.splits)

lemma demo_acquire: "\<exists>n'. dhcp_acquire dev demo_server (replicate 600 0) demo_net = Some (0, n')"
proof -
  have b: "length (dhcp_build t (mac demo_net) XID None None) \<le> 400"
    "length (dhcp_build t (mac demo_net) XID (Some (l_yiaddr demo_lease)) (Some (l_server demo_lease))) \<le> 400" for t
    by (simp_all add: dhcp_build_def demo_net_def demo_lease_def be32_def)
  have m: "length (mac demo_net) = 6" "have_mac demo_net" "rx_packets demo_net = 0" by (simp_all add: demo_net_def)
  obtain r1 n1 where s1: "dhcp_send dev (dhcp_build 1 (mac demo_net) XID None None) demo_net = (r1, n1)" "r1 > 0" "rx_packets n1 = 0"
    using demo_send [OF m(1) b(1)] m(3) by metis
  obtain n2 where w1: "dhcp_wait demo_server 2 0 (replicate 600 0) no_lease n1 = Some (Some demo_lease, demo_reply 2 @ replicate 308 0, n2)" "rx_packets n2 = 1" "mac n2 = mac n1"
    using demo_wait [of 2 n1 "replicate 600 0"] s1(3) by auto
  have m2: "mac n2 = mac demo_net" using w1(3) dhcp_send_mac [OF s1(1)] by simp
  obtain r2 n3 where s2: "dhcp_send dev (dhcp_build 3 (mac n2) XID (Some (l_yiaddr demo_lease)) (Some (l_server demo_lease))) n2 = (r2, n3)" "r2 > 0" "rx_packets n3 = 1"
    using demo_send [of n2] m(1) b(2) m2 w1(2) by metis
  obtain n4 where "dhcp_wait demo_server 5 0 (demo_reply 2 @ replicate 308 0) no_lease n3 = Some (Some demo_lease, demo_reply 5 @ replicate 308 0, n4)"
    using demo_wait [of 5 n3 "demo_reply 2 @ replicate 308 0"] s2(3) by (auto simp: length_demo_reply)
  then show ?thesis using m(2) s1 w1(1) s2 by (simp add: dhcp_acquire_def)
qed


section \<open>Limits of the code\<close>

text \<open>The UDP length of a received frame is trusted: options that run past the client's buffer are read.\<close>

lemma dhcp_parse_reads_past_buffer:
  "\<exists>frame. length frame = 600 \<and> dhcp_parse frame 292 XID 2 no_lease = None"
proof -
  define opts :: "u8 list" where "opts = [1, 255] @ replicate 255 0 @ [1, 255] @ replicate 59 0"
  define frame where "frame = take 38 (demo_reply 2) @ [0xFF, 0xFF] @ take 242 (drop 40 (demo_reply 2)) @ opts"
  have l: "length opts = 318" "length frame = 600" "drop 282 frame = opts"
    by (simp_all add: frame_def opts_def length_demo_reply)
  have n: "opts ! 0 = 1" "opts ! 1 = 255" "opts ! 257 = 1" "opts ! 258 = 255" by (simp_all add: opts_def nth_append)
  have "dhcp_find_option opts 65287 53 514 = None" by (subst dhcp_find_option.simps) (simp add: l)
  then have "dhcp_find_option opts 65287 53 257 = None" by (subst dhcp_find_option.simps) (simp add: l n)
  then have "dhcp_find_option opts 65287 53 0 = None" by (subst dhcp_find_option.simps) (simp add: l n n(2) [simplified])
  moreover have "dhcp_headers_ok frame 292 XID" "udp_len_of frame = 65535"
    by (simp_all add: dhcp_headers_ok_def udp_len_of_def unat_of_be16 frame_def demo_reply_def be32_def nth_append of_be32_def of_be16_def)
  ultimately have "dhcp_parse frame 292 XID 2 no_lease = None" by (simp add: dhcp_parse_def option_bytes_def l)
  then show ?thesis using l(2) by blast
qed

end
