(* ===== verification/Blk.thy ===== *)
theory Blk
  imports Virtqueue
begin

text \<open>
  The block driver, \<^verbatim>\<open>src/pci/virtio/blk/blk.c\<close>: the handshake, the interrupt handler, waiting for
  a completion, building a request, the retry policy, and the splitting of a transfer into requests.
  The device is a parameter twice: \<open>hw\<close> holds what its registers answer, and \<open>env\<close> is what the device
  and the interrupt handler do between the doorbell and the wait (number 0) and before each look of
  the wait (from 1 on).  A wait for the device to reset
  that never ends, and a write past the segment array on the stack, are the value \<open>None\<close>.
\<close>

section \<open>State\<close>

record blk_hw =
  hw_resets :: bool
  hw_offered :: u64
  hw_features_ok :: bool
  hw_queue_size :: u16
  hw_notify_off :: u16
  hw_capacity :: u64
  hw_size_max :: u32
  hw_seg_max :: u32

record virtio_blk =
  bvq :: virtqueue
  capacity_sectors :: u64
  size_max :: u32
  seg_max :: u32
  features :: u64
  read_only :: bool
  has_flush :: bool
  initialized :: bool
  irq_mode :: bool
  irq_ready :: bool
  irq_unmasked :: bool
  blk_irq :: u32
  completions :: u32
  timeout_spins :: u32
  retries :: u32
  stat_timeouts :: u64
  stat_retries :: u64
  stat_resets :: u64
  stat_irqs :: u64
  req_type :: u32
  req_sector :: u64
  req_status :: u8
  hdr_va :: u64
  status_va :: u64
  blk_cfg :: u64
  blk_notify :: u64
  notify_mult :: u32

abbreviation (input) ESUCCESS :: int where "ESUCCESS \<equiv> 1"
abbreviation (input) BLK_ETIMEDOUT :: int where "BLK_ETIMEDOUT \<equiv> -1"
abbreviation (input) BLK_EIO :: int where "BLK_EIO \<equiv> -2"
abbreviation (input) BLK_ERANGE :: int where "BLK_ERANGE \<equiv> -3"
abbreviation (input) BLK_EROFS :: int where "BLK_EROFS \<equiv> -4"
abbreviation (input) BLK_ENOSPC :: int where "BLK_ENOSPC \<equiv> -5"
abbreviation (input) BLK_ENODEV :: int where "BLK_ENODEV \<equiv> -6"
abbreviation (input) BLK_EINVAL :: int where "BLK_EINVAL \<equiv> -7"
abbreviation (input) BLK_EUNSUPP :: int where "BLK_EUNSUPP \<equiv> -8"
abbreviation (input) VIRTIO_BLK_T_IN :: u32 where "VIRTIO_BLK_T_IN \<equiv> 0"
abbreviation (input) VIRTIO_BLK_T_OUT :: u32 where "VIRTIO_BLK_T_OUT \<equiv> 1"
abbreviation (input) VIRTIO_BLK_T_FLUSH :: u32 where "VIRTIO_BLK_T_FLUSH \<equiv> 4"

type_synonym blk_env = "nat \<Rightarrow> virtio_blk \<Rightarrow> virtio_blk"

section \<open>Handshake\<close>

definition BLK_FEATURE_MASK :: u64 where
  "BLK_FEATURE_MASK = push_bit 1 1 OR push_bit 2 1 OR push_bit 5 1 OR push_bit 9 1 OR push_bit 32 1"

definition blk_limits :: "blk_hw \<Rightarrow> u64 \<Rightarrow> u32 \<times> u32" where
  "blk_limits hw feats =
    (let sz = (if bit feats 1 then hw_size_max hw else 0xFFFFFFFF);
         sg = (if bit feats 2 then hw_seg_max hw else 3)
     in (if sz < 512 then 512 else sz, if sg < 3 then 3 else sg))"

definition blk_bringup :: "blk_hw \<Rightarrow> virtio_blk \<Rightarrow> (int \<times> virtio_blk) option" where
  "blk_bringup hw b =
    (if \<not> hw_resets hw then None
     else let accepted = hw_offered hw AND BLK_FEATURE_MASK in
          if \<not> bit accepted 32 then Some (BLK_ENODEV, b)
          else let b1 = b\<lparr>features := accepted, read_only := bit accepted 5, has_flush := bit accepted 9\<rparr> in
               if \<not> hw_features_ok hw then Some (BLK_ENODEV, b1)
               else case virtqueue_setup (blk_cfg b1) 0 (hw_queue_size hw) (hw_notify_off hw) (blk_notify b1) (notify_mult b1) (bvq b1) of
                      (ok, _, q) \<Rightarrow>
                        if \<not> ok then Some (BLK_ENODEV, b1\<lparr>bvq := q\<rparr>)
                        else Some (ESUCCESS, b1\<lparr>bvq := q, capacity_sectors := hw_capacity hw,
                               size_max := fst (blk_limits hw accepted), seg_max := snd (blk_limits hw accepted)\<rparr>))"

section \<open>Completion\<close>

text \<open>The interrupt handler drains the used ring; \<open>isr\<close> is the value it reads.\<close>

lemma free_chain_used [simp]:
  "used_idx (virtqueue_free_chain q i) = used_idx q" "last_used (virtqueue_free_chain q i) = last_used q"
proof -
  have "used_idx (virtqueue_free_chain q i) = used_idx q \<and> last_used (virtqueue_free_chain q i) = last_used q"
  proof (induction q i rule: virtqueue_free_chain.induct)
    case (1 q i)
    then show ?case by (simp add: virtqueue_free_chain.simps [of q i] Let_def)
  qed
  then show "used_idx (virtqueue_free_chain q i) = used_idx q" "last_used (virtqueue_free_chain q i) = last_used q" by auto
qed

lemma get_used_advances:
  assumes "virtqueue_get_used q = (Some r, q')"
  shows "unat (used_idx q' - last_used q') < unat (used_idx q - last_used q)"
proof -
  have d: "used_idx q \<noteq> last_used q" "used_idx q' = used_idx q" "last_used q' = last_used q + 1"
    using assms by (auto simp: virtqueue_get_used_def Let_def split: if_splits prod.splits)
  define x where "x = used_idx q - last_used q"
  have "x \<noteq> 0" "used_idx q' - last_used q' = x - 1" using d by (simp_all add: x_def)
  moreover from this have "unat (x - 1) = unat x - 1" "unat x \<noteq> 0" using unat_minus_one by (auto simp: unat_eq_0)
  ultimately show ?thesis unfolding x_def [symmetric] by simp
qed

function blk_drain :: "virtio_blk \<Rightarrow> virtio_blk" where
  "blk_drain b =
    (case virtqueue_get_used (bvq b) of
       (None, q) \<Rightarrow> b\<lparr>bvq := q\<rparr>
     | (Some _, q) \<Rightarrow> blk_drain (b\<lparr>bvq := q, completions := completions b + 1\<rparr>))"
  by pat_completeness auto
termination
  by (relation "measure (\<lambda>b. unat (used_idx (bvq b) - last_used (bvq b)))") (auto dest: get_used_advances sym)

declare blk_drain.simps [simp del]

definition blk_handle_irq :: "u8 \<Rightarrow> virtio_blk \<Rightarrow> virtio_blk" where
  "blk_handle_irq isr b =
    (let b1 = b\<lparr>stat_irqs := stat_irqs b + 1\<rparr> in if isr AND 1 = 0 then b1 else blk_drain b1)"

definition blk_set_mode :: "bool \<Rightarrow> virtio_blk \<Rightarrow> bool \<times> virtio_blk" where
  "blk_set_mode irq b =
    (irq_mode b,
     if irq then
       if \<not> irq_ready b then b
       else if \<not> irq_mode b then b\<lparr>irq_mode := True, irq_unmasked := True\<rparr> else b
     else if irq_mode b then b\<lparr>irq_unmasked := False, irq_mode := False\<rparr> else b\<lparr>irq_mode := False\<rparr>)"

function wait_irq :: "blk_env \<Rightarrow> u32 \<Rightarrow> nat \<Rightarrow> nat \<Rightarrow> virtio_blk \<Rightarrow> int \<times> virtio_blk" where
  "wait_irq env target budget spins b =
    (if spins < budget
     then let b1 = env (spins + 1) b in
          if 0 \<le> sint (completions b1 - target) then (ESUCCESS, b1) else wait_irq env target budget (spins + 1) b1
     else (BLK_ETIMEDOUT, b))"
  by pat_completeness auto
termination by (relation "measure (\<lambda>(env, target, budget, spins, b). budget - spins)") auto

function wait_poll :: "blk_env \<Rightarrow> nat \<Rightarrow> nat \<Rightarrow> virtio_blk \<Rightarrow> int \<times> virtio_blk" where
  "wait_poll env budget spins b =
    (if spins < budget
     then let b1 = env (spins + 1) b in
          case virtqueue_get_used (bvq b1) of
            (Some _, q) \<Rightarrow> (ESUCCESS, b1\<lparr>bvq := q\<rparr>)
          | (None, q) \<Rightarrow> wait_poll env budget (spins + 1) (b1\<lparr>bvq := q\<rparr>)
     else (BLK_ETIMEDOUT, b))"
  by pat_completeness auto
termination by (relation "measure (\<lambda>(env, budget, spins, b). budget - spins)") auto

declare wait_irq.simps [simp del] wait_poll.simps [simp del]

definition blk_wait_one :: "blk_env \<Rightarrow> virtio_blk \<Rightarrow> int \<times> virtio_blk" where
  "blk_wait_one env b =
    (if irq_mode b then wait_irq env (completions b + 1) (unat (timeout_spins b)) 0 b
     else wait_poll env (unat (timeout_spins b)) 0 b)"

definition blk_reset_device :: "blk_hw \<Rightarrow> virtio_blk \<Rightarrow> (int \<times> virtio_blk) option" where
  "blk_reset_device hw b =
    (case blk_bringup hw (b\<lparr>stat_resets := stat_resets b + 1, initialized := False\<rparr>) of
       None \<Rightarrow> None
     | Some (rc, b1) \<Rightarrow> if rc \<noteq> ESUCCESS then Some (rc, b1) else Some (ESUCCESS, b1\<lparr>completions := 0, initialized := True\<rparr>))"

definition blk_set_timeout :: "u32 \<Rightarrow> virtio_blk \<Rightarrow> u32 \<times> virtio_blk" where
  "blk_set_timeout spins b = (timeout_spins b, b\<lparr>timeout_spins := if spins \<noteq> 0 then spins else 10000000\<rparr>)"

definition blk_set_retries :: "u32 \<Rightarrow> virtio_blk \<Rightarrow> u32 \<times> virtio_blk" where
  "blk_set_retries n b = (retries b, b\<lparr>retries := if n \<noteq> 0 then n else 1\<rparr>)"

section \<open>Requests\<close>

definition blk_max_data_segs :: "virtio_blk \<Rightarrow> u32" where
  "blk_max_data_segs b = (let by_dev = seg_max b - 2; by_vq = 126 in if by_dev < by_vq then by_dev else by_vq)"

partial_function (option) data_segs :: "u32 \<Rightarrow> u64 \<Rightarrow> u16 \<Rightarrow> u32 \<Rightarrow> u32 \<Rightarrow> virtq_seg list \<Rightarrow> virtq_seg list option" where
  "data_segs smax buf flags offset remaining gs =
    (if remaining > 0
     then let chunk = (if remaining < smax then remaining else smax) in
          data_segs smax buf flags (offset + chunk) (remaining - chunk)
            (gs @ [\<lparr>s_pa = VIRT_TO_PHYS (buf + ucast offset), s_len = chunk, s_flags = flags\<rparr>])
     else Some gs)"

definition request_segs :: "u32 \<Rightarrow> u64 \<Rightarrow> u32 \<Rightarrow> virtio_blk \<Rightarrow> virtq_seg list option" where
  "request_segs type buf count b =
    (case (if type \<noteq> VIRTIO_BLK_T_FLUSH
           then data_segs (size_max b) buf (if type = VIRTIO_BLK_T_IN then VIRTQ_DESC_F_WRITE else 0) 0 (count * 512) []
           else Some []) of
       None \<Rightarrow> None
     | Some ds \<Rightarrow>
        let gs = \<lparr>s_pa = VIRT_TO_PHYS (hdr_va b), s_len = 16, s_flags = 0\<rparr> # ds @
                 [\<lparr>s_pa = VIRT_TO_PHYS (status_va b), s_len = 1, s_flags = VIRTQ_DESC_F_WRITE\<rparr>]
        in if length gs \<le> 128 then Some gs else None)"

definition blk_submit_once :: "blk_env \<Rightarrow> u32 \<Rightarrow> u64 \<Rightarrow> u64 \<Rightarrow> u32 \<Rightarrow> virtio_blk \<Rightarrow> (int \<times> virtio_blk) option" where
  "blk_submit_once env type sector buf count b =
    (let b1 = b\<lparr>req_type := type, req_sector := sector, req_status := 0xFF\<rparr> in
     case request_segs type buf count b1 of
       None \<Rightarrow> None
     | Some gs \<Rightarrow>
        (case virtqueue_submit_chain (bvq b1) gs (of_nat (length gs)) of
           (head, q) \<Rightarrow>
             if head = VIRTQ_NO_DESC then Some (BLK_ENOSPC, b1\<lparr>bvq := q\<rparr>)
             else case blk_wait_one env (env 0 (b1\<lparr>bvq := q\<rparr>)) of
                    (rc, b2) \<Rightarrow> if rc \<noteq> ESUCCESS then Some (rc, b2)
                                else if req_status b2 \<noteq> 0 then Some (BLK_EIO, b2) else Some (ESUCCESS, b2)))"

partial_function (option) retry_from ::
  "blk_hw \<Rightarrow> blk_env \<Rightarrow> u32 \<Rightarrow> u64 \<Rightarrow> u64 \<Rightarrow> u32 \<Rightarrow> u32 \<Rightarrow> int \<Rightarrow> virtio_blk \<Rightarrow> (int \<times> virtio_blk) option" where
  "retry_from hw env type sector buf count attempt rc b =
    (if attempt < retries b
     then let b0 = (if attempt > 0 then b\<lparr>stat_retries := stat_retries b + 1\<rparr> else b) in
          case blk_submit_once env type sector buf count b0 of
            None \<Rightarrow> None
          | Some (rc1, b1) \<Rightarrow>
              if rc1 = ESUCCESS then Some (ESUCCESS, b1)
              else if rc1 = BLK_EIO then Some (BLK_EIO, b1)
              else if rc1 = BLK_ENOSPC then Some (BLK_ENOSPC, b1)
              else (case blk_reset_device hw (b1\<lparr>stat_timeouts := stat_timeouts b1 + 1\<rparr>) of
                      None \<Rightarrow> None
                    | Some (rc2, b2) \<Rightarrow>
                        if rc2 \<noteq> ESUCCESS then Some (BLK_ENODEV, b2)
                        else retry_from hw env type sector buf count (attempt + 1) rc1 b2)
     else Some (rc, b))"

definition blk_submit_retry :: "blk_hw \<Rightarrow> blk_env \<Rightarrow> u32 \<Rightarrow> u64 \<Rightarrow> u64 \<Rightarrow> u32 \<Rightarrow> virtio_blk \<Rightarrow> (int \<times> virtio_blk) option" where
  "blk_submit_retry hw env type sector buf count b = retry_from hw env type sector buf count 0 BLK_ETIMEDOUT b"

definition max_sectors_per_req :: "virtio_blk \<Rightarrow> u32" where
  "max_sectors_per_req b =
    (let m = ucast ((ucast (blk_max_data_segs b) * ucast (size_max b) :: u64) div 512) in if m = 0 then 1 else m)"

partial_function (option) rw_from ::
  "blk_hw \<Rightarrow> blk_env \<Rightarrow> u32 \<Rightarrow> u64 \<Rightarrow> u64 \<Rightarrow> u32 \<Rightarrow> u32 \<Rightarrow> u32 \<Rightarrow> virtio_blk \<Rightarrow> (int \<times> virtio_blk) option" where
  "rw_from hw env type sector buf count most done b =
    (if done < count
     then let chunk = (if count - done > most then most else count - done) in
          case blk_submit_retry hw env type (sector + ucast done) (buf + ucast done * 512) chunk b of
            None \<Rightarrow> None
          | Some (rc, b1) \<Rightarrow>
              if rc \<noteq> ESUCCESS then Some (rc, b1) else rw_from hw env type sector buf count most (done + chunk) b1
     else Some (ESUCCESS, b))"

definition blk_rw :: "blk_hw \<Rightarrow> blk_env \<Rightarrow> u32 \<Rightarrow> u64 \<Rightarrow> u64 \<Rightarrow> u32 \<Rightarrow> virtio_blk \<Rightarrow> (int \<times> virtio_blk) option" where
  "blk_rw hw env type sector buf count b =
    (if \<not> initialized b then Some (BLK_ENODEV, b)
     else if count = 0 \<or> buf = 0 then Some (BLK_EINVAL, b)
     else if sector \<ge> capacity_sectors b \<or> ucast count > capacity_sectors b - sector then Some (BLK_ERANGE, b)
     else rw_from hw env type sector buf count (max_sectors_per_req b) 0 b)"

definition blk_read :: "blk_hw \<Rightarrow> blk_env \<Rightarrow> u64 \<Rightarrow> u64 \<Rightarrow> u32 \<Rightarrow> virtio_blk \<Rightarrow> (int \<times> virtio_blk) option" where
  "blk_read hw env sector buf count b = blk_rw hw env VIRTIO_BLK_T_IN sector buf count b"

definition blk_write :: "blk_hw \<Rightarrow> blk_env \<Rightarrow> u64 \<Rightarrow> u64 \<Rightarrow> u32 \<Rightarrow> virtio_blk \<Rightarrow> (int \<times> virtio_blk) option" where
  "blk_write hw env sector buf count b =
    (if read_only b then Some (BLK_EROFS, b) else blk_rw hw env VIRTIO_BLK_T_OUT sector buf count b)"

definition blk_flush :: "blk_hw \<Rightarrow> blk_env \<Rightarrow> virtio_blk \<Rightarrow> (int \<times> virtio_blk) option" where
  "blk_flush hw env b =
    (if \<not> initialized b then Some (BLK_ENODEV, b)
     else if \<not> has_flush b then Some (BLK_EUNSUPP, b)
     else if read_only b then Some (ESUCCESS, b)
     else blk_submit_retry hw env VIRTIO_BLK_T_FLUSH 0 0 0 b)"

text \<open>An operation run in interrupt mode.\<close>

definition with_irq :: "(virtio_blk \<Rightarrow> (int \<times> virtio_blk) option) \<Rightarrow> virtio_blk \<Rightarrow> (int \<times> virtio_blk) option" where
  "with_irq f b =
    (let (prev, b1) = blk_set_mode True b in
     case f b1 of None \<Rightarrow> None | Some (rc, b2) \<Rightarrow> Some (rc, snd (blk_set_mode prev b2)))"

definition blk_read_irq :: "blk_hw \<Rightarrow> blk_env \<Rightarrow> u64 \<Rightarrow> u64 \<Rightarrow> u32 \<Rightarrow> virtio_blk \<Rightarrow> (int \<times> virtio_blk) option" where
  "blk_read_irq hw env sector buf count = with_irq (blk_read hw env sector buf count)"

definition blk_write_irq :: "blk_hw \<Rightarrow> blk_env \<Rightarrow> u64 \<Rightarrow> u64 \<Rightarrow> u32 \<Rightarrow> virtio_blk \<Rightarrow> (int \<times> virtio_blk) option" where
  "blk_write_irq hw env sector buf count = with_irq (blk_write hw env sector buf count)"

definition blk_flush_irq :: "blk_hw \<Rightarrow> blk_env \<Rightarrow> virtio_blk \<Rightarrow> (int \<times> virtio_blk) option" where
  "blk_flush_irq hw env = with_irq (blk_flush hw env)"

declare data_segs.simps [code] retry_from.simps [code] rw_from.simps [code]

section \<open>Segments\<close>

lemma data_segs_tiles:
  assumes s: "0 < unat smax" and r: "unat offset + unat remaining < 2 ^ 32"
  shows "data_segs smax buf flags offset remaining gs =
    Some (gs @ map (\<lambda>(off, l). \<lparr>s_pa = VIRT_TO_PHYS (buf + of_nat (unat offset + off)), s_len = of_nat l, s_flags = flags\<rparr>)
      (tiles (unat smax) (unat remaining)))"
  using r
proof (induction "unat remaining" arbitrary: offset remaining gs rule: less_induct)
  case less
  show ?case
  proof (cases "remaining = 0")
    case True
    then show ?thesis by (subst data_segs.simps) simp
  next
    case False
    then have pos: "0 < unat remaining" by (simp add: unat_gt_0)
    define chunk where "chunk = (if remaining < smax then remaining else smax)"
    have c: "unat chunk = min (unat smax) (unat remaining)" by (simp add: chunk_def word_less_nat_alt)
    have ch: "unat remaining \<le> unat smax \<Longrightarrow> chunk = remaining" "\<not> unat remaining \<le> unat smax \<Longrightarrow> chunk = smax"
      by (auto simp: chunk_def word_less_nat_alt word_unat_eq_iff)
    have cr: "chunk \<le> remaining" using c by (simp add: word_le_nat_alt)
    have rem: "unat (remaining - chunk) = unat remaining - unat smax" using cr c by (simp add: unat_sub)
    have o: "unat (offset + chunk) = unat offset + unat chunk" using less.prems c by (simp add: unat_word_ariths)
    have "data_segs smax buf flags offset remaining gs = data_segs smax buf flags (offset + chunk) (remaining - chunk)
        (gs @ [\<lparr>s_pa = VIRT_TO_PHYS (buf + ucast offset), s_len = chunk, s_flags = flags\<rparr>])"
      using False by (subst data_segs.simps) (simp add: chunk_def [symmetric] Let_def word_gt_0)
    also have "\<dots> = Some ((gs @ [\<lparr>s_pa = VIRT_TO_PHYS (buf + ucast offset), s_len = chunk, s_flags = flags\<rparr>]) @
        map (\<lambda>(off, l). \<lparr>s_pa = VIRT_TO_PHYS (buf + of_nat (unat (offset + chunk) + off)), s_len = of_nat l, s_flags = flags\<rparr>)
          (tiles (unat smax) (unat (remaining - chunk))))"
      using less.prems pos s c o rem by (intro less.hyps) simp_all
    also have "\<dots> = Some (gs @ map (\<lambda>(off, l). \<lparr>s_pa = VIRT_TO_PHYS (buf + of_nat (unat offset + off)), s_len = of_nat l, s_flags = flags\<rparr>)
        (tiles (unat smax) (unat remaining)))"
      using tiles_step [OF s pos] c rem o ch by (cases "unat remaining \<le> unat smax") (simp_all add: case_prod_unfold comp_def ac_simps)
    finally show ?thesis .
  qed
qed

section \<open>Limits\<close>

definition limits_from :: "blk_hw \<Rightarrow> virtio_blk \<Rightarrow> bool" where
  "limits_from hw b \<longleftrightarrow> (size_max b, seg_max b) = blk_limits hw (hw_offered hw AND BLK_FEATURE_MASK)"

lemma limits_fromD:
  assumes "limits_from hw b"
  shows "512 \<le> unat (size_max b)" "3 \<le> unat (seg_max b)"
proof -
  have "size_max b = fst (blk_limits hw (hw_offered hw AND BLK_FEATURE_MASK))" "seg_max b = snd (blk_limits hw (hw_offered hw AND BLK_FEATURE_MASK))"
    using assms by (metis fst_conv snd_conv limits_from_def)+
  then show "512 \<le> unat (size_max b)" "3 \<le> unat (seg_max b)"
    by (auto simp: blk_limits_def Let_def word_less_nat_alt)
qed

lemma max_data_segs_nat:
  assumes "3 \<le> unat (seg_max b)"
  shows "unat (blk_max_data_segs b) = min (unat (seg_max b) - 2) 126" "1 \<le> unat (blk_max_data_segs b)"
proof -
  have "unat (seg_max b - 2) = unat (seg_max b) - 2" using assms by (simp add: unat_sub word_le_nat_alt)
  then show "unat (blk_max_data_segs b) = min (unat (seg_max b) - 2) 126" "1 \<le> unat (blk_max_data_segs b)"
    using assms by (auto simp: blk_max_data_segs_def Let_def word_less_nat_alt)
qed

lemma max_sectors_nat:
  assumes "limits_from hw b"
  shows "unat (max_sectors_per_req b) = unat (blk_max_data_segs b) * unat (size_max b) div 512"
    "1 \<le> unat (max_sectors_per_req b)"
proof -
  note L = limits_fromD [OF assms]
  define k where "k = unat (blk_max_data_segs b)"
  define z where "z = unat (size_max b)"
  have k: "1 \<le> k" "k \<le> 126" using max_data_segs_nat [OF L(2)] by (simp_all add: k_def)
  have z: "512 \<le> z" "z < 2 ^ 32" using L(1) unat_lt_32 [of "size_max b"] by (simp_all add: z_def)
  have b: "k * z \<le> 126 * 2 ^ 32" using k z by (intro mult_le_mono) simp_all
  have w: "unat (ucast x :: u64) = unat x" for x :: u32 using unat_lt_32 [of x] by (simp add: unsigned_ucast_eq take_bit_nat_eq_self)
  have p: "unat (ucast (blk_max_data_segs b) * ucast (size_max b) :: u64) = k * z"
    using b by (simp add: unat_word_ariths w k_def [symmetric] z_def [symmetric])
  have q: "k * z div 512 < 2 ^ 32" using b by (simp add: less_mult_imp_div_less)
  have m: "unat (ucast ((ucast (blk_max_data_segs b) * ucast (size_max b) :: u64) div 512) :: u32) = k * z div 512"
    using q by (simp add: unsigned_ucast_eq unat_div p take_bit_nat_eq_self)
  have "1 * 512 \<le> k * z" using k z by (intro mult_le_mono) simp_all
  then have one: "1 \<le> k * z div 512" by (simp add: Suc_le_eq div_greater_zero_iff)
  have "max_sectors_per_req b = ucast ((ucast (blk_max_data_segs b) * ucast (size_max b) :: u64) div 512)"
    using m one by (simp add: max_sectors_per_req_def Let_def unat_eq_0 [symmetric])
  then show "unat (max_sectors_per_req b) = unat (blk_max_data_segs b) * unat (size_max b) div 512" "1 \<le> unat (max_sectors_per_req b)"
    using m one by (simp_all add: k_def z_def)
qed

text \<open>A request of an allowed size: its segments respect the device's limits and the array.\<close>

lemma request_fits:
  assumes l: "limits_from hw b" and c: "unat count \<le> unat (max_sectors_per_req b)" "unat count < 2 ^ 23" and t: "type \<noteq> VIRTIO_BLK_T_FLUSH"
  shows "\<exists>gs. request_segs type buf count b = Some gs \<and> length gs \<le> unat (seg_max b) \<and> length gs \<le> 128 \<and>
    (\<forall>g \<in> set gs. s_len g \<le> size_max b) \<and> sum_list (map (\<lambda>g. unat (s_len g)) gs) = 17 + 512 * unat count"
proof -
  note L = limits_fromD [OF l]
  define z where "z = unat (size_max b)"
  have z: "0 < z" "512 \<le> z" using L(1) by (simp_all add: z_def)
  have r: "unat (count * 512) = 512 * unat count" using c(2) by (simp add: unat_word_ariths)
  define ds where "ds = map (\<lambda>(off, l). \<lparr>s_pa = VIRT_TO_PHYS (buf + of_nat (unat (0 :: u32) + off)), s_len = of_nat l,
    s_flags = (if type = VIRTIO_BLK_T_IN then VIRTQ_DESC_F_WRITE else 0)\<rparr>) (tiles z (512 * unat count))"
  have d: "data_segs (size_max b) buf (if type = VIRTIO_BLK_T_IN then VIRTQ_DESC_F_WRITE else 0) 0 (count * 512) [] = Some ds"
    using data_segs_tiles [of "size_max b" 0 "count * 512" buf _ "[]"] z r c(2) by (simp add: ds_def z_def)
  have "512 * unat count \<le> unat (blk_max_data_segs b) * z"
    using c(1) max_sectors_nat(1) [OF l] by (simp add: z_def)
  then have n: "length ds \<le> unat (blk_max_data_segs b)" using tiles_length [OF z(1)] by (simp add: ds_def)
  have u: "unat (of_nat x :: u32) = x" if "(off, x) \<in> set (tiles z (512 * unat count))" for off x
    using tiles_mem [OF z(1) that] c(2) by (intro unat_of_nat_32) simp
  have len: "s_len g \<le> size_max b" if "g \<in> set ds" for g
    using that u tiles_mem [OF z(1)] by (auto simp: ds_def word_le_nat_alt z_def)
  have "sum_list (map (\<lambda>g. unat (s_len g)) ds) = sum_list (map snd (tiles z (512 * unat count)))"
    unfolding ds_def map_map by (rule arg_cong [of _ _ sum_list], rule map_cong) (use u in auto)
  then have s: "sum_list (map (\<lambda>g. unat (s_len g)) ds) = 512 * unat count" using tiles_sum [OF z(1)] by simp
  show ?thesis
    using d t n s len max_data_segs_nat [OF L(2)] L by (auto simp: request_segs_def Let_def word_le_nat_alt)
qed

section \<open>The retry policy\<close>

text \<open>What the device and the interrupt handler leave alone: the limits, the policy and the statistics
  of timeouts and resets.\<close>

definition pol :: "virtio_blk \<Rightarrow> u32 \<times> u32 \<times> u32 \<times> u64 \<times> u64" where
  "pol b = (size_max b, seg_max b, retries b, stat_timeouts b, stat_resets b)"

lemma pol_updates [simp]:
  "pol (b\<lparr>bvq := q\<rparr>) = pol b" "pol (b\<lparr>completions := c\<rparr>) = pol b" "pol (b\<lparr>req_type := t\<rparr>) = pol b"
  "pol (b\<lparr>req_sector := s\<rparr>) = pol b" "pol (b\<lparr>req_status := x\<rparr>) = pol b" "pol (b\<lparr>stat_retries := r\<rparr>) = pol b"
  "pol (b\<lparr>stat_irqs := i\<rparr>) = pol b"
  by (simp_all add: pol_def)

lemma blk_drain_pol: "pol (blk_drain b) = pol b"
proof (induction b rule: blk_drain.induct)
  case (1 b)
  show ?case
  proof (cases "virtqueue_get_used (bvq b)")
    case (Pair r q)
    then show ?thesis using 1 by (subst blk_drain.simps) (cases r; simp)
  qed
qed

text \<open>The interrupt handler itself is such a step.\<close>

lemma blk_handle_irq_pol: "pol (blk_handle_irq isr b) = pol b"
  by (simp add: blk_handle_irq_def Let_def blk_drain_pol)

lemma wait_irq_pol:
  assumes "\<forall>s b. pol (env s b) = pol b"
  shows "fst (wait_irq env target budget spins b) \<in> {ESUCCESS, BLK_ETIMEDOUT} \<and> pol (snd (wait_irq env target budget spins b)) = pol b"
  using assms
proof (induction env target budget spins b rule: wait_irq.induct)
  case (1 env target budget spins b)
  then show ?case by (subst (1 2) wait_irq.simps) (auto simp: Let_def)
qed

lemma wait_poll_pol:
  assumes "\<forall>s b. pol (env s b) = pol b"
  shows "fst (wait_poll env budget spins b) \<in> {ESUCCESS, BLK_ETIMEDOUT} \<and> pol (snd (wait_poll env budget spins b)) = pol b"
  using assms
proof (induction env budget spins b rule: wait_poll.induct)
  case (1 env budget spins b)
  obtain r q where g: "virtqueue_get_used (bvq (env (spins + 1) b)) = (r, q)" by (cases "virtqueue_get_used (bvq (env (spins + 1) b))")
  show ?case using 1 g by (subst (1 2) wait_poll.simps) (cases r; auto simp: Let_def)
qed

lemma blk_wait_one_pol:
  assumes "\<forall>s b. pol (env s b) = pol b"
  shows "fst (blk_wait_one env b) \<in> {ESUCCESS, BLK_ETIMEDOUT} \<and> pol (snd (blk_wait_one env b)) = pol b"
  using wait_irq_pol [OF assms] wait_poll_pol [OF assms] by (simp add: blk_wait_one_def)

lemma limits_from_pol: "pol b' = pol b \<Longrightarrow> limits_from hw b' = limits_from hw b"
  by (simp add: pol_def limits_from_def)

text \<open>One attempt: the request is well formed, and the answer is one of four.\<close>

definition request_ok :: "u32 \<Rightarrow> u64 \<Rightarrow> u32 \<Rightarrow> virtio_blk \<Rightarrow> bool" where
  "request_ok type buf count b \<longleftrightarrow> (case request_segs type buf count b of
     None \<Rightarrow> False
   | Some gs \<Rightarrow> length gs \<le> unat (seg_max b) \<and> length gs \<le> 128 \<and> list_all (\<lambda>g. s_len g \<le> size_max b) gs \<and>
       sum_list (map (\<lambda>g. unat (s_len g)) gs) = 17 + 512 * unat count)"

lemma request_ok_data:
  assumes "limits_from hw b" "unat count \<le> unat (max_sectors_per_req b)" "unat count < 2 ^ 23" "type \<noteq> VIRTIO_BLK_T_FLUSH"
  shows "request_ok type buf count b"
  using request_fits [OF assms, of buf] by (auto simp: request_ok_def list_all_iff)

lemma request_ok_flush:
  assumes "limits_from hw b"
  shows "request_ok VIRTIO_BLK_T_FLUSH buf 0 b"
  using limits_fromD [OF assms] by (simp add: request_ok_def request_segs_def Let_def word_le_nat_alt)

definition sendable :: "u32 \<Rightarrow> u32 \<Rightarrow> u32 \<times> u32 \<Rightarrow> bool" where
  "sendable type count lim \<longleftrightarrow> (type = VIRTIO_BLK_T_FLUSH \<and> count = 0) \<or>
     (type \<noteq> VIRTIO_BLK_T_FLUSH \<and> unat count < 2 ^ 23 \<and> 512 * unat count \<le> min (unat (snd lim) - 2) 126 * unat (fst lim))"

lemma sendable_ok:
  assumes l: "limits_from hw b" and s: "sendable type count (size_max b, seg_max b)"
  shows "request_ok type buf count b"
proof (cases "type = VIRTIO_BLK_T_FLUSH")
  case True
  then show ?thesis using s request_ok_flush [OF l] by (simp add: sendable_def)
next
  case False
  then have c: "unat count < 2 ^ 23" "512 * unat count \<le> unat (blk_max_data_segs b) * unat (size_max b)"
    using s max_data_segs_nat [OF limits_fromD(2) [OF l]] by (auto simp: sendable_def)
  then have "unat count \<le> unat (max_sectors_per_req b)"
    using max_sectors_nat(1) [OF l] by (simp add: less_eq_div_iff_mult_less_eq mult.commute)
  then show ?thesis using request_ok_data [OF l _ c(1) False] by simp
qed

lemma blk_submit_once_total:
  assumes e: "\<forall>s b. pol (env s b) = pol b" and r: "request_ok type buf count b"
  shows "\<exists>rc b'. blk_submit_once env type sector buf count b = Some (rc, b') \<and> rc \<in> {ESUCCESS, BLK_ETIMEDOUT, BLK_EIO, BLK_ENOSPC} \<and> pol b' = pol b"
proof -
  define b1 where "b1 = b\<lparr>req_type := type, req_sector := sector, req_status := 0xFF\<rparr>"
  have "request_segs type buf count b1 = request_segs type buf count b" by (simp add: b1_def request_segs_def Let_def split: option.split)
  then obtain gs where g: "request_segs type buf count b1 = Some gs" using r by (auto simp: request_ok_def split: option.splits)
  obtain h q where h: "virtqueue_submit_chain (bvq b1) gs (of_nat (length gs)) = (h, q)" by fastforce
  obtain rc b2 where w: "blk_wait_one env (env 0 (b1\<lparr>bvq := q\<rparr>)) = (rc, b2)" by fastforce
  have "rc \<in> {ESUCCESS, BLK_ETIMEDOUT}" "pol b2 = pol b" "pol b1 = pol b"
    using blk_wait_one_pol [OF e, of "env 0 (b1\<lparr>bvq := q\<rparr>)"] w e by (auto simp: b1_def)
  then show ?thesis using g h w by (auto simp: blk_submit_once_def b1_def [symmetric] Let_def)
qed

lemma blk_reset_total:
  assumes "hw_resets hw" "limits_from hw b"
  shows "\<exists>rc b'. blk_reset_device hw b = Some (rc, b') \<and> (rc = ESUCCESS \<or> rc = BLK_ENODEV) \<and> limits_from hw b' \<and>
    retries b' = retries b \<and> stat_timeouts b' = stat_timeouts b \<and> stat_resets b' = stat_resets b + 1 \<and> (rc = ESUCCESS \<longrightarrow> initialized b')"
proof -
  obtain ok s q where v: "virtqueue_setup (blk_cfg b) 0 (hw_queue_size hw) (hw_notify_off hw) (blk_notify b) (notify_mult b) (bvq b) = (ok, s, q)"
    by (metis prod.exhaust)
  show ?thesis using assms v by (auto simp: blk_reset_device_def blk_bringup_def Let_def limits_from_def)
qed

definition retried :: "blk_hw \<Rightarrow> virtio_blk \<Rightarrow> nat \<Rightarrow> int \<Rightarrow> virtio_blk \<Rightarrow> bool" where
  "retried hw b n rc b' \<longleftrightarrow> limits_from hw b' \<and> retries b' = retries b \<and>
    (\<exists>k \<le> n. stat_timeouts b' = stat_timeouts b + of_nat k \<and> stat_resets b' = stat_resets b + of_nat k \<and>
       (rc \<in> {ESUCCESS, BLK_EIO, BLK_ENOSPC} \<and> k < n \<or> rc = BLK_ENODEV \<and> 0 < k \<or> rc = BLK_ETIMEDOUT \<and> k = n))"

lemma retried_step:
  assumes "retried hw b2 n rc b'" "retries b2 = retries b" "stat_timeouts b2 = stat_timeouts b + 1" "stat_resets b2 = stat_resets b + 1"
  shows "retried hw b (Suc n) rc b'"
proof -
  obtain k where k: "k \<le> n" "stat_timeouts b' = stat_timeouts b2 + of_nat k" "stat_resets b' = stat_resets b2 + of_nat k"
      "rc \<in> {ESUCCESS, BLK_EIO, BLK_ENOSPC} \<and> k < n \<or> rc = BLK_ENODEV \<and> 0 < k \<or> rc = BLK_ETIMEDOUT \<and> k = n"
    using assms(1) by (auto simp: retried_def)
  show ?thesis unfolding retried_def
    by (intro conjI exI [of _ "Suc k"]) (use assms k in \<open>auto simp: retried_def ac_simps\<close>)
qed

lemma retry_from_total:
  assumes e: "\<forall>s b. pol (env s b) = pol b" and h: "hw_resets hw"
  shows "limits_from hw b \<Longrightarrow> sendable type count (size_max b, seg_max b) \<Longrightarrow> unat (retries b) = unat attempt + n \<Longrightarrow> rc = BLK_ETIMEDOUT \<Longrightarrow>
    \<exists>rc' b'. retry_from hw env type sector buf count attempt rc b = Some (rc', b') \<and> retried hw b n rc' b'"
proof (induction n arbitrary: attempt rc b)
  case 0
  then have "\<not> attempt < retries b" by (simp add: word_less_nat_alt)
  then show ?case using 0 by (subst retry_from.simps) (auto simp: retried_def)
next
  case (Suc n)
  then have a: "attempt < retries b" by (simp add: word_less_nat_alt)
  define b0 where "b0 = (if attempt > 0 then b\<lparr>stat_retries := stat_retries b + 1\<rparr> else b)"
  have p0: "pol b0 = pol b" by (simp add: b0_def)
  have s0: "sendable type count (size_max b0, seg_max b0)" using p0 Suc.prems(2) by (simp add: pol_def)
  have l0: "limits_from hw b0" using limits_from_pol [OF p0] Suc.prems(1) by simp
  obtain rc1 b1 where o1: "blk_submit_once env type sector buf count b0 = Some (rc1, b1)"
      "rc1 \<in> {ESUCCESS, BLK_ETIMEDOUT, BLK_EIO, BLK_ENOSPC}" "pol b1 = pol b"
    using blk_submit_once_total [OF e sendable_ok [OF l0 s0]] p0 by metis
  have l1: "limits_from hw b1" using limits_from_pol [OF o1(3)] Suc.prems(1) by simp
  note step = retry_from.simps [of hw env type sector buf count attempt rc b, folded b0_def]
  show ?case
  proof (cases "rc1 = BLK_ETIMEDOUT")
    case False
    then have "retried hw b (Suc n) rc1 b1" using o1 l1 unfolding retried_def by (auto simp: pol_def intro!: exI [of _ 0])
    moreover have "retry_from hw env type sector buf count attempt rc b = Some (rc1, b1)"
      using False o1(2) by (auto simp: step a Let_def b0_def [symmetric] o1(1))
    ultimately show ?thesis by blast
  next
    case True
    define bt where "bt = b1\<lparr>stat_timeouts := stat_timeouts b1 + 1\<rparr>"
    have lt: "limits_from hw bt" using l1 by (simp add: bt_def limits_from_def)
    obtain rc2 b2 where r: "blk_reset_device hw bt = Some (rc2, b2)" "rc2 = ESUCCESS \<or> rc2 = BLK_ENODEV" "limits_from hw b2"
        "retries b2 = retries b" "stat_timeouts b2 = stat_timeouts b + 1" "stat_resets b2 = stat_resets b + 1"
      using blk_reset_total [OF h lt] o1(3) by (auto simp: bt_def pol_def)
    have unf: "retry_from hw env type sector buf count attempt rc b =
        (if rc2 \<noteq> ESUCCESS then Some (BLK_ENODEV, b2) else retry_from hw env type sector buf count (attempt + 1) rc1 b2)"
      using True by (simp add: step a Let_def b0_def [symmetric] o1(1) bt_def [symmetric] r(1))
    show ?thesis
    proof (cases "rc2 = ESUCCESS")
      case False
      then have "retried hw b (Suc n) BLK_ENODEV b2" using r unfolding retried_def by (auto intro!: exI [of _ 1])
      then show ?thesis using unf False by auto
    next
      case ok: True
      have lim: "(size_max b2, seg_max b2) = (size_max b, seg_max b)" using r(3) Suc.prems(1) by (simp add: limits_from_def)
      have "unat (attempt + 1) = unat attempt + 1" using Suc.prems(3) unat_lt_32 [of "retries b"] by (simp add: unat_word_ariths)
      then obtain rc' b' where "retry_from hw env type sector buf count (attempt + 1) rc1 b2 = Some (rc', b')" "retried hw b2 n rc' b'"
        using Suc.IH [of b2 "attempt + 1" rc1] r Suc.prems lim True by auto
      then show ?thesis using unf ok retried_step [OF _ r(4-6)] by auto
    qed
  qed
qed

section \<open>Splitting a transfer\<close>

text \<open>The specification: a list of requests, sent one after the other until one fails.\<close>

fun run_requests :: "(u64 \<Rightarrow> u64 \<Rightarrow> u32 \<Rightarrow> virtio_blk \<Rightarrow> (int \<times> virtio_blk) option) \<Rightarrow> (u64 \<times> u64 \<times> u32) list \<Rightarrow> virtio_blk \<Rightarrow> (int \<times> virtio_blk) option" where
  "run_requests send [] b = Some (ESUCCESS, b)"
| "run_requests send ((sector, buf, count) # rs) b =
    (case send sector buf count b of
       None \<Rightarrow> None
     | Some (rc, b1) \<Rightarrow> if rc \<noteq> ESUCCESS then Some (rc, b1) else run_requests send rs b1)"

definition requests :: "u64 \<Rightarrow> u64 \<Rightarrow> nat \<Rightarrow> nat \<Rightarrow> nat \<Rightarrow> (u64 \<times> u64 \<times> u32) list" where
  "requests sector buf most start n =
    map (\<lambda>(off, l). (sector + of_nat (start + off), buf + of_nat (start + off) * 512, of_nat l)) (tiles most n)"

lemma rw_from_requests:
  assumes m: "0 < unat most"
  shows "done \<le> count \<Longrightarrow> rw_from hw env type sector buf count most done b =
    run_requests (blk_submit_retry hw env type) (requests sector buf (unat most) (unat done) (unat count - unat done)) b"
proof (induction "unat count - unat done" arbitrary: "done" b rule: less_induct)
  case less
  show ?case
  proof (cases "done < count")
    case False
    then have "done = count" using less.prems by simp
    then show ?thesis by (subst rw_from.simps) (simp add: requests_def)
  next
    case True
    then have pos: "0 < unat count - unat done" by (simp add: word_less_nat_alt)
    define chunk where "chunk = (if count - done > most then most else count - done)"
    have d: "unat (count - done) = unat count - unat done" using less.prems by (simp add: unat_sub)
    have c: "unat chunk = min (unat most) (unat count - unat done)" using d by (simp add: chunk_def word_less_nat_alt)
    have n: "unat (done + chunk) = unat done + unat chunk" using c pos unat_lt_32 [of count] by (simp add: unat_word_ariths)
    have le: "done + chunk \<le> count" using n c pos by (simp add: word_le_nat_alt)
    have ih: "rw_from hw env type sector buf count most (done + chunk) b1 =
        run_requests (blk_submit_retry hw env type) (requests sector buf (unat most) (unat (done + chunk)) (unat count - unat (done + chunk))) b1" for b1
      using less.hyps [OF _ le] n c pos m by simp
    have ch: "unat count - unat done \<le> unat most \<Longrightarrow> chunk = count - done" "\<not> unat count - unat done \<le> unat most \<Longrightarrow> chunk = most"
      using c d by (auto simp: word_unat_eq_iff)
    have rest: "requests sector buf (unat most) (unat done) (unat count - unat done) =
        (sector + ucast done, buf + ucast done * 512, chunk) # requests sector buf (unat most) (unat (done + chunk)) (unat count - unat (done + chunk))"
      using tiles_step [OF m pos] c n d ch
      by (cases "unat count - unat done \<le> unat most") (simp_all add: requests_def case_prod_unfold comp_def ac_simps)
    show ?thesis using True
      by (subst rw_from.simps) (simp add: chunk_def [symmetric] Let_def rest ih split: option.split)
  qed
qed

lemma requests_range:
  assumes "0 < most" "unat sector + n < 2 ^ 64" "n < 2 ^ 32"
  shows "concat (map (\<lambda>(s, a, c). [unat s..<unat s + unat c]) (requests sector buf most 0 n)) = [unat sector..<unat sector + n]"
proof -
  have u: "unat (sector + of_nat off) = unat sector + off" "unat (of_nat l :: u32) = l" if "(off, l) \<in> set (tiles most n)" for off l
  proof -
    have b: "off + l \<le> n" using tiles_mem [OF assms(1) that] by simp
    then show "unat (of_nat l :: u32) = l" using assms(3) by (intro unat_of_nat_32) simp
    have "unat (of_nat off :: u64) = off" using b assms(2) by (simp add: unsigned_of_nat take_bit_nat_eq_self)
    then show "unat (sector + of_nat off) = unat sector + off" using b assms(2) by (simp add: unat_word_ariths)
  qed
  have "map (\<lambda>(s, a, c). [unat s..<unat s + unat c]) (requests sector buf most 0 n) = map (\<lambda>(off, l). [unat sector + off..<unat sector + off + l]) (tiles most n)"
    using u by (auto simp: requests_def)
  then show ?thesis using tiles_range [OF assms(1)] by simp
qed

lemma requests_mem:
  assumes "0 < most" "(s, a, c) \<in> set (requests sector buf most 0 n)" "n < 2 ^ 32"
  shows "a = buf + (s - sector) * 512" "unat c \<le> most" "unat c \<le> n"
proof -
  obtain off l where t: "(off, l) \<in> set (tiles most n)" "s = sector + of_nat off" "a = buf + of_nat off * 512" "c = of_nat l"
    using assms(2) by (auto simp: requests_def)
  have "unat c = l" using tiles_mem [OF assms(1) t(1)] assms(3) t(4) by (simp add: unat_of_nat_32)
  then show "a = buf + (s - sector) * 512" "unat c \<le> most" "unat c \<le> n" using tiles_mem [OF assms(1) t(1)] t by simp_all
qed

lemma blk_submit_retry_total:
  assumes "\<forall>s b. pol (env s b) = pol b" "hw_resets hw" "limits_from hw b" "sendable type count (size_max b, seg_max b)"
  shows "\<exists>rc b'. blk_submit_retry hw env type sector buf count b = Some (rc, b') \<and> retried hw b (unat (retries b)) rc b'"
  using retry_from_total [OF assms, of 0 "unat (retries b)"] by (simp add: blk_submit_retry_def)

lemma run_requests_total:
  assumes "\<And>s a c b. (s, a, c) \<in> set rs \<Longrightarrow> limits_from hw b \<Longrightarrow> \<exists>rc b'. send s a c b = Some (rc, b') \<and> retried hw b (unat (retries b)) rc b'"
  shows "limits_from hw b \<Longrightarrow> \<exists>rc b'. run_requests send rs b = Some (rc, b') \<and> rc \<in> {ESUCCESS, BLK_EIO, BLK_ENOSPC, BLK_ENODEV, BLK_ETIMEDOUT}"
  using assms
proof (induction rs arbitrary: b)
  case (Cons x rs)
  obtain s a c where x: "x = (s, a, c)" by (cases x)
  obtain rc b1 where r: "send s a c b = Some (rc, b1)" "retried hw b (unat (retries b)) rc b1" using Cons.prems x by fastforce
  have "limits_from hw b1" "rc \<in> {ESUCCESS, BLK_EIO, BLK_ENOSPC, BLK_ENODEV, BLK_ETIMEDOUT}" using r(2) by (auto simp: retried_def)
  moreover from this have "\<exists>rc b'. run_requests send rs b1 = Some (rc, b') \<and> rc \<in> {ESUCCESS, BLK_EIO, BLK_ENOSPC, BLK_ENODEV, BLK_ETIMEDOUT}"
    using Cons.IH [of b1] Cons.prems(2) by (meson list.set_intros(2))
  ultimately show ?case using r(1) x by (cases "rc = ESUCCESS") simp_all
qed simp

lemma max_sectors_sendable:
  assumes "limits_from hw b" "unat c \<le> unat (max_sectors_per_req b)" "unat c < 2 ^ 23" "type \<noteq> VIRTIO_BLK_T_FLUSH"
  shows "sendable type c (size_max b, seg_max b)"
proof -
  have "512 * unat c \<le> unat (blk_max_data_segs b) * unat (size_max b)" using assms(2) max_sectors_nat(1) [OF assms(1)] by simp
  then show ?thesis using assms(3,4) max_data_segs_nat [OF limits_fromD(2) [OF assms(1)]] by (simp add: sendable_def)
qed

lemma in_range_nat:
  assumes "0 < unat (count :: u32)" "unat sector + unat count \<le> unat (cap :: u64)"
  shows "\<not> (sector \<ge> cap \<or> ucast count > cap - sector)"
proof -
  have le: "sector \<le> cap" using assms by (simp add: word_le_nat_alt)
  have "unat (cap - sector) = unat cap - unat sector" using le by (rule unat_sub)
  moreover have "unat (ucast count :: u64) = unat count" using unat_lt_32 [of count] by (simp add: unsigned_ucast_eq take_bit_nat_eq_self)
  ultimately show ?thesis using assms by (simp add: word_le_nat_alt word_less_nat_alt)
qed


text \<open>A device with two data segments of two sectors each, which answers a request at the next look.\<close>

definition demo_hw :: blk_hw where
  "demo_hw = \<lparr>hw_resets = True, hw_offered = 0x100000206, hw_features_ok = True, hw_queue_size = 8, hw_notify_off = 0,
    hw_capacity = 64, hw_size_max = 1024, hw_seg_max = 4\<rparr>"

definition demo_up :: virtio_blk where
  "demo_up = \<lparr>bvq = \<lparr>vq_size = 8, free_head = 0, num_free = 8, last_used = 0, notify_addr = 0, desc_va = 0x1000, avail_va = 0x2000,
      used_va = 0x3000, vdesc = (\<lambda>i. \<lparr>d_addr = 0, d_len = 0, d_flags = 0, d_next = i + 1\<rparr>), avail_idx = 0, avail_ring = (\<lambda>_. 0),
      used_idx = 0, used_ring = (\<lambda>_. (0, 0))\<rparr>,
    capacity_sectors = 64, size_max = 1024, seg_max = 4, features = 0x100000206, read_only = False, has_flush = True, initialized = True,
    irq_mode = False, irq_ready = False, irq_unmasked = False, blk_irq = 0, completions = 0, timeout_spins = 3, retries = 3,
    stat_timeouts = 0, stat_retries = 0, stat_resets = 0, stat_irqs = 0, req_type = 0, req_sector = 0, req_status = 0,
    hdr_va = 0x4000, status_va = 0x4010, blk_cfg = 0, blk_notify = 0, notify_mult = 0\<rparr>"

definition demo_env :: blk_env where
  "demo_env s b =
    (let q = bvq b in
     if avail_idx q = used_idx q then b
     else b\<lparr>bvq := q\<lparr>used_ring := (used_ring q)(used_idx q mod vq_size q := (ucast (avail_ring q (used_idx q mod vq_size q)), 1)),
                     used_idx := used_idx q + 1\<rparr>, req_status := 0\<rparr>)"

lemma demo_env_pol: "\<forall>s b. pol (env s b) = pol b" if "env = demo_env \<or> env = (\<lambda>_ b. b)" for env
  using that by (auto simp: demo_env_def Let_def)

lemma demo_up_ok: "limits_from demo_hw demo_up" "initialized demo_up" "capacity_sectors demo_up = 64" "hw_resets demo_hw"
    "size_max demo_up = 1024" "seg_max demo_up = 4" "retries demo_up = 3"
  by (simp_all add: demo_up_def demo_hw_def limits_from_def blk_limits_def BLK_FEATURE_MASK_def)


section \<open>Lost requests\<close>



text \<open>In interrupt mode the wait looks for a completion after the one it finds counted already.  A device
  that answers between the doorbell and the wait has its answer counted before, and the request, which
  succeeded, is reported as timed out.\<close>

definition prompt_env :: blk_env where
  "prompt_env s b = (let b1 = demo_env s b in if used_idx (bvq b1) = last_used (bvq b1) then b1 else blk_handle_irq 1 b1)"

lemma prompt_interrupt_is_lost:
  "case blk_submit_once prompt_env VIRTIO_BLK_T_FLUSH 0 0 0 (demo_up\<lparr>irq_mode := True\<rparr>) of
     None \<Rightarrow> False | Some (rc, b) \<Rightarrow> rc = BLK_ETIMEDOUT \<and> req_status b = 0 \<and> completions b = 1"
  by code_simp

text \<open>The byte count of a request is a 32-bit product: with two data segments and no size limit, a
  request of \<open>2 ^ 23\<close> sectors is allowed, and it carries no data at all.\<close>

lemma large_request_is_empty:
  assumes "size_max b = 0xFFFFFFFF" "seg_max b = 4"
  shows "0x800000 \<le> max_sectors_per_req b"
    "map_option (map s_len) (request_segs VIRTIO_BLK_T_IN buf 0x800000 b) = Some [16, 1]"
proof -
  show "0x800000 \<le> max_sectors_per_req b" using assms by (simp add: max_sectors_per_req_def blk_max_data_segs_def)
  have z: "(0x800000 :: u32) * 512 = 0" by simp
  show "map_option (map s_len) (request_segs VIRTIO_BLK_T_IN buf 0x800000 b) = Some [16, 1]"
    unfolding request_segs_def z by (simp add: request_segs_def data_segs.simps [of _ _ _ _ 0])
qed

end
