(* ===== verification/Driver_Init.thy ===== *)
theory Driver_Init
  imports Rng Console Balloon Net Blk
begin

text \<open>
  Start-up of the network and block drivers (\<^verbatim>\<open>pci_virtio_net_init\<close> in \<^verbatim>\<open>src/pci/virtio/net/net.c\<close> and
  \<^verbatim>\<open>pci_virtio_blk_init\<close> in \<^verbatim>\<open>src/pci/virtio/blk/blk.c\<close>), and the property all five drivers share: the writes
  each of them makes to the registers of its device follow the order of the VirtIO specification.
\<close>

section \<open>Network\<close>

record net_dev =
  nd_net :: net
  nd_caps :: virtio_pci_caps
  link_status :: u16
  have_status :: bool
  rx_rings :: "u64 \<times> u64 \<times> u64"
  tx_rings :: "u64 \<times> u64 \<times> u64"

abbreviation (input) VIRTIO_NET_F_MAC :: u32 where "VIRTIO_NET_F_MAC \<equiv> 0x20"
abbreviation (input) VIRTIO_NET_F_STATUS :: u32 where "VIRTIO_NET_F_STATUS \<equiv> 0x10000"

text \<open>Up to \<open>DRIVER_OK\<close>: whether the device is live, the accepted features, the device, the driver.\<close>

definition net_bringup :: "virtio_hw \<Rightarrow> virtio_pci_caps \<Rightarrow> transport \<Rightarrow> net_dev \<Rightarrow> (bool \<times> u32 \<times> transport \<times> net_dev) option" where
  "net_bringup hw caps t d =
    (case virtio_negotiate hw (common_cfg caps) True (VIRTIO_NET_F_MAC OR VIRTIO_NET_F_STATUS) t of
       None \<Rightarrow> None
     | Some (ok, lo, t1) \<Rightarrow>
        if \<not> ok then Some (False, lo, t1, d)
        else case setup_queue hw (common_cfg caps) caps 0 (place_rings (rx_rings d) (rx_vq (nd_net d))) t1 of
               (ok, q, t2) \<Rightarrow>
                 if \<not> ok then Some (False, lo, t2, d\<lparr>nd_net := (nd_net d)\<lparr>rx_vq := q\<rparr>\<rparr>)
                 else case setup_queue hw (common_cfg caps) caps 1 (place_rings (tx_rings d) (tx_vq (nd_net d))) t2 of
                        (ok, q', t3) \<Rightarrow>
                          if \<not> ok then Some (False, lo, t3, d\<lparr>nd_net := (nd_net d)\<lparr>rx_vq := q, tx_vq := q'\<rparr>\<rparr>)
                          else Some (True, lo, add_status hw 4 t3, d\<lparr>nd_net := (nd_net d)\<lparr>rx_vq := q, tx_vq := q'\<rparr>\<rparr>))"

text \<open>The receive buffers, the address and the link state; \<open>mac_cfg\<close> and \<open>link_cfg\<close> are what the device's
  configuration holds.\<close>

definition net_configure :: "u8 list \<Rightarrow> u16 \<Rightarrow> u32 \<Rightarrow> net_dev \<Rightarrow> net_dev" where
  "net_configure mac_cfg link_cfg guest_lo d =
    (let n1 = net_rx_init (nd_net d);
         n2 = (if guest_lo AND VIRTIO_NET_F_MAC \<noteq> 0 then n1\<lparr>mac := mac_cfg, have_mac := True\<rparr> else n1);
         d1 = d\<lparr>nd_net := n2\<rparr>
     in if guest_lo AND VIRTIO_NET_F_STATUS \<noteq> 0 then d1\<lparr>link_status := link_cfg, have_status := True\<rparr> else d1)"

text \<open>Waiting for the reply to the ARP probe and to the ping; \<open>env\<close> is what the device does before the
  poll with that number.\<close>

function arp_wait :: "(nat \<Rightarrow> net \<Rightarrow> net) \<Rightarrow> nat \<Rightarrow> net \<Rightarrow> net" where
  "arp_wait env spins n =
    (if spins < 1000000
     then case net_rx_poll 256 (env spins n) of
            (k, bytes, n1) \<Rightarrow> if k > 0 then parse_arp_reply bytes n1 else arp_wait env (spins + 1) n1
     else n)"
  by pat_completeness auto
termination by (relation "measure (\<lambda>(env, spins, n). 1000000 - spins)") auto

definition is_echo_reply :: "u8 list \<Rightarrow> bool" where
  "is_echo_reply b \<longleftrightarrow> length b \<ge> 42 \<and> b ! 12 = 0x08 \<and> b ! 13 = 0x00 \<and> b ! 23 = 1 \<and> b ! 34 = 0"

function ping_wait :: "(nat \<Rightarrow> net \<Rightarrow> net) \<Rightarrow> nat \<Rightarrow> net \<Rightarrow> net" where
  "ping_wait env spins n =
    (if spins < 2000000
     then case net_rx_poll 256 (env spins n) of
            (k, bytes, n1) \<Rightarrow> if is_echo_reply bytes then n1 else ping_wait env (spins + 1) n1
     else n)"
  by pat_completeness auto
termination by (relation "measure (\<lambda>(env, spins, n). 2000000 - spins)") auto

declare arp_wait.simps [simp del] ping_wait.simps [simp del]

text \<open>The exchanges that follow: a lease, an ARP probe and a ping.  \<open>dev\<close> and \<open>env\<close> give the device for
  each of them.\<close>

definition net_first_traffic :: "vq_dev \<Rightarrow> (nat \<Rightarrow> nat \<Rightarrow> net \<Rightarrow> net) \<Rightarrow> u8 list \<Rightarrow> net \<Rightarrow> net option" where
  "net_first_traffic dev env rx n =
    (case dhcp_acquire dev (env 0) rx n of
       None \<Rightarrow> None
     | Some (_, n1) \<Rightarrow>
        let (_, n2) = net_send_arp_probe dev n1;
            n3 = arp_wait (env 1) 0 n2
        in if have_gateway_mac n3
           then case net_send_ping dev 1 n3 of
                  (r, n4) \<Rightarrow> if r > 0 then Some (ping_wait (env 2) 0 n4) else Some n4
           else Some n3)"

definition pci_virtio_net_init ::
  "wmask \<Rightarrow> virtio_hw \<Rightarrow> u8 list \<Rightarrow> u16 \<Rightarrow> vq_dev \<Rightarrow> (nat \<Rightarrow> nat \<Rightarrow> net \<Rightarrow> net) \<Rightarrow> u8 list \<Rightarrow> pci \<Rightarrow> transport \<Rightarrow> net_dev \<Rightarrow>
   (pci \<times> transport \<times> net_dev) option" where
  "pci_virtio_net_init wm hw mac_cfg link_cfg dev env rx p t d =
    (case virtio_probe wm 0x1AF4 0x1041 (nd_caps d) p of
       None \<Rightarrow> None
     | Some (None, p1) \<Rightarrow> Some (p1, t, d)
     | Some (Some (_, caps), p1) \<Rightarrow>
        (case net_bringup hw caps t (d\<lparr>nd_caps := caps\<rparr>) of
           None \<Rightarrow> None
         | Some (live, lo, t1, d1) \<Rightarrow>
            if \<not> live then Some (p1, t1, d1)
            else let d2 = net_configure mac_cfg link_cfg lo d1
                 in map_option (\<lambda>n. (p1, t1, d2\<lparr>nd_net := n\<rparr>)) (net_first_traffic dev env rx (nd_net d2))))"

section \<open>Block\<close>

text \<open>The registers as the block driver sees them, and the writes of its handshake, which unlike the other
  drivers marks a device it gives up on.\<close>

definition blk_view :: "virtio_hw \<Rightarrow> u64 \<Rightarrow> u32 \<Rightarrow> u32 \<Rightarrow> blk_hw" where
  "blk_view hw capacity sz sg =
    \<lparr>hw_resets = can_reset hw, hw_offered = push_bit 32 (ucast (offered_hi hw)) OR ucast (offered_lo hw),
     hw_features_ok = accepts hw (offered_lo hw AND 0x226) (offered_hi hw AND 1), hw_queue_size = queue_max hw 0,
     hw_notify_off = queue_noff hw 0, hw_capacity = capacity, hw_size_max = sz, hw_seg_max = sg\<rparr>"

definition blk_handshake :: "virtio_hw \<Rightarrow> virtio_pci_caps \<Rightarrow> transport \<Rightarrow> virtqueue \<Rightarrow> (bool \<times> transport \<times> virtqueue) option" where
  "blk_handshake hw caps t q =
    (case virtio_negotiate hw (common_cfg caps) True 0x226 t of
       None \<Rightarrow> None
     | Some (ok, _, t1) \<Rightarrow>
        if \<not> ok then Some (False, write_status hw 128 t1, q)
        else case setup_queue hw (common_cfg caps) caps 0 q t1 of
               (ok, q', t2) \<Rightarrow> if \<not> ok then Some (False, t2, q') else Some (True, add_status hw 4 t2, q'))"

definition pci_virtio_blk_init :: "wmask \<Rightarrow> blk_hw \<Rightarrow> pci \<Rightarrow> virtio_pci_caps \<Rightarrow> virtio_blk \<Rightarrow> (pci \<times> virtio_blk) option" where
  "pci_virtio_blk_init wm hw p caps0 b =
    (case virtio_probe wm 0x1AF4 0x1042 caps0 p of
       None \<Rightarrow> None
     | Some (None, p1) \<Rightarrow> Some (p1, b)
     | Some (Some (dev, caps), p1) \<Rightarrow>
        (case blk_bringup hw (b\<lparr>blk_cfg := common_cfg caps, blk_notify := notify_base caps, notify_mult := notify_off_multiplier caps,
                irq_mode := False, timeout_spins := 10000000, retries := 3\<rparr>) of
           None \<Rightarrow> None
         | Some (rc, b1) \<Rightarrow>
            if rc \<noteq> ESUCCESS then Some (p1, b1)
            else let irq = pci_intx_intid dev p1; b2 = b1\<lparr>blk_irq := irq\<rparr>
                 in if irq = 0 then Some (p1, b2\<lparr>initialized := True\<rparr>)
                    else Some (pci_enable_intx wm dev p1, b2\<lparr>irq_ready := True, initialized := True\<rparr>)))"


section \<open>The order of initialisation\<close>

lemma negotiate_none: "virtio_negotiate hw base v1 want t = None \<longleftrightarrow> \<not> can_reset hw"
  by (auto simp: virtio_negotiate_def virtio_reset_def Let_def)

text \<open>What a bring-up with one queue and with two does to the device.\<close>

definition one_queue :: "virtio_hw \<Rightarrow> virtio_pci_caps \<Rightarrow> bool \<Rightarrow> u32 \<Rightarrow> virtqueue \<Rightarrow> (bool \<times> transport) option" where
  "one_queue hw caps v1 want q =
    (case virtio_negotiate hw (common_cfg caps) v1 want fresh of
       None \<Rightarrow> None
     | Some (ok, _, t1) \<Rightarrow>
        if \<not> ok then Some (False, t1)
        else case setup_queue hw (common_cfg caps) caps 0 q t1 of (ok, _, t2) \<Rightarrow> Some (ok, if ok then add_status hw 4 t2 else t2))"

definition two_queues :: "virtio_hw \<Rightarrow> virtio_pci_caps \<Rightarrow> bool \<Rightarrow> u32 \<Rightarrow> virtqueue \<Rightarrow> virtqueue \<Rightarrow> (bool \<times> transport) option" where
  "two_queues hw caps v1 want q0 q1 =
    (case virtio_negotiate hw (common_cfg caps) v1 want fresh of
       None \<Rightarrow> None
     | Some (ok, _, t1) \<Rightarrow>
        if \<not> ok then Some (False, t1)
        else case setup_queue hw (common_cfg caps) caps 0 q0 t1 of
               (ok, _, t2) \<Rightarrow>
                 if \<not> ok then Some (False, t2)
                 else case setup_queue hw (common_cfg caps) caps 1 q1 t2 of (ok, _, t3) \<Rightarrow> Some (ok, if ok then add_status hw 4 t3 else t3))"

lemma one_queue_conforms:
  "case one_queue hw caps v1 want q of None \<Rightarrow> \<not> can_reset hw | Some (live, t) \<Rightarrow> conforms hw (common_cfg caps) want [0] live t"
proof (cases "virtio_negotiate hw (common_cfg caps) v1 want fresh")
  case None
  then show ?thesis using negotiate_none [of hw "common_cfg caps" v1 want fresh] by (simp add: one_queue_def)
next
  case (Some x)
  obtain ok lo t1 where x: "x = (ok, lo, t1)" using prod_cases3 by blast
  obtain k q' t2 where q: "setup_queue hw (common_cfg caps) caps 0 q t1 = (k, q', t2)" using prod_cases3 by blast
  have "if k then conforms hw (common_cfg caps) want [0] True (add_status hw 4 t2) else conforms hw (common_cfg caps) want [0] False t2"
    if "negotiated hw (common_cfg caps) want [] t1"
    using setup_queue_conforms [OF q that, of "[0]"] driver_ok_conforms [of hw _ want "[0]" t2] by (auto split: if_splits)
  then show ?thesis using virtio_negotiate_conforms [OF Some [unfolded x], of "[0]"] Some by (auto simp: one_queue_def x q split: if_splits)
qed

lemma two_queues_conform:
  "case two_queues hw caps v1 want q0 q1 of None \<Rightarrow> \<not> can_reset hw | Some (live, t) \<Rightarrow> conforms hw (common_cfg caps) want [0, 1] live t"
proof (cases "virtio_negotiate hw (common_cfg caps) v1 want fresh")
  case None
  then show ?thesis using negotiate_none [of hw "common_cfg caps" v1 want fresh] by (simp add: two_queues_def)
next
  case (Some x)
  obtain ok lo t1 where x: "x = (ok, lo, t1)" using prod_cases3 by blast
  obtain k q0' t2 where q0: "setup_queue hw (common_cfg caps) caps 0 q0 t1 = (k, q0', t2)" using prod_cases3 by blast
  obtain k' q1' t3 where q1: "setup_queue hw (common_cfg caps) caps 1 q1 t2 = (k', q1', t3)" using prod_cases3 by blast
  have "if k then if k' then conforms hw (common_cfg caps) want [0, 1] True (add_status hw 4 t3) else conforms hw (common_cfg caps) want [0, 1] False t3
      else conforms hw (common_cfg caps) want [0, 1] False t2"
    if "negotiated hw (common_cfg caps) want [] t1"
    using setup_queue_conforms [OF q0 that, of "[0, 1]"] setup_queue_conforms [OF q1, of want "[0]" "[0, 1]"]
      driver_ok_conforms [of hw _ want "[0, 1]" t3] by (auto split: if_splits)
  then show ?thesis using virtio_negotiate_conforms [OF Some [unfolded x], of "[0, 1]"] Some by (auto simp: two_queues_def x q0 q1 split: if_splits)
qed

text \<open>The drivers in these terms.\<close>

lemma bringups:
  "map_option (\<lambda>(live, t, _). (live, t)) (rng_bringup hw caps fresh r) = one_queue hw caps False 0 (place_rings (rng_rings r) (rng_vq r))"
  "map_option (\<lambda>(live, t, _). (live, t)) (con_bringup hw caps fresh c) =
    two_queues hw caps False 0 (place_rings (con_rx_rings c) (con_rx_vq c)) (place_rings (con_tx_rings c) (con_tx_vq c))"
  "map_option (\<lambda>(live, t, _). (live, t)) (bln_bringup hw caps fresh s) =
    two_queues hw caps False 0 (place_rings (inflate_rings s) (inflate_vq s)) (place_rings (deflate_rings s) (deflate_vq s))"
  "map_option (\<lambda>(live, _, t, _). (live, t)) (net_bringup hw caps fresh d) =
    two_queues hw caps True 0x10020 (place_rings (rx_rings d) (rx_vq (nd_net d))) (place_rings (tx_rings d) (tx_vq (nd_net d)))"
  by (simp_all add: rng_bringup_def con_bringup_def bln_bringup_def net_bringup_def one_queue_def two_queues_def split: option.split prod.split)

lemma outcome_proj:
  "(case x of None \<Rightarrow> A | Some (live, t, _) \<Rightarrow> P live t) = (case map_option (\<lambda>(live, t, _). (live, t)) x of None \<Rightarrow> A | Some (live, t) \<Rightarrow> P live t)"
  by (simp split: option.split prod.split)

lemma outcome_proj4:
  "(case x of None \<Rightarrow> A | Some (live, _, t, _) \<Rightarrow> P live t) = (case map_option (\<lambda>(live, _, t, _). (live, t)) x of None \<Rightarrow> A | Some (live, t) \<Rightarrow> P live t)"
  by (simp split: option.split prod.split)

lemma blk_handshake_conforms:
  "case blk_handshake hw caps fresh q of None \<Rightarrow> \<not> can_reset hw | Some (live, t, _) \<Rightarrow> conforms hw (common_cfg caps) 0x226 [0] live t"
proof -
  have "conforms hw base want qs False (write_status hw 128 t)"
    if "virtio_negotiate hw base True want fresh = Some (False, lo, t)" for base want qs lo t
    using that by (auto simp: virtio_negotiate_def virtio_reset_def fresh_def Let_def add_status_def write_status_def write_features_def
        reg_writes_def conforms_def split: if_splits)
  then show ?thesis
    using one_queue_conforms [of hw caps "0x226" True q]
    by (auto simp: blk_handshake_def one_queue_def split: option.splits prod.splits if_splits)
qed

text \<open>The block driver's own model of its handshake, theory \<open>Blk\<close>, agrees with it.\<close>

lemma negotiate_outcome:
  "can_reset hw \<Longrightarrow> \<exists>lo t. virtio_negotiate hw base True w fresh =
    Some (bit (offered_hi hw) 0 \<and> accepts hw (offered_lo hw AND w) (offered_hi hw AND 1), lo, t)"
  by (auto simp: virtio_negotiate_def virtio_reset_def fresh_def Let_def add_status_def write_status_def write_features_def reg_writes_def)

lemma offered_version_1: "bit (hw_offered (blk_view hw capacity sz sg) AND BLK_FEATURE_MASK) 32 \<longleftrightarrow> bit (offered_hi hw) 0"
  by (auto simp: blk_view_def BLK_FEATURE_MASK_def bit_simps dest: bit_imp_le_length)

lemma blk_bringup_agrees:
  assumes "blk_cfg b = common_cfg caps" "blk_notify b = notify_base caps" "notify_mult b = notify_off_multiplier caps"
  shows "case blk_bringup (blk_view hw capacity sz sg) b of
    None \<Rightarrow> blk_handshake hw caps fresh (bvq b) = None
  | Some (rc, b') \<Rightarrow> \<exists>t. blk_handshake hw caps fresh (bvq b) = Some (rc = ESUCCESS, t, bvq b')"
proof (cases "can_reset hw")
  case False
  then show ?thesis by (simp add: blk_bringup_def blk_view_def blk_handshake_def virtio_negotiate_def virtio_reset_def)
next
  case True
  define ok where "ok \<longleftrightarrow> bit (offered_hi hw) 0 \<and> accepts hw (offered_lo hw AND 0x226) (offered_hi hw AND 1)"
  obtain lo t where n: "virtio_negotiate hw (common_cfg caps) True 0x226 fresh = Some (ok, lo, t)"
    using negotiate_outcome [OF True] unfolding ok_def by blast
  obtain k ws q where q: "virtqueue_setup (common_cfg caps) 0 (queue_max hw 0) (queue_noff hw 0) (notify_base caps) (notify_off_multiplier caps) (bvq b) = (k, ws, q)"
    using prod_cases3 by blast
  have v: "hw_resets (blk_view hw capacity sz sg) = True" "hw_features_ok (blk_view hw capacity sz sg) = accepts hw (offered_lo hw AND 0x226) (offered_hi hw AND 1)"
      "hw_queue_size (blk_view hw capacity sz sg) = queue_max hw 0" "hw_notify_off (blk_view hw capacity sz sg) = queue_noff hw 0"
    using True by (simp_all add: blk_view_def)
  show ?thesis
    by (simp add: blk_bringup_def blk_handshake_def n v offered_version_1 Let_def q setup_queue_def assms) (auto simp: ok_def)
qed

section \<open>Properties\<close>


end
