(* ===== verification/Context.thy ===== *)
theory Context
  imports Kernel_Prelude
begin

text \<open>
  The assembly that saves and restores processor state: \<^verbatim>\<open>src/sched/switch.S\<close> (the context switch, the
  trampoline of a new user task, the return of a forked child) and \<^verbatim>\<open>src/exception/vector.S\<close> (exception entry and
  exit).  The programs are lists of instructions, transcribed in order, over a small processor: the general
  and vector registers, the stack pointer, the system registers the code names, and memory as aligned cells
  of eight bytes.  A forward branch skips instructions; the call of the C handler is a parameter.
\<close>

section \<open>The processor\<close>

datatype sysreg = ELR | SPSR | ESR | FAR | SP_EL0 | TTBR0 | FPSR | FPCR

record cpu =
  xr :: "nat \<Rightarrow> u64"
  qr :: "nat \<Rightarrow> 128 word"
  sp :: u64
  sysr :: "sysreg \<Rightarrow> u64"
  cells :: "u64 \<Rightarrow> u64"
  irq_on :: bool

datatype instr =
    SUB_sp u64 | ADD_sp u64
  | STP nat nat u64 | LDP nat nat u64 | STRX nat u64 | LDRX nat u64
  | STP_q nat nat u64 | LDP_q nat nat u64 | STP_d nat nat u64 | LDP_d nat nat u64
  | STR_at nat nat u64 | LDR_at nat nat u64
  | MRS nat sysreg | MSR sysreg nat | MOV_sp nat | SET_sp nat | MOV nat u64 | AND_imm nat nat u64
  | DAIFCLR | ISB | CBZ nat nat | CBNZ nat nat

definition lo64 :: "128 word \<Rightarrow> u64" where
  "lo64 q = ucast q"

definition hi64 :: "128 word \<Rightarrow> u64" where
  "hi64 q = ucast (drop_bit 64 q)"

definition join64 :: "u64 \<Rightarrow> u64 \<Rightarrow> 128 word" where
  "join64 lo hi = ucast lo OR push_bit 64 (ucast hi)"

text \<open>One instruction.  Loading a 64-bit vector register clears the upper half.\<close>

fun step :: "instr \<Rightarrow> cpu \<Rightarrow> cpu" where
  "step (SUB_sp n) c = c\<lparr>sp := sp c - n\<rparr>"
| "step (ADD_sp n) c = c\<lparr>sp := sp c + n\<rparr>"
| "step (STP i j n) c = c\<lparr>cells := (cells c)(sp c + n := xr c i, sp c + (n + 8) := xr c j)\<rparr>"
| "step (LDP i j n) c = c\<lparr>xr := (xr c)(i := cells c (sp c + n), j := cells c (sp c + (n + 8)))\<rparr>"
| "step (STRX i n) c = c\<lparr>cells := (cells c)(sp c + n := xr c i)\<rparr>"
| "step (LDRX i n) c = c\<lparr>xr := (xr c)(i := cells c (sp c + n))\<rparr>"
| "step (STP_q i j n) c = c\<lparr>cells := (cells c)(sp c + n := lo64 (qr c i), sp c + (n + 8) := hi64 (qr c i),
     sp c + (n + 16) := lo64 (qr c j), sp c + (n + 24) := hi64 (qr c j))\<rparr>"
| "step (LDP_q i j n) c = c\<lparr>qr := (qr c)(i := join64 (cells c (sp c + n)) (cells c (sp c + (n + 8))),
     j := join64 (cells c (sp c + (n + 16))) (cells c (sp c + (n + 24))))\<rparr>"
| "step (STP_d i j n) c = c\<lparr>cells := (cells c)(sp c + n := lo64 (qr c i), sp c + (n + 8) := lo64 (qr c j))\<rparr>"
| "step (LDP_d i j n) c = c\<lparr>qr := (qr c)(i := ucast (cells c (sp c + n)), j := ucast (cells c (sp c + (n + 8))))\<rparr>"
| "step (STR_at i b n) c = c\<lparr>cells := (cells c)(xr c b + n := xr c i)\<rparr>"
| "step (LDR_at i b n) c = c\<lparr>xr := (xr c)(i := cells c (xr c b + n))\<rparr>"
| "step (MRS i r) c = c\<lparr>xr := (xr c)(i := sysr c r)\<rparr>"
| "step (MSR r i) c = c\<lparr>sysr := (sysr c)(r := xr c i)\<rparr>"
| "step (MOV_sp i) c = c\<lparr>xr := (xr c)(i := sp c)\<rparr>"
| "step (SET_sp i) c = c\<lparr>sp := xr c i\<rparr>"
| "step (MOV i v) c = c\<lparr>xr := (xr c)(i := v)\<rparr>"
| "step (AND_imm i j v) c = c\<lparr>xr := (xr c)(i := xr c j AND v)\<rparr>"
| "step DAIFCLR c = c\<lparr>irq_on := True\<rparr>"
| "step _ c = c"

function run :: "instr list \<Rightarrow> cpu \<Rightarrow> cpu" where
  "run [] c = c"
| "run (i # is) c =
    (case i of
       CBZ r n \<Rightarrow> run (if xr c r = 0 then drop n is else is) c
     | CBNZ r n \<Rightarrow> run (if xr c r \<noteq> 0 then drop n is else is) c
     | _ \<Rightarrow> run is (step i c))"
  by pat_completeness auto
termination by (relation "measure (\<lambda>(is, c). length is)") auto

section \<open>switch.S\<close>

abbreviation (input) TASK_SP :: u64 where "TASK_SP \<equiv> 0"
abbreviation (input) TASK_TTBR0 :: u64 where "TASK_TTBR0 \<equiv> 40"

definition context_switch :: "instr list" where
  "context_switch =
    [SUB_sp 160,
     STP 19 20 0, STP 21 22 16, STP 23 24 32, STP 25 26 48, STP 27 28 64, STP 29 30 80,
     STP_d 8 9 96, STP_d 10 11 112, STP_d 12 13 128, STP_d 14 15 144,
     MOV_sp 2, STR_at 2 0 TASK_SP,
     LDR_at 2 1 TASK_SP, SET_sp 2,
     LDR_at 3 1 TASK_TTBR0, CBZ 3 2, MSR TTBR0 3, ISB,
     LDP 19 20 0, LDP 21 22 16, LDP 23 24 32, LDP 25 26 48, LDP 27 28 64, LDP 29 30 80,
     LDP_d 8 9 96, LDP_d 10 11 112, LDP_d 12 13 128, LDP_d 14 15 144,
     ADD_sp 160]"

definition task_trampoline_asm :: "instr list" where
  "task_trampoline_asm = [DAIFCLR, MSR SP_EL0 20, MSR ELR 19, MOV 0 0, MSR SPSR 0]"

definition fork_return_asm :: "instr list" where
  "fork_return_asm =
    [LDRX 1 248, MSR ELR 1, LDRX 1 256, MSR SPSR 1,
     AND_imm 2 1 0xF, CBNZ 2 2, LDRX 1 280, MSR SP_EL0 1,
     LDP 2 3 16, LDP 4 5 32, LDP 6 7 48, LDP 8 9 64, LDP 10 11 80, LDP 12 13 96, LDP 14 15 112, LDP 16 17 128,
     LDP 18 19 144, LDP 20 21 160, LDP 22 23 176, LDP 24 25 192, LDP 26 27 208, LDP 28 29 224, LDRX 30 240,
     LDP 0 1 0, ADD_sp 288]"

section \<open>vector.S\<close>

abbreviation (input) FRAME_SIZE :: u64 where "FRAME_SIZE \<equiv> 688"

definition vector_entry :: "u64 \<Rightarrow> instr list" where
  "vector_entry type = [SUB_sp FRAME_SIZE, STP 0 1 0, MOV 0 type]"

definition vector_entry_lower :: "u64 \<Rightarrow> instr list" where
  "vector_entry_lower type = [SUB_sp FRAME_SIZE, STP 0 1 0, MRS 0 SP_EL0, STRX 0 280, MOV 0 type]"

text \<open>\<open>exception_common\<close> up to the call of the handler, and after it.\<close>

definition exception_save :: "instr list" where
  "exception_save =
    [STP 2 3 16, STP 4 5 32, STP 6 7 48, STP 8 9 64, STP 10 11 80, STP 12 13 96, STP 14 15 112, STP 16 17 128,
     STP 18 19 144, STP 20 21 160, STP 22 23 176, STP 24 25 192, STP 26 27 208, STP 28 29 224, STRX 30 240,
     MRS 1 ELR, STRX 1 248, MRS 1 SPSR, STRX 1 256, MRS 1 ESR, STRX 1 264, MRS 1 FAR, STRX 1 272,
     STP_q 0 1 288, STP_q 2 3 320, STP_q 4 5 352, STP_q 6 7 384, STP_q 16 17 416, STP_q 18 19 448, STP_q 20 21 480,
     STP_q 22 23 512, STP_q 24 25 544, STP_q 26 27 576, STP_q 28 29 608, STP_q 30 31 640,
     MRS 1 FPSR, STRX 1 672, MRS 1 FPCR, STRX 1 680, MOV_sp 1]"

definition exception_restore :: "instr list" where
  "exception_restore =
    [LDRX 1 248, MSR ELR 1, LDRX 1 256, MSR SPSR 1,
     AND_imm 2 1 0xF, CBNZ 2 2, LDRX 1 280, MSR SP_EL0 1,
     LDRX 1 680, MSR FPCR 1, LDRX 1 672, MSR FPSR 1,
     LDP_q 30 31 640, LDP_q 28 29 608, LDP_q 26 27 576, LDP_q 24 25 544, LDP_q 22 23 512, LDP_q 20 21 480, LDP_q 18 19 448,
     LDP_q 16 17 416, LDP_q 6 7 384, LDP_q 4 5 352, LDP_q 2 3 320, LDP_q 0 1 288,
     LDP 2 3 16, LDP 4 5 32, LDP 6 7 48, LDP 8 9 64, LDP 10 11 80, LDP 12 13 96, LDP 14 15 112, LDP 16 17 128,
     LDP 18 19 144, LDP 20 21 160, LDP 22 23 176, LDP 24 25 192, LDP 26 27 208, LDP 28 29 224, LDRX 30 240,
     LDP 0 1 0, ADD_sp FRAME_SIZE]"

definition exception_from_el0 :: "u64 \<Rightarrow> (cpu \<Rightarrow> cpu) \<Rightarrow> cpu \<Rightarrow> cpu" where
  "exception_from_el0 type handler c = run exception_restore (handler (run exception_save (run (vector_entry_lower type) c)))"

definition exception_from_el1 :: "u64 \<Rightarrow> (cpu \<Rightarrow> cpu) \<Rightarrow> cpu \<Rightarrow> cpu" where
  "exception_from_el1 type handler c = run exception_restore (handler (run exception_save (run (vector_entry type) c)))"

section \<open>Vector halves\<close>

lemma join64_halves: "join64 (lo64 q) (hi64 q) = q"
  by (rule bit_word_eqI) (auto simp: join64_def lo64_def hi64_def bit_simps dest: bit_imp_le_length)

lemma lo64_ucast [simp]: "lo64 (ucast w) = w" for w :: u64
  by (rule bit_word_eqI) (simp add: lo64_def bit_simps)

lemma hi64_ucast [simp]: "hi64 (ucast w) = 0" for w :: u64
  by (rule bit_word_eqI) (auto simp: hi64_def bit_simps dest: bit_imp_le_length)

text \<open>A block of straight-line code.\<close>

lemma run_append_straight:
  "(\<And>i. i \<in> set is \<Longrightarrow> (\<forall>r n. i \<noteq> CBZ r n) \<and> (\<forall>r n. i \<noteq> CBNZ r n)) \<Longrightarrow> run (is @ js) c = run js (run is c)"
  by (induction "is" arbitrary: c) (auto split: instr.splits)


section \<open>The context switch\<close>

text \<open>What the procedure call standard lets a function rely on across a call: registers 19 to 30 and the low
  halves of vector registers 8 to 15; and the 160 bytes of a switch frame.\<close>

definition callee_saved :: "cpu \<Rightarrow> u64 list" where
  "callee_saved c = map (xr c) [19, 20, 21, 22, 23, 24, 25, 26, 27, 28, 29, 30] @
    map (\<lambda>i. lo64 (qr c i)) [8, 9, 10, 11, 12, 13, 14, 15]"

definition frame_offsets :: "u64 list" where
  "frame_offsets = [0, 8, 16, 24, 32, 40, 48, 56, 64, 72, 80, 88, 96, 104, 112, 120, 128, 136, 144, 152]"

definition switch_frame :: "(u64 \<Rightarrow> u64) \<Rightarrow> u64 \<Rightarrow> u64 list" where
  "switch_frame m a = map (\<lambda>n. m (a + n)) frame_offsets"

definition frame_addrs :: "u64 \<Rightarrow> u64 set" where
  "frame_addrs a = (\<lambda>n. a + n) ` set frame_offsets"

definition switch_out :: "instr list" where "switch_out = take 13 context_switch"
definition switch_in :: "instr list" where "switch_in = drop 13 context_switch"

lemma run_context_switch: "run context_switch c = run switch_in (run switch_out c)"
proof -
  have "context_switch = switch_out @ switch_in" by (simp add: switch_out_def switch_in_def)
  moreover have "(\<forall>r n. i \<noteq> CBZ r n) \<and> (\<forall>r n. i \<noteq> CBNZ r n)" if "i \<in> set switch_out" for i
    using that by (auto simp: switch_out_def context_switch_def)
  ultimately show ?thesis using run_append_straight by metis
qed

text \<open>A block of stores at offsets from an address.\<close>

definition upds :: "(u64 \<Rightarrow> u64) \<Rightarrow> u64 \<Rightarrow> (u64 \<times> u64) list \<Rightarrow> u64 \<Rightarrow> u64" where
  "upds m a ps = fold (\<lambda>(n, v) m. m(a + n := v)) ps m"

lemma upds_other: "x \<notin> (\<lambda>n. a + n) ` set (map fst ps) \<Longrightarrow> upds m a ps x = m x"
  by (induction ps arbitrary: m) (auto simp: upds_def)

lemma upds_frame: "distinct (map fst ps) \<Longrightarrow> map (\<lambda>n. upds m a ps (a + n)) (map fst ps) = map snd ps"
proof (induction ps arbitrary: m)
  case (Cons p ps)
  have "upds m a (p # ps) = upds (m(a + fst p := snd p)) a ps" by (simp add: upds_def case_prod_beta)
  moreover have "a + fst p \<notin> (\<lambda>n. a + n) ` set (map fst ps)" using Cons.prems by force
  then have "upds (m(a + fst p := snd p)) a ps (a + fst p) = snd p" using upds_other by simp
  ultimately show ?case using Cons by simp
qed simp

lemma upds_zip:
  assumes "distinct ns" "length ns = length vs"
  shows "map (\<lambda>n. upds m a (zip ns vs) (a + n)) ns = vs" "x \<notin> (\<lambda>n. a + n) ` set ns \<Longrightarrow> upds m a (zip ns vs) x = m x"
proof -
  show "map (\<lambda>n. upds m a (zip ns vs) (a + n)) ns = vs" using upds_frame [of "zip ns vs" m a] assms by simp
  show "x \<notin> (\<lambda>n. a + n) ` set ns \<Longrightarrow> upds m a (zip ns vs) x = m x" using upds_other [of x a "zip ns vs" m] assms by simp
qed

text \<open>The two halves, executed.\<close>

lemma run_switch_out:
  "run (tl switch_out) d = d\<lparr>cells := (upds (cells d) (sp d) (zip frame_offsets (callee_saved d)))(xr d 0 := sp d), xr := (xr d)(2 := sp d)\<rparr>"
  by (simp add: switch_out_def context_switch_def upds_def frame_offsets_def callee_saved_def)

lemma frame_lists: "distinct frame_offsets" "length frame_offsets = length (callee_saved d)"
  by (simp_all add: frame_offsets_def callee_saved_def)

lemma run_switch_in:
  fixes c :: cpu
  defines "m \<equiv> cells c (xr c 1)" and "t \<equiv> cells c (xr c 1 + 40)"
  shows "run switch_in c = c\<lparr>sp := m + 160, sysr := (if t = 0 then sysr c else (sysr c)(TTBR0 := t)),
    xr := (xr c)(2 := m, 3 := t, 19 := cells c m, 20 := cells c (m + 8), 21 := cells c (m + 16), 22 := cells c (m + 24), 23 := cells c (m + 32), 24 := cells c (m + 40), 25 := cells c (m + 48), 26 := cells c (m + 56), 27 := cells c (m + 64), 28 := cells c (m + 72), 29 := cells c (m + 80), 30 := cells c (m + 88)),
    qr := (qr c)(8 := ucast (cells c (m + 96)), 9 := ucast (cells c (m + 104)), 10 := ucast (cells c (m + 112)), 11 := ucast (cells c (m + 120)), 12 := ucast (cells c (m + 128)), 13 := ucast (cells c (m + 136)), 14 := ucast (cells c (m + 144)), 15 := ucast (cells c (m + 152)))\<rparr>"
  by (simp add: switch_in_def context_switch_def m_def t_def)

lemma switch_out_tail:
  fixes d :: cpu
  assumes "xr d 0 \<notin> frame_addrs (sp d)"
  defines "e \<equiv> run (tl switch_out) d"
  shows "switch_frame (cells e) (sp d) = callee_saved d" "cells e (xr d 0) = sp d"
    "a \<notin> frame_addrs (sp d) \<Longrightarrow> a \<noteq> xr d 0 \<Longrightarrow> cells e a = cells d a"
    "xr e = (xr d)(2 := sp d)" "sp e = sp d" "qr e = qr d" "sysr e = sysr d"
proof -
  note defs = e_def run_switch_out
  have x0: "n \<in> set frame_offsets \<Longrightarrow> sp d + n \<noteq> xr d 0" for n using assms(1) unfolding frame_addrs_def by (metis image_eqI)
  have "switch_frame (cells e) (sp d) = map (\<lambda>n. upds (cells d) (sp d) (zip frame_offsets (callee_saved d)) (sp d + n)) frame_offsets"
    unfolding switch_frame_def defs using x0 by (intro map_cong refl) auto
  then show "switch_frame (cells e) (sp d) = callee_saved d" using upds_zip(1) [OF frame_lists] by simp
  show "cells e a = cells d a" if "a \<notin> frame_addrs (sp d)" "a \<noteq> xr d 0"
    using that upds_zip(2) [OF frame_lists, of a "sp d"] by (simp add: defs frame_addrs_def)
qed (simp_all add: e_def run_switch_out)

lemma switch_out_result:
  assumes "xr c 0 \<notin> frame_addrs (sp c - 160)"
  shows "switch_frame (cells (run switch_out c)) (sp c - 160) = callee_saved c"
    "cells (run switch_out c) (xr c 0) = sp c - 160"
    "a \<notin> frame_addrs (sp c - 160) \<Longrightarrow> a \<noteq> xr c 0 \<Longrightarrow> cells (run switch_out c) a = cells c a"
    "xr (run switch_out c) = (xr c)(2 := sp c - 160)" "sp (run switch_out c) = sp c - 160"
    "qr (run switch_out c) = qr c" "sysr (run switch_out c) = sysr c"
proof -
  let ?d = "c\<lparr>sp := sp c - 160\<rparr>"
  have d: "run switch_out c = run (tl switch_out) ?d" by (simp add: switch_out_def context_switch_def)
  have "xr ?d 0 \<notin> frame_addrs (sp ?d)" using assms by simp
  note t = switch_out_tail [OF this, folded d]
  show "switch_frame (cells (run switch_out c)) (sp c - 160) = callee_saved c" using t(1) by (simp add: callee_saved_def)
  show "cells (run switch_out c) (xr c 0) = sp c - 160" using t(2) by simp
  show "cells (run switch_out c) a = cells c a" if "a \<notin> frame_addrs (sp c - 160)" "a \<noteq> xr c 0" using t(3) [of a] that by simp
  show "xr (run switch_out c) = (xr c)(2 := sp c - 160)" "sp (run switch_out c) = sp c - 160"
    "qr (run switch_out c) = qr c" "sysr (run switch_out c) = sysr c" using t(4-7) by simp_all
qed

lemma switch_in_result:
  fixes c :: cpu
  defines "n \<equiv> cells c (xr c 1)" and "e \<equiv> run switch_in c"
  shows "callee_saved e = switch_frame (cells c) n" "sp e = n + 160" "cells e = cells c"
    "sysr e = (if cells c (xr c 1 + 40) = 0 then sysr c else (sysr c)(TTBR0 := cells c (xr c 1 + 40)))"
    "i \<in> {8..15} \<Longrightarrow> hi64 (qr e i) = 0" "i \<notin> {8..15} \<Longrightarrow> qr e i = qr c i" "i < 19 \<Longrightarrow> i \<noteq> 2 \<Longrightarrow> i \<noteq> 3 \<Longrightarrow> xr e i = xr c i"
proof -
  note defs = e_def n_def run_switch_in
  show "callee_saved e = switch_frame (cells c) n"
    by (simp add: defs switch_frame_def callee_saved_def frame_offsets_def)
  show "sp e = n + 160" "cells e = cells c"
    "sysr e = (if cells c (xr c 1 + 40) = 0 then sysr c else (sysr c)(TTBR0 := cells c (xr c 1 + 40)))"
    by (simp_all add: defs)
  show "hi64 (qr e i) = 0" if "i \<in> {8..15}"
  proof -
    have "i \<in> {8, 9, 10, 11, 12, 13, 14, 15}" using that by auto
    then show ?thesis by (auto simp: defs)
  qed
  show "qr e i = qr c i" if "i \<notin> {8..15}" using that by (auto simp: defs)
  show "xr e i = xr c i" if "i < 19" "i \<noteq> 2" "i \<noteq> 3" using that by (simp add: defs)
qed

section \<open>Exceptions\<close>

text \<open>The trap frame: cell \<open>k\<close> is at offset \<open>8 * k\<close>; the cells in the order they are written, and what is
  written there.\<close>

definition trap_cells :: "nat list" where
  "trap_cells = [0, 1, 35] @ [2..<35] @ [36..<86]"

definition trap_value :: "cpu \<Rightarrow> nat \<Rightarrow> u64" where
  "trap_value c k =
    (if k \<le> 30 then xr c k
     else if k < 36 then sysr c ([ELR, SPSR, ESR, FAR, SP_EL0] ! (k - 31))
     else if k < 84 then
       let j = (k - 36) div 2; q = qr c (if j < 8 then j else j + 8) in if even k then lo64 q else hi64 q
     else sysr c (if k = 84 then FPSR else FPCR))"

definition cell_at :: "cpu \<Rightarrow> nat \<Rightarrow> u64" where
  "cell_at c k = cells c (sp c + of_nat (8 * k))"

text \<open>An exception taken in the kernel writes all cells but that of the user stack pointer.\<close>

definition kernel_cells :: "nat list" where
  "kernel_cells = [0, 1] @ [2..<35] @ [36..<86]"

lemma cell_offsets_distinct:
  assumes "distinct ks" "set ks \<subseteq> {..<86}"
  shows "distinct (map (\<lambda>k. of_nat (8 * k) :: u64) ks)"
proof -
  have "inj_on (\<lambda>k. of_nat (8 * k) :: u64) {..<86}"
  proof (rule inj_onI)
    fix j k :: nat
    assume "j \<in> {..<86}" "k \<in> {..<86}" "(of_nat (8 * j) :: u64) = of_nat (8 * k)"
    then have "unat (of_nat (8 * j) :: u64) = unat (of_nat (8 * k) :: u64)" "8 * j < 2 ^ 64" "8 * k < 2 ^ 64" by simp_all
    then show "j = k" unfolding unat_of_nat_64 [OF \<open>8 * j < 2 ^ 64\<close>] unat_of_nat_64 [OF \<open>8 * k < 2 ^ 64\<close>] by simp
  qed
  then show ?thesis using assms by (simp add: distinct_map inj_on_subset)
qed

lemma cell_lists:
  "set trap_cells = {..<86}" "distinct trap_cells" "set kernel_cells = {..<86} - {35}" "distinct kernel_cells"
  by (auto simp: trap_cells_def kernel_cells_def simp del: upt_rec_numeral)

text \<open>Running the stores: the block written so far, and the registers.\<close>

definition storing :: "cpu \<Rightarrow> (u64 \<times> u64) list \<Rightarrow> (nat \<Rightarrow> u64) \<Rightarrow> cpu" where
  "storing c ps x = c\<lparr>cells := upds (cells c) (sp c) ps, xr := x\<rparr>"

lemma storing_step:
  "step (STP i j n) (storing c ps x) = storing c (ps @ [(n, x i), (n + 8, x j)]) x"
  "step (STRX i n) (storing c ps x) = storing c (ps @ [(n, x i)]) x"
  "step (STP_q i j n) (storing c ps x) = storing c (ps @ [(n, lo64 (qr c i)), (n + 8, hi64 (qr c i)), (n + 16, lo64 (qr c j)), (n + 24, hi64 (qr c j))]) x"
  "step (MRS i r) (storing c ps x) = storing c ps (x(i := sysr c r))"
  "step (MOV_sp i) (storing c ps x) = storing c ps (x(i := sp c))"
  "step (MOV i v) (storing c ps x) = storing c ps (x(i := v))"
  by (simp_all add: storing_def upds_def)

lemma run_storing:
  "run [] (storing c ps x) = storing c ps x"
  "run (STP i j n # is) (storing c ps x) = run is (storing c (ps @ [(n, x i), (n + 8, x j)]) x)"
  "run (STRX i n # is) (storing c ps x) = run is (storing c (ps @ [(n, x i)]) x)"
  "run (STP_q i j n # is) (storing c ps x) =
    run is (storing c (ps @ [(n, lo64 (qr c i)), (n + 8, hi64 (qr c i)), (n + 16, lo64 (qr c j)), (n + 24, hi64 (qr c j))]) x)"
  "run (MRS i r # is) (storing c ps x) = run is (storing c ps (x(i := sysr c r)))"
  "run (MOV_sp i # is) (storing c ps x) = run is (storing c ps (x(i := sp c)))"
  "run (MOV i v # is) (storing c ps x) = run is (storing c ps (x(i := v)))"
  by (simp_all add: storing_step del: step.simps)

lemma run_exception_entry:
  "run exception_save (run (tl (vector_entry_lower ty)) c) = storing c (map (\<lambda>k. (of_nat (8 * k), trap_value c k)) trap_cells) ((xr c)(0 := ty, 1 := sp c))"
proof -
  have "c = storing c [] (xr c)" by (simp add: storing_def upds_def)
  then have "run exception_save (run (tl (vector_entry_lower ty)) c) = run exception_save (run (tl (vector_entry_lower ty)) (storing c [] (xr c)))" by simp
  also have "\<dots> = storing c (map (\<lambda>k. (of_nat (8 * k), trap_value c k)) trap_cells) ((xr c)(0 := ty, 1 := sp c))"
    by (simp add: exception_save_def vector_entry_lower_def trap_cells_def trap_value_def upt_rec_numeral run_storing del: run.simps)
  finally show ?thesis .
qed

lemma run_exception_entry_kernel:
  "run exception_save (run (tl (vector_entry ty)) c) = storing c (map (\<lambda>k. (of_nat (8 * k), trap_value c k)) kernel_cells) ((xr c)(0 := ty, 1 := sp c))"
proof -
  have "c = storing c [] (xr c)" by (simp add: storing_def upds_def)
  then have "run exception_save (run (tl (vector_entry ty)) c) = run exception_save (run (tl (vector_entry ty)) (storing c [] (xr c)))" by simp
  also have "\<dots> = storing c (map (\<lambda>k. (of_nat (8 * k), trap_value c k)) kernel_cells) ((xr c)(0 := ty, 1 := sp c))"
    by (simp add: exception_save_def vector_entry_def kernel_cells_def trap_value_def upt_rec_numeral run_storing del: run.simps)
  finally show ?thesis .
qed

text \<open>Running the loads, in three parts.\<close>

definition restore_q :: "instr list" where "restore_q = take 12 (drop 12 exception_restore)"
definition restore_x :: "instr list" where "restore_x = drop 24 exception_restore"

definition q_cell :: "nat \<Rightarrow> nat" where
  "q_cell i = (if i \<le> 7 then 36 + 2 * i else 20 + 2 * i)"

definition q_order :: "nat list" where
  "q_order = [30, 31, 28, 29, 26, 27, 24, 25, 22, 23, 20, 21, 18, 19, 16, 17, 6, 7, 4, 5, 2, 3, 0, 1]"

lemma run_restore_q:
  "run (restore_q @ is) c = run is (c\<lparr>qr := fold (\<lambda>i f. f(i := join64 (cell_at c (q_cell i)) (cell_at c (q_cell i + 1))))
    q_order (qr c)\<rparr>)"
  by (simp add: restore_q_def exception_restore_def cell_at_def q_cell_def q_order_def)

definition x_order :: "nat list" where
  "x_order = [2..<31] @ [0, 1]"

lemma run_restore_x:
  "run restore_x c = c\<lparr>sp := sp c + 688, xr := fold (\<lambda>i f. f(i := cell_at c i)) x_order (xr c)\<rparr>"
  by (simp add: restore_x_def exception_restore_def cell_at_def x_order_def upt_rec_numeral)

lemma x_order_set: "set x_order = {..30}"
  by (auto simp: x_order_def simp del: upt_rec_numeral)

lemma fold_upd: "fold (\<lambda>i f. f(i := g i)) xs f i = (if i \<in> set xs then g i else f i)"
  by (induction xs arbitrary: f) auto

lemma run_exception_restore:
  "run exception_restore c = run (restore_q @ restore_x)
    (c\<lparr>xr := (xr c)(2 := cells c (sp c + 256) AND 15, 1 := cells c (sp c + 672)),
      sysr := (if cells c (sp c + 256) AND 15 = 0
        then (sysr c)(ELR := cells c (sp c + 248), SPSR := cells c (sp c + 256), SP_EL0 := cells c (sp c + 280), FPCR := cells c (sp c + 680), FPSR := cells c (sp c + 672))
        else (sysr c)(ELR := cells c (sp c + 248), SPSR := cells c (sp c + 256), FPCR := cells c (sp c + 680), FPSR := cells c (sp c + 672)))\<rparr>)"
proof -
  have e: "exception_restore = [LDRX 1 248, MSR ELR 1, LDRX 1 256, MSR SPSR 1, AND_imm 2 1 0xF, CBNZ 2 2, LDRX 1 280, MSR SP_EL0 1,
      LDRX 1 680, MSR FPCR 1, LDRX 1 672, MSR FPSR 1] @ restore_q @ restore_x"
    by (simp add: restore_q_def restore_x_def exception_restore_def)
  show ?thesis by (subst e) simp
qed

text \<open>The state an interrupted program can see: all general registers, its stack pointer, where and how it
  was running, the vector registers apart from 8 to 15, and the floating-point status.\<close>

definition visible :: "cpu \<Rightarrow> cpu \<Rightarrow> bool" where
  "visible c e \<longleftrightarrow> (\<forall>i \<le> 30. xr e i = xr c i) \<and> sp e = sp c \<and> sysr e ELR = sysr c ELR \<and> sysr e SPSR = sysr c SPSR \<and>
    sysr e FPSR = sysr c FPSR \<and> sysr e FPCR = sysr c FPCR \<and> (\<forall>i. i \<le> 7 \<or> 16 \<le> i \<and> i \<le> 31 \<longrightarrow> qr e i = qr c i)"

lemma q_cell_value:
  assumes "i \<le> 7 \<or> 16 \<le> i \<and> i \<le> 31"
  shows "trap_value c (q_cell i) = lo64 (qr c i)" "trap_value c (q_cell i + 1) = hi64 (qr c i)"
proof -
  have r: "36 \<le> q_cell i" "q_cell i + 1 < 84" "even (q_cell i)" using assms by (auto simp: q_cell_def)
  have "q_cell i - 36 = 2 * (if i \<le> 7 then i else i - 8)" using assms by (auto simp: q_cell_def)
  then have j: "(q_cell i - 36) div 2 = (if i \<le> 7 then i else i - 8)" "(q_cell i + 1 - 36) div 2 = (if i \<le> 7 then i else i - 8)"
    using r by simp_all
  have x: "(if (if i \<le> 7 then i else i - 8) < 8 then (if i \<le> 7 then i else i - 8) else (if i \<le> 7 then i else i - 8) + 8) = i" using assms by auto
  show "trap_value c (q_cell i) = lo64 (qr c i)" "trap_value c (q_cell i + 1) = hi64 (qr c i)"
    unfolding trap_value_def Let_def j x using r by simp_all
qed

lemma restored:
  assumes fr: "\<And>k. k < 86 \<Longrightarrow> k \<noteq> 35 \<or> sysr c SPSR AND 15 = 0 \<Longrightarrow> cell_at d k = trap_value c k" and sp: "sp d + 688 = sp c"
  defines "e \<equiv> run exception_restore d"
  shows "visible c e" "sysr c SPSR AND 15 = 0 \<Longrightarrow> sysr e SP_EL0 = sysr c SP_EL0"
    "sysr c SPSR AND 15 \<noteq> 0 \<Longrightarrow> sysr e SP_EL0 = sysr d SP_EL0"
    "8 \<le> i \<Longrightarrow> i \<le> 15 \<Longrightarrow> qr e i = qr d i" "cells e = cells d"
proof -
  have s: "cells d (sp d + 248) = sysr c ELR" "cells d (sp d + 256) = sysr c SPSR" "sysr c SPSR AND 15 = 0 \<Longrightarrow> cells d (sp d + 280) = sysr c SP_EL0"
      "cells d (sp d + 672) = sysr c FPSR" "cells d (sp d + 680) = sysr c FPCR"
    using fr [of 31] fr [of 32] fr [of 35] fr [of 84] fr [of 85] by (simp_all add: cell_at_def trap_value_def)
  note defs = e_def run_exception_restore run_restore_q run_restore_x fold_upd s
  have cell: "cell_at (d\<lparr>xr := a, sysr := b\<rparr>) = cell_at d" "cell_at (d\<lparr>xr := a, sysr := b, qr := q\<rparr>) = cell_at d" for a b q
    by (simp_all add: cell_at_def fun_eq_iff)
  have "xr e i = xr c i" if "i \<le> 30" for i
    using that fr [of i] by (auto simp: defs cell trap_value_def x_order_set)
  moreover have "qr e i = qr c i" if "i \<le> 7 \<or> 16 \<le> i \<and> i \<le> 31" for i
  proof -
    have "i \<in> set ([0..<8] @ [16..<32])" using that by (auto simp del: upt_rec_numeral)
    then have m: "i \<in> set q_order" unfolding q_order_def upt_rec_numeral by auto
    have "trap_value c (q_cell i) = lo64 (qr c i)" "trap_value c (q_cell i + 1) = hi64 (qr c i)" "q_cell i + 1 < 86" "36 \<le> q_cell i"
      using q_cell_value [OF that] that by (auto simp: q_cell_def)
    moreover from this have "cell_at d (q_cell i) = lo64 (qr c i)" "cell_at d (q_cell i + 1) = hi64 (qr c i)"
      using fr [of "q_cell i"] fr [of "q_cell i + 1"] by auto
    moreover have "qr e i = join64 (cell_at d (q_cell i)) (cell_at d (q_cell i + 1))" using m by (simp add: defs cell)
    ultimately show ?thesis by (simp add: join64_halves)
  qed
  moreover show "cells e = cells d" "sysr c SPSR AND 15 = 0 \<Longrightarrow> sysr e SP_EL0 = sysr c SP_EL0" "sysr c SPSR AND 15 \<noteq> 0 \<Longrightarrow> sysr e SP_EL0 = sysr d SP_EL0"
    by (simp_all add: defs)
  moreover have "sp e = sp c" "sysr e ELR = sysr c ELR" "sysr e SPSR = sysr c SPSR" "sysr e FPSR = sysr c FPSR" "sysr e FPCR = sysr c FPCR"
    using sp by (simp_all add: defs)
  ultimately show "visible c e" unfolding visible_def by blast
  show "qr e i = qr d i" if "8 \<le> i" "i \<le> 15" using that by (auto simp: defs q_order_def)
qed

text \<open>The frame an entry leaves, 688 bytes below the stack pointer of the interrupted program.\<close>

lemma entry_frame:
  assumes d: "d = storing (c\<lparr>sp := a\<rparr>) (map (\<lambda>k. (of_nat (8 * k), trap_value (c\<lparr>sp := a\<rparr>) k)) ks) x" and ks: "distinct ks" "set ks \<subseteq> {..<86}"
  shows "k \<in> set ks \<Longrightarrow> cell_at d k = trap_value c k" "sp d = a" "sysr d = sysr c" "qr d = qr c" "xr d = x"
    "(\<And>k. k \<in> set ks \<Longrightarrow> b \<noteq> a + of_nat (8 * k)) \<Longrightarrow> cells d b = cells c b"
proof -
  let ?ps = "map (\<lambda>k. (of_nat (8 * k) :: u64, trap_value c k)) ks"
  have tv: "trap_value (c\<lparr>sp := a\<rparr>) = trap_value c" by (simp add: trap_value_def fun_eq_iff)
  have "map (\<lambda>n. upds (cells c) a ?ps (a + n)) (map fst ?ps) = map snd ?ps"
    using upds_frame [of ?ps "cells c" a] cell_offsets_distinct [OF ks] by (simp add: comp_def)
  then have "map (\<lambda>k. upds (cells c) a ?ps (a + of_nat (8 * k))) ks = map (trap_value c) ks" by (simp add: comp_def)
  then show "k \<in> set ks \<Longrightarrow> cell_at d k = trap_value c k" by (simp add: d tv storing_def cell_at_def)
  show "sp d = a" "sysr d = sysr c" "qr d = qr c" "xr d = x" by (simp_all add: d storing_def)
  show "cells d b = cells c b" if b: "\<And>k. k \<in> set ks \<Longrightarrow> b \<noteq> a + of_nat (8 * k)"
  proof -
    have "b \<notin> (\<lambda>n. a + n) ` set (map fst ?ps)" using b by auto
    from upds_other [OF this, of "cells c"] show ?thesis by (simp add: d tv storing_def)
  qed
qed

lemma entry_user:
  "run exception_save (run (vector_entry_lower ty) c) =
    storing (c\<lparr>sp := sp c - 688\<rparr>) (map (\<lambda>k. (of_nat (8 * k), trap_value (c\<lparr>sp := sp c - 688\<rparr>) k)) trap_cells) ((xr c)(0 := ty, 1 := sp c - 688))"
proof -
  have "run (vector_entry_lower ty) c = run (tl (vector_entry_lower ty)) (c\<lparr>sp := sp c - 688\<rparr>)" by (simp add: vector_entry_lower_def)
  then show ?thesis using run_exception_entry [of ty "c\<lparr>sp := sp c - 688\<rparr>"] by simp
qed

lemma entry_kernel:
  "run exception_save (run (vector_entry ty) c) =
    storing (c\<lparr>sp := sp c - 688\<rparr>) (map (\<lambda>k. (of_nat (8 * k), trap_value (c\<lparr>sp := sp c - 688\<rparr>) k)) kernel_cells) ((xr c)(0 := ty, 1 := sp c - 688))"
proof -
  have "run (vector_entry ty) c = run (tl (vector_entry ty)) (c\<lparr>sp := sp c - 688\<rparr>)" by (simp add: vector_entry_def)
  then show ?thesis using run_exception_entry_kernel [of ty "c\<lparr>sp := sp c - 688\<rparr>"] by simp
qed

text \<open>What the handler has to keep: the stack pointer and the trap frame.\<close>

definition keeps_frame :: "(cpu \<Rightarrow> cpu) \<Rightarrow> bool" where
  "keeps_frame handler \<longleftrightarrow> (\<forall>c. sp (handler c) = sp c \<and> (\<forall>k < 86. cell_at (handler c) k = cell_at c k))"

section \<open>Properties\<close>

text \<open>C12: an interruption is invisible: after an exception taken in user mode or in the kernel, whose handler keeps
  its stack pointer and the trap frame and may do anything else to registers and memory, the program resumes
  where it was, with every general register, its stack pointer, its status and the vector registers 0 to 7
  and 16 to 31 as they were; a user program also has its own stack pointer back.\<close>

theorem exception_transparent:
  assumes "keeps_frame handler"
  shows "visible c (exception_from_el0 ty handler c) \<and> (sysr c SPSR AND 15 = 0 \<longrightarrow> sysr (exception_from_el0 ty handler c) SP_EL0 = sysr c SP_EL0) \<and>
    (sysr c SPSR AND 15 \<noteq> 0 \<longrightarrow> visible c (exception_from_el1 ty handler c))"
proof -
  let ?u = "run exception_save (run (vector_entry_lower ty) c)" and ?k = "run exception_save (run (vector_entry ty) c)"
  note u = entry_frame [OF entry_user cell_lists(2), unfolded cell_lists(1), simplified]
  note k = entry_frame [OF entry_kernel cell_lists(4), unfolded cell_lists(3), simplified]
  have "visible c (run exception_restore (handler ?u)) \<and> (sysr c SPSR AND 15 = 0 \<longrightarrow> sysr (run exception_restore (handler ?u)) SP_EL0 = sysr c SP_EL0)"
    using restored [of c "handler ?u"] assms u(1,2) by (simp add: keeps_frame_def)
  moreover have "visible c (run exception_restore (handler ?k))" if "sysr c SPSR AND 15 \<noteq> 0"
    using restored(1) [of c "handler ?k"] assms k(1,2) that by (simp add: keeps_frame_def)
  ultimately show ?thesis by (simp add: exception_from_el0_def exception_from_el1_def)
qed

definition demo_cpu :: cpu where
  "demo_cpu = \<lparr>xr = (\<lambda>i. if i = 0 then 0x1000 else if i = 1 then 0x2000 else of_nat i), qr = (\<lambda>i. of_nat (2 ^ 70 + i)), sp = 0x9000,
    sysr = (\<lambda>r. case r of ELR \<Rightarrow> 0x400000 | SPSR \<Rightarrow> 0 | SP_EL0 \<Rightarrow> 0x7FFF0000 | _ \<Rightarrow> 7),
    cells = (\<lambda>a. if a = 0x2000 then 0x8000 else if a = 0x2028 then 0x50000 else 0), irq_on = True\<rparr>"

theorem exception_transparent_witness:
  "visible demo_cpu (exception_from_el0 1 (\<lambda>c. c\<lparr>xr := (\<lambda>i. 0), qr := (\<lambda>i. 1)\<rparr>) demo_cpu) \<and>
   sysr (exception_from_el0 1 (\<lambda>c. c\<lparr>xr := (\<lambda>i. 0), qr := (\<lambda>i. 1)\<rparr>) demo_cpu) SP_EL0 = 0x7FFF0000"
proof -
  have "keeps_frame (\<lambda>c. c\<lparr>xr := (\<lambda>i. 0), qr := (\<lambda>i. 1)\<rparr>)" by (simp add: keeps_frame_def cell_at_def)
  from exception_transparent [OF this, of demo_cpu 1] show ?thesis by (simp add: demo_cpu_def)
qed

text \<open>The cells a switch to or from a task uses: its saved stack pointer and its switch frame.\<close>

definition task_cells :: "u64 \<Rightarrow> u64 \<Rightarrow> u64 set" where
  "task_cells t a = insert t (frame_addrs a)"

text \<open>C13: a task that is switched out and, later, switched to again, its stack and its saved stack pointer not
  having been written in the meantime, goes on as if its call of the context switch had just returned: with
  its stack pointer and all registers a function may rely on across a call, the return address among them;
  and the translation table is the one recorded for it, if it has one.\<close>

theorem context_switch_resumes:
  fixes c c2 :: cpu
  defines "task \<equiv> xr c 0"
  defines "mine \<equiv> task_cells task (sp c - 160)" and "e \<equiv> run context_switch c2"
  assumes "task \<notin> frame_addrs (sp c - 160)" and "xr c2 1 = task"
    and "\<And>a. a \<in> mine \<Longrightarrow> cells c2 a = cells (run context_switch c) a"
    and "xr c2 0 \<notin> frame_addrs (sp c2 - 160)" and "task_cells (xr c2 0) (sp c2 - 160) \<inter> insert (task + 40) mine = {}"
  shows "callee_saved e = callee_saved c \<and> sp e = sp c \<and>
    sysr e TTBR0 = (if cells c2 (task + 40) = 0 then sysr c2 TTBR0 else cells c2 (task + 40))"
proof -
  let ?a = "sp c - 160" and ?o = "run switch_out c2"
  note o1 = switch_out_result [OF assms(4) [unfolded task_def]] and o2 = switch_out_result [OF assms(7)]
  have out: "cells ?o a = cells c2 a" if "a \<in> insert (task + 40) mine" for a
    using o2(3) [of a] assms(8) that by (auto simp: task_cells_def)
  have same: "cells ?o a = cells (run switch_out c) a" if "a \<in> mine" for a
    using out [of a] assms(6) that switch_in_result(3) by (simp add: run_context_switch)
  have x1: "xr ?o 1 = task" using o2(4) assms(5) by simp
  have "cells ?o task = ?a" using same [of task] o1(2) by (simp add: mine_def task_cells_def task_def)
  note i = switch_in_result(1,2,4) [of ?o, unfolded x1 this]
  have "switch_frame (cells ?o) ?a = switch_frame (cells (run switch_out c)) ?a"
    unfolding switch_frame_def using same by (intro map_cong refl) (simp add: mine_def task_cells_def frame_addrs_def)
  then have "callee_saved e = callee_saved c" using i(1) o1(1) by (simp add: e_def run_context_switch)
  moreover have "sp e = sp c" using i(2) by (simp add: e_def run_context_switch)
  moreover have "sysr e TTBR0 = (if cells c2 (task + 40) = 0 then sysr c2 TTBR0 else cells c2 (task + 40))"
    using i(3) out [of "task + 40"] o2(7) by (simp add: e_def run_context_switch)
  ultimately show ?thesis by blast
qed

definition demo_back :: cpu where
  "demo_back = (run context_switch demo_cpu)\<lparr>xr := (\<lambda>i. if i = 0 then 0x2000 else if i = 1 then 0x1000 else 99), sp := 0x8400\<rparr>"

theorem context_switch_resumes_witness:
  "callee_saved (run context_switch demo_back) = callee_saved demo_cpu \<and> sp (run context_switch demo_back) = 0x9000"
proof -
  have x: "xr demo_cpu 0 = 0x1000" "xr demo_back 0 = 0x2000" "xr demo_back 1 = 0x1000" "sp demo_cpu = 0x9000" "sp demo_back = 0x8400" "xr demo_back (Suc 0) = 0x1000"
    by (simp_all add: demo_cpu_def demo_back_def)
  have c: "cells demo_back = cells (run context_switch demo_cpu)" by (simp add: demo_back_def)
  have "callee_saved (run context_switch demo_back) = callee_saved demo_cpu \<and> sp (run context_switch demo_back) = sp demo_cpu \<and>
      sysr (run context_switch demo_back) TTBR0 = (if cells demo_back (xr demo_cpu 0 + 40) = 0 then sysr demo_back TTBR0 else cells demo_back (xr demo_cpu 0 + 40))"
    by (rule context_switch_resumes) (auto simp: x c task_cells_def frame_addrs_def frame_offsets_def)
  then show ?thesis by (simp add: x)
qed

text \<open>The upper halves of the vector registers 8 to 15 survive neither: a switch clears them, and an exception
  leaves them to the handler.\<close>

lemma switch_clears_upper_halves: "8 \<le> i \<Longrightarrow> i \<le> 15 \<Longrightarrow> hi64 (qr (run context_switch c) i) = 0"
  using switch_in_result(5) [of i] by (simp add: run_context_switch)

text \<open>The first instructions of a user task: to the entry point, in user mode, on the user stack.\<close>

lemma task_trampoline_result:
  "run task_trampoline_asm c = c\<lparr>irq_on := True, xr := (xr c)(0 := 0),
    sysr := (sysr c)(SP_EL0 := xr c 20, ELR := xr c 19, SPSR := 0)\<rparr>"
  by (simp add: task_trampoline_asm_def)

text \<open>A forked child starts here, its stack pointer at a copy of the parent's 688-byte trap frame: the general
  registers come from the frame, but only 288 bytes are popped and the vector registers are not loaded.\<close>

lemma fork_return_result:
  "qr (run fork_return_asm c) = qr c" "sp (run fork_return_asm c) = sp c + 288"
  "sysr (run fork_return_asm c) ELR = cells c (sp c + 248)" "sysr (run fork_return_asm c) SPSR = cells c (sp c + 256)"
  "sysr (run fork_return_asm c) FPSR = sysr c FPSR"
  by (simp_all add: fork_return_asm_def)

end
