(* ===== verification/Spec2Isabelle.thy ===== *)
theory Spec2Isabelle
  imports Framing Uart Fat32_Files Driver_Init Context
begin

text \<open>
  A verification library for the kernel, a bare-metal operating system for AArch64 whose sources are
  under \<^verbatim>\<open>src/src\<close>; paths below are relative to that directory.

  \<^bold>\<open>The program.\<close>  A page allocator feeds the kernel heap and the page tables; the heap holds the task
  structures, open files and descriptor tables; the scheduler chooses tasks by priority, and the real-time
  extension adds periodic releases, mutexes and semaphores to it; the timer interrupt drives both and the
  alarms of the signal code; the loader fills new address spaces from executables, which come from the FAT32
  file system behind the virtual file system.  Below, the PCI bus code finds the VirtIO devices, and each
  driver talks to its device through virtqueues.  A second serial line carries a framing protocol.  Assembly
  code saves and restores the processor state around exceptions and task switches.

  \<^bold>\<open>How it is modelled.\<close>  Each C function is a function on a record whose fields are the file-scope variables.
  The records extend each other in the order in which components call each other: \<open>pmm\<close>, \<open>heap\<close>, \<open>mm\<close>, \<open>vfs\<close>,
  \<open>sched\<close>, \<open>rtos\<close>, \<open>sys\<close>, \<open>kern\<close>, \<open>fatfs\<close>; an operation is polymorphic in the extension, so that a client calls it on its
  own state.  The drivers have records of their own; \<open>balloon\<close> extends \<open>pmm\<close>.  Machine integers are words of
  their width.  Linked structures are followed through their pointers as in C; a loop that may not end is a
  partial function into an option, and \<open>None\<close> means that the C function does not return or has no defined
  behaviour.  Errors are the C result codes, or the failing case of an option.  Devices, the counter, driver
  callbacks and the C code called from assembly are parameters, on which theorems put only the hypotheses
  they state.  Console output, barriers, cache and TLB maintenance have no state.

  \<^bold>\<open>Memory.\<close>
  \<^item> \<open>Kernel_Prelude\<close>: words, page arithmetic, lists and tilings of a range, shared by all.
  \<^item> \<open>Page_Alloc_Spec\<close>, \<open>Object_Alloc_Spec\<close>: the contracts of a page allocator and of an object allocator, as
    locales with the lemmas of their clients.
  \<^item> \<open>Pmm\<close> (\<^verbatim>\<open>mm/pmm\<close>): the bitmap allocator; first fit, exact release, and an interpretation of the first
    contract, so that live allocations never overlap.
  \<^item> \<open>Heap_Alloc\<close> (\<^verbatim>\<open>mm/heap\<close>): the heap, refined to operations on lists of blocks; contracts of \<open>kmalloc\<close> and \<open>kfree\<close>,
    safety of call sequences, and an interpretation of the second contract.
  \<^item> \<open>Mmu\<close> (\<^verbatim>\<open>mm/mmu\<close>): page tables read as trees; exact effect of mapping and release, isolation of address spaces.

  \<^bold>\<open>Libraries and the serial line.\<close>
  \<^item> \<open>Strings_Lib\<close> (\<^verbatim>\<open>lib/strings\<close>): memory copies with overlap, C strings, the bounded formatter.
  \<^item> \<open>Uart\<close> (\<^verbatim>\<open>lib/uart/uart.c\<close>): the receive ring, an interpretation of the locale of bounded queues; number printing.
  \<^item> \<open>Framing\<close> (\<^verbatim>\<open>lib/uart/framing.c\<close>): checksum, stuffing, round trip, error detection, reception and bounded retries.
  \<^item> \<open>Little_Endian\<close>: byte-addressed memory, for structures laid over bytes.

  \<^bold>\<open>Files and tasks.\<close>
  \<^item> \<open>Vfs\<close> (\<^verbatim>\<open>fs/vfs\<close>): the node tree, path resolution, descriptor tables, and that they leak nothing.
  \<^item> \<open>Sched\<close>, \<open>Sched_Inv\<close> (\<^verbatim>\<open>sched/sched.c\<close>): tasks, run queue, choice of the next task; the invariant with the ownership
    of all memory under every operation, the rule of choice, round robin.
  \<^item> \<open>Rtos\<close> (\<^verbatim>\<open>sched/rtos.c\<close>): releases, mutexes with priority inheritance, semaphores.
  \<^item> \<open>Signals\<close> (\<^verbatim>\<open>syscall/signal.c\<close>, \<^verbatim>\<open>exception/timer\<close>): delivery and return as inverse operations; the timer interrupt.
  \<^item> \<open>Elf\<close> (\<^verbatim>\<open>syscall/elf.c\<close>): what a successful load guarantees, and what a failed one leaves.
  \<^item> \<open>Fat32\<close>, \<open>Fat32_Files\<close> (\<^verbatim>\<open>fs/fat32\<close>): the volume, and that a created file is found and read back.
  \<^item> \<open>Context\<close> (\<^verbatim>\<open>sched/switch.S\<close>, \<^verbatim>\<open>exception/vector.S\<close>): the assembly as lists of instructions with an interpreter; an
    exception is invisible to the interrupted program, and a task resumes where it was switched out.

  \<^bold>\<open>Devices.\<close>
  \<^item> \<open>Pci\<close> (\<^verbatim>\<open>pci/pci.c\<close>, \<^verbatim>\<open>pci/virtio/virtio.c\<close>): enumeration, placement of the address windows, capability lists.
  \<^item> \<open>Virtqueue\<close> (\<^verbatim>\<open>pci/virtio/virtqueue.c\<close>): the rings under every interleaving of driver and device.
  \<^item> \<open>Virtio_Init\<close>: the start-up steps the drivers share, and the order the VirtIO specification prescribes for
    them, as an automaton over register writes.
  \<^item> \<open>Rng\<close>, \<open>Console\<close>, \<open>Balloon\<close>, \<open>Net\<close>, \<open>Blk\<close> (directories of \<^verbatim>\<open>pci/virtio\<close>): the drivers; streams delivered whole,
    pages conserved, frames well formed, the DHCP client, the splitting and retrying of block requests.
  \<^item> \<open>Driver_Init\<close>: start-up of the network and block drivers, and that all five drivers follow the automaton.

  \<^bold>\<open>Bounds.\<close>  No definition uses artificial fuel.  Loops bounded in the source keep its bounds (polling limits,
  48 capability steps, retry counts, 256-byte payloads); the totality of the partial functions is part of
  the theorems, which show that a result exists under the invariant.  Some theorems assume ranges that the
  memory map satisfies, such as physical memory below \<open>2 ^ 44\<close> in \<open>Balloon\<close> so that frame numbers fit 32 bits.

  \<^bold>\<open>What the code does not do.\<close>  Where the code departs from its documentation or its purpose, a lemma shows the
  behaviour on a concrete or general state: \<open>expand_pages_wraps\<close>, \<open>sync_start_misses_frame\<close>, \<open>deliver_one_wraps\<close>,
  \<open>sigreturn_spsr_from_user\<close>, \<open>boost_leaves_queue_unsorted\<close>, \<open>deleted_mark_name\<close>, \<open>large_request_is_empty\<close>,
  \<open>prompt_interrupt_is_lost\<close>, \<open>dhcp_parse_reads_past_buffer\<close>, \<open>cyclic_list_hangs\<close>, \<open>rng_read_silent_device\<close>,
  \<open>deflate_unacknowledged\<close>, \<open>switch_clears_upper_halves\<close>, \<open>fork_return_result\<close> and others.

  \<^bold>\<open>Not modelled.\<close>  The dispatch of system calls and exceptions (\<^verbatim>\<open>syscall/syscall.c\<close>, \<^verbatim>\<open>exception/exception.c\<close>), which
  calls the operations above; the interrupt controller, processor identification and register access
  (\<^verbatim>\<open>exception/gic\<close>, \<^verbatim>\<open>lib/cpu\<close>, \<^verbatim>\<open>lib/mmio\<close>), which access registers and keep only interrupt counts, identification
  values and an address offset; boot code and the shell (\<^verbatim>\<open>boot.S\<close>,
  \<^verbatim>\<open>kernel.c\<close>); the adapters and texts of device and process files (\<^verbatim>\<open>devices\<close>, \<^verbatim>\<open>fs/proc\<close>); benchmarks, self tests,
  user programs and host tools; in \<open>Mmu\<close> the programming of the system registers, in \<open>Uart\<close> that of the serial
  ports, and in \<open>Context\<close> the vector table and the trampoline of kernel tasks.  The FAT32 model uses its own
  abstraction of sector transfers and is not stacked on \<open>Blk\<close>.
\<close>

end
